(* ===== verification/HjPrelude.thy ===== *)
theory HjPrelude
  imports Main "HOL-Library.Word"
begin

text \<open>
  The prelude of the development: the names of the machine types of the C++ sources, the
  ways in which a C++ operation can go wrong, and the generic facts on lists and words that
  the components share.

  \<^item> Integers of a fixed width are words: \<open>u8\<close> is \<open>uint8_t\<close> (and \<open>unsigned char\<close>),
    \<open>u16\<close>, \<open>u32\<close> and \<open>u64\<close> their wider siblings. A signed integer is the same word read by
    \<open>sint\<close>; \<open>>>\<close> on it is the arithmetic shift \<open>signed_drop_bit\<close>.
  \<^item> Indices, lengths and counts of type \<open>std::size_t\<close> that are bounded by the memory of the
    process are \<open>nat\<close>; where wrap-around is observable the component uses a word.
  \<^item> A pointer argument that may be \<open>nullptr\<close> is an \<open>option\<close>.
\<close>

unbundle bit_operations_syntax

type_synonym u8 = "8 word"
type_synonym u16 = "16 word"
type_synonym u32 = "32 word"
type_synonym u64 = "64 word"

type_synonym bytes = "u8 list"

text \<open>
  A fault is what a C++ function does instead of returning: a failed \<open>assert\<close>, a standard
  exception that it throws, or an access outside an object (undefined behaviour, which the
  model makes visible as a value of its own).
\<close>

datatype cxx_fault =
    Assert_failed
  | Throw_out_of_range
  | Throw_invalid_argument
  | Throw_runtime_error
  | Throw_bad_alloc
  | Throw_length_error
  | Out_of_bounds
  | Signed_overflow
  | Division_by_zero
  | Shift_out_of_range

type_synonym 'a result = "cxx_fault + 'a"

text \<open>\<open>std::memcpy(dst, src, n)\<close> on two distinct buffers: \<open>n\<close> bytes at the front are replaced.\<close>

definition memcpy :: "bytes \<Rightarrow> bytes \<Rightarrow> nat \<Rightarrow> bytes result" where
  "memcpy dst src n =
     (if n \<le> length dst \<and> n \<le> length src then Inr (take n src @ drop n dst)
      else Inl Out_of_bounds)"

text \<open>Subtraction in \<open>size_t\<close>, which wraps.\<close>

definition size_sub :: "nat \<Rightarrow> nat \<Rightarrow> nat" where
  "size_sub a b = (if b \<le> a then a - b else 2 ^ 64 + a - b)"

definition INT_MAX :: nat where
  "INT_MAX = 2 ^ 31 - 1"

named_theorems bit_slots \<open>which bits of a word a shifted byte occupies\<close>
named_theorems word_masks \<open>bit masks written as literals in the sources\<close>

subsection \<open>Lists\<close>

lemma length_update_simps [simp]: "length (foldl (\<lambda>ys i. ys[f i := g i]) xs is) = length xs"
  by (induction "is" arbitrary: xs) simp_all

lemma foldl_update_notin:
  "j \<notin> f ` set is \<Longrightarrow> foldl (\<lambda>ys i. ys[f i := g i]) xs is ! j = xs ! j"
  by (induction "is" arbitrary: xs) auto

text \<open>A loop that writes each index of a range once is a map over the range.\<close>

lemma foldl_update_upt_nth:
  "j < length xs \<Longrightarrow>
   foldl (\<lambda>ys i. ys[i := g i]) xs [0..<n] ! j = (if j < n then g j else xs ! j)"
  by (induction n) (auto simp: nth_list_update less_Suc_eq)

lemma foldl_update_upt:
  "n \<le> length xs \<Longrightarrow>
   foldl (\<lambda>ys i. ys[i := g i]) xs [0..<n] = map g [0..<n] @ drop n xs"
  by (rule nth_equalityI) (auto simp: foldl_update_upt_nth nth_append)

lemma length_ge_4E:
  assumes "4 \<le> length xs"
  obtains a b c d rest where "xs = a # b # c # d # rest"
  using assms by (auto simp: numeral_eq_Suc Suc_le_length_iff)

subsection \<open>Words\<close>

lemma bit_u8_less [dest]: "bit (b::u8) k \<Longrightarrow> k < 8"
  using bit_imp_le_length [of b k] by simp

lemma unat_u8_less: "unat (c::u8) < 256"
  by (rule order_less_le_trans [OF unsigned_less]) simp

text \<open>Joining a high and a low part by \<open>OR\<close> is addition.\<close>

lemma or_push_bit_nat: "(c::nat) < 2 ^ n \<Longrightarrow> push_bit n a OR c = a * 2 ^ n + c"
proof -
  assume "c < 2 ^ n"
  then have "take_bit n c = c" by (simp add: take_bit_nat_eq_self)
  then have "bit c k \<Longrightarrow> k < n" for k by (metis bit_take_bit_iff)
  then have "push_bit n a AND c = 0" by (intro bit_eqI) (fastforce simp: bit_simps)
  then have "push_bit n a + c = push_bit n a OR c" by (rule disjunctive_add_eq_or)
  then show ?thesis by (simp add: push_bit_eq_mult)
qed

lemma xor_right_cancel [simp]: "(a::'a::len word) XOR p = b XOR p \<longleftrightarrow> a = b"
proof
  assume "a XOR p = b XOR p"
  then have "(a XOR p) XOR p = (b XOR p) XOR p" by simp
  then show "a = b" by (simp add: xor.assoc)
qed simp

lemma xor_left_cancel [simp]: "(p::'a::len word) XOR a = p XOR b \<longleftrightarrow> a = b"
  using xor_right_cancel [of a p b] by (simp add: xor.commute)

text \<open>\<open>static_cast<int>\<close> of a \<open>size_t\<close>.\<close>

lemma sint_u32_small: "r < 2 ^ 31 \<Longrightarrow> sint (of_nat r :: u32) = int r"
  by (simp add: signed_of_nat signed_take_bit_int_eq_self)

lemma sint_u32_big: "2 ^ 31 \<le> r \<Longrightarrow> r < 2 ^ 32 \<Longrightarrow> sint (of_nat r :: u32) < 0"
  using int_div_pos_eq [of "int r" 2147483648 1 "int r - 2147483648"]
  by (simp add: signed_of_nat signed_take_bit_negative_iff bit_iff_odd)

text \<open>A loop that ors one word per index.\<close>

lemma bit_foldl_or:
  fixes a :: "'a::len word"
  shows "bit (foldl (\<lambda>n i. n OR f i) a is) k \<longleftrightarrow> bit a k \<or> (\<exists>i\<in>set is. bit (f i) k)"
  by (induction "is" arbitrary: a) (auto simp: bit_simps)

lemma mask_FF [word_masks]: "(x::'a::len word) AND 0xFF = take_bit 8 x"
proof -
  have "(0xFF::'a word) = mask 8" by (simp add: mask_eq_exp_minus_1)
  then show ?thesis by (simp add: take_bit_eq_mask)
qed

lemma unat_take_bit_8: "unat (take_bit 8 (x::'a::len word)) < 256"
  using take_bit_nat_less_exp [of 8 "unat x"] by (simp add: unsigned_take_bit_eq)

text \<open>A word is its low byte and the rest.\<close>

lemma low_byte_split: "(x::'a::len word) = take_bit 8 x XOR push_bit 8 (drop_bit 8 x)"
proof (rule bit_word_eqI)
  show "bit x n = bit (take_bit 8 x XOR push_bit 8 (drop_bit 8 x)) n" for n
    by (cases "n < 8") (auto simp: bit_simps dest: bit_imp_le_length)
qed

text \<open>
  Cutting byte \<open>j div 8\<close> out of a word and shifting it back into place keeps exactly the bits
  of that byte.
\<close>

lemma byte_slot [bit_slots]:
  fixes n :: "'a::len word"
  assumes "j + 8 \<le> LENGTH('a)"
  shows "bit (push_bit j (ucast (ucast (signed_drop_bit j n AND 0xFF) :: u8) :: 'a word)) k
         \<longleftrightarrow> j \<le> k \<and> k < j + 8 \<and> bit n k"
  using assms by (auto simp: word_masks bit_simps dest: bit_imp_le_length)

lemma byte_slot_0 [bit_slots]:
  fixes n :: "'a::len word"
  assumes "8 \<le> LENGTH('a)"
  shows "bit (ucast (ucast (n AND 0xFF) :: u8) :: 'a word) k \<longleftrightarrow> k < 8 \<and> bit n k"
  using byte_slot [of 0 n k] assms by simp

lemma byte_bits [bit_slots]:
  fixes n :: "'a::len word"
  assumes "j + 8 \<le> LENGTH('a)" "m < 8"
  shows "bit (ucast (signed_drop_bit j n AND 0xFF) :: u8) m = bit n (j + m)"
  using assms by (auto simp: word_masks bit_simps)

text \<open>Conversely, a byte that was shifted into place is read back by shifting and masking.\<close>

lemma byte_of_bits:
  fixes w :: "'a::len word" and b :: u8
  assumes "j + 8 \<le> LENGTH('a)" and "\<And>k. k < 8 \<Longrightarrow> bit w (j + k) = bit b k"
  shows "ucast (signed_drop_bit j w AND 0xFF) = b"
  using assms by (intro bit_word_eqI) (auto simp: word_masks bit_simps)

end
