(* ===== verification/Bytes.thy ===== *)
theory Bytes
  imports HjPrelude
begin

text \<open>
  \<open>src/hj/encoding/bytes.hpp\<close>: conversions between byte arrays and booleans, 32- and 64-bit
  signed integers, floating-point values and strings.

  A container \<open>T\<close> (\<open>std::array<unsigned char, N>\<close>) is a list of bytes of the container's
  fixed length; its \<open>static_assert\<close> on the size is the hypothesis on the length that the
  theorems name. The pointer overloads check their arguments with \<open>assert\<close>: they take a
  possibly null pointer to a buffer and the size the caller announces, and fail with
  \<open>Assert_failed\<close> when the check does and with \<open>Out_of_bounds\<close> when the announced size
  exceeds the buffer. The value of an \<open>int32_t\<close> or \<open>int64_t\<close> is a word read by \<open>sint\<close>; a
  \<open>float\<close> or \<open>double\<close> is its object representation (\<open>std::memcpy\<close> moves nothing else).
\<close>

section \<open>Definitions\<close>

subsection \<open>Booleans\<close>

definition bytes_to_bool :: "bytes \<Rightarrow> bool" where
  "bytes_to_bool bs \<longleftrightarrow> (bs ! 0) AND 0x01 = 1"

definition bytes_to_bool_ptr :: "bytes option \<Rightarrow> nat \<Rightarrow> bool result" where
  "bytes_to_bool_ptr p sz =
     (case p of
        None \<Rightarrow> Inl Assert_failed
      | Some bs \<Rightarrow>
          if \<not> sz \<ge> 1 then Inl Assert_failed
          else if length bs < 1 then Inl Out_of_bounds
          else Inr ((bs ! 0) AND 0x01 = 1))"

definition bool_to_bytes :: "bytes \<Rightarrow> bool \<Rightarrow> bytes" where
  "bool_to_bytes bs b = bs[0 := (if b then 0x01 else 0x00)]"

definition bool_to_bytes_ptr :: "bytes option \<Rightarrow> nat \<Rightarrow> bool \<Rightarrow> (bytes \<times> nat) result" where
  "bool_to_bytes_ptr p sz b =
     (case p of
        None \<Rightarrow> Inl Assert_failed
      | Some bs \<Rightarrow>
          if \<not> sz \<ge> 1 then Inl Assert_failed
          else if length bs < 1 then Inl Out_of_bounds
          else Inr (bs[0 := (if b then 0x01 else 0x00)], 1))"

subsection \<open>32-bit integers\<close>

definition bytes_to_int32 :: "bytes \<Rightarrow> bool \<Rightarrow> u32" where
  "bytes_to_int32 bs big_endian =
     (if big_endian then
        push_bit 24 (ucast (bs ! 0)) OR push_bit 16 (ucast (bs ! 1))
        OR push_bit 8 (ucast (bs ! 2)) OR ucast (bs ! 3)
      else
        push_bit 24 (ucast (bs ! 3)) OR push_bit 16 (ucast (bs ! 2))
        OR push_bit 8 (ucast (bs ! 1)) OR ucast (bs ! 0))"

definition bytes_to_int32_ptr :: "bytes option \<Rightarrow> nat \<Rightarrow> bool \<Rightarrow> u32 result" where
  "bytes_to_int32_ptr p sz big_endian =
     (case p of
        None \<Rightarrow> Inl Assert_failed
      | Some bs \<Rightarrow>
          if \<not> sz \<ge> 4 then Inl Assert_failed
          else if length bs < 4 then Inl Out_of_bounds
          else if big_endian then
            Inr (push_bit 24 (ucast (bs ! 0)) OR push_bit 16 (ucast (bs ! 1))
                 OR push_bit 8 (ucast (bs ! 2)) OR ucast (bs ! 3))
          else
            Inr (push_bit 24 (ucast (bs ! 3)) OR push_bit 16 (ucast (bs ! 2))
                 OR push_bit 8 (ucast (bs ! 1)) OR ucast (bs ! 0)))"

definition int32_to_bytes :: "bytes \<Rightarrow> u32 \<Rightarrow> bool \<Rightarrow> bytes" where
  "int32_to_bytes bs n big_endian =
     (if big_endian then
        bs[0 := ucast (signed_drop_bit 24 n AND 0xFF),
           1 := ucast (signed_drop_bit 16 n AND 0xFF),
           2 := ucast (signed_drop_bit 8 n AND 0xFF),
           3 := ucast (n AND 0xFF)]
      else
        bs[3 := ucast (signed_drop_bit 24 n AND 0xFF),
           2 := ucast (signed_drop_bit 16 n AND 0xFF),
           1 := ucast (signed_drop_bit 8 n AND 0xFF),
           0 := ucast (n AND 0xFF)])"

definition int32_to_bytes_ptr ::
    "bytes option \<Rightarrow> nat \<Rightarrow> u32 \<Rightarrow> bool \<Rightarrow> (bytes \<times> nat) result" where
  "int32_to_bytes_ptr p sz n big_endian =
     (case p of
        None \<Rightarrow> Inl Assert_failed
      | Some bs \<Rightarrow>
          if \<not> sz \<ge> 4 then Inl Assert_failed
          else if length bs < 4 then Inl Out_of_bounds
          else if big_endian then
            Inr (bs[0 := ucast (signed_drop_bit 24 n AND 0xFF),
                    1 := ucast (signed_drop_bit 16 n AND 0xFF),
                    2 := ucast (signed_drop_bit 8 n AND 0xFF),
                    3 := ucast (n AND 0xFF)], 4)
          else
            Inr (bs[3 := ucast (signed_drop_bit 24 n AND 0xFF),
                    2 := ucast (signed_drop_bit 16 n AND 0xFF),
                    1 := ucast (signed_drop_bit 8 n AND 0xFF),
                    0 := ucast (n AND 0xFF)], 4))"

subsection \<open>64-bit integers\<close>

definition bytes_to_int64 :: "bytes \<Rightarrow> bool \<Rightarrow> u64" where
  "bytes_to_int64 bs big_endian =
     (if big_endian then
        foldl (\<lambda>n i. n OR push_bit (56 - 8 * i) (ucast (bs ! i))) 0 [0..<8]
      else
        foldl (\<lambda>n i. n OR push_bit (8 * i) (ucast (bs ! i))) 0 [0..<8])"

definition bytes_to_int64_ptr :: "bytes option \<Rightarrow> nat \<Rightarrow> bool \<Rightarrow> u64 result" where
  "bytes_to_int64_ptr p sz big_endian =
     (if \<not> sz \<ge> 8 then Inl Assert_failed
      else case p of
        None \<Rightarrow> Inl Out_of_bounds
      | Some bs \<Rightarrow>
          if length bs < 8 then Inl Out_of_bounds
          else if big_endian then
            Inr (foldl (\<lambda>n i. n OR push_bit (56 - 8 * i) (ucast (bs ! i))) 0 [0..<8])
          else
            Inr (foldl (\<lambda>n i. n OR push_bit (8 * i) (ucast (bs ! i))) 0 [0..<8]))"

definition int64_to_bytes :: "bytes \<Rightarrow> u64 \<Rightarrow> bool \<Rightarrow> bytes" where
  "int64_to_bytes bs n big_endian =
     (if big_endian then
        foldl (\<lambda>ys i. ys[i := ucast (signed_drop_bit (56 - 8 * i) n AND 0xFF)]) bs [0..<8]
      else
        foldl (\<lambda>ys i. ys[i := ucast (signed_drop_bit (8 * i) n AND 0xFF)]) bs [0..<8])"

definition int64_to_bytes_ptr ::
    "bytes option \<Rightarrow> nat \<Rightarrow> u64 \<Rightarrow> bool \<Rightarrow> (bytes \<times> nat) result" where
  "int64_to_bytes_ptr p sz n big_endian =
     (case p of
        None \<Rightarrow> Inl Assert_failed
      | Some bs \<Rightarrow>
          if \<not> sz \<ge> 8 then Inl Assert_failed
          else if length bs < 8 then Inl Out_of_bounds
          else if big_endian then
            Inr (foldl (\<lambda>ys i. ys[i := ucast (signed_drop_bit (56 - 8 * i) n AND 0xFF)])
                   bs [0..<8], 8)
          else
            Inr (foldl (\<lambda>ys i. ys[i := ucast (signed_drop_bit (8 * i) n AND 0xFF)])
                   bs [0..<8], 8))"

subsection \<open>Floating-point values\<close>

text \<open>A \<open>float\<close> is its four bytes of object representation, a \<open>double\<close> its eight.\<close>

definition bytes_to_float :: "bytes \<Rightarrow> bytes result" where
  "bytes_to_float bs = memcpy (replicate 4 0) bs 4"

definition bytes_to_float_ptr :: "bytes \<Rightarrow> nat \<Rightarrow> bytes result" where
  "bytes_to_float_ptr bs sz =
     (if \<not> sz \<ge> 4 then Inl Assert_failed else memcpy (replicate 4 0) bs 4)"

definition float_to_bytes :: "bytes \<Rightarrow> bytes \<Rightarrow> bytes result" where
  "float_to_bytes bs f = memcpy bs f 4"

definition float_to_bytes_ptr :: "bytes option \<Rightarrow> nat \<Rightarrow> bytes \<Rightarrow> (bytes \<times> nat) result" where
  "float_to_bytes_ptr p sz f =
     (case p of
        None \<Rightarrow> Inl Assert_failed
      | Some bs \<Rightarrow>
          if \<not> sz \<ge> 4 then Inl Assert_failed
          else map_sum id (\<lambda>r. (r, 4)) (memcpy bs f 4))"

definition bytes_to_double :: "bytes \<Rightarrow> bytes result" where
  "bytes_to_double bs = memcpy (replicate 8 0) bs 8"

definition bytes_to_double_ptr :: "bytes \<Rightarrow> nat \<Rightarrow> bytes result" where
  "bytes_to_double_ptr bs sz =
     (if \<not> sz \<ge> 8 then Inl Assert_failed else memcpy (replicate 8 0) bs 8)"

definition double_to_bytes :: "bytes \<Rightarrow> bytes \<Rightarrow> bytes result" where
  "double_to_bytes bs d = memcpy bs d 8"

definition double_to_bytes_ptr :: "bytes option \<Rightarrow> nat \<Rightarrow> bytes \<Rightarrow> (bytes \<times> nat) result" where
  "double_to_bytes_ptr p sz d =
     (case p of
        None \<Rightarrow> Inl Assert_failed
      | Some bs \<Rightarrow>
          if \<not> sz \<ge> 8 then Inl Assert_failed
          else map_sum id (\<lambda>r. (r, 8)) (memcpy bs d 8))"

subsection \<open>Strings\<close>

definition bytes_to_string :: "bytes \<Rightarrow> nat \<Rightarrow> bytes result" where
  "bytes_to_string bs sz = (if sz \<le> length bs then Inr (take sz bs) else Inl Out_of_bounds)"

definition string_to_bytes :: "bytes \<Rightarrow> bytes \<Rightarrow> bytes result" where
  "string_to_bytes bs str = memcpy bs str (min (length str) (length bs))"

text \<open>The overloads on \<open>unsigned char *\<close> and \<open>char *\<close> have the same body.\<close>

definition string_to_bytes_ptr :: "bytes option \<Rightarrow> nat \<Rightarrow> bytes \<Rightarrow> (bytes \<times> nat) result" where
  "string_to_bytes_ptr p sz str =
     (case p of
        None \<Rightarrow> Inl Assert_failed
      | Some bs \<Rightarrow>
          if \<not> sz \<ge> length str then Inl Assert_failed
          else let sz' = min (length str) sz
               in map_sum id (\<lambda>r. (r, sz')) (memcpy bs str sz'))"

section \<open>The contract of an integer codec\<close>

text \<open>
  What a client of \<open>int32_to_bytes\<close>/\<open>bytes_to_int32\<close> and of their 64-bit siblings relies on:
  the two directions are inverse, writing touches only the first \<open>width\<close> bytes, and the two
  byte orders are mirror images.
\<close>

locale int_codec =
  fixes enc :: "bytes \<Rightarrow> 'a::len word \<Rightarrow> bool \<Rightarrow> bytes"
    and dec :: "bytes \<Rightarrow> bool \<Rightarrow> 'a word"
    and width :: nat
  assumes dec_enc: "width \<le> length bs \<Longrightarrow> dec (enc bs n be) be = n"
    and enc_dec: "width \<le> length bs \<Longrightarrow> enc bs (dec bs be) be = bs"
    and length_enc: "length (enc bs n be) = length bs"
    and drop_enc: "width \<le> length bs \<Longrightarrow> drop width (enc bs n be) = drop width bs"
    and enc_local: "width \<le> length bs \<Longrightarrow> length cs = length bs \<Longrightarrow>
                    drop width bs = drop width cs \<Longrightarrow> enc bs n be = enc cs n be"
    and dec_local: "width \<le> length bs \<Longrightarrow> take width bs = take width cs \<Longrightarrow>
                    dec bs be = dec cs be"
    and dec_mirror: "length bs = width \<Longrightarrow> dec (rev bs) (\<not> be) = dec bs be"
begin

lemma enc_inject:
  "width \<le> length bs \<Longrightarrow> width \<le> length cs \<Longrightarrow> enc bs n be = enc cs m be \<Longrightarrow> n = m"
  using dec_enc by metis

lemma enc_overwrite:
  assumes "width \<le> length bs"
  shows "enc (enc bs m be) n be = enc bs n be"
  using assms by (intro enc_local) (simp_all add: length_enc drop_enc)

lemma dec_enc_append:
  assumes "width \<le> length bs"
  shows "dec (enc bs n be @ rest) be = n"
proof -
  have "dec (enc bs n be @ rest) be = dec (enc bs n be) be"
    using assms by (intro dec_local) (simp_all add: length_enc)
  then show ?thesis by (simp add: dec_enc assms)
qed

lemma enc_mirror:
  assumes "length bs = width"
  shows "enc bs n (\<not> be) = rev (enc bs n be)"
proof -
  let ?r = "rev (enc bs n be)"
  have "dec ?r (\<not> be) = n"
    using assms by (subst dec_mirror) (simp_all add: length_enc dec_enc)
  then have "?r = enc ?r n (\<not> be)"
    using assms enc_dec [of ?r "\<not> be"] by (simp add: length_enc)
  also have "\<dots> = enc bs n (\<not> be)"
    using assms by (intro enc_local) (simp_all add: length_enc)
  finally show ?thesis by simp
qed

end

section \<open>The codecs satisfy the contract\<close>

subsection \<open>32-bit integers\<close>

lemma dec32_enc32:
  assumes "4 \<le> length bs"
  shows "bytes_to_int32 (int32_to_bytes bs n be) be = n"
proof -
  from assms obtain a b c d rest where "bs = a # b # c # d # rest"
    by (rule length_ge_4E)
  then show ?thesis
    by (intro bit_word_eqI)
       (auto simp: bytes_to_int32_def int32_to_bytes_def bit_or_iff bit_slots)
qed

lemma enc32_dec32:
  assumes "4 \<le> length bs"
  shows "int32_to_bytes bs (bytes_to_int32 bs be) be = bs"
proof -
  from assms obtain a b c d rest where bs: "bs = a # b # c # d # rest"
    by (rule length_ge_4E)
  let ?n = "bytes_to_int32 bs be"
  have "ucast (signed_drop_bit 24 ?n AND 0xFF) = (if be then a else d)"
    and "ucast (signed_drop_bit 16 ?n AND 0xFF) = (if be then b else c)"
    and "ucast (signed_drop_bit 8 ?n AND 0xFF) = (if be then c else b)"
    and "ucast (signed_drop_bit 0 ?n AND 0xFF) = (if be then d else a)"
    by (rule byte_of_bits; auto simp: bs bytes_to_int32_def bit_simps)+
  then show ?thesis by (cases be) (simp_all add: int32_to_bytes_def bs)
qed

lemma drop_enc32:
  assumes "4 \<le> length bs"
  shows "drop 4 (int32_to_bytes bs n be) = drop 4 bs"
proof -
  from assms obtain a b c d rest where "bs = a # b # c # d # rest"
    by (rule length_ge_4E)
  then show ?thesis by (simp add: int32_to_bytes_def)
qed

lemma enc32_local:
  assumes "4 \<le> length bs" "length cs = length bs" "drop 4 bs = drop 4 cs"
  shows "int32_to_bytes bs n be = int32_to_bytes cs n be"
proof -
  from assms(1) obtain a b c d rest where "bs = a # b # c # d # rest"
    by (rule length_ge_4E)
  moreover from assms(1,2) obtain a' b' c' d' rest' where "cs = a' # b' # c' # d' # rest'"
    by (metis length_ge_4E)
  ultimately show ?thesis using assms(3) by (simp add: int32_to_bytes_def)
qed

lemma dec32_mirror:
  assumes "length bs = 4"
  shows "bytes_to_int32 (rev bs) (\<not> be) = bytes_to_int32 bs be"
proof -
  have "rev bs ! i = bs ! (3 - i)" if "i < 4" for i
    using that assms by (simp add: rev_nth)
  from this [of 0] this [of 1] this [of 2] this [of 3] show ?thesis
    by (cases be) (simp_all add: bytes_to_int32_def)
qed

lemma dec32_local:
  assumes "4 \<le> length bs" "take 4 bs = take 4 cs"
  shows "bytes_to_int32 bs be = bytes_to_int32 cs be"
proof -
  have "bs ! i = cs ! i" if "i < 4" for i
    using that assms(2) by (metis nth_take)
  from this [of 0] this [of 1] this [of 2] this [of 3] show ?thesis
    by (simp add: bytes_to_int32_def)
qed

lemma length_enc32: "length (int32_to_bytes bs n be) = length bs"
  by (simp add: int32_to_bytes_def)

interpretation i32: int_codec int32_to_bytes bytes_to_int32 4
  by unfold_locales
     (fact dec32_enc32 enc32_dec32 length_enc32 drop_enc32 enc32_local dec32_local dec32_mirror)+

subsection \<open>64-bit integers\<close>

text \<open>Byte \<open>i\<close> of the array holds the bits from \<open>shift64 be i\<close> on.\<close>

definition shift64 :: "bool \<Rightarrow> nat \<Rightarrow> nat" where
  "shift64 be i = (if be then 56 - 8 * i else 8 * i)"

lemma shift64_bound: "i < 8 \<Longrightarrow> shift64 be i + 8 \<le> 64"
  by (auto simp: shift64_def)

lemma shift64_cover: "k < 64 \<Longrightarrow> \<exists>i<8. shift64 be i \<le> k \<and> k < shift64 be i + 8"
  by (rule exI [of _ "if be then 7 - k div 8 else k div 8"]) (auto simp: shift64_def)

lemma shift64_unique:
  "i < 8 \<Longrightarrow> i' < 8 \<Longrightarrow> k < 8 \<Longrightarrow> shift64 be i' \<le> shift64 be i + k \<Longrightarrow>
   shift64 be i + k < shift64 be i' + 8 \<Longrightarrow> i' = i"
  by (auto simp: shift64_def split: if_splits)

lemma bit_bytes_to_int64:
  "bit (bytes_to_int64 bs be) k \<longleftrightarrow>
   (\<exists>i<8. shift64 be i \<le> k \<and> k < shift64 be i + 8 \<and> bit (bs ! i) (k - shift64 be i))"
proof -
  have "bit (push_bit (shift64 be i) (ucast (bs ! i)) :: u64) k \<longleftrightarrow>
        shift64 be i \<le> k \<and> k < shift64 be i + 8 \<and> bit (bs ! i) (k - shift64 be i)"
    if "i < 8" for i
    using shift64_bound [OF that, of be] by (auto simp: bit_simps)
  moreover have "bytes_to_int64 bs be =
      foldl (\<lambda>n i. n OR push_bit (shift64 be i) (ucast (bs ! i))) 0 [0..<8]"
    by (cases be) (simp_all only: bytes_to_int64_def shift64_def if_True if_False)
  ultimately show ?thesis by (auto simp: bit_foldl_or)
qed

lemma int64_to_bytes_map:
  "8 \<le> length bs \<Longrightarrow>
   int64_to_bytes bs n be =
     map (\<lambda>i. ucast (signed_drop_bit (shift64 be i) n AND 0xFF)) [0..<8] @ drop 8 bs"
  by (cases be)
     (simp_all only: int64_to_bytes_def shift64_def if_True if_False foldl_update_upt)

lemma dec64_enc64:
  assumes "8 \<le> length bs"
  shows "bytes_to_int64 (int64_to_bytes bs n be) be = n"
proof (rule bit_word_eqI)
  fix k assume "k < LENGTH(64)"
  then obtain i where i: "i < 8" "shift64 be i \<le> k" "k < shift64 be i + 8"
    using shift64_cover [of k be] by auto
  have "bit (int64_to_bytes bs n be ! j) (k - shift64 be j) = bit n k"
    if "j < 8" "shift64 be j \<le> k" "k < shift64 be j + 8" for j
    using that assms shift64_bound [of j be]
    by (simp add: int64_to_bytes_map nth_append bit_slots)
  then show "bit (bytes_to_int64 (int64_to_bytes bs n be) be) k = bit n k"
    using i by (auto simp: bit_bytes_to_int64)
qed

lemma bit_dec64_at:
  assumes "i < 8" "k < 8"
  shows "bit (bytes_to_int64 bs be) (shift64 be i + k) = bit (bs ! i) k"
proof
  assume "bit (bytes_to_int64 bs be) (shift64 be i + k)"
  then obtain j where "j < 8" "shift64 be j \<le> shift64 be i + k"
      "shift64 be i + k < shift64 be j + 8" "bit (bs ! j) (shift64 be i + k - shift64 be j)"
    by (auto simp: bit_bytes_to_int64)
  moreover from this assms have "j = i" by (intro shift64_unique)
  ultimately show "bit (bs ! i) k" by simp
next
  assume "bit (bs ! i) k"
  then show "bit (bytes_to_int64 bs be) (shift64 be i + k)"
    using assms by (auto simp: bit_bytes_to_int64 intro!: exI [of _ i])
qed

lemma enc64_dec64:
  assumes "8 \<le> length bs"
  shows "int64_to_bytes bs (bytes_to_int64 bs be) be = bs"
proof -
  have "ucast (signed_drop_bit (shift64 be i) (bytes_to_int64 bs be) AND 0xFF) = bs ! i"
    if "i < 8" for i
    using that shift64_bound [of i be]
    by (intro byte_of_bits) (simp_all add: bit_dec64_at)
  then have "map (\<lambda>i. ucast (signed_drop_bit (shift64 be i) (bytes_to_int64 bs be) AND 0xFF)) [0..<8]
             = map (nth bs) [0..<8]"
    by (intro map_cong) simp_all
  also have "\<dots> @ drop 8 bs = bs"
    using assms by (auto intro!: nth_equalityI simp: nth_append simp del: upt_rec_numeral)
  finally show ?thesis
    using assms by (simp only: int64_to_bytes_map)
qed

lemma dec64_local:
  assumes "8 \<le> length bs" "take 8 bs = take 8 cs"
  shows "bytes_to_int64 bs be = bytes_to_int64 cs be"
proof -
  have "bs ! i = cs ! i" if "i < 8" for i
    using that assms(2) by (metis nth_take)
  then show ?thesis by (intro bit_word_eqI) (auto simp: bit_bytes_to_int64)
qed

lemma dec64_mirror:
  assumes "length bs = 8"
  shows "bytes_to_int64 (rev bs) (\<not> be) = bytes_to_int64 bs be"
proof (rule bit_word_eqI)
  fix k assume "k < LENGTH(64)"
  then obtain i where i: "i < 8" "shift64 be i \<le> k" "k < shift64 be i + 8"
    using shift64_cover [of k be] by auto
  define m where "m = k - shift64 be i"
  have m: "m < 8" "k = shift64 be i + m" using i by (auto simp: m_def)
  have "shift64 (\<not> be) (7 - i) = shift64 be i" using i(1) by (auto simp: shift64_def)
  then have "bit (bytes_to_int64 (rev bs) (\<not> be)) k = bit (rev bs ! (7 - i)) m"
    using bit_dec64_at [of "7 - i" m "rev bs" "\<not> be"] m by simp
  also have "rev bs ! (7 - i) = bs ! i" using i(1) assms by (simp add: rev_nth)
  finally show "bit (bytes_to_int64 (rev bs) (\<not> be)) k = bit (bytes_to_int64 bs be) k"
    using bit_dec64_at [OF i(1) m(1), of bs be] m by simp
qed

lemma length_enc64: "length (int64_to_bytes bs n be) = length bs"
  by (simp add: int64_to_bytes_def)

lemma drop_enc64: "8 \<le> length bs \<Longrightarrow> drop 8 (int64_to_bytes bs n be) = drop 8 bs"
  by (simp add: int64_to_bytes_map del: upt_rec_numeral)

lemma enc64_local:
  assumes "8 \<le> length bs" "length cs = length bs" "drop 8 bs = drop 8 cs"
  shows "int64_to_bytes bs n be = int64_to_bytes cs n be"
  using assms by (simp add: int64_to_bytes_map del: upt_rec_numeral)

interpretation i64: int_codec int64_to_bytes bytes_to_int64 8
  by unfold_locales
     (fact dec64_enc64 enc64_dec64 length_enc64 drop_enc64 enc64_local dec64_local dec64_mirror)+

section \<open>The pointer overloads\<close>

text \<open>
  A pointer overload that passes its \<open>assert\<close> on a buffer of the announced size does what the
  container overload does; it never reads or writes outside the buffer.
\<close>

lemma int32_ptr_ok:
  "4 \<le> sz \<Longrightarrow> sz \<le> length bs \<Longrightarrow>
   int32_to_bytes_ptr (Some bs) sz n be = Inr (int32_to_bytes bs n be, 4) \<and>
   bytes_to_int32_ptr (Some bs) sz be = Inr (bytes_to_int32 bs be)"
  by (auto simp: int32_to_bytes_ptr_def int32_to_bytes_def bytes_to_int32_ptr_def bytes_to_int32_def)

lemma int64_ptr_ok:
  "8 \<le> sz \<Longrightarrow> sz \<le> length bs \<Longrightarrow>
   int64_to_bytes_ptr (Some bs) sz n be = Inr (int64_to_bytes bs n be, 8) \<and>
   bytes_to_int64_ptr (Some bs) sz be = Inr (bytes_to_int64 bs be)"
  by (auto simp: int64_to_bytes_ptr_def int64_to_bytes_def bytes_to_int64_ptr_def
      bytes_to_int64_def simp del: upt_rec_numeral)

lemma bool_ptr_roundtrip:
  assumes "1 \<le> sz" "sz \<le> length bs"
  shows "\<exists>bs'. bool_to_bytes_ptr (Some bs) sz b = Inr (bs', 1) \<and> length bs' = length bs \<and>
               bytes_to_bool_ptr (Some bs') 1 = Inr b \<and> bytes_to_bool bs' = b"
  using assms by (cases bs) (auto simp: bool_to_bytes_ptr_def bytes_to_bool_ptr_def bytes_to_bool_def)

lemma double_ptr_roundtrip:
  assumes "8 \<le> sz" "sz \<le> length bs" "length d = 8"
  shows "\<exists>bs'. double_to_bytes_ptr (Some bs) sz d = Inr (bs', 8) \<and> length bs' = length bs \<and>
               bytes_to_double_ptr bs' 8 = Inr d"
  using assms by (auto simp: double_to_bytes_ptr_def bytes_to_double_ptr_def memcpy_def)

lemma string_ptr_roundtrip:
  assumes "length str \<le> sz" "sz \<le> length bs"
  shows "\<exists>bs'. string_to_bytes_ptr (Some bs) sz str = Inr (bs', length str) \<and>
               length bs' = length bs \<and> drop (length str) bs' = drop (length str) bs \<and>
               bytes_to_string bs' (length str) = Inr str"
  using assms by (auto simp: string_to_bytes_ptr_def bytes_to_string_def memcpy_def Let_def)

section \<open>Properties\<close>

text \<open>
  C28. For the 32-bit and the 64-bit codec, in either byte order: decoding what was encoded
  gives the integer back, even when other data follows it in the buffer; encoding leaves the
  length and every byte past the integer unchanged; encoding what was decoded restores the
  buffer; and the big-endian image is the reversed little-endian image.
\<close>

theorem int_codec_roundtrip:
  assumes "4 \<le> length bs" "8 \<le> length cs" "length ds = 4" "length es = 8"
  shows "bytes_to_int32 (int32_to_bytes bs n be @ rest) be = n
       \<and> length (int32_to_bytes bs n be) = length bs
       \<and> drop 4 (int32_to_bytes bs n be) = drop 4 bs
       \<and> int32_to_bytes bs (bytes_to_int32 bs be) be = bs
       \<and> int32_to_bytes ds n (\<not> be) = rev (int32_to_bytes ds n be)
       \<and> bytes_to_int64 (int64_to_bytes cs m be @ rest) be = m
       \<and> length (int64_to_bytes cs m be) = length cs
       \<and> drop 8 (int64_to_bytes cs m be) = drop 8 cs
       \<and> int64_to_bytes cs (bytes_to_int64 cs be) be = cs
       \<and> int64_to_bytes es m (\<not> be) = rev (int64_to_bytes es m be)"
  using assms
  by (simp add: i32.dec_enc_append i64.dec_enc_append i32.length_enc i64.length_enc
      i32.drop_enc i64.drop_enc i32.enc_dec i64.enc_dec i32.enc_mirror i64.enc_mirror)

theorem int_codec_roundtrip_witness:
  "bytes_to_int32 (int32_to_bytes [0, 0, 0, 0, 7] 0x80FF0102 True @ [9]) True = 0x80FF0102
   \<and> int64_to_bytes (replicate 8 0) 0xFFFFFFFFFFFFFFFE (\<not> True)
     = rev (int64_to_bytes (replicate 8 0) 0xFFFFFFFFFFFFFFFE True)"
  using int_codec_roundtrip [of "[0, 0, 0, 0, 7]" "replicate 8 0" "replicate 4 0" "replicate 8 0"
      "0x80FF0102" True "[9]" "0xFFFFFFFFFFFFFFFE"]
  by simp

end
