(* ===== verification/Crc.thy ===== *)
theory Crc
  imports HjPrelude
begin

text \<open>
  \<open>src/hj/algo/crc16.h\<close> and \<open>src/hj/algo/crc32.h\<close>: the table-driven CRC-16 (MODBUS and, when
  \<open>CRC16_XMODEM_ENABLED\<close> is set, XMODEM) and CRC-32 (ISO-HDLC).

  The 256-entry tables are copied from the sources. A null buffer with a positive length
  returns the start value, as the sources do; a length beyond the buffer is \<open>Out_of_bounds\<close>.
  The two CRC-16 loops count with an \<open>int\<close>, which overflows past \<open>INT_MAX\<close> bytes; the model
  makes that case a fault.

  The theorems show that each table-driven routine computes the bit-serial CRC of its
  polynomial (\<open>refl_bit\<close>, \<open>norm_bit\<close>), that it detects every change confined to one byte, and
  in which cases a checksum may be computed chunk by chunk.
\<close>

section \<open>Definitions\<close>

definition crc16_table_modbus :: "u16 list" where
  "crc16_table_modbus =
    [0x0000, 0xC0C1, 0xC181, 0x0140, 0xC301, 0x03C0, 0x0280, 0xC241,
     0xC601, 0x06C0, 0x0780, 0xC741, 0x0500, 0xC5C1, 0xC481, 0x0440,
     0xCC01, 0x0CC0, 0x0D80, 0xCD41, 0x0F00, 0xCFC1, 0xCE81, 0x0E40,
     0x0A00, 0xCAC1, 0xCB81, 0x0B40, 0xC901, 0x09C0, 0x0880, 0xC841,
     0xD801, 0x18C0, 0x1980, 0xD941, 0x1B00, 0xDBC1, 0xDA81, 0x1A40,
     0x1E00, 0xDEC1, 0xDF81, 0x1F40, 0xDD01, 0x1DC0, 0x1C80, 0xDC41,
     0x1400, 0xD4C1, 0xD581, 0x1540, 0xD701, 0x17C0, 0x1680, 0xD641,
     0xD201, 0x12C0, 0x1380, 0xD341, 0x1100, 0xD1C1, 0xD081, 0x1040,
     0xF001, 0x30C0, 0x3180, 0xF141, 0x3300, 0xF3C1, 0xF281, 0x3240,
     0x3600, 0xF6C1, 0xF781, 0x3740, 0xF501, 0x35C0, 0x3480, 0xF441,
     0x3C00, 0xFCC1, 0xFD81, 0x3D40, 0xFF01, 0x3FC0, 0x3E80, 0xFE41,
     0xFA01, 0x3AC0, 0x3B80, 0xFB41, 0x3900, 0xF9C1, 0xF881, 0x3840,
     0x2800, 0xE8C1, 0xE981, 0x2940, 0xEB01, 0x2BC0, 0x2A80, 0xEA41,
     0xEE01, 0x2EC0, 0x2F80, 0xEF41, 0x2D00, 0xEDC1, 0xEC81, 0x2C40,
     0xE401, 0x24C0, 0x2580, 0xE541, 0x2700, 0xE7C1, 0xE681, 0x2640,
     0x2200, 0xE2C1, 0xE381, 0x2340, 0xE101, 0x21C0, 0x2080, 0xE041,
     0xA001, 0x60C0, 0x6180, 0xA141, 0x6300, 0xA3C1, 0xA281, 0x6240,
     0x6600, 0xA6C1, 0xA781, 0x6740, 0xA501, 0x65C0, 0x6480, 0xA441,
     0x6C00, 0xACC1, 0xAD81, 0x6D40, 0xAF01, 0x6FC0, 0x6E80, 0xAE41,
     0xAA01, 0x6AC0, 0x6B80, 0xAB41, 0x6900, 0xA9C1, 0xA881, 0x6840,
     0x7800, 0xB8C1, 0xB981, 0x7940, 0xBB01, 0x7BC0, 0x7A80, 0xBA41,
     0xBE01, 0x7EC0, 0x7F80, 0xBF41, 0x7D00, 0xBDC1, 0xBC81, 0x7C40,
     0xB401, 0x74C0, 0x7580, 0xB541, 0x7700, 0xB7C1, 0xB681, 0x7640,
     0x7200, 0xB2C1, 0xB381, 0x7340, 0xB101, 0x71C0, 0x7080, 0xB041,
     0x5000, 0x90C1, 0x9181, 0x5140, 0x9301, 0x53C0, 0x5280, 0x9241,
     0x9601, 0x56C0, 0x5780, 0x9741, 0x5500, 0x95C1, 0x9481, 0x5440,
     0x9C01, 0x5CC0, 0x5D80, 0x9D41, 0x5F00, 0x9FC1, 0x9E81, 0x5E40,
     0x5A00, 0x9AC1, 0x9B81, 0x5B40, 0x9901, 0x59C0, 0x5880, 0x9841,
     0x8801, 0x48C0, 0x4980, 0x8941, 0x4B00, 0x8BC1, 0x8A81, 0x4A40,
     0x4E00, 0x8EC1, 0x8F81, 0x4F40, 0x8D01, 0x4DC0, 0x4C80, 0x8C41,
     0x4400, 0x84C1, 0x8581, 0x4540, 0x8701, 0x47C0, 0x4680, 0x8641,
     0x8201, 0x42C0, 0x4380, 0x8341, 0x4100, 0x81C1, 0x8081, 0x4040]"

definition crc16_table_xmodem :: "u16 list" where
  "crc16_table_xmodem =
    [0x0000, 0x1021, 0x2042, 0x3063, 0x4084, 0x50A5, 0x60C6, 0x70E7,
     0x8108, 0x9129, 0xA14A, 0xB16B, 0xC18C, 0xD1AD, 0xE1CE, 0xF1EF,
     0x1231, 0x0210, 0x3273, 0x2252, 0x52B5, 0x4294, 0x72F7, 0x62D6,
     0x9339, 0x8318, 0xB37B, 0xA35A, 0xD3BD, 0xC39C, 0xF3FF, 0xE3DE,
     0x2462, 0x3443, 0x0420, 0x1401, 0x64E6, 0x74C7, 0x44A4, 0x5485,
     0xA56A, 0xB54B, 0x8528, 0x9509, 0xE5EE, 0xF5CF, 0xC5AC, 0xD58D,
     0x3653, 0x2672, 0x1611, 0x0630, 0x76D7, 0x66F6, 0x5695, 0x46B4,
     0xB75B, 0xA77A, 0x9719, 0x8738, 0xF7DF, 0xE7FE, 0xD79D, 0xC7BC,
     0x48C4, 0x58E5, 0x6886, 0x78A7, 0x0840, 0x1861, 0x2802, 0x3823,
     0xC9CC, 0xD9ED, 0xE98E, 0xF9AF, 0x8948, 0x9969, 0xA90A, 0xB92B,
     0x5AF5, 0x4AD4, 0x7AB7, 0x6A96, 0x1A71, 0x0A50, 0x3A33, 0x2A12,
     0xDBFD, 0xCBDC, 0xFBBF, 0xEB9E, 0x9B79, 0x8B58, 0xBB3B, 0xAB1A,
     0x6CA6, 0x7C87, 0x4CE4, 0x5CC5, 0x2C22, 0x3C03, 0x0C60, 0x1C41,
     0xEDAE, 0xFD8F, 0xCDEC, 0xDDCD, 0xAD2A, 0xBD0B, 0x8D68, 0x9D49,
     0x7E97, 0x6EB6, 0x5ED5, 0x4EF4, 0x3E13, 0x2E32, 0x1E51, 0x0E70,
     0xFF9F, 0xEFBE, 0xDFDD, 0xCFFC, 0xBF1B, 0xAF3A, 0x9F59, 0x8F78,
     0x9188, 0x81A9, 0xB1CA, 0xA1EB, 0xD10C, 0xC12D, 0xF14E, 0xE16F,
     0x1080, 0x00A1, 0x30C2, 0x20E3, 0x5004, 0x4025, 0x7046, 0x6067,
     0x83B9, 0x9398, 0xA3FB, 0xB3DA, 0xC33D, 0xD31C, 0xE37F, 0xF35E,
     0x02B1, 0x1290, 0x22F3, 0x32D2, 0x4235, 0x5214, 0x6277, 0x7256,
     0xB5EA, 0xA5CB, 0x95A8, 0x8589, 0xF56E, 0xE54F, 0xD52C, 0xC50D,
     0x34E2, 0x24C3, 0x14A0, 0x0481, 0x7466, 0x6447, 0x5424, 0x4405,
     0xA7DB, 0xB7FA, 0x8799, 0x97B8, 0xE75F, 0xF77E, 0xC71D, 0xD73C,
     0x26D3, 0x36F2, 0x0691, 0x16B0, 0x6657, 0x7676, 0x4615, 0x5634,
     0xD94C, 0xC96D, 0xF90E, 0xE92F, 0x99C8, 0x89E9, 0xB98A, 0xA9AB,
     0x5844, 0x4865, 0x7806, 0x6827, 0x18C0, 0x08E1, 0x3882, 0x28A3,
     0xCB7D, 0xDB5C, 0xEB3F, 0xFB1E, 0x8BF9, 0x9BD8, 0xABBB, 0xBB9A,
     0x4A75, 0x5A54, 0x6A37, 0x7A16, 0x0AF1, 0x1AD0, 0x2AB3, 0x3A92,
     0xFD2E, 0xED0F, 0xDD6C, 0xCD4D, 0xBDAA, 0xAD8B, 0x9DE8, 0x8DC9,
     0x7C26, 0x6C07, 0x5C64, 0x4C45, 0x3CA2, 0x2C83, 0x1CE0, 0x0CC1,
     0xEF1F, 0xFF3E, 0xCF5D, 0xDF7C, 0xAF9B, 0xBFBA, 0x8FD9, 0x9FF8,
     0x6E17, 0x7E36, 0x4E55, 0x5E74, 0x2E93, 0x3EB2, 0x0ED1, 0x1EF0]"

definition crc32_table :: "u32 list" where
  "crc32_table =
    [0x00000000, 0x77073096, 0xEE0E612C, 0x990951BA, 0x076DC419, 0x706AF48F, 0xE963A535, 0x9E6495A3,
     0x0EDB8832, 0x79DCB8A4, 0xE0D5E91E, 0x97D2D988, 0x09B64C2B, 0x7EB17CBD, 0xE7B82D07, 0x90BF1D91,
     0x1DB71064, 0x6AB020F2, 0xF3B97148, 0x84BE41DE, 0x1ADAD47D, 0x6DDDE4EB, 0xF4D4B551, 0x83D385C7,
     0x136C9856, 0x646BA8C0, 0xFD62F97A, 0x8A65C9EC, 0x14015C4F, 0x63066CD9, 0xFA0F3D63, 0x8D080DF5,
     0x3B6E20C8, 0x4C69105E, 0xD56041E4, 0xA2677172, 0x3C03E4D1, 0x4B04D447, 0xD20D85FD, 0xA50AB56B,
     0x35B5A8FA, 0x42B2986C, 0xDBBBC9D6, 0xACBCF940, 0x32D86CE3, 0x45DF5C75, 0xDCD60DCF, 0xABD13D59,
     0x26D930AC, 0x51DE003A, 0xC8D75180, 0xBFD06116, 0x21B4F4B5, 0x56B3C423, 0xCFBA9599, 0xB8BDA50F,
     0x2802B89E, 0x5F058808, 0xC60CD9B2, 0xB10BE924, 0x2F6F7C87, 0x58684C11, 0xC1611DAB, 0xB6662D3D,
     0x76DC4190, 0x01DB7106, 0x98D220BC, 0xEFD5102A, 0x71B18589, 0x06B6B51F, 0x9FBFE4A5, 0xE8B8D433,
     0x7807C9A2, 0x0F00F934, 0x9609A88E, 0xE10E9818, 0x7F6A0DBB, 0x086D3D2D, 0x91646C97, 0xE6635C01,
     0x6B6B51F4, 0x1C6C6162, 0x856530D8, 0xF262004E, 0x6C0695ED, 0x1B01A57B, 0x8208F4C1, 0xF50FC457,
     0x65B0D9C6, 0x12B7E950, 0x8BBEB8EA, 0xFCB9887C, 0x62DD1DDF, 0x15DA2D49, 0x8CD37CF3, 0xFBD44C65,
     0x4DB26158, 0x3AB551CE, 0xA3BC0074, 0xD4BB30E2, 0x4ADFA541, 0x3DD895D7, 0xA4D1C46D, 0xD3D6F4FB,
     0x4369E96A, 0x346ED9FC, 0xAD678846, 0xDA60B8D0, 0x44042D73, 0x33031DE5, 0xAA0A4C5F, 0xDD0D7CC9,
     0x5005713C, 0x270241AA, 0xBE0B1010, 0xC90C2086, 0x5768B525, 0x206F85B3, 0xB966D409, 0xCE61E49F,
     0x5EDEF90E, 0x29D9C998, 0xB0D09822, 0xC7D7A8B4, 0x59B33D17, 0x2EB40D81, 0xB7BD5C3B, 0xC0BA6CAD,
     0xEDB88320, 0x9ABFB3B6, 0x03B6E20C, 0x74B1D29A, 0xEAD54739, 0x9DD277AF, 0x04DB2615, 0x73DC1683,
     0xE3630B12, 0x94643B84, 0x0D6D6A3E, 0x7A6A5AA8, 0xE40ECF0B, 0x9309FF9D, 0x0A00AE27, 0x7D079EB1,
     0xF00F9344, 0x8708A3D2, 0x1E01F268, 0x6906C2FE, 0xF762575D, 0x806567CB, 0x196C3671, 0x6E6B06E7,
     0xFED41B76, 0x89D32BE0, 0x10DA7A5A, 0x67DD4ACC, 0xF9B9DF6F, 0x8EBEEFF9, 0x17B7BE43, 0x60B08ED5,
     0xD6D6A3E8, 0xA1D1937E, 0x38D8C2C4, 0x4FDFF252, 0xD1BB67F1, 0xA6BC5767, 0x3FB506DD, 0x48B2364B,
     0xD80D2BDA, 0xAF0A1B4C, 0x36034AF6, 0x41047A60, 0xDF60EFC3, 0xA867DF55, 0x316E8EEF, 0x4669BE79,
     0xCB61B38C, 0xBC66831A, 0x256FD2A0, 0x5268E236, 0xCC0C7795, 0xBB0B4703, 0x220216B9, 0x5505262F,
     0xC5BA3BBE, 0xB2BD0B28, 0x2BB45A92, 0x5CB36A04, 0xC2D7FFA7, 0xB5D0CF31, 0x2CD99E8B, 0x5BDEAE1D,
     0x9B64C2B0, 0xEC63F226, 0x756AA39C, 0x026D930A, 0x9C0906A9, 0xEB0E363F, 0x72076785, 0x05005713,
     0x95BF4A82, 0xE2B87A14, 0x7BB12BAE, 0x0CB61B38, 0x92D28E9B, 0xE5D5BE0D, 0x7CDCEFB7, 0x0BDBDF21,
     0x86D3D2D4, 0xF1D4E242, 0x68DDB3F8, 0x1FDA836E, 0x81BE16CD, 0xF6B9265B, 0x6FB077E1, 0x18B74777,
     0x88085AE6, 0xFF0F6A70, 0x66063BCA, 0x11010B5C, 0x8F659EFF, 0xF862AE69, 0x616BFFD3, 0x166CCF45,
     0xA00AE278, 0xD70DD2EE, 0x4E048354, 0x3903B3C2, 0xA7672661, 0xD06016F7, 0x4969474D, 0x3E6E77DB,
     0xAED16A4A, 0xD9D65ADC, 0x40DF0B66, 0x37D83BF0, 0xA9BCAE53, 0xDEBB9EC5, 0x47B2CF7F, 0x30B5FFE9,
     0xBDBDF21C, 0xCABAC28A, 0x53B39330, 0x24B4A3A6, 0xBAD03605, 0xCDD70693, 0x54DE5729, 0x23D967BF,
     0xB3667A2E, 0xC4614AB8, 0x5D681B02, 0x2A6F2B94, 0xB40BBE37, 0xC30C8EA1, 0x5A05DF1B, 0x2D02EF8D]"

text \<open>One round of each loop.\<close>

definition crc16_modbus_step :: "u16 \<Rightarrow> u8 \<Rightarrow> u16" where
  "crc16_modbus_step crc u =
     crc16_table_modbus ! unat ((crc XOR ucast u) AND 0xFF) XOR drop_bit 8 crc"

definition crc16_xmodem_step :: "u16 \<Rightarrow> u8 \<Rightarrow> u16" where
  "crc16_xmodem_step crc u =
     push_bit 8 crc XOR crc16_table_xmodem ! unat ((drop_bit 8 crc XOR ucast u) AND 0x00FF)"

definition crc32_step :: "u32 \<Rightarrow> u8 \<Rightarrow> u32" where
  "crc32_step crc u =
     crc32_table ! unat ((crc XOR ucast u) AND 0xFF) XOR drop_bit 8 crc"

text \<open>The loop over the first \<open>len\<close> bytes of a buffer.\<close>

definition crc_loop :: "('c \<Rightarrow> u8 \<Rightarrow> 'c) \<Rightarrow> 'c \<Rightarrow> bytes option \<Rightarrow> nat \<Rightarrow> 'c result" where
  "crc_loop step crc buf len =
     (case buf of
        None \<Rightarrow> Inr crc
      | Some u \<Rightarrow> if length u < len then Inl Out_of_bounds
                  else Inr (foldl step crc (take len u)))"

definition crc16_modbus :: "bytes option \<Rightarrow> nat \<Rightarrow> u16 \<Rightarrow> u16 result" where
  "crc16_modbus buf len start =
     (if buf = None \<and> len > 0 then Inr start
      else if len > INT_MAX then Inl Signed_overflow
      else crc_loop crc16_modbus_step (if start \<noteq> 0 then start else 0xFFFF) buf len)"

definition crc16_xmodem :: "bytes option \<Rightarrow> nat \<Rightarrow> u16 \<Rightarrow> u16 result" where
  "crc16_xmodem buf len start =
     (if buf = None \<and> len > 0 then Inr start
      else if len > INT_MAX then Inl Signed_overflow
      else crc_loop crc16_xmodem_step (if start \<noteq> 0 then start else 0) buf len)"

definition crc32 :: "bytes option \<Rightarrow> nat \<Rightarrow> u32 \<Rightarrow> u32 result" where
  "crc32 buf len start =
     (if buf = None \<and> len > 0 then Inr start
      else map_sum id (\<lambda>crc. crc XOR 0xFFFFFFFF)
             (crc_loop crc32_step
                (if start \<noteq> 0 then start XOR 0xFFFFFFFF else 0xFFFFFFFF) buf len))"

text \<open>
  The reference: the shift register of the polynomial, one bit at a time. \<open>refl_bit\<close> shifts
  right (reflected input, the polynomial bit-reversed), \<open>norm_bit\<close> shifts left.
\<close>

definition refl_bit :: "'a::len word \<Rightarrow> 'a word \<Rightarrow> 'a word" where
  "refl_bit poly c = (if bit c 0 then drop_bit 1 c XOR poly else drop_bit 1 c)"

definition norm_bit :: "'a::len word \<Rightarrow> 'a word \<Rightarrow> 'a word" where
  "norm_bit poly c = (if bit c (LENGTH('a) - 1) then push_bit 1 c XOR poly else push_bit 1 c)"

section \<open>The contract of a CRC register\<close>

text \<open>
  What the checksum routines rely on: one round is a bijection of the register for every input
  byte, and different bytes send the register to different places. Every such register detects
  a change that is confined to one byte, wherever it is.
\<close>

locale crc_register =
  fixes step :: "'c \<Rightarrow> u8 \<Rightarrow> 'c"
  assumes step_state: "step c b = step d b \<Longrightarrow> c = d"
    and step_byte: "step c b = step c b' \<Longrightarrow> b = b'"
begin

lemma run_state: "foldl step c bs = foldl step d bs \<Longrightarrow> c = d"
  by (induction bs arbitrary: c d) (auto dest: step_state)

lemma one_byte:
  "b \<noteq> b' \<Longrightarrow> foldl step c (xs @ b # ys) \<noteq> foldl step c (xs @ b' # ys)"
  by (auto dest!: run_state step_byte)

lemma run_append: "foldl step c (xs @ ys) = foldl step (foldl step c xs) ys"
  by simp

end

section \<open>Linear maps on words and their tables\<close>

lemma funpow_xor:
  fixes f :: "'a::len word \<Rightarrow> 'a word"
  assumes "\<And>a b. f (a XOR b) = f a XOR f b"
  shows "(f ^^ n) (a XOR b) = (f ^^ n) a XOR (f ^^ n) b"
  by (induction n) (simp_all add: assms)

lemma linear_zero:
  assumes "\<And>a b :: 'a::len word. f (a XOR b) = (f a :: 'b::len word) XOR f b"
  shows "f 0 = 0"
  using assms [of 0 0] by simp

lemma word_of_nat_add_exp:
  assumes "i < 2 ^ n" "n < LENGTH('a)"
  shows "(word_of_nat (i + 2 ^ n) :: 'a::len word) = word_of_nat i XOR push_bit n 1"
proof -
  have "(word_of_nat i :: 'a word) AND push_bit n 1 = 0"
  proof (rule bit_word_eqI)
    fix k assume "k < LENGTH('a)"
    have "\<not> bit i n" using assms(1) by (metis bit_take_bit_iff less_irrefl take_bit_nat_eq_self)
    then show "bit ((word_of_nat i :: 'a word) AND push_bit n 1) k = bit (0 :: 'a word) k"
      using \<open>k < LENGTH('a)\<close> by (auto simp: bit_simps)
  qed
  then have "(word_of_nat i :: 'a word) + push_bit n 1 = word_of_nat i XOR push_bit n 1"
    by (rule disjunctive_add_eq_xor)
  then show ?thesis by (simp add: push_bit_eq_mult)
qed

text \<open>
  The table of a linear map is determined by its values on the powers of two: the second half of
  each power-of-two prefix is the first half shifted by one entry.
\<close>

definition linear_table :: "'b::len word list \<Rightarrow> 'b word list" where
  "linear_table basis = foldl (\<lambda>t b. t @ map (\<lambda>x. x XOR b) t) [0] basis"

lemma linear_table_eq:
  fixes f :: "'a::len word \<Rightarrow> 'b::len word"
  assumes lin: "\<And>a b. f (a XOR b) = f a XOR f b" and "n \<le> LENGTH('a)"
  shows "linear_table (map (\<lambda>k. f (push_bit k 1)) [0..<n]) = map (\<lambda>i. f (word_of_nat i)) [0..<2 ^ n]"
  using assms(2)
proof (induction n)
  case 0
  then show ?case by (simp add: linear_table_def linear_zero [OF lin])
next
  case (Suc n)
  have "map (\<lambda>i. f (word_of_nat (i + 2 ^ n))) [0..<2 ^ n]
        = map (\<lambda>x. x XOR f (push_bit n 1)) (map (\<lambda>i. f (word_of_nat i)) [0..<2 ^ n])"
    using Suc.prems by (simp add: word_of_nat_add_exp lin del: of_nat_add push_bit_of_1)
  moreover have "[0..<2 ^ Suc n] = [0..<2 ^ n] @ map (\<lambda>i. i + 2 ^ n) [0..<2 ^ n]"
    by (simp add: map_add_upt upt_add_eq_append [of 0 "2 ^ n", simplified] mult_2)
  moreover have "linear_table (map (\<lambda>k. f (push_bit k 1)) [0..<Suc n]) =
      (let t = linear_table (map (\<lambda>k. f (push_bit k 1)) [0..<n])
       in t @ map (\<lambda>x. x XOR f (push_bit n 1)) t)"
    by (simp add: linear_table_def Let_def)
  ultimately show ?case using Suc by (simp add: comp_def)
qed

section \<open>The reflected register\<close>

lemma refl_bit_xor: "refl_bit p (a XOR b) = refl_bit p a XOR refl_bit p b"
  by (auto simp: refl_bit_def bit_simps drop_bit_xor xor.assoc xor.left_commute xor.commute
      intro!: bit_word_eqI)

lemma refl_bit_inj:
  fixes p :: "'a::len word"
  assumes p: "bit p (LENGTH('a) - 1)" and eq: "refl_bit p c = refl_bit p d"
  shows "c = d"
proof -
  have top: "bit (refl_bit p x) (LENGTH('a) - 1) = bit x 0" for x
    using p by (auto simp: refl_bit_def bit_simps dest: bit_imp_le_length)
  from eq have "bit c 0 = bit d 0" by (metis top)
  with eq have "drop_bit 1 c = drop_bit 1 d"
    by (auto simp: refl_bit_def split: if_splits)
  then have "bit (drop_bit 1 c) (k - 1) = bit (drop_bit 1 d) (k - 1)" for k
    by simp
  then have "bit c k = bit d k" if "k > 0" for k
    using that by (simp only: bit_drop_bit_eq comp_apply) (metis Suc_diff_1 plus_1_eq_Suc)
  with \<open>bit c 0 = bit d 0\<close> show ?thesis by (intro bit_word_eqI) (metis gr0I)
qed

lemma refl_funpow_inj:
  fixes p :: "'a::len word"
  assumes "bit p (LENGTH('a) - 1)" "(refl_bit p ^^ n) c = (refl_bit p ^^ n) d"
  shows "c = d"
  using assms(2) by (induction n) (auto dest: refl_bit_inj [OF assms(1)])

lemma refl_shift: "take_bit n x = 0 \<Longrightarrow> (refl_bit p ^^ n) x = drop_bit n x"
proof (induction n arbitrary: x)
  case (Suc n)
  have "\<not> bit x 0" using Suc.prems by (metis bit_0_eq bit_take_bit_iff bot_apply bot_bool_def zero_less_Suc)
  moreover have "take_bit n (drop_bit 1 x) = 0"
    using Suc.prems by (metis Suc_eq_plus1 drop_bit_of_0 drop_bit_take_bit add_diff_cancel_right')
  ultimately show ?case
    using Suc.IH [of "drop_bit 1 x"]
    by (simp add: funpow_Suc_right refl_bit_def del: funpow.simps)
qed simp

lemma refl_shift_high:
  fixes y :: "'a::len word"
  shows "(refl_bit p ^^ 8) (push_bit 8 (drop_bit 8 y)) = drop_bit 8 y"
proof -
  have "take_bit 8 (push_bit 8 (drop_bit 8 y)) = 0"
    by (rule bit_word_eqI) (auto simp: bit_simps)
  moreover have "drop_bit 8 (push_bit 8 (drop_bit 8 y)) = drop_bit 8 y"
    by (rule bit_word_eqI) (auto simp: bit_simps dest: bit_imp_le_length)
  ultimately show ?thesis by (simp add: refl_shift)
qed

text \<open>
  Feeding a byte into the reflected register, eight bits at a time: the low byte of the register
  selects the table entry and the rest moves down.
\<close>

lemma refl_byte:
  fixes c :: "'a::len word" and b :: u8
  assumes "8 \<le> LENGTH('a)"
    and table: "table = map (\<lambda>i. (refl_bit p ^^ 8) (word_of_nat i)) [0..<256]"
  shows "table ! unat ((c XOR ucast b) AND 0xFF) XOR drop_bit 8 c = (refl_bit p ^^ 8) (c XOR ucast b)"
proof -
  let ?x = "c XOR ucast b :: 'a word"
  have small: "unat (take_bit 8 ?x) < 256"
    by (rule unat_take_bit_8)
  have split: "?x = take_bit 8 ?x XOR push_bit 8 (drop_bit 8 ?x)"
    by (rule low_byte_split)
  have "drop_bit 8 (ucast b :: 'a word) = 0"
    by (intro bit_word_eqI) (auto simp: bit_simps)
  then have "drop_bit 8 ?x = drop_bit 8 c"
    by (simp add: drop_bit_xor)
  moreover have "(refl_bit p ^^ 8) (push_bit 8 (drop_bit 8 ?x)) = drop_bit 8 ?x"
    by (rule refl_shift_high)
  ultimately have "(refl_bit p ^^ 8) ?x = (refl_bit p ^^ 8) (take_bit 8 ?x) XOR drop_bit 8 c"
    by (subst split) (simp add: funpow_xor refl_bit_xor)
  then show ?thesis
    using small by (simp add: table word_masks)
qed

section \<open>The left-shifting register\<close>

lemma norm_bit_xor: "norm_bit p (a XOR b) = norm_bit p a XOR norm_bit p b"
  by (auto simp: norm_bit_def bit_simps push_bit_xor xor.assoc xor.left_commute xor.commute
      intro!: bit_word_eqI)

lemma norm_bit_inj:
  fixes p :: "'a::len word"
  assumes p: "bit p 0" and eq: "norm_bit p c = norm_bit p d"
  shows "c = d"
proof -
  have low: "bit (norm_bit p x) 0 = bit x (LENGTH('a) - 1)" for x
    using p by (auto simp: norm_bit_def bit_simps simp del: push_bit_Suc)
  from eq have top: "bit c (LENGTH('a) - 1) = bit d (LENGTH('a) - 1)" by (metis low)
  with eq have "push_bit 1 c = push_bit 1 d"
    by (auto simp: norm_bit_def split: if_splits)
  then have step: "bit (push_bit 1 c) (Suc k) = bit (push_bit 1 d) (Suc k)" for k
    by simp
  then have "bit c k = bit d k" if "Suc k < LENGTH('a)" for k
    using that step [of k] by (simp add: bit_simps del: push_bit_Suc)
  with top show ?thesis
    by (intro bit_word_eqI) (metis Suc_lessI diff_Suc_1)
qed

lemma norm_funpow_inj:
  fixes p :: "'a::len word"
  assumes "bit p 0" "(norm_bit p ^^ n) c = (norm_bit p ^^ n) d"
  shows "c = d"
  using assms(2) by (induction n) (auto dest: norm_bit_inj [OF assms(1)])

lemma norm_shift:
  fixes x :: "'a::len word"
  shows "n \<le> LENGTH('a) \<Longrightarrow> drop_bit (LENGTH('a) - n) x = 0 \<Longrightarrow> (norm_bit p ^^ n) x = push_bit n x"
proof (induction n arbitrary: x)
  case (Suc n)
  have "\<not> bit (drop_bit (LENGTH('a) - Suc n) x) k" for k
    using Suc.prems(2) by simp
  then have clear: "\<not> bit x k" if "LENGTH('a) - Suc n \<le> k" for k
    using that by (simp only: bit_drop_bit_eq comp_apply) (metis le_add_diff_inverse)
  have "norm_bit p x = push_bit 1 x"
    using clear [of "LENGTH('a) - 1"] Suc.prems(1) by (simp add: norm_bit_def)
  moreover have "drop_bit (LENGTH('a) - n) (push_bit 1 x) = 0"
    using clear Suc.prems(1) by (intro bit_word_eqI) (auto simp: bit_simps simp del: push_bit_Suc)
  ultimately show ?case
    using Suc by (simp add: funpow_Suc_right del: funpow.simps)
qed simp

lemma norm_byte:
  fixes c :: u16 and b :: u8
  assumes table: "table = map (\<lambda>i. (norm_bit p ^^ 8) (push_bit 8 (word_of_nat i))) [0..<256]"
  shows "push_bit 8 c XOR table ! unat ((drop_bit 8 c XOR ucast b) AND 0xFF)
         = (norm_bit p ^^ 8) (c XOR push_bit 8 (ucast b))"
proof -
  let ?h = "drop_bit 8 c XOR ucast b :: u16"
  have "drop_bit 8 c = take_bit 8 (drop_bit 8 c)"
    by (rule bit_word_eqI) (auto simp: bit_simps dest: bit_imp_le_length)
  then have h: "take_bit 8 ?h = ?h"
    by (intro bit_word_eqI) (auto simp: bit_simps dest: bit_imp_le_length)
  have "c XOR push_bit 8 (ucast b) =
        (take_bit 8 c XOR push_bit 8 (drop_bit 8 c)) XOR push_bit 8 (ucast b)"
    by (subst low_byte_split [of c]) (rule refl)
  then have "c XOR push_bit 8 (ucast b) = take_bit 8 c XOR push_bit 8 ?h"
    by (simp only: push_bit_xor xor.assoc)
  moreover have "(norm_bit p ^^ 8) (take_bit 8 c) = push_bit 8 (take_bit 8 c)"
    by (rule norm_shift) (auto intro!: bit_word_eqI simp: bit_simps)
  moreover have "push_bit 8 (take_bit 8 c) = push_bit 8 c"
    by (rule bit_word_eqI) (auto simp: bit_simps)
  ultimately have "(norm_bit p ^^ 8) (c XOR push_bit 8 (ucast b))
                   = push_bit 8 c XOR (norm_bit p ^^ 8) (push_bit 8 ?h)"
    by (simp add: funpow_xor norm_bit_xor)
  then show ?thesis
    using unat_take_bit_8 [of ?h]
    by (simp add: table word_masks h del: take_bit_xor push_bit_xor upt_rec_numeral)
qed

section \<open>The tables are those of their polynomials\<close>

lemma funpow_8: "(f ^^ 8) x = f (f (f (f (f (f (f (f x)))))))"
  by (simp add: numeral_eq_Suc)

lemma upt_8: "[0..<8] = [0, 1, 2, 3, 4, 5, 6, 7]"
  by (simp add: upt_rec)

lemma crc16_modbus_basis:
  "map (\<lambda>k. (refl_bit 0xA001 ^^ 8) (push_bit k (1 :: u16))) [0..<8]
   = [0xC0C1, 0xC181, 0xC301, 0xC601, 0xCC01, 0xD801, 0xF001, 0xA001]"
  unfolding upt_8 list.map by (simp add: refl_bit_def funpow_8)

lemma crc16_xmodem_basis:
  "map (\<lambda>k. (norm_bit 0x1021 ^^ 8) (push_bit 8 (push_bit k (1 :: u16)))) [0..<8]
   = [0x1021, 0x2042, 0x4084, 0x8108, 0x1231, 0x2462, 0x48C4, 0x9188]"
  unfolding upt_8 list.map by (simp add: norm_bit_def funpow_8)

lemma crc32_basis:
  "map (\<lambda>k. (refl_bit 0xEDB88320 ^^ 8) (push_bit k (1 :: u32))) [0..<8]
   = [0x77073096, 0xEE0E612C, 0x076DC419, 0x0EDB8832, 0x1DB71064, 0x3B6E20C8, 0x76DC4190,
      0xEDB88320]"
  unfolding upt_8 list.map by (simp add: refl_bit_def funpow_8)

lemma crc16_table_modbus_eq:
  "crc16_table_modbus = map (\<lambda>i. (refl_bit 0xA001 ^^ 8) (word_of_nat i)) [0..<256]"
proof -
  have "crc16_table_modbus =
        linear_table [0xC0C1, 0xC181, 0xC301, 0xC601, 0xCC01, 0xD801, 0xF001, 0xA001]"
    by (simp add: linear_table_def crc16_table_modbus_def)
  also have "\<dots> = linear_table (map (\<lambda>k. (refl_bit 0xA001 ^^ 8) (push_bit k (1 :: u16))) [0..<8])"
    by (simp only: crc16_modbus_basis)
  also have "\<dots> = map (\<lambda>i. (refl_bit 0xA001 ^^ 8) (word_of_nat i)) [0..<2 ^ 8]"
    by (rule linear_table_eq) (simp_all add: funpow_xor refl_bit_xor)
  finally show ?thesis by (simp del: upt_rec_numeral)
qed

lemma crc16_table_xmodem_eq:
  "crc16_table_xmodem = map (\<lambda>i. (norm_bit 0x1021 ^^ 8) (push_bit 8 (word_of_nat i))) [0..<256]"
proof -
  have "crc16_table_xmodem =
        linear_table [0x1021, 0x2042, 0x4084, 0x8108, 0x1231, 0x2462, 0x48C4, 0x9188]"
    by (simp add: linear_table_def crc16_table_xmodem_def)
  also have "\<dots> = linear_table
      (map (\<lambda>k. (norm_bit 0x1021 ^^ 8) (push_bit 8 (push_bit k (1 :: u16)))) [0..<8])"
    by (simp only: crc16_xmodem_basis)
  also have "\<dots> = map (\<lambda>i. (norm_bit 0x1021 ^^ 8) (push_bit 8 (word_of_nat i :: u16))) [0..<2 ^ 8]"
    by (rule linear_table_eq [of "\<lambda>x. (norm_bit 0x1021 ^^ 8) (push_bit 8 x)"])
       (simp_all add: funpow_xor norm_bit_xor push_bit_xor)
  finally show ?thesis by (simp del: upt_rec_numeral)
qed

lemma crc32_table_eq:
  "crc32_table = map (\<lambda>i. (refl_bit 0xEDB88320 ^^ 8) (word_of_nat i)) [0..<256]"
proof -
  have "crc32_table =
        linear_table [0x77073096, 0xEE0E612C, 0x076DC419, 0x0EDB8832, 0x1DB71064, 0x3B6E20C8,
          0x76DC4190, 0xEDB88320]"
    by (simp add: linear_table_def crc32_table_def)
  also have "\<dots> = linear_table (map (\<lambda>k. (refl_bit 0xEDB88320 ^^ 8) (push_bit k (1 :: u32))) [0..<8])"
    by (simp only: crc32_basis)
  also have "\<dots> = map (\<lambda>i. (refl_bit 0xEDB88320 ^^ 8) (word_of_nat i)) [0..<2 ^ 8]"
    by (rule linear_table_eq) (simp_all add: funpow_xor refl_bit_xor)
  finally show ?thesis by (simp del: upt_rec_numeral)
qed

section \<open>The rounds compute the bit-serial register\<close>

lemma crc16_modbus_step_bits:
  "crc16_modbus_step c b = (refl_bit 0xA001 ^^ 8) (c XOR ucast b)"
  unfolding crc16_modbus_step_def by (rule refl_byte) (simp_all only: crc16_table_modbus_eq, simp)

lemma crc16_xmodem_step_bits:
  "crc16_xmodem_step c b = (norm_bit 0x1021 ^^ 8) (c XOR push_bit 8 (ucast b))"
  unfolding crc16_xmodem_step_def by (rule norm_byte) (rule crc16_table_xmodem_eq)

lemma crc32_step_bits:
  "crc32_step c b = (refl_bit 0xEDB88320 ^^ 8) (c XOR ucast b)"
  unfolding crc32_step_def by (rule refl_byte) (simp_all only: crc32_table_eq, simp)

lemma ucast_u8_inj:
  fixes b b' :: u8
  assumes "8 \<le> LENGTH('a)" "(ucast b :: 'a::len word) = ucast b'"
  shows "b = b'"
proof (rule bit_word_eqI)
  fix k assume "k < LENGTH(8)"
  moreover have "bit (ucast b :: 'a word) k = bit (ucast b' :: 'a word) k"
    by (simp add: assms(2))
  ultimately show "bit b k = bit b' k" using assms(1) by (simp add: bit_simps)
qed

lemma push_ucast_u8_inj: "push_bit 8 (ucast (b::u8) :: u16) = push_bit 8 (ucast b') \<Longrightarrow> b = b'"
proof (rule bit_word_eqI)
  fix k assume "push_bit 8 (ucast b :: u16) = push_bit 8 (ucast b')" "k < LENGTH(8)"
  then have "bit (push_bit 8 (ucast b :: u16)) (8 + k) = bit (push_bit 8 (ucast b' :: u16)) (8 + k)"
    by simp
  with \<open>k < LENGTH(8)\<close> show "bit b k = bit b' k" by (simp add: bit_simps)
qed

lemma refl_top_bits: "bit (0xA001 :: u16) (LENGTH(16) - 1)" "bit (0xEDB88320 :: u32) (LENGTH(32) - 1)"
  by simp_all

interpretation modbus: crc_register crc16_modbus_step
  by unfold_locales
     (auto simp: crc16_modbus_step_bits dest!: refl_funpow_inj [OF refl_top_bits(1)] ucast_u8_inj [rotated])

interpretation xmodem: crc_register crc16_xmodem_step
proof unfold_locales
  have odd: "bit (0x1021 :: u16) 0" by simp
  show "crc16_xmodem_step c b = crc16_xmodem_step d b \<Longrightarrow> c = d" for b c d
    by (auto simp: crc16_xmodem_step_bits dest!: norm_funpow_inj [OF odd])
  show "crc16_xmodem_step c b = crc16_xmodem_step c b' \<Longrightarrow> b = b'" for b b' c
    unfolding crc16_xmodem_step_bits by (drule norm_funpow_inj [OF odd]) (simp add: push_ucast_u8_inj)
qed

interpretation iso_hdlc: crc_register crc32_step
  by unfold_locales
     (auto simp: crc32_step_bits dest!: refl_funpow_inj [OF refl_top_bits(2)] ucast_u8_inj [rotated])

lemma crc_loop_ok:
  "len \<le> length u \<Longrightarrow> crc_loop step c (Some u) len = Inr (foldl step c (take len u))"
  by (simp add: crc_loop_def)

lemma ones_twice: "(x XOR 0xFFFFFFFF) XOR 0xFFFFFFFF = (x :: u32)"
  by (simp only: xor.assoc) simp

lemma crc16_modbus_run:
  "length u \<le> INT_MAX \<Longrightarrow>
   crc16_modbus (Some u) (length u) s = Inr (foldl crc16_modbus_step (if s = 0 then 0xFFFF else s) u)"
  by (simp add: crc16_modbus_def crc_loop_ok)

lemma crc16_xmodem_run:
  "length u \<le> INT_MAX \<Longrightarrow>
   crc16_xmodem (Some u) (length u) s = Inr (foldl crc16_xmodem_step s u)"
  by (simp add: crc16_xmodem_def crc_loop_ok)

lemma crc32_run:
  "crc32 (Some u) (length u) t = Inr (foldl crc32_step (t XOR 0xFFFFFFFF) u XOR 0xFFFFFFFF)"
  by (simp add: crc32_def crc_loop_ok)

section \<open>Properties\<close>

text \<open>
  C19. Table-driven equals bit-serial: on a readable buffer (of at most \<open>INT_MAX\<close> bytes for the
  16-bit routines) each routine started with 0 returns the checksum of the shift register of
  its documented parameters: polynomial \<open>0x8005\<close> reflected with initial value \<open>0xFFFF\<close>
  (MODBUS), \<open>0x1021\<close> with initial value 0 (XMODEM), and \<open>0x04C11DB7\<close> reflected with initial
  value and output mask \<open>0xFFFFFFFF\<close> (ISO-HDLC).
\<close>

theorem crc_table_driven_is_bit_serial:
  assumes "len \<le> length u" "len \<le> INT_MAX"
  shows "crc16_modbus (Some u) len 0 =
           Inr (foldl (\<lambda>c b. (refl_bit 0xA001 ^^ 8) (c XOR ucast b)) 0xFFFF (take len u))
       \<and> crc16_xmodem (Some u) len 0 =
           Inr (foldl (\<lambda>c b. (norm_bit 0x1021 ^^ 8) (c XOR push_bit 8 (ucast b))) 0 (take len u))
       \<and> crc32 (Some u) len 0 =
           Inr (foldl (\<lambda>c b. (refl_bit 0xEDB88320 ^^ 8) (c XOR ucast b)) 0xFFFFFFFF (take len u)
                XOR 0xFFFFFFFF)"
proof -
  have "crc16_modbus_step = (\<lambda>c b. (refl_bit 0xA001 ^^ 8) (c XOR ucast b))"
    "crc16_xmodem_step = (\<lambda>c b. (norm_bit 0x1021 ^^ 8) (c XOR push_bit 8 (ucast b)))"
    "crc32_step = (\<lambda>c b. (refl_bit 0xEDB88320 ^^ 8) (c XOR ucast b))"
    by (auto simp: fun_eq_iff crc16_modbus_step_bits crc16_xmodem_step_bits crc32_step_bits)
  with assms show ?thesis
    by (simp add: crc16_modbus_def crc16_xmodem_def crc32_def crc_loop_ok)
qed

theorem crc_table_driven_is_bit_serial_witness:
  "crc32 (Some [0x31, 0x32]) 2 0 =
     Inr (foldl (\<lambda>c b. (refl_bit 0xEDB88320 ^^ 8) (c XOR ucast b)) 0xFFFFFFFF [0x31, 0x32 :: u8]
          XOR 0xFFFFFFFF)"
  using crc_table_driven_is_bit_serial [of 2 "[0x31, 0x32]"] by (simp add: INT_MAX_def)

text \<open>
  C33. Error detection: if two buffers of the same length differ in exactly one byte, each of
  the three routines returns different checksums for them, from any common start value.
\<close>

theorem crc_detects_one_byte_change:
  assumes "b \<noteq> b'" "length (xs @ b # ys) \<le> INT_MAX"
  shows "crc16_modbus (Some (xs @ b # ys)) (length (xs @ b # ys)) s
           \<noteq> crc16_modbus (Some (xs @ b' # ys)) (length (xs @ b' # ys)) s
       \<and> crc16_xmodem (Some (xs @ b # ys)) (length (xs @ b # ys)) s
           \<noteq> crc16_xmodem (Some (xs @ b' # ys)) (length (xs @ b' # ys)) s
       \<and> crc32 (Some (xs @ b # ys)) (length (xs @ b # ys)) t
           \<noteq> crc32 (Some (xs @ b' # ys)) (length (xs @ b' # ys)) t"
  using assms modbus.one_byte [OF assms(1)] xmodem.one_byte [OF assms(1)]
    iso_hdlc.one_byte [OF assms(1)]
  by (simp add: crc16_modbus_def crc16_xmodem_def crc32_def crc_loop_ok del: foldl_append)

theorem crc_detects_one_byte_change_witness:
  "crc32 (Some [1, 2, 3]) 3 0 \<noteq> crc32 (Some [1, 7, 3]) 3 0"
  using crc_detects_one_byte_change [of 2 7 "[1]" "[3]" 0 0]
  by (simp add: INT_MAX_def numeral_3_eq_3)

text \<open>
  Chunked computation: feeding the checksum of a first chunk as the start value of the
  second gives the checksum of the concatenation, for CRC-32 and CRC-16/XMODEM always, for
  CRC-16/MODBUS whenever the intermediate checksum is not 0. (The start value 0 stands for
  \<open>0xFFFF\<close> in the MODBUS routine, so a first chunk whose checksum is 0 restarts it.)
\<close>

theorem crc_incremental:
  assumes "length (u @ v) \<le> INT_MAX"
    and "crc16_modbus (Some u) (length u) s = Inr c" "c \<noteq> 0"
    and "crc16_xmodem (Some u) (length u) s = Inr d"
    and "crc32 (Some u) (length u) t = Inr e"
  shows "crc16_modbus (Some v) (length v) c = crc16_modbus (Some (u @ v)) (length (u @ v)) s
       \<and> crc16_xmodem (Some v) (length v) d = crc16_xmodem (Some (u @ v)) (length (u @ v)) s
       \<and> crc32 (Some v) (length v) e = crc32 (Some (u @ v)) (length (u @ v)) t"
proof -
  have "length u \<le> INT_MAX" "length v \<le> INT_MAX" using assms(1) by simp_all
  then show ?thesis
    using assms
    by (auto simp: crc16_modbus_run crc16_xmodem_run crc32_run ones_twice simp del: length_append)
qed

theorem crc_incremental_witness:
  "crc16_modbus (Some [3]) 1 0x807E = crc16_modbus (Some [1, 3]) 2 0
   \<and> crc32 (Some [3]) 1 0xA505DF1B = crc32 (Some [1, 3]) 2 0"
proof -
  have "crc16_modbus (Some [1]) 1 0 = Inr 0x807E"
    by (simp add: crc16_modbus_def INT_MAX_def crc_loop_def crc16_modbus_step_def
        crc16_table_modbus_def)
  moreover have "crc16_xmodem (Some [1]) 1 0 = Inr 0x1021"
    by (simp add: crc16_xmodem_def INT_MAX_def crc_loop_def crc16_xmodem_step_def
        crc16_table_xmodem_def)
  moreover have "crc32 (Some [1]) 1 0 = Inr 0xA505DF1B"
    by (simp add: crc32_def crc_loop_def crc32_step_def crc32_table_def)
  ultimately show ?thesis
    using crc_incremental [of "[1]" "[3]" 0 "0x807E" "0x1021" 0 "0xA505DF1B"]
    by (simp add: INT_MAX_def numeral_2_eq_2 [symmetric])
qed

text \<open>
  The exception of C4 is reachable: the two bytes \<open>0xFF 0xFF\<close> have MODBUS checksum 0, and
  continuing from that value gives another checksum than the whole message has.
\<close>

theorem crc16_modbus_chunk_restart:
  "crc16_modbus (Some [0xFF, 0xFF]) 2 0 = Inr 0
   \<and> crc16_modbus (Some [0xFF, 0xFF, 0x01]) 3 0 = Inr 0xC0C1
   \<and> crc16_modbus (Some [0x01]) 1 0 = Inr 0x807E"
proof -
  have "crc16_modbus (Some [0xFF, 0xFF]) 2 0 = Inr 0"
    by (simp add: crc16_modbus_def INT_MAX_def crc_loop_def crc16_modbus_step_def
        crc16_table_modbus_def)
  moreover have "crc16_modbus (Some [0xFF, 0xFF, 0x01]) 3 0 = Inr 0xC0C1"
    by (simp add: crc16_modbus_def INT_MAX_def crc_loop_def crc16_modbus_step_def
        crc16_table_modbus_def)
  moreover have "crc16_modbus (Some [0x01]) 1 0 = Inr 0x807E"
    by (simp add: crc16_modbus_def INT_MAX_def crc_loop_def crc16_modbus_step_def
        crc16_table_modbus_def)
  ultimately show ?thesis by simp
qed

end
