(* ===== verification/BloomFilter.thy ===== *)
theory BloomFilter
  imports Complex_Main HjPrelude
begin

text \<open>
  \<open>src/hj/algo/bloom_filter.hpp\<close>: the bit set packed into 64-bit words
  (\<open>detail::dynamic_bitset\<close>) and the Bloom filter on top of it.

  The hash functions \<open>std::hash<T>\<close> and \<open>std::hash<size_t>\<close> are parameters \<open>h1\<close> and \<open>h2\<close>;
  \<open>is_empty\<close> stands for \<open>value.empty()\<close>, which \<open>_assert_not_empty\<close> asks only of strings (it is
  \<open>\<lambda>_. False\<close> for every other element type). The constructor computes the number of bits in
  \<open>double\<close>s, idealised as reals; the conversion of a \<open>double\<close> outside the range of \<open>size_t\<close> is
  undefined in C++, so the conversion is a parameter \<open>conv\<close> and the theorems hold for every
  result an implementation may give.
\<close>

section \<open>Definitions\<close>

subsection \<open>The bit set\<close>

record dynamic_bitset =
  num_bits :: nat
  num_words :: nat
  data :: "u64 list"

definition bitset_reset :: "dynamic_bitset \<Rightarrow> dynamic_bitset" where
  "bitset_reset b = b\<lparr>data := replicate (num_words b) 0\<rparr>"

definition bitset_new :: "nat \<Rightarrow> dynamic_bitset" where
  "bitset_new n =
     bitset_reset \<lparr>num_bits = n, num_words = (n + 63) div 64,
                   data = replicate ((n + 63) div 64) undefined\<rparr>"

definition bitset_copy :: "dynamic_bitset \<Rightarrow> dynamic_bitset" where
  "bitset_copy other =
     \<lparr>num_bits = num_bits other, num_words = num_words other,
      data = take (num_words other) (data other)\<rparr>"

definition bitset_assign :: "dynamic_bitset \<Rightarrow> dynamic_bitset \<Rightarrow> dynamic_bitset" where
  "bitset_assign this other =
     this\<lparr>num_bits := num_bits other, num_words := num_words other,
          data := take (num_words other) (data other)\<rparr>"

definition bitset_set :: "dynamic_bitset \<Rightarrow> nat \<Rightarrow> bool \<Rightarrow> dynamic_bitset" where
  "bitset_set b pos v =
     (if pos \<ge> num_bits b then b
      else let word = pos div 64; bit = pos mod 64 in
           if v then b\<lparr>data := (data b)[word := data b ! word OR push_bit bit 1]\<rparr>
           else b\<lparr>data := (data b)[word := data b ! word AND NOT (push_bit bit 1)]\<rparr>)"

definition bitset_test :: "dynamic_bitset \<Rightarrow> nat \<Rightarrow> bool" where
  "bitset_test b pos =
     (if pos \<ge> num_bits b then False
      else let word = pos div 64; bit = pos mod 64 in
           drop_bit bit (data b ! word) AND 1 \<noteq> 0)"

definition bitset_size :: "dynamic_bitset \<Rightarrow> nat" where
  "bitset_size b = num_bits b"

text \<open>The allocated words cover the bits; every operation keeps it.\<close>

definition bitset_wf :: "dynamic_bitset \<Rightarrow> bool" where
  "bitset_wf b \<longleftrightarrow> num_words b = (num_bits b + 63) div 64 \<and> length (data b) = num_words b"

subsection \<open>The filter\<close>

definition BLOOM_FILTER_MIN_BITS :: nat where "BLOOM_FILTER_MIN_BITS = 64"
definition BLOOM_FILTER_MAX_BITS :: nat where "BLOOM_FILTER_MAX_BITS = 2 ^ 16"
definition BLOOM_FILTER_MIN_HASHES :: nat where "BLOOM_FILTER_MIN_HASHES = 1"
definition BLOOM_FILTER_MAX_HASHES :: nat where "BLOOM_FILTER_MAX_HASHES = 16"

record bloom_filter =
  expected_insertions :: nat
  false_positive_rate :: real
  bf_num_bits :: nat
  num_hash_functions :: nat
  bits :: dynamic_bitset

text \<open>
  The product \<open>-1 * n\<close> is evaluated in \<open>size_t\<close> before it meets the \<open>double\<close>, so it is
  \<open>2 ^ 64 - n\<close>.
\<close>

definition optimal_bits_arg :: "nat \<Rightarrow> real \<Rightarrow> real" where
  "optimal_bits_arg n p = real (unat (- (word_of_nat n) :: u64)) * ln p / (ln 2) ^ 2"

definition optimal_num_of_bits :: "(real \<Rightarrow> nat) \<Rightarrow> nat \<Rightarrow> real \<Rightarrow> nat" where
  "optimal_num_of_bits conv n p = conv (optimal_bits_arg n p)"

definition optimal_num_of_hash_functions :: "nat \<Rightarrow> nat \<Rightarrow> nat" where
  "optimal_num_of_hash_functions n m =
     (if n = 0 then 1 else max 1 (nat \<lfloor>real m / real n * ln 2 + 1 / 2\<rfloor>))"

definition bloom_new :: "(real \<Rightarrow> nat) \<Rightarrow> nat \<Rightarrow> real \<Rightarrow> bloom_filter" where
  "bloom_new conv expected fpr =
     (let n = (if expected = 0 then 100 else expected);
          p = (if fpr \<le> 0 \<or> fpr \<ge> 1 then 0.01 else fpr);
          m0 = optimal_num_of_bits conv n p;
          m1 = (if m0 < BLOOM_FILTER_MIN_BITS then BLOOM_FILTER_MIN_BITS else m0);
          m = (if m1 > BLOOM_FILTER_MAX_BITS then BLOOM_FILTER_MAX_BITS else m1);
          k0 = optimal_num_of_hash_functions n m;
          k1 = (if k0 < BLOOM_FILTER_MIN_HASHES then BLOOM_FILTER_MIN_HASHES else k0);
          k = (if k1 > BLOOM_FILTER_MAX_HASHES then BLOOM_FILTER_MAX_HASHES else k1)
      in \<lparr>expected_insertions = n, false_positive_rate = p, bf_num_bits = m,
          num_hash_functions = k, bits = bitset_assign (bitset_new 1) (bitset_new m)\<rparr>)"

definition bloom_clear :: "bloom_filter \<Rightarrow> bloom_filter" where
  "bloom_clear f = f\<lparr>bits := bitset_reset (bits f)\<rparr>"

definition bit_size :: "bloom_filter \<Rightarrow> nat" where
  "bit_size f = bf_num_bits f"

definition hash_count :: "bloom_filter \<Rightarrow> nat" where
  "hash_count f = num_hash_functions f"

definition hash_i :: "('a \<Rightarrow> u64) \<Rightarrow> (u64 \<Rightarrow> u64) \<Rightarrow> 'a \<Rightarrow> nat \<Rightarrow> u64" where
  "hash_i h1 h2 value i =
     (let hval = h1 value; hmix = hval + word_of_nat i * h2 hval
      in hmix AND 0x7FFFFFFFFFFFFFFF)"

definition bloom_add ::
    "('a \<Rightarrow> bool) \<Rightarrow> ('a \<Rightarrow> u64) \<Rightarrow> (u64 \<Rightarrow> u64) \<Rightarrow> bloom_filter \<Rightarrow> 'a \<Rightarrow> bloom_filter result" where
  "bloom_add is_empty h1 h2 f value =
     (if is_empty value then Inl Assert_failed
      else Inr (f\<lparr>bits := foldl (\<lambda>b i. bitset_set b (unat (hash_i h1 h2 value i) mod bf_num_bits f) True)
                        (bits f) [0..<num_hash_functions f]\<rparr>))"

definition bloom_contains ::
    "('a \<Rightarrow> bool) \<Rightarrow> ('a \<Rightarrow> u64) \<Rightarrow> (u64 \<Rightarrow> u64) \<Rightarrow> bloom_filter \<Rightarrow> 'a \<Rightarrow> bool result" where
  "bloom_contains is_empty h1 h2 f value =
     (if is_empty value then Inl Assert_failed
      else Inr (list_all (\<lambda>i. bitset_test (bits f) (unat (hash_i h1 h2 value i) mod bf_num_bits f))
                  [0..<num_hash_functions f]))"

definition bloom_serialize :: "bloom_filter \<Rightarrow> string" where
  "bloom_serialize f =
     map (\<lambda>i. if bitset_test (bits f) i then CHR ''1'' else CHR ''0'') [0..<bf_num_bits f]"

definition bloom_unserialize :: "bloom_filter \<Rightarrow> string \<Rightarrow> bloom_filter \<times> bool" where
  "bloom_unserialize f s =
     (if length s \<noteq> bf_num_bits f then (f, False)
      else (f\<lparr>bits := foldl (\<lambda>b i. bitset_set b i (s ! i = CHR ''1'')) (bits f) [0..<length s]\<rparr>,
            True))"

section \<open>The contract of a bit set\<close>

locale bit_array =
  fixes set :: "'b \<Rightarrow> nat \<Rightarrow> bool \<Rightarrow> 'b"
    and test :: "'b \<Rightarrow> nat \<Rightarrow> bool"
    and reset :: "'b \<Rightarrow> 'b"
    and size :: "'b \<Rightarrow> nat"
    and invar :: "'b \<Rightarrow> bool"
  assumes test_set: "invar b \<Longrightarrow> i < size b \<Longrightarrow> test (set b i v) j = (if j = i then v else test b j)"
    and set_outside: "\<not> i < size b \<Longrightarrow> set b i v = b"
    and test_outside: "\<not> i < size b \<Longrightarrow> \<not> test b i"
    and test_reset: "invar b \<Longrightarrow> \<not> test (reset b) i"
    and size_set: "size (set b i v) = size b"
    and size_reset: "size (reset b) = size b"
    and invar_set: "invar b \<Longrightarrow> invar (set b i v)"
    and invar_reset: "invar b \<Longrightarrow> invar (reset b)"
begin

lemma fold_invar: "invar b \<Longrightarrow> invar (foldl (\<lambda>b i. set b (p i) (v i)) b is)"
  by (induction "is" arbitrary: b) (simp_all add: invar_set)

lemma fold_size: "size (foldl (\<lambda>b i. set b (p i) (v i)) b is) = size b"
  by (induction "is" arbitrary: b) (simp_all add: size_set)

text \<open>Setting a list of positions adds exactly those positions.\<close>

lemma test_fold_set:
  "invar b \<Longrightarrow> test (foldl (\<lambda>b i. set b (p i) True) b is) j
     \<longleftrightarrow> test b j \<or> (j < size b \<and> j \<in> p ` List.set is)"
proof (induction "is" arbitrary: b)
  case (Cons i "is")
  show ?case
  proof (cases "p i < size b")
    case True
    then show ?thesis
      using Cons by (auto simp: test_set size_set invar_set)
  next
    case False
    then show ?thesis
      using Cons by (auto simp: set_outside)
  qed
qed simp

text \<open>Writing every position of a prefix makes the prefix a copy of what was written.\<close>

lemma test_fold_copy:
  "invar b \<Longrightarrow> n \<le> size b \<Longrightarrow>
   test (foldl (\<lambda>b i. set b i (v i)) b [0..<n]) j = (if j < n then v j else test b j)"
proof (induction n)
  case (Suc n)
  have "n < size (foldl (\<lambda>b i. set b i (v i)) b [0..<n])"
    using Suc.prems fold_size [of "\<lambda>i. i" v b "[0..<n]"] by simp
  then show ?case
    using Suc fold_invar [of b "\<lambda>i. i" v "[0..<n]"]
    by (auto simp: test_set less_Suc_eq)
qed simp

end

section \<open>The packed bit set satisfies the contract\<close>

lemma bitset_word_bound: "bitset_wf b \<Longrightarrow> i < num_bits b \<Longrightarrow> i div 64 < length (data b)"
  by (auto simp: bitset_wf_def)

lemma bitset_test_bit:
  "bitset_test b i \<longleftrightarrow> i < num_bits b \<and> bit (data b ! (i div 64)) (i mod 64)"
  by (auto simp: bitset_test_def Let_def and_one_eq odd_iff_mod_2_eq_one [symmetric] bit_iff_odd_drop_bit
      simp del: odd_iff_mod_2_eq_one)

lemma bitset_set_simps [simp]:
  "num_bits (bitset_set b i v) = num_bits b"
  "num_words (bitset_set b i v) = num_words b"
  "length (data (bitset_set b i v)) = length (data b)"
  by (simp_all add: bitset_set_def Let_def)

lemma bitset_test_set:
  assumes "bitset_wf b" "i < num_bits b"
  shows "bitset_test (bitset_set b i v) j = (if j = i then v else bitset_test b j)"
proof -
  have "i mod 64 = j mod 64 \<Longrightarrow> i div 64 = j div 64 \<Longrightarrow> i = j"
    by (metis div_mult_mod_eq)
  then show ?thesis
    using assms bitset_word_bound [OF assms]
    by (auto simp: bitset_test_bit bitset_set_def Let_def nth_list_update bit_simps)
qed

interpretation bits: bit_array bitset_set bitset_test bitset_reset bitset_size bitset_wf
proof unfold_locales
  show "bitset_wf b \<Longrightarrow> i < bitset_size b \<Longrightarrow>
        bitset_test (bitset_set b i v) j = (if j = i then v else bitset_test b j)" for b i v j
    by (simp add: bitset_size_def bitset_test_set)
  show "bitset_wf b \<Longrightarrow> \<not> bitset_test (bitset_reset b) i" for b i
    using bitset_word_bound [of b i]
    by (auto simp: bitset_test_bit bitset_reset_def bitset_wf_def)
qed (auto simp: bitset_size_def bitset_set_def bitset_test_def bitset_reset_def bitset_wf_def Let_def)

lemmas fold_set_wf = bits.fold_invar bits.fold_size [unfolded bitset_size_def]

lemma bitset_new_wf [simp]: "bitset_wf (bitset_new n)" "num_bits (bitset_new n) = n"
  by (simp_all add: bitset_new_def bitset_reset_def bitset_wf_def)

lemma bitset_assign_wf: "bitset_wf b \<Longrightarrow> bitset_assign a b = bitset_copy b \<and> bitset_copy b = b"
  by (simp add: bitset_assign_def bitset_copy_def bitset_wf_def)

section \<open>The filter\<close>

text \<open>
  The invariant of a filter: sizes within the configured bounds and a bit set of the announced
  size.
\<close>

definition bloom_wf :: "bloom_filter \<Rightarrow> bool" where
  "bloom_wf f \<longleftrightarrow>
     BLOOM_FILTER_MIN_BITS \<le> bf_num_bits f \<and> bf_num_bits f \<le> BLOOM_FILTER_MAX_BITS \<and>
     BLOOM_FILTER_MIN_HASHES \<le> num_hash_functions f \<and>
     num_hash_functions f \<le> BLOOM_FILTER_MAX_HASHES \<and>
     bitset_wf (bits f) \<and> num_bits (bits f) = bf_num_bits f"

lemma bloom_wf_pos: "bloom_wf f \<Longrightarrow> 0 < bf_num_bits f" "bloom_wf f \<Longrightarrow> 0 < num_hash_functions f"
  by (auto simp: bloom_wf_def BLOOM_FILTER_MIN_BITS_def BLOOM_FILTER_MIN_HASHES_def)

lemma bloom_new_wf: "bloom_wf (bloom_new conv n p)"
  using bitset_assign_wf [OF bitset_new_wf(1)]
  by (auto simp: bloom_wf_def bloom_new_def Let_def BLOOM_FILTER_MIN_BITS_def BLOOM_FILTER_MAX_BITS_def
      BLOOM_FILTER_MIN_HASHES_def BLOOM_FILTER_MAX_HASHES_def)

lemma bloom_clear_wf: "bloom_wf f \<Longrightarrow> bloom_wf (bloom_clear f)"
  using bits.invar_reset [of "bits f"]
  by (simp add: bloom_wf_def bloom_clear_def bitset_reset_def)

lemma bloom_add_wf:
  assumes "bloom_wf f" "bloom_add e h1 h2 f x = Inr f'"
  shows "bloom_wf f' \<and> bf_num_bits f' = bf_num_bits f \<and> num_hash_functions f' = num_hash_functions f"
  using assms by (auto simp: bloom_wf_def bloom_add_def fold_set_wf split: if_splits)

lemma bloom_unserialize_wf:
  assumes "bloom_wf f"
  shows "bloom_wf (fst (bloom_unserialize f s))"
  using assms fold_set_wf(1) [of "bits f" "\<lambda>i. i"] fold_set_wf(2) [of "\<lambda>i. i"]
  by (auto simp: bloom_wf_def bloom_unserialize_def)

text \<open>The positions of a value.\<close>

definition bloom_positions :: "('a \<Rightarrow> u64) \<Rightarrow> (u64 \<Rightarrow> u64) \<Rightarrow> bloom_filter \<Rightarrow> 'a \<Rightarrow> nat set" where
  "bloom_positions h1 h2 f x =
     (\<lambda>i. unat (hash_i h1 h2 x i) mod bf_num_bits f) ` {0..<num_hash_functions f}"

definition bloom_bits :: "bloom_filter \<Rightarrow> nat set" where
  "bloom_bits f = {i. bitset_test (bits f) i}"

lemma bloom_positions_bound: "bloom_wf f \<Longrightarrow> p \<in> bloom_positions h1 h2 f x \<Longrightarrow> p < bf_num_bits f"
  using bloom_wf_pos(1) [of f] by (auto simp: bloom_positions_def)

lemma bloom_bits_add:
  assumes "bloom_wf f" "bloom_add e h1 h2 f x = Inr f'"
  shows "bloom_bits f' = bloom_bits f \<union> bloom_positions h1 h2 f x"
proof -
  have "p < bitset_size (bits f)" if "p \<in> bloom_positions h1 h2 f x" for p
    using bloom_positions_bound [OF assms(1) that] assms(1)
    by (simp add: bloom_wf_def bitset_size_def)
  then show ?thesis
    using assms
    by (auto simp: bloom_bits_def bloom_add_def bloom_positions_def bits.test_fold_set bloom_wf_def
        split: if_splits)
qed

lemma bloom_contains_bits:
  "\<not> e x \<Longrightarrow> bloom_contains e h1 h2 f x = Inr (bloom_positions h1 h2 f x \<subseteq> bloom_bits f)"
  by (auto simp: bloom_contains_def bloom_positions_def bloom_bits_def list_all_iff)

text \<open>Adding a list of values.\<close>

fun bloom_add_all ::
    "('a \<Rightarrow> bool) \<Rightarrow> ('a \<Rightarrow> u64) \<Rightarrow> (u64 \<Rightarrow> u64) \<Rightarrow> bloom_filter \<Rightarrow> 'a list \<Rightarrow> bloom_filter result" where
  "bloom_add_all e h1 h2 f [] = Inr f"
| "bloom_add_all e h1 h2 f (x # xs) =
     (case bloom_add e h1 h2 f x of Inl err \<Rightarrow> Inl err | Inr f' \<Rightarrow> bloom_add_all e h1 h2 f' xs)"

lemma bloom_positions_cong:
  "bf_num_bits f = bf_num_bits g \<Longrightarrow> num_hash_functions f = num_hash_functions g \<Longrightarrow>
   bloom_positions h1 h2 f x = bloom_positions h1 h2 g x"
  by (simp add: bloom_positions_def)

lemma bloom_add_all_bits:
  "bloom_wf f \<Longrightarrow> bloom_add_all e h1 h2 f xs = Inr g \<Longrightarrow>
   bloom_wf g \<and> bf_num_bits g = bf_num_bits f \<and> num_hash_functions g = num_hash_functions f \<and>
   bloom_bits g = bloom_bits f \<union> (\<Union>x\<in>set xs. bloom_positions h1 h2 f x)"
proof (induction xs arbitrary: f)
  case (Cons x xs)
  then obtain f' where f': "bloom_add e h1 h2 f x = Inr f'" "bloom_add_all e h1 h2 f' xs = Inr g"
    by (auto split: sum.splits)
  note step = bloom_add_wf [OF Cons.prems(1) f'(1)]
  have "bloom_positions h1 h2 f' y = bloom_positions h1 h2 f y" for y
    using step by (intro bloom_positions_cong) simp_all
  with Cons.IH [OF _ f'(2)] step bloom_bits_add [OF Cons.prems(1) f'(1)] show ?case
    by auto
qed simp

lemma bloom_add_all_total: "\<forall>x\<in>set xs. \<not> e x \<Longrightarrow> \<exists>g. bloom_add_all e h1 h2 f xs = Inr g"
  by (induction xs arbitrary: f) (auto simp: bloom_add_def)

lemma bloom_clear_bits: "bloom_wf f \<Longrightarrow> bloom_bits (bloom_clear f) = {}"
  using bits.test_reset [of "bits f"] by (auto simp: bloom_bits_def bloom_clear_def bloom_wf_def)

lemma bloom_new_bits: "bloom_bits (bloom_new conv n p) = {}"
proof -
  have "bloom_new conv n p = bloom_clear (bloom_new conv n p)"
    using bitset_assign_wf [OF bitset_new_wf(1)]
    by (simp add: bloom_new_def bloom_clear_def Let_def bitset_new_def bitset_reset_def)
  then show ?thesis using bloom_clear_bits [OF bloom_new_wf] by metis
qed

lemma bloom_unserialize_serialize:
  assumes "bloom_wf f" "bloom_wf g" "bf_num_bits g = bf_num_bits f"
  shows "snd (bloom_unserialize g (bloom_serialize f))
       \<and> bloom_bits (fst (bloom_unserialize g (bloom_serialize f))) = bloom_bits f"
proof -
  have bound: "i \<in> bloom_bits f \<Longrightarrow> i < bf_num_bits f" for i
    using assms(1) by (auto simp: bloom_bits_def bitset_test_bit bloom_wf_def)
  moreover have "i \<in> bloom_bits g \<Longrightarrow> i < bf_num_bits f" for i
    using assms(2,3) by (auto simp: bloom_bits_def bitset_test_bit bloom_wf_def)
  ultimately show ?thesis
    using assms
    by (auto simp: bloom_unserialize_def bloom_serialize_def bloom_bits_def bits.test_fold_copy
        bloom_wf_def bitset_size_def)
qed

section \<open>Properties\<close>

text \<open>
  C12. A Bloom filter has no false negatives. Adding a list of (non-empty) values to a new filter
  succeeds, every value added is then reported as present, a value is reported as present exactly
  when all its positions were set by added values, and after \<open>clear\<close> nothing is reported as
  present. This holds for all hash functions and however the number of bits was rounded.
\<close>

theorem bloom_no_false_negatives:
  assumes "\<forall>x\<in>set xs. \<not> e x"
  shows "\<exists>g. bloom_add_all e h1 h2 (bloom_new conv n p) xs = Inr g
           \<and> (\<forall>x\<in>set xs. bloom_contains e h1 h2 g x = Inr True)
           \<and> (\<forall>y. \<not> e y \<longrightarrow> bloom_contains e h1 h2 g y =
                 Inr (bloom_positions h1 h2 g y \<subseteq> (\<Union>x\<in>set xs. bloom_positions h1 h2 g x)))
           \<and> (\<forall>y. \<not> e y \<longrightarrow> bloom_contains e h1 h2 (bloom_clear g) y = Inr False)"
proof -
  let ?f = "bloom_new conv n p"
  obtain g where g: "bloom_add_all e h1 h2 ?f xs = Inr g"
    using bloom_add_all_total [OF assms] by blast
  note facts = bloom_add_all_bits [OF bloom_new_wf g]
  have "bloom_positions h1 h2 g y = bloom_positions h1 h2 ?f y" for y
    using facts by (intro bloom_positions_cong) simp_all
  then have bits: "bloom_bits g = (\<Union>x\<in>set xs. bloom_positions h1 h2 g x)"
    using facts by (simp add: bloom_new_bits)
  have "bloom_positions h1 h2 (bloom_clear g) y \<noteq> {}" for y
    using facts bloom_wf_pos(2) [of "bloom_clear g"] bloom_clear_wf [of g]
    by (auto simp: bloom_positions_def)
  then have "\<not> e y \<Longrightarrow> bloom_contains e h1 h2 (bloom_clear g) y = Inr False" for y
    using facts by (simp add: bloom_contains_bits bloom_clear_bits)
  moreover have "\<forall>x\<in>set xs. bloom_contains e h1 h2 g x = Inr True"
    using assms bits by (auto simp: bloom_contains_bits)
  ultimately show ?thesis
    using g bits by (auto simp: bloom_contains_bits)
qed

theorem bloom_no_false_negatives_witness:
  "\<exists>g. bloom_add_all (\<lambda>s. s = ([]::string)) (\<lambda>s. word_of_nat (length s)) (\<lambda>h. h * 31)
         (bloom_new (\<lambda>_. 128) 10 (1 / 100)) [''ab'', ''abc''] = Inr g
       \<and> bloom_contains (\<lambda>s. s = []) (\<lambda>s. word_of_nat (length s)) (\<lambda>h. h * 31) g ''abc'' = Inr True"
  using bloom_no_false_negatives [of "[''ab'', ''abc'']" "\<lambda>s. s = []"
      "\<lambda>s. word_of_nat (length s)" "\<lambda>h. h * 31" "\<lambda>_. 128" 10 "1 / 100"]
  by auto

text \<open>
  C34. The sizes chosen by the constructor are within the limits of the header (64 to 65536 bits,
  1 to 16 hash functions) whatever the requested rate and the conversion of the bit count are, and
  \<open>add\<close>, \<open>clear\<close> and \<open>unserialize\<close> keep the invariant that the bit set has the announced size and
  all its words are allocated.
\<close>

theorem bloom_sizes_invariant:
  assumes "bloom_wf f" "bloom_add e h1 h2 f x = Inr f'"
  shows "bloom_wf f' \<and> bloom_wf (bloom_clear f) \<and> bloom_wf (fst (bloom_unserialize f s))
       \<and> bloom_wf (bloom_new conv n p)
       \<and> bit_size (bloom_new conv n p) \<in> {64..65536}
       \<and> hash_count (bloom_new conv n p) \<in> {1..16}
       \<and> bit_size f' = bit_size f \<and> hash_count f' = hash_count f"
  using bloom_add_wf [OF assms] bloom_clear_wf [OF assms(1)] bloom_unserialize_wf [OF assms(1)]
    bloom_new_wf [of conv n p]
  by (simp add: bit_size_def hash_count_def bloom_wf_def BLOOM_FILTER_MIN_BITS_def
      BLOOM_FILTER_MAX_BITS_def BLOOM_FILTER_MIN_HASHES_def BLOOM_FILTER_MAX_HASHES_def)

theorem bloom_sizes_invariant_witness:
  "\<exists>f'. bloom_add (\<lambda>_. False) (\<lambda>n::nat. word_of_nat n) id (bloom_new (\<lambda>_. 100) 10 (1 / 2)) 7 = Inr f'
      \<and> bloom_wf f'"
  using bloom_sizes_invariant [OF bloom_new_wf [of "\<lambda>_. 100" 10 "1 / 2"],
      of "\<lambda>_. False" "\<lambda>n. word_of_nat n" id "7::nat"]
  by (simp add: bloom_add_def)

text \<open>
  Serialising a filter and reading the string into any filter with the same number of bits and
  of hash functions makes the two filters answer alike; a string of another length is refused and
  leaves the filter as it was.
\<close>

theorem bloom_serialize_roundtrip:
  assumes "bloom_wf f" "bloom_wf g" "bit_size g = bit_size f" "hash_count g = hash_count f"
    and "bloom_unserialize g (bloom_serialize f) = (g', ok)"
  shows "ok \<and> bloom_contains e h1 h2 g' x = bloom_contains e h1 h2 f x
       \<and> (length s \<noteq> bit_size g \<longrightarrow> bloom_unserialize g s = (g, False))"
proof -
  have "bf_num_bits g' = bf_num_bits f" "num_hash_functions g' = num_hash_functions f"
    using assms(3-5) by (auto simp: bit_size_def hash_count_def bloom_unserialize_def split: if_splits)
  then have "bloom_positions h1 h2 g' x = bloom_positions h1 h2 f x"
    by (rule bloom_positions_cong)
  moreover have "ok" "bloom_bits g' = bloom_bits f"
    using bloom_unserialize_serialize [of f g] assms by (simp_all add: bit_size_def)
  ultimately show ?thesis
    using bloom_contains_bits [of e x h1 h2]
    by (cases "e x") (simp_all add: bloom_contains_def [of e h1 h2 _ x] bloom_unserialize_def bit_size_def)
qed

theorem bloom_serialize_roundtrip_witness:
  "let f = bloom_new (\<lambda>_. 70) 10 (1 / 2) in
   \<exists>g' ok. bloom_unserialize f (bloom_serialize f) = (g', ok) \<and> ok
     \<and> bloom_contains (\<lambda>_. False) (\<lambda>n::nat. word_of_nat n) id g' 3
       = bloom_contains (\<lambda>_. False) (\<lambda>n::nat. word_of_nat n) id f 3"
proof -
  define f where "f = bloom_new (\<lambda>_. 70) 10 (1 / 2)"
  obtain g' ok where "bloom_unserialize f (bloom_serialize f) = (g', ok)" by fastforce
  then show ?thesis
    using bloom_serialize_roundtrip [of f f g' ok "\<lambda>_. False" "\<lambda>n. word_of_nat n" id "3::nat"]
      bloom_new_wf [of "\<lambda>_. 70" 10 "1 / 2"]
    by (auto simp: f_def [symmetric] Let_def)
qed

text \<open>
  The expression the constructor converts to the number of bits is hugely negative for every
  realistic request: \<open>-1 * n\<close> wraps to \<open>2 ^ 64 - n\<close> before it is multiplied with the negative
  logarithm. The conversion to \<open>size_t\<close> of such a \<open>double\<close> has no defined result, so the requested
  false positive rate never decides the size of the filter.
\<close>

theorem bloom_bits_argument_negative:
  assumes "1 \<le> n" "n \<le> 2 ^ 63" "0 < p" "p \<le> 1 / 2"
  shows "optimal_bits_arg n p \<le> - (2 ^ 62)"
proof -
  have n: "unat (- (word_of_nat n) :: u64) = 2 ^ 64 - n"
  proof -
    have "(- (word_of_nat n) :: u64) = word_of_nat (2 ^ 64 - n)"
      using assms(2) of_nat_diff [of n "2 ^ 64", where 'a = u64] by simp
    then show ?thesis using assms(1) by (simp add: unat_of_nat take_bit_nat_eq_self)
  qed
  have ln2: "0 < ln (2::real)" "ln (2::real) \<le> 1" using ln_le_minus_one [of "2::real"] by simp_all
  have lnp: "ln p \<le> - ln 2" using assms(3,4) ln_mono [of p "1 / 2"] by (simp add: ln_div)
  have big: "2 ^ 63 \<le> real (2 ^ 64 - n)" using assms(2) by (simp add: of_nat_diff)
  have "real (2 ^ 64 - n) * ln p \<le> 2 ^ 63 * - ln 2"
    using mult_mono [OF big, of "ln 2" "- ln p"] lnp ln2(1) by simp
  then have "optimal_bits_arg n p \<le> - (2 ^ 63) / ln 2"
    using ln2 n by (simp add: optimal_bits_arg_def power2_eq_square divide_le_eq field_simps)
  also have "\<dots> \<le> - (2 ^ 62)" using ln2 by (simp add: field_simps)
  finally show ?thesis .
qed

theorem bloom_bits_argument_negative_witness: "optimal_bits_arg 1000 (1 / 100) \<le> - (2 ^ 62)"
  using bloom_bits_argument_negative [of 1000 "1 / 100"] by simp

end
