(* ===== verification/Endian.thy ===== *)
theory Endian
  imports HjPrelude
begin

text \<open>
  Byte order: \<open>src/hj/encoding/endian.hpp\<close> and the byte swap of \<open>src/hj/algo/uuid.hpp\<close>.

  The order of the host is an argument \<open>host_be\<close> (true on a big-endian machine): it decides in
  which order the bytes of a word lie in memory and what \<open>htons\<close> and \<open>htonl\<close> do. The compiler
  built-ins \<open>__builtin_bswap16/32/64\<close> are the byte reversal \<open>bswap\<close>; the shift-and-mask versions
  that the sources have for other compilers are modelled as written and shown equal to it.
\<close>

section \<open>Definitions\<close>

text \<open>The bytes of a word, least significant first, and as they lie in the memory of the host.\<close>

definition le_bytes :: "'a::len word \<Rightarrow> bytes" where
  "le_bytes w = map (\<lambda>i. ucast (drop_bit (8 * i) w)) [0..<LENGTH('a) div 8]"

primrec of_le_bytes :: "bytes \<Rightarrow> 'a::len word" where
  "of_le_bytes [] = 0"
| "of_le_bytes (b # bs) = ucast b OR push_bit 8 (of_le_bytes bs)"

definition mem_bytes :: "bool \<Rightarrow> 'a::len word \<Rightarrow> bytes" where
  "mem_bytes host_be w = (if host_be then rev (le_bytes w) else le_bytes w)"

definition bswap :: "'a::len word \<Rightarrow> 'a word" where
  "bswap w = of_le_bytes (rev (le_bytes w))"

definition ENDIAN_SWAP16 :: "u16 \<Rightarrow> u16" where
  "ENDIAN_SWAP16 x = drop_bit 8 x OR push_bit 8 x"

definition ENDIAN_SWAP32 :: "u32 \<Rightarrow> u32" where
  "ENDIAN_SWAP32 x =
     (drop_bit 24 x AND 0xFF) OR (drop_bit 8 x AND 0xFF00) OR (push_bit 8 x AND 0xFF0000)
     OR (push_bit 24 x AND 0xFF000000)"

definition ENDIAN_SWAP64 :: "u64 \<Rightarrow> u64" where
  "ENDIAN_SWAP64 x =
     drop_bit 56 (x AND 0xFF00000000000000)
     OR drop_bit 40 (x AND 0x00FF000000000000)
     OR drop_bit 24 (x AND 0x0000FF0000000000)
     OR drop_bit 8 (x AND 0x000000FF00000000)
     OR push_bit 8 (x AND 0x00000000FF000000)
     OR push_bit 24 (x AND 0x0000000000FF0000)
     OR push_bit 40 (x AND 0x000000000000FF00)
     OR push_bit 56 (x AND 0x00000000000000FF)"

definition is_big_endian :: "bool \<Rightarrow> bool" where
  "is_big_endian host_be \<longleftrightarrow> mem_bytes host_be (0x01020304 :: u32) ! 0 = 0x01"

text \<open>\<open>htons\<close> and \<open>htonl\<close> of the C library.\<close>

definition hton :: "bool \<Rightarrow> 'a::len word \<Rightarrow> 'a word" where
  "hton host_be v = (if host_be then v else bswap v)"

text \<open>\<open>to_big_endian\<close> and \<open>to_little_endian\<close>, one definition per branch of \<open>sizeof(T)\<close>.\<close>

definition to_big_endian16 :: "bool \<Rightarrow> u16 \<Rightarrow> u16" where
  "to_big_endian16 host_be v = hton host_be v"

definition to_big_endian32 :: "bool \<Rightarrow> u32 \<Rightarrow> u32" where
  "to_big_endian32 host_be v = hton host_be v"

definition to_big_endian64 :: "bool \<Rightarrow> u64 \<Rightarrow> u64" where
  "to_big_endian64 host_be v =
     ucast (hton host_be (ucast (drop_bit 32 v) :: u32))
     OR push_bit 32 (ucast (hton host_be (ucast (v AND 0xFFFFFFFF) :: u32)))"

definition to_little_endian16 :: "bool \<Rightarrow> u16 \<Rightarrow> u16" where
  "to_little_endian16 host_be v = (if is_big_endian host_be then ENDIAN_SWAP16 v else v)"

definition to_little_endian32 :: "bool \<Rightarrow> u32 \<Rightarrow> u32" where
  "to_little_endian32 host_be v = (if is_big_endian host_be then ENDIAN_SWAP32 v else v)"

definition to_little_endian64 :: "bool \<Rightarrow> u64 \<Rightarrow> u64" where
  "to_little_endian64 host_be v = (if is_big_endian host_be then ENDIAN_SWAP64 v else v)"

text \<open>\<open>detail::swap64\<close> and \<open>detail::to_endian\<close> of \<open>uuid.hpp\<close>.\<close>

definition swap64 :: "u64 \<Rightarrow> u64" where
  "swap64 val =
     drop_bit 56 val OR (push_bit 40 val AND 0x00FF000000000000)
     OR (push_bit 24 val AND 0x0000FF0000000000)
     OR (push_bit 8 val AND 0x000000FF00000000)
     OR (drop_bit 8 val AND 0x00000000FF000000)
     OR (drop_bit 24 val AND 0x0000000000FF0000)
     OR (drop_bit 40 val AND 0x000000000000FF00) OR push_bit 56 val"

definition to_endian :: "bool \<Rightarrow> u64 \<Rightarrow> bool \<Rightarrow> u64" where
  "to_endian host_be val big_endian =
     (if host_be then (if \<not> big_endian then swap64 val else val)
      else (if big_endian then swap64 val else val))"

section \<open>Bits of swapped words\<close>

lemma nth_le_bytes: "i < LENGTH('a::len) div 8 \<Longrightarrow> le_bytes (w::'a word) ! i = ucast (drop_bit (8 * i) w)"
  by (simp add: le_bytes_def)

lemma length_le_bytes [simp]: "length (le_bytes (w::'a::len word)) = LENGTH('a) div 8"
  by (simp add: le_bytes_def)

lemma bit_of_le_bytes:
  "bit (of_le_bytes bs :: 'a::len word) k \<longleftrightarrow>
   k < LENGTH('a) \<and> k div 8 < length bs \<and> bit (bs ! (k div 8)) (k mod 8)"
proof (induction bs arbitrary: k)
  case (Cons b bs)
  show ?case
  proof (cases "k < 8")
    case True
    then show ?thesis by (auto simp: bit_simps)
  next
    case False
    then obtain j where k: "k = j + 8" using le_Suc_ex [of 8 k] by (auto simp: add.commute)
    moreover have "(j + 8) div 8 = Suc (j div 8)" by simp
    ultimately show ?thesis using Cons [of j] by (auto simp: bit_simps dest: bit_imp_le_length)
  qed
qed simp

lemma bit_bswap:
  assumes "8 dvd LENGTH('a::len)"
  shows "bit (bswap (w::'a word)) k \<longleftrightarrow>
         k < LENGTH('a) \<and> bit w (8 * (LENGTH('a) div 8 - 1 - k div 8) + k mod 8)"
proof -
  have "k < LENGTH('a) \<Longrightarrow> k div 8 < LENGTH('a) div 8"
    using assms by (metis dvd_div_mult_self less_mult_imp_div_less)
  then show ?thesis
    by (auto simp: bswap_def bit_of_le_bytes rev_nth nth_le_bytes bit_simps)
qed

text \<open>Reversing the bytes of a word is the word of the reversed bytes.\<close>

lemma le_bytes_inj:
  assumes "8 dvd LENGTH('a::len)"
  shows "of_le_bytes (le_bytes (w::'a word)) = w"
proof (rule bit_word_eqI)
  fix k assume "k < LENGTH('a)"
  moreover from this assms have "k div 8 < LENGTH('a) div 8"
    by (metis dvd_div_mult_self less_mult_imp_div_less)
  ultimately show "bit (of_le_bytes (le_bytes w) :: 'a word) k = bit w k"
    by (simp add: bit_of_le_bytes nth_le_bytes bit_simps)
qed


text \<open>The masks of the sources as shifted blocks of ones.\<close>

lemma byte_masks [word_masks]:
  "(0xFF00 :: 'a::len word) = push_bit 8 (mask 8)"
  "(0xFF0000 :: 'a word) = push_bit 16 (mask 8)"
  "(0xFF000000 :: 'a word) = push_bit 24 (mask 8)"
  "(0xFF00000000 :: 'a word) = push_bit 32 (mask 8)"
  "(0xFF0000000000 :: 'a word) = push_bit 40 (mask 8)"
  "(0xFF000000000000 :: 'a word) = push_bit 48 (mask 8)"
  "(0xFF00000000000000 :: 'a word) = push_bit 56 (mask 8)"
  by (simp_all add: mask_eq_exp_minus_1 push_bit_eq_mult)

lemma mask_FFFFFFFF: "(x::'a::len word) AND 0xFFFFFFFF = take_bit 32 x"
proof -
  have "(0xFFFFFFFF::'a word) = mask 32" by (simp add: mask_eq_exp_minus_1)
  then show ?thesis by (simp add: take_bit_eq_mask)
qed

lemma byte_position:
  assumes "(n::nat) < 64"
  shows "\<exists>m<8. n = m \<or> n = 8 + m \<or> n = 16 + m \<or> n = 24 + m \<or> n = 32 + m \<or> n = 40 + m
                \<or> n = 48 + m \<or> n = 56 + m"
proof -
  have "n div 8 < 8" using assms by simp
  then have "n div 8 \<in> {0, 1, 2, 3, 4, 5, 6, 7}" by auto
  moreover have "n = 8 * (n div 8) + n mod 8" "n mod 8 < 8" by simp_all
  ultimately show ?thesis by (intro exI [of _ "n mod 8"]) (auto simp only: insert_iff empty_iff)
qed

text \<open>Two words agree if they agree byte by byte.\<close>

lemma word16_byte_eqI:
  fixes a b :: u16
  assumes "\<And>m. m < 8 \<Longrightarrow> bit a m = bit b m" "\<And>m. m < 8 \<Longrightarrow> bit a (8 + m) = bit b (8 + m)"
  shows "a = b"
proof (rule bit_word_eqI)
  fix n assume "n < LENGTH(16)"
  then show "bit a n = bit b n" using byte_position [of n] assms by auto
qed

lemma word32_byte_eqI:
  fixes a b :: u32
  assumes "\<And>m. m < 8 \<Longrightarrow> bit a m = bit b m" "\<And>m. m < 8 \<Longrightarrow> bit a (8 + m) = bit b (8 + m)"
    and "\<And>m. m < 8 \<Longrightarrow> bit a (16 + m) = bit b (16 + m)"
    and "\<And>m. m < 8 \<Longrightarrow> bit a (24 + m) = bit b (24 + m)"
  shows "a = b"
proof (rule bit_word_eqI)
  fix n assume "n < LENGTH(32)"
  then show "bit a n = bit b n" using byte_position [of n] assms by auto
qed

lemma word64_byte_eqI:
  fixes a b :: u64
  assumes "\<And>m. m < 8 \<Longrightarrow> bit a m = bit b m" "\<And>m. m < 8 \<Longrightarrow> bit a (8 + m) = bit b (8 + m)"
    and "\<And>m. m < 8 \<Longrightarrow> bit a (16 + m) = bit b (16 + m)"
    and "\<And>m. m < 8 \<Longrightarrow> bit a (24 + m) = bit b (24 + m)"
    and "\<And>m. m < 8 \<Longrightarrow> bit a (32 + m) = bit b (32 + m)"
    and "\<And>m. m < 8 \<Longrightarrow> bit a (40 + m) = bit b (40 + m)"
    and "\<And>m. m < 8 \<Longrightarrow> bit a (48 + m) = bit b (48 + m)"
    and "\<And>m. m < 8 \<Longrightarrow> bit a (56 + m) = bit b (56 + m)"
  shows "a = b"
proof (rule bit_word_eqI)
  fix n assume "n < LENGTH(64)"
  then show "bit a n = bit b n" using byte_position [of n] assms by auto
qed

lemma bit_bswap_at:
  assumes "8 dvd LENGTH('a::len)" "m < 8" "k < LENGTH('a) div 8"
  shows "bit (bswap (w::'a word)) (8 * k + m) = bit w (8 * (LENGTH('a) div 8 - 1 - k) + m)"
proof -
  have "8 * k + m < LENGTH('a)" using assms by (auto elim!: dvdE)
  then show ?thesis using assms by (simp add: bit_bswap)
qed

lemma bit_bswap16:
  assumes "m < 8"
  shows "bit (bswap (x::u16)) m = bit x (8 + m)" "bit (bswap x) (8 + m) = bit x m"
  using bit_bswap_at [OF _ assms, of 0 x] bit_bswap_at [OF _ assms, of 1 x] by simp_all

lemma bit_bswap32:
  assumes "m < 8"
  shows "bit (bswap (y::u32)) m = bit y (24 + m)" "bit (bswap y) (8 + m) = bit y (16 + m)"
    and "bit (bswap y) (16 + m) = bit y (8 + m)" "bit (bswap y) (24 + m) = bit y m"
  using bit_bswap_at [OF _ assms, of 0 y] bit_bswap_at [OF _ assms, of 1 y]
    bit_bswap_at [OF _ assms, of 2 y] bit_bswap_at [OF _ assms, of 3 y]
  by simp_all

lemma bit_bswap64:
  assumes "m < 8"
  shows "bit (bswap (z::u64)) m = bit z (56 + m)" "bit (bswap z) (8 + m) = bit z (48 + m)"
    and "bit (bswap z) (16 + m) = bit z (40 + m)" "bit (bswap z) (24 + m) = bit z (32 + m)"
    and "bit (bswap z) (32 + m) = bit z (24 + m)" "bit (bswap z) (40 + m) = bit z (16 + m)"
    and "bit (bswap z) (48 + m) = bit z (8 + m)" "bit (bswap z) (56 + m) = bit z m"
  using bit_bswap_at [OF _ assms, of 0 z] bit_bswap_at [OF _ assms, of 1 z]
    bit_bswap_at [OF _ assms, of 2 z] bit_bswap_at [OF _ assms, of 3 z]
    bit_bswap_at [OF _ assms, of 4 z] bit_bswap_at [OF _ assms, of 5 z]
    bit_bswap_at [OF _ assms, of 6 z] bit_bswap_at [OF _ assms, of 7 z]
  by simp_all

lemmas bit_bswap_bytes = bit_bswap16 bit_bswap32 bit_bswap64

text \<open>Where the bits of a shifted and masked word come from.\<close>

lemma bit_shift_mask:
  fixes x :: "'a::len word"
  shows "bit (drop_bit a x AND push_bit c (mask 8)) n \<longleftrightarrow> c \<le> n \<and> n < c + 8 \<and> bit x (a + n)"
    and "bit (push_bit a x AND push_bit c (mask 8)) n \<longleftrightarrow>
         n < LENGTH('a) \<and> c \<le> n \<and> n < c + 8 \<and> a \<le> n \<and> bit x (n - a)"
    and "bit (drop_bit a (x AND push_bit c (mask 8))) n \<longleftrightarrow> c \<le> a + n \<and> a + n < c + 8 \<and> bit x (a + n)"
    and "bit (push_bit a (x AND push_bit c (mask 8))) n \<longleftrightarrow>
         n < LENGTH('a) \<and> a + c \<le> n \<and> n < a + c + 8 \<and> bit x (n - a)"
    and "bit (x AND push_bit c (mask 8)) n \<longleftrightarrow> c \<le> n \<and> n < c + 8 \<and> bit x n"
  by (auto simp: bit_simps dest: bit_imp_le_length)

lemma bit_above: "LENGTH('a) \<le> n \<Longrightarrow> \<not> bit (x::'a::len word) n"
  by (auto dest: bit_imp_le_length)

lemma swap16_bswap: "ENDIAN_SWAP16 x = bswap x"
  by (rule word16_byte_eqI)
    (simp_all add: ENDIAN_SWAP16_def bit_bswap_bytes bit_or_iff bit_drop_bit_eq bit_push_bit_iff bit_above)

lemma swap32_bswap: "ENDIAN_SWAP32 x = bswap x"
  by (rule word32_byte_eqI)
    (simp_all add: ENDIAN_SWAP32_def bit_bswap_bytes bit_or_iff bit_shift_mask mask_FF bit_take_bit_iff
      bit_drop_bit_eq bit_push_bit_iff byte_masks bit_above)

lemma swap64_bswap: "swap64 x = bswap x"
  by (rule word64_byte_eqI)
    (simp_all add: swap64_def bit_bswap_bytes bit_or_iff bit_shift_mask byte_masks bit_drop_bit_eq
      bit_push_bit_iff bit_above)

lemma ENDIAN_SWAP64_bswap: "ENDIAN_SWAP64 x = bswap x"
  by (rule word64_byte_eqI)
    (simp_all add: ENDIAN_SWAP64_def bit_bswap_bytes bit_or_iff bit_shift_mask byte_masks mask_FF
      bit_drop_bit_eq bit_push_bit_iff bit_take_bit_iff bit_above del: drop_bit_and push_bit_and)


section \<open>What a byte swap promises\<close>

text \<open>Reading the bytes of a word made of bytes.\<close>

lemma le_bytes_of_le_bytes:
  assumes "length bs = LENGTH('a::len) div 8"
  shows "le_bytes (of_le_bytes bs :: 'a word) = bs"
proof (rule nth_equalityI)
  fix i assume "i < length (le_bytes (of_le_bytes bs :: 'a word))"
  then have i: "i < LENGTH('a) div 8" by simp
  show "le_bytes (of_le_bytes bs :: 'a word) ! i = bs ! i"
  proof (rule bit_word_eqI)
    fix k assume "k < LENGTH(8)"
    moreover have "8 * i + k < LENGTH('a)" using i calculation by simp
    ultimately show "bit (le_bytes (of_le_bytes bs :: 'a word) ! i) k = bit (bs ! i) k"
      using i assms by (simp add: nth_le_bytes bit_of_le_bytes bit_simps)
  qed
qed (use assms in simp)

locale byte_swap =
  fixes swap :: "'a::len word \<Rightarrow> 'a word"
  assumes whole_bytes: "8 dvd LENGTH('a)"
    and le_bytes_swap: "le_bytes (swap w) = rev (le_bytes w)"
begin

lemma swap_swap: "swap (swap w) = w"
  using le_bytes_inj [OF whole_bytes, of "swap (swap w)"] le_bytes_inj [OF whole_bytes, of w]
  by (simp add: le_bytes_swap)

lemma swap_inj: "swap v = swap w \<longleftrightarrow> v = w"
  using swap_swap by metis

lemma mem_bytes_swap: "mem_bytes host_be (swap w) = mem_bytes (\<not> host_be) w"
  by (simp add: mem_bytes_def le_bytes_swap)

end

lemma le_bytes_bswap: "le_bytes (bswap w) = rev (le_bytes w)"
  by (simp add: bswap_def le_bytes_of_le_bytes)

interpretation swap16: byte_swap ENDIAN_SWAP16
  by unfold_locales (simp_all add: swap16_bswap le_bytes_bswap)

interpretation swap32: byte_swap ENDIAN_SWAP32
  by unfold_locales (simp_all add: swap32_bswap le_bytes_bswap)

interpretation swap64: byte_swap ENDIAN_SWAP64
  by unfold_locales (simp_all add: ENDIAN_SWAP64_bswap le_bytes_bswap)

interpretation uuid_swap: byte_swap swap64
  by unfold_locales (simp_all add: swap64_bswap le_bytes_bswap)

lemma is_big_endian_host: "is_big_endian host_be = host_be"
proof -
  have "le_bytes (0x01020304 :: u32) = [4, 3, 2, 1]"
    by (simp add: le_bytes_def upt_rec)
  then show ?thesis by (simp add: is_big_endian_def mem_bytes_def)
qed

text \<open>The two 32-bit halves of a 64-bit word.\<close>

lemma le_bytes_halves:
  "le_bytes (ucast (lo::u32) OR push_bit 32 (ucast (hi::u32)) :: u64) = le_bytes lo @ le_bytes hi"
proof (rule nth_equalityI)
  fix i assume "i < length (le_bytes (ucast lo OR push_bit 32 (ucast hi) :: u64))"
  then have "i < 8" by simp
  then show "le_bytes (ucast lo OR push_bit 32 (ucast hi) :: u64) ! i = (le_bytes lo @ le_bytes hi) ! i"
    by (intro bit_word_eqI)
      (auto simp: nth_append nth_le_bytes bit_simps diff_mult_distrib2 bit_above add.commute)
qed simp

lemma le_bytes_64_split:
  "le_bytes (v::u64) = le_bytes (ucast (v AND 0xFFFFFFFF) :: u32) @ le_bytes (ucast (drop_bit 32 v) :: u32)"
proof -
  have "v = ucast (ucast (v AND 0xFFFFFFFF) :: u32) OR push_bit 32 (ucast (ucast (drop_bit 32 v) :: u32))"
    by (rule bit_word_eqI) (auto simp: mask_FFFFFFFF bit_simps)
  then show ?thesis using le_bytes_halves by metis
qed

section \<open>Properties\<close>

text \<open>
  Conversion to a fixed byte order puts the bytes of a value into memory in that order
  whatever the order of the host is: most significant byte first for \<open>to_big_endian\<close> at 16 and 32
  bits on every host and at 64 bits on a little-endian host, least significant byte first for
  \<open>to_little_endian\<close> at every width and on every host.
\<close>

theorem endian_memory_order:
  "mem_bytes host_be (to_big_endian16 host_be a) = rev (le_bytes a)
   \<and> mem_bytes host_be (to_big_endian32 host_be b) = rev (le_bytes b)
   \<and> mem_bytes False (to_big_endian64 False c) = rev (le_bytes c)
   \<and> mem_bytes host_be (to_little_endian16 host_be a) = le_bytes a
   \<and> mem_bytes host_be (to_little_endian32 host_be b) = le_bytes b
   \<and> mem_bytes host_be (to_little_endian64 host_be c) = le_bytes c"
proof -
  have "mem_bytes False (to_big_endian64 False c) = rev (le_bytes c)"
    unfolding to_big_endian64_def mem_bytes_def le_bytes_halves le_bytes_64_split [of c]
    by (simp add: hton_def le_bytes_bswap)
  then show ?thesis
    by (cases host_be)
      (simp_all add: to_big_endian16_def to_big_endian32_def hton_def to_little_endian16_def
        to_little_endian32_def to_little_endian64_def is_big_endian_host swap16.le_bytes_swap
        swap32.le_bytes_swap swap64.le_bytes_swap mem_bytes_def le_bytes_bswap)
qed

text \<open>
  On a big-endian host the 64-bit \<open>to_big_endian\<close> exchanges the two 32-bit halves of its
  argument, so the bytes in memory are not in big-endian order unless the halves are equal.
\<close>

theorem to_big_endian64_swaps_halves:
  "mem_bytes True (to_big_endian64 True v) = drop 4 (rev (le_bytes v)) @ take 4 (rev (le_bytes v))
   \<and> mem_bytes True (to_big_endian64 True 1) \<noteq> rev (le_bytes (1::u64))"
proof -
  have halves: "mem_bytes True (to_big_endian64 True w)
          = drop 4 (rev (le_bytes w)) @ take 4 (rev (le_bytes w))" for w
    unfolding to_big_endian64_def mem_bytes_def le_bytes_halves le_bytes_64_split [of w]
    by (simp add: hton_def)
  have "le_bytes (1::u64) = [1, 0, 0, 0, 0, 0, 0, 0]"
    by (simp add: le_bytes_def upt_rec)
  then show ?thesis using halves by simp
qed

text \<open>
  All four hand-written byte swaps reverse the bytes of their argument, and swapping twice
  gives the argument back; the conversion \<open>to_endian\<close> of generated ids is its own inverse.
\<close>

theorem byte_swaps_reverse:
  "le_bytes (ENDIAN_SWAP16 a) = rev (le_bytes a) \<and> ENDIAN_SWAP16 (ENDIAN_SWAP16 a) = a
   \<and> le_bytes (ENDIAN_SWAP32 b) = rev (le_bytes b) \<and> ENDIAN_SWAP32 (ENDIAN_SWAP32 b) = b
   \<and> le_bytes (ENDIAN_SWAP64 c) = rev (le_bytes c) \<and> ENDIAN_SWAP64 (ENDIAN_SWAP64 c) = c
   \<and> swap64 c = ENDIAN_SWAP64 c
   \<and> to_endian host_be (to_endian host_be c be) be = c"
  by (simp add: swap16.le_bytes_swap swap16.swap_swap swap32.le_bytes_swap swap32.swap_swap
      swap64.le_bytes_swap swap64.swap_swap swap64_bswap ENDIAN_SWAP64_bswap to_endian_def
      uuid_swap.swap_swap [unfolded swap64_bswap] le_bytes_bswap)

end
