(* ===== verification/Bits.thy ===== *)
theory Bits
  imports HjPrelude
begin

text \<open>
  \<open>src/hj/encoding/bits.hpp\<close>: single bits of an integer, its binary digits as text and the number
  of leading zeros; and \<open>src/hj/algo/fill.hpp\<close>.

  An integer of type \<open>T\<close> is a word of its width; \<open>is_signed\<close> says whether \<open>T\<close> is signed. Positions count
  from 1. A shift by \<open>pos - 1\<close> is undefined when it reaches the width of the promoted operand, which
  is at least that of \<open>int\<close> (32): the model returns the fault \<open>Shift_out_of_range\<close>. The literal \<open>1\<close>
  that \<open>put\<close> shifts is an \<open>int\<close>, converted to \<open>T\<close> by truncation or sign extension.
\<close>

section \<open>Definitions\<close>

definition shift_of :: "u32 \<Rightarrow> nat" where
  "shift_of pos = unat (pos - 1)"

definition bits_get :: "bool \<Rightarrow> 'a::len word \<Rightarrow> u32 \<Rightarrow> bool result" where
  "bits_get is_signed src pos =
     (let k = shift_of pos in
      if k \<ge> max 32 LENGTH('a) then Inl Shift_out_of_range
      else Inr ((if is_signed then signed_drop_bit k src else drop_bit k src) AND 1 \<noteq> 0))"

definition int_one_shifted :: "nat \<Rightarrow> 'a::len word" where
  "int_one_shifted k = scast (push_bit k (1 :: u32))"

definition bits_put1 :: "'a::len word \<Rightarrow> u32 \<Rightarrow> 'a word result" where
  "bits_put1 src pos =
     (let k = shift_of pos in
      if k \<ge> 32 then Inl Shift_out_of_range else Inr (src OR int_one_shifted k))"

definition bits_put :: "'a::len word \<Rightarrow> u32 \<Rightarrow> bool \<Rightarrow> 'a word result" where
  "bits_put src pos b =
     (let k = shift_of pos in
      if k \<ge> 32 then Inl Shift_out_of_range
      else Inr (if b then src OR int_one_shifted k else src AND NOT (int_one_shifted k)))"

definition bits_reset :: "bool \<Rightarrow> 'a::len word" where
  "bits_reset b = (if b then NOT 0 else 0)"

definition bits_flip :: "'a::len word \<Rightarrow> 'a word" where
  "bits_flip src = NOT src"

text \<open>\<open>to_string(src, buf)\<close> fills a caller's buffer, which must hold one byte more than there are bits.\<close>

definition bits_to_string_buf :: "'a::len word \<Rightarrow> bytes \<Rightarrow> bytes result" where
  "bits_to_string_buf src buf =
     (let sz = LENGTH('a) in
      if length buf < sz + 1 then Inl Out_of_bounds
      else let buf1 = replicate sz 0x30 @ drop sz buf;
               buf2 = foldl (\<lambda>bs pos. bs[sz - pos - 1 := bs ! (sz - pos - 1) + ucast (drop_bit pos src AND 1)])
                        buf1 (rev [0..<sz])
           in Inr (buf2[sz := 0]))"

text \<open>\<open>std::bitset<N>(src).to_string()\<close>: one digit per bit, the most significant first.\<close>

definition bits_to_string :: "'a::len word \<Rightarrow> bytes" where
  "bits_to_string src = map (\<lambda>i. if bit src i then 0x31 else 0x30) (rev [0..<LENGTH('a)])"

primrec clz_loop :: "'a::len word \<Rightarrow> nat \<Rightarrow> nat \<Rightarrow> nat" where
  "clz_loop src 0 count = count"
| "clz_loop src (Suc i) count =
     (if drop_bit i src AND 1 \<noteq> 0 then count else clz_loop src i (count + 1))"

definition count_leading_zeros_loop :: "'a::len word \<Rightarrow> nat" where
  "count_leading_zeros_loop src =
     (if src = 0 then LENGTH('a) else clz_loop src LENGTH('a) 0)"

text \<open>
  The built-ins of the compilers on a non-zero argument: the number of zero bits above the highest
  set bit, and the index of the highest set bit.
\<close>

definition builtin_clz :: "'a::len word \<Rightarrow> nat" where
  "builtin_clz w = length (takeWhile Not (map (bit w) (rev [0..<LENGTH('a)])))"

definition bit_scan_reverse :: "'a::len word \<Rightarrow> nat" where
  "bit_scan_reverse w = last (filter (bit w) [0..<LENGTH('a)])"

definition count_leading_zeros_gnu :: "'a::len word \<Rightarrow> nat" where
  "count_leading_zeros_gnu src =
     (if src = 0 then LENGTH('a)
      else if LENGTH('a) = 64 then builtin_clz (ucast src :: u64)
      else if LENGTH('a) = 32 then builtin_clz (ucast src :: u32)
      else if LENGTH('a) = 16 then builtin_clz (ucast src :: u32) - 16
      else if LENGTH('a) = 8 then builtin_clz (ucast src :: u32) - 24
      else clz_loop src LENGTH('a) 0)"

definition count_leading_zeros_msvc :: "'a::len word \<Rightarrow> nat" where
  "count_leading_zeros_msvc src =
     (if src = 0 then LENGTH('a)
      else if LENGTH('a) = 64 then 63 - bit_scan_reverse (ucast src :: u64)
      else if LENGTH('a) = 32 then 31 - bit_scan_reverse (ucast src :: u32)
      else clz_loop src LENGTH('a) 0)"

text \<open>\<open>fill\<close> over a container, over its first \<open>n\<close> elements (at least one), and over a range.\<close>

primrec fill_from :: "'v list \<Rightarrow> (nat \<Rightarrow> 'v) \<Rightarrow> nat \<Rightarrow> 'v list" where
  "fill_from [] fn idx = []"
| "fill_from (v # ct) fn idx = fn idx # fill_from ct fn (idx + 1)"

definition fill :: "'v list \<Rightarrow> (nat \<Rightarrow> 'v) \<Rightarrow> 'v list" where
  "fill ct fn = fill_from ct fn 0"

primrec fill_n_from :: "'v list \<Rightarrow> (nat \<Rightarrow> 'v) \<Rightarrow> nat \<Rightarrow> nat \<Rightarrow> 'v list" where
  "fill_n_from [] fn n idx = []"
| "fill_n_from (v # ct) fn n idx =
     (if idx + 1 \<ge> n then fn idx # ct else fn idx # fill_n_from ct fn n (idx + 1))"

definition fill_n :: "'v list \<Rightarrow> (nat \<Rightarrow> 'v) \<Rightarrow> nat \<Rightarrow> 'v list" where
  "fill_n ct fn n = fill_n_from ct fn n 0"

definition fill_range :: "'v list \<Rightarrow> nat \<Rightarrow> nat \<Rightarrow> (nat \<Rightarrow> 'v) \<Rightarrow> 'v list" where
  "fill_range mem b e fn = take b mem @ fill_from (take (e - b) (drop b mem)) fn 0 @ drop e mem"

section \<open>Single bits\<close>

lemma drop_bit_and_one: "drop_bit k (x::'a::len word) AND 1 \<noteq> 0 \<longleftrightarrow> bit x k"
  by (simp add: and_one_eq bit_iff_odd_drop_bit odd_iff_mod_2_eq_one)

lemma signed_drop_bit_and_one:
  "k < LENGTH('a) \<Longrightarrow> signed_drop_bit k (x::'a::len word) AND 1 \<noteq> 0 \<longleftrightarrow> bit x k"
  by (simp add: and_one_eq odd_iff_mod_2_eq_one [symmetric] bit_0 [symmetric] bit_simps
      del: odd_iff_mod_2_eq_one bit_0)

lemma bits_get_bit:
  assumes "shift_of pos < LENGTH('a)"
  shows "bits_get is_signed (src::'a::len word) pos = Inr (bit src (shift_of pos))"
  using assms by (simp add: bits_get_def Let_def drop_bit_and_one signed_drop_bit_and_one)

text \<open>The shifted one is a single bit, except that \<open>1 << 31\<close> is negative and is sign extended.\<close>

lemma bit_int_one_shifted:
  assumes "k < 32"
  shows "bit (int_one_shifted k :: 'a::len word) i \<longleftrightarrow> i < LENGTH('a) \<and> (i = k \<or> (k = 31 \<and> 31 < i))"
  using assms by (auto simp: int_one_shifted_def bit_simps min_def split: if_splits)

section \<open>Leading zeros\<close>

lemma clz_loop_takeWhile:
  "clz_loop src n count = count + length (takeWhile Not (map (bit src) (rev [0..<n])))"
  by (induction n arbitrary: count) (simp_all add: drop_bit_and_one)

text \<open>The highest set bit decides all variants.\<close>

definition top_bit :: "'a::len word \<Rightarrow> nat \<Rightarrow> bool" where
  "top_bit w h \<longleftrightarrow> bit w h \<and> (\<forall>i>h. \<not> bit w i)"

lemma top_bit_exists:
  assumes "(w::'a::len word) \<noteq> 0"
  shows "\<exists>h<LENGTH('a). top_bit w h"
proof -
  let ?S = "{i. bit w i}"
  have "?S \<subseteq> {..<LENGTH('a)}" by (auto dest: bit_imp_le_length)
  then have fin: "finite ?S" by (rule finite_subset) simp
  have ne: "?S \<noteq> {}" using assms bit_word_eqI [of w 0] by auto
  have "top_bit w (Max ?S)"
    unfolding top_bit_def
  proof (intro conjI allI impI notI)
    show "bit w (Max ?S)" using Max_in [OF fin ne] by simp
    show False if "Max ?S < i" "bit w i" for i 
      using leD [OF Max_ge [OF fin, of i]] that by blast
  qed
  moreover from this have "Max ?S < LENGTH('a)" unfolding top_bit_def by (metis bit_imp_le_length)
  ultimately show ?thesis by blast
qed

lemma takeWhile_top_bit:
  "top_bit w h \<Longrightarrow> h < n \<Longrightarrow> length (takeWhile Not (map (bit w) (rev [0..<n]))) = n - 1 - h"
  by (induction n) (auto simp: top_bit_def less_Suc_eq)

lemma last_filter_top_bit: "top_bit w h \<Longrightarrow> h < n \<Longrightarrow> last (filter (bit w) [0..<n]) = h"
  by (induction n) (auto simp: top_bit_def less_Suc_eq)

lemma top_bit_ucast:
  assumes "LENGTH('a::len) \<le> LENGTH('b::len)"
  shows "top_bit (ucast (w::'a word) :: 'b word) h = top_bit w h"
proof -
  have "bit (ucast w :: 'b word) i = bit w i" for i
    using assms by (auto simp: bit_simps dest: bit_imp_le_length)
  then show ?thesis by (simp add: top_bit_def)
qed

lemma builtin_clz_top: "top_bit (w::'a::len word) h \<Longrightarrow> builtin_clz w = LENGTH('a) - 1 - h"
  unfolding builtin_clz_def by (rule takeWhile_top_bit) (auto simp: top_bit_def dest: bit_imp_le_length)

lemma bit_scan_reverse_top: "top_bit (w::'a::len word) h \<Longrightarrow> bit_scan_reverse w = h"
  unfolding bit_scan_reverse_def
  by (rule last_filter_top_bit) (auto simp: top_bit_def dest: bit_imp_le_length)

section \<open>Digits\<close>

lemma length_foldl_add [simp]: "length (foldl (\<lambda>bs j. bs[j := bs ! j + g j]) xs is) = length xs"
  by (induction "is" arbitrary: xs) simp_all

lemma foldl_add_nth:
  "j < length xs \<Longrightarrow>
   foldl (\<lambda>bs j. bs[j := bs ! j + g j]) xs [0..<n] ! j = (if j < n then xs ! j + g j else xs ! j)"
  by (induction n) (auto simp: nth_list_update less_Suc_eq)

lemma rev_upt_conv: "rev [0..<n] = map (\<lambda>j. n - 1 - j) [0..<n]"
  by (rule nth_equalityI) (simp_all add: rev_nth)

lemma digit_value: "0x30 + ucast (drop_bit k (x::'a::len word) AND 1) = (if bit x k then 0x31 else 0x30 :: u8)"
  using drop_bit_and_one [of k x] by (auto simp: and_one_eq split: if_splits)

lemma bits_to_string_buf_eq:
  assumes "LENGTH('a) < length buf"
  shows "bits_to_string_buf (src::'a::len word) buf =
         Inr (bits_to_string src @ [0] @ drop (LENGTH('a) + 1) buf)"
proof -
  let ?n = "LENGTH('a)"
  let ?b0 = "replicate ?n 0x30 @ drop ?n buf"
  let ?g = "\<lambda>j. ucast (drop_bit (?n - 1 - j) src AND 1) :: u8"
  have idx: "?n - (?n - 1 - j) - 1 = j" if "j \<in> set [0..<?n]" for j using that by auto
  have "foldl (\<lambda>bs pos. bs[?n - pos - 1 := bs ! (?n - pos - 1) + ucast (drop_bit pos src AND 1)])
          ?b0 (rev [0..<?n]) = foldl (\<lambda>bs j. bs[j := bs ! j + ?g j]) ?b0 [0..<?n]"
    unfolding rev_upt_conv foldl_map by (rule foldl_cong) (simp_all only: idx)
  moreover have "\<dots>[?n := 0] = bits_to_string src @ [0] @ drop (?n + 1) buf"
  proof (rule nth_equalityI)
    fix i assume i: "i < length ((foldl (\<lambda>bs j. bs[j := bs ! j + ?g j]) ?b0 [0..<?n])[?n := 0])"
    show "(foldl (\<lambda>bs j. bs[j := bs ! j + ?g j]) ?b0 [0..<?n])[?n := 0] ! i
          = (bits_to_string src @ [0] @ drop (?n + 1) buf) ! i"
    proof (cases "i > ?n")
      case True
      then obtain x where "i = ?n + Suc x" using less_imp_Suc_add by auto
      then show ?thesis
        using i assms foldl_add_nth [of i ?b0 ?g ?n] by (simp add: nth_append bits_to_string_def)
    next
      case False
      then show ?thesis
        using i assms foldl_add_nth [of i ?b0 ?g ?n]
        by (auto simp: nth_append bits_to_string_def digit_value rev_nth)
    qed
  qed (use assms in \<open>simp add: bits_to_string_def\<close>)
  ultimately show ?thesis using assms by (simp add: bits_to_string_buf_def Let_def)
qed

section \<open>Properties\<close>

text \<open>
  \<open>put\<close> sets or clears exactly the addressed bit for every integer type of at most 32 bits and
  every position of it, and for a 64-bit type for positions 1 to 31; \<open>get\<close> reads any position back.
\<close>

theorem bits_put_get:
  fixes src :: "'a::len word"
  assumes "shift_of p < LENGTH('a)" "shift_of q < LENGTH('a)"
    and "LENGTH('a) \<le> 32 \<or> shift_of p < 31"
  shows "\<exists>r. bits_put src p b = Inr r \<and> (b \<longrightarrow> bits_put1 src p = Inr r)
           \<and> bits_get sg r q = Inr (if shift_of q = shift_of p then b else bit src (shift_of q))"
proof -
  have "shift_of p < 32" using assms by auto
  then have "bit (int_one_shifted (shift_of p) :: 'a word) i \<longleftrightarrow> i = shift_of p" for i
    using assms by (auto simp: bit_int_one_shifted)
  then show ?thesis
    using assms \<open>shift_of p < 32\<close>
    by (auto simp: bits_put_def bits_put1_def Let_def bits_get_bit bit_simps)
qed

theorem bits_put_get_witness:
  "\<exists>r. bits_put (0x0F :: u8) 5 True = Inr r \<and> bits_get False r 5 = Inr True"
  using bits_put_get [of 5 5 "0x0F :: u8" True False] by (auto simp: shift_of_def)

text \<open>
  On a 64-bit value \<open>put\<close> misbehaves from position 32 on because it shifts an \<open>int\<close>: setting
  position 32 sets every position from 32 to 64, and any higher position is an undefined shift.
\<close>

theorem bits_put_64_bug:
  assumes "33 \<le> unat pos" "unat pos \<le> 64"
  shows "bits_put (src::u64) pos b = Inl Shift_out_of_range
       \<and> bits_put (0::u64) 32 True = Inr 0xFFFFFFFF80000000"
proof -
  have "shift_of pos = unat pos - 1"
    using assms unat_gt_0 [of pos] by (simp add: shift_of_def unat_minus_one)
  moreover have "(int_one_shifted 31 :: u64) = 0xFFFFFFFF80000000"
    by (simp add: int_one_shifted_def)
  ultimately show ?thesis
    using assms by (simp add: bits_put_def Let_def shift_of_def)
qed

theorem bits_put_64_bug_witness: "bits_put (0::u64) 40 True = Inl Shift_out_of_range"
  using bits_put_64_bug [of 40 0 True] by simp

text \<open>
  The three compilations of \<open>count_leading_zeros\<close> agree on every 8, 16, 32 and 64-bit value, and
  the count is the number of zero digits in front of the first one digit; the two \<open>to_string\<close>
  functions write the same digits, from which the value is recovered.
\<close>

theorem leading_zeros_and_digits:
  fixes src :: "'a::len word"
  assumes "LENGTH('a) \<in> {8, 16, 32, 64}" "LENGTH('a) < length buf"
  shows "count_leading_zeros_gnu src = count_leading_zeros_loop src
       \<and> count_leading_zeros_msvc src = count_leading_zeros_loop src
       \<and> (\<forall>i. LENGTH('a) - count_leading_zeros_loop src \<le> i \<longrightarrow> \<not> bit src i)
       \<and> (src \<noteq> 0 \<longrightarrow> bit src (LENGTH('a) - 1 - count_leading_zeros_loop src))
       \<and> bits_to_string_buf src buf = Inr (bits_to_string src @ [0] @ drop (LENGTH('a) + 1) buf)
       \<and> (\<forall>i<LENGTH('a). bit src i \<longleftrightarrow> bits_to_string src ! (LENGTH('a) - 1 - i) = 0x31)"
proof (cases "src = 0")
  case True
  then show ?thesis
    using bits_to_string_buf_eq [OF assms(2), of src]
    by (simp add: count_leading_zeros_gnu_def count_leading_zeros_loop_def count_leading_zeros_msvc_def
        bits_to_string_def rev_nth)
next
  case False
  then obtain h where h: "h < LENGTH('a)" "top_bit src h" using top_bit_exists by blast
  have loop: "count_leading_zeros_loop src = LENGTH('a) - 1 - h"
    using False takeWhile_top_bit [OF h(2,1)] by (simp add: count_leading_zeros_loop_def clz_loop_takeWhile)
  have "count_leading_zeros_gnu src = LENGTH('a) - 1 - h"
    using assms(1) False loop h builtin_clz_top [of "ucast src :: u64" h]
      builtin_clz_top [of "ucast src :: u32" h] top_bit_ucast [of src h, where 'b = 64]
      top_bit_ucast [of src h, where 'b = 32]
    by (auto simp: count_leading_zeros_gnu_def)
  moreover have "count_leading_zeros_msvc src = LENGTH('a) - 1 - h"
    using assms(1) False loop h bit_scan_reverse_top [of "ucast src :: u64" h]
      bit_scan_reverse_top [of "ucast src :: u32" h] top_bit_ucast [of src h, where 'b = 64]
      top_bit_ucast [of src h, where 'b = 32]
    by (auto simp: count_leading_zeros_msvc_def count_leading_zeros_loop_def)
  ultimately show ?thesis
    using h bits_to_string_buf_eq [OF assms(2), of src]
    by (auto simp: loop top_bit_def bits_to_string_def rev_nth)
qed

theorem leading_zeros_and_digits_witness:
  "count_leading_zeros_gnu (0x0F :: u8) = count_leading_zeros_loop (0x0F :: u8)"
  using leading_zeros_and_digits [of "replicate 9 0" "0x0F :: u8"] by simp

text \<open>The three \<open>fill\<close> functions write the generated values and keep the length.\<close>

lemma fill_from_eq: "fill_from ct fn idx = map fn [idx..<idx + length ct]"
  by (induction ct arbitrary: idx) (simp_all add: upt_rec)

lemma fill_n_from_eq:
  "fill_n_from ct fn n idx =
   (let m = min (length ct) (max 1 (n - idx)) in map fn [idx..<idx + m] @ drop m ct)"
proof (induction ct arbitrary: idx)
  case (Cons v ct)
  show ?case
  proof (cases "idx + 1 \<ge> n")
    case True
    then have "max 1 (n - idx) = 1" by simp
    then show ?thesis using True by (simp add: Let_def)
  next
    case False
    then have "Suc (max 1 (n - Suc idx)) = max 1 (n - idx)" by simp
    then have "min (length (v # ct)) (max 1 (n - idx)) = Suc (min (length ct) (max 1 (n - Suc idx)))"
      by (metis length_Cons min_Suc_Suc)
    then show ?thesis using False Cons.IH [of "Suc idx"] by (simp add: Let_def upt_conv_Cons del: upt_Suc)
  qed
qed (simp add: Let_def)

text \<open>
  \<open>fill\<close> replaces element \<open>i\<close> by \<open>fn(i)\<close>; the bounded version does so for the first \<open>n\<close> elements
  and keeps the rest, except that it always writes the first element of a non-empty container even
  when \<open>n\<close> is 0.
\<close>

theorem fill_functions:
  "fill ct fn = map fn [0..<length ct]
   \<and> fill_n ct fn n = (let m = min (length ct) (max 1 n) in map fn [0..<m] @ drop m ct)
   \<and> (b \<le> e \<and> e \<le> length ct \<longrightarrow>
        fill_range ct b e fn = take b ct @ map fn [0..<e - b] @ drop e ct)"
  by (auto simp: fill_def fill_n_def fill_range_def fill_from_eq fill_n_from_eq)

theorem fill_functions_witness:
  "fill_range [7, 7, 7, 7::nat] 1 3 (\<lambda>i. i) = [7, 0, 1, 7]"
  using fill_functions [of "[7, 7, 7, 7]" "\<lambda>i. i" 0 1 3] by (simp add: upt_rec)

end
