(* ===== verification/Uuid.thy ===== *)
theory Uuid
  imports Endian
begin

text \<open>
  \<open>src/hj/algo/uuid.hpp\<close>: the snowflake id generator and the textual UUID format.

  The wall clock is the environment: an operation consumes the list of readings that the calls of
  \<open>_current_time_ms()\<close> return, in order; when the list is used up inside a waiting loop the
  operation has not returned yet (\<open>None\<close>). \<open>next_id\<close> gives up the lock while it sleeps, so its part
  before the sleep (\<open>next_id_enter\<close>) and its part after (\<open>next_id_resume\<close>) are separate atomic
  sections, interleaved with other threads in the relation \<open>uuid_step\<close>.
\<close>

section \<open>Definitions\<close>

subsection \<open>The engine\<close>

definition worker_idbits :: nat where "worker_idbits = 10"
definition seqbits :: nat where "seqbits = 12"
definition max_worker_id :: u64 where "max_worker_id = push_bit worker_idbits 1 - 1"
definition seqmask :: u64 where "seqmask = push_bit seqbits 1 - 1"
definition timestamp_shift :: nat where "timestamp_shift = seqbits + worker_idbits"
definition epoch :: u64 where "epoch = 1735689600000"
definition max_backward_ms :: u64 where "max_backward_ms = 5000"

record snowflake_engine =
  worker_id :: u64
  seq :: u64
  last_timestamp :: u64

definition engine_new :: "u64 \<Rightarrow> snowflake_engine result" where
  "engine_new wid =
     (if wid > max_worker_id then Inl Throw_invalid_argument
      else Inr \<lparr>worker_id = wid, seq = 0, last_timestamp = 0\<rparr>)"

definition reset_worker_id :: "snowflake_engine \<Rightarrow> u64 \<Rightarrow> snowflake_engine result" where
  "reset_worker_id e wid =
     (if wid > max_worker_id then Inl Throw_invalid_argument else Inr (e\<lparr>worker_id := wid\<rparr>))"

primrec wait_next_millis :: "u64 \<Rightarrow> u64 list \<Rightarrow> (u64 \<times> u64 list) option" where
  "wait_next_millis last_time [] = None"
| "wait_next_millis last_time (t # clock) =
     (if t \<le> last_time then wait_next_millis last_time clock else Some (t, clock))"

definition make_id :: "u64 \<Rightarrow> u64 \<Rightarrow> u64 \<Rightarrow> u64" where
  "make_id timestamp wid s =
     push_bit timestamp_shift (timestamp - epoch) OR push_bit seqbits wid OR s"

text \<open>The last part of \<open>next_id\<close>: sequence number, new state and the id.\<close>

definition next_id_finish ::
    "snowflake_engine \<Rightarrow> u64 \<Rightarrow> u64 list \<Rightarrow> (u64 \<times> snowflake_engine \<times> u64 list) option" where
  "next_id_finish e timestamp clock =
     (let emit = (\<lambda>s t rest. Some (make_id t (worker_id e) s, e\<lparr>seq := s, last_timestamp := t\<rparr>, rest))
      in if timestamp = last_timestamp e
         then let s = (seq e + 1) AND seqmask in
              if s = 0 then (case wait_next_millis (last_timestamp e) clock of
                               None \<Rightarrow> None
                             | Some (t, rest) \<Rightarrow> emit s t rest)
              else emit s timestamp clock
         else emit 0 timestamp clock)"

datatype entry = Throws | Sleeps u64 | Proceeds

definition next_id_enter :: "snowflake_engine \<Rightarrow> u64 \<Rightarrow> entry" where
  "next_id_enter e timestamp =
     (if timestamp < last_timestamp e
      then let offset = last_timestamp e - timestamp in
           if offset > max_backward_ms then Throws else Sleeps offset
      else Proceeds)"

definition next_id_resume ::
    "snowflake_engine \<Rightarrow> u64 list \<Rightarrow> (u64 \<times> snowflake_engine \<times> u64 list) option" where
  "next_id_resume e clock =
     (case clock of
        [] \<Rightarrow> None
      | t # clock' \<Rightarrow>
          if t < last_timestamp e
          then (case wait_next_millis (last_timestamp e) clock' of
                  None \<Rightarrow> None
                | Some (t', rest) \<Rightarrow> next_id_finish e t' rest)
          else next_id_finish e t clock')"

text \<open>\<open>next_id\<close> when no other thread takes the lock during the sleep.\<close>

definition next_id ::
    "snowflake_engine \<Rightarrow> u64 list \<Rightarrow> (u64 \<times> snowflake_engine \<times> u64 list) result option" where
  "next_id e clock =
     (case clock of
        [] \<Rightarrow> None
      | t # clock' \<Rightarrow>
          (case next_id_enter e t of
             Throws \<Rightarrow> Some (Inl Throw_runtime_error)
           | Sleeps offset \<Rightarrow> map_option Inr (next_id_resume e clock')
           | Proceeds \<Rightarrow> map_option Inr (next_id_finish e t clock')))"

subsection \<open>Text\<close>

definition hexdigit :: "nat \<Rightarrow> char" where
  "hexdigit d = ''0123456789abcdef'' ! d"

fun hex_of_nat :: "nat \<Rightarrow> string" where
  "hex_of_nat n = (if n < 16 then [hexdigit n] else hex_of_nat (n div 16) @ [hexdigit (n mod 16)])"

declare hex_of_nat.simps [simp del]

text \<open>The conversion \<open>%0wx\<close> of \<open>snprintf\<close>.\<close>

definition print_hex :: "nat \<Rightarrow> nat \<Rightarrow> string" where
  "print_hex w n = (let s = hex_of_nat n in replicate (w - length s) (CHR ''0'') @ s)"

definition rfc_high :: "u64 \<Rightarrow> u64" where
  "rfc_high high = (high AND 0xFFFFFFFFFFFF0FFF) OR 0x8000"

definition rfc_low :: "u64 \<Rightarrow> u64" where
  "rfc_low low = (low AND 0x3FFFFFFFFFFFFFFF) OR 0x8000000000000000"

text \<open>\<open>snprintf\<close> writes at most 36 characters and a terminator; the string takes the first 36.\<close>

definition rfc_uuid_format :: "u64 \<Rightarrow> u64 \<Rightarrow> string" where
  "rfc_uuid_format high low =
     (let h = rfc_high high; l = rfc_low low in
      take 36
       (print_hex 8 (unat (ucast (drop_bit 32 h) :: u32)) @ ''-''
        @ print_hex 4 (unat (ucast (drop_bit 16 h AND 0xFFFF) :: u16)) @ ''-''
        @ print_hex 4 (unat (ucast (h AND 0xFFFF) :: u16)) @ ''-''
        @ print_hex 4 (unat (ucast (drop_bit 48 l AND 0xFFFF) :: u16)) @ ''-''
        @ print_hex 12 (unat (l AND 0xFFFFFFFFFFFF))))"

subsection \<open>Generators\<close>

text \<open>The pseudo-random low half: an xorshift step on the thread's seed.\<close>

definition xorshift :: "u64 \<Rightarrow> u64" where
  "xorshift seed =
     (let a = seed XOR push_bit 13 seed; b = a XOR drop_bit 7 a in b XOR push_bit 17 b)"

definition default_seed :: u64 where "default_seed = 0x9e3779b97f4a7c15"

text \<open>
  \<open>snowflake::_instance\<close>: the function-local static is constructed by the first call and reset when
  \<open>reinit\<close> is set; a constructor that throws leaves it unconstructed.
\<close>

definition snowflake_instance ::
    "snowflake_engine option \<Rightarrow> u64 \<Rightarrow> bool \<Rightarrow> snowflake_engine result" where
  "snowflake_instance inst wid reinit =
     (case (case inst of None \<Rightarrow> engine_new wid | Some e \<Rightarrow> Inr e) of
        Inl err \<Rightarrow> Inl err
      | Inr e \<Rightarrow> if reinit then reset_worker_id e wid else Inr e)"

definition snowflake_init :: "snowflake_engine option \<Rightarrow> u64 \<Rightarrow> snowflake_engine result" where
  "snowflake_init inst wid = snowflake_instance inst wid True"

definition snowflake_gen_u64 ::
    "bool \<Rightarrow> snowflake_engine option \<Rightarrow> u64 list \<Rightarrow> bool
     \<Rightarrow> (u64 \<times> snowflake_engine \<times> u64 list) result option" where
  "snowflake_gen_u64 host_be inst clock big_endian =
     (case snowflake_instance inst 1 False of
        Inl err \<Rightarrow> Some (Inl err)
      | Inr e \<Rightarrow> map_option (map_sum id (\<lambda>(n, r). (to_endian host_be n big_endian, r))) (next_id e clock))"

definition snowflake_gen ::
    "bool \<Rightarrow> snowflake_engine option \<Rightarrow> u64 list \<Rightarrow> u64
     \<Rightarrow> (string \<times> u64 \<times> snowflake_engine \<times> u64 list) result option" where
  "snowflake_gen host_be inst clock seed =
     map_option (map_sum id (\<lambda>(n, r). let seed' = xorshift seed in (rfc_uuid_format n seed', seed', r)))
       (snowflake_gen_u64 host_be inst clock False)"

text \<open>
  \<open>generator_impl\<close> for a user's generator: \<open>gen_be\<close> is \<open>Some g\<close> when the generator has
  \<open>gen_u64(bool)\<close>, \<open>raw\<close> the value of its \<open>gen_u64()\<close> otherwise, \<open>own\<close> the value of its \<open>gen()\<close> if it
  has one.
\<close>

definition generator_gen_u64 :: "bool \<Rightarrow> (bool \<Rightarrow> u64) option \<Rightarrow> u64 \<Rightarrow> bool \<Rightarrow> u64" where
  "generator_gen_u64 host_be gen_be raw big_endian =
     (case gen_be of Some g \<Rightarrow> g big_endian | None \<Rightarrow> to_endian host_be raw big_endian)"

definition generator_gen ::
    "bool \<Rightarrow> string option \<Rightarrow> (bool \<Rightarrow> u64) option \<Rightarrow> u64 \<Rightarrow> u64 \<Rightarrow> string \<times> u64" where
  "generator_gen host_be own gen_be raw seed =
     (case own of
        Some s \<Rightarrow> (s, seed)
      | None \<Rightarrow> (let n = generator_gen_u64 host_be gen_be raw False; seed' = xorshift seed
                 in (rfc_uuid_format n seed', seed')))"

subsection \<open>Interleaved threads\<close>

record uuid_world =
  engine :: snowflake_engine
  sleepers :: "nat set"
  issued :: "u64 list"

inductive uuid_step :: "(u64 \<Rightarrow> bool) \<Rightarrow> uuid_world \<Rightarrow> uuid_world \<Rightarrow> bool" for ok where
  call: "\<lbrakk>list_all ok (t # clock); next_id_enter (engine w) t = Proceeds;
          next_id_finish (engine w) t clock = Some (n, e', rest)\<rbrakk>
         \<Longrightarrow> uuid_step ok w (w\<lparr>engine := e', issued := n # issued w\<rparr>)"
| throw: "next_id_enter (engine w) t = Throws \<Longrightarrow> uuid_step ok w w"
| sleep: "\<lbrakk>next_id_enter (engine w) t = Sleeps offset; thr \<notin> sleepers w\<rbrakk>
          \<Longrightarrow> uuid_step ok w (w\<lparr>sleepers := insert thr (sleepers w)\<rparr>)"
| resume: "\<lbrakk>thr \<in> sleepers w; list_all ok clock; next_id_resume (engine w) clock = Some (n, e', rest)\<rbrakk>
           \<Longrightarrow> uuid_step ok w (w\<lparr>engine := e', sleepers := sleepers w - {thr}, issued := n # issued w\<rparr>)"
| reset: "reset_worker_id (engine w) wid = Inr e' \<Longrightarrow> uuid_step ok w (w\<lparr>engine := e'\<rparr>)"

definition uuid_initial :: "uuid_world \<Rightarrow> bool" where
  "uuid_initial w \<longleftrightarrow> (\<exists>wid. engine_new wid = Inr (engine w)) \<and> sleepers w = {} \<and> issued w = []"

section \<open>The layout of an id\<close>

lemmas uuid_consts = worker_idbits_def seqbits_def max_worker_id_def seqmask_def timestamp_shift_def

lemma masks_are_masks: "max_worker_id = mask 10" "seqmask = mask 12"
  by (simp_all add: uuid_consts mask_eq_exp_minus_1)

lemma and_seqmask: "x AND seqmask = take_bit 12 x"
  by (simp add: masks_are_masks take_bit_eq_mask)

lemma small_take_bit: "unat (x::u64) < 2 ^ n \<Longrightarrow> take_bit n x = x"
  by (simp add: word_unat_eq_iff unsigned_take_bit_eq take_bit_nat_eq_self)

lemma worker_id_bound: "\<not> wid > max_worker_id \<Longrightarrow> unat wid < 2 ^ 10"
  by (simp add: not_less word_le_nat_alt uuid_consts)

lemma seq_bound: "unat (x AND seqmask) < 2 ^ 12"
  using take_bit_nat_less_exp [of 12 "unat x"] by (simp add: and_seqmask unsigned_take_bit_eq)

text \<open>The three fields can be read back as long as the milliseconds since the epoch fit 42 bits.\<close>

lemma make_id_fields:
  assumes t: "unat (t - epoch) < 2 ^ 42" and w: "unat wid < 2 ^ 10" and s: "unat s < 2 ^ 12"
  shows "drop_bit 22 (make_id t wid s) = t - epoch"
    and "take_bit 10 (drop_bit 12 (make_id t wid s)) = wid"
    and "take_bit 12 (make_id t wid s) = s"
proof -
  have ws: "take_bit 10 wid = wid" "take_bit 12 s = s" "take_bit 42 (t - epoch) = t - epoch"
    using assms by (simp_all add: small_take_bit)
  have "bit wid k \<Longrightarrow> k < 10" "bit s k \<Longrightarrow> k < 12" "bit (t - epoch) k \<Longrightarrow> k < 42" for k
    using ws by (metis bit_take_bit_iff)+
  then show "drop_bit 22 (make_id t wid s) = t - epoch"
    "take_bit 10 (drop_bit 12 (make_id t wid s)) = wid" "take_bit 12 (make_id t wid s) = s"
    by (auto intro!: bit_word_eqI simp: make_id_def uuid_consts bit_simps; fastforce)+
qed

section \<open>Progress of the clock\<close>

lemma wait_next_millis_greater:
  "wait_next_millis l clock = Some (t, rest) \<Longrightarrow> l < t \<and> t \<in> set clock \<and> set rest \<subseteq> set clock"
  by (induction clock) (auto split: if_splits)

lemma wait_next_millis_returns: "\<exists>u\<in>set clock. l < u \<Longrightarrow> \<exists>r. wait_next_millis l clock = Some r"
  by (induction clock) (auto simp: not_le)

text \<open>The pair of timestamp and sequence number grows with every id.\<close>

definition stamp :: "snowflake_engine \<Rightarrow> nat \<times> nat" where
  "stamp e = (unat (last_timestamp e), unat (seq e))"

definition stamp_less :: "nat \<times> nat \<Rightarrow> nat \<times> nat \<Rightarrow> bool" where
  "stamp_less a b \<longleftrightarrow> fst a < fst b \<or> (fst a = fst b \<and> snd a < snd b)"

lemma stamp_less_trans: "stamp_less a b \<Longrightarrow> stamp_less b c \<Longrightarrow> stamp_less a c"
  by (auto simp: stamp_less_def)

lemma next_seq_greater:
  assumes "unat s < 2 ^ 12" "(s + 1) AND seqmask \<noteq> 0"
  shows "unat s < unat ((s + 1) AND seqmask)"
proof -
  have "s \<noteq> -1" using assms(1) by (auto simp: unsigned_minus_1_eq_mask mask_eq_exp_minus_1)
  then have "1 + s \<noteq> 0" using eq_neg_iff_add_eq_0 [of s 1] by (simp add: add.commute)
  then have one: "unat (s + 1) = unat s + 1" using unatSuc [of s] by (simp add: add.commute)
  have "unat ((s + 1) AND seqmask) = (unat s + 1) mod 2 ^ 12"
    unfolding and_seqmask unsigned_take_bit_eq one by (simp add: take_bit_eq_mod)
  moreover have "unat ((s + 1) AND seqmask) \<noteq> 0" using assms(2) by (simp add: unat_eq_0)
  ultimately show ?thesis using assms(1) by (cases "unat s + 1 = 2 ^ 12") auto
qed

lemma next_id_finish_cases:
  assumes "next_id_finish e t clock = Some (n, e', rest)" "last_timestamp e \<le> t" "unat (seq e) < 2 ^ 12"
  shows "n = make_id (last_timestamp e') (worker_id e') (seq e')
       \<and> worker_id e' = worker_id e \<and> unat (seq e') < 2 ^ 12
       \<and> last_timestamp e' \<in> insert t (set clock) \<and> set rest \<subseteq> set clock
       \<and> stamp_less (stamp e) (stamp e')"
  using assms wait_next_millis_greater [of "last_timestamp e" clock] seq_bound [of "seq e + 1"]
    next_seq_greater [of "seq e"]
  by (auto simp: next_id_finish_def Let_def stamp_def stamp_less_def word_less_nat_alt word_le_nat_alt
      word_unat_eq_iff split: if_splits option.splits)

lemma next_id_resume_cases:
  assumes "next_id_resume e clock = Some (n, e', rest)" "unat (seq e) < 2 ^ 12"
  shows "n = make_id (last_timestamp e') (worker_id e') (seq e')
       \<and> worker_id e' = worker_id e \<and> unat (seq e') < 2 ^ 12
       \<and> last_timestamp e' \<in> set clock \<and> stamp_less (stamp e) (stamp e')"
proof -
  obtain t clock' t' rest' where fin: "next_id_finish e t' rest' = Some (n, e', rest)"
    and c: "clock = t # clock'" "last_timestamp e \<le> t'" "t' \<in> set clock" "set rest' \<subseteq> set clock"
  proof (cases clock)
    case (Cons t clock')
    show thesis
    proof (cases "t < last_timestamp e")
      case True
      then obtain t' rest' where w: "wait_next_millis (last_timestamp e) clock' = Some (t', rest')"
        using assms(1) Cons by (auto simp: next_id_resume_def split: option.splits)
      then show thesis
        using that [of t' rest' t clock'] True assms(1) Cons wait_next_millis_greater [OF w]
        by (auto simp: next_id_resume_def intro: order_less_imp_le)
    next
      case False
      then have "next_id_finish e t clock' = Some (n, e', rest)" "last_timestamp e \<le> t"
        using assms(1) Cons by (auto simp: next_id_resume_def)
      then show thesis using that [of t clock' t clock'] Cons by auto
    qed
  qed (use assms(1) in \<open>simp add: next_id_resume_def\<close>)
  then show ?thesis using next_id_finish_cases [OF fin c(2) assms(2)] by blast
qed

section \<open>Invariant of the interleaved generator\<close>

definition id_stamp :: "u64 \<Rightarrow> nat \<times> nat" where
  "id_stamp n = (unat (drop_bit 22 n), unat (take_bit 12 n))"

definition valid_time :: "u64 \<Rightarrow> bool" where
  "valid_time t \<longleftrightarrow> unat epoch \<le> unat t \<and> unat t < unat epoch + 2 ^ 42"

text \<open>The stamps that were issued, relative to the epoch, are all below that of the engine.\<close>

definition uuid_inv :: "uuid_world \<Rightarrow> bool" where
  "uuid_inv w \<longleftrightarrow>
     unat (worker_id (engine w)) < 2 ^ 10 \<and> unat (seq (engine w)) < 2 ^ 12
   \<and> sorted_wrt (\<lambda>a b. stamp_less (id_stamp b) (id_stamp a)) (issued w)
   \<and> (\<forall>n\<in>set (issued w). let (t, s) = id_stamp n in
        stamp_less (t + unat epoch, s) (stamp (engine w)) \<or> (t + unat epoch, s) = stamp (engine w))"

lemma valid_time_offset:
  assumes "valid_time t"
  shows "unat (t - epoch) < 2 ^ 42" "unat (t - epoch) + unat epoch = unat t"
proof -
  have "unat (t - epoch) = unat t - unat epoch"
    using assms by (intro unat_sub) (simp add: valid_time_def word_le_nat_alt)
  then show "unat (t - epoch) < 2 ^ 42" "unat (t - epoch) + unat epoch = unat t"
    using assms by (auto simp: valid_time_def)
qed

lemma id_stamp_make_id:
  assumes "valid_time t" "unat wid < 2 ^ 10" "unat s < 2 ^ 12"
  shows "id_stamp (make_id t wid s) = (unat t - unat epoch, unat s)"
  using valid_time_offset [OF assms(1)] assms
  by (simp add: id_stamp_def make_id_fields)

lemma uuid_inv_issue:
  assumes inv: "uuid_inv w" and valid: "valid_time (last_timestamp e')"
    and e': "n = make_id (last_timestamp e') (worker_id e') (seq e')" "worker_id e' = worker_id (engine w)"
      "unat (seq e') < 2 ^ 12" "stamp_less (stamp (engine w)) (stamp e')"
    and w': "engine w' = e'" "issued w' = n # issued w"
  shows "uuid_inv w'"
proof -
  have wid: "unat (worker_id e') < 2 ^ 10" using inv e'(2) by (simp add: uuid_inv_def)
  have n: "id_stamp n = (unat (last_timestamp e') - unat epoch, unat (seq e'))"
    using id_stamp_make_id [OF valid wid e'(3)] e'(1) by simp
  have ge: "unat epoch \<le> unat (last_timestamp e')" using valid by (simp add: valid_time_def)
  have old: "stamp_less (fst (id_stamp m) + unat epoch, snd (id_stamp m)) (stamp e')"
    if "m \<in> set (issued w)" for m
    using inv that e'(4) by (auto simp: uuid_inv_def Let_def split_beta intro: stamp_less_trans)
  have "stamp_less (id_stamp m) (id_stamp n)" if "m \<in> set (issued w)" for m
    using old [OF that] n ge by (auto simp: stamp_less_def stamp_def)
  then show ?thesis
    using inv wid e'(3) old n ge
    by (auto simp: uuid_inv_def w' Let_def split_beta stamp_def)
qed

lemma uuid_step_inv:
  assumes "uuid_step valid_time w w'" "uuid_inv w"
  shows "uuid_inv w'"
proof -
  have seqb: "unat (seq (engine w)) < 2 ^ 12" using assms(2) by (simp add: uuid_inv_def)
  show ?thesis
    using assms(1)
  proof (cases rule: uuid_step.cases)
    case (call t clock n e' rest)
    have "last_timestamp (engine w) \<le> t"
      using call(3) by (auto simp: next_id_enter_def Let_def not_less split: if_splits)
    from next_id_finish_cases [OF call(4) this seqb] call(1,2)
    show ?thesis
      by (intro uuid_inv_issue [OF assms(2), of e' n]) (auto simp: list_all_iff)
  next
    case (resume thr clock n e' rest)
    from next_id_resume_cases [OF resume(4) seqb] resume(1,3)
    show ?thesis
      by (intro uuid_inv_issue [OF assms(2), of e' n]) (auto simp: list_all_iff)
  next
    case (reset wid e')
    then show ?thesis
      using assms(2) worker_id_bound [of wid]
      by (auto simp: uuid_inv_def reset_worker_id_def stamp_def split: if_splits)
  qed (use assms(2) in \<open>auto simp: uuid_inv_def\<close>)
qed

lemma uuid_initial_inv: "uuid_initial w \<Longrightarrow> uuid_inv w"
  using worker_id_bound [of "worker_id (engine w)"]
  by (auto simp: uuid_initial_def uuid_inv_def engine_new_def split: if_splits
      dest!: sym [of _ "engine w"])

lemma uuid_reachable_inv:
  assumes "(uuid_step valid_time)\<^sup>*\<^sup>* w w'" "uuid_initial w"
  shows "uuid_inv w'"
  using assms by (induction rule: rtranclp_induct) (auto intro: uuid_initial_inv uuid_step_inv)

lemma sorted_stamps_distinct:
  "sorted_wrt (\<lambda>a b. stamp_less (id_stamp b) (id_stamp a)) ns \<Longrightarrow> distinct ns"
  by (induction ns) (auto simp: stamp_less_def)

section \<open>Text\<close>

lemma length_hex_of_nat: "0 < w \<Longrightarrow> n < 16 ^ w \<Longrightarrow> length (hex_of_nat n) \<le> w"
proof (induction n arbitrary: w rule: hex_of_nat.induct)
  case (1 n)
  show ?case
  proof (cases "n < 16")
    case True
    then show ?thesis using 1(2) by (simp add: hex_of_nat.simps [of n])
  next
    case False
    then obtain v where v: "w = Suc v" "0 < v" using 1(2,3) by (cases w; cases "w - 1") auto
    then have "n div 16 < 16 ^ v" using 1(3) by (simp add: less_mult_imp_div_less mult.commute)
    then show ?thesis using 1(1) [OF False v(2)] v(1) False by (simp add: hex_of_nat.simps [of n])
  qed
qed

text \<open>Printing with a width that suffices gives the digits of that width.\<close>

primrec hex_digits :: "nat \<Rightarrow> nat \<Rightarrow> string" where
  "hex_digits 0 n = []"
| "hex_digits (Suc w) n = hex_digits w (n div 16) @ [hexdigit (n mod 16)]"

lemma hex_digits_0: "hex_digits w 0 = replicate w (CHR ''0'')"
  by (induction w) (simp_all add: hexdigit_def replicate_append_same)

lemma print_hex_digits: "0 < w \<Longrightarrow> n < 16 ^ w \<Longrightarrow> print_hex w n = hex_digits w n"
proof (induction w arbitrary: n)
  case (Suc w)
  show ?case
  proof (cases "n < 16")
    case True
    then show ?thesis by (simp add: print_hex_def hex_of_nat.simps [of n] Let_def hex_digits_0)
  next
    case False
    then have w: "0 < w" using Suc.prems(2) by (cases w) auto
    have n: "n div 16 < 16 ^ w" using Suc.prems(2) by (simp add: less_mult_imp_div_less mult.commute)
    show ?thesis
      using Suc.IH [OF w n] length_hex_of_nat [OF w n] False
      by (simp add: print_hex_def hex_of_nat.simps [of n] Let_def Suc_diff_le)
  qed
qed simp

lemma length_hex_digits [simp]: "length (hex_digits w n) = w"
  by (induction w arbitrary: n) simp_all

lemma hexdigit_inj: "a < 16 \<Longrightarrow> b < 16 \<Longrightarrow> hexdigit a = hexdigit b \<longleftrightarrow> a = b"
proof -
  have "distinct ''0123456789abcdef''" by simp
  moreover assume "a < 16" "b < 16"
  ultimately show ?thesis by (simp add: hexdigit_def nth_eq_iff_index_eq)
qed

lemma hex_digits_inj: "a < 16 ^ w \<Longrightarrow> b < 16 ^ w \<Longrightarrow> hex_digits w a = hex_digits w b \<longleftrightarrow> a = b"
proof (induction w arbitrary: a b)
  case (Suc w)
  have "a div 16 < 16 ^ w" "b div 16 < 16 ^ w"
    using Suc.prems by (simp_all add: less_mult_imp_div_less mult.commute)
  with Suc.IH show ?case
    by (auto simp: hexdigit_inj) (metis div_mult_mod_eq)
qed simp

lemma hex_digits_set: "set (hex_digits w n) \<subseteq> set ''0123456789abcdef''"
proof (induction w arbitrary: n)
  case (Suc w)
  have "hexdigit (n mod 16) \<in> set ''0123456789abcdef''"
    unfolding hexdigit_def by (rule nth_mem) simp
  then show ?case using Suc by simp
qed simp

lemma hex_digits_hd:
  assumes "0 < w" "n < 16 ^ w"
  shows "hd (hex_digits w n) = hexdigit (n div 16 ^ (w - 1))"
  using assms
proof (induction w arbitrary: n)
  case (Suc w)
  have n: "n div 16 < 16 ^ w" using Suc.prems(2) by (simp add: less_mult_imp_div_less mult.commute)
  show ?case
  proof (cases w)
    case (Suc v)
    have "hex_digits w (n div 16) \<noteq> []" using Suc by (metis length_hex_digits list.size(3) nat.distinct(1))
    then have "hd (hex_digits (Suc w) n) = hd (hex_digits w (n div 16))" by simp
    moreover have "n div 16 div 16 ^ v = n div 16 ^ w" by (simp add: Suc div_mult2_eq)
    ultimately show ?thesis using Suc.IH [OF _ n] Suc by simp
  qed (use Suc.prems in simp)
qed simp

lemma u64_field_bounds:
  fixes x :: u64
  shows "unat (drop_bit 32 x) < 2 ^ 32" "unat (drop_bit 48 x) < 2 ^ 16" "unat (take_bit n x) < 2 ^ n"
proof -
  have "unat x < 2 ^ 64" by (rule order_less_le_trans [OF unsigned_less]) simp
  then show "unat (drop_bit 32 x) < 2 ^ 32" "unat (drop_bit 48 x) < 2 ^ 16" "unat (take_bit n x) < 2 ^ n"
    unfolding unsigned_drop_bit_eq unsigned_take_bit_eq
    by (simp_all add: drop_bit_eq_div take_bit_nat_eq_self less_mult_imp_div_less take_bit_nat_less_exp)
qed

text \<open>The five groups of the text.\<close>

lemma rfc_groups:
  "rfc_uuid_format high low =
     hex_digits 8 (unat (drop_bit 32 (rfc_high high))) @ ''-''
     @ hex_digits 4 (unat (take_bit 16 (drop_bit 16 (rfc_high high)))) @ ''-''
     @ hex_digits 4 (unat (take_bit 16 (rfc_high high))) @ ''-''
     @ hex_digits 4 (unat (drop_bit 48 (rfc_low low))) @ ''-''
     @ hex_digits 12 (unat (take_bit 48 (rfc_low low)))"
proof -
  have m: "x AND 0xFFFF = take_bit 16 x" "x AND 0xFFFFFFFFFFFF = take_bit 48 x" for x :: u64
  proof -
    have "(0xFFFF::u64) = mask 16" "(0xFFFFFFFFFFFF::u64) = mask 48" by (simp_all add: mask_eq_exp_minus_1)
    then show "x AND 0xFFFF = take_bit 16 x" "x AND 0xFFFFFFFFFFFF = take_bit 48 x"
      by (simp_all add: take_bit_eq_mask)
  qed
  note b = u64_field_bounds
  have u: "unat (ucast x :: u32) = unat x" if "unat (x::u64) < 2 ^ 32" for x
    using that by (simp add: unsigned_ucast_eq take_bit_nat_eq_self)
  have v: "unat (ucast x :: u16) = unat x" if "unat (x::u64) < 2 ^ 16" for x
    using that by (simp add: unsigned_ucast_eq take_bit_nat_eq_self)
  have d: "take_bit 16 (drop_bit 48 x) = drop_bit 48 x" for x :: u64
    using b(2) [of x] by (rule small_take_bit)
  show ?thesis
    using b(1) [of "rfc_high high"] b(2) [of "rfc_low low"] b(3) [where n = 16] b(3) [where n = 48 and x = "rfc_low low"]
    by (simp add: rfc_uuid_format_def Let_def m d u v print_hex_digits)
qed

lemma dashed_groups:
  assumes len: "length A = 8" "length B = 4" "length C = 4" "length D = 4" "length E = 12"
    and hex: "set A \<subseteq> H" "set B \<subseteq> H" "set C \<subseteq> H" "set D \<subseteq> H" "set E \<subseteq> H"
    and s: "s = A @ ''-'' @ B @ ''-'' @ C @ ''-'' @ D @ ''-'' @ E"
  shows "length s = 36" "s ! 14 = hd C" "s ! 19 = hd D"
    and "i < 36 \<Longrightarrow> s ! i \<in> (if i \<in> {8, 13, 18, 23} then {CHR ''-''} else H)"
proof -
  show "length s = 36" using len by (simp add: s)
  have "C \<noteq> []" "D \<noteq> []" using len by auto
  then show "s ! 14 = hd C" "s ! 19 = hd D" using len by (simp_all add: s nth_append hd_conv_nth)
  assume i: "i < 36"
  have "s ! i = (if i < 8 then A ! i else if i = 8 then CHR ''-'' else if i < 13 then B ! (i - 9)
     else if i = 13 then CHR ''-'' else if i < 18 then C ! (i - 14) else if i = 18 then CHR ''-''
     else if i < 23 then D ! (i - 19) else if i = 23 then CHR ''-'' else E ! (i - 24))"
    using len by (auto simp: s nth_append nth_Cons')
  moreover have "i < 8 \<Longrightarrow> A ! i \<in> H" "\<not> i < 9 \<Longrightarrow> i < 13 \<Longrightarrow> B ! (i - 9) \<in> H"
    "\<not> i < 14 \<Longrightarrow> i < 18 \<Longrightarrow> C ! (i - 14) \<in> H" "\<not> i < 19 \<Longrightarrow> i < 23 \<Longrightarrow> D ! (i - 19) \<in> H"
    "\<not> i < 24 \<Longrightarrow> E ! (i - 24) \<in> H"
    using hex len i by (auto intro!: subsetD [OF _ nth_mem])
  ultimately show "s ! i \<in> (if i \<in> {8, 13, 18, 23} then {CHR ''-''} else H)" by auto
qed

text \<open>The groups determine the two halves.\<close>

lemma u64_groups_inj:
  fixes x y :: u64
  assumes "drop_bit 32 x = drop_bit 32 y" "take_bit 16 (drop_bit 16 x) = take_bit 16 (drop_bit 16 y)"
    and "take_bit 16 x = take_bit 16 y"
  shows "x = y"
proof (rule bit_word_eqI)
  fix k assume "k < LENGTH(64)"
  have "bit (drop_bit 32 x) (k - 32) = bit (drop_bit 32 y) (k - 32)"
    "bit (take_bit 16 (drop_bit 16 x)) (k - 16) = bit (take_bit 16 (drop_bit 16 y)) (k - 16)"
    "bit (take_bit 16 x) k = bit (take_bit 16 y) k"
    using assms by simp_all
  then show "bit x k = bit y k"
    by (cases "k < 16"; cases "k < 32") (auto simp: bit_simps)
qed

lemma u64_split48_inj:
  fixes x y :: u64
  assumes "drop_bit 48 x = drop_bit 48 y" "take_bit 48 x = take_bit 48 y"
  shows "x = y"
  using assms bits_ident [of 48 x] bits_ident [of 48 y] by metis

lemma rfc_halves_inj:
  "rfc_high a = rfc_high b \<longleftrightarrow> a AND 0xFFFFFFFFFFFF0FFF = b AND 0xFFFFFFFFFFFF0FFF"
  "rfc_low a = rfc_low b \<longleftrightarrow> a AND 0x3FFFFFFFFFFFFFFF = b AND 0x3FFFFFFFFFFFFFFF"
proof -
  have h: "rfc_high x AND 0xFFFFFFFFFFFF0FFF = x AND 0xFFFFFFFFFFFF0FFF" for x
    unfolding rfc_high_def and.commute [of _ "0xFFFFFFFFFFFF0FFF"] bit.conj_disj_distrib
    by (simp flip: and.assoc)
  have l: "rfc_low x AND 0x3FFFFFFFFFFFFFFF = x AND 0x3FFFFFFFFFFFFFFF" for x
    unfolding rfc_low_def and.commute [of _ "0x3FFFFFFFFFFFFFFF"] bit.conj_disj_distrib
    by (simp flip: and.assoc)
  show "rfc_high a = rfc_high b \<longleftrightarrow> a AND 0xFFFFFFFFFFFF0FFF = b AND 0xFFFFFFFFFFFF0FFF"
    using h [of a] h [of b] by (metis rfc_high_def)
  show "rfc_low a = rfc_low b \<longleftrightarrow> a AND 0x3FFFFFFFFFFFFFFF = b AND 0x3FFFFFFFFFFFFFFF"
    using l [of a] l [of b] by (metis rfc_low_def)
qed

lemma unat_div_16_3: "unat (x::u64) div 16 ^ 3 = unat (drop_bit 12 x)"
proof -
  have "unat x < 2 ^ 64" by (rule order_less_le_trans [OF unsigned_less]) simp
  then show ?thesis unfolding unsigned_drop_bit_eq by (simp add: drop_bit_eq_div take_bit_nat_eq_self)
qed

lemma rfc_version: "unat (take_bit 16 (rfc_high high)) div 16 ^ 3 = 8"
proof -
  have "drop_bit 12 (take_bit 16 (rfc_high high)) = 8"
    by (simp add: rfc_high_def take_bit_or take_bit_and)
  then show ?thesis by (simp only: unat_div_16_3) simp
qed

lemma rfc_variant: "unat (drop_bit 48 (rfc_low low)) div 16 ^ 3 \<in> {8, 9, 10, 11}"
proof -
  have "drop_bit 12 (drop_bit 48 (rfc_low low)) = (drop_bit 60 low AND 3) OR 8"
    by (simp add: rfc_low_def)
  moreover have three: "x AND 3 \<in> {0, 1, 2, 3}" for x :: u64
  proof -
    have "x AND 3 = x mod 4" using take_bit_eq_mask [of 2 x] by (simp add: take_bit_eq_mod mask_eq_exp_minus_1)
    then have "unat (x AND 3) < 4" by (simp add: unat_mod)
    then have "unat (x AND 3) \<in> {0, 1, 2, 3}" by auto
    then show ?thesis by (auto simp: word_unat_eq_iff)
  qed
  moreover have "unat ((drop_bit 60 low AND 3) OR 8) \<in> {8, 9, 10, 11}"
    using three [of "drop_bit 60 low"] by (elim insertE emptyE) simp_all
  ultimately show ?thesis by (simp only: unat_div_16_3)
qed

section \<open>Returning\<close>

lemma next_id_finish_returns:
  "\<exists>u\<in>set clock. last_timestamp e < u \<Longrightarrow> \<exists>r. next_id_finish e t clock = Some r"
  using wait_next_millis_returns [of clock "last_timestamp e"]
  by (auto simp: next_id_finish_def Let_def split: option.splits)

lemma next_id_resume_returns:
  assumes "\<exists>u\<in>set clock. last_timestamp e < u"
  shows "\<exists>r. next_id_resume e (t # clock) = Some r"
proof (cases "t < last_timestamp e")
  case True
  obtain t' rest where w: "wait_next_millis (last_timestamp e) clock = Some (t', rest)"
    using wait_next_millis_returns [OF assms] by auto
  moreover have "t' \<noteq> last_timestamp e" using wait_next_millis_greater [OF w] by auto
  ultimately show ?thesis using True by (simp add: next_id_resume_def next_id_finish_def)
next
  case False
  then show ?thesis using next_id_finish_returns [OF assms] by (simp add: next_id_resume_def)
qed

section \<open>The pseudo-random seed\<close>

lemma xor_push_bit_inj:
  fixes a b :: u64
  assumes "0 < k" "a XOR push_bit k a = b XOR push_bit k b"
  shows "a = b"
proof (rule bit_word_eqI)
  fix i assume "i < LENGTH(64)"
  then show "bit a i = bit b i"
  proof (induction i rule: less_induct)
    case (less i)
    have eq: "bit (a XOR push_bit k a) i = bit (b XOR push_bit k b) i" using assms(2) by simp
    have "k \<le> i \<Longrightarrow> bit a (i - k) = bit b (i - k)" using less assms(1) by simp
    then show ?case using eq less.prems by (auto simp: bit_simps)
  qed
qed

lemma xor_drop_bit_inj:
  fixes a b :: u64
  assumes "0 < k" "a XOR drop_bit k a = b XOR drop_bit k b"
  shows "a = b"
proof (rule bit_word_eqI)
  fix i assume "i < LENGTH(64)"
  then show "bit a i = bit b i"
  proof (induction "64 - i" arbitrary: i rule: less_induct)
    case less
    have eq: "bit (a XOR drop_bit k a) i = bit (b XOR drop_bit k b) i" using assms(2) by simp
    have "bit a (k + i) = bit b (k + i)"
    proof (cases "k + i < 64")
      case True
      then show ?thesis using less assms(1) by simp
    qed (simp add: bit_above)
    then show ?case using eq by (auto simp: bit_simps)
  qed
qed

lemma xorshift_inj: "xorshift a = xorshift b \<longleftrightarrow> a = b"
proof
  assume "xorshift a = xorshift b"
  note top = this [unfolded xorshift_def Let_def]
  have mid: "(a XOR push_bit 13 a) XOR drop_bit 7 (a XOR push_bit 13 a)
           = (b XOR push_bit 13 b) XOR drop_bit 7 (b XOR push_bit 13 b)"
    by (rule xor_push_bit_inj [OF _ top]) simp
  have "a XOR push_bit 13 a = b XOR push_bit 13 b"
    by (rule xor_drop_bit_inj [OF _ mid]) simp
  then show "a = b" by (rule xor_push_bit_inj [rotated]) simp
qed simp

lemma xorshift_zero: "xorshift 0 = 0"
  by (simp add: xorshift_def Let_def)

section \<open>Properties\<close>

text \<open>
  C20. No two ids of one engine are equal, whatever the interleaving of threads, the sleeps during
  which the lock is free, resets of the worker id and jumps of the clock backwards: in every state
  reachable from a fresh engine the ids issued so far are pairwise distinct and, read as timestamp
  and sequence number, each is later than all before it. The only assumption on the clock is that
  readings lie within the 42 bits of milliseconds after the epoch.
\<close>

theorem snowflake_ids_distinct:
  assumes "uuid_initial w" "(uuid_step valid_time)\<^sup>*\<^sup>* w w'"
  shows "distinct (issued w')
       \<and> sorted_wrt (\<lambda>later earlier. stamp_less (id_stamp earlier) (id_stamp later)) (issued w')
       \<and> worker_id (engine w') \<le> max_worker_id"
proof -
  have inv: "uuid_inv w'" using uuid_reachable_inv [OF assms(2,1)] .
  then have "worker_id (engine w') \<le> max_worker_id"
    by (simp add: uuid_inv_def word_le_nat_alt uuid_consts)
  with inv show ?thesis using sorted_stamps_distinct by (auto simp: uuid_inv_def)
qed

theorem snowflake_ids_distinct_witness:
  "\<exists>w w'. uuid_initial w \<and> (uuid_step valid_time)\<^sup>*\<^sup>* w w'
        \<and> length (issued w') = 2 \<and> distinct (issued w')"
proof -
  define e0 where "e0 = \<lparr>worker_id = 1, seq = 0, last_timestamp = (0::u64)\<rparr>"
  define t where "t = (1735689600001 :: u64)"
  define e1 where "e1 = e0\<lparr>seq := 0, last_timestamp := t\<rparr>"
  define e2 where "e2 = e1\<lparr>seq := 1, last_timestamp := t\<rparr>"
  define w0 where "w0 = \<lparr>engine = e0, sleepers = {}, issued = []\<rparr>"
  define w1 where "w1 = w0\<lparr>engine := e1, issued := make_id t 1 0 # issued w0\<rparr>"
  define w2 where "w2 = w1\<lparr>engine := e2, issued := make_id t 1 1 # issued w1\<rparr>"
  note defs = e0_def e1_def e2_def w0_def w1_def w2_def t_def
  have init: "uuid_initial w0" 
    by (simp add: uuid_initial_def engine_new_def uuid_consts defs) (rule exI [of _ 1], simp)
  have ok: "list_all valid_time (t # [])" by (simp add: valid_time_def epoch_def t_def)
  have s1: "uuid_step valid_time w0 w1"
    unfolding w1_def by (rule uuid_step.call [OF ok, of w0 _ _ "[]"])
      (simp_all add: next_id_enter_def next_id_finish_def Let_def defs)
  have s2: "uuid_step valid_time w1 w2"
    unfolding w2_def by (rule uuid_step.call [OF ok, of w1 _ _ "[]"])
      (simp_all add: next_id_enter_def next_id_finish_def Let_def defs uuid_consts)
  have r: "(uuid_step valid_time)\<^sup>*\<^sup>* w0 w2" using s1 s2 by auto
  show ?thesis
    using snowflake_ids_distinct [OF init r] init r
    by (intro exI [of _ w0] exI [of _ w2]) (simp add: w2_def w1_def w0_def)
qed

text \<open>
  C36. \<open>next_id\<close> returns: if the clock is at most five seconds behind the last id and some later
  reading is past it, the call yields an id whose fields are the timestamp, the worker and the
  sequence number; if the clock is further behind, the call throws.
\<close>

theorem next_id_returns:
  assumes "unat (worker_id e) < 2 ^ 10" "unat (seq e) < 2 ^ 12"
    and "list_all valid_time (t # t2 # clock)" "\<exists>u\<in>set clock. last_timestamp e < u"
  shows "if t < last_timestamp e \<and> max_backward_ms < last_timestamp e - t
         then next_id e (t # t2 # clock) = Some (Inl Throw_runtime_error)
         else \<exists>n e' rest. next_id e (t # t2 # clock) = Some (Inr (n, e', rest))
              \<and> drop_bit 22 n = last_timestamp e' - epoch
              \<and> take_bit 10 (drop_bit 12 n) = worker_id e \<and> take_bit 12 n = seq e'
              \<and> last_timestamp e \<le> last_timestamp e'"
proof (cases "t < last_timestamp e \<and> max_backward_ms < last_timestamp e - t")
  case True
  then show ?thesis by (simp add: next_id_def next_id_enter_def)
next
  case False
  have "\<exists>n e' rest. next_id e (t # t2 # clock) = Some (Inr (n, e', rest))
          \<and> n = make_id (last_timestamp e') (worker_id e') (seq e')
          \<and> worker_id e' = worker_id e \<and> unat (seq e') < 2 ^ 12
          \<and> last_timestamp e' \<in> set (t # t2 # clock) \<and> stamp_less (stamp e) (stamp e')"
  proof (cases "t < last_timestamp e")
    case True
    moreover obtain n e' rest where r: "next_id_resume e (t2 # clock) = Some (n, e', rest)"
      using next_id_resume_returns [OF assms(4)] by (metis prod_cases3)
    ultimately show ?thesis
      using False next_id_resume_cases [OF r assms(2)] by (auto simp: next_id_def next_id_enter_def)
  next
    case ge: False
    obtain n e' rest where r: "next_id_finish e t (t2 # clock) = Some (n, e', rest)"
      using next_id_finish_returns [of "t2 # clock" e t] assms(4) by auto
    then show ?thesis
      using ge next_id_finish_cases [OF r _ assms(2)] by (auto simp: next_id_def next_id_enter_def)
  qed
  then obtain n e' rest where res: "next_id e (t # t2 # clock) = Some (Inr (n, e', rest))"
    "n = make_id (last_timestamp e') (worker_id e) (seq e')" "unat (seq e') < 2 ^ 12"
    "last_timestamp e' \<in> set (t # t2 # clock)" "stamp_less (stamp e) (stamp e')" by auto
  have "valid_time (last_timestamp e')" using assms(3) res(4) by (auto simp: list_all_iff)
  then show ?thesis
    using res make_id_fields [OF valid_time_offset(1) assms(1) res(3)] False
    by (auto simp: stamp_less_def stamp_def word_le_nat_alt)
qed

theorem next_id_returns_witness:
  "\<exists>n e' rest. next_id \<lparr>worker_id = 7, seq = 4095, last_timestamp = 1735689600010\<rparr>
      [1735689600008, 1735689600010, 1735689600011] = Some (Inr (n, e', rest))
    \<and> take_bit 10 (drop_bit 12 n) = 7"
  using next_id_returns [of "\<lparr>worker_id = 7, seq = 4095, last_timestamp = 1735689600010\<rparr>"
      1735689600008 1735689600010 "[1735689600011]"]
  by (auto simp: valid_time_def epoch_def max_backward_ms_def)

text \<open>
  A formatted UUID has 36 characters with dashes at positions 8, 13, 18 and 23 and lower-case
  hexadecimal digits elsewhere, version digit 8 and variant digit 8, 9, a or b; two texts are equal
  exactly when the 60 and 62 bits that are not fixed by the format are equal.
\<close>

theorem rfc_uuid_format_correct:
  "length (rfc_uuid_format h l) = 36
   \<and> (\<forall>i<36. rfc_uuid_format h l ! i \<in>
        (if i \<in> {8, 13, 18, 23} then {CHR ''-''} else set ''0123456789abcdef''))
   \<and> rfc_uuid_format h l ! 14 = CHR ''8'' \<and> rfc_uuid_format h l ! 19 \<in> set ''89ab''
   \<and> (rfc_uuid_format h l = rfc_uuid_format h' l' \<longleftrightarrow>
        h AND 0xFFFFFFFFFFFF0FFF = h' AND 0xFFFFFFFFFFFF0FFF
        \<and> l AND 0x3FFFFFFFFFFFFFFF = l' AND 0x3FFFFFFFFFFFFFFF)"
proof -
  let ?high = "rfc_high h" and ?low = "rfc_low l"
  have b: "unat (take_bit 16 x) < 16 ^ 4" "unat (drop_bit 48 x) < 16 ^ 4" "unat (drop_bit 32 x) < 16 ^ 8"
    "unat (take_bit 48 x) < 16 ^ 12" for x :: u64
    using u64_field_bounds(1,2) [of x] u64_field_bounds(3) [of 16 x] u64_field_bounds(3) [of 48 x]
    by simp_all
  note shape = dashed_groups [OF length_hex_digits length_hex_digits length_hex_digits length_hex_digits
      length_hex_digits hex_digits_set hex_digits_set hex_digits_set hex_digits_set hex_digits_set
      rfc_groups [of h l]]
  have "rfc_uuid_format h l ! 14 = CHR ''8''"
    using shape(2) hex_digits_hd [of 4 "unat (take_bit 16 ?high)"] b(1) [of ?high] rfc_version [of h]
    by (simp add: hexdigit_def)
  moreover have "rfc_uuid_format h l ! 19 \<in> set ''89ab''"
    using shape(3) hex_digits_hd [of 4 "unat (drop_bit 48 ?low)"] b(2) [of ?low] rfc_variant [of l]
    by (auto simp: hexdigit_def)
  moreover have "rfc_uuid_format h l = rfc_uuid_format h' l' \<longleftrightarrow> ?high = rfc_high h' \<and> ?low = rfc_low l'"
    unfolding rfc_groups
    by (auto simp: hex_digits_inj [OF b(1) b(1)] hex_digits_inj [OF b(2) b(2)] hex_digits_inj [OF b(3) b(3)]
        hex_digits_inj [OF b(4) b(4)] simp flip: word_unat_eq_iff intro: u64_groups_inj u64_split48_inj)
  ultimately show ?thesis using shape(1,4) by (simp add: rfc_halves_inj)
qed

text \<open>The format at two concrete pairs that differ only in the overwritten version bits, and at one that differs elsewhere.\<close>

theorem rfc_uuid_format_correct_witness:
  "length (rfc_uuid_format 0x1234 0x77) = 36 \<and> rfc_uuid_format 0x1234 0x77 ! 8 = CHR ''-''
   \<and> rfc_uuid_format 0x1234 0x77 ! 14 = CHR ''8''
   \<and> rfc_uuid_format 0x1234 0x77 = rfc_uuid_format 0x5234 0x77
   \<and> rfc_uuid_format 0x1234 0x77 \<noteq> rfc_uuid_format 0x1235 0x77"
proof -
  note same = rfc_uuid_format_correct [of "0x1234" "0x77" "0x5234" "0x77"]
    and differ = rfc_uuid_format_correct [of "0x1234" "0x77" "0x1235" "0x77"]
  have "rfc_uuid_format 0x1234 0x77 ! 8 = CHR ''-''"
    using same by (auto dest: spec [of _ 8])
  then show ?thesis using same differ by simp
qed

end
