(* ===== verification/Hex.thy ===== *)
theory Hex
  imports HjPrelude
begin

text \<open>
  \<open>src/hj/encoding/hex.hpp\<close>: hexadecimal text.

  A \<open>std::string\<close> is the list of its bytes. The comparisons of the source are on \<open>char\<close>; a byte
  above 127 is in none of the digit ranges whether \<open>char\<close> is signed or not. The dispatch on the
  type tag gives one definition per tag: strings and \<open>vector<unsigned char>\<close>, integers, and other
  containers, whose element conversions are the arguments \<open>to_byte\<close> and \<open>of_byte\<close>. Files are a map
  from names to contents.
\<close>

section \<open>Definitions\<close>

definition hex_char_to_value :: "u8 \<Rightarrow> int" where
  "hex_char_to_value c =
     (if 0x30 \<le> c \<and> c \<le> 0x39 then uint c - 0x30
      else if 0x41 \<le> c \<and> c \<le> 0x46 then uint c - 0x41 + 10
      else if 0x61 \<le> c \<and> c \<le> 0x66 then uint c - 0x61 + 10
      else -1)"

subsection \<open>Encoding\<close>

text \<open>The stream manipulators: digits of an unsigned integer, and \<open>setw(2) << setfill('0')\<close>.\<close>

definition digit_char :: "bool \<Rightarrow> nat \<Rightarrow> u8" where
  "digit_char upper d = (if d < 10 then 0x30 + word_of_nat d else (if upper then 0x41 else 0x61) + word_of_nat (d - 10))"

fun put_hex :: "bool \<Rightarrow> nat \<Rightarrow> bytes" where
  "put_hex upper n =
     (if n < 16 then [digit_char upper n] else put_hex upper (n div 16) @ [digit_char upper (n mod 16)])"

declare put_hex.simps [simp del]

definition put_hex_w2 :: "bool \<Rightarrow> nat \<Rightarrow> bytes" where
  "put_hex_w2 upper n = (let s = put_hex upper n in replicate (2 - length s) 0x30 @ s)"

primrec encode_string :: "bool \<Rightarrow> bytes \<Rightarrow> bytes" where
  "encode_string upper [] = []"
| "encode_string upper (c # cs) = put_hex_w2 upper (unat c) @ encode_string upper cs"

definition encode_vector :: "bool \<Rightarrow> bytes \<Rightarrow> bytes" where
  "encode_vector upper value = encode_string upper value"

primrec encode_container :: "('v \<Rightarrow> u8) \<Rightarrow> bool \<Rightarrow> 'v list \<Rightarrow> bytes" where
  "encode_container to_byte upper [] = []"
| "encode_container to_byte upper (v # vs) =
     put_hex_w2 upper (unat (to_byte v)) @ encode_container to_byte upper vs"

text \<open>
  \<open>oss << value\<close> on an integer prints the hexadecimal digits of its unsigned value, but on a type of
  the width of \<open>char\<close> it writes the character itself.
\<close>

definition encode_integral :: "bool \<Rightarrow> 'a::len word \<Rightarrow> bytes" where
  "encode_integral upper value =
     (if LENGTH('a) = 8 then [ucast value] else put_hex upper (unat value))"

definition encode_stream :: "bool \<Rightarrow> bool \<Rightarrow> bytes \<Rightarrow> bytes \<Rightarrow> bool \<Rightarrow> bool \<times> bytes" where
  "encode_stream out_good in_good out inp upper =
     (if \<not> out_good \<or> \<not> in_good then (False, out) else (True, out @ encode_string upper inp))"

subsection \<open>Decoding\<close>

text \<open>
  The loop with step 2. A last single character would be paired with the terminating zero of the
  string, which is no digit.
\<close>

fun decode_pairs :: "(u8 \<Rightarrow> 'v) \<Rightarrow> bytes \<Rightarrow> 'v list" where
  "decode_pairs of_byte [] = []"
| "decode_pairs of_byte [c] = []"
| "decode_pairs of_byte (c # d # cs) =
     (let high = hex_char_to_value c; low = hex_char_to_value d in
      if high \<ge> 0 \<and> low \<ge> 0
      then of_byte (word_of_int (push_bit 4 high OR low)) # decode_pairs of_byte cs
      else decode_pairs of_byte cs)"

definition decode_digits :: "bytes \<Rightarrow> 'a::len word" where
  "decode_digits s =
     foldl (\<lambda>result c. let value = hex_char_to_value c in
              if value \<ge> 0 then push_bit 4 result OR word_of_int value else result) 0 s"

definition decode_prepare :: "bytes \<Rightarrow> bytes" where
  "decode_prepare str =
     (let hex_str = filter (\<lambda>c. hex_char_to_value c \<ge> 0) str in
      if length hex_str mod 2 \<noteq> 0 then 0x30 # hex_str else hex_str)"

definition decode_string :: "bytes \<Rightarrow> bytes" where
  "decode_string str = decode_pairs id (decode_prepare str)"

definition decode_vector :: "bytes \<Rightarrow> bytes" where
  "decode_vector str = decode_pairs id (decode_prepare str)"

definition decode_container :: "(u8 \<Rightarrow> 'v) \<Rightarrow> bytes \<Rightarrow> 'v list" where
  "decode_container of_byte str = decode_pairs of_byte (decode_prepare str)"

definition decode_integral :: "bytes \<Rightarrow> 'a::len word" where
  "decode_integral str = decode_digits (decode_prepare str)"

definition decode_stream :: "bool \<Rightarrow> bool \<Rightarrow> bytes \<Rightarrow> bytes \<Rightarrow> bool \<times> bytes" where
  "decode_stream out_good in_good out inp =
     (if \<not> out_good \<or> \<not> in_good then (False, out) else (True, out @ decode_string inp))"

subsection \<open>Files\<close>

text \<open>
  The input is opened first, then the output is created or truncated (if it is writable), then the
  input is read: an input that is also the output is read after it was truncated.
\<close>

definition with_files ::
    "(bool \<Rightarrow> bool \<Rightarrow> bytes \<Rightarrow> bytes \<Rightarrow> bool \<times> bytes) \<Rightarrow> (string \<Rightarrow> bool)
     \<Rightarrow> (string \<rightharpoonup> bytes) \<Rightarrow> string \<Rightarrow> string \<Rightarrow> bool \<times> (string \<rightharpoonup> bytes)" where
  "with_files f writable fs out inp =
     (let fs1 = (if writable out then fs(out \<mapsto> []) else fs);
          content = (case fs1 inp of Some c \<Rightarrow> c | None \<Rightarrow> []);
          (ok, written) = f (writable out) (fs inp \<noteq> None) [] content
      in (ok, if writable out then fs1(out \<mapsto> written) else fs1))"

definition decode_file where
  "decode_file writable fs out inp = with_files decode_stream writable fs out inp"

definition encode_file where
  "encode_file writable fs out inp =
     with_files (\<lambda>og ig o' i'. encode_stream og ig o' i' True) writable fs out inp"

subsection \<open>Validation\<close>

definition is_hex_char :: "u8 \<Rightarrow> bool" where
  "is_hex_char c \<longleftrightarrow>
     (0x30 \<le> c \<and> c \<le> 0x39) \<or> (0x61 \<le> c \<and> c \<le> 0x66) \<or> (0x41 \<le> c \<and> c \<le> 0x46)"

text \<open>The loop counter is an \<open>int\<close>: with more than \<open>INT_MAX\<close> valid characters it overflows.\<close>

definition is_valid_buf :: "bytes option \<Rightarrow> nat \<Rightarrow> bool result" where
  "is_valid_buf buf len =
     (case buf of
        None \<Rightarrow> Inr False
      | Some bs \<Rightarrow>
          if len = 0 then Inr False
          else if len mod 2 \<noteq> 0 then Inr False
          else if length bs < len then Inl Out_of_bounds
          else if list_all is_hex_char (take (INT_MAX + 1) (take len bs))
               then (if len > INT_MAX then Inl Signed_overflow else Inr True)
          else Inr False)"

definition is_valid_string :: "bytes \<Rightarrow> bool result" where
  "is_valid_string hex_str = is_valid_buf (Some hex_str) (length hex_str)"

definition HEX_BUF_SZ :: nat where "HEX_BUF_SZ = 4096"

function is_valid_chunks :: "bytes \<Rightarrow> nat \<Rightarrow> nat option" where
  "is_valid_chunks rest total_len =
     (let buf = take HEX_BUF_SZ rest; n = length buf in
      if n = 0 then Some total_len
      else if list_all is_hex_char buf then is_valid_chunks (drop HEX_BUF_SZ rest) (total_len + n)
      else None)"
  by pat_completeness auto

termination
  by (relation "measure (\<lambda>(rest, _). length rest)") (auto simp: HEX_BUF_SZ_def)

declare is_valid_chunks.simps [simp del]

definition is_valid_stream :: "bool \<Rightarrow> bytes \<Rightarrow> bool" where
  "is_valid_stream is_open content =
     (if \<not> is_open then False
      else case is_valid_chunks content 0 of
             None \<Rightarrow> False
           | Some total_len \<Rightarrow> \<not> (total_len = 0 \<or> total_len mod 2 \<noteq> 0))"

definition is_valid_file :: "(string \<rightharpoonup> bytes) \<Rightarrow> string \<Rightarrow> bool" where
  "is_valid_file fs file_path =
     (case fs file_path of None \<Rightarrow> False | Some content \<Rightarrow> is_valid_stream True content)"

section \<open>Digits\<close>

lemma digit_char_nat:
  "d < 16 \<Longrightarrow> digit_char upper d = word_of_nat (if d < 10 then 0x30 + d else if upper then 0x37 + d else 0x57 + d)"
  by (simp add: digit_char_def of_nat_diff)

lemma hex_value_nat:
  "n < 256 \<Longrightarrow> hex_char_to_value (word_of_nat n) =
     (if 0x30 \<le> n \<and> n \<le> 0x39 then int n - 0x30 else if 0x41 \<le> n \<and> n \<le> 0x46 then int n - 0x37
      else if 0x61 \<le> n \<and> n \<le> 0x66 then int n - 0x57 else -1)"
  by (simp add: hex_char_to_value_def word_le_nat_alt unat_of_nat take_bit_nat_eq_self uint_nat)

lemma hex_value_digit: "d < 16 \<Longrightarrow> hex_char_to_value (digit_char upper d) = int d"
  by (simp add: digit_char_nat hex_value_nat del: of_nat_add split: if_split)

lemma hex_value_nonneg: "hex_char_to_value c \<ge> 0 \<longleftrightarrow> is_hex_char c"
proof -
  have "0x30 \<le> c \<Longrightarrow> 0x30 \<le> uint c" "0x41 \<le> c \<Longrightarrow> 0x41 \<le> uint c" "0x61 \<le> c \<Longrightarrow> 0x61 \<le> uint c"
    by (simp_all add: word_le_def)
  then show ?thesis by (auto simp: hex_char_to_value_def is_hex_char_def)
qed

lemma hex_value_less: "hex_char_to_value c < 16"
  by (auto simp: hex_char_to_value_def word_le_def)

lemma is_hex_digit: "d < 16 \<Longrightarrow> is_hex_char (digit_char upper d)"
  using hex_value_digit [of d upper] by (simp flip: hex_value_nonneg)

lemma nibbles_int: "0 \<le> l \<Longrightarrow> l < 16 \<Longrightarrow> push_bit 4 (h::int) OR l = 16 * h + l"
proof -
  assume l: "0 \<le> l" "l < 16"
  then have "take_bit 4 l = l" by (simp add: take_bit_int_eq_self)
  then have "push_bit 4 h OR l = concat_bit 4 l h" by (simp add: concat_bit_def or.commute)
  also have "\<dots> = l + push_bit 4 h" using \<open>take_bit 4 l = l\<close> by (simp add: concat_bit_eq)
  finally show ?thesis by (simp add: push_bit_eq_mult)
qed

lemma put_hex_w2_digits: "n < 256 \<Longrightarrow> put_hex_w2 upper n = [digit_char upper (n div 16), digit_char upper (n mod 16)]"
  using less_mult_imp_div_less [of n 16 16]
  by (simp add: put_hex_w2_def put_hex.simps [of _ n] put_hex.simps [of _ "n div 16"] Let_def)
    (simp add: digit_char_def)

text \<open>One byte through its two digits.\<close>

lemma decode_byte:
  "decode_pairs of_byte (put_hex_w2 upper (unat c) @ cs) = of_byte c # decode_pairs of_byte cs"
proof -
  let ?h = "unat c div 16" and ?l = "unat c mod 16"
  have b: "?h < 16" "?l < 16" using unat_u8_less [of c] by simp_all
  have "push_bit 4 (int ?h) OR int ?l = 16 * int ?h + int ?l"
    by (rule nibbles_int) (use b in simp_all)
  also have "\<dots> = int (unat c)" by (metis mult_div_mod_eq of_nat_add of_nat_mult of_nat_numeral)
  finally have "word_of_int (push_bit 4 (int ?h) OR int ?l) = c" by simp
  then show ?thesis
    using b by (simp add: put_hex_w2_digits unat_u8_less hex_value_digit Let_def)
qed

lemma encode_string_hex: "list_all is_hex_char (encode_string upper bs)"
  by (induction bs) (auto simp: put_hex_w2_digits unat_u8_less is_hex_digit less_mult_imp_div_less)

lemma length_encode_string: "length (encode_string upper bs) = 2 * length bs"
  by (induction bs) (simp_all add: put_hex_w2_digits unat_u8_less)

lemma encode_container_string: "encode_container to_byte upper vs = encode_string upper (map to_byte vs)"
  by (induction vs) simp_all

lemma decode_prepare_even:
  "list_all is_hex_char s \<Longrightarrow> even (length s) \<Longrightarrow> decode_prepare s = s"
  by (simp add: decode_prepare_def hex_value_nonneg Let_def list_all_iff even_iff_mod_2_eq_zero)

lemma decode_pairs_encode: "decode_pairs of_byte (encode_string upper bs) = map of_byte bs"
  by (induction bs) (simp_all add: decode_byte)

lemma decode_container_encode:
  "decode_container of_byte (encode_string upper bs) = map of_byte bs"
  by (simp add: decode_container_def decode_prepare_even encode_string_hex length_encode_string
      decode_pairs_encode)

section \<open>Integers\<close>

lemma nibbles_word:
  fixes x :: "'a::len word"
  assumes "d < 16"
  shows "push_bit 4 x OR word_of_nat d = 16 * x + word_of_nat d"
proof -
  have "take_bit 4 d = d" using assms by (simp add: take_bit_nat_eq_self)
  then have "bit d k \<Longrightarrow> k < 4" for k by (metis bit_take_bit_iff)
  then have "push_bit 4 x AND word_of_nat d = 0"
    by (intro bit_word_eqI) (fastforce simp: bit_simps)
  then have "push_bit 4 x + word_of_nat d = push_bit 4 x OR word_of_nat d"
    by (rule disjunctive_add_eq_or)
  then show ?thesis by (simp add: push_bit_eq_mult mult.commute)
qed

lemma decode_digits_snoc:
  assumes "d < 16"
  shows "decode_digits (s @ [digit_char upper d]) = 16 * decode_digits s + (word_of_nat d :: 'a::len word)"
  using nibbles_word [OF assms, of "decode_digits s :: 'a word"]
  by (simp add: decode_digits_def hex_value_digit [OF assms])

lemma decode_digits_put_hex: "decode_digits (put_hex upper n) = (word_of_nat n :: 'a::len word)"
proof (induction n rule: put_hex.induct [of "\<lambda>u n. decode_digits (put_hex upper n) = (word_of_nat n :: 'a word)" for upper])
  case (1 u n)
  show ?case
  proof (cases "n < 16")
    case True
    then show ?thesis
      using decode_digits_snoc [OF True, of "[]" upper, where 'a = 'a]
      by (simp add: put_hex.simps [of upper n]) (simp add: decode_digits_def)
  next
    case False
    have "(word_of_nat n :: 'a word) = word_of_nat (16 * (n div 16) + n mod 16)" by simp
    also have "\<dots> = 16 * word_of_nat (n div 16) + word_of_nat (n mod 16)" by (simp only: of_nat_add of_nat_mult of_nat_numeral)
    finally show ?thesis
      using 1 False by (simp add: put_hex.simps [of upper n] decode_digits_snoc)
  qed
qed

lemma put_hex_is_hex: "list_all is_hex_char (put_hex upper n)"
  by (induction upper n rule: put_hex.induct)
    (subst put_hex.simps, auto simp: is_hex_digit)

lemma decode_digits_prepare:
  assumes "list_all is_hex_char s"
  shows "decode_digits (decode_prepare s) = (decode_digits s :: 'a::len word)"
proof -
  have "hex_char_to_value 0x30 = 0" by (simp add: hex_char_to_value_def)
  then have "decode_digits (0x30 # s) = (decode_digits s :: 'a word)" by (simp add: decode_digits_def)
  moreover have "filter (\<lambda>c. hex_char_to_value c \<ge> 0) s = s"
    using assms by (simp add: hex_value_nonneg list_all_iff)
  ultimately show ?thesis by (simp add: decode_prepare_def Let_def)
qed

section \<open>Validation\<close>

lemma is_valid_chunks_eq:
  "is_valid_chunks s n = (if list_all is_hex_char s then Some (n + length s) else None)"
proof (induction s n rule: is_valid_chunks.induct)
  case (1 s n)
  show ?case
  proof (cases "s = []")
    case False
    then have ne: "length (take HEX_BUF_SZ s) \<noteq> 0" by (simp add: HEX_BUF_SZ_def)
    have split: "list_all is_hex_char s \<longleftrightarrow>
        list_all is_hex_char (take HEX_BUF_SZ s) \<and> list_all is_hex_char (drop HEX_BUF_SZ s)"
      by (metis append_take_drop_id list_all_append)
    show ?thesis
      using 1 [OF refl refl ne] ne split
      by (simp add: is_valid_chunks.simps [of s n] Let_def) arith
  qed (simp add: is_valid_chunks.simps)
qed

section \<open>The contract of a text codec\<close>

locale text_codec =
  fixes enc :: "bytes \<Rightarrow> bytes"
    and dec :: "bytes \<Rightarrow> bytes"
    and valid :: "bytes \<Rightarrow> bool"
  assumes dec_enc: "dec (enc bs) = bs"
    and valid_enc: "bs \<noteq> [] \<Longrightarrow> valid (enc bs)"
begin

lemma enc_inj: "enc a = enc b \<longleftrightarrow> a = b"
  using dec_enc by metis

lemma dec_surj: "\<exists>s. dec s = bs \<and> (bs \<noteq> [] \<longrightarrow> valid s)"
  using dec_enc valid_enc by metis

end

definition valid_hex :: "bytes \<Rightarrow> bool" where
  "valid_hex s \<longleftrightarrow> s \<noteq> [] \<and> even (length s) \<and> list_all is_hex_char s"

lemma decode_string_encode: "decode_string (encode_string upper bs) = bs"
  using decode_container_encode [of id upper bs] by (simp add: decode_string_def decode_container_def)

lemma valid_hex_encode: "bs \<noteq> [] \<Longrightarrow> valid_hex (encode_string upper bs)"
  using length_encode_string [of upper bs] encode_string_hex [of upper bs]
  by (auto simp: valid_hex_def)

interpretation hex_upper: text_codec "encode_string True" decode_string valid_hex
  by unfold_locales (fact decode_string_encode valid_hex_encode)+

interpretation hex_lower: text_codec "encode_string False" decode_string valid_hex
  by unfold_locales (fact decode_string_encode valid_hex_encode)+

lemma is_valid_string_iff:
  "length s \<le> INT_MAX \<Longrightarrow> is_valid_string s = Inr (valid_hex s)"
  by (auto simp: is_valid_string_def is_valid_buf_def valid_hex_def even_iff_mod_2_eq_zero)

lemma is_valid_stream_iff: "is_valid_stream True s = valid_hex s"
  by (auto simp: is_valid_stream_def is_valid_chunks_eq valid_hex_def even_iff_mod_2_eq_zero)

section \<open>Properties\<close>

text \<open>
  Hexadecimal text in upper or lower case decodes to the bytes it was made from, for strings,
  byte vectors and any container whose elements convert to bytes and back; the text is accepted by
  the validator; different contents have different texts; and characters that are no digits, put
  anywhere into a text, do not change what it decodes to.
\<close>

theorem hex_roundtrip:
  assumes "\<And>v. of_byte (to_byte v) = v"
  shows "decode_string (encode_string upper bs) = bs
       \<and> decode_vector (encode_vector upper bs) = bs
       \<and> decode_container of_byte (encode_container to_byte upper vs) = vs
       \<and> (bs \<noteq> [] \<and> 2 * length bs \<le> INT_MAX \<longrightarrow> is_valid_string (encode_string upper bs) = Inr True)
       \<and> (encode_string upper bs = encode_string upper cs \<longleftrightarrow> bs = cs)
       \<and> decode_string (filter is_hex_char s) = decode_string s"
proof -
  have "encode_string upper bs = encode_string upper cs \<longleftrightarrow> bs = cs"
    using hex_upper.enc_inj hex_lower.enc_inj by (cases upper) simp_all
  moreover have "decode_container of_byte (encode_container to_byte upper vs) = vs"
    using assms by (simp add: encode_container_string decode_container_encode comp_def)
  moreover have "decode_string (filter is_hex_char s) = decode_string s"
    by (simp add: decode_string_def decode_prepare_def hex_value_nonneg)
  moreover have "decode_vector (encode_vector upper bs) = bs"
    using decode_string_encode by (simp add: decode_vector_def encode_vector_def decode_string_def)
  ultimately show ?thesis
    by (simp add: decode_string_encode is_valid_string_iff length_encode_string valid_hex_encode)
qed

theorem hex_roundtrip_witness:
  "decode_container id (encode_container id True [0, 255, 16]) = [0, 255, 16]
   \<and> is_valid_string (encode_string True [0, 255, 16]) = Inr True"
  using hex_roundtrip [of id id True "[0, 255, 16]" "[0, 255, 16]"] by (simp add: INT_MAX_def)

text \<open>
  Integers wider than a byte are printed without padding and read back unchanged. For 8-bit
  integer types the encoder writes the character with that code instead of two digits, so a byte
  is not read back.
\<close>

theorem hex_integral_roundtrip:
  assumes "LENGTH('a::len) \<noteq> 8"
  shows "decode_integral (encode_integral upper (v :: 'a word)) = v
       \<and> decode_integral (encode_integral upper (0x41 :: u8)) = (0x0A :: u8)"
proof -
  have "decode_integral (encode_integral upper v) = v"
    using assms put_hex_is_hex [of upper "unat v"] decode_digits_put_hex [of upper "unat v", where 'a = 'a]
    by (simp add: decode_integral_def encode_integral_def decode_digits_prepare)
  moreover have "list_all is_hex_char [0x41]" by (simp add: is_hex_char_def)
  ultimately show ?thesis
    by (simp add: decode_integral_def encode_integral_def decode_digits_prepare)
      (simp add: decode_digits_def hex_char_to_value_def)
qed

theorem hex_integral_roundtrip_witness:
  "decode_integral (encode_integral False (0xBEEF :: u16)) = (0xBEEF :: u16)"
  using hex_integral_roundtrip [of False "0xBEEF :: u16"] by simp

text \<open>
  The file functions: a file encoded into a second one and decoded into a third is copied
  unchanged; the chunked file validator accepts exactly the files whose content the buffer
  validator accepts; a missing input is reported but the output has already been emptied; and
  encoding a file onto itself empties it.
\<close>

theorem hex_files:
  assumes "fs a = Some content" "writable b" "writable c" "a \<noteq> b"
    and "encode_file writable fs b a = (ok, fs')" "decode_file writable fs' c b = (ok', fs'')"
  shows "ok \<and> (b \<noteq> c \<longrightarrow> ok' \<and> fs'' c = Some content)
       \<and> (length content \<le> INT_MAX \<longrightarrow> Inr (is_valid_file fs a) = is_valid_string content)
       \<and> (fs m = None \<longrightarrow> encode_file writable fs b m = (False, fs(b \<mapsto> [])))
       \<and> (writable a \<longrightarrow> encode_file writable fs a a = (True, fs(a \<mapsto> [])))"
  using assms hex_upper.dec_enc [of content]
  by (auto simp: encode_file_def decode_file_def with_files_def encode_stream_def decode_stream_def
      Let_def is_valid_file_def is_valid_stream_iff is_valid_string_iff split: if_splits)

theorem hex_files_witness:
  "\<exists>fs' fs''. encode_file (\<lambda>_. True) [''a'' \<mapsto> [1, 2]] ''b'' ''a'' = (True, fs')
     \<and> decode_file (\<lambda>_. True) fs' ''c'' ''b'' = (True, fs'') \<and> fs'' ''c'' = Some [1, 2]"
proof -
  obtain ok fs' where e: "encode_file (\<lambda>_. True) [''a'' \<mapsto> [1, 2]] ''b'' ''a'' = (ok, fs')" by fastforce
  obtain ok' fs'' where d: "decode_file (\<lambda>_. True) fs' ''c'' ''b'' = (ok', fs'')" by fastforce
  show ?thesis using hex_files [OF _ _ _ _ e d, of "[1, 2]"] e d by simp
qed

end
