(* ===== verification/Utf8.thy ===== *)
theory Utf8
  imports HjPrelude
begin

text \<open>
  \<open>src/hj/encoding/utf8.hpp\<close>: the UTF-8 validator, and the conversions between wide and multibyte
  strings as compiled for POSIX with C++17.

  The conversions rest on \<open>std::wcsrtombs\<close> and \<open>std::mbsrtowcs\<close>, whose result depends on the locale
  of the process: they are the parameters \<open>wcs2mbs\<close> and \<open>mbs2wcs\<close>, total conversions of a string
  without zero characters that may fail. Both stop at the first zero character. A wide character is
  a 32-bit word. An output buffer that may be \<open>nullptr\<close> is an \<open>option\<close>, and a conversion into a buffer
  returns the buffer with the new length, or an error code.
\<close>

section \<open>Definitions\<close>

datatype utf8_error = Utf8_ok | Utf8_buffer_overflow | Utf8_invalid_input | Utf8_conversion_failed

type_synonym wchars = "u32 list"

subsection \<open>Validation\<close>

definition utf8_cp3 :: "u8 \<Rightarrow> u8 \<Rightarrow> u8 \<Rightarrow> u32" where
  "utf8_cp3 c d e =
     push_bit 12 (ucast (c AND 0x0F)) OR push_bit 6 (ucast (d AND 0x3F)) OR ucast (e AND 0x3F)"

definition utf8_cp4 :: "u8 \<Rightarrow> u8 \<Rightarrow> u8 \<Rightarrow> u8 \<Rightarrow> u32" where
  "utf8_cp4 c d e f =
     push_bit 18 (ucast (c AND 0x07)) OR push_bit 12 (ucast (d AND 0x3F))
     OR push_bit 6 (ucast (e AND 0x3F)) OR ucast (f AND 0x3F)"

function utf8_valid_from :: "bytes \<Rightarrow> nat \<Rightarrow> bool" where
  "utf8_valid_from str i =
     (let len = length str in
      if i \<ge> len then True
      else let c = str ! i in
        if c \<le> 0x7F then utf8_valid_from str (i + 1)
        else if c AND 0xE0 = 0xC0 then
          (if i + 1 \<ge> len \<or> str ! (i + 1) AND 0xC0 \<noteq> 0x80 then False
           else if c AND 0xFE = 0xC0 then False
           else utf8_valid_from str (i + 2))
        else if c AND 0xF0 = 0xE0 then
          (if i + 2 \<ge> len \<or> str ! (i + 1) AND 0xC0 \<noteq> 0x80 \<or> str ! (i + 2) AND 0xC0 \<noteq> 0x80 then False
           else let cp = utf8_cp3 c (str ! (i + 1)) (str ! (i + 2)) in
                if cp \<ge> 0xD800 \<and> cp \<le> 0xDFFF then False
                else utf8_valid_from str (i + 3))
        else if c AND 0xF8 = 0xF0 then
          (if i + 3 \<ge> len \<or> str ! (i + 1) AND 0xC0 \<noteq> 0x80 \<or> str ! (i + 2) AND 0xC0 \<noteq> 0x80
              \<or> str ! (i + 3) AND 0xC0 \<noteq> 0x80 then False
           else let cp = utf8_cp4 c (str ! (i + 1)) (str ! (i + 2)) (str ! (i + 3)) in
                if cp > 0x10FFFF then False
                else utf8_valid_from str (i + 4))
        else False)"
  by pat_completeness auto

termination
  by (relation "measure (\<lambda>(str, i). length str - i)") auto

declare utf8_valid_from.simps [simp del]

definition utf8_is_valid :: "bytes \<Rightarrow> bool" where
  "utf8_is_valid str = utf8_valid_from str 0"

subsection \<open>Conversions\<close>

definition cstr :: "'c::zero list \<Rightarrow> 'c list" where
  "cstr s = takeWhile (\<lambda>c. c \<noteq> 0) s"

definition wide_to_utf8 :: "(wchars \<Rightarrow> bytes option) \<Rightarrow> wchars \<Rightarrow> bytes \<times> utf8_error" where
  "wide_to_utf8 wcs2mbs str =
     (case wcs2mbs (cstr str) of None \<Rightarrow> ([], Utf8_conversion_failed) | Some result \<Rightarrow> (result, Utf8_ok))"

definition utf8_to_wide :: "(bytes \<Rightarrow> wchars option) \<Rightarrow> bytes \<Rightarrow> wchars \<times> utf8_error" where
  "utf8_to_wide mbs2wcs str =
     (case mbs2wcs (cstr str) of None \<Rightarrow> ([], Utf8_conversion_failed) | Some result \<Rightarrow> (result, Utf8_ok))"

text \<open>The stream versions: one wide character, or one block of 4096 bytes, at a time.\<close>

definition UTF8_BUF_SZ :: nat where "UTF8_BUF_SZ = 4096"

primrec utf8_decode_chars :: "(wchars \<Rightarrow> bytes option) \<Rightarrow> wchars \<Rightarrow> bytes" where
  "utf8_decode_chars wcs2mbs [] = []"
| "utf8_decode_chars wcs2mbs (wc # wcs) = fst (wide_to_utf8 wcs2mbs [wc]) @ utf8_decode_chars wcs2mbs wcs"

function utf8_encode_blocks :: "(bytes \<Rightarrow> wchars option) \<Rightarrow> bytes \<Rightarrow> wchars" where
  "utf8_encode_blocks mbs2wcs rest =
     (let buffer = take UTF8_BUF_SZ rest in
      if buffer = [] then []
      else case utf8_to_wide mbs2wcs buffer of
             (wstr, Utf8_ok) \<Rightarrow> wstr @ utf8_encode_blocks mbs2wcs (drop UTF8_BUF_SZ rest)
           | _ \<Rightarrow> [])"
  by pat_completeness auto

termination
  by (relation "measure (\<lambda>(_, rest). length rest)") (auto simp: UTF8_BUF_SZ_def)

declare utf8_encode_blocks.simps [simp del]

definition utf8_decode_stream :: "(wchars \<Rightarrow> bytes option) \<Rightarrow> bool \<Rightarrow> bool \<Rightarrow> wchars \<Rightarrow> bytes" where
  "utf8_decode_stream wcs2mbs out_ok in_ok inp = (if \<not> out_ok \<or> \<not> in_ok then [] else utf8_decode_chars wcs2mbs inp)"

definition utf8_encode_stream :: "(bytes \<Rightarrow> wchars option) \<Rightarrow> bool \<Rightarrow> bool \<Rightarrow> bytes \<Rightarrow> wchars" where
  "utf8_encode_stream mbs2wcs out_ok in_ok inp = (if \<not> out_ok \<or> \<not> in_ok then [] else utf8_encode_blocks mbs2wcs inp)"

definition utf8_decode :: "(wchars \<Rightarrow> bytes option) \<Rightarrow> wchars \<Rightarrow> bytes \<times> utf8_error" where
  "utf8_decode wcs2mbs str = (if str = [] then ([], Utf8_invalid_input) else wide_to_utf8 wcs2mbs str)"

definition utf8_encode :: "(bytes \<Rightarrow> wchars option) \<Rightarrow> bytes \<Rightarrow> wchars \<times> utf8_error" where
  "utf8_encode mbs2wcs str = (if str = [] then ([], Utf8_invalid_input) else utf8_to_wide mbs2wcs str)"

text \<open>
  The buffer versions. The buffer has room for at least \<open>out_len\<close> elements; the input is a
  zero-terminated array given by its characters before the terminator.
\<close>

definition write_cstr :: "'c::zero list \<Rightarrow> nat \<Rightarrow> 'c list \<Rightarrow> utf8_error + ('c list \<times> nat)" where
  "write_cstr out out_len s =
     (if length s + 1 > out_len then Inl Utf8_buffer_overflow
      else Inr ((s @ drop (length s) out)[length s := 0], length s + 1))"

definition utf8_decode_buf ::
    "(wchars \<Rightarrow> bytes option) \<Rightarrow> bytes option \<Rightarrow> nat \<Rightarrow> wchars option \<Rightarrow> utf8_error + (bytes \<times> nat)" where
  "utf8_decode_buf wcs2mbs out out_len inp =
     (case (out, inp) of
        (Some buf, Some wstr) \<Rightarrow>
          if out_len < 1 then Inl Utf8_invalid_input
          else (case wide_to_utf8 wcs2mbs wstr of
                  (str, Utf8_ok) \<Rightarrow> write_cstr buf out_len str
                | (_, ec) \<Rightarrow> Inl ec)
      | _ \<Rightarrow> Inl Utf8_invalid_input)"

definition utf8_encode_buf ::
    "(bytes \<Rightarrow> wchars option) \<Rightarrow> wchars option \<Rightarrow> nat \<Rightarrow> bytes option \<Rightarrow> utf8_error + (wchars \<times> nat)" where
  "utf8_encode_buf mbs2wcs out out_len inp =
     (case (out, inp) of
        (Some buf, Some str) \<Rightarrow>
          if out_len < 1 then Inl Utf8_invalid_input
          else (case utf8_to_wide mbs2wcs str of
                  (wstr, Utf8_ok) \<Rightarrow> write_cstr buf out_len wstr
                | (_, ec) \<Rightarrow> Inl ec)
      | _ \<Rightarrow> Inl Utf8_invalid_input)"

section \<open>The lead and continuation bytes\<close>

lemma unat_and_not_mask: "unat ((x::u8) AND NOT (mask n)) = unat x div 2 ^ n * 2 ^ n"
proof -
  have x: "x AND NOT (mask n) = push_bit n (drop_bit n x)"
    by (rule bit_word_eqI) (auto simp: bit_simps)
  moreover have "unat x div 2 ^ n * 2 ^ n < 256"
    using unat_u8_less [of x] div_times_less_eq_dividend [of "unat x" "2 ^ n"] by linarith
  moreover have "unat (drop_bit n x) = unat x div 2 ^ n"
    using unat_u8_less [of x]
    unfolding unsigned_drop_bit_eq by (simp add: drop_bit_eq_div take_bit_nat_eq_self)
  ultimately show ?thesis
    unfolding x unsigned_push_bit_eq by (simp add: push_bit_eq_mult take_bit_nat_eq_self)
qed

lemma u8_prefix_tests:
  fixes x :: u8
  shows "x AND 0xC0 = 0x80 \<longleftrightarrow> unat x div 64 = 2" "x AND 0xE0 = 0xC0 \<longleftrightarrow> unat x div 32 = 6"
    "x AND 0xF0 = 0xE0 \<longleftrightarrow> unat x div 16 = 14" "x AND 0xF8 = 0xF0 \<longleftrightarrow> unat x div 8 = 30"
    "x AND 0xFE = 0xC0 \<longleftrightarrow> unat x div 2 = 96"
proof -
  have m: "(0xC0::u8) = NOT (mask 6)" "(0xE0::u8) = NOT (mask 5)" "(0xF0::u8) = NOT (mask 4)"
    "(0xF8::u8) = NOT (mask 3)" "(0xFE::u8) = NOT (mask 1)"
    by (simp_all add: mask_eq_exp_minus_1)
  show "x AND 0xC0 = 0x80 \<longleftrightarrow> unat x div 64 = 2"
    unfolding word_unat_eq_iff m(1) unat_and_not_mask by simp
  show "x AND 0xE0 = 0xC0 \<longleftrightarrow> unat x div 32 = 6"
    unfolding word_unat_eq_iff m(2) unat_and_not_mask by simp
  show "x AND 0xF0 = 0xE0 \<longleftrightarrow> unat x div 16 = 14"
    unfolding word_unat_eq_iff m(3) unat_and_not_mask by simp
  show "x AND 0xF8 = 0xF0 \<longleftrightarrow> unat x div 8 = 30"
    unfolding word_unat_eq_iff m(4) unat_and_not_mask by simp
  show "x AND 0xFE = 0xC0 \<longleftrightarrow> unat x div 2 = 96"
    unfolding word_unat_eq_iff m(5) unat_and_not_mask by simp
qed

text \<open>The bits that carry the code point.\<close>

lemma u8_payload:
  fixes x :: u8
  shows "unat (x AND 0x0F) = unat x mod 16" "unat (x AND 0x07) = unat x mod 8"
    "unat (x AND 0x3F) = unat x mod 64"
proof -
  have "unat (x AND mask n) = unat x mod 2 ^ n" for n
    unfolding take_bit_eq_mask [symmetric] unsigned_take_bit_eq by (simp add: take_bit_eq_mod)
  from this [of 4] this [of 3] this [of 6]
  show "unat (x AND 0x0F) = unat x mod 16" "unat (x AND 0x07) = unat x mod 8"
    "unat (x AND 0x3F) = unat x mod 64" by (simp_all add: mask_eq_exp_minus_1)
qed

lemma unat_ucast_u8: "unat (ucast (x::u8) :: u32) = unat x"
  using unat_u8_less [of x] by (simp add: unsigned_ucast_eq take_bit_nat_eq_self)

lemma unat_push_small: "unat (x::u32) < 2 ^ 8 \<Longrightarrow> n \<le> 24 \<Longrightarrow> unat (push_bit n x) = push_bit n (unat x)"
proof -
  assume a: "unat x < 2 ^ 8" "n \<le> 24"
  have "unat x * 2 ^ n < 2 ^ 8 * 2 ^ n" using a(1) by simp
  also have "\<dots> \<le> 2 ^ 32" using a(2) power_increasing [of "8 + n" 32 "2::nat"] by (simp add: power_add)
  finally show ?thesis unfolding unsigned_push_bit_eq by (simp add: push_bit_eq_mult take_bit_nat_eq_self)
qed

lemma unat_cp3: "unat (utf8_cp3 c d e) = (unat c mod 16) * 4096 + (unat d mod 64) * 64 + unat e mod 64"
proof -
  let ?l = "unat d mod 64 * 2 ^ 6 + unat e mod 64"
  have l: "?l < 2 ^ 12" by (simp add: less_le_trans [of _ 64])
  have "unat (utf8_cp3 c d e) = push_bit 12 (unat c mod 16) OR (push_bit 6 (unat d mod 64) OR unat e mod 64)"
    by (simp add: utf8_cp3_def unsigned_or_eq unat_push_small unat_ucast_u8 u8_payload or.assoc)
  also have "\<dots> = push_bit 12 (unat c mod 16) OR ?l"
    by (subst or_push_bit_nat [of _ 6]) simp_all
  also have "\<dots> = unat c mod 16 * 2 ^ 12 + ?l" by (rule or_push_bit_nat [OF l])
  finally show ?thesis by simp
qed

lemma unat_cp4:
  "unat (utf8_cp4 c d e f) =
   (unat c mod 8) * 262144 + (unat d mod 64) * 4096 + (unat e mod 64) * 64 + unat f mod 64"
proof -
  let ?l = "unat e mod 64 * 2 ^ 6 + unat f mod 64"
  let ?m = "unat d mod 64 * 2 ^ 12 + ?l"
  have l: "?l < 2 ^ 12" by (simp add: less_le_trans [of _ 64])
  have m: "?m < 2 ^ 18"
    using l mult_le_mono1 [of "unat d mod 64" 63 "2 ^ 12"] by simp
  have "unat (utf8_cp4 c d e f) =
      push_bit 18 (unat c mod 8) OR (push_bit 12 (unat d mod 64) OR (push_bit 6 (unat e mod 64) OR unat f mod 64))"
    by (simp add: utf8_cp4_def unsigned_or_eq unat_push_small unat_ucast_u8 u8_payload or.assoc)
  also have "\<dots> = push_bit 18 (unat c mod 8) OR (push_bit 12 (unat d mod 64) OR ?l)"
    by (subst or_push_bit_nat [of _ 6]) simp_all
  also have "\<dots> = push_bit 18 (unat c mod 8) OR ?m" by (subst or_push_bit_nat [OF l]) simp
  also have "\<dots> = unat c mod 8 * 2 ^ 18 + ?m" by (rule or_push_bit_nat [OF m])
  finally show ?thesis by simp
qed

section \<open>Groups of bytes\<close>

text \<open>The byte groups that one round of the loop accepts.\<close>

fun utf8_group :: "bytes \<Rightarrow> bool" where
  "utf8_group [c] = (c \<le> 0x7F)"
| "utf8_group [c, d] = (c AND 0xE0 = 0xC0 \<and> d AND 0xC0 = 0x80 \<and> c AND 0xFE \<noteq> 0xC0)"
| "utf8_group [c, d, e] =
     (c AND 0xF0 = 0xE0 \<and> d AND 0xC0 = 0x80 \<and> e AND 0xC0 = 0x80
      \<and> \<not> (0xD800 \<le> utf8_cp3 c d e \<and> utf8_cp3 c d e \<le> 0xDFFF))"
| "utf8_group [c, d, e, f] =
     (c AND 0xF8 = 0xF0 \<and> d AND 0xC0 = 0x80 \<and> e AND 0xC0 = 0x80 \<and> f AND 0xC0 = 0x80
      \<and> utf8_cp4 c d e f \<le> 0x10FFFF)"
| "utf8_group _ = False"

lemma lead_bytes_exclusive:
  fixes c :: u8
  shows "c \<le> 0x7F \<longleftrightarrow> unat c < 128"
    "c AND 0xE0 = 0xC0 \<Longrightarrow> \<not> c \<le> 0x7F"
    "c AND 0xF0 = 0xE0 \<Longrightarrow> \<not> c \<le> 0x7F \<and> c AND 0xE0 \<noteq> 0xC0"
    "c AND 0xF8 = 0xF0 \<Longrightarrow> \<not> c \<le> 0x7F \<and> c AND 0xE0 \<noteq> 0xC0 \<and> c AND 0xF0 \<noteq> 0xE0"
  unfolding u8_prefix_tests word_le_nat_alt by simp_all linarith+

lemma utf8_valid_Suc:
  assumes "i < length str"
  shows "utf8_valid_from str i \<longleftrightarrow>
         (\<exists>g rest. drop i str = g @ rest \<and> utf8_group g \<and> utf8_valid_from str (i + length g))"
proof
  assume v: "utf8_valid_from str i"
  have d: "drop i str = str ! i # drop (i + 1) str" using assms by (simp add: Cons_nth_drop_Suc)
  have d2: "drop (i + 1) str = str ! (i + 1) # drop (i + 2) str" if "i + 1 < length str"
    using that Cons_nth_drop_Suc [of "i + 1" str] by simp
  have d3: "drop (i + 2) str = str ! (i + 2) # drop (i + 3) str" if "i + 2 < length str"
    using that Cons_nth_drop_Suc [of "i + 2" str] by (simp add: numeral_3_eq_3)
  have d4: "drop (i + 3) str = str ! (i + 3) # drop (i + 4) str" if "i + 3 < length str"
    using that Cons_nth_drop_Suc [of "i + 3" str] by (simp add: eval_nat_numeral)
  have Suc4: "Suc (Suc (Suc (Suc i))) = i + 4" by simp
  have I: "drop i str = g @ rest \<Longrightarrow> utf8_group g \<Longrightarrow> utf8_valid_from str (i + length g) \<Longrightarrow>
      \<exists>g rest. drop i str = g @ rest \<and> utf8_group g \<and> utf8_valid_from str (i + length g)" for g rest
    by blast
  note step = v [unfolded utf8_valid_from.simps [of str i]]
  consider "str ! i \<le> 0x7F" | "\<not> str ! i \<le> 0x7F" "str ! i AND 0xE0 = 0xC0"
    | "\<not> str ! i \<le> 0x7F" "str ! i AND 0xE0 \<noteq> 0xC0" "str ! i AND 0xF0 = 0xE0"
    | "\<not> str ! i \<le> 0x7F" "str ! i AND 0xE0 \<noteq> 0xC0" "str ! i AND 0xF0 \<noteq> 0xE0" by blast
  then show "\<exists>g rest. drop i str = g @ rest \<and> utf8_group g \<and> utf8_valid_from str (i + length g)"
  proof cases
    case 1
    then show ?thesis using step assms d
      by (intro I [of "[str ! i]" "drop (i + 1) str"]) (simp_all add: Let_def)
  next
    case 2
    then show ?thesis using step assms d d2
      by (intro I [of "[str ! i, str ! (i + 1)]" "drop (i + 2) str"])
        (auto simp: Let_def split: if_splits)
  next
    case 3
    then show ?thesis using step assms d d2 d3
      by (intro I [of "[str ! i, str ! (i + 1), str ! (i + 2)]" "drop (i + 3) str"])
        (auto simp: Let_def numeral_3_eq_3 split: if_splits)
  next
    case 4
    then show ?thesis using step assms d d2 d3 d4
      by (intro I [of "[str ! i, str ! (i + 1), str ! (i + 2), str ! (i + 3)]" "drop (i + 4) str"])
        (auto simp: Let_def not_less Suc4 split: if_splits)
  qed
next
  assume "\<exists>g rest. drop i str = g @ rest \<and> utf8_group g \<and> utf8_valid_from str (i + length g)"
  then obtain g rest where g: "drop i str = g @ rest" "utf8_group g" "utf8_valid_from str (i + length g)"
    by blast
  have nth: "str ! (i + k) = g ! k \<and> i + k < length str" if "k < length g" for k
  proof -
    have "k < length (drop i str)" unfolding g(1) using that by simp
    then have "i + k < length str" by simp
    moreover have "str ! (i + k) = (g @ rest) ! k"
      unfolding g(1) [symmetric] using calculation by simp
    ultimately show ?thesis using that by (simp add: nth_append)
  qed
  have Sucs: "Suc (Suc (Suc i)) = i + 3" "Suc (i + 3) = i + 4" by simp_all
  from g(2) show "utf8_valid_from str i"
    using g(3) nth [of 0] nth [of 1] nth [of 2] nth [of 3]
    by (cases g rule: utf8_group.cases)
      (auto simp: utf8_valid_from.simps [of str i] Let_def not_le Sucs dest: lead_bytes_exclusive(2-))
qed

lemma utf8_valid_groups:
  "utf8_valid_from str i \<longleftrightarrow> (\<exists>gs. drop i str = concat gs \<and> list_all utf8_group gs)"
proof (induction "length str - i" arbitrary: i rule: less_induct)
  case less
  show ?case
  proof (cases "i < length str")
    case False
    then show ?thesis by (auto simp: utf8_valid_from.simps [of str i] intro: exI [of _ "[]"])
  next
    case True
    have ih: "utf8_valid_from str (i + length g) \<longleftrightarrow> (\<exists>gs. drop (i + length g) str = concat gs \<and> list_all utf8_group gs)"
      if "utf8_group g" for g
    proof -
      have "g \<noteq> []" using that by auto
      then show ?thesis using True by (intro less) (simp add: diff_less_mono2)
    qed
    have dr: "drop (i + length g) str = rest" if "drop i str = g @ rest" for g rest
    proof -
      have "drop (length g) (drop i str) = rest" using that by simp
      then show ?thesis by (simp add: add.commute)
    qed
    show ?thesis
    proof
      assume "utf8_valid_from str i"
      then obtain g rest where g: "drop i str = g @ rest" "utf8_group g" "utf8_valid_from str (i + length g)"
        using utf8_valid_Suc [OF True] by blast
      then obtain gs where "rest = concat gs" "list_all utf8_group gs"
        using ih [OF g(2)] dr [OF g(1)] by auto
      then show "\<exists>gs. drop i str = concat gs \<and> list_all utf8_group gs"
        using g by (intro exI [of _ "g # gs"]) simp
    next
      assume "\<exists>gs. drop i str = concat gs \<and> list_all utf8_group gs"
      then obtain gs where gs: "drop i str = concat gs" "list_all utf8_group gs" by blast
      then obtain g gs' where [simp]: "gs = g # gs'" using True by (cases gs) auto
      then show "utf8_valid_from str i"
        using gs dr [of g "concat gs'"] ih [of g] utf8_valid_Suc [OF True] by auto
    qed
  qed
qed

section \<open>Code points\<close>

text \<open>The encodings of the standard, by the number of bytes.\<close>

definition utf8_enc2 :: "nat \<Rightarrow> bytes" where
  "utf8_enc2 cp = [word_of_nat (0xC0 + cp div 64), word_of_nat (0x80 + cp mod 64)]"

definition utf8_enc3 :: "nat \<Rightarrow> bytes" where
  "utf8_enc3 cp =
     [word_of_nat (0xE0 + cp div 4096), word_of_nat (0x80 + cp div 64 mod 64), word_of_nat (0x80 + cp mod 64)]"

definition utf8_enc4 :: "nat \<Rightarrow> bytes" where
  "utf8_enc4 cp =
     [word_of_nat (0xF0 + cp div 262144), word_of_nat (0x80 + cp div 4096 mod 64),
      word_of_nat (0x80 + cp div 64 mod 64), word_of_nat (0x80 + cp mod 64)]"

definition utf8_scalar :: "nat \<Rightarrow> bool" where
  "utf8_scalar cp \<longleftrightarrow> cp \<le> 0x10FFFF \<and> \<not> (0xD800 \<le> cp \<and> cp \<le> 0xDFFF)"

definition utf8_enc :: "nat \<Rightarrow> bytes" where
  "utf8_enc cp =
     (if cp < 0x80 then [word_of_nat cp] else if cp < 0x800 then utf8_enc2 cp
      else if cp < 0x10000 then utf8_enc3 cp else utf8_enc4 cp)"

lemma unat_byte: "n < 256 \<Longrightarrow> unat (word_of_nat n :: u8) = n"
  by (simp add: unat_of_nat take_bit_nat_eq_self)

lemma byte_of_parts: "unat (c::u8) div m = q \<Longrightarrow> word_of_nat (m * q + unat c mod m) = c"
  using mult_div_mod_eq [of m "unat c"] by simp

lemma base64_digits:
  fixes a b g :: nat
  assumes "g < 64"
  shows "(a * 64 + g) div 64 = a" "(a * 64 + g) mod 64 = g"
  using assms by simp_all

lemma tagged_bytes:
  fixes r :: nat
  shows "r < 64 \<Longrightarrow> (128 + r) div 64 = 2 \<and> (128 + r) mod 64 = r"
    and "r < 32 \<Longrightarrow> (192 + r) div 32 = 6" and "2 \<le> r \<Longrightarrow> (192 + r) div 2 \<noteq> 96"
    and "r < 16 \<Longrightarrow> (224 + r) div 16 = 14 \<and> (224 + r) mod 16 = r"
    and "r < 8 \<Longrightarrow> (240 + r) div 8 = 30 \<and> (240 + r) mod 8 = r"
proof -
  show "r < 64 \<Longrightarrow> (128 + r) div 64 = 2 \<and> (128 + r) mod 64 = r"
    using div_mult_self3 [of 64 2 r] mod_mult_self3 [of 2 64 r] by simp
  show "r < 32 \<Longrightarrow> (192 + r) div 32 = 6" using div_mult_self3 [of 32 6 r] by simp
  show "2 \<le> r \<Longrightarrow> (192 + r) div 2 \<noteq> 96" by linarith
  show "r < 16 \<Longrightarrow> (224 + r) div 16 = 14 \<and> (224 + r) mod 16 = r"
    using div_mult_self3 [of 16 14 r] mod_mult_self3 [of 14 16 r] by simp
  show "r < 8 \<Longrightarrow> (240 + r) div 8 = 30 \<and> (240 + r) mod 8 = r"
    using div_mult_self3 [of 8 30 r] mod_mult_self3 [of 30 8 r] by simp
qed

lemma group1_iff: "utf8_group [c] \<longleftrightarrow> (\<exists>cp<0x80. [c] = [word_of_nat cp])"
  by (auto simp: word_le_nat_alt unat_byte intro: exI [of _ "unat c"])

lemma group2_iff: "utf8_group [c, d] \<longleftrightarrow> (\<exists>cp<0x800. 0x80 \<le> cp \<and> [c, d] = utf8_enc2 cp)"
proof
  assume g: "utf8_group [c, d]"
  define a b where "a = unat c mod 32" and "b = unat d mod 64"
  have ab: "a < 32" "b < 64" by (simp_all add: a_def b_def)
  have cd: "unat c div 32 = 6" "unat d div 64 = 2" "unat c div 2 \<noteq> 96"
    using g by (simp_all add: u8_prefix_tests)
  then have "c = word_of_nat (0xC0 + a)" "d = word_of_nat (0x80 + b)"
    using byte_of_parts [of c 32 6] byte_of_parts [of d 64 2] by (simp_all add: a_def b_def)
  moreover have "2 \<le> a"
  proof (rule ccontr)
    assume "\<not> 2 \<le> a"
    moreover have "unat c = 32 * 6 + a" using cd(1) a_def mult_div_mod_eq [of 32 "unat c"] by simp
    ultimately show False using cd(3) by simp
  qed
  ultimately show "\<exists>cp<0x800. 0x80 \<le> cp \<and> [c, d] = utf8_enc2 cp"
    using ab base64_digits [of b a] by (intro exI [of _ "a * 64 + b"]) (simp add: utf8_enc2_def)
next
  assume "\<exists>cp<0x800. 0x80 \<le> cp \<and> [c, d] = utf8_enc2 cp"
  then obtain cp where cp: "cp < 0x800" "0x80 \<le> cp" "[c, d] = utf8_enc2 cp" by blast
  have q: "2 \<le> cp div 64" "cp div 64 < 32" using cp(1,2) by (simp_all add: div_le_mono [of 128] less_mult_imp_div_less)
  then have "unat c = 0xC0 + cp div 64" "unat d = 0x80 + cp mod 64"
    using cp(3) by (simp_all add: utf8_enc2_def unat_byte del: of_nat_add)
  then show "utf8_group [c, d]" using q by (simp add: u8_prefix_tests tagged_bytes)
qed

lemma group3_iff:
  "utf8_group [c, d, e] \<longleftrightarrow> (\<exists>cp<0x10000. \<not> (0xD800 \<le> cp \<and> cp \<le> 0xDFFF) \<and> [c, d, e] = utf8_enc3 cp)"
proof
  assume g: "utf8_group [c, d, e]"
  define a b h where "a = unat c mod 16" and "b = unat d mod 64" and "h = unat e mod 64"
  have abh: "a < 16" "b < 64" "h < 64" by (simp_all add: a_def b_def h_def)
  have "unat c div 16 = 14" "unat d div 64 = 2" "unat e div 64 = 2"
    using g by (simp_all add: u8_prefix_tests)
  then have "c = word_of_nat (0xE0 + a)" "d = word_of_nat (0x80 + b)" "e = word_of_nat (0x80 + h)"
    using byte_of_parts [of c 16 14] byte_of_parts [of d 64 2] byte_of_parts [of e 64 2]
    by (simp_all add: a_def b_def h_def)
  moreover define cp where "cp = (a * 64 + b) * 64 + h"
  have "unat (utf8_cp3 c d e) = cp" by (simp add: unat_cp3 a_def b_def h_def cp_def)
  then have "\<not> (0xD800 \<le> cp \<and> cp \<le> 0xDFFF)" using g by (auto simp: word_le_nat_alt)
  moreover have "cp mod 64 = h" "cp div 64 mod 64 = b" "cp div 4096 = a"
    using abh base64_digits [of h "a * 64 + b"] base64_digits [of b a] div_mult2_eq [of cp 64 64]
    by (simp_all add: cp_def)
  moreover have "cp < 0x10000" using abh by (simp add: cp_def)
  ultimately show "\<exists>cp<0x10000. \<not> (0xD800 \<le> cp \<and> cp \<le> 0xDFFF) \<and> [c, d, e] = utf8_enc3 cp"
    by (intro exI [of _ cp]) (simp add: utf8_enc3_def)
next
  assume "\<exists>cp<0x10000. \<not> (0xD800 \<le> cp \<and> cp \<le> 0xDFFF) \<and> [c, d, e] = utf8_enc3 cp"
  then obtain cp where cp: "cp < 0x10000" "\<not> (0xD800 \<le> cp \<and> cp \<le> 0xDFFF)" "[c, d, e] = utf8_enc3 cp" by blast
  have q: "cp div 4096 < 16" using cp(1) by (simp add: less_mult_imp_div_less)
  then have u: "unat c = 0xE0 + cp div 4096" "unat d = 0x80 + cp div 64 mod 64" "unat e = 0x80 + cp mod 64"
    using cp(3) by (simp_all add: utf8_enc3_def unat_byte del: of_nat_add)
  have "unat (utf8_cp3 c d e) = cp div 64 div 64 * 4096 + cp div 64 mod 64 * 64 + cp mod 64"
    using q by (simp add: unat_cp3 u tagged_bytes div_mult2_eq [symmetric])
  also have "\<dots> = cp"
    using div_mult_mod_eq [of "cp div 64" 64] div_mult_mod_eq [of cp 64] by linarith
  finally show "utf8_group [c, d, e]"
    using q cp(2) by (simp add: u8_prefix_tests u tagged_bytes word_le_nat_alt)
qed

lemma group4_iff: "utf8_group [c, d, e, f] \<longleftrightarrow> (\<exists>cp\<le>0x10FFFF. [c, d, e, f] = utf8_enc4 cp)"
proof
  assume g: "utf8_group [c, d, e, f]"
  define a b h k where "a = unat c mod 8" and "b = unat d mod 64" and "h = unat e mod 64" and "k = unat f mod 64"
  have abh: "b < 64" "h < 64" "k < 64" by (simp_all add: b_def h_def k_def)
  have "unat c div 8 = 30" "unat d div 64 = 2" "unat e div 64 = 2" "unat f div 64 = 2"
    using g by (simp_all add: u8_prefix_tests)
  then have "c = word_of_nat (0xF0 + a)" "d = word_of_nat (0x80 + b)" "e = word_of_nat (0x80 + h)"
    "f = word_of_nat (0x80 + k)"
    using byte_of_parts [of c 8 30] byte_of_parts [of d 64 2] byte_of_parts [of e 64 2] byte_of_parts [of f 64 2]
    by (simp_all add: a_def b_def h_def k_def)
  moreover define cp where "cp = ((a * 64 + b) * 64 + h) * 64 + k"
  have "unat (utf8_cp4 c d e f) = cp" by (simp add: unat_cp4 a_def b_def h_def k_def cp_def)
  then have "cp \<le> 0x10FFFF" using g by (auto simp: word_le_nat_alt)
  moreover have "cp mod 64 = k" "cp div 64 mod 64 = h" "cp div 4096 mod 64 = b" "cp div 262144 = a"
    using abh base64_digits [of k "(a * 64 + b) * 64 + h"] base64_digits [of h "a * 64 + b"]
      base64_digits [of b a] div_mult2_eq [of cp 64 64] div_mult2_eq [of cp 4096 64]
    by (simp_all add: cp_def)
  ultimately show "\<exists>cp\<le>0x10FFFF. [c, d, e, f] = utf8_enc4 cp"
    by (intro exI [of _ cp]) (simp add: utf8_enc4_def)
next
  assume "\<exists>cp\<le>0x10FFFF. [c, d, e, f] = utf8_enc4 cp"
  then obtain cp where cp: "cp \<le> 0x10FFFF" "[c, d, e, f] = utf8_enc4 cp" by blast
  have q: "cp div 262144 < 8" using cp(1) by (simp add: less_mult_imp_div_less)
  then have u: "unat c = 0xF0 + cp div 262144" "unat d = 0x80 + cp div 4096 mod 64"
    "unat e = 0x80 + cp div 64 mod 64" "unat f = 0x80 + cp mod 64"
    using cp(2) by (simp_all add: utf8_enc4_def unat_byte del: of_nat_add)
  have "unat (utf8_cp4 c d e f) =
      cp div 64 div 64 div 64 * 262144 + cp div 64 div 64 mod 64 * 4096 + cp div 64 mod 64 * 64 + cp mod 64"
    using q by (simp add: unat_cp4 u tagged_bytes div_mult2_eq [symmetric])
  also have "\<dots> = cp"
    using div_mult_mod_eq [of "cp div 64 div 64" 64] div_mult_mod_eq [of "cp div 64" 64]
      div_mult_mod_eq [of cp 64] by linarith
  finally show "utf8_group [c, d, e, f]"
    using q cp(1) by (simp add: u8_prefix_tests u tagged_bytes word_le_nat_alt)
qed

text \<open>
  Groups of three and four bytes that encode a code point which has a shorter encoding.
\<close>

definition utf8_overlong :: "bytes \<Rightarrow> bool" where
  "utf8_overlong g \<longleftrightarrow> (\<exists>cp<0x800. g = utf8_enc3 cp) \<or> (\<exists>cp<0x10000. g = utf8_enc4 cp)"

lemma utf8_enc_lengths:
  "length (utf8_enc2 cp) = 2" "length (utf8_enc3 cp) = 3" "length (utf8_enc4 cp) = 4"
  by (simp_all add: utf8_enc2_def utf8_enc3_def utf8_enc4_def)

lemma scalar_enc_by_length:
  "(\<exists>cp. utf8_scalar cp \<and> g = utf8_enc cp) \<longleftrightarrow>
     (\<exists>cp<0x80. g = [word_of_nat cp]) \<or> (\<exists>cp<0x800. 0x80 \<le> cp \<and> g = utf8_enc2 cp)
   \<or> (\<exists>cp<0x10000. 0x800 \<le> cp \<and> \<not> (0xD800 \<le> cp \<and> cp \<le> 0xDFFF) \<and> g = utf8_enc3 cp)
   \<or> (\<exists>cp\<le>0x10FFFF. 0x10000 \<le> cp \<and> g = utf8_enc4 cp)" (is "?l = ?r")
proof
  assume ?l
  then obtain cp where "utf8_scalar cp" "g = utf8_enc cp" by blast
  then show ?r
    unfolding utf8_enc_def utf8_scalar_def
    by (cases "cp < 0x80"; cases "cp < 0x800"; cases "cp < 0x10000") (auto simp: not_less)
next
  have I: "utf8_scalar cp \<Longrightarrow> g = utf8_enc cp \<Longrightarrow> ?l" for cp by blast
  assume ?r
  then show ?l
  proof (elim disjE exE conjE)
    show ?l if "cp < 0x80" "g = [word_of_nat cp]" for cp
      using that by (intro I [of cp]) (simp_all add: utf8_enc_def utf8_scalar_def)
    show ?l if "cp < 0x800" "0x80 \<le> cp" "g = utf8_enc2 cp" for cp
      using that by (intro I [of cp]) (simp_all add: utf8_enc_def utf8_scalar_def)
    show ?l if "cp < 0x10000" "0x800 \<le> cp" "\<not> (0xD800 \<le> cp \<and> cp \<le> 0xDFFF)" "g = utf8_enc3 cp" for cp
      using that by (intro I [of cp]) (simp_all add: utf8_enc_def utf8_scalar_def)
    show ?l if "cp \<le> 0x10FFFF" "0x10000 \<le> cp" "g = utf8_enc4 cp" for cp
      using that by (intro I [of cp]) (simp_all add: utf8_enc_def utf8_scalar_def)
  qed
qed

lemma split_range3:
  "(\<exists>cp<0x10000. \<not> (0xD800 \<le> cp \<and> cp \<le> 0xDFFF) \<and> P cp) \<longleftrightarrow>
   (\<exists>cp<0x10000. 0x800 \<le> cp \<and> \<not> (0xD800 \<le> cp \<and> cp \<le> 0xDFFF) \<and> P cp) \<or> (\<exists>cp<0x800. P (cp::nat))"
  (is "?l \<longleftrightarrow> ?a \<or> ?b")
proof
  assume ?l
  then obtain cp where "cp < 0x10000" "\<not> (0xD800 \<le> cp \<and> cp \<le> 0xDFFF)" "P cp" by blast
  then show "?a \<or> ?b" by (cases "cp < 0x800") (auto intro: exI [of _ cp])
next
  have I: "cp < 0x10000 \<Longrightarrow> \<not> (0xD800 \<le> cp \<and> cp \<le> 0xDFFF) \<Longrightarrow> P cp \<Longrightarrow> ?l" for cp by blast
  assume "?a \<or> ?b"
  then show ?l
  proof (elim disjE exE conjE)
    show ?l if "cp < 0x800" "P cp" for cp using that by (intro I [of cp]) simp_all
  qed (rule I)
qed

lemma split_range4:
  "(\<exists>cp\<le>0x10FFFF. P cp) \<longleftrightarrow> (\<exists>cp\<le>0x10FFFF. 0x10000 \<le> cp \<and> P cp) \<or> (\<exists>cp<0x10000. P (cp::nat))"
  (is "?l \<longleftrightarrow> ?a \<or> ?b")
proof
  assume ?l
  then obtain cp where "cp \<le> 0x10FFFF" "P cp" by blast
  then show "?a \<or> ?b" by (cases "cp < 0x10000") (auto intro: exI [of _ cp])
next
  have I: "cp \<le> 0x10FFFF \<Longrightarrow> P cp \<Longrightarrow> ?l" for cp by blast
  assume "?a \<or> ?b"
  then show ?l
  proof (elim disjE exE conjE)
    show ?l if "cp < 0x10000" "P cp" for cp using that by (intro I [of cp]) simp_all
  qed (rule I)
qed

lemma utf8_group_iff: "utf8_group g \<longleftrightarrow> (\<exists>cp. utf8_scalar cp \<and> g = utf8_enc cp) \<or> utf8_overlong g"
proof -
  have neq: "[c] \<noteq> utf8_enc2 cp" "[c] \<noteq> utf8_enc3 cp" "[c] \<noteq> utf8_enc4 cp"
    "[c, d] \<noteq> utf8_enc3 cp" "[c, d] \<noteq> utf8_enc4 cp" "[c, d, e] \<noteq> utf8_enc2 cp"
    "[c, d, e] \<noteq> utf8_enc4 cp" "[c, d, e, f] \<noteq> utf8_enc2 cp" "[c, d, e, f] \<noteq> utf8_enc3 cp"
    for c d e f :: u8 and cp
    by (simp_all add: utf8_enc2_def utf8_enc3_def utf8_enc4_def)
  show ?thesis
  proof (cases g rule: utf8_group.cases)
    case (1 c)
    show ?thesis unfolding 1 scalar_enc_by_length utf8_overlong_def group1_iff by (simp only: neq simp_thms)
  next
    case (2 c d)
    show ?thesis
      unfolding 2 scalar_enc_by_length utf8_overlong_def group2_iff
      by (simp only: neq simp_thms list.inject list.distinct)
  next
    case (3 c d e)
    show ?thesis
      unfolding 3 scalar_enc_by_length utf8_overlong_def group3_iff
      by (simp only: neq simp_thms list.inject list.distinct) (rule split_range3)
  next
    case (4 c d e f)
    show ?thesis
      unfolding 4 scalar_enc_by_length utf8_overlong_def group4_iff
      by (simp only: neq simp_thms list.inject list.distinct) (rule split_range4)
  qed (simp_all add: scalar_enc_by_length utf8_overlong_def utf8_enc2_def utf8_enc3_def utf8_enc4_def)
qed

section \<open>Conversions\<close>

lemma cstr_id: "0 \<notin> set s \<Longrightarrow> cstr s = s"
  by (auto simp: cstr_def takeWhile_eq_all_conv)

lemma cstr_no_zero: "0 \<notin> set (cstr s)"
  by (auto simp: cstr_def dest: set_takeWhileD)

text \<open>
  What the conversions of a locale promise: a converted string contains no zero character and
  converts back.
\<close>

locale charset =
  fixes wcs2mbs :: "wchars \<Rightarrow> bytes option" and mbs2wcs :: "bytes \<Rightarrow> wchars option"
  assumes no_zero: "0 \<notin> set w \<Longrightarrow> wcs2mbs w = Some s \<Longrightarrow> 0 \<notin> set s"
    and converts_back: "0 \<notin> set w \<Longrightarrow> wcs2mbs w = Some s \<Longrightarrow> mbs2wcs s = Some w"
begin

lemma wide_back:
  assumes "wide_to_utf8 wcs2mbs w = (s, Utf8_ok)"
  shows "utf8_to_wide mbs2wcs s = (cstr w, Utf8_ok)"
proof -
  have s: "wcs2mbs (cstr w) = Some s" using assms by (auto simp: wide_to_utf8_def split: option.splits)
  show ?thesis
    using no_zero [OF cstr_no_zero s] converts_back [OF cstr_no_zero s] by (simp add: utf8_to_wide_def cstr_id)
qed

end

text \<open>
  The identity on the Basic Latin characters is such a pair of conversions (the portable part of
  every locale).
\<close>

definition ascii_wcs2mbs :: "wchars \<Rightarrow> bytes option" where
  "ascii_wcs2mbs w = (if list_all (\<lambda>c. c < 0x80) w then Some (map ucast w) else None)"

definition ascii_mbs2wcs :: "bytes \<Rightarrow> wchars option" where
  "ascii_mbs2wcs s = (if list_all (\<lambda>c. c < 0x80) s then Some (map ucast s) else None)"

lemma ascii_char:
  assumes "(c::u32) < 0x80"
  shows "(ucast c :: u8) < 0x80" "ucast (ucast c :: u8) = c" "(ucast c :: u8) = 0 \<longleftrightarrow> c = 0"
proof -
  have c: "unat c < 128" using assms by (simp add: word_less_nat_alt)
  then have u: "unat (ucast c :: u8) = unat c" by (simp add: unsigned_ucast_eq take_bit_nat_eq_self)
  show "(ucast c :: u8) < 0x80" using c by (simp add: word_less_nat_alt u)
  show "ucast (ucast c :: u8) = c" by (simp add: word_unat_eq_iff unat_ucast_u8 u)
  show "(ucast c :: u8) = 0 \<longleftrightarrow> c = 0" by (simp add: word_unat_eq_iff u)
qed

interpretation ascii: charset ascii_wcs2mbs ascii_mbs2wcs
  by unfold_locales
    (auto simp: ascii_wcs2mbs_def ascii_mbs2wcs_def list_all_iff ascii_char map_idI split: if_splits)

section \<open>Properties\<close>

text \<open>
  C30. The validator accepts exactly the strings that split into groups, each of which is the UTF-8
  encoding of a Unicode scalar value or an overlong encoding in three or four bytes. In particular
  it accepts every correctly encoded text, rejects surrogates, truncated sequences, stray
  continuation bytes, two-byte overlong forms and code points above U+10FFFF, but it does accept a
  slash encoded in three bytes.
\<close>

theorem utf8_validator_characterised:
  "(utf8_is_valid s \<longleftrightarrow>
     (\<exists>gs. s = concat gs \<and> (\<forall>g\<in>set gs. (\<exists>cp. utf8_scalar cp \<and> g = utf8_enc cp) \<or> utf8_overlong g)))
   \<and> (list_all utf8_scalar cps \<longrightarrow> utf8_is_valid (concat (map utf8_enc cps)))
   \<and> utf8_is_valid [0xE0, 0x80, 0xAF] \<and> [0xE0, 0x80, 0xAF] = utf8_enc3 0x2F"
proof -
  have main: "utf8_is_valid s \<longleftrightarrow>
     (\<exists>gs. s = concat gs \<and> (\<forall>g\<in>set gs. (\<exists>cp. utf8_scalar cp \<and> g = utf8_enc cp) \<or> utf8_overlong g))" for s
    using utf8_valid_groups [of s 0] by (simp add: utf8_is_valid_def list_all_iff utf8_group_iff)
  have e: "[0xE0, 0x80, 0xAF] = utf8_enc3 0x2F" by (simp add: utf8_enc3_def)
  have "utf8_overlong [0xE0, 0x80, 0xAF]"
    unfolding utf8_overlong_def e by (rule disjI1, rule exI [of _ "0x2F"]) simp
  then have "utf8_is_valid [0xE0, 0x80, 0xAF]"
    unfolding main by (intro exI [of _ "[[0xE0, 0x80, 0xAF]]"]) simp
  moreover have "list_all utf8_scalar cps \<longrightarrow> utf8_is_valid (concat (map utf8_enc cps))"
    unfolding main by (intro impI exI [of _ "map utf8_enc cps"]) (fastforce simp: list_all_iff)
  ultimately show ?thesis using main e by blast
qed

theorem utf8_validator_characterised_witness: "utf8_is_valid (utf8_enc 0x20AC @ utf8_enc 0x1F600)"
  using utf8_validator_characterised [of "[]" "[0x20AC, 0x1F600]"] by (simp add: utf8_scalar_def)

text \<open>
  For conversions that invert each other, a wide string that is converted to bytes and back is
  unchanged up to its first zero character, through strings and through buffers; a buffer that
  cannot hold the text and its terminator, an empty string and a missing buffer are reported as
  errors, and a successful conversion writes the text and a terminator and keeps the rest of the
  buffer.
\<close>

theorem utf8_conversion_roundtrip:
  assumes "\<And>w s. 0 \<notin> set w \<Longrightarrow> wcs2mbs w = Some s \<Longrightarrow> 0 \<notin> set s \<and> mbs2wcs s = Some w"
    and "utf8_decode wcs2mbs w = (s, Utf8_ok)" "s \<noteq> []"
    and "utf8_decode_buf wcs2mbs (Some buf) (length buf) (Some w) = r"
  shows "utf8_encode mbs2wcs s = (cstr w, Utf8_ok)
       \<and> r = (if length s + 1 \<le> length buf
              then Inr (s @ 0 # drop (length s + 1) buf, length s + 1)
              else Inl (if buf = [] then Utf8_invalid_input else Utf8_buffer_overflow))
       \<and> utf8_decode wcs2mbs [] = ([], Utf8_invalid_input) \<and> utf8_decode_buf wcs2mbs None n (Some w) = Inl Utf8_invalid_input"
proof -
  have cs: "charset wcs2mbs mbs2wcs" by unfold_locales (use assms(1) in blast)+
  have s: "wide_to_utf8 wcs2mbs w = (s, Utf8_ok)" using assms(2) by (simp add: utf8_decode_def split: if_splits)
  have "utf8_encode mbs2wcs s = (cstr w, Utf8_ok)"
    using charset.wide_back [OF cs s] assms(3) by (simp add: utf8_encode_def)
  moreover have "(s @ drop (length s) buf)[length s := 0] = s @ 0 # drop (length s + 1) buf"
    if "length s + 1 \<le> length buf"
    using that by (simp add: list_update_append Cons_nth_drop_Suc [symmetric])
  ultimately show ?thesis
    using assms(4) s
    by (auto simp: utf8_decode_buf_def utf8_decode_def write_cstr_def Suc_le_eq)
qed

theorem utf8_conversion_roundtrip_witness:
  "utf8_encode ascii_mbs2wcs [0x68, 0x6A] = ([0x68, 0x6A], Utf8_ok)"
  using utf8_conversion_roundtrip [of ascii_wcs2mbs ascii_mbs2wcs "[0x68, 0x6A]" "[0x68, 0x6A]"]
    ascii.no_zero ascii.converts_back
  by (simp add: utf8_decode_def wide_to_utf8_def cstr_def ascii_wcs2mbs_def)

text \<open>
  The stream encoder converts block by block: a character that straddles a block boundary makes the
  whole conversion stop although the same bytes convert as a string.
\<close>

lemma utf8_encode_stream_splits_characters:
  assumes "0 \<notin> set inp" "mbs2wcs (take UTF8_BUF_SZ inp) = None" "mbs2wcs inp = Some w" "inp \<noteq> []"
  shows "utf8_encode_stream mbs2wcs True True inp = [] \<and> utf8_encode mbs2wcs inp = (w, Utf8_ok)"
proof -
  have "0 \<notin> set (take UTF8_BUF_SZ inp)" using assms(1) by (auto dest: in_set_takeD)
  then show ?thesis
    using assms by (simp add: utf8_encode_stream_def utf8_encode_blocks.simps [of _ inp] utf8_to_wide_def cstr_id utf8_encode_def)
qed

end
