(* ===== verification/Base64.thy ===== *)
theory Base64
  imports HjPrelude
begin

text \<open>
  \<open>src/hj/crypto/base64.hpp\<close>: Base64 on top of the OpenSSL BIO filter.

  The BIO calls are parameters. \<open>bio_write src n\<close> is the text that the base64 filter has produced
  after \<open>BIO_write\<close> of \<open>n\<close> bytes of \<open>src\<close> and \<open>BIO_flush\<close>; \<open>bio_read src max\<close> are the bytes one
  \<open>BIO_read\<close> of at most \<open>max\<close> bytes delivers when it decodes \<open>src\<close> (\<open>None\<close> for a negative result).
  The two flags say whether the two BIO objects could be allocated. Lengths are passed to OpenSSL
  after a cast to \<open>int\<close>.
\<close>

section \<open>Definitions\<close>

datatype base64_error =
    B64_ok | B64_invalid_input | B64_buffer_overflow | B64_encode_failed | B64_decode_failed | B64_file_open_failed
  | B64_file_read_failed | B64_file_write_failed

definition BASE64_BUF_SIZE :: nat where "BASE64_BUF_SIZE = 16384"

definition int_cast :: "nat \<Rightarrow> int" where
  "int_cast n = sint (word_of_nat n :: u32)"

definition encode_len_reserve :: "nat \<Rightarrow> nat" where
  "encode_len_reserve src_len = (src_len + 2) div 3 * 4"

definition decode_len_reserve :: "nat \<Rightarrow> nat" where
  "decode_len_reserve src_len = (src_len div 4) * 3"

text \<open>\<open>encode\<close> into a buffer: the buffer and its length afterwards, and the error code.\<close>

definition base64_encode_buf ::
    "(bytes \<Rightarrow> int \<Rightarrow> bytes) \<Rightarrow> bool \<Rightarrow> bool \<Rightarrow> bytes \<Rightarrow> nat \<Rightarrow> bytes \<Rightarrow> nat \<Rightarrow> (bytes \<times> nat \<times> base64_error) result" where
  "base64_encode_buf bio_write bio_ok b64_ok dst dst_len src src_len =
     (if src_len = 0 \<or> dst_len = 0 then Inr (dst, dst_len, B64_invalid_input)
      else if \<not> bio_ok then Inr (dst, dst_len, B64_encode_failed)
      else if \<not> b64_ok then Inr (dst, dst_len, B64_encode_failed)
      else let buffer = bio_write src (int_cast src_len) in
           if length buffer > dst_len then Inr (dst, dst_len, B64_buffer_overflow)
           else map_sum id (\<lambda>d. (d, length buffer, B64_ok)) (memcpy dst buffer (length buffer)))"

definition base64_encode ::
    "(bytes \<Rightarrow> int \<Rightarrow> bytes) \<Rightarrow> bool \<Rightarrow> bool \<Rightarrow> bytes \<Rightarrow> (bytes \<times> base64_error) result" where
  "base64_encode bio_write bio_ok b64_ok src =
     (let dst_len = encode_len_reserve (length src);
          dst = replicate dst_len 0
      in map_sum id (\<lambda>(d, n, ec). if ec \<noteq> B64_ok then ([], ec) else (take n d, B64_ok))
           (base64_encode_buf bio_write bio_ok b64_ok dst dst_len src (length src)))"

definition base64_decode_buf ::
    "(bytes \<Rightarrow> int \<Rightarrow> bytes option) \<Rightarrow> bool \<Rightarrow> bool \<Rightarrow> bytes \<Rightarrow> nat \<Rightarrow> bytes \<Rightarrow> nat \<Rightarrow> (bytes \<times> nat \<times> base64_error) result" where
  "base64_decode_buf bio_read bio_ok b64_ok dst dst_len src src_len =
     (if src_len mod 4 \<noteq> 0 then Inr (dst, dst_len, B64_invalid_input)
      else if \<not> bio_ok then Inr (dst, dst_len, B64_decode_failed)
      else if \<not> b64_ok then Inr (dst, dst_len, B64_decode_failed)
      else case bio_read (take src_len src) (int_cast dst_len) of
             None \<Rightarrow> Inr (dst, dst_len, B64_decode_failed)
           | Some out \<Rightarrow> map_sum id (\<lambda>d. (d, length out, B64_ok)) (memcpy dst out (length out)))"

definition base64_decode ::
    "(bytes \<Rightarrow> int \<Rightarrow> bytes option) \<Rightarrow> bool \<Rightarrow> bool \<Rightarrow> bytes \<Rightarrow> (bytes \<times> base64_error) result" where
  "base64_decode bio_read bio_ok b64_ok src =
     (let dst = replicate (decode_len_reserve (length src)) 0
      in map_sum id (\<lambda>(d, n, ec). if ec \<noteq> B64_ok then ([], ec) else (take n d, B64_ok))
           (base64_decode_buf bio_read bio_ok b64_ok dst (length dst) src (length src)))"

subsection \<open>Validation\<close>

definition is_b64_char :: "u8 \<Rightarrow> bool" where
  "is_b64_char c \<longleftrightarrow>
     (0x41 \<le> c \<and> c \<le> 0x5A) \<or> (0x61 \<le> c \<and> c \<le> 0x7A) \<or> (0x30 \<le> c \<and> c \<le> 0x39) \<or> c = 0x2B \<or> c = 0x2F"

text \<open>The loop: the characters from index \<open>i\<close> on, the total length and the padding seen so far.\<close>

primrec base64_valid_loop :: "bytes \<Rightarrow> nat \<Rightarrow> nat \<Rightarrow> nat \<Rightarrow> bool" where
  "base64_valid_loop [] i len pad = True"
| "base64_valid_loop (c # cs) i len pad =
     (if is_b64_char c then (if pad > 0 then False else base64_valid_loop cs (i + 1) len pad)
      else if c = 0x3D
      then (if pad + 1 > 2 then False
            else if i < len - 2 then False
            else base64_valid_loop cs (i + 1) len (pad + 1))
      else False)"

definition base64_is_valid_buf :: "bytes option \<Rightarrow> nat \<Rightarrow> bool" where
  "base64_is_valid_buf buf len =
     (case buf of
        None \<Rightarrow> False
      | Some bs \<Rightarrow> if len = 0 then False
                   else if len mod 4 \<noteq> 0 then False
                   else base64_valid_loop (take len bs) 0 len 0)"

definition base64_is_valid :: "bytes \<Rightarrow> bool" where
  "base64_is_valid str = base64_is_valid_buf (Some str) (length str)"

function base64_valid_blocks :: "bytes \<Rightarrow> nat \<Rightarrow> nat option" where
  "base64_valid_blocks rest total_len =
     (let buf = take BASE64_BUF_SIZE rest; n = length buf in
      if n = 0 then Some total_len
      else if \<not> base64_is_valid_buf (Some buf) n then None
      else base64_valid_blocks (drop BASE64_BUF_SIZE rest) (total_len + n))"
  by pat_completeness auto

termination
  by (relation "measure (\<lambda>(rest, _). length rest)") (auto simp: BASE64_BUF_SIZE_def)

declare base64_valid_blocks.simps [simp del]

definition base64_is_valid_stream :: "bool \<Rightarrow> bytes \<Rightarrow> bool" where
  "base64_is_valid_stream is_open content =
     (if \<not> is_open then False
      else case base64_valid_blocks content 0 of
             None \<Rightarrow> False
           | Some total_len \<Rightarrow> \<not> (total_len = 0 \<or> total_len mod 4 \<noteq> 0))"

definition base64_is_valid_file :: "(string \<rightharpoonup> bytes) \<Rightarrow> string \<Rightarrow> bool" where
  "base64_is_valid_file fs file_path =
     (case fs file_path of None \<Rightarrow> False | Some content \<Rightarrow> base64_is_valid_stream True content)"

section \<open>The reference encoding\<close>

definition b64_char :: "nat \<Rightarrow> u8" where
  "b64_char n =
     (if n < 26 then word_of_nat (0x41 + n) else if n < 52 then word_of_nat (0x61 + (n - 26))
      else if n < 62 then word_of_nat (0x30 + (n - 52)) else if n = 62 then 0x2B else 0x2F)"

fun b64 :: "bytes \<Rightarrow> bytes" where
  "b64 [] = []"
| "b64 [a] = [b64_char (unat a div 4), b64_char (unat a mod 4 * 16), 0x3D, 0x3D]"
| "b64 [a, b] = [b64_char (unat a div 4), b64_char (unat a mod 4 * 16 + unat b div 16),
                 b64_char (unat b mod 16 * 4), 0x3D]"
| "b64 (a # b # c # rest) =
     b64_char (unat a div 4) # b64_char (unat a mod 4 * 16 + unat b div 16)
     # b64_char (unat b mod 16 * 4 + unat c div 64) # b64_char (unat c mod 64) # b64 rest"

lemma length_b64: "length (b64 bs) = encode_len_reserve (length bs)"
proof (induction bs rule: b64.induct)
  case (4 a b c rest)
  have "(length rest + 3 + 2) div 3 = Suc ((length rest + 2) div 3)"
    using div_add_self2 [of 3 "length rest + 2"] by simp
  then show ?case using 4 by (simp add: encode_len_reserve_def)
qed (simp_all add: encode_len_reserve_def)

lemma is_b64_char_nat:
  "m < 256 \<Longrightarrow> is_b64_char (word_of_nat m) \<longleftrightarrow>
     (0x41 \<le> m \<and> m \<le> 0x5A) \<or> (0x61 \<le> m \<and> m \<le> 0x7A) \<or> (0x30 \<le> m \<and> m \<le> 0x39) \<or> m = 0x2B \<or> m = 0x2F"
  by (simp add: is_b64_char_def word_le_nat_alt word_unat_eq_iff unat_of_nat take_bit_nat_eq_self)

lemma is_b64_char_code: "is_b64_char (b64_char n)"
  using is_b64_char_nat [of "0x2B"] is_b64_char_nat [of "0x2F"]
  by (auto simp: b64_char_def is_b64_char_nat simp del: of_nat_add of_nat_diff)

section \<open>Validation\<close>

lemma pad_not_char: "\<not> is_b64_char 0x3D"
  by (simp add: is_b64_char_def word_le_nat_alt)

text \<open>The loop accepts characters of the alphabet followed by at most two padding signs at the end.\<close>

lemma valid_loop_padding:
  "pad > 0 \<Longrightarrow> i + length cs = len \<Longrightarrow> len - 2 \<le> i \<Longrightarrow>
   base64_valid_loop cs i len pad \<longleftrightarrow> cs = replicate (length cs) 0x3D \<and> length cs + pad \<le> max 2 pad"
proof (induction cs arbitrary: i pad)
  case (Cons c cs)
  show ?case
  proof (cases "c = 0x3D")
    case True
    then show ?thesis using Cons.IH [of "pad + 1" "i + 1"] Cons.prems 
      by (auto simp: pad_not_char simp flip: length_greater_0_conv)
  qed (use Cons.prems in auto)
qed simp

lemma valid_loop_iff:
  "i + length cs = len \<Longrightarrow>
   base64_valid_loop cs i len 0 \<longleftrightarrow>
   (\<exists>body k. cs = body @ replicate k 0x3D \<and> list_all is_b64_char body \<and> k \<le> 2)"
proof (induction cs arbitrary: i)
  case (Cons c cs)
  show ?case
  proof (cases "is_b64_char c")
    case True
    have "(\<exists>body k. c # cs = body @ replicate k 0x3D \<and> list_all is_b64_char body \<and> k \<le> 2) \<longleftrightarrow>
        (\<exists>body k. cs = body @ replicate k 0x3D \<and> list_all is_b64_char body \<and> k \<le> 2)" (is "?l \<longleftrightarrow> ?r")
    proof
      assume ?l
      then obtain body k where b: "c # cs = body @ replicate k 0x3D" "list_all is_b64_char body" "k \<le> 2" by blast
      then obtain body' where "body = c # body'"
        using True by (cases body) (auto simp: Cons_replicate_eq pad_not_char)
      then show ?r using b by auto
    next
      assume ?r
      then obtain body k where b: "cs = body @ replicate k 0x3D" "list_all is_b64_char body" "k \<le> 2" by blast
      then have "c # cs = (c # body) @ replicate k 0x3D" "list_all is_b64_char (c # body)" using True by auto
      then show ?l using b(3) by blast
    qed
    then show ?thesis using Cons.IH [of "i + 1"] Cons.prems True by simp
  next
    case False
    have "(\<exists>body k. c # cs = body @ replicate k 0x3D \<and> list_all is_b64_char body \<and> k \<le> 2) \<longleftrightarrow>
        (\<exists>k\<le>2. c # cs = replicate k 0x3D)" (is "?l \<longleftrightarrow> ?r")
    proof
      assume ?l
      then obtain body k where b: "c # cs = body @ replicate k 0x3D" "list_all is_b64_char body" "k \<le> 2" by blast
      then have "body = []" using False by (cases body) auto
      then show ?r using b by auto
    next
      assume ?r
      then obtain k where "k \<le> 2" "c # cs = [] @ replicate k 0x3D" by auto
      moreover have "list_all is_b64_char []" by simp
      ultimately show ?l by blast
    qed
    also have "?r \<longleftrightarrow> c = 0x3D \<and> cs = replicate (length cs) 0x3D \<and> Suc (length cs) \<le> 2"
    proof
      assume ?r
      then obtain k where k: "k \<le> 2" "c # cs = replicate k 0x3D" by blast
      then have "k = Suc (length cs)" by (metis length_Cons length_replicate)
      then show "c = 0x3D \<and> cs = replicate (length cs) 0x3D \<and> Suc (length cs) \<le> 2" using k by auto
    next
      assume a: "c = 0x3D \<and> cs = replicate (length cs) 0x3D \<and> Suc (length cs) \<le> 2"
      then have "c # cs = replicate (Suc (length cs)) 0x3D" by simp
      then show ?r using a by blast
    qed
    finally show ?thesis
      using False Cons.prems valid_loop_padding [of 1 "i + 1" cs len] by auto
  qed
qed simp

lemma base64_is_valid_iff:
  "base64_is_valid s \<longleftrightarrow> s \<noteq> [] \<and> 4 dvd length s
     \<and> (\<exists>body k. s = body @ replicate k 0x3D \<and> list_all is_b64_char body \<and> k \<le> 2)"
  using valid_loop_iff [of 0 s "length s"]
  by (auto simp: base64_is_valid_def base64_is_valid_buf_def mod_eq_0_iff_dvd)

lemma b64_valid: "bs \<noteq> [] \<Longrightarrow> base64_is_valid (b64 bs)"
proof -
  have "\<exists>body k. b64 bs = body @ replicate k 0x3D \<and> list_all is_b64_char body \<and> k \<le> 2" for bs
  proof (induction bs rule: b64.induct)
    case (2 a)
    show ?case by (intro exI [of _ "[b64_char (unat a div 4), b64_char (unat a mod 4 * 16)]"] exI [of _ 2])
        (simp add: is_b64_char_code numeral_2_eq_2)
  next
    case (3 a b)
    show ?case
      by (rule exI [of _ "[b64_char (unat a div 4), b64_char (unat a mod 4 * 16 + unat b div 16),
                 b64_char (unat b mod 16 * 4)]"], rule exI [of _ 1]) (simp add: is_b64_char_code)
  next
    case (4 a b c rest)
    then obtain body k where r: "b64 rest = body @ replicate k 0x3D" "list_all is_b64_char body" "k \<le> 2" by blast
    then show ?case
      by (intro exI [of _ "b64_char (unat a div 4) # b64_char (unat a mod 4 * 16 + unat b div 16)
     # b64_char (unat b mod 16 * 4 + unat c div 64) # b64_char (unat c mod 64) # body"] exI [of _ k])
        (simp add: is_b64_char_code)
  qed simp
  moreover assume "bs \<noteq> []"
  then have "b64 bs \<noteq> []" by (cases bs rule: b64.cases) simp_all
  ultimately show ?thesis
    using length_b64 [of bs] by (simp add: base64_is_valid_iff encode_len_reserve_def)
qed

lemma valid_blocks_append:
  assumes "length s = BASE64_BUF_SIZE" "base64_is_valid s"
  shows "base64_valid_blocks (s @ t) n = base64_valid_blocks t (n + length s)"
proof -
  have "s \<noteq> []" using assms(1) by (auto simp: BASE64_BUF_SIZE_def)
  then show ?thesis
    using assms by (simp add: base64_valid_blocks.simps [of "s @ t" n] Let_def base64_is_valid_def)
qed

lemma valid_blocks_small:
  assumes "0 < length s" "length s \<le> BASE64_BUF_SIZE"
  shows "base64_valid_blocks s n = (if base64_is_valid s then Some (n + length s) else None)"
  using assms by (simp add: base64_valid_blocks.simps [of s n] base64_valid_blocks.simps [of "[]"] Let_def
      base64_is_valid_def)

section \<open>Encoding and decoding\<close>

text \<open>
  What the code relies on of OpenSSL: the filter writes the Base64 text of the bytes it is given and
  reads them back in one call when the caller's buffer is large enough.
\<close>

locale base64_bio =
  fixes bio_write :: "bytes \<Rightarrow> int \<Rightarrow> bytes" and bio_read :: "bytes \<Rightarrow> int \<Rightarrow> bytes option"
  assumes bio_writes: "0 \<le> n \<Longrightarrow> n \<le> int (length src) \<Longrightarrow> bio_write src n = b64 (take (nat n) src)"
    and bio_reads: "int (length src) \<le> n \<Longrightarrow> bio_read (b64 src) n = Some src"
begin

lemma encode_ok:
  assumes "src \<noteq> []" "length src \<le> INT_MAX"
  shows "base64_encode bio_write True True src = Inr (b64 src, B64_ok)"
proof -
  have cast: "int_cast (length src) = int (length src)"
    using assms(2) by (simp add: int_cast_def INT_MAX_def signed_of_nat signed_take_bit_int_eq_self)
  have "0 < encode_len_reserve (length src)"
    using assms(1) by (simp add: encode_len_reserve_def) (simp add: neq_Nil_conv, fastforce)
  then show ?thesis
    using assms cast
    by (simp add: base64_encode_def base64_encode_buf_def Let_def bio_writes length_b64 memcpy_def)
qed

lemma decode_ok:
  assumes "src \<noteq> []" "length src \<le> INT_MAX div 4"
  shows "base64_decode bio_read True True (b64 src) = Inr (src, B64_ok)"
proof -
  define m where "m = (length src + 2) div 3"
  have len: "length (b64 src) = m * 4" by (simp add: length_b64 encode_len_reserve_def m_def)
  have "length src \<le> m * 3" by (simp add: m_def)
  moreover have "m * 3 \<le> INT_MAX" using assms(2) by (simp add: m_def INT_MAX_def)
  moreover from this have "int_cast (m * 3) = int (m * 3)"
    by (simp add: int_cast_def INT_MAX_def signed_of_nat signed_take_bit_int_eq_self del: of_nat_mult)
  ultimately show ?thesis
    using bio_reads [of src "int (m * 3)"]
    by (simp add: base64_decode_def base64_decode_buf_def Let_def len decode_len_reserve_def memcpy_def)
qed

end

text \<open>A reference implementation of the two calls, with the decoder of the standard.\<close>

definition b64_val :: "u8 \<Rightarrow> nat" where
  "b64_val c =
     (let n = unat c in
      if 0x41 \<le> n \<and> n \<le> 0x5A then n - 0x41 else if 0x61 \<le> n \<and> n \<le> 0x7A then n - 0x61 + 26
      else if 0x30 \<le> n \<and> n \<le> 0x39 then n - 0x30 + 52 else if n = 0x2B then 62 else 63)"

fun unb64 :: "bytes \<Rightarrow> bytes" where
  "unb64 (a # b # c # d # rest) =
     (let va = b64_val a; vb = b64_val b; vc = b64_val c; vd = b64_val d;
          x = word_of_nat (va * 4 + vb div 16); y = word_of_nat (vb mod 16 * 16 + vc div 4);
          z = word_of_nat (vc mod 4 * 64 + vd)
      in if c = 0x3D then [x] else if d = 0x3D then [x, y] else x # y # z # unb64 rest)"
| "unb64 _ = []"

lemma b64_val_char: "n < 64 \<Longrightarrow> b64_val (b64_char n) = n"
proof -
  have u: "m < 256 \<Longrightarrow> unat (word_of_nat m :: u8) = m" for m
    by (simp add: unat_of_nat take_bit_nat_eq_self)
  assume "n < 64"
  then consider "n < 26" | "26 \<le> n" "n < 52" | "52 \<le> n" "n < 62" | "n = 62" | "n = 63" by linarith
  then show ?thesis
    by cases (auto simp: b64_val_def b64_char_def u Let_def simp del: of_nat_add of_nat_diff)
qed

lemma b64_char_not_pad: "b64_char n \<noteq> 0x3D"
  using is_b64_char_code [of n] pad_not_char by metis

lemma byte_join:
  fixes a :: u8
  shows "word_of_nat (unat a div 4 * 4 + unat a mod 4) = a"
    and "word_of_nat (unat a div 16 * 16 + unat a mod 16) = a"
    and "word_of_nat (unat a div 64 * 64 + unat a mod 64) = a"
  by (simp_all only: div_mult_mod_eq) simp_all

lemma unb64_b64: "unb64 (b64 bs) = bs"
proof (induction bs rule: b64.induct)
  case (2 a)
  have "unat a div 4 < 64" "unat a mod 4 * 16 < 64" using unat_u8_less [of a] by simp_all
  then show ?case using byte_join(1) [of a] 
    by (simp add: b64_val_char Let_def del: of_nat_add of_nat_mult)
next
  case (3 a b)
  have v: "unat a div 4 < 64" "unat a mod 4 * 16 + unat b div 16 < 64" "unat b mod 16 * 4 < 64"
    using unat_u8_less [of a] unat_u8_less [of b] by linarith+
  have "(unat a mod 4 * 16 + unat b div 16) div 16 = unat a mod 4"
    "(unat a mod 4 * 16 + unat b div 16) mod 16 = unat b div 16"
    using unat_u8_less [of b] by simp_all
  then show ?case
    using byte_join(1) [of a] byte_join(2) [of b] v
    by (simp add: b64_val_char b64_char_not_pad Let_def del: of_nat_add of_nat_mult)
next
  case (4 a b c rest)
  have v: "unat a div 4 < 64" "unat a mod 4 * 16 + unat b div 16 < 64"
    "unat b mod 16 * 4 + unat c div 64 < 64" "unat c mod 64 < 64"
    using unat_u8_less [of a] unat_u8_less [of b] unat_u8_less [of c] by linarith+
  have "(unat a mod 4 * 16 + unat b div 16) div 16 = unat a mod 4"
    "(unat a mod 4 * 16 + unat b div 16) mod 16 = unat b div 16"
    "(unat b mod 16 * 4 + unat c div 64) div 4 = unat b mod 16"
    "(unat b mod 16 * 4 + unat c div 64) mod 4 = unat c div 64"
    using unat_u8_less [of b] unat_u8_less [of c] by simp_all
  then show ?case
    using byte_join(1) [of a] byte_join(2) [of b] byte_join(3) [of c] v 4
    by (simp add: b64_val_char b64_char_not_pad Let_def del: of_nat_add of_nat_mult)
qed simp

definition ref_bio_write :: "bytes \<Rightarrow> int \<Rightarrow> bytes" where
  "ref_bio_write src n = b64 (take (nat n) src)"

definition ref_bio_read :: "bytes \<Rightarrow> int \<Rightarrow> bytes option" where
  "ref_bio_read s n = Some (take (nat n) (unb64 s))"

interpretation ref_bio: base64_bio ref_bio_write ref_bio_read
  by unfold_locales (auto simp: ref_bio_write_def ref_bio_read_def unb64_b64)

section \<open>Properties\<close>

text \<open>
  With a filter that implements Base64, encoding and decoding strings are inverse: the reserved
  buffers are exactly large enough, encoding yields the Base64 text, the text is accepted by the
  validator, and decoding it yields the original bytes with no error.
\<close>

theorem base64_roundtrip:
  assumes "\<And>s n. 0 \<le> n \<Longrightarrow> n \<le> int (length s) \<Longrightarrow> bio_write s n = b64 (take (nat n) s)"
    and "\<And>s n. int (length s) \<le> n \<Longrightarrow> bio_read (b64 s) n = Some s"
    and "src \<noteq> []" "length src \<le> INT_MAX div 4"
  shows "\<exists>text. base64_encode bio_write True True src = Inr (text, B64_ok)
            \<and> base64_is_valid text \<and> length text = encode_len_reserve (length src)
            \<and> base64_decode bio_read True True text = Inr (src, B64_ok)"
proof -
  have bio: "base64_bio bio_write bio_read" by unfold_locales (use assms(1,2) in auto)
  have "length src \<le> INT_MAX" using assms(4) by simp
  then show ?thesis
    using base64_bio.encode_ok [OF bio assms(3)] base64_bio.decode_ok [OF bio assms(3,4)]
      b64_valid [OF assms(3)] length_b64 [of src] by blast
qed

theorem base64_roundtrip_witness:
  "\<exists>text. base64_encode ref_bio_write True True [104, 106] = Inr (text, B64_ok)
        \<and> base64_decode ref_bio_read True True text = Inr ([104, 106], B64_ok)"
proof -
  have "\<exists>text. base64_encode ref_bio_write True True [104, 106] = Inr (text, B64_ok)
      \<and> base64_is_valid text \<and> length text = encode_len_reserve (length [104, 106 :: u8])
      \<and> base64_decode ref_bio_read True True text = Inr ([104, 106], B64_ok)"
    by (rule base64_roundtrip) (simp_all add: ref_bio.bio_writes ref_bio.bio_reads INT_MAX_def)
  then show ?thesis by blast
qed

text \<open>
  Failures are reported with nothing written: empty input or no room, a missing BIO, a text
  longer than the destination, and an input whose length is no multiple of four.
\<close>

theorem base64_error_codes:
  assumes "base64_encode_buf bio_write bio_ok b64_ok dst dst_len src src_len = Inr (d, n, ec)"
    and "base64_decode_buf bio_read bio_ok b64_ok dst dst_len src src_len = Inr (d', n', ec')"
  shows "(ec \<noteq> B64_ok \<longrightarrow> d = dst \<and> n = dst_len) \<and> (ec' \<noteq> B64_ok \<longrightarrow> d' = dst \<and> n' = dst_len)
       \<and> (src_len = 0 \<or> dst_len = 0 \<longrightarrow> ec = B64_invalid_input)
       \<and> (ec = B64_ok \<longrightarrow> n \<le> dst_len \<and> take n d = bio_write src (int_cast src_len))
       \<and> (\<not> 4 dvd src_len \<longrightarrow> ec' = B64_invalid_input)
       \<and> (ec' = B64_ok \<longrightarrow> bio_read (take src_len src) (int_cast dst_len) = Some (take n' d'))"
  using assms
  by (auto simp: base64_encode_buf_def base64_decode_buf_def memcpy_def Let_def mod_eq_0_iff_dvd
      split: if_splits option.splits)

theorem base64_error_codes_witness:
  "base64_encode_buf ref_bio_write True True [0, 0] 2 [104] 1 = Inr ([0, 0], 2, B64_buffer_overflow)"
proof -
  obtain d n ec where e: "base64_encode_buf ref_bio_write True True [0, 0] 2 [104] 1 = Inr (d, n, ec)"
    by (simp add: base64_encode_buf_def ref_bio_write_def int_cast_def)
  have "base64_decode_buf ref_bio_read True True [0, 0] 2 [104] 1 = Inr ([0, 0], 2, B64_invalid_input)"
    by (simp add: base64_decode_buf_def)
  from base64_error_codes [OF e this] show ?thesis
    by (simp add: base64_encode_buf_def ref_bio_write_def int_cast_def)
qed

text \<open>
  The validator for strings accepts exactly the non-empty texts of a length divisible by four
  that consist of alphabet characters and at most two padding signs at the end. The validator for
  files looks at blocks of 16384 characters on their own and so accepts a file with padding at the
  end of a block in the middle, which the validator for strings refuses.
\<close>

theorem base64_validators:
  assumes "length s = BASE64_BUF_SIZE" "base64_is_valid s" "last s = 0x3D"
    and "base64_is_valid t" "length t \<le> BASE64_BUF_SIZE"
  shows "base64_is_valid_file [p \<mapsto> s @ t] p \<and> \<not> base64_is_valid (s @ t)
       \<and> (base64_is_valid u \<longleftrightarrow> u \<noteq> [] \<and> 4 dvd length u
           \<and> (\<exists>body k. u = body @ replicate k 0x3D \<and> list_all is_b64_char body \<and> k \<le> 2))"
proof -
  have t: "t \<noteq> []" "4 dvd length t" using assms(4) by (auto simp: base64_is_valid_iff)
  have "base64_valid_blocks (s @ t) 0 = Some (length s + length t)"
    using valid_blocks_append [OF assms(1,2), of t 0] valid_blocks_small [of t "length s"] t(1) assms(4,5) by simp
  moreover have "4 dvd length s" "s \<noteq> []" using assms(2) by (auto simp: base64_is_valid_iff)
  ultimately have "base64_is_valid_file [p \<mapsto> s @ t] p"
    using t by (simp add: base64_is_valid_file_def base64_is_valid_stream_def mod_eq_0_iff_dvd)
  moreover have "\<not> base64_is_valid (s @ t)"
  proof
    assume "base64_is_valid (s @ t)"
    then obtain body k where b: "s @ t = body @ replicate k 0x3D" "list_all is_b64_char body" "k \<le> 2"
      by (auto simp: base64_is_valid_iff)
    have "length body + k = length s + length t" using arg_cong [OF b(1), of length] by simp
    moreover have "4 \<le> length t" using t by (metis dvd_imp_le length_greater_0_conv)
    ultimately have "length s - 1 < length body" using b(3) \<open>s \<noteq> []\<close> by (cases s) auto
    then have "(s @ t) ! (length s - 1) = body ! (length s - 1)" unfolding b(1) by (simp add: nth_append)
    moreover have "(s @ t) ! (length s - 1) = 0x3D"
      using assms(3) \<open>s \<noteq> []\<close> by (simp add: nth_append last_conv_nth)
    ultimately show False
      using b(2) \<open>length s - 1 < length body\<close> pad_not_char by (metis list_all_length)
  qed
  ultimately show ?thesis by (simp add: base64_is_valid_iff)
qed

theorem base64_validators_witness:
  "base64_is_valid_file [''p'' \<mapsto> (replicate 16383 0x41 @ [0x3D]) @ [0x41, 0x41, 0x41, 0x41]] ''p''"
proof -
  have a: "is_b64_char 0x41" by (simp add: is_b64_char_def)
  have 1: "base64_is_valid (replicate 16383 0x41 @ [0x3D])"
    unfolding base64_is_valid_iff
    by (intro conjI exI [of _ "replicate 16383 0x41"] exI [of _ 1])
      (simp_all add: list_all_iff a)
  have 2: "base64_is_valid [0x41, 0x41, 0x41, 0x41]"
    unfolding base64_is_valid_iff
    by (intro conjI exI [of _ "[0x41, 0x41, 0x41, 0x41]"] exI [of _ 0])
      (simp_all add: a numeral_eq_Suc)
  show ?thesis
    using base64_validators [OF _ 1 _ 2] by (simp add: BASE64_BUF_SIZE_def)
qed

end
