(* ===== verification/StringUtil.thy ===== *)
theory StringUtil
  imports HjPrelude "HOL-Library.Sublist"
begin

text \<open>
  \<open>src/hj/util/string_util.hpp\<close>: the portable \<open>strncpy_s\<close>, the cache of compiled regular expressions
  and the string functions.

  A string (view) is a list of characters of any type \<open>'c\<close>. The character functions \<open>std::tolower\<close>
  and \<open>std::toupper\<close> depend on the locale and are parameters, as are the compilation of a regular
  expression (\<open>None\<close> when \<open>std::regex\<close> throws) and the regular expression operations. The cache is
  locked for the whole of \<open>get_regex\<close>, so one call is one step.
\<close>

section \<open>Definitions\<close>

subsection \<open>strncpy\_s\<close>

definition EINVAL :: int where "EINVAL = 22"

definition strncpy_len :: "nat \<Rightarrow> nat \<Rightarrow> nat \<Rightarrow> nat" where
  "strncpy_len destsz count src_len =
     (let max_copy = (if destsz > 0 then destsz - 1 else 0);
          to_copy = (if count < src_len then count else src_len)
      in if to_copy > max_copy then max_copy else to_copy)"

text \<open>\<open>src\<close> is the array up to its terminator; the destination array may be larger than \<open>destsz\<close>.\<close>

definition strncpy_s :: "bytes option \<Rightarrow> nat \<Rightarrow> bytes option \<Rightarrow> nat \<Rightarrow> (int \<times> bytes option) result" where
  "strncpy_s dest destsz src count =
     (case (dest, src) of
        (Some d, Some s) \<Rightarrow>
          if destsz = 0 then Inr (EINVAL, dest)
          else let to_copy = strncpy_len destsz count (length s)
               in case (if to_copy > 0 then memcpy d s to_copy else Inr d) of
                    Inl err \<Rightarrow> Inl err
                  | Inr d1 \<Rightarrow> if to_copy < length d1 then Inr (0, Some (d1[to_copy := 0]))
                              else Inl Out_of_bounds
      | _ \<Rightarrow> Inr (EINVAL, dest))"

subsection \<open>The cache of regular expressions\<close>

definition MAX_CACHE_SIZE :: nat where "MAX_CACHE_SIZE = 32"

record 'r cache_entry =
  pattern :: string
  compiled :: 'r
  access_count :: nat

text \<open>\<open>std::min_element\<close>: the index of the first entry with the least count.\<close>

primrec min_index :: "nat \<Rightarrow> nat \<Rightarrow> nat \<Rightarrow> 'r cache_entry list \<Rightarrow> nat" where
  "min_index i best best_count [] = best"
| "min_index i best best_count (e # es) =
     (if access_count e < best_count then min_index (i + 1) i (access_count e) es
      else min_index (i + 1) best best_count es)"

definition evict :: "'r cache_entry list \<Rightarrow> 'r cache_entry list" where
  "evict cache =
     (case cache of [] \<Rightarrow> []
      | e # es \<Rightarrow> let k = min_index 1 0 (access_count e) es in take k cache @ drop (k + 1) cache)"

primrec bump :: "string \<Rightarrow> 'r cache_entry list \<Rightarrow> ('r \<times> 'r cache_entry list) option" where
  "bump pat [] = None"
| "bump pat (e # es) =
     (if pattern e = pat then Some (compiled e, e\<lparr>access_count := access_count e + 1\<rparr> # es)
      else map_option (\<lambda>(r, es'). (r, e # es')) (bump pat es))"

text \<open>The result is the expression, or \<open>None\<close> when the compilation throws; and the cache afterwards.\<close>

definition get_regex ::
    "(string \<Rightarrow> 'r option) \<Rightarrow> 'r cache_entry list \<Rightarrow> string \<Rightarrow> 'r option \<times> 'r cache_entry list" where
  "get_regex compile cache pat =
     (case bump pat cache of
        Some (r, cache') \<Rightarrow> (Some r, cache')
      | None \<Rightarrow>
          let cache1 = (if length cache \<ge> MAX_CACHE_SIZE then evict cache else cache) in
          case compile pat of
            None \<Rightarrow> (None, cache1)
          | Some r \<Rightarrow> (Some r, cache1 @ [\<lparr>pattern = pat, compiled = r, access_count = 1\<rparr>]))"

definition cache_clear :: "'r cache_entry list \<Rightarrow> 'r cache_entry list" where
  "cache_clear cache = []"

subsection \<open>Searching\<close>

text \<open>\<open>std::string_view::find\<close>: the first position from \<open>pos\<close> on where \<open>sub\<close> occurs.\<close>

definition str_find :: "'c list \<Rightarrow> 'c list \<Rightarrow> nat \<Rightarrow> nat option" where
  "str_find s sub pos = List.find (\<lambda>i. take (length sub) (drop i s) = sub) [pos..<Suc (length s) - length sub]"

definition str_contains :: "'c list \<Rightarrow> 'c list \<Rightarrow> bool" where
  "str_contains src sub \<longleftrightarrow> str_find src sub 0 \<noteq> None"

definition starts_with :: "'c list \<Rightarrow> 'c list \<Rightarrow> bool" where
  "starts_with src pre \<longleftrightarrow> length src \<ge> length pre \<and> take (length pre) src = pre"

definition ends_with :: "'c list \<Rightarrow> 'c list \<Rightarrow> bool" where
  "ends_with src suf \<longleftrightarrow> length src \<ge> length suf \<and> drop (length src - length suf) src = suf"

lemma str_find_Some:
  assumes "str_find s sub pos = Some i"
  shows "pos \<le> i" "i + length sub \<le> length s" "take (length sub) (drop i s) = sub"
    and "\<And>j. pos \<le> j \<Longrightarrow> j < i \<Longrightarrow> take (length sub) (drop j s) \<noteq> sub"
proof -
  obtain k where k: "k < length [pos..<Suc (length s) - length sub]"
    "i = [pos..<Suc (length s) - length sub] ! k" "take (length sub) (drop i s) = sub"
    "\<forall>j<k. take (length sub) (drop ([pos..<Suc (length s) - length sub] ! j) s) \<noteq> sub"
    using assms by (auto simp: str_find_def find_Some_iff)
  then have i: "i = pos + k" "pos + k < Suc (length s) - length sub" by auto
  show "pos \<le> i" "i + length sub \<le> length s" "take (length sub) (drop i s) = sub" using i k(3) by auto
  show "take (length sub) (drop j s) \<noteq> sub" if "pos \<le> j" "j < i" for j
  proof -
    have "j - pos < k" "[pos..<Suc (length s) - length sub] ! (j - pos) = j" using that i by auto
    then show ?thesis using k(4) by fastforce
  qed
qed

lemma str_find_progress:
  assumes "str_find s sub pos = Some i" "sub \<noteq> []"
  shows "Suc (length s) - (i + length sub) < Suc (length s) - pos" "i + length sub - pos > 0"
proof -
  have "0 < length sub" using assms(2) by simp
  then show "Suc (length s) - (i + length sub) < Suc (length s) - pos" "i + length sub - pos > 0"
    using str_find_Some(1,2) [OF assms(1)] by linarith+
qed

function split_loop :: "'c list \<Rightarrow> 'c list \<Rightarrow> nat \<Rightarrow> 'c list list" where
  "split_loop str delimiter start =
     (if delimiter = [] then []
      else case str_find str delimiter start of
        None \<Rightarrow> if start < length str then [drop start str] else []
      | Some found \<Rightarrow>
          (if found > start then [take (found - start) (drop start str)] else [])
          @ split_loop str delimiter (found + length delimiter))"
  by pat_completeness auto

termination
  by (relation "measure (\<lambda>(s, d, i). Suc (length s) - i)") (auto dest: str_find_progress)

declare split_loop.simps [simp del]

definition str_split :: "'c list \<Rightarrow> 'c list \<Rightarrow> 'c list list" where
  "str_split str delimiter =
     (if str = [] \<or> delimiter = [] then [str] else split_loop str delimiter 0)"

subsection \<open>Replacing\<close>

function replace_loop :: "'c list \<Rightarrow> 'c list \<Rightarrow> 'c list \<Rightarrow> nat \<Rightarrow> 'c list" where
  "replace_loop str from to pos =
     (if from = [] then str
      else case str_find str from pos of
        None \<Rightarrow> str
      | Some p \<Rightarrow> replace_loop (take p str @ to @ drop (p + length from) str) from to (p + length to))"
  by pat_completeness auto

termination
proof (relation "measure (\<lambda>(s, f, t, p). Suc (length s) - p)")
  fix str from' to :: "'c list" and pos p
  assume "from' \<noteq> []" "str_find str from' pos = Some p"
  then show "((take p str @ to @ drop (p + length from') str, from', to, p + length to), (str, from', to, pos))
        \<in> measure (\<lambda>(s, f, t, p). Suc (length s) - p)"
    using str_find_progress [of str from' pos p] str_find_Some(2) [of str from' pos p] by auto
qed simp

declare replace_loop.simps [simp del]

definition replace_all :: "'c list \<Rightarrow> 'c list \<Rightarrow> 'c list \<Rightarrow> 'c list" where
  "replace_all str from to = (if from = [] then str else replace_loop str from to 0)"

definition replace_all_inplace :: "'c list \<Rightarrow> 'c list \<Rightarrow> 'c list \<Rightarrow> 'c list" where
  "replace_all_inplace str from to = (if from = [] then str else replace_loop str from to 0)"

subsection \<open>Regular expressions\<close>

definition regex_search_first ::
    "(string \<Rightarrow> 'r option) \<Rightarrow> ('r \<Rightarrow> string \<Rightarrow> string option) \<Rightarrow> 'r cache_entry list \<Rightarrow> string \<Rightarrow> string
     \<Rightarrow> string option \<times> 'r cache_entry list" where
  "regex_search_first compile search_first cache src pat =
     (case get_regex compile cache pat of
        (Some r, cache') \<Rightarrow> (search_first r src, cache')
      | (None, cache') \<Rightarrow> (None, cache'))"

definition regex_search_all ::
    "(string \<Rightarrow> 'r option) \<Rightarrow> ('r \<Rightarrow> string \<Rightarrow> string list) \<Rightarrow> 'r cache_entry list \<Rightarrow> string \<Rightarrow> string
     \<Rightarrow> string list \<times> 'r cache_entry list" where
  "regex_search_all compile search_all cache src pat =
     (case get_regex compile cache pat of
        (Some r, cache') \<Rightarrow> (search_all r src, cache')
      | (None, cache') \<Rightarrow> ([], cache'))"

definition regex_split ::
    "(string \<Rightarrow> 'r option) \<Rightarrow> ('r \<Rightarrow> string \<Rightarrow> string list) \<Rightarrow> 'r cache_entry list \<Rightarrow> string \<Rightarrow> string
     \<Rightarrow> string list \<times> 'r cache_entry list" where
  "regex_split compile tokens cache str pat =
     (case get_regex compile cache pat of
        (Some r, cache') \<Rightarrow> (tokens r str, cache')
      | (None, cache') \<Rightarrow> ([str], cache'))"

definition regex_replace ::
    "(string \<Rightarrow> 'r option) \<Rightarrow> ('r \<Rightarrow> string \<Rightarrow> string \<Rightarrow> string) \<Rightarrow> 'r cache_entry list
     \<Rightarrow> string \<Rightarrow> string \<Rightarrow> string \<Rightarrow> string \<times> 'r cache_entry list" where
  "regex_replace compile subst cache str pat replacement =
     (case get_regex compile cache pat of
        (Some r, cache') \<Rightarrow> (subst r str replacement, cache')
      | (None, cache') \<Rightarrow> (str, cache'))"

text \<open>\<open>search\<close> and \<open>replace\<close>: the latter uses the literal routine when \<open>from\<close> has no special character.\<close>

definition str_search where
  "str_search compile search_first cache src pat =
     (case regex_search_first compile search_first cache src pat of
        (result, cache') \<Rightarrow> (case result of Some r \<Rightarrow> r | None \<Rightarrow> [], cache'))"

definition regex_specials :: string where
  "regex_specials = ''^$.*+?{}[]|()'' @ [CHR 0x5C]"

definition str_replace where
  "str_replace compile subst cache str from to =
     (if \<not> (\<exists>c\<in>set from. c \<in> set regex_specials) then (replace_all_inplace str from to, cache)
      else regex_replace compile subst cache str from to)"

subsection \<open>Comparison, trimming and case\<close>

text \<open>\<open>equal\<close> on C strings: the pointers are compared first, so each has an address.\<close>

definition str_equal :: "(nat \<times> 'c list) option \<Rightarrow> (nat \<times> 'c list) option \<Rightarrow> bool" where
  "str_equal a b =
     (if map_option fst a = map_option fst b then True
      else case (a, b) of (Some (_, s), Some (_, t)) \<Rightarrow> s = t | _ \<Rightarrow> False)"

definition iequal :: "('c \<Rightarrow> 'd) \<Rightarrow> 'c list \<Rightarrow> 'c list \<Rightarrow> bool" where
  "iequal tolower a b = list_all2 (\<lambda>x y. tolower x = tolower y) a b"

definition find_first_not_of :: "'c list \<Rightarrow> 'c list \<Rightarrow> nat option" where
  "find_first_not_of s target = List.find (\<lambda>i. s ! i \<notin> set target) [0..<length s]"

definition find_last_not_of :: "'c list \<Rightarrow> 'c list \<Rightarrow> nat option" where
  "find_last_not_of s target = List.find (\<lambda>i. s ! i \<notin> set target) (rev [0..<length s])"

definition trim_left :: "'c list \<Rightarrow> 'c list \<Rightarrow> 'c list" where
  "trim_left str target =
     (case find_first_not_of str target of None \<Rightarrow> [] | Some i \<Rightarrow> drop i str)"

definition trim_right :: "'c list \<Rightarrow> 'c list \<Rightarrow> 'c list" where
  "trim_right str target =
     (case find_last_not_of str target of None \<Rightarrow> [] | Some i \<Rightarrow> take (i + 1) str)"

definition trim :: "'c list \<Rightarrow> 'c list \<Rightarrow> 'c list" where
  "trim str target = trim_left (trim_right str target) target"

text \<open>\<open>npos + 1\<close> is 0, and \<open>erase(0, npos)\<close> erases everything.\<close>

definition trim_inplace :: "'c list \<Rightarrow> 'c list \<Rightarrow> 'c list" where
  "trim_inplace str target =
     (let s1 = take (case find_last_not_of str target of None \<Rightarrow> 0 | Some i \<Rightarrow> i + 1) str
      in case find_first_not_of s1 target of None \<Rightarrow> [] | Some i \<Rightarrow> drop i s1)"

definition to_lower :: "('c \<Rightarrow> 'c) \<Rightarrow> 'c list \<Rightarrow> 'c list" where
  "to_lower tolower str = map tolower str"

definition to_upper :: "('c \<Rightarrow> 'c) \<Rightarrow> 'c list \<Rightarrow> 'c list" where
  "to_upper toupper str = map toupper str"

section \<open>Finding\<close>

lemma str_find_None:
  "str_find s sub pos = None \<longleftrightarrow> (\<forall>i. pos \<le> i \<and> i + length sub \<le> length s \<longrightarrow> take (length sub) (drop i s) \<noteq> sub)"
  by (auto simp: str_find_def find_None_iff less_diff_conv)

lemma str_find_SomeI:
  assumes "pos \<le> i" "i + length sub \<le> length s" "take (length sub) (drop i s) = sub"
    and "\<And>j. pos \<le> j \<Longrightarrow> j < i \<Longrightarrow> take (length sub) (drop j s) \<noteq> sub"
  shows "str_find s sub pos = Some i"
proof (cases "str_find s sub pos")
  case None
  then show ?thesis using assms(1-3) by (auto simp: str_find_None)
next
  case (Some k)
  note k = str_find_Some [OF Some]
  have "\<not> k < i" using assms(4) [of k] k(1,3) by blast
  moreover have "\<not> i < k" using k(4) [of i] assms(1,3) by blast
  ultimately show ?thesis using Some by simp
qed

lemma str_find_shift: "str_find (pre @ s) sub (length pre) = map_option (\<lambda>i. length pre + i) (str_find s sub 0)"
proof (cases "str_find s sub 0")
  case None
  have "str_find (pre @ s) sub (length pre) = None"
    unfolding str_find_None
  proof (intro allI impI)
    fix i assume i: "length pre \<le> i \<and> i + length sub \<le> length (pre @ s)"
    then obtain k where "i = length pre + k" using le_Suc_ex by blast
    then show "take (length sub) (drop i (pre @ s)) \<noteq> sub" using None i by (simp add: str_find_None)
  qed
  then show ?thesis using None by simp
next
  case (Some i)
  note i = str_find_Some [OF Some]
  have "str_find (pre @ s) sub (length pre) = Some (length pre + i)"
  proof (rule str_find_SomeI)
    fix j assume "length pre \<le> j" "j < length pre + i"
    then obtain k where "j = length pre + k" "k < i" using le_Suc_ex by fastforce
    then show "take (length sub) (drop j (pre @ s)) \<noteq> sub" using i(4) [of k] by simp
  qed (use i in simp_all)
  then show ?thesis using Some by simp
qed

lemma str_contains_iff: "str_contains s sub \<longleftrightarrow> sublist sub s"
proof
  assume "str_contains s sub"
  then obtain i where i: "str_find s sub 0 = Some i" by (auto simp: str_contains_def)
  have "s = take i s @ sub @ drop (length sub) (drop i s)"
    using str_find_Some(3) [OF i] by (metis append_take_drop_id)
  then show "sublist sub s" unfolding sublist_def by blast
next
  assume "sublist sub s"
  then obtain a b where "s = a @ sub @ b" by (auto simp: sublist_def)
  then have "length a + length sub \<le> length s \<and> take (length sub) (drop (length a) s) = sub" by simp
  then show "str_contains s sub" unfolding str_contains_def by (auto simp: str_find_None)
qed

section \<open>Cutting at the delimiter\<close>

text \<open>
  The reference: a string is cut at the leftmost occurrences of the delimiter, and put together
  again with a separator.
\<close>

function cut_at :: "'c list \<Rightarrow> 'c list \<Rightarrow> 'c list list" where
  "cut_at d s =
     (if d = [] then [s]
      else case str_find s d 0 of
             None \<Rightarrow> [s]
           | Some i \<Rightarrow> take i s # cut_at d (drop (i + length d) s))"
  by pat_completeness auto

termination
proof (relation "measure (\<lambda>(d, s). length s)")
  fix d s :: "'c list" and i
  assume a: "d \<noteq> []" "str_find s d 0 = Some i"
  then have "0 < length d" by simp
  then have "length s - (i + length d) < length s" using str_find_Some(2) [OF a(2)] by linarith
  then show "((d, drop (i + length d) s), d, s) \<in> measure (\<lambda>(d, s). length s)" by simp
qed simp

declare cut_at.simps [simp del]

fun join :: "'c list \<Rightarrow> 'c list list \<Rightarrow> 'c list" where
  "join sep [] = []"
| "join sep [f] = f"
| "join sep (f # fs) = f @ sep @ join sep fs"

lemma cut_not_Nil: "cut_at d s \<noteq> []"
  by (subst cut_at.simps) (auto split: option.splits)

lemma join_Cons: "fs \<noteq> [] \<Longrightarrow> join sep (f # fs) = f @ sep @ join sep fs"
  by (cases fs) simp_all

lemma join_cut: "join d (cut_at d s) = s"
proof (induction d s rule: cut_at.induct)
  case (1 d s)
  show ?case
  proof (cases "str_find s d 0")
    case (Some i)
    have "s = take i s @ d @ drop (i + length d) s"
      using str_find_Some(3) [OF Some] by (metis append_take_drop_id drop_drop add.commute)
    then show ?thesis
      using 1 Some by (cases "d = []") (simp_all add: cut_at.simps [of _ s] join_Cons cut_not_Nil)
  qed (simp add: cut_at.simps [of d s])
qed

lemma cut_free: "d \<noteq> [] \<Longrightarrow> f \<in> set (cut_at d s) \<Longrightarrow> \<not> sublist d f"
proof (induction d s rule: cut_at.induct)
  case (1 d s)
  show ?case
  proof (cases "str_find s d 0")
    case None
    then have "f = s" using 1 by (simp add: cut_at.simps [of d s])
    then show ?thesis using None by (simp flip: str_contains_iff add: str_contains_def)
  next
    case (Some i)
    note i = str_find_Some [OF Some]
    have "\<not> sublist d (take i s)"
    proof
      assume "sublist d (take i s)"
      then obtain a b where ab: "take i s = a @ d @ b" by (auto simp: sublist_def)
      have "length (take i s) = length a + length d + length b" unfolding ab by simp
      then have "length a + length d \<le> i" by simp
      moreover have "0 < length d" using 1(2) by simp
      ultimately have "length a < i" by linarith
      moreover have "take (length d) (drop (length a) s) = d"
      proof -
        have "take (length d) (drop (length a) (take i s @ drop i s)) = d" unfolding ab by simp
        then show ?thesis by simp
      qed
      ultimately show False using i(4) by blast
    qed
    then show ?thesis using 1 Some by (auto simp: cut_at.simps [of d s])
  qed
qed

lemma split_loop_cut:
  "d \<noteq> [] \<Longrightarrow> start \<le> length s \<Longrightarrow> split_loop s d start = filter (\<lambda>f. f \<noteq> []) (cut_at d (drop start s))"
proof (induction s d start rule: split_loop.induct)
  case (1 s d start)
  have shift: "str_find s d start = map_option (\<lambda>i. start + i) (str_find (drop start s) d 0)"
    using str_find_shift [of "take start s" "drop start s" d] 1(3) by simp
  show ?case
  proof (cases "str_find (drop start s) d 0")
    case None
    then show ?thesis
      using 1 shift by (simp add: split_loop.simps [of s] cut_at.simps [of d "drop start s"])
  next
    case (Some i)
    note i = str_find_Some [OF Some]
    have "start + i + length d \<le> length s" using i(2) 1(3) by simp
    with 1 Some shift have "split_loop s d (start + i + length d) =
        filter (\<lambda>f. f \<noteq> []) (cut_at d (drop (start + i + length d) s))" by simp
    moreover have "take i (drop start s) = [] \<longleftrightarrow> i = 0" using i(2) 1(2) by auto
    ultimately show ?thesis
      using 1(2) Some shift
      by (simp add: split_loop.simps [of s d start] cut_at.simps [of d "drop start s"] add.commute add.left_commute)
  qed
qed

lemma replace_loop_cut:
  "f \<noteq> [] \<Longrightarrow> replace_loop (pre @ s) f t (length pre) = pre @ join t (cut_at f s)"
proof (induction f s arbitrary: pre rule: cut_at.induct)
  case (1 f s)
  show ?case
  proof (cases "str_find s f 0")
    case None
    then show ?thesis
      using 1(2) str_find_shift [of pre s f] by (simp add: replace_loop.simps [of "pre @ s"] cut_at.simps [of f s])
  next
    case (Some i)
    have "replace_loop ((pre @ take i s @ t) @ drop (i + length f) s) f t (length (pre @ take i s @ t))
        = (pre @ take i s @ t) @ join t (cut_at f (drop (i + length f) s))"
      by (rule 1(1)) (use 1(2) Some in auto)
    then show ?thesis
      using 1(2) Some str_find_shift [of pre s f] str_find_Some(2) [OF Some]
      by (simp add: replace_loop.simps [of "pre @ s"] cut_at.simps [of f s] join_Cons cut_not_Nil add.assoc)
  qed
qed

section \<open>The cache\<close>

lemma min_index_least:
  assumes "i = length pre" "best < i" "best_count = access_count (pre ! best)"
    and "\<forall>e\<in>set pre. best_count \<le> access_count e"
  shows "min_index i best best_count es < length (pre @ es)
       \<and> (\<forall>e\<in>set (pre @ es). access_count ((pre @ es) ! min_index i best best_count es) \<le> access_count e)"
  using assms
proof (induction es arbitrary: pre i best best_count)
  case Nil
  then show ?case by simp
next
  case (Cons e es)
  show ?case
  proof (cases "access_count e < best_count")
    case True
    then have "\<forall>x\<in>set (pre @ [e]). access_count e \<le> access_count x" using Cons.prems(4) by fastforce
    then show ?thesis using Cons.IH [of "i + 1" "pre @ [e]" i "access_count e"] Cons.prems True by simp
  next
    case False
    then show ?thesis
      using Cons.IH [of "i + 1" "pre @ [e]" best best_count] Cons.prems by (simp add: nth_append)
  qed
qed

lemma evict_one:
  assumes "cache \<noteq> []"
  shows "\<exists>k<length cache. evict cache = take k cache @ drop (k + 1) cache
           \<and> (\<forall>e\<in>set cache. access_count (cache ! k) \<le> access_count e)"
proof -
  obtain e es where c: "cache = e # es" using assms by (cases cache) auto
  show ?thesis
    using min_index_least [of 1 "[e]" 0 "access_count e" es] by (auto simp: evict_def c Let_def)
qed

lemma bump_None: "bump pat cache = None \<longleftrightarrow> pat \<notin> pattern ` set cache"
  by (induction cache) auto

lemma bump_Some:
  "bump pat cache = Some (r, cache') \<Longrightarrow>
   map pattern cache' = map pattern cache \<and> map compiled cache' = map compiled cache
   \<and> (\<exists>e\<in>set cache. pattern e = pat \<and> compiled e = r)"
  by (induction cache arbitrary: cache') (auto split: if_splits)

definition cache_ok :: "(string \<Rightarrow> 'r option) \<Rightarrow> 'r cache_entry list \<Rightarrow> bool" where
  "cache_ok compile cache \<longleftrightarrow>
     length cache \<le> MAX_CACHE_SIZE \<and> distinct (map pattern cache)
   \<and> list_all2 (\<lambda>p r. compile p = Some r) (map pattern cache) (map compiled cache)"

lemma cache_ok_iff:
  "cache_ok compile cache \<longleftrightarrow>
     length cache \<le> MAX_CACHE_SIZE \<and> distinct (map pattern cache)
   \<and> (\<forall>e\<in>set cache. compile (pattern e) = Some (compiled e))"
  by (auto simp: cache_ok_def list_all2_conv_all_nth all_set_conv_all_nth)

lemma cache_ok_removed:
  assumes "cache_ok compile cache" "k < length cache"
  shows "cache_ok compile (take k cache @ drop (k + 1) cache)"
proof -
  have "cache = take k cache @ cache ! k # drop (k + 1) cache"
    using assms(2) by (simp add: id_take_nth_drop)
  then obtain A x B where "cache = A @ x # B" "take k cache = A" "drop (k + 1) cache = B" by blast
  then show ?thesis using assms(1) by (auto simp: cache_ok_iff)
qed

lemma get_regex_ok:
  assumes "cache_ok compile cache" "get_regex compile cache pat = (r, cache')"
  shows "r = compile pat \<and> cache_ok compile cache'"
proof (cases "bump pat cache")
  case None
  define c1 where "c1 = (if length cache \<ge> MAX_CACHE_SIZE then evict cache else cache)"
  have c1: "cache_ok compile c1 \<and> length c1 < MAX_CACHE_SIZE \<and> set c1 \<subseteq> set cache"
  proof (cases "length cache \<ge> MAX_CACHE_SIZE")
    case True
    then have "cache \<noteq> []" by (auto simp: MAX_CACHE_SIZE_def)
    then obtain k where k: "k < length cache" "evict cache = take k cache @ drop (k + 1) cache"
      using evict_one by blast
    moreover have "set (take k cache) \<union> set (drop (k + 1) cache) \<subseteq> set cache"
      by (auto dest: in_set_takeD in_set_dropD)
    ultimately show ?thesis
      using cache_ok_removed [OF assms(1) k(1)] assms(1) True by (auto simp: c1_def cache_ok_iff)
  next
    case False
    then show ?thesis using assms(1) by (simp add: c1_def)
  qed
  moreover have "pat \<notin> pattern ` set cache" using None by (simp add: bump_None)
  moreover have "(r, cache') = (case compile pat of None \<Rightarrow> (None, c1)
      | Some r \<Rightarrow> (Some r, c1 @ [\<lparr>pattern = pat, compiled = r, access_count = 1\<rparr>]))"
    using assms(2) None unfolding get_regex_def Let_def c1_def by auto
  ultimately show ?thesis by (auto simp: cache_ok_iff image_iff subset_iff split: option.splits)
next
  case (Some res)
  then obtain v where v: "bump pat cache = Some (v, cache')" "r = Some v"
    using assms(2) by (cases res) (simp add: get_regex_def)
  note b = bump_Some [OF v(1)]
  have "cache_ok compile cache'"
    using assms(1) b by (metis cache_ok_def length_map)
  moreover have "compile pat = Some v" using b assms(1) by (auto simp: cache_ok_iff)
  ultimately show ?thesis using v(2) by simp
qed

text \<open>
  What a client relies on: the cache answers like the function it memoises, whatever was asked
  before.
\<close>

locale memo =
  fixes ask :: "'s \<Rightarrow> 'k \<Rightarrow> 'v option \<times> 's" and f :: "'k \<Rightarrow> 'v option" and ok :: "'s \<Rightarrow> bool"
  assumes ask_ok: "ok s \<Longrightarrow> ask s k = (r, s') \<Longrightarrow> r = f k \<and> ok s'"
begin

lemma ask_fst: "ok s \<Longrightarrow> fst (ask s k) = f k"
  using ask_ok by (metis prod.collapse)

lemma asks_ok: "ok s \<Longrightarrow> ok (foldl (\<lambda>s k. snd (ask s k)) s ks)"
  by (induction ks arbitrary: s) (simp_all, metis ask_ok prod.collapse)

lemma answer_independent: "ok s \<Longrightarrow> ok s' \<Longrightarrow> fst (ask s k) = fst (ask s' k)"
  by (simp add: ask_fst)

end

interpretation regexes: memo "get_regex compile" compile "cache_ok compile" for compile
  by unfold_locales (fact get_regex_ok)

section \<open>Trimming\<close>

lemma find_first_not_of_eq:
  "find_first_not_of s t =
   (if set s \<subseteq> set t then None else Some (length (takeWhile (\<lambda>c. c \<in> set t) s)))"
proof (cases "set s \<subseteq> set t")
  case True
  then show ?thesis by (auto simp: find_first_not_of_def find_None_iff subset_iff)
next
  case False
  let ?n = "length (takeWhile (\<lambda>c. c \<in> set t) s)"
  have n: "?n < length s"
    using False takeWhile_eq_all_conv [of "\<lambda>c. c \<in> set t" s] length_takeWhile_le [of "\<lambda>c. c \<in> set t" s]
    by (metis le_neq_implies_less subsetI take_all_iff takeWhile_eq_take order_refl)
  have "find_first_not_of s t = Some ?n"
    unfolding find_first_not_of_def find_Some_iff
  proof (intro exI [of _ ?n] conjI allI impI)
    show "s ! ([0..<length s] ! ?n) \<notin> set t"
      using n nth_length_takeWhile [of "\<lambda>c. c \<in> set t" s] by simp
    show "\<not> s ! ([0..<length s] ! j) \<notin> set t" if "j < ?n" for j
      using that n set_takeWhileD [of "takeWhile (\<lambda>c. c \<in> set t) s ! j"] nth_mem [OF that]
        takeWhile_nth [OF that] by (auto dest: set_takeWhileD)
  qed (use n in simp_all)
  then show ?thesis using False by simp
qed

lemma trim_left_eq: "trim_left s t = dropWhile (\<lambda>c. c \<in> set t) s"
proof (cases "set s \<subseteq> set t")
  case True
  then have "dropWhile (\<lambda>c. c \<in> set t) s = []" by auto
  moreover have "trim_left s t = []" using True by (simp add: trim_left_def find_first_not_of_eq)
  ultimately show ?thesis by metis
next
  case False
  then show ?thesis by (simp add: trim_left_def find_first_not_of_eq dropWhile_eq_drop)
qed

lemma find_last_not_of_Some:
  assumes "find_last_not_of s t = Some i"
  shows "i < length s" "s ! i \<notin> set t" "set (drop (i + 1) s) \<subseteq> set t"
proof -
  obtain k where k: "k < length s" "i = rev [0..<length s] ! k" "s ! i \<notin> set t"
    "\<forall>j<k. s ! (rev [0..<length s] ! j) \<in> set t"
    using assms by (auto simp: find_last_not_of_def find_Some_iff)
  then have i: "i = length s - 1 - k" by (simp add: rev_nth)
  show "i < length s" "s ! i \<notin> set t" using i k(1,3) by auto
  show "set (drop (i + 1) s) \<subseteq> set t"
  proof
    fix c assume "c \<in> set (drop (i + 1) s)"
    then obtain m where m: "c = s ! (i + 1 + m)" "i + 1 + m < length s"
      by (auto simp: in_set_conv_nth)
    then have "length s - 1 - (i + 1 + m) < k" using i k(1) by simp
    moreover have "rev [0..<length s] ! (length s - 1 - (i + 1 + m)) = i + 1 + m"
      using m(2) by (simp add: rev_nth)
    ultimately show "c \<in> set t" using k(4) m(1) by metis
  qed
qed

lemma find_last_not_of_None: "find_last_not_of s t = None \<longleftrightarrow> set s \<subseteq> set t"
  by (auto simp: find_last_not_of_def find_None_iff subset_iff in_set_conv_nth)

lemma trim_right_eq: "trim_right s t = rev (dropWhile (\<lambda>c. c \<in> set t) (rev s))"
proof (cases "find_last_not_of s t")
  case None
  then have "dropWhile (\<lambda>c. c \<in> set t) (rev s) = []"
    by (auto simp: find_last_not_of_None)
  then show ?thesis using None by (simp add: trim_right_def)
next
  case (Some i)
  note i = find_last_not_of_Some [OF Some]
  have "rev s = rev (drop (i + 1) s) @ rev (take (i + 1) s)"
    by (metis append_take_drop_id rev_append)
  moreover have "dropWhile (\<lambda>c. c \<in> set t) (rev (drop (i + 1) s) @ rev (take (i + 1) s))
      = dropWhile (\<lambda>c. c \<in> set t) (rev (take (i + 1) s))"
    using i(3) by (intro dropWhile_append2) auto
  moreover have "rev (take (i + 1) s) = s ! i # rev (take i s)"
    using i(1) by (simp add: take_Suc_conv_app_nth)
  ultimately show ?thesis using Some i(2) by (simp add: trim_right_def)
qed

lemma trim_inplace_eq: "trim_inplace s t = trim s t"
  by (auto simp: trim_inplace_def trim_def trim_right_def trim_left_def find_first_not_of_eq Let_def
      split: option.splits)

section \<open>Properties\<close>

text \<open>
  Splitting and replacing are cutting and joining: a string cut at the leftmost occurrences of a
  non-empty delimiter joins back to the string and none of the parts contains the delimiter;
  \<open>split\<close> returns the non-empty parts in order (and the string itself when it is empty), and both
  \<open>replace_all\<close> functions return the parts joined with the replacement, even where the replacement
  contains the text that is searched for.
\<close>

theorem split_and_replace:
  assumes "d \<noteq> []"
  shows "join d (cut_at d s) = s \<and> (\<forall>f\<in>set (cut_at d s). \<not> str_contains f d)
       \<and> str_split s d = (if s = [] then [[]] else filter (\<lambda>f. f \<noteq> []) (cut_at d s))
       \<and> replace_all s d t = join t (cut_at d s) \<and> replace_all_inplace s d t = join t (cut_at d s)"
proof -
  have "replace_loop s d t 0 = join t (cut_at d s)"
    using replace_loop_cut [OF assms, of "[]" s t] by simp
  then show ?thesis
    using join_cut cut_free [OF assms] split_loop_cut [OF assms, of 0 s] assms
    by (auto simp: str_contains_iff str_split_def replace_all_def replace_all_inplace_def)
qed

theorem split_and_replace_witness:
  "str_split ''a,,b'' '','' = [''a'', ''b''] \<and> replace_all ''a,,b'' '','' '';,'' = ''a;,;,b''"
proof -
  have "cut_at '','' ''a,,b'' = [''a'', [], ''b'']"
    by (simp add: cut_at.simps str_find_def upt_rec)
  then show ?thesis using split_and_replace [of "'',''" "''a,,b''" "'';,''"] by simp
qed

text \<open>
  The cache of compiled expressions never changes an answer: from an empty cache, after any
  sequence of requests, \<open>get_regex\<close> returns what compiling the pattern returns, at most 32
  expressions are kept, each under its own pattern, and when one is dropped it is one that was used
  least often.
\<close>

theorem regex_cache_transparent:
  assumes "cache = foldl (\<lambda>c p. snd (get_regex compile c p)) [] patterns"
    and "get_regex compile cache pat = (r, cache')"
  shows "r = compile pat \<and> length cache' \<le> 32 \<and> distinct (map pattern cache')
       \<and> (\<forall>e\<in>set cache'. compile (pattern e) = Some (compiled e))
       \<and> (cache \<noteq> [] \<longrightarrow> (\<exists>k<length cache. evict cache = take k cache @ drop (k + 1) cache
           \<and> (\<forall>e\<in>set cache. access_count (cache ! k) \<le> access_count e)))"
proof -
  have "cache_ok compile []" by (simp add: cache_ok_iff)
  then have "cache_ok compile cache" unfolding assms(1) by (rule regexes.asks_ok)
  from get_regex_ok [OF this assms(2)] show ?thesis
    using evict_one [of cache] by (auto simp: cache_ok_iff MAX_CACHE_SIZE_def)
qed

theorem regex_cache_transparent_witness:
  "fst (get_regex (\<lambda>p. Some (length p)) (foldl (\<lambda>c p. snd (get_regex (\<lambda>p. Some (length p)) c p)) [] [''a+'', ''b'']) ''a+'')
   = Some 2"
proof -
  obtain r c where "get_regex (\<lambda>p. Some (length p))
      (foldl (\<lambda>c p. snd (get_regex (\<lambda>p. Some (length p)) c p)) [] [''a+'', ''b'']) ''a+'' = (r, c)" by fastforce
  from regex_cache_transparent [OF refl this] this show ?thesis by simp
qed

text \<open>
  \<open>strncpy_s\<close> writes inside the first \<open>destsz\<close> bytes only, copies a prefix of the source that is
  as long as \<open>count\<close> and the room allow, always terminates it, and changes no other byte; null
  pointers and a size of 0 are refused without a write.
\<close>

theorem strncpy_s_safe:
  assumes "0 < destsz" "destsz \<le> length d"
  shows "(let n = min (min count (length s)) (destsz - 1)
          in strncpy_s (Some d) destsz (Some s) count = Inr (0, Some (take n s @ 0 # drop (n + 1) d)))
       \<and> strncpy_s None destsz (Some s) count = Inr (EINVAL, None)
       \<and> strncpy_s (Some d) destsz None count = Inr (EINVAL, Some d)
       \<and> strncpy_s (Some d) 0 (Some s) count = Inr (EINVAL, Some d)"
proof -
  define n where "n = min (min count (length s)) (destsz - 1)"
  have n: "n < length d" "n \<le> length s" "n < destsz" using assms by (auto simp: n_def)
  have "strncpy_len destsz count (length s) = n"
    using assms(1) by (simp add: n_def strncpy_len_def Let_def)
  then have "strncpy_s (Some d) destsz (Some s) count =
      (case (if n > 0 then memcpy d s n else Inr d) of Inl err \<Rightarrow> Inl err
       | Inr d1 \<Rightarrow> if n < length d1 then Inr (0, Some (d1[n := 0])) else Inl Out_of_bounds)"
    using assms(1) by (simp add: strncpy_s_def Let_def)
  moreover have "(if n > 0 then memcpy d s n else Inr d) = Inr (take n s @ drop n d)"
    using n by (simp add: memcpy_def)
  moreover have "(take n s @ drop n d)[n := 0] = take n s @ 0 # drop (n + 1) d"
    using n by (simp add: list_update_append Cons_nth_drop_Suc [symmetric])
  ultimately have "strncpy_s (Some d) destsz (Some s) count = Inr (0, Some (take n s @ 0 # drop (n + 1) d))"
    using n by (simp add: min_def)
  moreover have "strncpy_s None destsz (Some s) count = Inr (EINVAL, None)"
    "strncpy_s (Some d) destsz None count = Inr (EINVAL, Some d)"
    "strncpy_s (Some d) 0 (Some s) count = Inr (EINVAL, Some d)" by (simp_all add: strncpy_s_def)
  ultimately show ?thesis unfolding n_def Let_def by blast
qed

theorem strncpy_s_safe_witness:
  "strncpy_s (Some [9, 9, 9, 9]) 3 (Some [1, 2, 3, 4]) 10 = Inr (0, Some [1, 2, 0, 9])"
  using strncpy_s_safe [of 3 "[9, 9, 9, 9]" 10 "[1, 2, 3, 4]"] by (simp add: Let_def)

text \<open>
  The predicates and the trimming functions mean what they say: \<open>contains\<close> is the sublist
  relation, \<open>starts_with\<close> and \<open>ends_with\<close> the prefix and suffix relations, \<open>iequal\<close> equality of the
  lower-case forms, and \<open>trim\<close> and \<open>trim_inplace\<close> both remove exactly the longest margins of target
  characters.
\<close>

theorem string_functions_meaning:
  "(str_contains s t \<longleftrightarrow> sublist t s) \<and> (starts_with s t \<longleftrightarrow> prefix t s) \<and> (ends_with s t \<longleftrightarrow> suffix t s)
   \<and> (iequal low s t \<longleftrightarrow> map low s = map low t)
   \<and> trim s t = dropWhile (\<lambda>c. c \<in> set t) (rev (dropWhile (\<lambda>c. c \<in> set t) (rev s)))
   \<and> trim_inplace s t = trim s t"
proof -
  have "prefix t s \<longleftrightarrow> starts_with s t"
    by (auto simp: starts_with_def prefix_def) (metis append_take_drop_id)
  moreover have "suffix t s \<longleftrightarrow> ends_with s t"
    by (auto simp: ends_with_def suffix_def) (metis append_take_drop_id)
  moreover have "iequal low s t \<longleftrightarrow> map low s = map low t"
    by (auto simp: iequal_def list_all2_conv_all_nth list_eq_iff_nth_eq)
  ultimately show ?thesis
    by (auto simp: str_contains_iff trim_def trim_left_eq trim_right_eq trim_inplace_eq)
qed

end
