(* ===== verification/Matrix.thy ===== *)
theory Matrix
  imports HjPrelude "HOL-Library.Signed_Division"
begin

text \<open>
  \<open>src/hj/math/matrix.hpp\<close>, \<open>matrix_iterator.hpp\<close> and \<open>matrix_vertical_iterator.hpp\<close>: a matrix stored
  as an array of pointers to rows, and its two iterators.

  The pointer array is a list whose entries are \<open>Some row\<close> for an allocated row and \<open>None\<close> for a
  pointer that was never set; its length is the length that was allocated, so a write past it is
  visible as \<open>Out_of_bounds\<close>. The indeterminate contents of a new row are an argument \<open>junk\<close>.
  Dimensions and offsets of type \<open>int\<close> are integers; the product of the dimensions is checked against
  the range of \<open>int\<close> where the source computes it.
\<close>

section \<open>Definitions\<close>

type_synonym 'a rows = "'a list option list"

record 'a matrix =
  buf :: "'a rows"
  row_n :: int
  col_n :: int

subsection \<open>Cells\<close>

definition cell :: "'a rows \<Rightarrow> int \<Rightarrow> int \<Rightarrow> 'a result" where
  "cell b row col =
     (if 0 \<le> row \<and> row < int (length b) then
        (case b ! nat row of
           None \<Rightarrow> Inl Out_of_bounds
         | Some r \<Rightarrow> if 0 \<le> col \<and> col < int (length r) then Inr (r ! nat col) else Inl Out_of_bounds)
      else Inl Out_of_bounds)"

definition put_cell :: "'a rows \<Rightarrow> int \<Rightarrow> int \<Rightarrow> 'a \<Rightarrow> 'a rows result" where
  "put_cell b row col v =
     (if 0 \<le> row \<and> row < int (length b) then
        (case b ! nat row of
           None \<Rightarrow> Inl Out_of_bounds
         | Some r \<Rightarrow> if 0 \<le> col \<and> col < int (length r) then Inr (b[nat row := Some (r[nat col := v])])
                     else Inl Out_of_bounds)
      else Inl Out_of_bounds)"

text \<open>The index pairs of a double loop over rows and columns.\<close>

definition loop_cells :: "int \<Rightarrow> int \<Rightarrow> (int \<times> int) list" where
  "loop_cells rows cols = List.product [0..rows - 1] [0..cols - 1]"

primrec copy_cells :: "(int \<times> int) list \<Rightarrow> (int \<Rightarrow> int \<Rightarrow> 'a result) \<Rightarrow> 'a rows \<Rightarrow> 'a rows result" where
  "copy_cells [] rhs b = Inr b"
| "copy_cells (rc # cells) rhs b =
     (case rhs (fst rc) (snd rc) of
        Inl err \<Rightarrow> Inl err
      | Inr v \<Rightarrow> (case put_cell b (fst rc) (snd rc) v of
                    Inl err \<Rightarrow> Inl err
                  | Inr b' \<Rightarrow> copy_cells cells rhs b'))"

subsection \<open>Memory\<close>

text \<open>
  \<open>_create\<close> allocates an array of \<open>col_n\<close> row pointers and then sets the first \<open>row_n\<close> of them.
\<close>

definition mat_create :: "'a \<Rightarrow> int \<Rightarrow> int \<Rightarrow> 'a rows result" where
  "mat_create junk rows cols =
     (if cols < 0 then Inl Throw_bad_alloc
      else if rows > cols then Inl Out_of_bounds
      else Inr (replicate (nat rows) (Some (replicate (nat cols) junk)) @ replicate (nat cols - nat rows) None))"

definition copy_from :: "'a matrix \<Rightarrow> (int \<Rightarrow> int \<Rightarrow> 'a result) \<Rightarrow> int \<Rightarrow> int \<Rightarrow> 'a matrix result" where
  "copy_from m rhs rows cols =
     (let rows' = (if row_n m < rows then row_n m else rows);
          cols' = (if col_n m < cols then col_n m else cols)
      in map_sum id (\<lambda>b. m\<lparr>buf := b\<rparr>) (copy_cells (loop_cells rows' cols') rhs (buf m)))"

definition mat_size :: "'a matrix \<Rightarrow> int result" where
  "mat_size m =
     (let p = row_n m * col_n m in
      if p > int INT_MAX \<or> p < - int INT_MAX - 1 then Inl Signed_overflow else Inr p)"

definition copy_n :: "'a matrix \<Rightarrow> 'a \<Rightarrow> int \<Rightarrow> 'a matrix result" where
  "copy_n m value n =
     (case mat_size m of
        Inl err \<Rightarrow> Inl err
      | Inr sz \<Rightarrow>
          let n' = (if n > -1 \<and> n \<le> sz then n else sz)
          in map_sum id (\<lambda>b. m\<lparr>buf := b\<rparr>)
               (copy_cells (take (nat n') (loop_cells (row_n m) (col_n m))) (\<lambda>_ _. Inr value) (buf m)))"

subsection \<open>Construction, assignment and access\<close>

definition mat_new :: "'a \<Rightarrow> int \<Rightarrow> int \<Rightarrow> 'a matrix result" where
  "mat_new junk rows cols =
     map_sum id (\<lambda>b. \<lparr>buf = b, row_n = rows, col_n = cols\<rparr>) (mat_create junk rows cols)"

definition mat_new_value :: "'a \<Rightarrow> int \<Rightarrow> int \<Rightarrow> 'a \<Rightarrow> 'a matrix result" where
  "mat_new_value junk rows cols value =
     (case mat_new junk rows cols of Inl err \<Rightarrow> Inl err | Inr m \<Rightarrow> copy_n m value (-1))"

definition vec_cell :: "'a list list \<Rightarrow> int \<Rightarrow> int \<Rightarrow> 'a result" where
  "vec_cell vs row col = cell (map Some vs) row col"

definition mat_of_vectors :: "'a \<Rightarrow> 'a list list \<Rightarrow> 'a matrix result" where
  "mat_of_vectors junk vs =
     (let rows = int (length vs); cols = (if rows > 0 then int (length (hd vs)) else 0)
      in case mat_new junk rows cols of
           Inl err \<Rightarrow> Inl err
         | Inr m \<Rightarrow> copy_from m (vec_cell vs) (row_n m) (col_n m))"

definition copy_from_matrix :: "'a matrix \<Rightarrow> 'a matrix \<Rightarrow> 'a matrix result" where
  "copy_from_matrix m rhs =
     map_sum id (\<lambda>b. m\<lparr>buf := b\<rparr>) (copy_cells (loop_cells (row_n m) (col_n m)) (cell (buf rhs)) (buf m))"

definition mat_copy :: "'a \<Rightarrow> 'a matrix \<Rightarrow> 'a matrix result" where
  "mat_copy junk rhs =
     (case mat_new junk (row_n rhs) (col_n rhs) of Inl err \<Rightarrow> Inl err | Inr m \<Rightarrow> copy_from_matrix m rhs)"

text \<open>Assignment from another object (\<open>this == &rhs\<close> returns at once and changes nothing).\<close>

definition mat_assign :: "'a \<Rightarrow> 'a matrix \<Rightarrow> 'a matrix \<Rightarrow> 'a matrix result" where
  "mat_assign junk m rhs =
     (case mat_create junk (row_n rhs) (col_n rhs) of
        Inl err \<Rightarrow> Inl err
      | Inr b \<Rightarrow> copy_from_matrix (m\<lparr>row_n := row_n rhs, col_n := col_n rhs, buf := b\<rparr>) rhs)"

definition mat_get :: "'a matrix \<Rightarrow> int \<Rightarrow> int \<Rightarrow> 'a result" where
  "mat_get m row col = cell (buf m) row col"

definition mat_at :: "'a matrix \<Rightarrow> int \<Rightarrow> int \<Rightarrow> 'a result" where
  "mat_at m row col =
     (if row < 0 \<or> row \<ge> row_n m \<or> col < 0 \<or> col \<ge> col_n m then Inl Throw_out_of_range
      else cell (buf m) row col)"

primrec equal_cells :: "(int \<times> int) list \<Rightarrow> 'a rows \<Rightarrow> 'a rows \<Rightarrow> bool result" where
  "equal_cells [] a b = Inr True"
| "equal_cells (rc # cells) a b =
     (case (cell a (fst rc) (snd rc), cell b (fst rc) (snd rc)) of
        (Inr x, Inr y) \<Rightarrow> if x \<noteq> y then Inr False else equal_cells cells a b
      | (Inl err, _) \<Rightarrow> Inl err
      | (_, Inl err) \<Rightarrow> Inl err)"

definition mat_equal :: "'a matrix \<Rightarrow> 'a matrix \<Rightarrow> bool result" where
  "mat_equal a b =
     (if row_n a \<noteq> row_n b \<or> col_n a \<noteq> col_n b then Inr False
      else equal_cells (loop_cells (row_n a) (col_n a)) (buf a) (buf b))"

definition mat_resize :: "'a \<Rightarrow> 'a matrix \<Rightarrow> int \<Rightarrow> int \<Rightarrow> 'a matrix result" where
  "mat_resize junk m rows cols =
     (case mat_create junk rows cols of
        Inl err \<Rightarrow> Inl err
      | Inr b \<Rightarrow>
          (case copy_from (m\<lparr>buf := b\<rparr>) (cell (buf m)) rows cols of
             Inl err \<Rightarrow> Inl err
           | Inr m' \<Rightarrow> Inr (m'\<lparr>row_n := rows, col_n := cols\<rparr>)))"

subsection \<open>Iterators\<close>

record mat_iter =
  it_mat :: nat
  it_offset :: int
  it_n_row :: int
  it_n_col :: int

definition iter_row :: "mat_iter \<Rightarrow> int result" where
  "iter_row it = (if it_n_col it = 0 then Inl Division_by_zero else Inr (it_offset it sdiv it_n_col it))"

definition iter_col :: "mat_iter \<Rightarrow> int result" where
  "iter_col it = (if it_n_col it = 0 then Inl Division_by_zero else Inr (it_offset it smod it_n_col it))"

definition iter_deref :: "'a matrix \<Rightarrow> mat_iter \<Rightarrow> 'a result" where
  "iter_deref m it =
     (case (iter_row it, iter_col it) of
        (Inr row, Inr col) \<Rightarrow> mat_get m row col
      | (Inl err, _) \<Rightarrow> Inl err
      | (_, Inl err) \<Rightarrow> Inl err)"

definition viter_row :: "mat_iter \<Rightarrow> int result" where
  "viter_row it = (if it_n_row it = 0 then Inl Division_by_zero else Inr (it_offset it smod it_n_row it))"

definition viter_col :: "mat_iter \<Rightarrow> int result" where
  "viter_col it = (if it_n_row it = 0 then Inl Division_by_zero else Inr (it_offset it sdiv it_n_row it))"

definition viter_deref :: "'a matrix \<Rightarrow> mat_iter \<Rightarrow> 'a result" where
  "viter_deref m it =
     (case (viter_row it, viter_col it) of
        (Inr row, Inr col) \<Rightarrow> mat_get m row col
      | (Inl err, _) \<Rightarrow> Inl err
      | (_, Inl err) \<Rightarrow> Inl err)"

definition iter_inc :: "mat_iter \<Rightarrow> mat_iter" where
  "iter_inc it = it\<lparr>it_offset := it_offset it + 1\<rparr>"

definition iter_dec :: "mat_iter \<Rightarrow> mat_iter" where
  "iter_dec it = it\<lparr>it_offset := it_offset it - 1\<rparr>"

definition iter_add :: "mat_iter \<Rightarrow> int \<Rightarrow> mat_iter" where
  "iter_add it n = it\<lparr>it_offset := it_offset it + n\<rparr>"

definition iter_sub :: "mat_iter \<Rightarrow> int \<Rightarrow> mat_iter" where
  "iter_sub it n = it\<lparr>it_offset := it_offset it - n\<rparr>"

definition iter_diff :: "mat_iter \<Rightarrow> mat_iter \<Rightarrow> int" where
  "iter_diff it other = it_offset it - it_offset other"

definition iter_eq :: "mat_iter \<Rightarrow> mat_iter \<Rightarrow> bool" where
  "iter_eq it other \<longleftrightarrow> it_mat it = it_mat other \<and> it_offset it = it_offset other"

definition iter_less :: "mat_iter \<Rightarrow> mat_iter \<Rightarrow> bool" where
  "iter_less it other \<longleftrightarrow> it_offset it < it_offset other"

definition mat_begin :: "nat \<Rightarrow> 'a matrix \<Rightarrow> mat_iter" where
  "mat_begin addr m = \<lparr>it_mat = addr, it_offset = 0, it_n_row = row_n m, it_n_col = col_n m\<rparr>"

definition mat_end :: "nat \<Rightarrow> 'a matrix \<Rightarrow> mat_iter result" where
  "mat_end addr m =
     map_sum id (\<lambda>sz. \<lparr>it_mat = addr, it_offset = sz, it_n_row = row_n m, it_n_col = col_n m\<rparr>) (mat_size m)"

text \<open>
  \<open>find\<close> and \<open>vfind\<close> do not check their indices; for a cell inside a matrix whose size fits an \<open>int\<close>
  the offset they compute does not overflow.
\<close>

definition mat_find :: "nat \<Rightarrow> 'a matrix \<Rightarrow> int \<Rightarrow> int \<Rightarrow> mat_iter" where
  "mat_find addr m row col =
     \<lparr>it_mat = addr, it_offset = row * col_n m + col, it_n_row = row_n m, it_n_col = col_n m\<rparr>"

definition mat_vfind :: "nat \<Rightarrow> 'a matrix \<Rightarrow> int \<Rightarrow> int \<Rightarrow> mat_iter" where
  "mat_vfind addr m row col =
     \<lparr>it_mat = addr, it_offset = col * row_n m + row, it_n_row = row_n m, it_n_col = col_n m\<rparr>"

text \<open>\<open>for(it = first; it != last; ++it) use(*it)\<close>, with as many rounds as fuel allows.\<close>

primrec traverse :: "nat \<Rightarrow> (mat_iter \<Rightarrow> 'a result) \<Rightarrow> mat_iter \<Rightarrow> mat_iter \<Rightarrow> 'a list result option" where
  "traverse 0 deref it final = (if iter_eq it final then Some (Inr []) else None)"
| "traverse (Suc fuel) deref it final =
     (if iter_eq it final then Some (Inr [])
      else case deref it of
             Inl err \<Rightarrow> Some (Inl err)
           | Inr v \<Rightarrow> map_option (map_sum id (\<lambda>vs. v # vs)) (traverse fuel deref (iter_inc it) final))"

section \<open>Shape\<close>

text \<open>The pointer array has the first \<open>rows\<close> rows allocated, each with \<open>cols\<close> elements.\<close>

definition shape :: "'a rows \<Rightarrow> int \<Rightarrow> int \<Rightarrow> bool" where
  "shape b rows cols \<longleftrightarrow>
     0 \<le> rows \<and> 0 \<le> cols \<and> rows \<le> int (length b)
   \<and> (\<forall>i<nat rows. \<exists>r. b ! i = Some r \<and> length r = nat cols)"

definition mat_wf :: "'a matrix \<Rightarrow> bool" where
  "mat_wf m \<longleftrightarrow> shape (buf m) (row_n m) (col_n m)"

definition inside :: "int \<Rightarrow> int \<Rightarrow> int \<Rightarrow> int \<Rightarrow> bool" where
  "inside rows cols i j \<longleftrightarrow> 0 \<le> i \<and> i < rows \<and> 0 \<le> j \<and> j < cols"

lemma loop_cells_inside: "set (loop_cells rows cols) = {(i, j). inside rows cols i j}"
  by (auto simp: loop_cells_def inside_def)

lemma distinct_loop_cells: "distinct (loop_cells rows cols)"
  by (simp add: loop_cells_def distinct_product)

lemma shape_row:
  assumes "shape b rows cols" "0 \<le> i" "i < rows"
  obtains r where "b ! nat i = Some r" "length r = nat cols" "nat i < length b" "i < int (length b)"
proof -
  have "nat i < nat rows" "i < int (length b)" using assms by (auto simp: shape_def)
  moreover from this obtain r where "b ! nat i = Some r" "length r = nat cols"
    using assms(1) unfolding shape_def by blast
  ultimately show ?thesis using that assms(2) by auto
qed

lemma cell_inside:
  assumes "shape b rows cols" "inside rows cols i j"
  shows "\<exists>v. cell b i j = Inr v"
proof -
  obtain r where "b ! nat i = Some r" "length r = nat cols" "i < int (length b)"
    using shape_row [of b rows cols i] assms by (auto simp: inside_def)
  then show ?thesis using assms(2) by (auto simp: cell_def inside_def)
qed

lemma put_cell_inside:
  assumes "shape b rows cols" "inside rows cols i j"
  shows "\<exists>b'. put_cell b i j v = Inr b' \<and> shape b' rows cols
           \<and> (\<forall>k l. inside rows cols k l \<longrightarrow> cell b' k l = (if k = i \<and> l = j then Inr v else cell b k l))"
proof -
  obtain r where r: "b ! nat i = Some r" "length r = nat cols"
    using shape_row [of b rows cols i] assms by (auto simp: inside_def)
  have len: "nat i < length b" "0 \<le> i" "0 \<le> j" "j < cols" "rows \<le> int (length b)"
    using assms by (auto simp: shape_def inside_def)
  have "put_cell b i j v = Inr (b[nat i := Some (r[nat j := v])])"
    using r len by (simp add: put_cell_def)
  moreover have "shape (b[nat i := Some (r[nat j := v])]) rows cols"
    using assms(1) r len by (auto simp: shape_def nth_list_update)
  moreover have "cell (b[nat i := Some (r[nat j := v])]) k l = (if k = i \<and> l = j then Inr v else cell b k l)"
    if "inside rows cols k l" for k l
    using that r len by (auto simp: cell_def inside_def nth_list_update eq_nat_nat_iff)
  ultimately show ?thesis by blast
qed

lemma copy_cells_inside:
  "\<lbrakk>shape b rows cols; \<forall>(i, j)\<in>set cells. inside rows cols i j \<and> (\<exists>v. rhs i j = Inr v); distinct cells\<rbrakk> \<Longrightarrow>
   \<exists>b'. copy_cells cells rhs b = Inr b' \<and> shape b' rows cols
      \<and> (\<forall>k l. inside rows cols k l \<longrightarrow> cell b' k l = (if (k, l) \<in> set cells then rhs k l else cell b k l))"
proof (induction cells arbitrary: b)
  case (Cons rc cells)
  obtain i j where rc: "rc = (i, j)" by fastforce
  obtain v where v: "rhs i j = Inr v" "inside rows cols i j" using Cons.prems(2) rc by auto
  obtain b1 where b1: "put_cell b i j v = Inr b1" "shape b1 rows cols"
    "\<forall>k l. inside rows cols k l \<longrightarrow> cell b1 k l = (if k = i \<and> l = j then Inr v else cell b k l)"
    using put_cell_inside [OF Cons.prems(1) v(2)] by blast
  obtain b' where b': "copy_cells cells rhs b1 = Inr b'" "shape b' rows cols"
    "\<forall>k l. inside rows cols k l \<longrightarrow> cell b' k l = (if (k, l) \<in> set cells then rhs k l else cell b1 k l)"
    using Cons.IH [OF b1(2)] Cons.prems(2,3) by auto
  then show ?case using b1 v rc by (intro exI [of _ b']) auto
qed simp

lemma mat_create_shape:
  assumes "0 \<le> rows" "rows \<le> cols"
  shows "\<exists>b. mat_create junk rows cols = Inr b \<and> shape b rows cols
          \<and> (\<forall>i j. inside rows cols i j \<longrightarrow> cell b i j = Inr junk)"
  using assms by (auto simp: mat_create_def shape_def inside_def cell_def nth_append)

lemma mat_new_shape:
  assumes "0 \<le> rows" "rows \<le> cols"
  shows "\<exists>m. mat_new junk rows cols = Inr m \<and> mat_wf m \<and> row_n m = rows \<and> col_n m = cols"
  using mat_create_shape [OF assms, of junk] by (auto simp: mat_new_def mat_wf_def)

section \<open>Copying\<close>

lemma min_less_form: "(if (a::int) < b then a else b) = min a b"
  by (simp add: min_def)

lemma copy_from_cells:
  assumes "mat_wf m" "0 \<le> rows" "0 \<le> cols"
    and "\<And>i j. inside (min (row_n m) rows) (min (col_n m) cols) i j \<Longrightarrow> \<exists>v. rhs i j = Inr v"
  shows "\<exists>b. copy_from m rhs rows cols = Inr (m\<lparr>buf := b\<rparr>) \<and> shape b (row_n m) (col_n m)
          \<and> (\<forall>i j. inside (row_n m) (col_n m) i j \<longrightarrow>
                cell b i j = (if i < rows \<and> j < cols then rhs i j else cell (buf m) i j))"
proof -
  let ?cs = "loop_cells (min (row_n m) rows) (min (col_n m) cols)"
  have "\<forall>(i, j)\<in>set ?cs. inside (row_n m) (col_n m) i j \<and> (\<exists>v. rhs i j = Inr v)"
    using assms(4) by (auto simp: loop_cells_inside inside_def)
  then obtain b where b: "copy_cells ?cs rhs (buf m) = Inr b" "shape b (row_n m) (col_n m)"
    "\<forall>k l. inside (row_n m) (col_n m) k l \<longrightarrow> cell b k l = (if (k, l) \<in> set ?cs then rhs k l else cell (buf m) k l)"
    using copy_cells_inside [of "buf m" "row_n m" "col_n m" ?cs rhs] assms(1) distinct_loop_cells
    by (auto simp: mat_wf_def)
  have "copy_from m rhs rows cols = map_sum id (\<lambda>b. m\<lparr>buf := b\<rparr>) (copy_cells ?cs rhs (buf m))"
    by (simp add: copy_from_def Let_def min_def)
  then show ?thesis using b by (intro exI [of _ b]) (auto simp: loop_cells_inside inside_def)
qed

lemma copy_from_matrix_cells:
  assumes "mat_wf rhs" "shape b (row_n rhs) (col_n rhs)" "row_n m = row_n rhs" "col_n m = col_n rhs" "buf m = b"
  shows "\<exists>b'. copy_from_matrix m rhs = Inr (m\<lparr>buf := b'\<rparr>) \<and> shape b' (row_n rhs) (col_n rhs)
          \<and> (\<forall>i j. inside (row_n rhs) (col_n rhs) i j \<longrightarrow> cell b' i j = cell (buf rhs) i j)"
proof -
  let ?cs = "loop_cells (row_n rhs) (col_n rhs)"
  have "\<forall>(i, j)\<in>set ?cs. inside (row_n rhs) (col_n rhs) i j \<and> (\<exists>v. cell (buf rhs) i j = Inr v)"
    using assms(1) cell_inside by (auto simp: loop_cells_inside mat_wf_def)
  then obtain b' where "copy_cells ?cs (cell (buf rhs)) b = Inr b'" "shape b' (row_n rhs) (col_n rhs)"
    "\<forall>k l. inside (row_n rhs) (col_n rhs) k l \<longrightarrow>
       cell b' k l = (if (k, l) \<in> set ?cs then cell (buf rhs) k l else cell b k l)"
    using copy_cells_inside [OF assms(2)] distinct_loop_cells by blast
  then show ?thesis using assms(3-5) by (intro exI [of _ b']) (auto simp: copy_from_matrix_def loop_cells_inside)
qed

lemma mat_size_small:
  assumes "mat_wf m" "row_n m * col_n m \<le> int INT_MAX"
  shows "mat_size m = Inr (row_n m * col_n m)"
proof -
  have "0 \<le> row_n m * col_n m" using assms(1) by (simp add: mat_wf_def shape_def)
  then show ?thesis using assms(2) by (simp add: mat_size_def Let_def)
qed

lemma copy_n_all:
  assumes "mat_wf m" "row_n m * col_n m \<le> int INT_MAX"
  shows "\<exists>b. copy_n m value (-1) = Inr (m\<lparr>buf := b\<rparr>) \<and> shape b (row_n m) (col_n m)
          \<and> (\<forall>i j. inside (row_n m) (col_n m) i j \<longrightarrow> cell b i j = Inr value)"
proof -
  let ?cs = "loop_cells (row_n m) (col_n m)"
  have dims: "0 \<le> row_n m" "0 \<le> col_n m" using assms(1) by (auto simp: mat_wf_def shape_def)
  note sz = mat_size_small [OF assms]
  have "length ?cs = nat (row_n m * col_n m)" using dims by (simp add: loop_cells_def nat_mult_distrib)
  moreover obtain b where "copy_cells ?cs (\<lambda>_ _. Inr value) (buf m) = Inr b" "shape b (row_n m) (col_n m)"
    "\<forall>k l. inside (row_n m) (col_n m) k l \<longrightarrow>
       cell b k l = (if (k, l) \<in> set ?cs then Inr value else cell (buf m) k l)"
    using copy_cells_inside [of "buf m" "row_n m" "col_n m" ?cs "\<lambda>_ _. Inr value"] assms(1) distinct_loop_cells
    by (auto simp: mat_wf_def loop_cells_inside)
  ultimately show ?thesis
    using sz by (intro exI [of _ b]) (auto simp: copy_n_def loop_cells_inside)
qed

lemma equal_cells_inside:
  "\<lbrakk>shape a rows cols; shape b rows cols; \<forall>(i, j)\<in>set cells. inside rows cols i j\<rbrakk> \<Longrightarrow>
   equal_cells cells a b = Inr (\<forall>(i, j)\<in>set cells. cell a i j = cell b i j)"
proof (induction cells)
  case (Cons rc cells)
  then show ?case
    using cell_inside [of a rows cols "fst rc" "snd rc"] cell_inside [of b rows cols "fst rc" "snd rc"]
    by (auto split: sum.splits prod.splits)
qed simp

section \<open>Traversal\<close>

lemma traverse_offsets:
  assumes "it_offset it \<le> it_offset final" "it_mat it = it_mat final"
    and "nat (it_offset final - it_offset it) \<le> fuel"
    and "\<And>k. it_offset it \<le> k \<Longrightarrow> k < it_offset final \<Longrightarrow> deref (it\<lparr>it_offset := k\<rparr>) = Inr (g k)"
  shows "traverse fuel deref it final = Some (Inr (map g [it_offset it..it_offset final - 1]))"
  using assms
proof (induction fuel arbitrary: it)
  case 0
  then show ?case by (simp add: iter_eq_def)
next
  case (Suc fuel)
  show ?case
  proof (cases "it_offset it = it_offset final")
    case True
    then show ?thesis using Suc.prems(2) by (simp add: iter_eq_def)
  next
    case False
    then have less: "it_offset it < it_offset final" using Suc.prems(1) by simp
    have "deref it = Inr (g (it_offset it))" using Suc.prems(4) [of "it_offset it"] less by simp
    moreover have "traverse fuel deref (iter_inc it) final =
        Some (Inr (map g [it_offset (iter_inc it)..it_offset final - 1]))"
      by (rule Suc.IH) (use less Suc.prems in \<open>auto simp: iter_inc_def\<close>)
    moreover have "[it_offset it..it_offset final - 1] = it_offset it # [it_offset it + 1..it_offset final - 1]"
      using less by (simp add: upto_rec1)
    ultimately show ?thesis using False by (simp add: iter_eq_def iter_inc_def)
  qed
qed

lemma sdiv_smod_nonneg: "0 \<le> k \<Longrightarrow> 0 < (n::int) \<Longrightarrow> k sdiv n = k div n \<and> k smod n = k mod n"
  by (cases "k = 0") (simp_all add: signed_divide_int_def signed_modulo_int_def minus_div_mult_eq_mod)

lemma offset_inside:
  assumes "0 \<le> k" "k < rows * cols" "0 \<le> cols"
  shows "0 < cols" "inside rows cols (k div cols) (k mod cols)"
proof -
  show pos: "0 < cols" using assms by (cases "cols = 0") auto
  have "k div cols < rows"
  proof (rule ccontr)
    assume "\<not> k div cols < rows"
    then have "rows * cols \<le> k div cols * cols" using pos by simp
    also have "\<dots> \<le> k" using div_mult_mod_eq [of k cols] pos_mod_sign [OF pos, of k] by linarith
    finally show False using assms(2) by simp
  qed
  then show "inside rows cols (k div cols) (k mod cols)"
    using assms(1) pos by (simp add: inside_def pos_imp_zdiv_nonneg_iff)
qed

section \<open>Operations on well-formed matrices\<close>

lemma mat_at_inside:
  "mat_at m i j = (if inside (row_n m) (col_n m) i j then cell (buf m) i j else Inl Throw_out_of_range)"
  by (auto simp: mat_at_def inside_def)

lemma mat_equal_iff:
  assumes "mat_wf a" "mat_wf b"
  shows "mat_equal a b = Inr (row_n a = row_n b \<and> col_n a = col_n b
           \<and> (\<forall>i j. inside (row_n a) (col_n a) i j \<longrightarrow> cell (buf a) i j = cell (buf b) i j))"
proof (cases "row_n a = row_n b \<and> col_n a = col_n b")
  case True
  have "shape (buf a) (row_n a) (col_n a)" "shape (buf b) (row_n a) (col_n a)"
    using assms True by (simp_all add: mat_wf_def)
  then show ?thesis
    using True equal_cells_inside [of "buf a" "row_n a" "col_n a" "buf b" "loop_cells (row_n a) (col_n a)"]
    by (simp add: mat_equal_def loop_cells_inside case_prod_unfold)
qed (auto simp: mat_equal_def)

lemma mat_new_value_ok:
  assumes "0 \<le> rows" "rows \<le> cols" "rows * cols \<le> int INT_MAX"
  shows "\<exists>m. mat_new_value junk rows cols v = Inr m \<and> mat_wf m \<and> row_n m = rows \<and> col_n m = cols
          \<and> (\<forall>i j. inside rows cols i j \<longrightarrow> cell (buf m) i j = Inr v)"
proof -
  obtain m0 where m0: "mat_new junk rows cols = Inr m0" "mat_wf m0" "row_n m0 = rows" "col_n m0 = cols"
    using mat_new_shape [OF assms(1,2), of junk] by blast
  obtain b where b: "copy_n m0 v (-1) = Inr (m0\<lparr>buf := b\<rparr>)" "shape b rows cols"
    "\<forall>i j. inside rows cols i j \<longrightarrow> cell b i j = Inr v"
    using copy_n_all [OF m0(2), unfolded m0(3,4), OF assms(3)] by blast
  have "mat_new_value junk rows cols v = Inr (m0\<lparr>buf := b\<rparr>)" by (simp add: mat_new_value_def m0(1) b(1))
  moreover have "mat_wf (m0\<lparr>buf := b\<rparr>)" by (simp add: mat_wf_def m0(3,4) b(2))
  ultimately show ?thesis using b(3) m0(3,4) by (intro exI [of _ "m0\<lparr>buf := b\<rparr>"] conjI) simp_all
qed

lemma mat_copy_ok:
  assumes "mat_wf a" "row_n a \<le> col_n a"
  shows "\<exists>c. mat_copy junk a = Inr c \<and> mat_wf c \<and> row_n c = row_n a \<and> col_n c = col_n a
          \<and> (\<forall>i j. inside (row_n a) (col_n a) i j \<longrightarrow> cell (buf c) i j = cell (buf a) i j)"
proof -
  have "0 \<le> row_n a" using assms(1) by (simp add: mat_wf_def shape_def)
  then obtain c0 where c0: "mat_new junk (row_n a) (col_n a) = Inr c0" "mat_wf c0" "row_n c0 = row_n a" "col_n c0 = col_n a"
    using mat_new_shape [OF _ assms(2), of junk] by blast
  obtain b where "copy_from_matrix c0 a = Inr (c0\<lparr>buf := b\<rparr>)" "shape b (row_n a) (col_n a)"
    "\<forall>i j. inside (row_n a) (col_n a) i j \<longrightarrow> cell b i j = cell (buf a) i j"
    using copy_from_matrix_cells [OF assms(1), of "buf c0" c0] c0 by (auto simp: mat_wf_def)
  then show ?thesis using c0 by (simp add: mat_copy_def mat_wf_def)
qed

lemma mat_assign_ok:
  assumes "mat_wf a" "row_n a \<le> col_n a"
  shows "\<exists>c. mat_assign junk m a = Inr c \<and> mat_wf c \<and> row_n c = row_n a \<and> col_n c = col_n a
          \<and> (\<forall>i j. inside (row_n a) (col_n a) i j \<longrightarrow> cell (buf c) i j = cell (buf a) i j)"
proof -
  have "0 \<le> row_n a" using assms(1) by (simp add: mat_wf_def shape_def)
  then obtain b0 where b0: "mat_create junk (row_n a) (col_n a) = Inr b0" "shape b0 (row_n a) (col_n a)"
    using mat_create_shape [OF _ assms(2), of junk] by blast
  let ?m = "m\<lparr>row_n := row_n a, col_n := col_n a, buf := b0\<rparr>"
  obtain b where "copy_from_matrix ?m a = Inr (?m\<lparr>buf := b\<rparr>)" "shape b (row_n a) (col_n a)"
    "\<forall>i j. inside (row_n a) (col_n a) i j \<longrightarrow> cell b i j = cell (buf a) i j"
    using copy_from_matrix_cells [OF assms(1) b0(2), of ?m] by auto
  then show ?thesis using b0 by (simp add: mat_assign_def mat_wf_def)
qed

lemma mat_resize_ok:
  assumes "mat_wf m" "0 \<le> rows" "rows \<le> cols"
  shows "\<exists>m'. mat_resize junk m rows cols = Inr m' \<and> mat_wf m' \<and> row_n m' = rows \<and> col_n m' = cols
       \<and> (\<forall>i j. inside rows cols i j \<longrightarrow>
             cell (buf m') i j = (if inside (row_n m) (col_n m) i j then cell (buf m) i j else Inr junk))"
proof -
  obtain b where b: "mat_create junk rows cols = Inr b" "shape b rows cols"
    "\<forall>i j. inside rows cols i j \<longrightarrow> cell b i j = Inr junk"
    using mat_create_shape [OF assms(2,3), of junk] by blast
  let ?cs = "loop_cells (min (row_n m) rows) (min (col_n m) cols)"
  have "\<forall>(i, j)\<in>set ?cs. inside rows cols i j \<and> (\<exists>v. cell (buf m) i j = Inr v)"
    using cell_inside [of "buf m" "row_n m" "col_n m"] assms(1)
    by (auto simp: loop_cells_inside mat_wf_def inside_def)
  then obtain b' where b': "copy_cells ?cs (cell (buf m)) b = Inr b'" "shape b' rows cols"
    "\<forall>k l. inside rows cols k l \<longrightarrow> cell b' k l = (if (k, l) \<in> set ?cs then cell (buf m) k l else cell b k l)"
    using copy_cells_inside [OF b(2)] distinct_loop_cells by blast
  have "copy_from (m\<lparr>buf := b\<rparr>) (cell (buf m)) rows cols = Inr (m\<lparr>buf := b'\<rparr>)"
    using b'(1) unfolding copy_from_def Let_def min_less_form by simp
  then have "mat_resize junk m rows cols = Inr (m\<lparr>buf := b', row_n := rows, col_n := cols\<rparr>)"
    using b(1) by (simp add: mat_resize_def)
  moreover have "mat_wf (m\<lparr>buf := b', row_n := rows, col_n := cols\<rparr>)" by (simp add: mat_wf_def b'(2))
  moreover have "cell b' i j = (if inside (row_n m) (col_n m) i j then cell (buf m) i j else Inr junk)"
    if "inside rows cols i j" for i j
    using b'(3) [rule_format, OF that] b(3) [rule_format, OF that] that
    by (auto simp: loop_cells_inside inside_def)
  ultimately show ?thesis by (intro exI [of _ "m\<lparr>buf := b', row_n := rows, col_n := cols\<rparr>"] conjI) simp_all
qed

section \<open>Properties\<close>

text \<open>
  A matrix with more rows than columns overruns its pointer array: both sized constructors and
  \<open>resize\<close>, and the vector constructor already on two rows of one element, write past the \<open>col_n\<close> row
  pointers that were allocated.
\<close>

theorem matrix_tall_overflow:
  assumes "0 \<le> cols" "cols < rows"
  shows "mat_new junk rows cols = Inl Out_of_bounds
       \<and> mat_new_value junk rows cols v = Inl Out_of_bounds
       \<and> mat_resize junk m rows cols = Inl Out_of_bounds
       \<and> mat_of_vectors junk [[a], [b]] = Inl Out_of_bounds"
  using assms
  by (simp add: mat_new_def mat_create_def mat_new_value_def mat_resize_def mat_of_vectors_def)

theorem matrix_tall_overflow_witness: "mat_new (0::nat) 3 2 = Inl Out_of_bounds"
  using matrix_tall_overflow [of 2 3 "0::nat"] by simp

text \<open>
  C35. With at most as many rows as columns a matrix behaves as a table: the filling constructor
  succeeds and every cell holds the value, \<open>at\<close> returns the cell for indices inside the matrix and
  throws for all others, copying and assignment give a matrix with the same cells that compares
  equal, \<open>==\<close> holds exactly for equal dimensions and equal cells, and \<open>resize\<close> keeps every cell that
  is inside both shapes.
\<close>

theorem matrix_is_a_table:
  assumes "0 \<le> rows" "rows \<le> cols" "rows * cols \<le> int INT_MAX" "mat_wf a" "row_n a \<le> col_n a" "mat_wf b"
  shows "(\<exists>m. mat_new_value junk rows cols v = Inr m
           \<and> (\<forall>i j. mat_at m i j = (if inside rows cols i j then Inr v else Inl Throw_out_of_range)))
       \<and> (\<exists>c. mat_copy junk a = Inr c \<and> (\<forall>i j. mat_at c i j = mat_at a i j) \<and> mat_equal a c = Inr True)
       \<and> (\<exists>c. mat_assign junk b a = Inr c \<and> (\<forall>i j. mat_at c i j = mat_at a i j) \<and> mat_equal a c = Inr True)
       \<and> mat_equal a b = Inr (row_n a = row_n b \<and> col_n a = col_n b \<and> (\<forall>i j. mat_at a i j = mat_at b i j))
       \<and> (\<exists>d. mat_resize junk b rows cols = Inr d \<and> row_n d = rows \<and> col_n d = cols
           \<and> (\<forall>i j. inside rows cols i j \<and> inside (row_n b) (col_n b) i j \<longrightarrow> mat_at d i j = mat_at b i j))"
proof (intro conjI)
  show "\<exists>m. mat_new_value junk rows cols v = Inr m
           \<and> (\<forall>i j. mat_at m i j = (if inside rows cols i j then Inr v else Inl Throw_out_of_range))"
    using mat_new_value_ok [OF assms(1-3), of junk v] by (auto simp: mat_at_inside)
  show "\<exists>c. mat_copy junk a = Inr c \<and> (\<forall>i j. mat_at c i j = mat_at a i j) \<and> mat_equal a c = Inr True"
    using mat_copy_ok [OF assms(4,5), of junk] mat_equal_iff [OF assms(4)] by (auto simp: mat_at_inside)
  show "\<exists>c. mat_assign junk b a = Inr c \<and> (\<forall>i j. mat_at c i j = mat_at a i j) \<and> mat_equal a c = Inr True"
    using mat_assign_ok [OF assms(4,5), of junk b] mat_equal_iff [OF assms(4)] by (auto simp: mat_at_inside)
  show "mat_equal a b = Inr (row_n a = row_n b \<and> col_n a = col_n b \<and> (\<forall>i j. mat_at a i j = mat_at b i j))"
    unfolding mat_equal_iff [OF assms(4,6)] by (auto simp: mat_at_inside)
  show "\<exists>d. mat_resize junk b rows cols = Inr d \<and> row_n d = rows \<and> col_n d = cols
           \<and> (\<forall>i j. inside rows cols i j \<and> inside (row_n b) (col_n b) i j \<longrightarrow> mat_at d i j = mat_at b i j)"
    using mat_resize_ok [OF assms(6,1,2), of junk] by (auto simp: mat_at_inside)
qed

theorem matrix_is_a_table_witness:
  "\<exists>m. mat_new_value (0::nat) 2 3 7 = Inr m \<and> mat_at m 1 2 = Inr 7 \<and> mat_at m 2 0 = Inl Throw_out_of_range"
proof -
  obtain m where "mat_new_value (0::nat) 2 3 7 = Inr m" "mat_wf m" "row_n m = 2" "col_n m = 3"
    using mat_new_value_ok [of 2 3 "0::nat" 7] by (auto simp: INT_MAX_def)
  then show ?thesis
    using matrix_is_a_table [of 2 3 m m 0 7] by (auto simp: INT_MAX_def inside_def)
qed

text \<open>Dereferencing an iterator inside the matrix reads the cell its offset stands for.\<close>

lemma iter_deref_offset:
  assumes "mat_wf m" "0 \<le> k" "k < row_n m * col_n m" "it_n_col it = col_n m" "it_offset it = k"
  shows "iter_deref m it = mat_at m (k div col_n m) (k mod col_n m)"
proof -
  have "0 < col_n m" "inside (row_n m) (col_n m) (k div col_n m) (k mod col_n m)"
    using offset_inside assms(1-3) by (auto simp: mat_wf_def shape_def)
  then show ?thesis
    using assms(2,4,5) sdiv_smod_nonneg [of k "col_n m"]
    by (simp add: iter_deref_def iter_row_def iter_col_def mat_at_inside mat_get_def)
qed

lemma viter_deref_offset:
  assumes "mat_wf m" "0 \<le> k" "k < row_n m * col_n m" "it_n_row it = row_n m" "it_offset it = k"
  shows "viter_deref m it = mat_at m (k mod row_n m) (k div row_n m)"
proof -
  have dims: "0 < row_n m" "inside (col_n m) (row_n m) (k div row_n m) (k mod row_n m)"
    using offset_inside [of k "col_n m" "row_n m"] assms(1-3) by (auto simp: mat_wf_def shape_def mult.commute)
  then have "inside (row_n m) (col_n m) (k mod row_n m) (k div row_n m)" by (simp add: inside_def)
  then show ?thesis
    using assms(2,4,5) dims(1) sdiv_smod_nonneg [of k "row_n m"]
    by (simp add: viter_deref_def viter_row_def viter_col_def mat_at_inside mat_get_def)
qed

text \<open>A traversal from \<open>begin\<close> to \<open>end\<close> with an iterator that reads \<open>g k\<close> at offset \<open>k\<close>.\<close>

lemma traverse_all:
  assumes "mat_wf m" "n = row_n m * col_n m" "it_mat e = addr" "it_offset e = n"
    and "\<And>k. 0 \<le> k \<Longrightarrow> k < n \<Longrightarrow> deref ((mat_begin addr m)\<lparr>it_offset := k\<rparr>) = f k"
    and "\<And>k. 0 \<le> k \<Longrightarrow> k < n \<Longrightarrow> \<exists>v. f k = Inr v"
  shows "\<exists>vs. traverse (nat n) deref (mat_begin addr m) e = Some (Inr vs)
            \<and> int (length vs) = n \<and> (\<forall>k<nat n. Inr (vs ! k) = f (int k))"
proof -
  have n: "0 \<le> n" using assms(1,2) by (simp add: mat_wf_def shape_def)
  have "\<forall>k. \<exists>v. 0 \<le> k \<and> k < n \<longrightarrow> f k = Inr v" using assms(6) by blast
  then obtain g where g: "\<And>k. 0 \<le> k \<Longrightarrow> k < n \<Longrightarrow> f k = Inr (g k)" by metis
  have "traverse (nat n) deref (mat_begin addr m) e
      = Some (Inr (map g [it_offset (mat_begin addr m)..it_offset e - 1]))"
    by (rule traverse_offsets) (use assms(2-5) g n in \<open>auto simp: mat_begin_def\<close>)
  then have "traverse (nat n) deref (mat_begin addr m) e = Some (Inr (map g [0..n - 1]))"
    using assms(4) by (simp add: mat_begin_def)
  then show ?thesis using n g by (intro exI [of _ "map g [0..n - 1]"]) auto
qed

text \<open>Random access: the offset arithmetic of an iterator is that of its position.\<close>

lemma iter_random_access:
  "(iter_inc ^^ k) it = iter_add it (int k)" "iter_dec (iter_inc it) = it"
  "iter_sub (iter_add it n) n = it" "iter_diff (iter_add it n) it = n"
  "iter_less it (iter_add it n) \<longleftrightarrow> 0 < n" "iter_eq it (iter_add it n) \<longleftrightarrow> n = 0"
  by (induction k)
    (simp_all add: iter_inc_def iter_add_def iter_dec_def iter_sub_def iter_diff_def iter_less_def iter_eq_def add_ac)

lemma mat_at_total:
  "mat_wf m \<Longrightarrow> inside (row_n m) (col_n m) i j \<Longrightarrow> \<exists>v. mat_at m i j = Inr v"
  using cell_inside by (auto simp: mat_at_inside mat_wf_def)

lemma find_offset_inside:
  assumes "inside rows cols i j"
  shows "0 \<le> i * cols + j" "i * cols + j < rows * cols" "(i * cols + j) div cols = i" "(i * cols + j) mod cols = j"
proof -
  have ij: "0 \<le> i" "i < rows" "0 \<le> j" "j < cols" using assms by (simp_all add: inside_def)
  then show "0 \<le> i * cols + j" by simp
  have "(i + 1) * cols \<le> rows * cols" using ij by (intro mult_right_mono) simp_all
  then show "i * cols + j < rows * cols" using ij(4) by (simp add: distrib_right)
  show "(i * cols + j) div cols = i" "(i * cols + j) mod cols = j" using ij(3,4) by simp_all
qed

text \<open>
  The iterators visit every cell once: from \<open>begin\<close> to \<open>end\<close> the horizontal iterator yields the cells
  row by row and the vertical iterator column by column, after exactly as many steps as there are
  cells and without leaving the matrix, and \<open>find\<close> and \<open>vfind\<close> address the cell they name.
\<close>

theorem matrix_iterators_visit_all:
  assumes "mat_wf m" "n = row_n m * col_n m" "n \<le> int INT_MAX"
  shows "\<exists>e vs ws. mat_end addr m = Inr e
       \<and> traverse (nat n) (iter_deref m) (mat_begin addr m) e = Some (Inr vs)
       \<and> traverse (nat n) (viter_deref m) (mat_begin addr m) e = Some (Inr ws)
       \<and> int (length vs) = n \<and> int (length ws) = n
       \<and> (\<forall>k<nat n. Inr (vs ! k) = mat_at m (int k div col_n m) (int k mod col_n m))
       \<and> (\<forall>k<nat n. Inr (ws ! k) = mat_at m (int k mod row_n m) (int k div row_n m))
       \<and> (\<forall>i j. inside (row_n m) (col_n m) i j \<longrightarrow>
             iter_deref m (mat_find addr m i j) = mat_at m i j \<and> viter_deref m (mat_vfind addr m i j) = mat_at m i j)"
proof -
  obtain e where e: "mat_end addr m = Inr e" "it_mat e = addr" "it_offset e = n"
    using mat_size_small [OF assms(1)] assms(2,3) by (simp add: mat_end_def)
  have dims: "0 \<le> col_n m" "0 \<le> row_n m" using assms(1) by (simp_all add: mat_wf_def shape_def)
  have h: "\<exists>vs. traverse (nat n) (iter_deref m) (mat_begin addr m) e = Some (Inr vs)
      \<and> int (length vs) = n \<and> (\<forall>k<nat n. Inr (vs ! k) = mat_at m (int k div col_n m) (int k mod col_n m))"
    by (rule traverse_all [OF assms(1,2) e(2,3)])
      (use assms dims in \<open>simp_all add: iter_deref_offset mat_begin_def mat_at_total offset_inside(2)\<close>)
  have "\<exists>v. mat_at m (k mod row_n m) (k div row_n m) = Inr v" if "0 \<le> k" "k < n" for k
    using offset_inside(2) [of k "col_n m" "row_n m"] that assms dims
    by (intro mat_at_total) (simp_all add: inside_def mult.commute)
  then have v: "\<exists>vs. traverse (nat n) (viter_deref m) (mat_begin addr m) e = Some (Inr vs)
      \<and> int (length vs) = n \<and> (\<forall>k<nat n. Inr (vs ! k) = mat_at m (int k mod row_n m) (int k div row_n m))"
    by (intro traverse_all [OF assms(1,2) e(2,3)]) (use assms in \<open>simp_all add: viter_deref_offset mat_begin_def\<close>)
  have "iter_deref m (mat_find addr m i j) = mat_at m i j \<and> viter_deref m (mat_vfind addr m i j) = mat_at m i j"
    if ins: "inside (row_n m) (col_n m) i j" for i j
  proof -
    have tr: "inside (col_n m) (row_n m) j i" using ins by (simp add: inside_def)
    note f = find_offset_inside [OF ins] and g = find_offset_inside [OF tr]
    have "j * row_n m + i < row_n m * col_n m" using g(2) by (simp only: mult.commute)
    then show ?thesis
      using iter_deref_offset [OF assms(1) f(1,2), of "mat_find addr m i j"]
        viter_deref_offset [OF assms(1) g(1), of "mat_vfind addr m i j"]
      unfolding f(3,4) g(3,4) by (simp add: mat_find_def mat_vfind_def)
  qed
  with h v e(1) show ?thesis by blast
qed

theorem matrix_iterators_visit_all_witness:
  "\<exists>m e vs ws. mat_of_vectors (0::nat) [[1, 2, 3], [4, 5, 6]] = Inr m \<and> mat_end 0 m = Inr e
     \<and> traverse 6 (iter_deref m) (mat_begin 0 m) e = Some (Inr vs)
     \<and> traverse 6 (viter_deref m) (mat_begin 0 m) e = Some (Inr ws) \<and> length ws = 6"
proof -
  let ?m = "\<lparr>buf = [Some [1, 2, 3], Some [4, 5, 6], None], row_n = 2, col_n = 3\<rparr> :: nat matrix"
  have "mat_of_vectors (0::nat) [[1, 2, 3], [4, 5, 6]] = Inr ?m" by code_simp
  moreover have "mat_wf ?m" by (simp add: mat_wf_def shape_def less_Suc_eq numeral_eq_Suc)
  ultimately show ?thesis
    using matrix_iterators_visit_all [of ?m 6 0] by (auto simp: INT_MAX_def)
qed

end
