(* ===== verification/Counter.thy ===== *)
theory Counter
  imports HjPrelude "HOL-Library.Signed_Division"
begin

text \<open>
  \<open>src/hj/sync/counter.hpp\<close>: a bounded counter over an atomic integer, updated by compare-and-swap
  loops.

  The class is a template over the integer type \<open>T\<close>. Values are integers; a \<open>num_type\<close> says what
  the limits of \<open>T\<close> are and in which type \<open>tmp + _step\<close> is computed after the integral promotions:
  an unsigned type, where it wraps, or a signed type, where leaving the range is undefined.

  The first part is the class as one thread sees it. The second part runs any number of threads on
  shared counters, one atomic access per step: the loads, the compare-and-swap that succeeds, fails
  because the value changed, or fails spuriously.
\<close>

section \<open>Definitions\<close>

subsection \<open>Arithmetic in T\<close>

record num_type =
  t_min :: int
  t_max :: int
  p_min :: int
  p_max :: int
  p_unsigned :: bool

definition int32_type :: num_type where
  "int32_type = \<lparr>t_min = - (2 ^ 31), t_max = 2 ^ 31 - 1, p_min = - (2 ^ 31), p_max = 2 ^ 31 - 1, p_unsigned = False\<rparr>"

definition int8_type :: num_type where
  "int8_type = \<lparr>t_min = - 128, t_max = 127, p_min = - (2 ^ 31), p_max = 2 ^ 31 - 1, p_unsigned = False\<rparr>"

definition uint32_type :: num_type where
  "uint32_type = \<lparr>t_min = 0, t_max = 2 ^ 32 - 1, p_min = 0, p_max = 2 ^ 32 - 1, p_unsigned = True\<rparr>"

definition arith :: "num_type \<Rightarrow> int \<Rightarrow> int result" where
  "arith ty x =
     (if p_unsigned ty then Inr (x mod (p_max ty + 1))
      else if p_min ty \<le> x \<and> x \<le> p_max ty then Inr x
      else Inl Signed_overflow)"

text \<open>Conversion of the computed value back to \<open>T\<close>.\<close>

definition narrow :: "num_type \<Rightarrow> int \<Rightarrow> int" where
  "narrow ty x = (x - t_min ty) mod (t_max ty - t_min ty + 1) + t_min ty"

datatype counter_op = CAdd | CSub | CMul | CDiv

definition candidate :: "num_type \<Rightarrow> counter_op \<Rightarrow> int \<Rightarrow> int \<Rightarrow> int result" where
  "candidate ty op x y =
     (case op of
        CAdd \<Rightarrow> arith ty (x + y)
      | CSub \<Rightarrow> arith ty (x - y)
      | CMul \<Rightarrow> arith ty (x * y)
      | CDiv \<Rightarrow> if y = 0 then Inl Division_by_zero else arith ty (x sdiv y))"

subsection \<open>The class, one thread\<close>

record counter =
  c_value :: int
  c_max :: int
  c_min :: int
  c_step :: int

definition counter_full :: "int \<Rightarrow> int \<Rightarrow> int \<Rightarrow> int \<Rightarrow> counter" where
  "counter_full value mn mx step = \<lparr>c_value = value, c_max = mx, c_min = mn, c_step = step\<rparr>"

definition counter_of :: "num_type \<Rightarrow> int \<Rightarrow> counter" where
  "counter_of ty value = \<lparr>c_value = value, c_max = t_max ty, c_min = t_min ty, c_step = 1\<rparr>"

definition counter_of_min :: "num_type \<Rightarrow> int \<Rightarrow> int \<Rightarrow> counter" where
  "counter_of_min ty value mn = \<lparr>c_value = value, c_max = t_max ty, c_min = mn, c_step = 1\<rparr>"

definition counter_of_min_step :: "num_type \<Rightarrow> int \<Rightarrow> int \<Rightarrow> int \<Rightarrow> counter" where
  "counter_of_min_step ty value mn step = \<lparr>c_value = value, c_max = t_max ty, c_min = mn, c_step = step\<rparr>"

definition counter_copy :: "counter \<Rightarrow> counter" where
  "counter_copy rhs = \<lparr>c_value = c_value rhs, c_max = c_max rhs, c_min = c_min rhs, c_step = c_step rhs\<rparr>"

definition outside :: "counter \<Rightarrow> int \<Rightarrow> bool" where
  "outside c v \<longleftrightarrow> v > c_max c \<or> v < c_min c"

text \<open>One run of a compare-and-swap loop that nobody interferes with.\<close>

definition cas_update :: "num_type \<Rightarrow> counter_op \<Rightarrow> counter \<Rightarrow> int \<Rightarrow> counter result" where
  "cas_update ty op c arg =
     (let tmp = c_value c in
      case candidate ty op tmp arg of
        Inl err \<Rightarrow> Inl err
      | Inr v \<Rightarrow> if outside c v then Inr c else Inr (c\<lparr>c_value := narrow ty v\<rparr>))"

definition counter_pre_inc :: "num_type \<Rightarrow> counter \<Rightarrow> counter result" where
  "counter_pre_inc ty c = cas_update ty CAdd c (c_step c)"

definition counter_inc :: "num_type \<Rightarrow> counter \<Rightarrow> counter result" where
  "counter_inc ty c = cas_update ty CAdd c (c_step c)"

definition counter_pre_dec :: "num_type \<Rightarrow> counter \<Rightarrow> counter result" where
  "counter_pre_dec ty c = cas_update ty CSub c (c_step c)"

definition counter_dec :: "num_type \<Rightarrow> counter \<Rightarrow> counter result" where
  "counter_dec ty c = cas_update ty CSub c (c_step c)"

text \<open>The postfix operators return a counter with the old value beside the updated object.\<close>

definition counter_post_inc :: "num_type \<Rightarrow> counter \<Rightarrow> (counter \<times> counter) result" where
  "counter_post_inc ty c =
     map_sum id (\<lambda>c'. (c', counter_full (c_value c) (c_min c) (c_max c) (c_step c))) (cas_update ty CAdd c (c_step c))"

definition counter_post_dec :: "num_type \<Rightarrow> counter \<Rightarrow> (counter \<times> counter) result" where
  "counter_post_dec ty c =
     map_sum id (\<lambda>c'. (c', counter_full (c_value c) (c_min c) (c_max c) (c_step c))) (cas_update ty CSub c (c_step c))"

text \<open>The binary operators leave their operands alone and build a new counter.\<close>

definition combine :: "num_type \<Rightarrow> counter_op \<Rightarrow> counter \<Rightarrow> int \<Rightarrow> counter result" where
  "combine ty op c arg =
     (let tmp = c_value c in
      case candidate ty op tmp arg of
        Inl err \<Rightarrow> Inl err
      | Inr v \<Rightarrow> if outside c v then Inr (counter_full tmp (c_min c) (c_max c) (c_step c))
                 else Inr (counter_full (narrow ty v) (c_min c) (c_max c) (c_step c)))"

definition counter_plus :: "num_type \<Rightarrow> counter \<Rightarrow> int \<Rightarrow> counter result" where
  "counter_plus ty c arg = combine ty CAdd c arg"

definition counter_plus_ct :: "num_type \<Rightarrow> counter \<Rightarrow> counter \<Rightarrow> counter result" where
  "counter_plus_ct ty c ct = combine ty CAdd c (c_value ct)"

definition counter_minus :: "num_type \<Rightarrow> counter \<Rightarrow> int \<Rightarrow> counter result" where
  "counter_minus ty c arg = combine ty CSub c arg"

definition counter_minus_ct :: "num_type \<Rightarrow> counter \<Rightarrow> counter \<Rightarrow> counter result" where
  "counter_minus_ct ty c ct = combine ty CSub c (c_value ct)"

definition counter_times :: "num_type \<Rightarrow> counter \<Rightarrow> int \<Rightarrow> counter result" where
  "counter_times ty c arg = combine ty CMul c arg"

definition counter_times_ct :: "num_type \<Rightarrow> counter \<Rightarrow> counter \<Rightarrow> counter result" where
  "counter_times_ct ty c ct = combine ty CMul c (c_value ct)"

definition counter_div :: "num_type \<Rightarrow> counter \<Rightarrow> int \<Rightarrow> counter result" where
  "counter_div ty c arg = combine ty CDiv c arg"

definition counter_div_ct :: "num_type \<Rightarrow> counter \<Rightarrow> counter \<Rightarrow> counter result" where
  "counter_div_ct ty c ct = combine ty CDiv c (c_value ct)"

definition value_div_counter :: "num_type \<Rightarrow> int \<Rightarrow> counter \<Rightarrow> counter result" where
  "value_div_counter ty arg ct =
     (case candidate ty CDiv arg (c_value ct) of
        Inl err \<Rightarrow> Inl err
      | Inr v \<Rightarrow> if outside ct v then Inr (counter_full arg (c_min ct) (c_max ct) (c_step ct))
                 else Inr (counter_full (narrow ty v) (c_min ct) (c_max ct) (c_step ct)))"

definition counter_plus_assign :: "num_type \<Rightarrow> counter \<Rightarrow> int \<Rightarrow> counter result" where
  "counter_plus_assign ty c arg = cas_update ty CAdd c arg"

definition counter_plus_assign_ct :: "num_type \<Rightarrow> counter \<Rightarrow> counter \<Rightarrow> counter result" where
  "counter_plus_assign_ct ty c ct = cas_update ty CAdd c (c_value ct)"

definition counter_minus_assign :: "num_type \<Rightarrow> counter \<Rightarrow> int \<Rightarrow> counter result" where
  "counter_minus_assign ty c arg = cas_update ty CSub c arg"

definition counter_minus_assign_ct :: "num_type \<Rightarrow> counter \<Rightarrow> counter \<Rightarrow> counter result" where
  "counter_minus_assign_ct ty c ct = cas_update ty CSub c (c_value ct)"

definition counter_times_assign :: "num_type \<Rightarrow> counter \<Rightarrow> int \<Rightarrow> counter result" where
  "counter_times_assign ty c arg = cas_update ty CMul c arg"

definition counter_times_assign_ct :: "num_type \<Rightarrow> counter \<Rightarrow> counter \<Rightarrow> counter result" where
  "counter_times_assign_ct ty c ct = cas_update ty CMul c (c_value ct)"

definition counter_div_assign :: "num_type \<Rightarrow> counter \<Rightarrow> int \<Rightarrow> counter result" where
  "counter_div_assign ty c arg = cas_update ty CDiv c arg"

definition counter_div_assign_ct :: "num_type \<Rightarrow> counter \<Rightarrow> counter \<Rightarrow> counter result" where
  "counter_div_assign_ct ty c ct = cas_update ty CDiv c (c_value ct)"

definition counter_assign_ct :: "counter \<Rightarrow> counter \<Rightarrow> counter" where
  "counter_assign_ct c ct =
     c\<lparr>c_min := c_min ct, c_max := c_max ct, c_step := c_step ct, c_value := c_value ct\<rparr>"

definition counter_assign :: "num_type \<Rightarrow> counter \<Rightarrow> int \<Rightarrow> counter" where
  "counter_assign ty c value =
     c\<lparr>c_min := t_min ty, c_max := t_max ty, c_step := 1, c_value := value\<rparr>"

definition counter_reset :: "counter \<Rightarrow> int \<Rightarrow> counter" where
  "counter_reset c value = (if outside c value then c else c\<lparr>c_value := value\<rparr>)"

definition counter_eq :: "counter \<Rightarrow> counter \<Rightarrow> bool" where
  "counter_eq ct1 ct2 \<longleftrightarrow> c_value ct1 = c_value ct2"

definition counter_less :: "counter \<Rightarrow> counter \<Rightarrow> bool" where
  "counter_less ct1 ct2 \<longleftrightarrow> c_value ct1 < c_value ct2"

definition counter_leq :: "counter \<Rightarrow> counter \<Rightarrow> bool" where
  "counter_leq ct1 ct2 \<longleftrightarrow> c_value ct1 \<le> c_value ct2"

subsection \<open>Threads\<close>

text \<open>The argument of an update: the counter's own step, a value, or the value of another counter.\<close>

datatype operand = Own_step | Literal int | Value_of nat

datatype counter_call = Update counter_op operand | Reset int

datatype counter_done = Applied int | Rejected

datatype counter_pc =
    Start
  | Loaded int
  | Loaded_arg int int
  | Finished "counter_done result"

record counter_system =
  counters :: "nat \<Rightarrow> counter"
  pcs :: "nat \<Rightarrow> counter_pc"

definition operand_value :: "(nat \<Rightarrow> counter) \<Rightarrow> nat \<Rightarrow> operand \<Rightarrow> int" where
  "operand_value h a arg =
     (case arg of Own_step \<Rightarrow> c_step (h a) | Literal v \<Rightarrow> v | Value_of b \<Rightarrow> c_value (h b))"

text \<open>
  \<open>compare_exchange_weak(expected, desired)\<close> on the counter at \<open>a\<close>: it stores and finishes when the
  value is still the expected one, and starts the loop again otherwise or on a spurious failure.
\<close>

definition cas_attempt :: "bool \<Rightarrow> nat \<Rightarrow> nat \<Rightarrow> int \<Rightarrow> int \<Rightarrow> counter_system \<Rightarrow> counter_system" where
  "cas_attempt spurious t a expected desired s =
     (if \<not> spurious \<and> c_value (counters s a) = expected
      then s\<lparr>counters := (counters s)(a := (counters s a)\<lparr>c_value := desired\<rparr>),
             pcs := (pcs s)(t := Finished (Inr (Applied expected)))\<rparr>
      else s\<lparr>pcs := (pcs s)(t := Start)\<rparr>)"

text \<open>One step of thread \<open>t\<close>, which executes \<open>call\<close> on the counter at \<open>a\<close>.\<close>

definition counter_step ::
  "num_type \<Rightarrow> bool \<Rightarrow> nat \<Rightarrow> nat \<Rightarrow> counter_call \<Rightarrow> counter_system \<Rightarrow> counter_system" where
  "counter_step ty spurious t a call s =
     (case pcs s t of
        Start \<Rightarrow>
          (case call of
             Reset v \<Rightarrow> if outside (counters s a) v then s\<lparr>pcs := (pcs s)(t := Finished (Inr Rejected))\<rparr>
                        else s\<lparr>pcs := (pcs s)(t := Loaded (c_value (counters s a)))\<rparr>
           | Update op arg \<Rightarrow> s\<lparr>pcs := (pcs s)(t := Loaded (c_value (counters s a)))\<rparr>)
      | Loaded tmp \<Rightarrow>
          (case call of
             Reset v \<Rightarrow> cas_attempt spurious t a tmp v s
           | Update op arg \<Rightarrow> s\<lparr>pcs := (pcs s)(t := Loaded_arg tmp (operand_value (counters s) a arg))\<rparr>)
      | Loaded_arg tmp y \<Rightarrow>
          (case call of
             Reset v \<Rightarrow> s
           | Update op arg \<Rightarrow>
               (case candidate ty op tmp y of
                  Inl err \<Rightarrow> s\<lparr>pcs := (pcs s)(t := Finished (Inl err))\<rparr>
                | Inr v \<Rightarrow> if outside (counters s a) v then s\<lparr>pcs := (pcs s)(t := Finished (Inr Rejected))\<rparr>
                           else cas_attempt spurious t a tmp (narrow ty v) s))
      | Finished r \<Rightarrow> s)"

text \<open>All interleavings of the threads \<open>t < n\<close>, thread \<open>t\<close> running \<open>calls t\<close>.\<close>

inductive counter_run ::
  "num_type \<Rightarrow> nat \<Rightarrow> (nat \<Rightarrow> nat \<times> counter_call) \<Rightarrow> counter_system \<Rightarrow> counter_system \<Rightarrow> bool"
  for ty n calls s0 where
  run_init: "counter_run ty n calls s0 s0"
| run_step: "\<lbrakk>counter_run ty n calls s0 s; t < n\<rbrakk> \<Longrightarrow>
             counter_run ty n calls s0 (counter_step ty spurious t (fst (calls t)) (snd (calls t)) s)"

section \<open>Bounds\<close>

text \<open>The bounds of a counter lie in \<open>T\<close>, and \<open>T\<close> in the type it is promoted to.\<close>

definition type_ok :: "num_type \<Rightarrow> bool" where
  "type_ok ty \<longleftrightarrow> p_min ty \<le> t_min ty \<and> t_min ty \<le> t_max ty \<and> t_max ty \<le> p_max ty
     \<and> (p_unsigned ty \<longrightarrow> p_min ty = 0)"

definition bounded :: "num_type \<Rightarrow> counter \<Rightarrow> bool" where
  "bounded ty c \<longleftrightarrow> t_min ty \<le> c_min c \<and> c_min c \<le> c_value c \<and> c_value c \<le> c_max c \<and> c_max c \<le> t_max ty"

lemma narrow_id: "t_min ty \<le> v \<Longrightarrow> v \<le> t_max ty \<Longrightarrow> narrow ty v = v"
  by (simp add: narrow_def)

lemma narrow_accepted: "bounded ty c \<Longrightarrow> \<not> outside c v \<Longrightarrow> narrow ty v = v"
  by (rule narrow_id) (simp_all add: bounded_def outside_def)

lemma cas_update_cases:
  assumes "bounded ty c"
  shows "cas_update ty op c arg =
     (case candidate ty op (c_value c) arg of
        Inl err \<Rightarrow> Inl err
      | Inr v \<Rightarrow> Inr (if outside c v then c else c\<lparr>c_value := v\<rparr>))"
  using narrow_accepted [OF assms] by (auto simp: cas_update_def Let_def split: sum.splits)


lemma combine_cas_update: "combine ty op c arg = map_sum id counter_copy (cas_update ty op c arg)"
  by (auto simp: combine_def cas_update_def counter_copy_def counter_full_def Let_def split: sum.splits)

lemma arith_exact: "type_ok ty \<Longrightarrow> p_min ty \<le> x \<Longrightarrow> x \<le> p_max ty \<Longrightarrow> arith ty x = Inr x"
  by (auto simp: arith_def type_ok_def)

section \<open>Interleavings\<close>

lemma outside_bounds: "c_max c = c_max d \<Longrightarrow> c_min c = c_min d \<Longrightarrow> outside c v = outside d v"
  by (simp add: outside_def)

text \<open>What a thread may be doing: a reset never reads an argument, and it has passed its guard.\<close>

definition pc_ok :: "counter \<Rightarrow> counter_call \<Rightarrow> counter_pc \<Rightarrow> bool" where
  "pc_ok c call pc \<longleftrightarrow>
     (case (call, pc) of
        (Reset v, Loaded tmp) \<Rightarrow> \<not> outside c v
      | (Reset v, Loaded_arg tmp y) \<Rightarrow> False
      | _ \<Rightarrow> True)"

definition same_limits :: "counter \<Rightarrow> counter \<Rightarrow> bool" where
  "same_limits c d \<longleftrightarrow> c_max c = c_max d \<and> c_min c = c_min d \<and> c_step c = c_step d"






lemma counter_reset_bounded:
  "bounded ty c \<Longrightarrow> bounded ty (counter_reset c v) \<and> same_limits (counter_reset c v) c"
  by (auto simp: counter_reset_def bounded_def outside_def same_limits_def)




section \<open>Concurrent increments\<close>

definition applied :: "nat \<Rightarrow> counter_system \<Rightarrow> nat set" where
  "applied n s = {t. t < n \<and> (\<exists>old. pcs s t = Finished (Inr (Applied old)))}"

text \<open>The values that \<open>n\<close> increments of a counter can meet.\<close>

definition ticket :: "nat \<Rightarrow> counter \<Rightarrow> int \<Rightarrow> bool" where
  "ticket n c v \<longleftrightarrow> (\<exists>k<n. v = c_value c + c_step c * int k)"

definition inc_pc_ok :: "nat \<Rightarrow> counter \<Rightarrow> int \<Rightarrow> counter_pc \<Rightarrow> bool" where
  "inc_pc_ok n c v pc \<longleftrightarrow>
     (case pc of
        Start \<Rightarrow> True
      | Loaded tmp \<Rightarrow> ticket n c tmp
      | Loaded_arg tmp y \<Rightarrow> ticket n c tmp \<and> y = c_step c
      | Finished (Inr (Applied old)) \<Rightarrow> ticket n c old \<and> old + c_step c \<le> v
      | _ \<Rightarrow> False)"

definition inc_inv :: "nat \<Rightarrow> counter \<Rightarrow> counter_system \<Rightarrow> bool" where
  "inc_inv n c s \<longleftrightarrow>
     counters s 0 = c\<lparr>c_value := c_value c + c_step c * int (card (applied n s))\<rparr>
   \<and> (\<forall>t<n. inc_pc_ok n c (c_value (counters s 0)) (pcs s t))
   \<and> (\<forall>t<n. \<forall>u<n. \<forall>old. pcs s t = Finished (Inr (Applied old)) \<and> pcs s u = Finished (Inr (Applied old)) \<longrightarrow> t = u)"

lemma applied_less:
  assumes "t < n" "\<And>old. pcs s t \<noteq> Finished (Inr (Applied old))"
  shows "card (applied n s) < n"
proof -
  have "applied n s \<subset> {..<n}" using assms by (auto simp: applied_def)
  then show ?thesis using psubset_card_mono [of "{..<n}"] by simp
qed

text \<open>A step that stays local to its thread keeps the invariant.\<close>

lemma inc_inv_local:
  assumes "inc_inv n c s" "t < n" "inc_pc_ok n c (c_value (counters s 0)) pc"
    and "\<And>old. pcs s t \<noteq> Finished (Inr (Applied old))" "\<And>old. pc \<noteq> Finished (Inr (Applied old))"
  shows "inc_inv n c (s\<lparr>pcs := (pcs s)(t := pc)\<rparr>)"
proof -
  have "applied n (s\<lparr>pcs := (pcs s)(t := pc)\<rparr>) = applied n s"
    using assms(4,5) by (auto simp: applied_def)
  then show ?thesis using assms by (auto simp: inc_inv_def)
qed

text \<open>A successful compare-and-swap hands out the next ticket.\<close>

lemma inc_pc_ok_mono: "v \<le> w \<Longrightarrow> inc_pc_ok n c v pc \<Longrightarrow> inc_pc_ok n c w pc"
  by (auto simp: inc_pc_ok_def split: counter_pc.splits sum.splits counter_done.splits)

lemma inc_inv_applied:
  assumes inv: "inc_inv n c s" and t: "t < n" "\<And>old. pcs s t \<noteq> Finished (Inr (Applied old))"
    and step: "0 < c_step c" and tk: "ticket n c (c_value (counters s 0))"
  shows "inc_inv n c (s\<lparr>counters := (counters s)(0 := (counters s 0)\<lparr>c_value := c_value (counters s 0) + c_step c\<rparr>),
                       pcs := (pcs s)(t := Finished (Inr (Applied (c_value (counters s 0)))))\<rparr>)" (is "inc_inv n c ?s'")
proof -
  have "applied n ?s' = insert t (applied n s)" "t \<notin> applied n s" using t by (auto simp: applied_def)
  moreover have "finite (applied n s)" by (simp add: applied_def)
  ultimately have card: "card (applied n ?s') = Suc (card (applied n s))" by simp
  have val: "counters ?s' 0 = c\<lparr>c_value := c_value c + c_step c * int (card (applied n ?s'))\<rparr>"
    using inv unfolding card by (simp add: inc_inv_def algebra_simps)
  have old: "old + c_step c \<le> c_value (counters s 0)" if "u < n" "pcs s u = Finished (Inr (Applied old))" for u old
    using inv that unfolding inc_inv_def inc_pc_ok_def by fastforce
  have pc: "inc_pc_ok n c (c_value (counters s 0)) (pcs s u)" if "u < n" for u
    using inv that unfolding inc_inv_def by blast
  have "inc_pc_ok n c (c_value (counters ?s' 0)) (pcs ?s' u)" if "u < n" for u
    using pc [OF that] step tk inc_pc_ok_mono [of "c_value (counters s 0)" "c_value (counters ?s' 0)"]
    by (simp add: inc_pc_ok_def)
  moreover have "u = w" if "u < n" "w < n" "pcs ?s' u = Finished (Inr (Applied old))" "pcs ?s' w = Finished (Inr (Applied old))"
    for u w old
  proof (cases "u = t \<or> w = t")
    case True
    then show ?thesis using that old [of u old] old [of w old] step by (auto split: if_splits)
  next
    case False
    then have "pcs s u = Finished (Inr (Applied old))" "pcs s w = Finished (Inr (Applied old))" using that by simp_all
    then show ?thesis using inv that(1,2) unfolding inc_inv_def by blast
  qed
  ultimately show ?thesis using val unfolding inc_inv_def by blast
qed

lemma ticket_increment_fits:
  assumes "type_ok ty" "bounded ty c" "0 < c_step c" "c_value c + c_step c * int n \<le> c_max c" "ticket n c tmp"
  shows "candidate ty CAdd tmp (c_step c) = Inr (tmp + c_step c)"
    "c_min c \<le> tmp + c_step c" "tmp + c_step c \<le> c_max c" "narrow ty (tmp + c_step c) = tmp + c_step c"
proof -
  obtain k where k: "k < n" "tmp = c_value c + c_step c * int k" using assms(5) by (auto simp: ticket_def)
  then have "c_step c * int k + c_step c \<le> c_step c * int n"
    using assms(3) mult_left_mono [of "int k + 1" "int n" "c_step c"] by (simp add: distrib_left)
  then show hi: "tmp + c_step c \<le> c_max c" using assms(4) k(2) by simp
  have "0 \<le> c_step c * int k" using assms(3) by simp
  then show lo: "c_min c \<le> tmp + c_step c" using assms(2,3) k(2) unfolding bounded_def by linarith
  show "candidate ty CAdd tmp (c_step c) = Inr (tmp + c_step c)"
    using assms(1,2) hi lo by (simp add: candidate_def arith_exact type_ok_def bounded_def)
  show "narrow ty (tmp + c_step c) = tmp + c_step c"
    using assms(2) hi lo by (intro narrow_id) (simp_all add: bounded_def)
qed

lemma inc_inv_step:
  assumes "type_ok ty" "bounded ty c" "0 < c_step c" "c_value c + c_step c * int n \<le> c_max c"
    and inv: "inc_inv n c s" and t: "t < n"
  shows "inc_inv n c (counter_step ty spurious t 0 (Update CAdd Own_step) s)"
proof -
  have c0: "counters s 0 = c\<lparr>c_value := c_value (counters s 0)\<rparr>" using inv by (simp add: inc_inv_def)
  have lim: "c_max (counters s 0) = c_max c" "c_min (counters s 0) = c_min c" "c_step (counters s 0) = c_step c"
    by (subst c0, simp)+
  have pc: "inc_pc_ok n c (c_value (counters s 0)) (pcs s t)" using inv t unfolding inc_inv_def by blast
  show ?thesis
  proof (cases "pcs s t")
    case Start
    then have "ticket n c (c_value (counters s 0))"
      using applied_less [OF t, of s] inv by (auto simp: inc_inv_def ticket_def)
    then show ?thesis using inc_inv_local [OF inv t] Start by (simp add: counter_step_def inc_pc_ok_def)
  next
    case (Loaded tmp)
    then show ?thesis using inc_inv_local [OF inv t] pc
      by (simp add: counter_step_def inc_pc_ok_def operand_value_def lim)
  next
    case (Loaded_arg tmp y)
    then have tmp: "ticket n c tmp" "y = c_step c" using pc by (simp_all add: inc_pc_ok_def)
    note fits = ticket_increment_fits [OF assms(1-4) tmp(1)]
    have "\<not> outside (counters s 0) (tmp + c_step c)" using fits lim by (simp add: outside_def)
    then have "counter_step ty spurious t 0 (Update CAdd Own_step) s = cas_attempt spurious t 0 tmp (tmp + c_step c) s"
      using Loaded_arg fits tmp(2) by (simp add: counter_step_def)
    then show ?thesis
      using inc_inv_local [OF inv t, of Start] inc_inv_applied [OF inv t _ assms(3)] Loaded_arg tmp
      by (auto simp: cas_attempt_def inc_pc_ok_def)
  next
    case (Finished r)
    then show ?thesis using inv by (simp add: counter_step_def)
  qed
qed

lemma inc_inv_run:
  assumes "type_ok ty" "bounded ty c" "0 < c_step c" "c_value c + c_step c * int n \<le> c_max c"
    and "counter_run ty n calls s0 s" "\<forall>t<n. calls t = (0, Update CAdd Own_step)"
    and "counters s0 0 = c" "\<forall>t. pcs s0 t = Start"
  shows "inc_inv n c s"
  using assms(5)
proof induction
  case run_init
  have "applied n s0 = {}" using assms(8) by (simp add: applied_def)
  then show ?case using assms(7,8) by (simp add: inc_inv_def inc_pc_ok_def)
next
  case (run_step s t spurious)
  then show ?case using inc_inv_step [OF assms(1-4) run_step.IH run_step.hyps(2)] assms(6) by simp
qed

section \<open>A thread on its own\<close>

definition finishes :: "num_type \<Rightarrow> nat \<Rightarrow> nat \<Rightarrow> counter_call \<Rightarrow> nat \<Rightarrow> counter_system \<Rightarrow> bool" where
  "finishes ty t a call k s \<longleftrightarrow> (\<exists>r. pcs ((counter_step ty False t a call ^^ k) s) t = Finished r)"

lemma finishes_0: "finishes ty t a call 0 s \<longleftrightarrow> (\<exists>r. pcs s t = Finished r)"
  by (simp add: finishes_def)

lemma finishes_Suc: "finishes ty t a call (Suc k) s \<longleftrightarrow> finishes ty t a call k (counter_step ty False t a call s)"
  by (simp add: finishes_def funpow_swap1)

lemma finishes_now: "pcs s t = Finished r \<Longrightarrow> finishes ty t a call k s"
  by (induction k) (simp_all add: finishes_0 finishes_Suc counter_step_def)

lemma finishes_mono: "finishes ty t a call k s \<Longrightarrow> k \<le> m \<Longrightarrow> finishes ty t a call m s"
proof (induction k arbitrary: s m)
  case (Suc k)
  then show ?case by (cases m) (auto simp: finishes_Suc)
qed (auto simp: finishes_0 finishes_now)

lemma finishes_cas:
  assumes "pcs s t = Loaded_arg (c_value (counters s a)) y"
  shows "finishes ty t a (Update op arg) (Suc k) s"
  unfolding finishes_Suc using assms
  by (auto simp: counter_step_def cas_attempt_def intro: finishes_now split: sum.splits)

lemma finishes_start:
  assumes "pcs s t = Start"
  shows "finishes ty t a call 3 s"
proof (cases call)
  case (Update op arg)
  let ?step = "counter_step ty False t a (Update op arg)"
  have "finishes ty t a (Update op arg) (Suc 0) (?step (?step s))"
    by (rule finishes_cas) (use assms in \<open>simp add: counter_step_def\<close>)
  then show ?thesis using Update by (simp add: numeral_3_eq_3 finishes_Suc)
next
  case (Reset v)
  then show ?thesis using assms
    by (auto simp: numeral_3_eq_3 finishes_Suc counter_step_def cas_attempt_def finishes_now)
qed

lemma finishes_loaded_arg:
  assumes "pcs s t = Loaded_arg tmp y"
  shows "finishes ty t a (Update op arg) 4 s"
proof -
  let ?s' = "counter_step ty False t a (Update op arg) s"
  have "pcs ?s' t = Start \<or> (\<exists>r. pcs ?s' t = Finished r)"
    using assms by (auto simp: counter_step_def cas_attempt_def split: sum.splits)
  then have "finishes ty t a (Update op arg) 3 ?s'" using finishes_start finishes_now by blast
  then show ?thesis using finishes_Suc [of ty t a "Update op arg" 3] by simp
qed

lemma solo_finishes:
  assumes "pc_ok (counters s a) call (pcs s t)"
  shows "finishes ty t a call 5 s"
proof (cases "pcs s t")
  case Start
  then show ?thesis by (rule finishes_mono [OF finishes_start]) simp
next
  case (Loaded tmp)
  let ?s' = "counter_step ty False t a call s"
  have "finishes ty t a call 4 ?s'"
  proof (cases call)
    case (Update op arg)
    then show ?thesis using Loaded finishes_loaded_arg by (auto simp: counter_step_def)
  next
    case (Reset v)
    then have "pcs ?s' t = Start \<or> (\<exists>r. pcs ?s' t = Finished r)"
      using Loaded by (auto simp: counter_step_def cas_attempt_def)
    then show ?thesis using finishes_mono [OF finishes_start, of ?s' t 4] finishes_now by auto
  qed
  then show ?thesis using finishes_Suc [of ty t a call 4] by simp
next
  case (Loaded_arg tmp y)
  then obtain op arg where "call = Update op arg" using assms by (cases call) (auto simp: pc_ok_def)
  then show ?thesis using finishes_mono [OF finishes_loaded_arg [OF Loaded_arg]] by simp
next
  case (Finished r)
  then show ?thesis by (rule finishes_now)
qed

section \<open>Properties\<close>



text \<open>
  No update is lost and tickets are unique: when \<open>n\<close> threads each increment the same counter and the
  bounds leave room for all of them, then once every thread has returned, in whatever order and with
  whatever failures of compare-and-swap, the counter has advanced by exactly \<open>n\<close> steps, every call took
  effect, and the old values the calls saw are the \<open>n\<close> values \<open>v\<close>, \<open>v + step\<close>, \<open>\<dots>\<close>, each seen once.
\<close>

theorem counter_tickets_unique:
  assumes "type_ok ty" "bounded ty c" "0 < c_step c" "c_value c + c_step c * int n \<le> c_max c"
    and "counter_run ty n calls s0 s" "\<forall>t<n. calls t = (0, Update CAdd Own_step)"
    and "counters s0 0 = c" "\<forall>t. pcs s0 t = Start" "\<forall>t<n. \<exists>r. pcs s t = Finished r"
  shows "c_value (counters s 0) = c_value c + c_step c * int n
       \<and> (\<exists>old. (\<forall>t<n. pcs s t = Finished (Inr (Applied (old t))))
              \<and> bij_betw old {..<n} ((\<lambda>k. c_value c + c_step c * int k) ` {..<n}))"
proof -
  have inv: "inc_inv n c s" using inc_inv_run [OF assms(1-8)] .
  have "\<exists>old. pcs s t = Finished (Inr (Applied old)) \<and> ticket n c old" if t: "t < n" for t
  proof -
    have "inc_pc_ok n c (c_value (counters s 0)) (pcs s t)" using inv t unfolding inc_inv_def by blast
    moreover obtain r where "pcs s t = Finished r" using assms(9) t by blast
    ultimately show ?thesis by (simp add: inc_pc_ok_def split: sum.splits counter_done.splits)
  qed
  then obtain old where old: "\<And>t. t < n \<Longrightarrow> pcs s t = Finished (Inr (Applied (old t))) \<and> ticket n c (old t)" by metis
  then have "applied n s = {..<n}" by (auto simp: applied_def)
  then have "c_value (counters s 0) = c_value c + c_step c * int n" using inv by (simp add: inc_inv_def)
  moreover have inj: "inj_on old {..<n}"
  proof (rule inj_onI)
    fix t u assume "t \<in> {..<n}" "u \<in> {..<n}" "old t = old u"
    then show "t = u" using inv old [of t] old [of u] unfolding inc_inv_def by auto
  qed
  moreover have "old ` {..<n} = (\<lambda>k. c_value c + c_step c * int k) ` {..<n}"
  proof (rule card_subset_eq)
    show "old ` {..<n} \<subseteq> (\<lambda>k. c_value c + c_step c * int k) ` {..<n}"
      using old by (fastforce simp: ticket_def)
    have "inj_on (\<lambda>k. c_value c + c_step c * int k) {..<n}" using assms(3) by (auto intro: inj_onI)
    then show "card (old ` {..<n}) = card ((\<lambda>k. c_value c + c_step c * int k) ` {..<n})"
      using inj by (simp add: card_image)
  qed simp
  ultimately show ?thesis using old by (auto simp: bij_betw_def)
qed

text \<open>A run given as the list of the threads that move.\<close>

lemma counter_run_schedule:
  "\<forall>t\<in>set ts. t < n \<Longrightarrow>
   counter_run ty n calls s0 (fold (\<lambda>t. counter_step ty False t (fst (calls t)) (snd (calls t))) ts s0)"
proof (induction ts rule: rev_induct)
  case (snoc t ts)
  then have "counter_run ty n calls s0 (fold (\<lambda>t. counter_step ty False t (fst (calls t)) (snd (calls t))) ts s0)" by simp
  then show ?case using run_step snoc.prems by simp
qed (simp add: run_init)

theorem counter_tickets_unique_witness:
  "c_value (counters (fold (\<lambda>t. counter_step uint32_type False t 0 (Update CAdd Own_step)) [0, 1, 0, 1, 1, 0, 0, 0, 0]
      \<lparr>counters = (\<lambda>_. counter_full 5 0 10 2), pcs = (\<lambda>_. Start)\<rparr>) 0) = 9"
proof -
  let ?init = "\<lparr>counters = (\<lambda>_. counter_full 5 0 10 2), pcs = (\<lambda>_. Start)\<rparr>"
  let ?step = "\<lambda>t. counter_step uint32_type False t 0 (Update CAdd Own_step)"
  let ?final = "fold ?step [0, 1, 0, 1, 1, 0, 0, 0, 0] ?init"
  have run: "counter_run uint32_type 2 (\<lambda>_. (0, Update CAdd Own_step)) ?init ?final"
    using counter_run_schedule [of "[0, 1, 0, 1, 1, 0, 0, 0, 0]" 2 uint32_type "\<lambda>_. (0, Update CAdd Own_step)" ?init] by simp
  have "pcs ?final 0 = Finished (Inr (Applied 7))" "pcs ?final 1 = Finished (Inr (Applied 5))" by code_simp+
  then have "\<forall>t<2. \<exists>r. pcs ?final t = Finished r" by (auto simp: less_2_cases_iff)
  then show ?thesis
    using counter_tickets_unique [OF _ _ _ _ run, of "counter_full 5 0 10 2"]
    by (simp add: type_ok_def bounded_def uint32_type_def counter_full_def)
qed

text \<open>
  A call that is left alone returns: from any point of a call, five uninterrupted steps without a
  spurious failure finish it.
\<close>

theorem counter_solo_finishes:
  assumes "pc_ok (counters s a) call (pcs s t)"
  shows "\<exists>r. pcs ((counter_step ty False t a call ^^ 5) s) t = Finished r"
  using solo_finishes [OF assms, of ty] by (simp add: finishes_def)

theorem counter_solo_finishes_witness:
  "\<exists>r. pcs ((counter_step uint32_type False 1 0 (Update CMul (Literal 3)) ^^ 5)
        \<lparr>counters = (\<lambda>_. counter_full 7 0 100 1), pcs = (\<lambda>_. Loaded_arg 5 3)\<rparr>) 1 = Finished r"
  using counter_solo_finishes [of "\<lparr>counters = (\<lambda>_. counter_full 7 0 100 1), pcs = (\<lambda>_. Loaded_arg 5 3)\<rparr>" 0
      "Update CMul (Literal 3)" 1] by (simp add: pc_ok_def)

text \<open>
  The bounds are respected exactly whenever the promoted type can represent the result: every update
  stores the mathematical result if it lies within the bounds and leaves the counter alone otherwise,
  the binary operators build the counter that the corresponding assignment would store, and \<open>reset\<close>
  stores any value within the bounds.
\<close>

theorem counter_updates_exact:
  assumes "type_ok ty" "bounded ty c" "op = CDiv \<longrightarrow> y \<noteq> 0"
    and "v = (case op of CAdd \<Rightarrow> c_value c + y | CSub \<Rightarrow> c_value c - y | CMul \<Rightarrow> c_value c * y | CDiv \<Rightarrow> c_value c sdiv y)"
    and "p_min ty \<le> v" "v \<le> p_max ty"
  shows "cas_update ty op c y = Inr (if c_min c \<le> v \<and> v \<le> c_max c then c\<lparr>c_value := v\<rparr> else c)
       \<and> combine ty op c y = map_sum id counter_copy (cas_update ty op c y)
       \<and> bounded ty (counter_reset c y)
       \<and> (c_min c \<le> y \<and> y \<le> c_max c \<longrightarrow> c_value (counter_reset c y) = y)"
proof -
  have "candidate ty op (c_value c) y = Inr v"
    using arith_exact [OF assms(1,5,6)] assms(3,4) by (cases op) (simp_all add: candidate_def)
  then show ?thesis
    using combine_cas_update counter_reset_bounded [OF assms(2)]
    by (auto simp: cas_update_cases [OF assms(2)] outside_def counter_reset_def)
qed

theorem counter_updates_exact_witness:
  "cas_update int8_type CAdd (counter_of int8_type 127) 1 = Inr (counter_of int8_type 127)"
  using counter_updates_exact [of int8_type "counter_of int8_type 127" CAdd 1 128]
  by (simp add: type_ok_def bounded_def) (simp add: int8_type_def counter_of_def)

text \<open>
  The bound check comes too late at the limits of \<open>T\<close>: with the default bounds of a type that is
  not promoted to a wider one, incrementing at the maximum wraps an unsigned counter to zero instead of
  stopping, and is an undefined signed overflow on a signed one.
\<close>

theorem counter_limit_wraps:
  assumes "t_max ty = p_max ty" "t_min ty = p_min ty" "type_ok ty"
  shows "counter_inc ty (counter_of ty (t_max ty)) =
           (if p_unsigned ty then Inr (counter_of ty 0) else Inl Signed_overflow)"
  using assms
  by (auto simp: counter_inc_def cas_update_def counter_of_def candidate_def arith_def outside_def type_ok_def narrow_def)

theorem counter_limit_wraps_witness:
  "counter_inc uint32_type (counter_of uint32_type (2 ^ 32 - 1)) = Inr (counter_of uint32_type 0)
 \<and> counter_inc int32_type (counter_of int32_type (2 ^ 31 - 1)) = Inl Signed_overflow"
  using counter_limit_wraps [of uint32_type] counter_limit_wraps [of int32_type]
  by (simp add: uint32_type_def int32_type_def type_ok_def)

end
