(* ===== verification/ChainBuffer.thy ===== *)
theory ChainBuffer
  imports HjPrelude
begin

text \<open>
  \<open>src/hj/io/chain_buffer.hpp\<close>: a byte queue kept as a chain of blocks with a read cursor, and
  \<open>src/hj/io/dbuffer.hpp\<close>: a double buffer that is written at the back and read at the front.

  The append loop is a \<open>partial_function\<close>: it never ends when the block size is zero. The read and
  consume loops end because the block index grows. \<open>size_t\<close> subtraction wraps (\<open>size_sub\<close>); an access to
  a block that does not exist is \<open>Out_of_bounds\<close>.
\<close>

section \<open>Definitions\<close>

subsection \<open>The chain buffer\<close>

record chain_buffer =
  block_size :: nat
  blocks :: "bytes list"
  total_size :: nat
  read_pos :: nat
  read_block :: nat

definition cb_new :: "nat \<Rightarrow> chain_buffer" where
  "cb_new bs = \<lparr>block_size = bs, blocks = [[]], total_size = 0, read_pos = 0, read_block = 0\<rparr>"

definition cb_empty :: "chain_buffer \<Rightarrow> bool" where
  "cb_empty cb \<longleftrightarrow> total_size cb = 0"

text \<open>A new block is opened when there is none or the last one is full.\<close>

definition open_block :: "nat \<Rightarrow> bytes list \<Rightarrow> bytes list" where
  "open_block bs blks = (if blks = [] \<or> length (last blks) = bs then blks @ [[]] else blks)"

partial_function (option) cb_append :: "chain_buffer \<Rightarrow> bytes \<Rightarrow> chain_buffer option" where
  [code]: "cb_append cb data =
     (if data = [] then Some cb
      else let blks = open_block (block_size cb) (blocks cb);
               space = size_sub (block_size cb) (length (last blks));
               to_copy = min space (length data)
           in cb_append (cb\<lparr>blocks := butlast blks @ [last blks @ take to_copy data],
                            total_size := total_size cb + to_copy\<rparr>) (drop to_copy data))"

definition cb_clear :: "chain_buffer \<Rightarrow> chain_buffer" where
  "cb_clear cb = cb\<lparr>blocks := [[]], total_size := 0, read_pos := 0, read_block := 0\<rparr>"

primrec append_blocks :: "bytes list \<Rightarrow> chain_buffer \<Rightarrow> chain_buffer option" where
  "append_blocks [] cb = Some cb"
| "append_blocks (blk # blks) cb =
     (if blk \<noteq> [] then (case cb_append cb blk of None \<Rightarrow> None | Some cb' \<Rightarrow> append_blocks blks cb')
      else append_blocks blks cb)"

text \<open>Appending another buffer: this buffer and the other one afterwards.\<close>

definition cb_append_chain :: "chain_buffer \<Rightarrow> chain_buffer \<Rightarrow> (chain_buffer \<times> chain_buffer) option" where
  "cb_append_chain cb other =
     (if cb_empty other then Some (cb, other)
      else map_option (\<lambda>cb'. (cb'\<lparr>total_size := total_size cb' + total_size other\<rparr>, cb_clear other))
             (if read_block cb = 0 \<and> read_pos cb = 0 \<and> length (blocks cb) = 1 \<and> blocks cb ! 0 = []
              then Some (cb\<lparr>blocks := blocks other\<rparr>)
              else append_blocks (blocks other) cb))"

function cb_read_loop :: "bytes list \<Rightarrow> nat \<Rightarrow> nat \<Rightarrow> nat \<Rightarrow> bytes \<Rightarrow> bytes" where
  "cb_read_loop blks blk_idx pos len out =
     (if len > 0 \<and> blk_idx < length blks then
        (let blk = blks ! blk_idx in
         if pos \<ge> length blk then cb_read_loop blks (blk_idx + 1) 0 len out
         else let to_copy = min (length blk - pos) len
              in cb_read_loop blks blk_idx (pos + to_copy) (len - to_copy) (out @ take to_copy (drop pos blk)))
      else out)"
  by pat_completeness auto
termination
  by (relation "measures [\<lambda>(blks, i, pos, len, out). length blks - i, \<lambda>(blks, i, pos, len, out). len]") auto

declare cb_read_loop.simps [simp del]

text \<open>The bytes that \<open>read\<close> copies to \<open>out\<close>; it returns their number.\<close>

definition cb_read :: "chain_buffer \<Rightarrow> nat \<Rightarrow> bytes" where
  "cb_read cb len = cb_read_loop (blocks cb) (read_block cb) (read_pos cb) len []"

text \<open>
  The loop of \<open>consume\<close>: the flag says whether it left through the early \<open>return\<close>, which skips the
  erasure of the consumed blocks.
\<close>

function consume_loop :: "chain_buffer \<Rightarrow> nat \<Rightarrow> nat \<Rightarrow> (bool \<times> chain_buffer \<times> nat) result" where
  "consume_loop cb len consumed =
     (if len > 0 \<and> blocks cb \<noteq> [] then
        (if read_block cb < length (blocks cb) then
           (let avail = size_sub (length (blocks cb ! read_block cb)) (read_pos cb) in
            if len < avail
            then Inr (True, cb\<lparr>read_pos := read_pos cb + len, total_size := total_size cb - len\<rparr>, consumed + len)
            else consume_loop (cb\<lparr>total_size := total_size cb - avail, read_block := read_block cb + 1, read_pos := 0\<rparr>)
                   (len - avail) (consumed + avail))
         else Inl Out_of_bounds)
      else Inr (False, cb, consumed))"
  by pat_completeness auto
termination
  by (relation "measure (\<lambda>(cb, len, consumed). length (blocks cb) - read_block cb)") auto

declare consume_loop.simps [simp del]

definition cb_consume :: "chain_buffer \<Rightarrow> nat \<Rightarrow> (chain_buffer \<times> nat) result" where
  "cb_consume cb len =
     (case consume_loop cb (if len < total_size cb then len else total_size cb) 0 of
        Inl err \<Rightarrow> Inl err
      | Inr (early, cb', consumed) \<Rightarrow>
          if \<not> early \<and> read_block cb' > 0
          then Inr (cb'\<lparr>blocks := drop (read_block cb') (blocks cb'), read_block := 0\<rparr>, consumed)
          else Inr (cb', consumed))"

subsection \<open>The double buffer\<close>

text \<open>
  The two containers have addresses \<open>False\<close> (\<open>_back_data\<close>) and \<open>True\<close> (\<open>_front_data\<close>). The user's copy
  function returns the new contents of the destination, or \<open>None\<close> when it reports failure.
\<close>

record 'a dbuffer =
  db_data :: "bool \<Rightarrow> 'a"
  db_back :: bool
  db_front :: bool

definition db_new :: "'a \<Rightarrow> 'a dbuffer" where
  "db_new initial = \<lparr>db_data = (\<lambda>_. initial), db_back = False, db_front = True\<rparr>"

definition db_swap :: "'a dbuffer \<Rightarrow> 'a dbuffer" where
  "db_swap b = (let tmp = db_front b; b1 = b\<lparr>db_front := db_back b\<rparr> in b1\<lparr>db_back := tmp\<rparr>)"

definition db_write :: "('a \<Rightarrow> 'a \<Rightarrow> 'a option) \<Rightarrow> 'a dbuffer \<Rightarrow> 'a \<Rightarrow> 'a dbuffer \<times> bool" where
  "db_write copy b value =
     (case copy value (db_data b (db_back b)) of
        None \<Rightarrow> (b, False)
      | Some dst \<Rightarrow> (db_swap (b\<lparr>db_data := (db_data b)(db_back b := dst)\<rparr>), True))"

definition db_write_move :: "'a dbuffer \<Rightarrow> 'a \<Rightarrow> 'a dbuffer" where
  "db_write_move b value = db_swap (b\<lparr>db_data := (db_data b)(db_back b := value)\<rparr>)"

definition db_read :: "('a \<Rightarrow> 'a \<Rightarrow> 'a option) \<Rightarrow> 'a dbuffer \<Rightarrow> 'a \<Rightarrow> 'a option" where
  "db_read copy b value = copy (db_data b (db_front b)) value"

definition default_copy :: "'a \<Rightarrow> 'a \<Rightarrow> 'a option" where
  "default_copy src dst = Some src"

section \<open>The queue a chain buffer stands for\<close>

definition content :: "chain_buffer \<Rightarrow> bytes" where
  "content cb = drop (read_pos cb) (concat (drop (read_block cb) (blocks cb)))"

definition cursor_ok :: "chain_buffer \<Rightarrow> bool" where
  "cursor_ok cb \<longleftrightarrow>
     (if blocks cb = [] then read_block cb = 0 \<and> read_pos cb = 0
      else read_block cb < length (blocks cb) \<and> read_pos cb \<le> length (blocks cb ! read_block cb))"

definition cb_wf :: "chain_buffer \<Rightarrow> bool" where
  "cb_wf cb \<longleftrightarrow> 0 < block_size cb \<and> (\<forall>blk\<in>set (blocks cb). length blk \<le> block_size cb)
     \<and> cursor_ok cb \<and> total_size cb = length (content cb)"

lemma cb_wf_new: "0 < bs \<Longrightarrow> cb_wf (cb_new bs) \<and> content (cb_new bs) = []"
  by (simp add: cb_wf_def cb_new_def cursor_ok_def content_def)

lemma cb_wf_clear: "0 < block_size cb \<Longrightarrow> cb_wf (cb_clear cb) \<and> content (cb_clear cb) = []"
  by (simp add: cb_wf_def cb_clear_def cursor_ok_def content_def)

lemma concat_drop_nth: "i < length xss \<Longrightarrow> concat (drop i xss) = xss ! i @ concat (drop (Suc i) xss)"
  by (simp add: Cons_nth_drop_Suc [symmetric])

lemma drop_concat_Nil: "concat xss = [] \<Longrightarrow> concat (drop i xss) = []"
  by (auto dest: in_set_dropD)

lemma content_split:
  assumes "read_block cb < length (blocks cb)" "read_pos cb \<le> length (blocks cb ! read_block cb)"
  shows "content cb = drop (read_pos cb) (blocks cb ! read_block cb) @ concat (drop (Suc (read_block cb)) (blocks cb))"
  using assms by (simp add: content_def Cons_nth_drop_Suc [symmetric])

section \<open>Append\<close>

lemma open_block_nonempty [simp]: "open_block bs blks \<noteq> []"
  by (simp add: open_block_def)

lemma open_block_room:
  "0 < bs \<Longrightarrow> \<forall>blk\<in>set blks. length blk \<le> bs \<Longrightarrow> length (last (open_block bs blks)) < bs"
  by (auto simp: open_block_def le_neq_implies_less)

lemma concat_drop_single_Nil [simp]: "concat (drop k [[]]) = []"
  by (cases k) simp_all

lemma open_block_wf:
  assumes "cb_wf cb" "blks = open_block (block_size cb) (blocks cb)"
  shows "cb_wf (cb\<lparr>blocks := blks\<rparr>)" "content (cb\<lparr>blocks := blks\<rparr>) = content cb"
  using assms
  by (cases "blocks cb = []", auto simp: cb_wf_def cursor_ok_def content_def open_block_def nth_append)

text \<open>Adding bytes to the last block adds them to the content.\<close>

lemma extend_last_block:
  assumes "cb_wf cb" "blocks cb \<noteq> []" "length (last (blocks cb) @ new) \<le> block_size cb"
  shows "cb_wf (cb\<lparr>blocks := butlast (blocks cb) @ [last (blocks cb) @ new], total_size := total_size cb + length new\<rparr>)"
      (is "cb_wf ?cb'")
    and "content (cb\<lparr>blocks := butlast (blocks cb) @ [last (blocks cb) @ new], total_size := total_size cb + length new\<rparr>)
         = content cb @ new"
proof -
  obtain front tip where bl: "blocks cb = front @ [tip]" using assms(2) by (metis append_butlast_last_id)
  have cur: "read_block cb \<le> length front" "read_pos cb \<le> length (blocks cb ! read_block cb)"
    using assms(1) bl by (auto simp: cb_wf_def cursor_ok_def)
  have pos: "read_pos cb \<le> length (concat (drop (read_block cb) (blocks cb)))"
    using cur concat_drop_nth [of "read_block cb" "blocks cb"] bl by simp
  show con: "content (cb\<lparr>blocks := butlast (blocks cb) @ [last (blocks cb) @ new], total_size := total_size cb + length new\<rparr>)
         = content cb @ new"
    using cur(1) pos bl by (simp add: content_def)
  have "set (butlast (blocks cb)) \<subseteq> set (blocks cb)" using bl by auto
  then show "cb_wf ?cb'"
    using assms con cur bl by (auto simp: cb_wf_def cursor_ok_def nth_append)
qed

lemma cb_append_Nil [simp]: "cb_append cb [] = Some cb"
  by (subst cb_append.simps) simp

lemma cb_append_ok:
  "cb_wf cb \<Longrightarrow> \<exists>cb'. cb_append cb data = Some cb' \<and> cb_wf cb' \<and> content cb' = content cb @ data
     \<and> block_size cb' = block_size cb"
proof (induction "length data" arbitrary: cb data rule: less_induct)
  case less
  show ?case
  proof (cases "data = []")
    case False
    let ?blks = "open_block (block_size cb) (blocks cb)"
    define n where "n = min (size_sub (block_size cb) (length (last ?blks))) (length data)"
    let ?cb1 = "cb\<lparr>blocks := ?blks\<rparr>"
    let ?cb2 = "cb\<lparr>blocks := butlast ?blks @ [last ?blks @ take n data], total_size := total_size cb + n\<rparr>"
    have room: "length (last ?blks) < block_size cb"
      using less.prems open_block_room [of "block_size cb" "blocks cb"] by (simp add: cb_wf_def)
    then have n: "0 < n" "length (last ?blks) + n \<le> block_size cb" "n \<le> length data"
      using False by (auto simp: size_sub_def n_def)
    have wf1: "cb_wf ?cb1" "content ?cb1 = content cb" using open_block_wf [OF less.prems refl] by blast+
    have "cb_wf ?cb2" "content ?cb2 = content cb @ take n data"
      using extend_last_block [OF wf1(1), of "take n data"] n(2,3) wf1(2) by simp_all
    moreover have "length (drop n data) < length data" using n(1) False by simp
    ultimately obtain cb' where "cb_append ?cb2 (drop n data) = Some cb'" "cb_wf cb'"
      "content cb' = content cb @ take n data @ drop n data" "block_size cb' = block_size cb"
      using less.hyps [of "drop n data" ?cb2] by auto
    moreover have "cb_append cb data = cb_append ?cb2 (drop n data)"
      using False by (subst cb_append.simps) (simp add: Let_def n_def)
    ultimately show ?thesis by (metis append_take_drop_id)
  qed (use less.prems in simp)
qed

lemma append_blocks_ok:
  "cb_wf cb \<Longrightarrow> \<exists>cb'. append_blocks blks cb = Some cb' \<and> cb_wf cb' \<and> content cb' = content cb @ concat blks
     \<and> block_size cb' = block_size cb"
proof (induction blks arbitrary: cb)
  case (Cons blk blks)
  show ?case
  proof (cases "blk = []")
    case False
    obtain cb' where "cb_append cb blk = Some cb'" "cb_wf cb'" "content cb' = content cb @ blk" "block_size cb' = block_size cb"
      using cb_append_ok [OF Cons.prems] by blast
    then show ?thesis using False Cons.IH [of cb'] by simp
  qed (use Cons in simp)
qed simp

section \<open>Read and consume\<close>

lemma cb_read_loop_ok:
  "blk_idx < length blks \<longrightarrow> pos \<le> length (blks ! blk_idx) \<Longrightarrow>
   cb_read_loop blks blk_idx pos len out =
     out @ take len (if blk_idx < length blks then drop pos (blks ! blk_idx) @ concat (drop (Suc blk_idx) blks) else [])"
proof (induction blks blk_idx pos len out rule: cb_read_loop.induct)
  case (1 blks blk_idx pos len out)
  show ?case
  proof (cases "0 < len \<and> blk_idx < length blks")
    case True
    show ?thesis
    proof (cases "length (blks ! blk_idx) \<le> pos")
      case past: True
      have "concat (drop (Suc blk_idx) blks) =
          (if Suc blk_idx < length blks then blks ! Suc blk_idx @ concat (drop (Suc (Suc blk_idx)) blks) else [])"
        by (simp add: Cons_nth_drop_Suc [symmetric])
      then show ?thesis using True past 1(1) by (subst cb_read_loop.simps) (simp add: Let_def)
    next
      case False
      then show ?thesis using True 1(2) by (subst cb_read_loop.simps) (auto simp: Let_def min_def)
    qed
  qed (subst cb_read_loop.simps, auto)
qed

lemma cb_read_ok: "cb_wf cb \<Longrightarrow> cb_read cb len = take len (content cb)"
  using cb_read_loop_ok [of "read_block cb" "blocks cb" "read_pos cb" len "[]"] content_split [of cb]
  by (auto simp: cb_read_def cb_wf_def cursor_ok_def content_def split: if_splits)

text \<open>The cursor inside the loop of \<open>consume\<close>, which may stand behind the last block.\<close>

definition cursor_in :: "chain_buffer \<Rightarrow> bool" where
  "cursor_in cb \<longleftrightarrow> read_block cb \<le> length (blocks cb)
     \<and> (read_block cb < length (blocks cb) \<longrightarrow> read_pos cb \<le> length (blocks cb ! read_block cb))
     \<and> (read_block cb = length (blocks cb) \<longrightarrow> read_pos cb = 0)"

definition consumed_to :: "chain_buffer \<Rightarrow> nat \<Rightarrow> bool \<Rightarrow> chain_buffer \<Rightarrow> bool" where
  "consumed_to cb len early cb' \<longleftrightarrow>
     content cb' = drop len (content cb) \<and> total_size cb' = length (content cb')
   \<and> block_size cb' = block_size cb \<and> blocks cb' = blocks cb
   \<and> cursor_in cb' \<and> (early \<longrightarrow> read_block cb' < length (blocks cb))"

lemma consume_loop_ok:
  "\<lbrakk>len \<le> length (content cb); cursor_in cb; total_size cb = length (content cb)\<rbrakk> \<Longrightarrow>
   \<exists>early cb'. consume_loop cb len consumed = Inr (early, cb', consumed + len) \<and> consumed_to cb len early cb'"
proof (induction cb len consumed rule: consume_loop.induct)
  case (1 cb len consumed)
  show ?case
  proof (cases "0 < len \<and> blocks cb \<noteq> []")
    case True
    have rb: "read_block cb < length (blocks cb)"
    proof (rule ccontr)
      assume "\<not> read_block cb < length (blocks cb)"
      then have "content cb = []" by (simp add: content_def)
      then show False using 1(2) True by simp
    qed
    then have pos: "read_pos cb \<le> length (blocks cb ! read_block cb)" using 1(3) by (simp add: cursor_in_def)
    define avail where "avail = length (blocks cb ! read_block cb) - read_pos cb"
    have us: "size_sub (length (blocks cb ! read_block cb)) (read_pos cb) = avail" using pos by (simp add: size_sub_def avail_def)
    show ?thesis
    proof (cases "len < avail")
      case early: True
      let ?cb' = "cb\<lparr>read_pos := read_pos cb + len, total_size := total_size cb - len\<rparr>"
      have "consume_loop cb len consumed = Inr (True, ?cb', consumed + len)"
        using True rb early us by (subst consume_loop.simps) (simp add: Let_def)
      moreover have "consumed_to cb len True ?cb'"
        using early rb 1(4) by (auto simp: consumed_to_def cursor_in_def content_def avail_def add.commute)
      ultimately show ?thesis by blast
    next
      case False
      let ?cb' = "cb\<lparr>total_size := total_size cb - avail, read_block := read_block cb + 1, read_pos := 0\<rparr>"
      have con: "content ?cb' = drop avail (content cb)"
        unfolding content_split [OF rb pos] by (simp add: content_def avail_def)
      have "\<exists>early cb'. consume_loop ?cb' (len - avail) (consumed + avail) = Inr (early, cb', consumed + avail + (len - avail))
          \<and> consumed_to ?cb' (len - avail) early cb'"
      proof (rule 1(1) [OF True rb us [symmetric] False])
        show "len - avail \<le> length (content ?cb')" using con 1(2) by simp
        show "cursor_in ?cb'" using rb by (simp add: cursor_in_def)
        show "total_size ?cb' = length (content ?cb')" using con 1(4) by simp
      qed
      then obtain early cb' where *: "consume_loop ?cb' (len - avail) (consumed + avail) = Inr (early, cb', consumed + avail + (len - avail))"
        "consumed_to ?cb' (len - avail) early cb'" by blast
      have "consume_loop cb len consumed = Inr (early, cb', consumed + len)"
        using True rb False us *(1) by (subst consume_loop.simps) (simp add: Let_def)
      moreover have "consumed_to cb len early cb'"
        using *(2) con False by (simp add: consumed_to_def)
      ultimately show ?thesis by blast
    qed
  next
    case False
    then have "len = 0" using 1(2) by (auto simp: content_def)
    then show ?thesis using 1(2-4) by (subst consume_loop.simps) (auto simp: consumed_to_def)
  qed
qed

lemma cb_consume_ok:
  assumes "cb_wf cb"
  shows "\<exists>cb'. cb_consume cb len = Inr (cb', min len (length (content cb))) \<and> cb_wf cb'
           \<and> content cb' = drop len (content cb) \<and> block_size cb' = block_size cb"
proof -
  have size: "total_size cb = length (content cb)" and cur: "cursor_in cb"
    using assms by (auto simp: cb_wf_def cursor_ok_def cursor_in_def split: if_splits)
  let ?n = "min len (length (content cb))"
  have n: "(if len < total_size cb then len else total_size cb) = ?n" using size by simp
  obtain early cb' where cb': "consume_loop cb ?n 0 = Inr (early, cb', ?n)" "consumed_to cb ?n early cb'"
    using consume_loop_ok [of ?n cb 0] cur size by auto
  let ?cb = "if \<not> early \<and> read_block cb' > 0 then cb'\<lparr>blocks := drop (read_block cb') (blocks cb'), read_block := 0\<rparr> else cb'"
  have "cb_consume cb len = Inr (?cb, ?n)" using cb'(1) by (simp add: cb_consume_def n)
  moreover have con: "content ?cb = drop len (content cb)" using cb'(2) by (auto simp: consumed_to_def content_def min_def)
  moreover have "cursor_ok ?cb"
    using cb'(2) by (auto simp: consumed_to_def cursor_in_def cursor_ok_def)
  ultimately show ?thesis
    using assms cb'(2) by (intro exI [of _ ?cb]) (auto simp: cb_wf_def consumed_to_def dest: in_set_dropD)
qed

lemma consume_loop_overrun:
  "\<lbrakk>length (content cb) < len; cursor_in cb; blocks cb \<noteq> []\<rbrakk> \<Longrightarrow> consume_loop cb len consumed = Inl Out_of_bounds"
proof (induction cb len consumed rule: consume_loop.induct)
  case (1 cb len consumed)
  show ?case
  proof (cases "read_block cb < length (blocks cb)")
    case True
    then have pos: "read_pos cb \<le> length (blocks cb ! read_block cb)" using 1(3) by (simp add: cursor_in_def)
    define avail where "avail = length (blocks cb ! read_block cb) - read_pos cb"
    have us: "size_sub (length (blocks cb ! read_block cb)) (read_pos cb) = avail" using pos by (simp add: size_sub_def avail_def)
    let ?cb' = "cb\<lparr>total_size := total_size cb - avail, read_block := read_block cb + 1, read_pos := 0\<rparr>"
    have con: "length (content cb) = avail + length (content ?cb')"
      unfolding content_split [OF True pos] by (simp add: content_def avail_def)
    then have n: "\<not> len < avail" "length (content ?cb') < len - avail" "0 < len" using 1(2) by simp_all
    moreover have "cursor_in ?cb'" using True by (simp add: cursor_in_def)
    ultimately have "consume_loop ?cb' (len - avail) (consumed + avail) = Inl Out_of_bounds"
      using 1(1) [OF _ True us [symmetric] n(1)] 1(4) by simp
    then show ?thesis using n 1(4) True us by (subst consume_loop.simps) (simp add: Let_def)
  next
    case False
    then show ?thesis using 1(2,4) by (subst consume_loop.simps) auto
  qed
qed

section \<open>The interface of a byte queue\<close>

datatype fifo_op = Push bytes | Pop nat

text \<open>A client that writes with \<open>push\<close>, and reads with \<open>peek\<close> followed by \<open>pop\<close>; the bytes it has read.\<close>

primrec fifo_run ::
  "('q \<Rightarrow> bytes \<Rightarrow> 'q option) \<Rightarrow> ('q \<Rightarrow> nat \<Rightarrow> bytes) \<Rightarrow> ('q \<Rightarrow> nat \<Rightarrow> ('q \<times> nat) result)
   \<Rightarrow> fifo_op list \<Rightarrow> 'q \<Rightarrow> ('q \<times> bytes) option" where
  "fifo_run push peek pop [] q = Some (q, [])"
| "fifo_run push peek pop (op # ops) q =
     (case op of
        Push data \<Rightarrow> (case push q data of None \<Rightarrow> None | Some q' \<Rightarrow> fifo_run push peek pop ops q')
      | Pop n \<Rightarrow>
          (case pop q n of
             Inl err \<Rightarrow> None
           | Inr (q', m) \<Rightarrow> map_option (apsnd (\<lambda>out. take m (peek q n) @ out)) (fifo_run push peek pop ops q')))"

definition pushed :: "fifo_op list \<Rightarrow> bytes" where
  "pushed ops = concat (map (\<lambda>op. case op of Push data \<Rightarrow> data | Pop n \<Rightarrow> []) ops)"

locale byte_fifo =
  fixes wf :: "'q \<Rightarrow> bool" and bytes_of :: "'q \<Rightarrow> bytes"
    and push :: "'q \<Rightarrow> bytes \<Rightarrow> 'q option" and peek :: "'q \<Rightarrow> nat \<Rightarrow> bytes"
    and pop :: "'q \<Rightarrow> nat \<Rightarrow> ('q \<times> nat) result"
  assumes push_law: "wf q \<Longrightarrow> \<exists>q'. push q data = Some q' \<and> wf q' \<and> bytes_of q' = bytes_of q @ data"
    and peek_law: "wf q \<Longrightarrow> peek q n = take n (bytes_of q)"
    and pop_law: "wf q \<Longrightarrow> \<exists>q'. pop q n = Inr (q', min n (length (bytes_of q))) \<and> wf q' \<and> bytes_of q' = drop n (bytes_of q)"
begin

lemma run_in_order:
  "wf q \<Longrightarrow> \<exists>q' out. fifo_run push peek pop ops q = Some (q', out) \<and> wf q' \<and> out @ bytes_of q' = bytes_of q @ pushed ops"
proof (induction ops arbitrary: q)
  case (Cons op ops)
  show ?case
  proof (cases op)
    case (Push data)
    obtain q1 where "push q data = Some q1" "wf q1" "bytes_of q1 = bytes_of q @ data"
      using push_law [OF Cons.prems] by blast
    then show ?thesis using Push Cons.IH [of q1] by (auto simp: pushed_def)
  next
    case (Pop n)
    obtain q1 where q1: "pop q n = Inr (q1, min n (length (bytes_of q)))" "wf q1" "bytes_of q1 = drop n (bytes_of q)"
      using pop_law [OF Cons.prems] by blast
    then obtain q' out where "fifo_run push peek pop ops q1 = Some (q', out)" "wf q'"
      "out @ bytes_of q' = drop n (bytes_of q) @ pushed ops"
      using Cons.IH [of q1] by auto
    then show ?thesis using Pop q1 peek_law [OF Cons.prems]
      by (auto simp: pushed_def min_def)
  qed
qed (simp add: pushed_def)

end

interpretation cb: byte_fifo cb_wf content cb_append cb_read cb_consume
proof
  show "\<exists>q'. cb_append q data = Some q' \<and> cb_wf q' \<and> content q' = content q @ data" if "cb_wf q" for q data
    using cb_append_ok [OF that] by blast
  show "cb_read q n = take n (content q)" if "cb_wf q" for q n using cb_read_ok [OF that] .
  show "\<exists>q'. cb_consume q n = Inr (q', min n (length (content q))) \<and> cb_wf q' \<and> content q' = drop n (content q)"
    if "cb_wf q" for q n using cb_consume_ok [OF that] by blast
qed

section \<open>Properties\<close>

text \<open>
  C17. A chain buffer is a byte queue: under any sequence of appends and of reads followed by consumes,
  with any positive block size, every call returns, no access leaves a block, and the bytes read so far
  followed by the bytes still held are exactly the bytes appended, in order; \<open>size()\<close> is the number of
  bytes held.
\<close>

theorem chain_buffer_is_fifo:
  assumes "0 < bs"
  shows "\<exists>q out. fifo_run cb_append cb_read cb_consume ops (cb_new bs) = Some (q, out)
       \<and> out @ content q = pushed ops \<and> total_size q = length (content q)"
  using cb.run_in_order [of "cb_new bs" ops] cb_wf_new [OF assms] by (auto simp: cb_wf_def)

theorem chain_buffer_is_fifo_witness:
  "\<exists>q out. fifo_run cb_append cb_read cb_consume [Push [1, 2, 3], Pop 2, Push [4], Pop 9] (cb_new 2) = Some (q, out)
     \<and> out @ content q = [1, 2, 3, 4]"
  using chain_buffer_is_fifo [of 2 "[Push [1, 2, 3], Pop 2, Push [4], Pop 9]"] by (auto simp: pushed_def)

text \<open>
  Appending one chain buffer to another miscounts: into an untouched buffer the blocks are moved and
  the result is right when the other buffer has not been read from; into any other buffer the whole
  blocks of the source are appended, bytes already consumed from it included, and its size is added a
  second time, so that consuming \<open>size()\<close> bytes afterwards runs past the last block.
\<close>

theorem chain_append_miscounts:
  assumes "cb_wf cb" "cb_wf other" "content other \<noteq> []"
  shows "(blocks cb = [[]] \<and> block_size cb = block_size other \<and> read_block other = 0 \<and> read_pos other = 0 \<longrightarrow>
            (\<exists>cb' other'. cb_append_chain cb other = Some (cb', other') \<and> cb_wf cb' \<and> content cb' = content other
               \<and> cb_wf other' \<and> content other' = []))
       \<and> (length (blocks cb) \<noteq> 1 \<or> blocks cb \<noteq> [[]] \<longrightarrow>
            (\<exists>cb' other'. cb_append_chain cb other = Some (cb', other')
               \<and> content cb' = content cb @ concat (blocks other)
               \<and> total_size cb' = length (content cb') + length (content other)
               \<and> cb_consume cb' (total_size cb') = Inl Out_of_bounds))"
proof (intro conjI impI)
  have sizes: "total_size cb = length (content cb)" "total_size other = length (content other)" "\<not> cb_empty other"
    using assms by (auto simp: cb_wf_def cb_empty_def)
  {
    assume a: "blocks cb = [[]] \<and> block_size cb = block_size other \<and> read_block other = 0 \<and> read_pos other = 0"
    then have cur: "read_block cb = 0" "read_pos cb = 0" "content cb = []"
      using assms(1) by (auto simp: cb_wf_def cursor_ok_def content_def)
    let ?cb' = "cb\<lparr>blocks := blocks other, total_size := total_size cb + total_size other\<rparr>"
    have "cb_append_chain cb other = Some (?cb', cb_clear other)"
      using a cur sizes(3) by (simp add: cb_append_chain_def)
    moreover have "content ?cb' = content other" using a cur by (simp add: content_def)
    moreover have "cb_wf ?cb'" using assms(2) a cur sizes calculation(2) by (auto simp: cb_wf_def cursor_ok_def)
    moreover have "cb_wf (cb_clear other)" "content (cb_clear other) = []"
      using cb_wf_clear assms(2) by (auto simp: cb_wf_def)
    ultimately show "\<exists>cb' other'. cb_append_chain cb other = Some (cb', other') \<and> cb_wf cb' \<and> content cb' = content other
               \<and> cb_wf other' \<and> content other' = []" by blast
  next
    assume a: "length (blocks cb) \<noteq> 1 \<or> blocks cb \<noteq> [[]]"
    obtain cb1 where cb1: "append_blocks (blocks other) cb = Some cb1" "cb_wf cb1" "content cb1 = content cb @ concat (blocks other)"
      using append_blocks_ok [OF assms(1)] by blast
    let ?cb' = "cb1\<lparr>total_size := total_size cb1 + total_size other\<rparr>"
    have "\<not> (length (blocks cb) = 1 \<and> blocks cb ! 0 = [])" using a by (cases "blocks cb") auto
    then have "cb_append_chain cb other = Some (?cb', cb_clear other)"
      using cb1(1) sizes(3) by (auto simp: cb_append_chain_def)
    moreover have con: "content ?cb' = content cb1" by (simp add: content_def)
    moreover have tot: "total_size ?cb' = length (content cb1) + length (content other)"
      using cb1(2) sizes(2) by (simp add: cb_wf_def)
    moreover have "cb_consume ?cb' (total_size ?cb') = Inl Out_of_bounds"
    proof -
      have "concat (blocks other) \<noteq> []"
        using assms(3) drop_concat_Nil unfolding content_def by (metis drop_Nil)
      then have "content cb1 \<noteq> []" using cb1(3) by simp
      then have "blocks cb1 \<noteq> []" by (auto simp: content_def)
      moreover have "cursor_in ?cb'" using cb1(2) by (auto simp: cb_wf_def cursor_ok_def cursor_in_def split: if_splits)
      ultimately have "consume_loop ?cb' (total_size ?cb') 0 = Inl Out_of_bounds"
        using consume_loop_overrun [of ?cb' "total_size ?cb'" 0] con tot assms(3) by simp
      then show ?thesis by (simp add: cb_consume_def)
    qed
    ultimately show "\<exists>cb' other'. cb_append_chain cb other = Some (cb', other')
               \<and> content cb' = content cb @ concat (blocks other)
               \<and> total_size cb' = length (content cb') + length (content other)
               \<and> cb_consume cb' (total_size cb') = Inl Out_of_bounds"
      using cb1(3) by (intro exI [of _ ?cb'] exI [of _ "cb_clear other"]) simp
  }
qed

theorem chain_append_miscounts_witness:
  "\<exists>cb' other'. cb_append_chain \<lparr>block_size = 4, blocks = [[7]], total_size = 1, read_pos = 0, read_block = 0\<rparr>
      \<lparr>block_size = 4, blocks = [[8, 9]], total_size = 2, read_pos = 0, read_block = 0\<rparr> = Some (cb', other')
    \<and> total_size cb' = 5 \<and> content cb' = [7, 8, 9]"
proof -
  let ?a = "\<lparr>block_size = 4, blocks = [[7]], total_size = 1, read_pos = 0, read_block = 0\<rparr>"
  let ?b = "\<lparr>block_size = 4, blocks = [[8, 9]], total_size = 2, read_pos = 0, read_block = 0\<rparr>"
  have "cb_wf ?a" "cb_wf ?b" "content ?a = [7]" "content ?b = [8, 9]"
    by (simp_all add: cb_wf_def cursor_ok_def content_def)
  then show ?thesis using chain_append_miscounts [of ?a ?b] by auto
qed

text \<open>
  The double buffer hands over whole values: a reader that copies plainly sees the initial value until
  a write succeeds, then always the last value whose write succeeded, whichever of the two containers it
  is in; a write whose copy fails changes nothing.
\<close>

theorem dbuffer_reads_last_write:
  "db_read default_copy (fold (\<lambda>v b. fst (db_write (\<lambda>src dst. if accept src then Some src else None) b v)) vs (db_new initial)) x
     = Some (last (initial # filter accept vs))
 \<and> (let b = fold (\<lambda>v b. fst (db_write (\<lambda>src dst. if accept src then Some src else None) b v)) vs (db_new initial)
    in db_back b \<noteq> db_front b \<and> db_read default_copy (db_write_move b y) x = Some y)"
proof -
  define step where "step = (\<lambda>v b. fst (db_write (\<lambda>src dst. if accept src then Some src else None) b v))"
  have step: "db_back (step v b) \<noteq> db_front (step v b) \<and>
      db_data (step v b) (db_front (step v b)) = (if accept v then v else db_data b (db_front b))"
    if "db_back b \<noteq> db_front b" for v and b :: "'a dbuffer"
    using that by (simp add: step_def db_write_def db_swap_def Let_def)
  have inv: "db_back (fold step vs b) \<noteq> db_front (fold step vs b) \<and>
        db_data (fold step vs b) (db_front (fold step vs b)) = last (db_data b (db_front b) # filter accept vs)"
    if "db_back b \<noteq> db_front b" for b
    using that
  proof (induction vs arbitrary: b)
    case (Cons v vs)
    then show ?case using Cons.IH [of "step v b"] step [of b v] by (auto split: if_splits)
  qed simp
  have "db_back (db_new initial) \<noteq> db_front (db_new initial)" by (simp add: db_new_def)
  from inv [OF this] show ?thesis
    unfolding step_def [symmetric]
    by (simp add: db_read_def default_copy_def db_new_def db_write_move_def db_swap_def Let_def)
qed

end
