(* ===== verification/Skiplist.thy ===== *)
theory Skiplist
  imports HjPrelude
begin

text \<open>
  \<open>src/hj/algo/skiplist.hpp\<close>: the skip list with spans (the sorted set of Redis), as an explicit heap
  of nodes. A node has its object, its score, a backward pointer and a flexible array of levels, each a
  forward pointer and a span; every access through a freed or null pointer and every level index past a
  node's array is \<open>Out_of_bounds\<close>.

  Scores are any linear order (the doubles of the source without NaN), the comparison of objects is a
  parameter. Lengths, ranks and spans are \<open>unsigned long\<close>, that is 64-bit words, because the source lets
  \<open>span - 1\<close> wrap below zero on its way. Loops along pointers are partial functions: \<open>None\<close> is a loop
  that does not end. The address that \<open>operator new\<close> returns, the indeterminate contents of its memory and
  the results of the random draws are arguments.
\<close>

section \<open>Definitions\<close>

subsection \<open>Results of pointer programs\<close>

type_synonym 'a run = "'a result option"

definition run_bind :: "'a run \<Rightarrow> ('a \<Rightarrow> 'b run) \<Rightarrow> 'b run" where
  "run_bind m f = (case m of None \<Rightarrow> None | Some (Inl err) \<Rightarrow> Some (Inl err) | Some (Inr v) \<Rightarrow> f v)"

lemma run_bind_simps [simp]:
  "run_bind None f = None" "run_bind (Some (Inl err)) f = Some (Inl err)" "run_bind (Some (Inr v)) f = f v"
  by (simp_all add: run_bind_def)

primrec for_each :: "('i \<Rightarrow> 'h \<Rightarrow> 'h result) \<Rightarrow> 'i list \<Rightarrow> 'h \<Rightarrow> 'h result" where
  "for_each body [] h = Inr h"
| "for_each body (i # is) h = (case body i h of Inl err \<Rightarrow> Inl err | Inr h' \<Rightarrow> for_each body is h')"

subsection \<open>Nodes and the heap\<close>

type_synonym sl_cell = "nat option \<times> u64"

record ('s, 'a) sl_node =
  n_obj :: 'a
  n_score :: 's
  n_back :: "nat option"
  n_lev :: "sl_cell list"

type_synonym ('s, 'a) sl_heap = "nat \<Rightarrow> ('s, 'a) sl_node option"

record ('s, 'a) skiplist =
  sl_heap :: "('s, 'a) sl_heap"
  sl_header :: nat
  sl_tail :: "nat option"
  sl_length :: u64
  sl_level :: nat

definition SKIPLIST_MAXLEVEL :: nat where
  "SKIPLIST_MAXLEVEL = 32"

definition node_at :: "('s, 'a) sl_heap \<Rightarrow> nat \<Rightarrow> ('s, 'a) sl_node result" where
  "node_at h p = (case h p of None \<Rightarrow> Inl Out_of_bounds | Some nd \<Rightarrow> Inr nd)"

definition lev_at :: "('s, 'a) sl_heap \<Rightarrow> nat \<Rightarrow> nat \<Rightarrow> sl_cell result" where
  "lev_at h p i =
     (case h p of
        None \<Rightarrow> Inl Out_of_bounds
      | Some nd \<Rightarrow> if i < length (n_lev nd) then Inr (n_lev nd ! i) else Inl Out_of_bounds)"

definition set_lev :: "('s, 'a) sl_heap \<Rightarrow> nat \<Rightarrow> nat \<Rightarrow> sl_cell \<Rightarrow> ('s, 'a) sl_heap result" where
  "set_lev h p i c =
     (case h p of
        None \<Rightarrow> Inl Out_of_bounds
      | Some nd \<Rightarrow> if i < length (n_lev nd) then Inr (h(p \<mapsto> nd\<lparr>n_lev := (n_lev nd)[i := c]\<rparr>)) else Inl Out_of_bounds)"

definition set_back :: "('s, 'a) sl_heap \<Rightarrow> nat \<Rightarrow> nat option \<Rightarrow> ('s, 'a) sl_heap result" where
  "set_back h p b =
     (case h p of None \<Rightarrow> Inl Out_of_bounds | Some nd \<Rightarrow> Inr (h(p \<mapsto> nd\<lparr>n_back := b\<rparr>)))"

definition create_node :: "sl_cell \<Rightarrow> nat \<Rightarrow> 's \<Rightarrow> 'a \<Rightarrow> ('s, 'a) sl_node" where
  "create_node junk lev score obj = \<lparr>n_obj = obj, n_score = score, n_back = None, n_lev = replicate lev junk\<rparr>"

definition free_node :: "('s, 'a) sl_heap \<Rightarrow> nat \<Rightarrow> ('s, 'a) sl_heap result" where
  "free_node h p = (case h p of None \<Rightarrow> Inl Out_of_bounds | Some nd \<Rightarrow> Inr (h(p := None)))"

text \<open>The level of a new node: one, plus the number of leading draws below \<open>SKIPLIST_P\<close>, up to the maximum.\<close>

primrec random_level_from :: "nat \<Rightarrow> bool list \<Rightarrow> nat" where
  "random_level_from lev [] = lev"
| "random_level_from lev (below # draws) =
     (if below \<and> lev < SKIPLIST_MAXLEVEL then random_level_from (lev + 1) draws else lev)"

definition random_level :: "bool list \<Rightarrow> nat" where
  "random_level draws = random_level_from 1 draws"

definition sl_new :: "'s \<Rightarrow> 'a \<Rightarrow> nat \<Rightarrow> ('s, 'a) skiplist" where
  "sl_new zero dflt hdr =
     \<lparr>sl_heap = (\<lambda>_. None)(hdr \<mapsto> create_node (None, 0) SKIPLIST_MAXLEVEL zero dflt),
      sl_header = hdr, sl_tail = None, sl_length = 0, sl_level = 1\<rparr>"

subsection \<open>Walking down the levels\<close>

text \<open>
  The inner loop of every search: at level \<open>i\<close>, step to the next node as long as there is one and the
  condition holds. The condition sees the next node and the sum of the spans walked so far, including
  the step to it.
\<close>

partial_function (option) sl_walk ::
  "(('s, 'a) sl_node \<Rightarrow> u64 \<Rightarrow> bool) \<Rightarrow> ('s, 'a) sl_heap \<Rightarrow> nat \<Rightarrow> nat \<Rightarrow> u64 \<Rightarrow> (nat \<times> u64) run" where
  [code]: "sl_walk go h i x tr =
     (case lev_at h x i of
        Inl err \<Rightarrow> Some (Inl err)
      | Inr c \<Rightarrow>
          (case fst c of
             None \<Rightarrow> Some (Inr (x, tr))
           | Some y \<Rightarrow>
               (case node_at h y of
                  Inl err \<Rightarrow> Some (Inl err)
                | Inr ny \<Rightarrow> if go ny (tr + snd c) then sl_walk go h i y (tr + snd c) else Some (Inr (x, tr)))))"

text \<open>
  The outer loop from level \<open>i - 1\<close> down to 0: the arrays \<open>update\<close> and \<open>rank\<close> as a list of pairs, index
  0 first, and the node \<open>x\<close> it ends at.
\<close>

primrec sl_descend ::
  "(('s, 'a) sl_node \<Rightarrow> u64 \<Rightarrow> bool) \<Rightarrow> ('s, 'a) sl_heap \<Rightarrow> nat \<Rightarrow> nat \<Rightarrow> u64 \<Rightarrow> ((nat \<times> u64) list \<times> nat) run" where
  "sl_descend go h 0 x tr = Some (Inr ([], x))"
| "sl_descend go h (Suc i) x tr =
     run_bind (sl_walk go h i x tr) (\<lambda>(x', tr').
     run_bind (sl_descend go h i x' tr') (\<lambda>(us, final). Some (Inr (us @ [(x', tr')], final))))"

definition before :: "('a \<Rightarrow> 'a \<Rightarrow> bool) \<Rightarrow> 's::linorder \<Rightarrow> 'a \<Rightarrow> ('s, 'a) sl_node \<Rightarrow> bool" where
  "before cmp score obj nd \<longleftrightarrow> n_score nd < score \<or> n_score nd = score \<and> cmp (n_obj nd) obj"

definition matches :: "('a \<Rightarrow> 'a \<Rightarrow> bool) \<Rightarrow> 's::linorder \<Rightarrow> 'a \<Rightarrow> ('s, 'a) sl_node \<Rightarrow> bool" where
  "matches cmp score obj nd \<longleftrightarrow> n_score nd = score \<and> \<not> cmp (n_obj nd) obj \<and> \<not> cmp obj (n_obj nd)"

subsection \<open>Insertion\<close>

definition set_span :: "('s, 'a) sl_heap \<Rightarrow> nat \<Rightarrow> nat \<Rightarrow> (u64 \<Rightarrow> u64) \<Rightarrow> ('s, 'a) sl_heap result" where
  "set_span h p i f =
     (case lev_at h p i of Inl err \<Rightarrow> Inl err | Inr c \<Rightarrow> set_lev h p i (fst c, f (snd c)))"

definition link_level :: "(nat \<times> u64) list \<Rightarrow> nat \<Rightarrow> nat \<Rightarrow> ('s, 'a) sl_heap \<Rightarrow> ('s, 'a) sl_heap result" where
  "link_level us x i h =
     (let u = fst (us ! i); d = snd (us ! 0) - snd (us ! i) in
      case lev_at h u i of
        Inl err \<Rightarrow> Inl err
      | Inr c \<Rightarrow>
          (case set_lev h x i (fst c, snd c - d) of
             Inl err \<Rightarrow> Inl err
           | Inr h' \<Rightarrow> set_lev h' u i (Some x, d + 1)))"

definition insert_at ::
  "sl_cell \<Rightarrow> nat \<Rightarrow> nat \<Rightarrow> 's \<Rightarrow> 'a \<Rightarrow> (nat \<times> u64) list \<Rightarrow> ('s, 'a) skiplist \<Rightarrow> (('s, 'a) skiplist \<times> nat) result" where
  "insert_at junk x new_level score obj us sl =
     (let hdr = sl_header sl; lev = sl_level sl;
          us' = us @ replicate (new_level - lev) (hdr, 0);
          lev' = (if new_level > lev then new_level else lev)
      in
      case for_each (\<lambda>i h. set_span h hdr i (\<lambda>_. sl_length sl)) [lev..<new_level] (sl_heap sl) of
        Inl err \<Rightarrow> Inl err
      | Inr h1 \<Rightarrow>
      (case for_each (link_level us' x) [0..<new_level] (h1(x \<mapsto> create_node junk new_level score obj)) of
        Inl err \<Rightarrow> Inl err
      | Inr h2 \<Rightarrow>
      (case for_each (\<lambda>i h. set_span h (fst (us' ! i)) i (\<lambda>s. s + 1)) [new_level..<lev'] h2 of
        Inl err \<Rightarrow> Inl err
      | Inr h3 \<Rightarrow>
      (case set_back h3 x (if fst (us' ! 0) = hdr then None else Some (fst (us' ! 0))) of
        Inl err \<Rightarrow> Inl err
      | Inr h4 \<Rightarrow>
      (case lev_at h4 x 0 of
        Inl err \<Rightarrow> Inl err
      | Inr c \<Rightarrow>
      (case fst c of
         None \<Rightarrow> Inr (sl\<lparr>sl_heap := h4, sl_tail := Some x, sl_length := sl_length sl + 1, sl_level := lev'\<rparr>, x)
       | Some y \<Rightarrow>
           (case set_back h4 y (Some x) of
              Inl err \<Rightarrow> Inl err
            | Inr h5 \<Rightarrow> Inr (sl\<lparr>sl_heap := h5, sl_length := sl_length sl + 1, sl_level := lev'\<rparr>, x))))))))"

definition sl_insert ::
  "('a \<Rightarrow> 'a \<Rightarrow> bool) \<Rightarrow> bool list \<Rightarrow> sl_cell \<Rightarrow> nat \<Rightarrow> 's::linorder \<Rightarrow> 'a \<Rightarrow> ('s, 'a) skiplist
   \<Rightarrow> (('s, 'a) skiplist \<times> nat) run" where
  "sl_insert cmp draws junk x score obj sl =
     run_bind (sl_descend (\<lambda>nd _. before cmp score obj nd) (sl_heap sl) (sl_level sl) (sl_header sl) 0)
       (\<lambda>(us, final). Some (insert_at junk x (random_level draws) score obj us sl))"

subsection \<open>Deletion\<close>

definition unlink_level :: "(nat \<times> u64) list \<Rightarrow> nat \<Rightarrow> nat \<Rightarrow> ('s, 'a) sl_heap \<Rightarrow> ('s, 'a) sl_heap result" where
  "unlink_level us x i h =
     (let u = fst (us ! i) in
      case lev_at h u i of
        Inl err \<Rightarrow> Inl err
      | Inr c \<Rightarrow>
          if fst c = Some x then
            (case lev_at h x i of
               Inl err \<Rightarrow> Inl err
             | Inr cx \<Rightarrow> set_lev h u i (fst cx, snd c + (snd cx - 1)))
          else set_lev h u i (fst c, snd c - 1))"

fun lower_level :: "('s, 'a) sl_heap \<Rightarrow> nat \<Rightarrow> nat \<Rightarrow> nat result" where
  "lower_level h hdr lev =
     (if lev > 1 then
        (case lev_at h hdr (lev - 1) of
           Inl err \<Rightarrow> Inl err
         | Inr c \<Rightarrow> if fst c = None then lower_level h hdr (lev - 1) else Inr lev)
      else Inr lev)"

declare lower_level.simps [simp del]

definition delete_node_internal :: "nat \<Rightarrow> (nat \<times> u64) list \<Rightarrow> ('s, 'a) skiplist \<Rightarrow> ('s, 'a) skiplist result" where
  "delete_node_internal x us sl =
     (case for_each (unlink_level us x) [0..<sl_level sl] (sl_heap sl) of
        Inl err \<Rightarrow> Inl err
      | Inr h1 \<Rightarrow>
      (case node_at h1 x of
        Inl err \<Rightarrow> Inl err
      | Inr nd \<Rightarrow>
      (case lev_at h1 x 0 of
        Inl err \<Rightarrow> Inl err
      | Inr c \<Rightarrow>
      (case (case fst c of None \<Rightarrow> Inr h1 | Some y \<Rightarrow> set_back h1 y (n_back nd)) of
        Inl err \<Rightarrow> Inl err
      | Inr h2 \<Rightarrow>
      (case free_node h2 x of
        Inl err \<Rightarrow> Inl err
      | Inr h3 \<Rightarrow>
      (case lower_level h3 (sl_header sl) (sl_level sl) of
        Inl err \<Rightarrow> Inl err
      | Inr lev \<Rightarrow>
          Inr (sl\<lparr>sl_heap := h3, sl_tail := (if fst c = None then n_back nd else sl_tail sl),
                  sl_level := lev, sl_length := sl_length sl - 1\<rparr>)))))))"

definition delete_node ::
  "('a \<Rightarrow> 'a \<Rightarrow> bool) \<Rightarrow> 's::linorder \<Rightarrow> 'a \<Rightarrow> ('s, 'a) skiplist \<Rightarrow> (('s, 'a) skiplist \<times> bool) run" where
  "delete_node cmp score obj sl =
     run_bind (sl_descend (\<lambda>nd _. before cmp score obj nd) (sl_heap sl) (sl_level sl) (sl_header sl) 0)
       (\<lambda>(us, final).
     run_bind (Some (lev_at (sl_heap sl) final 0)) (\<lambda>c.
        case fst c of
          None \<Rightarrow> Some (Inr (sl, False))
        | Some x \<Rightarrow>
            run_bind (Some (node_at (sl_heap sl) x)) (\<lambda>nx.
              if matches cmp score obj nx
              then run_bind (Some (delete_node_internal x us sl)) (\<lambda>sl'. Some (Inr (sl', True)))
              else Some (Inr (sl, False)))))"

text \<open>The loop that deletes consecutive nodes; the condition sees the node and the number removed so far.\<close>

partial_function (option) delete_while ::
  "(('s, 'a) sl_node \<Rightarrow> u64 \<Rightarrow> bool) \<Rightarrow> (nat \<times> u64) list \<Rightarrow> nat option \<Rightarrow> u64 \<Rightarrow> ('s, 'a) skiplist
   \<Rightarrow> (('s, 'a) skiplist \<times> u64) run" where
  [code]: "delete_while again us xo removed sl =
     (case xo of
        None \<Rightarrow> Some (Inr (sl, removed))
      | Some x \<Rightarrow>
          (case node_at (sl_heap sl) x of
             Inl err \<Rightarrow> Some (Inl err)
           | Inr nx \<Rightarrow>
               if again nx removed then
                 (case lev_at (sl_heap sl) x 0 of
                    Inl err \<Rightarrow> Some (Inl err)
                  | Inr c \<Rightarrow>
                      (case delete_node_internal x us sl of
                         Inl err \<Rightarrow> Some (Inl err)
                       | Inr sl' \<Rightarrow> delete_while again us (fst c) (removed + 1) sl'))
               else Some (Inr (sl, removed))))"

definition delete_range_by_score ::
  "'s::linorder \<Rightarrow> 's \<Rightarrow> ('s, 'a) skiplist \<Rightarrow> (('s, 'a) skiplist \<times> u64) run" where
  "delete_range_by_score min_score max_score sl =
     run_bind (sl_descend (\<lambda>nd _. n_score nd < min_score) (sl_heap sl) (sl_level sl) (sl_header sl) 0) (\<lambda>(us, final).
     run_bind (Some (lev_at (sl_heap sl) final 0)) (\<lambda>c.
     delete_while (\<lambda>nd _. n_score nd \<le> max_score) us (fst c) 0 sl))"

definition delete_range_by_rank ::
  "u64 \<Rightarrow> u64 \<Rightarrow> ('s, 'a) skiplist \<Rightarrow> (('s, 'a) skiplist \<times> u64) run" where
  "delete_range_by_rank start final_rank sl =
     (if start > final_rank \<or> start \<ge> sl_length sl then Some (Inr (sl, 0))
      else let end_rank = (if final_rank \<ge> sl_length sl then sl_length sl - 1 else final_rank) in
        run_bind (sl_descend (\<lambda>_ t. t \<le> start) (sl_heap sl) (sl_level sl) (sl_header sl) 0) (\<lambda>(us, final).
        run_bind (Some (lev_at (sl_heap sl) final 0)) (\<lambda>c.
        delete_while (\<lambda>_ removed. start + removed \<le> end_rank) us (fst c) 0 sl)))"

subsection \<open>Queries\<close>

definition get_element_by_rank :: "u64 \<Rightarrow> ('s, 'a) skiplist \<Rightarrow> nat option run" where
  "get_element_by_rank rank sl =
     (if rank \<ge> sl_length sl then Some (Inr None)
      else run_bind (sl_descend (\<lambda>_ t. t - 1 < rank) (sl_heap sl) (sl_level sl) (sl_header sl) 0) (\<lambda>(us, final).
           run_bind (Some (lev_at (sl_heap sl) final 0)) (\<lambda>c. Some (Inr (fst c)))))"

primrec find_rank ::
  "('a \<Rightarrow> 'a \<Rightarrow> bool) \<Rightarrow> 's::linorder \<Rightarrow> 'a \<Rightarrow> ('s, 'a) skiplist \<Rightarrow> nat \<Rightarrow> nat \<Rightarrow> u64 \<Rightarrow> u64 run" where
  "find_rank cmp score obj sl 0 x rank = Some (Inr (sl_length sl))"
| "find_rank cmp score obj sl (Suc i) x rank =
     run_bind (sl_walk (\<lambda>nd _. before cmp score obj nd) (sl_heap sl) i x rank) (\<lambda>(x', rank').
     run_bind (Some (lev_at (sl_heap sl) x' i)) (\<lambda>c.
       case fst c of
         None \<Rightarrow> find_rank cmp score obj sl i x' rank'
       | Some y \<Rightarrow>
           run_bind (Some (node_at (sl_heap sl) y)) (\<lambda>ny.
             if matches cmp score obj ny then Some (Inr (rank' + snd c - 1))
             else find_rank cmp score obj sl i x' rank')))"

definition get_rank :: "('a \<Rightarrow> 'a \<Rightarrow> bool) \<Rightarrow> 's::linorder \<Rightarrow> 'a \<Rightarrow> ('s, 'a) skiplist \<Rightarrow> u64 run" where
  "get_rank cmp score obj sl = find_rank cmp score obj sl (sl_level sl) (sl_header sl) 0"

definition is_in_range :: "'s::linorder \<Rightarrow> 's \<Rightarrow> ('s, 'a) skiplist \<Rightarrow> bool run" where
  "is_in_range min_score max_score sl =
     (if min_score > max_score then Some (Inr False)
      else case sl_tail sl of
             None \<Rightarrow> Some (Inr False)
           | Some t \<Rightarrow>
               run_bind (Some (node_at (sl_heap sl) t)) (\<lambda>nt.
                 if n_score nt < min_score then Some (Inr False)
                 else run_bind (Some (lev_at (sl_heap sl) (sl_header sl) 0)) (\<lambda>c.
                        case fst c of
                          None \<Rightarrow> Some (Inr False)
                        | Some x \<Rightarrow> run_bind (Some (node_at (sl_heap sl) x)) (\<lambda>nx.
                                      Some (Inr (\<not> n_score nx > max_score))))))"

definition first_in_range :: "'s::linorder \<Rightarrow> 's \<Rightarrow> ('s, 'a) skiplist \<Rightarrow> nat option run" where
  "first_in_range min_score max_score sl =
     run_bind (is_in_range min_score max_score sl) (\<lambda>ok.
       if \<not> ok then Some (Inr None)
       else run_bind (sl_descend (\<lambda>nd _. n_score nd < min_score) (sl_heap sl) (sl_level sl) (sl_header sl) 0) (\<lambda>(us, final).
            run_bind (Some (lev_at (sl_heap sl) final 0)) (\<lambda>c.
              case fst c of
                None \<Rightarrow> Some (Inr None)
              | Some x \<Rightarrow> run_bind (Some (node_at (sl_heap sl) x)) (\<lambda>nx.
                            Some (Inr (if n_score nx > max_score then None else Some x))))))"

definition last_in_range :: "'s::linorder \<Rightarrow> 's \<Rightarrow> ('s, 'a) skiplist \<Rightarrow> nat option run" where
  "last_in_range min_score max_score sl =
     run_bind (is_in_range min_score max_score sl) (\<lambda>ok.
       if \<not> ok then Some (Inr None)
       else run_bind (sl_descend (\<lambda>nd _. n_score nd \<le> max_score) (sl_heap sl) (sl_level sl) (sl_header sl) 0) (\<lambda>(us, final).
            run_bind (Some (node_at (sl_heap sl) final)) (\<lambda>nx.
              Some (Inr (if n_score nx < min_score then None else Some final)))))"

text \<open>\<open>iterator::operator++\<close> and \<open>operator--\<close>: a null iterator stays where it is.\<close>

definition iter_next :: "('s, 'a) sl_heap \<Rightarrow> nat option \<Rightarrow> nat option result" where
  "iter_next h it =
     (case it of None \<Rightarrow> Inr None | Some x \<Rightarrow> (case lev_at h x 0 of Inl err \<Rightarrow> Inl err | Inr c \<Rightarrow> Inr (fst c)))"

definition iter_prev :: "('s, 'a) sl_heap \<Rightarrow> nat option \<Rightarrow> nat option result" where
  "iter_prev h it =
     (case it of None \<Rightarrow> Inr None | Some x \<Rightarrow> (case node_at h x of Inl err \<Rightarrow> Inl err | Inr nd \<Rightarrow> Inr (n_back nd)))"

definition sl_first :: "('s, 'a) skiplist \<Rightarrow> nat option result" where
  "sl_first sl = (case lev_at (sl_heap sl) (sl_header sl) 0 of Inl err \<Rightarrow> Inl err | Inr c \<Rightarrow> Inr (fst c))"

partial_function (option) validate_loop :: "('s::linorder, 'a) sl_heap \<Rightarrow> nat option \<Rightarrow> u64 \<Rightarrow> u64 option run" where
  [code]: "validate_loop h xo count =
     (case xo of
        None \<Rightarrow> Some (Inr (Some count))
      | Some x \<Rightarrow>
          (case (node_at h x, lev_at h x 0) of
             (Inr nx, Inr c) \<Rightarrow>
               (case fst c of
                  None \<Rightarrow> validate_loop h None (count + 1)
                | Some y \<Rightarrow>
                    (case node_at h y of
                       Inl err \<Rightarrow> Some (Inl err)
                     | Inr ny \<Rightarrow> if n_score nx > n_score ny then Some (Inr None)
                                 else validate_loop h (Some y) (count + 1)))
           | (Inl err, _) \<Rightarrow> Some (Inl err)
           | (_, Inl err) \<Rightarrow> Some (Inl err)))"

definition validate :: "('s::linorder, 'a) skiplist \<Rightarrow> bool run" where
  "validate sl =
     run_bind (Some (sl_first sl)) (\<lambda>xo.
     run_bind (validate_loop (sl_heap sl) xo 0) (\<lambda>r.
       Some (Inr (case r of None \<Rightarrow> False | Some count \<Rightarrow> count = sl_length sl))))"

partial_function (option) release_loop :: "nat option \<Rightarrow> ('s, 'a) sl_heap \<Rightarrow> ('s, 'a) sl_heap run" where
  [code]: "release_loop fo h =
     (case fo of
        None \<Rightarrow> Some (Inr h)
      | Some f \<Rightarrow>
          (case lev_at h f 0 of
             Inl err \<Rightarrow> Some (Inl err)
           | Inr c \<Rightarrow>
               (case free_node h f of
                  Inl err \<Rightarrow> Some (Inl err)
                | Inr h' \<Rightarrow> release_loop (fst c) h')))"

definition release :: "('s, 'a) skiplist \<Rightarrow> ('s, 'a) sl_heap run" where
  "release sl =
     run_bind (Some (sl_first sl)) (\<lambda>fo.
     run_bind (release_loop fo (sl_heap sl)) (\<lambda>h. Some (free_node h (sl_header sl))))"

subsection \<open>Range queries\<close>

record range_result =
  r_nodes :: "nat list"
  total_in_range :: u64

definition no_result :: range_result where
  "no_result = \<lparr>r_nodes = [], total_in_range = 0\<rparr>"

text \<open>
  A loop along level 0 while the score is at most \<open>max_score\<close> and the guard on the number of rounds
  allows: the three loops of \<open>range_by_score\<close> count the nodes, and the second one collects them.
\<close>

partial_function (option) range_loop ::
  "('s::linorder, 'a) sl_heap \<Rightarrow> 's \<Rightarrow> (nat \<Rightarrow> bool) \<Rightarrow> nat \<Rightarrow> nat option \<Rightarrow> nat list \<Rightarrow> (nat option \<times> nat list) run" where
  [code]: "range_loop h max_score allow n xo acc =
     (case xo of
        None \<Rightarrow> Some (Inr (None, acc))
      | Some x \<Rightarrow>
          (case node_at h x of
             Inl err \<Rightarrow> Some (Inl err)
           | Inr nx \<Rightarrow>
               if n_score nx \<le> max_score \<and> allow n then
                 (case lev_at h x 0 of
                    Inl err \<Rightarrow> Some (Inl err)
                  | Inr c \<Rightarrow> range_loop h max_score allow (n + 1) (fst c) (acc @ [x]))
               else Some (Inr (Some x, acc))))"

definition range_by_score ::
  "'s::linorder \<Rightarrow> 's \<Rightarrow> u64 \<Rightarrow> int \<Rightarrow> ('s, 'a) skiplist \<Rightarrow> range_result run" where
  "range_by_score min_score max_score offset limit sl =
     run_bind (first_in_range min_score max_score sl) (\<lambda>xo.
       case xo of
         None \<Rightarrow> Some (Inr no_result)
       | Some x \<Rightarrow>
           run_bind (range_loop (sl_heap sl) max_score (\<lambda>i. i < unat offset) 0 (Some x) []) (\<lambda>(x1, skipped).
           run_bind (range_loop (sl_heap sl) max_score (\<lambda>i. limit = -1 \<or> int i < limit) 0 x1 []) (\<lambda>(x2, got).
           run_bind (range_loop (sl_heap sl) max_score (\<lambda>_. True) 0 x2 []) (\<lambda>(x3, rest).
             Some (Inr \<lparr>r_nodes = got,
                        total_in_range = of_nat (length skipped + length got + length rest)\<rparr>)))))"

text \<open>The ranks that the loops of \<open>range_by_rank\<close> run through, looked up one by one.\<close>

primrec ranks_loop :: "('s, 'a) skiplist \<Rightarrow> u64 list \<Rightarrow> range_result \<Rightarrow> range_result run" where
  "ranks_loop sl [] res = Some (Inr res)"
| "ranks_loop sl (i # is) res =
     run_bind (get_element_by_rank i sl) (\<lambda>xo.
       ranks_loop sl is
         (case xo of
            None \<Rightarrow> res
          | Some x \<Rightarrow> res\<lparr>r_nodes := r_nodes res @ [x], total_in_range := total_in_range res + 1\<rparr>))"

definition range_by_rank :: "u64 \<Rightarrow> u64 \<Rightarrow> bool \<Rightarrow> ('s, 'a) skiplist \<Rightarrow> range_result run" where
  "range_by_rank start end_param reverse sl =
     (if start > end_param \<or> start \<ge> sl_length sl then Some (Inr no_result)
      else let final_rank = (if end_param \<ge> sl_length sl then sl_length sl - 1 else end_param);
               ranks = map of_nat [unat start..<unat final_rank + 1]
           in ranks_loop sl (if reverse then rev ranks else ranks) no_result)"

end
