(* ===== verification/SkiplistRep.thy ===== *)
theory SkiplistRep
  imports Skiplist
begin

text \<open>
  What the heap of a skip list stands for, and what its searches find.

  A skip list with \<open>n\<close> elements is described by the addresses \<open>q\<close> of its nodes in order, the header
  first, the numbers of levels \<open>H\<close> of these nodes and the list \<open>xs\<close> of pairs of score and object. The
  forward pointer of node \<open>k\<close> at level \<open>i\<close> leads to the next node that has a level \<open>i\<close>, its span is the
  distance to that node or, for the last one, to the end.
\<close>

section \<open>Nodes that reach a level\<close>

definition nxt :: "nat list \<Rightarrow> nat \<Rightarrow> nat \<Rightarrow> nat option" where
  "nxt H i k = find (\<lambda>m. i < H ! m) [Suc k..<length H]"

definition gap :: "nat list \<Rightarrow> nat \<Rightarrow> nat \<Rightarrow> nat" where
  "gap H i k = (case nxt H i k of Some m \<Rightarrow> m - k | None \<Rightarrow> length H - 1 - k)"

primrec last_tall :: "nat list \<Rightarrow> nat \<Rightarrow> nat \<Rightarrow> nat" where
  "last_tall H i 0 = 0"
| "last_tall H i (Suc k) = (if i < H ! Suc k then Suc k else last_tall H i k)"

lemma nxt_Some_iff:
  "nxt H i k = Some m \<longleftrightarrow> k < m \<and> m < length H \<and> i < H ! m \<and> (\<forall>j. k < j \<and> j < m \<longrightarrow> \<not> i < H ! j)"
proof
  assume "nxt H i k = Some m"
  then obtain a where a: "a < length H - Suc k" "i < H ! (Suc k + a)" "m = Suc k + a" "\<forall>b<a. \<not> i < H ! (Suc k + b)"
    unfolding nxt_def find_Some_iff by auto
  have "\<not> i < H ! j" if "k < j" "j < m" for j
    using a(4) [rule_format, of "j - Suc k"] a(3) that by simp
  then show "k < m \<and> m < length H \<and> i < H ! m \<and> (\<forall>j. k < j \<and> j < m \<longrightarrow> \<not> i < H ! j)" using a by auto
next
  assume r: "k < m \<and> m < length H \<and> i < H ! m \<and> (\<forall>j. k < j \<and> j < m \<longrightarrow> \<not> i < H ! j)"
  then show "nxt H i k = Some m"
    unfolding nxt_def find_Some_iff by (intro exI [of _ "m - Suc k"]) auto
qed

lemma nxt_None_iff: "nxt H i k = None \<longleftrightarrow> (\<forall>m. k < m \<and> m < length H \<longrightarrow> \<not> i < H ! m)"
  by (auto simp: nxt_def find_None_iff)

lemma nxt_SomeD:
  assumes "nxt H i k = Some m"
  shows "k < m" "m < length H" "i < H ! m" "\<And>j. k < j \<Longrightarrow> j < m \<Longrightarrow> \<not> i < H ! j"
  using assms by (auto simp: nxt_Some_iff)

lemma gap_Some: "nxt H i k = Some m \<Longrightarrow> gap H i k = m - k"
  by (simp add: gap_def)

lemma gap_None: "nxt H i k = None \<Longrightarrow> gap H i k = length H - 1 - k"
  by (simp add: gap_def)

lemma last_tall_le: "last_tall H i k \<le> k"
  by (induction k) auto

lemma last_tall_tall: "i < H ! 0 \<Longrightarrow> i < H ! last_tall H i k"
  by (induction k) auto

lemma last_tall_pos: "0 < last_tall H i k \<Longrightarrow> i < H ! last_tall H i k"
  by (induction k) auto

lemma last_tall_between: "last_tall H i k < m \<Longrightarrow> m \<le> k \<Longrightarrow> \<not> i < H ! m"
  by (induction k) (auto simp: le_Suc_eq split: if_splits)

lemma last_tall_eqI:
  assumes "u \<le> k" "i < H ! u" "\<And>m. u < m \<Longrightarrow> m \<le> k \<Longrightarrow> \<not> i < H ! m"
  shows "last_tall H i k = u"
  using assms by (induction k) (auto simp: le_Suc_eq)

lemma last_tall_ge: "j \<le> k \<Longrightarrow> i < H ! j \<Longrightarrow> j \<le> last_tall H i k"
  using last_tall_between not_le by blast

lemma last_tall_low: "(\<And>m. 0 < m \<Longrightarrow> m \<le> k \<Longrightarrow> \<not> i < H ! m) \<Longrightarrow> last_tall H i k = 0"
  by (induction k) auto

lemma last_tall_dense: "(\<And>m. 0 < m \<Longrightarrow> m \<le> k \<Longrightarrow> 0 < H ! m) \<Longrightarrow> last_tall H 0 k = k"
  by (cases k) auto

lemma last_tall_cong: "(\<And>m. m \<le> k \<Longrightarrow> H ! m = H' ! m) \<Longrightarrow> last_tall H i k = last_tall H' i k"
  by (induction k) auto

lemma nxt_last_tall: "nxt H i (last_tall H i k) = nxt H i k"
proof (cases "nxt H i k")
  case None
  have "nxt H i (last_tall H i k) = None"
    using None last_tall_between [of H i k] unfolding nxt_None_iff by (meson not_le)
  then show ?thesis using None by simp
next
  case (Some m)
  have "nxt H i (last_tall H i k) = Some m"
    using nxt_SomeD [OF Some] last_tall_le [of H i k] last_tall_between [of H i k] unfolding nxt_Some_iff
    by (meson le_less_trans not_le)
  then show ?thesis using Some by simp
qed

section \<open>Inserting into and deleting from a list\<close>

definition ins :: "nat \<Rightarrow> 'b \<Rightarrow> 'b list \<Rightarrow> 'b list" where
  "ins p v xs = take p xs @ v # drop p xs"

definition del :: "nat \<Rightarrow> 'b list \<Rightarrow> 'b list" where
  "del p xs = take p xs @ drop (Suc p) xs"

lemma length_ins [simp]: "length (ins p v xs) = Suc (length xs)"
  by (simp add: ins_def)

lemma ins_not_Nil [simp]: "ins p v xs \<noteq> []"
  by (simp add: ins_def)

lemma length_del: "p < length xs \<Longrightarrow> length (del p xs) = length xs - 1"
  by (simp add: del_def)

lemma nth_ins: "p \<le> length xs \<Longrightarrow> ins p v xs ! m = (if m < p then xs ! m else if m = p then v else xs ! (m - 1))"
  by (auto simp: ins_def nth_append nth_Cons' min_def)

lemma ins_del: "p < length xs \<Longrightarrow> ins p (xs ! p) (del p xs) = xs"
  by (simp add: ins_def del_def min_def id_take_nth_drop [symmetric])

lemma nth_del: "p < length xs \<Longrightarrow> m < length xs - 1 \<Longrightarrow> del p xs ! m = (if m < p then xs ! m else xs ! Suc m)"
  by (auto simp: del_def nth_append min_def)

lemma set_ins: "set (ins p v xs) = insert v (set xs)"
  unfolding ins_def by (metis append_take_drop_id list.simps(15) set_append Un_insert_right)

lemma distinct_ins: "distinct (ins p v xs) \<longleftrightarrow> v \<notin> set xs \<and> distinct xs"
proof -
  have "distinct (ins p v xs) \<longleftrightarrow> distinct (v # (take p xs @ drop p xs))"
    by (simp only: ins_def distinct_append distinct.simps list.set set_append) blast
  then show ?thesis by (simp only: append_take_drop_id distinct.simps)
qed

text \<open>How an inserted node changes what comes next.\<close>

lemma nxt_ins_after:
  assumes "p \<le> length H" "p \<le> Suc j"
  shows "nxt (ins p h H) i (Suc j) = map_option Suc (nxt H i j)"
proof (cases "nxt H i j")
  case None
  have shifted: "\<not> i < H ! (m - 1)" if "Suc j < m" "m < Suc (length H)" for m
    using None that unfolding nxt_None_iff by (auto dest: spec [of _ "m - 1"])
  then have "nxt (ins p h H) i (Suc j) = None"
    using assms unfolding nxt_None_iff by (auto simp: nth_ins)
  then show ?thesis using None by simp
next
  case (Some m)
  note m = nxt_SomeD [OF Some]
  have shifted: "\<not> i < H ! (b - 1)" if "Suc j < b" "b < Suc m" for b
    using m(4) [of "b - 1"] that by simp
  have "nxt (ins p h H) i (Suc j) = Some (Suc m)"
    using assms m shifted unfolding nxt_Some_iff by (auto simp: nth_ins)
  then show ?thesis using Some by simp
qed

lemma nxt_ins_before:
  assumes "p \<le> length H" "j < p"
  shows "nxt (ins p h H) i j =
     (case nxt H i j of
        Some m \<Rightarrow> if m < p then Some m else if i < h then Some p else Some (Suc m)
      | None \<Rightarrow> if i < h then Some p else None)"
proof (cases "nxt H i j")
  case None
  then have no: "\<And>m. j < m \<Longrightarrow> m < length H \<Longrightarrow> \<not> i < H ! m" by (auto simp: nxt_None_iff)
  have "nxt (ins p h H) i j = (if i < h then Some p else None)"
  proof (cases "i < h")
    case True
    then have "nxt (ins p h H) i j = Some p" using no assms unfolding nxt_Some_iff by (auto simp: nth_ins)
    then show ?thesis using True by simp
  next
    case False
    then have "nxt (ins p h H) i j = None" using no assms unfolding nxt_None_iff by (auto simp: nth_ins)
    then show ?thesis using False by simp
  qed
  then show ?thesis using None by simp
next
  case (Some m)
  note m = nxt_SomeD [OF Some]
  have shifted: "\<not> i < H ! (b - 1)" if "p < b" "b < Suc m" for b
    using m(4) [of "b - 1"] assms that by simp
  have "nxt (ins p h H) i j = Some (if m < p then m else if i < h then p else Suc m)"
    using assms m shifted unfolding nxt_Some_iff by (auto simp: nth_ins linorder_neq_iff [of _ p])
  then show ?thesis using Some by simp
qed

lemma gap_ins_after:
  assumes "p \<le> length H" "p \<le> Suc j" "j < length H"
  shows "gap (ins p h H) i (Suc j) = gap H i j"
  using nxt_ins_after [OF assms(1,2)] assms(3) by (auto simp: gap_def split: option.split)

lemma gap_last_tall:
  assumes "k < length H"
  shows "gap H i (last_tall H i k) = gap H i k + (k - last_tall H i k)"
  using nxt_last_tall [of H i k] last_tall_le [of H i k] assms
  by (auto simp: gap_def split: option.split dest: nxt_SomeD(1))

section \<open>The representation\<close>

definition node_ok :: "nat list \<Rightarrow> nat list \<Rightarrow> nat \<Rightarrow> ('s \<times> 'a) list \<Rightarrow> nat \<Rightarrow> ('s, 'a) sl_node \<Rightarrow> bool" where
  "node_ok q H lev xs k nd \<longleftrightarrow>
     length (n_lev nd) = H ! k
   \<and> (\<forall>i<H ! k. fst (n_lev nd ! i) = map_option (\<lambda>m. q ! m) (nxt H i k))
   \<and> (\<forall>i<H ! k. i < lev \<longrightarrow> snd (n_lev nd ! i) = of_nat (gap H i k))
   \<and> (0 < k \<longrightarrow> (n_score nd, n_obj nd) = xs ! (k - 1) \<and> n_back nd = (if k = 1 then None else Some (q ! (k - 1))))"

definition heights_ok :: "nat list \<Rightarrow> nat \<Rightarrow> bool" where
  "heights_ok H lev \<longleftrightarrow> H ! 0 = SKIPLIST_MAXLEVEL \<and> 1 \<le> lev \<and> lev \<le> SKIPLIST_MAXLEVEL
     \<and> (\<forall>k. 0 < k \<and> k < length H \<longrightarrow> 1 \<le> H ! k \<and> H ! k \<le> lev)"

definition heap_ok :: "('s, 'a) sl_heap \<Rightarrow> nat list \<Rightarrow> nat list \<Rightarrow> nat \<Rightarrow> ('s \<times> 'a) list \<Rightarrow> bool" where
  "heap_ok h q H lev xs \<longleftrightarrow>
     dom h = set q \<and> (\<forall>k<length q. \<exists>nd. h (q ! k) = Some nd \<and> node_ok q H lev xs k nd)"

definition sl_rep :: "('s, 'a) skiplist \<Rightarrow> nat list \<Rightarrow> nat list \<Rightarrow> ('s \<times> 'a) list \<Rightarrow> bool" where
  "sl_rep sl q H xs \<longleftrightarrow>
     length q = Suc (length xs) \<and> length H = Suc (length xs) \<and> distinct q \<and> q ! 0 = sl_header sl
   \<and> heights_ok H (sl_level sl) \<and> heap_ok (sl_heap sl) q H (sl_level sl) xs
   \<and> sl_tail sl = (if xs = [] then None else Some (q ! length xs))
   \<and> sl_length sl = of_nat (length xs) \<and> length xs < 2 ^ 64"

lemma sl_repD:
  assumes "sl_rep sl q H xs"
  shows "length q = Suc (length xs)" "length H = Suc (length xs)" "distinct q" "q ! 0 = sl_header sl"
    "heights_ok H (sl_level sl)" "heap_ok (sl_heap sl) q H (sl_level sl) xs"
    "sl_tail sl = (if xs = [] then None else Some (q ! length xs))" "sl_length sl = of_nat (length xs)" "length xs < 2 ^ 64"
  using assms by (simp_all add: sl_rep_def)

lemma heap_okE:
  assumes "heap_ok h q H lev xs" "k < length q"
  obtains nd where "h (q ! k) = Some nd" "node_ok q H lev xs k nd"
  using assms by (auto simp: heap_ok_def)

lemma heights_okD:
  assumes "heights_ok H lev"
  shows "H ! 0 = SKIPLIST_MAXLEVEL" "1 \<le> lev" "lev \<le> SKIPLIST_MAXLEVEL"
    "\<And>k. 0 < k \<Longrightarrow> k < length H \<Longrightarrow> 1 \<le> H ! k" "\<And>k. 0 < k \<Longrightarrow> k < length H \<Longrightarrow> H ! k \<le> lev"
  using assms by (auto simp: heights_ok_def)

lemma nxt_high: "heights_ok H lev \<Longrightarrow> lev \<le> i \<Longrightarrow> nxt H i k = None"
  unfolding nxt_None_iff heights_ok_def by (metis leD gr_implies_not_zero not_gr_zero order_trans)

lemma nxt_zero: "heights_ok H lev \<Longrightarrow> nxt H 0 k = (if Suc k < length H then Some (Suc k) else None)"
  using heights_okD(4) [of H lev] by (auto simp: nxt_Some_iff nxt_None_iff Suc_le_eq)

text \<open>The new list is empty.\<close>

lemma sl_rep_new: "sl_rep (sl_new zero dflt hdr) [hdr] [SKIPLIST_MAXLEVEL] []"
  by (auto simp: sl_rep_def sl_new_def heights_ok_def heap_ok_def node_ok_def create_node_def SKIPLIST_MAXLEVEL_def
      nxt_def gap_def)

text \<open>Reading a level of a node.\<close>

lemma lev_at_ok:
  assumes "heap_ok h q H lev xs" "k < length q" "i < H ! k"
  shows "\<exists>s. lev_at h (q ! k) i = Inr (map_option (\<lambda>m. q ! m) (nxt H i k), s) \<and> (i < lev \<longrightarrow> s = of_nat (gap H i k))"
proof -
  obtain nd where nd: "h (q ! k) = Some nd" "node_ok q H lev xs k nd" using heap_okE [OF assms(1,2)] .
  then show ?thesis using assms(3)
    by (intro exI [of _ "snd (n_lev nd ! i)"]) (auto simp: lev_at_def node_ok_def prod_eq_iff)
qed

lemma lev_at_span:
  assumes "heap_ok h q H lev xs" "k < length q" "i < H ! k" "i < lev"
  shows "lev_at h (q ! k) i = Inr (map_option (\<lambda>m. q ! m) (nxt H i k), of_nat (gap H i k))"
  using lev_at_ok [OF assms(1-3)] assms(4) by auto

section \<open>Searching\<close>

text \<open>
  A condition that holds exactly for the nodes up to index \<open>k\<close> stops the walk at level \<open>i\<close> at the last
  node up to \<open>k\<close> that has a level \<open>i\<close>, with the spans adding up to its index.
\<close>

lemma sl_walk_ok:
  assumes rep: "heap_ok h q H lev xs" "length q = length H"
    and go: "\<And>m nd. 0 < m \<Longrightarrow> m < length q \<Longrightarrow> h (q ! m) = Some nd \<Longrightarrow> go nd (of_nat m) \<longleftrightarrow> m \<le> k"
    and ik: "k < length q" "i < lev"
  shows "j \<le> k \<Longrightarrow> i < H ! j \<Longrightarrow>
         sl_walk go h i (q ! j) (of_nat j) = Some (Inr (q ! last_tall H i k, of_nat (last_tall H i k)))"
proof (induction "k - j" arbitrary: j rule: less_induct)
  case less
  have lev: "lev_at h (q ! j) i = Inr (map_option (\<lambda>m. q ! m) (nxt H i j), of_nat (gap H i j))"
    using less.prems ik by (intro lev_at_span [OF rep(1)]) auto
  show ?case
  proof (cases "nxt H i j")
    case None
    then have "last_tall H i k = j" using less.prems ik rep(2) by (intro last_tall_eqI) (auto simp: nxt_None_iff)
    then show ?thesis using None lev by (subst sl_walk.simps) simp
  next
    case (Some m)
    note m = nxt_SomeD [OF Some]
    obtain nd where nd: "h (q ! m) = Some nd" using heap_okE [OF rep(1), of m] m(2) rep(2) by auto
    have tr: "of_nat j + of_nat (gap H i j) = (of_nat m :: u64)"
      using m(1) Some by (simp add: gap_Some of_nat_diff)
    have step: "sl_walk go h i (q ! j) (of_nat j) =
        (if m \<le> k then sl_walk go h i (q ! m) (of_nat m) else Some (Inr (q ! j, of_nat j)))"
      using lev Some nd go [of m nd] m rep(2) tr by (subst sl_walk.simps) (simp add: node_at_def)
    show ?thesis
    proof (cases "m \<le> k")
      case True
      then show ?thesis using less.hyps [of m] m step by simp
    next
      case False
      then have "last_tall H i k = j" using less.prems m by (intro last_tall_eqI) auto
      then show ?thesis using step False by simp
    qed
  qed
qed

definition found :: "nat list \<Rightarrow> nat list \<Rightarrow> nat \<Rightarrow> nat \<Rightarrow> (nat \<times> u64) list" where
  "found q H k lev = map (\<lambda>i. (q ! last_tall H i k, of_nat (last_tall H i k))) [0..<lev]"

lemma sl_descend_ok:
  assumes rep: "heap_ok h q H lev xs" "length q = length H" "heights_ok H lev"
    and go: "\<And>m nd. 0 < m \<Longrightarrow> m < length q \<Longrightarrow> h (q ! m) = Some nd \<Longrightarrow> go nd (of_nat m) \<longleftrightarrow> m \<le> k"
    and k: "k < length q"
  shows "L \<le> lev \<Longrightarrow> j \<le> k \<Longrightarrow> L \<le> H ! j \<Longrightarrow>
         sl_descend go h L (q ! j) (of_nat j) = Some (Inr (found q H k L, if L = 0 then q ! j else q ! k))"
proof (induction L arbitrary: j)
  case (Suc L)
  let ?u = "last_tall H L k"
  have walk: "sl_walk go h L (q ! j) (of_nat j) = Some (Inr (q ! ?u, of_nat ?u))"
    using Suc.prems by (intro sl_walk_ok [OF rep(1,2) go k]) auto
  have "L < H ! 0" using Suc.prems(1) heights_okD [OF rep(3)] by simp
  then have "L < H ! ?u" by (rule last_tall_tall)
  then have "sl_descend go h L (q ! ?u) (of_nat ?u) = Some (Inr (found q H k L, if L = 0 then q ! ?u else q ! k))"
    using Suc.prems(1) last_tall_le [of H L k] by (intro Suc.IH) auto
  moreover have "last_tall H 0 k = k"
    using heights_okD(4) [OF rep(3)] k rep(2) by (intro last_tall_dense) (force simp: Suc_le_eq)
  ultimately show ?case using walk by (simp add: found_def)
qed (simp add: found_def)

text \<open>A whole search from the header.\<close>

lemma sl_search_ok:
  assumes "sl_rep sl q H xs" "k \<le> length xs"
    and "\<And>m nd. 0 < m \<Longrightarrow> m \<le> length xs \<Longrightarrow> sl_heap sl (q ! m) = Some nd \<Longrightarrow> go nd (of_nat m) \<longleftrightarrow> m \<le> k"
  shows "sl_descend go (sl_heap sl) (sl_level sl) (sl_header sl) 0 = Some (Inr (found q H k (sl_level sl), q ! k))"
proof -
  note r = sl_repD [OF assms(1)]
  have "sl_descend go (sl_heap sl) (sl_level sl) (q ! 0) (of_nat 0) =
      Some (Inr (found q H k (sl_level sl), if sl_level sl = 0 then q ! 0 else q ! k))"
    by (rule sl_descend_ok [OF r(6) _ r(5)]) (use r(1,2) assms(2,3) heights_okD [OF r(5)] in auto)
  then show ?thesis using r(4) heights_okD(2) [OF r(5)] by simp
qed

end
