(* ===== verification/SkiplistUpdate.thy ===== *)
theory SkiplistUpdate
  imports SkiplistRep
begin

text \<open>
  Insertion into and deletion from the skip list keep its representation: the loops over the levels are
  described as one simultaneous change of level cells (\<open>relev\<close>), and the new pointers and spans are
  compared with those of the longer or shorter list.
\<close>

section \<open>Changing level cells\<close>

definition relev :: "(nat \<Rightarrow> nat \<Rightarrow> sl_cell \<Rightarrow> sl_cell) \<Rightarrow> ('s, 'a) sl_heap \<Rightarrow> ('s, 'a) sl_heap" where
  "relev g h = (\<lambda>p. map_option (\<lambda>nd. nd\<lparr>n_lev := map (\<lambda>i. g p i (n_lev nd ! i)) [0..<length (n_lev nd)]\<rparr>) (h p))"

lemma dom_relev [simp]: "dom (relev g h) = dom h"
  by (auto simp: relev_def)

lemma relev_id: "relev (\<lambda>p i c. c) h = h"
  by (rule ext) (simp add: relev_def map_nth option.map_ident)

lemma relev_relev: "relev g (relev f h) = relev (\<lambda>p i c. g p i (f p i c)) h"
proof (rule ext)
  show "relev g (relev f h) r = relev (\<lambda>p i c. g p i (f p i c)) h r" for r
    by (cases "h r") (simp_all add: relev_def cong: map_cong)
qed

lemma relev_cong:
  assumes "\<And>p i c. lev_at h p i = Inr c \<Longrightarrow> g p i c = g' p i c"
  shows "relev g h = relev g' h"
proof (rule ext)
  show "relev g h r = relev g' h r" for r
    using assms [of r] by (cases "h r") (simp_all add: relev_def lev_at_def cong: map_cong)
qed

lemma lev_at_relev: "lev_at (relev g h) p i = map_sum id (g p i) (lev_at h p i)"
  by (simp add: lev_at_def relev_def split: option.split)

lemma set_lev_relev:
  assumes "lev_at h p i = Inr c"
  shows "set_lev h p i c' = Inr (relev (\<lambda>r j d. if j = i \<and> r = p then c' else d) h)"
proof -
  obtain nd where nd: "h p = Some nd" "i < length (n_lev nd)"
    using assms by (auto simp: lev_at_def split: option.splits if_splits)
  have "(n_lev nd)[i := c'] = map (\<lambda>j. if j = i \<and> p = p then c' else n_lev nd ! j) [0..<length (n_lev nd)]"
    by (rule nth_equalityI) (simp_all add: nth_list_update)
  then have "h(p \<mapsto> nd\<lparr>n_lev := (n_lev nd)[i := c']\<rparr>) = relev (\<lambda>r j d. if j = i \<and> r = p then c' else d) h"
    using nd(1) by (intro ext) (simp add: relev_def map_nth option.map_ident)
  then show ?thesis using nd by (simp add: set_lev_def)
qed

lemma set_span_relev:
  assumes "lev_at h p i = Inr c"
  shows "set_span h p i f = Inr (relev (\<lambda>r j d. if j = i then (if r = p then (fst d, f (snd d)) else d) else d) h)"
proof -
  have "relev (\<lambda>r j d. if j = i \<and> r = p then (fst c, f (snd c)) else d) h
      = relev (\<lambda>r j d. if j = i then (if r = p then (fst d, f (snd d)) else d) else d) h"
    using assms by (intro relev_cong) auto
  then show ?thesis using assms set_lev_relev [OF assms] by (simp add: set_span_def)
qed

text \<open>
  A loop over distinct levels whose body changes cells of its own level only, depending on cells of that
  level only, changes all of them at once.
\<close>

lemma for_each_relev:
  fixes h :: "('a, 'b) sl_heap"
  assumes "distinct is"
    and "\<And>i h'. i \<in> set is \<Longrightarrow> (\<And>p. lev_at h' p i = lev_at h p i) \<Longrightarrow>
           body i h' = Inr (relev (\<lambda>r j c. if j = i then g i r c else c) h')"
  shows "for_each body is h = Inr (relev (\<lambda>r j c. if j \<in> set is then g j r c else c) h)"
  using assms
proof (induction "is" arbitrary: h)
  case Nil
  then show ?case by (simp add: relev_id)
next
  case (Cons i "is")
  let ?h1 = "relev (\<lambda>r j c. if j = i then g i r c else c) h"
  have "for_each body is ?h1 = Inr (relev (\<lambda>r j c. if j \<in> set is then g j r c else c) ?h1)"
  proof (rule Cons.IH)
    show "distinct is" using Cons.prems(1) by simp
    fix k and h' :: "('a, 'b) sl_heap" assume k: "k \<in> set is" and eq: "\<And>p. lev_at h' p k = lev_at ?h1 p k"
    then have "k \<noteq> i" using Cons.prems(1) by auto
    then have "lev_at h' p k = lev_at h p k" for p
      using eq [of p] by (simp add: lev_at_relev sum.map_id0 flip: id_def)
    then show "body k h' = Inr (relev (\<lambda>r j c. if j = k then g k r c else c) h')" using Cons.prems(2) k by simp
  qed
  moreover have "(\<lambda>r j c. if j \<in> set is then g j r (if j = i then g i r c else c) else if j = i then g i r c else c)
      = (\<lambda>r j c. if j \<in> set (i # is) then g j r c else c)"
    using Cons.prems(1) by (intro ext) auto
  ultimately show ?case using Cons.prems(2) [of i h] by (simp add: relev_relev)
qed

section \<open>Raising the level\<close>

lemma heap_ok_relev:
  assumes "heap_ok h q H lev xs"
    and "\<And>k i c. k < length q \<Longrightarrow> i < H ! k \<Longrightarrow> fst (g (q ! k) i c) = fst c"
    and "\<And>k i s. k < length q \<Longrightarrow> i < H ! k \<Longrightarrow> i < lev' \<Longrightarrow> (i < lev \<longrightarrow> s = of_nat (gap H i k)) \<Longrightarrow>
           snd (g (q ! k) i (map_option (\<lambda>m. q ! m) (nxt H i k), s)) = of_nat (gap H i k)"
  shows "heap_ok (relev g h) q H lev' xs"
  unfolding heap_ok_def
proof (intro conjI allI impI)
  show "dom (relev g h) = set q" using assms(1) by (simp add: heap_ok_def)
  fix k assume k: "k < length q"
  obtain nd where nd: "h (q ! k) = Some nd" "node_ok q H lev xs k nd" using heap_okE [OF assms(1) k] .
  have cell: "n_lev nd ! i = (map_option (\<lambda>m. q ! m) (nxt H i k), snd (n_lev nd ! i))" if "i < H ! k" for i
    using nd(2) that by (simp add: node_ok_def prod_eq_iff)
  have "snd (g (q ! k) i (n_lev nd ! i)) = of_nat (gap H i k)" if i: "i < H ! k" "i < lev'" for i
  proof -
    have "i < lev \<longrightarrow> snd (n_lev nd ! i) = of_nat (gap H i k)" using nd(2) i by (simp add: node_ok_def)
    from assms(3) [OF k i this] show ?thesis by (simp add: cell [OF i(1), symmetric])
  qed
  then have "node_ok q H lev' xs k (nd\<lparr>n_lev := map (\<lambda>i. g (q ! k) i (n_lev nd ! i)) [0..<length (n_lev nd)]\<rparr>)"
    using nd(2) assms(2) [OF k] by (simp add: node_ok_def)
  then show "\<exists>nd. relev g h (q ! k) = Some nd \<and> node_ok q H lev' xs k nd" using nd(1) by (simp add: relev_def)
qed

lemma raise_level_ok:
  assumes rep: "sl_rep sl q H xs" and lev: "new_level \<le> SKIPLIST_MAXLEVEL"
  shows "\<exists>h1. for_each (\<lambda>i h. set_span h (sl_header sl) i (\<lambda>_. sl_length sl)) [sl_level sl..<new_level] (sl_heap sl) = Inr h1
      \<and> sl_rep (sl\<lparr>sl_heap := h1, sl_level := max (sl_level sl) new_level\<rparr>) q H xs"
proof -
  note r = sl_repD [OF rep]
  note hd = heights_okD [OF r(5)]
  let ?g = "\<lambda>i r c. if r = sl_header sl then (fst c, sl_length sl) else c"
  let ?G = "\<lambda>r j c. if j \<in> set [sl_level sl..<new_level] then ?g j r c else c"
  have loop: "for_each (\<lambda>i h. set_span h (sl_header sl) i (\<lambda>_. sl_length sl)) [sl_level sl..<new_level] (sl_heap sl)
      = Inr (relev ?G (sl_heap sl))"
  proof (rule for_each_relev)
    fix i h' assume "i \<in> set [sl_level sl..<new_level]" and eq: "\<And>p. lev_at h' p i = lev_at (sl_heap sl) p i"
    then have "i < H ! 0" using lev hd(1) by simp
    then obtain c where "lev_at h' (sl_header sl) i = Inr c"
      using lev_at_ok [OF r(6), of 0 i] r(1,4) eq by auto
    from set_span_relev [OF this] show "set_span h' (sl_header sl) i (\<lambda>_. sl_length sl)
        = Inr (relev (\<lambda>r j c. if j = i then ?g i r c else c) h')" .
  qed simp
  have "heap_ok (relev ?G (sl_heap sl)) q H (max (sl_level sl) new_level) xs"
  proof (rule heap_ok_relev [OF r(6)])
    fix k i and s :: u64 assume k: "k < length q" and i: "i < H ! k" "i < max (sl_level sl) new_level"
      and s: "i < sl_level sl \<longrightarrow> s = of_nat (gap H i k)"
    show "snd (?G (q ! k) i (map_option (\<lambda>m. q ! m) (nxt H i k), s)) = of_nat (gap H i k)"
    proof (cases "i < sl_level sl")
      case False
      then have "k = 0" using hd(5) [of k] i(1) k r(1,2) by (cases "k = 0") auto
      moreover have "nxt H i k = None" using nxt_high [OF r(5)] False by simp
      moreover have "i < new_level" using False i(2) by simp
      ultimately show ?thesis using False i r(2,4,8) by (simp add: gap_None)
    qed (use s in simp)
  qed auto
  moreover have "heights_ok H (max (sl_level sl) new_level)"
    using r(5) lev by (auto simp: heights_ok_def)
  ultimately show ?thesis using loop rep by (simp add: sl_rep_def)
qed

lemma found_raise:
  assumes "heights_ok H lev" "k < length H" "q ! 0 = hdr"
  shows "found q H k lev @ replicate (new_level - lev) (hdr, 0) = found q H k (max lev new_level)"
proof -
  have "last_tall H i k = 0" if "lev \<le> i" for i
  proof (rule last_tall_low)
    fix m assume "0 < m" "m \<le> k"
    then have "H ! m \<le> lev" using heights_okD(5) [OF assms(1), of m] assms(2) by simp
    then show "\<not> i < H ! m" using that by simp
  qed
  then have "map (\<lambda>i. (q ! last_tall H i k, of_nat (last_tall H i k) :: u64)) [lev..<max lev new_level]
      = replicate (new_level - lev) (hdr, 0)"
    using assms(3) by (intro nth_equalityI) (auto split: split_max)
  moreover have "[0..<max lev new_level] = [0..<lev] @ [lev..<max lev new_level]"
    using upt_add_eq_append [of 0 lev "max lev new_level - lev"] by simp
  ultimately show ?thesis by (simp add: found_def)
qed

section \<open>Insertion\<close>

text \<open>The cells after the two loops of \<open>insert\<close>, for a node \<open>x\<close> with \<open>new_level\<close> levels behind index \<open>k\<close>.\<close>

definition linked :: "nat list \<Rightarrow> nat list \<Rightarrow> nat \<Rightarrow> nat \<Rightarrow> nat \<Rightarrow> nat \<Rightarrow> nat \<Rightarrow> sl_cell \<Rightarrow> sl_cell" where
  "linked q H k x new_level i r c =
     (let u = last_tall H i k in
      if r = x then (map_option (\<lambda>m. q ! m) (nxt H i u), of_nat (gap H i u) - (of_nat k - of_nat u))
      else if r = q ! u then (Some x, (of_nat k - of_nat u) + 1)
      else c)"

definition bumped :: "nat list \<Rightarrow> nat list \<Rightarrow> nat \<Rightarrow> nat \<Rightarrow> nat \<Rightarrow> sl_cell \<Rightarrow> sl_cell" where
  "bumped q H k i r c = (if r = q ! last_tall H i k then (fst c, snd c + 1) else c)"

lemma last_tall_less: "k < n \<Longrightarrow> last_tall H i k < n"
  using last_tall_le [of H i k] by simp

lemma found_nth: "i < lev \<Longrightarrow> found q H k lev ! i = (q ! last_tall H i k, of_nat (last_tall H i k))"
  by (simp add: found_def)

lemma link_level_ok:
  assumes heap: "heap_ok h q H lev xs" "length q = length H" "heights_ok H lev"
    and k: "k < length q" and x: "x \<notin> set q" and i: "i < new_level" "new_level \<le> lev"
    and h': "\<And>p. lev_at h' p i = lev_at (h(x \<mapsto> create_node junk new_level score obj)) p i"
  shows "link_level (found q H k lev) x i h' =
         Inr (relev (\<lambda>r j c. if j = i then linked q H k x new_level i r c else c) h')"
proof -
  let ?u = "last_tall H i k"
  have u: "?u < length q" using last_tall_less [OF k] .
  have "i < H ! 0" using heights_okD [OF heap(3)] i by simp
  then have tall: "i < H ! ?u" by (rule last_tall_tall)
  have ux: "q ! ?u \<noteq> x" using x u by (metis nth_mem)
  have "lev_at h (q ! ?u) i = Inr (map_option (\<lambda>m. q ! m) (nxt H i ?u), of_nat (gap H i ?u))"
    using lev_at_span [OF heap(1) u tall] i by simp
  then have lu: "lev_at h' (q ! ?u) i = Inr (map_option (\<lambda>m. q ! m) (nxt H i ?u), of_nat (gap H i ?u))"
    using ux by (simp add: h') (simp add: lev_at_def)
  have lx: "lev_at h' x i = Inr junk" using i by (simp add: h') (simp add: lev_at_def create_node_def)
  have "0 < lev" "last_tall H 0 k = k"
    using heights_okD(2,4) [OF heap(3)] k heap(2) by (auto intro!: last_tall_dense simp: Suc_le_eq)
  then have us: "found q H k lev ! i = (q ! ?u, of_nat ?u)" "snd (found q H k lev ! 0) = of_nat k"
    using i by (simp_all add: found_nth)
  let ?cx = "(map_option (\<lambda>m. q ! m) (nxt H i ?u), of_nat (gap H i ?u) - (of_nat k - of_nat ?u)) :: sl_cell"
  let ?h1 = "relev (\<lambda>r j d. if j = i \<and> r = x then ?cx else d) h'"
  have "link_level (found q H k lev) x i h' = set_lev ?h1 (q ! ?u) i (Some x, of_nat k - of_nat ?u + 1)"
    using us lu set_lev_relev [OF lx, of ?cx] by (simp add: link_level_def Let_def)
  also have "\<dots> = Inr (relev (\<lambda>r j d. if j = i \<and> r = q ! ?u then (Some x, of_nat k - of_nat ?u + 1) else d) ?h1)"
    by (rule set_lev_relev) (simp add: lev_at_relev lu)
  also have "relev (\<lambda>r j d. if j = i \<and> r = q ! ?u then (Some x, of_nat k - of_nat ?u + 1) else d) ?h1
      = relev (\<lambda>r j c. if j = i then linked q H k x new_level i r c else c) h'"
    unfolding relev_relev by (rule relev_cong) (use ux in \<open>auto simp: linked_def Let_def\<close>)
  finally show ?thesis .
qed

definition inserted :: "nat list \<Rightarrow> nat list \<Rightarrow> nat \<Rightarrow> nat \<Rightarrow> nat \<Rightarrow> nat \<Rightarrow> nat \<Rightarrow> nat \<Rightarrow> sl_cell \<Rightarrow> sl_cell" where
  "inserted q H lev k x new_level r i c =
     (if i < new_level then linked q H k x new_level i r c
      else if i < lev then bumped q H k i r c else c)"

lemma insert_loops_ok:
  assumes heap: "heap_ok h q H lev xs" "length q = length H" "heights_ok H lev"
    and k: "k < length q" and x: "x \<notin> set q" and nl: "new_level \<le> lev"
  shows "\<exists>h2. for_each (link_level (found q H k lev) x) [0..<new_level] (h(x \<mapsto> create_node junk new_level score obj)) = Inr h2
       \<and> for_each (\<lambda>i h. set_span h (fst (found q H k lev ! i)) i (\<lambda>s. s + 1)) [new_level..<lev] h2
         = Inr (relev (inserted q H lev k x new_level) (h(x \<mapsto> create_node junk new_level score obj)))"
proof -
  let ?h = "h(x \<mapsto> create_node junk new_level score obj)"
  let ?h2 = "relev (\<lambda>r j c. if j \<in> set [0..<new_level] then linked q H k x new_level j r c else c) ?h"
  have 1: "for_each (link_level (found q H k lev) x) [0..<new_level] ?h = Inr ?h2"
  proof (rule for_each_relev)
    fix i h' assume i: "i \<in> set [0..<new_level]" and eq: "\<And>p. lev_at h' p i = lev_at ?h p i"
    from i have "i < new_level" by simp
    from link_level_ok [OF heap k x this nl eq]
    show "link_level (found q H k lev) x i h' = Inr (relev (\<lambda>r j c. if j = i then linked q H k x new_level i r c else c) h')" .
  qed simp
  have 2: "for_each (\<lambda>i h. set_span h (fst (found q H k lev ! i)) i (\<lambda>s. s + 1)) [new_level..<lev] ?h2
      = Inr (relev (\<lambda>r j c. if j \<in> set [new_level..<lev] then bumped q H k j r c else c) ?h2)"
  proof (rule for_each_relev)
    fix i h' assume i: "i \<in> set [new_level..<lev]" and eq: "\<And>p. lev_at h' p i = lev_at ?h2 p i"
    let ?u = "last_tall H i k"
    have u: "?u < length q" using last_tall_less [OF k] .
    have "i < H ! 0" using heights_okD [OF heap(3)] i by simp
    then have "i < H ! ?u" by (rule last_tall_tall)
    moreover have "q ! ?u \<noteq> x" using x u by (metis nth_mem)
    ultimately obtain c where "lev_at h' (q ! ?u) i = Inr c"
      using lev_at_ok [OF heap(1) u, of i] eq i by (auto simp: lev_at_relev) (simp add: lev_at_def)
    from set_span_relev [OF this, of "\<lambda>s. s + 1"]
    show "set_span h' (fst (found q H k lev ! i)) i (\<lambda>s. s + 1)
        = Inr (relev (\<lambda>r j c. if j = i then bumped q H k i r c else c) h')"
      using i unfolding bumped_def by (simp add: found_nth)
  qed simp
  have "relev (\<lambda>r j c. if j \<in> set [new_level..<lev] then bumped q H k j r c else c) ?h2
      = relev (inserted q H lev k x new_level) ?h"
    unfolding relev_relev by (rule relev_cong) (auto simp: inserted_def)
  then show ?thesis using 1 2 by simp
qed

text \<open>The cells of the old nodes lead to the right places of the longer list.\<close>

lemma inserted_cell_old:
  assumes H: "heights_ok H lev" "length q = length H" "distinct q" and k: "k < length q" and x: "x \<notin> set q"
    and nl: "new_level \<le> lev" and j: "j < length q" "i < H ! j" and s: "i < lev \<longrightarrow> s = of_nat (gap H i j)"
    and m: "m = (if j \<le> k then j else Suc j)"
  shows "fst (inserted q H lev k x new_level (q ! j) i (map_option (\<lambda>m. q ! m) (nxt H i j), s))
           = map_option (\<lambda>m. ins (Suc k) x q ! m) (nxt (ins (Suc k) new_level H) i m)"
    and "i < lev \<longrightarrow> snd (inserted q H lev k x new_level (q ! j) i (map_option (\<lambda>m. q ! m) (nxt H i j), s))
           = of_nat (gap (ins (Suc k) new_level H) i m)"
proof -
  let ?H = "ins (Suc k) new_level H" and ?q = "ins (Suc k) x q"
  let ?c = "inserted q H lev k x new_level (q ! j) i (map_option (\<lambda>m. q ! m) (nxt H i j), s)"
  have jx: "q ! j \<noteq> x" using x j(1) by (metis nth_mem)
  have same: "q ! j = q ! last_tall H i k \<longleftrightarrow> j = last_tall H i k"
    using nth_eq_iff_index_eq [OF H(3) j(1) last_tall_less [OF k]] .
  have p: "Suc k \<le> length H" "Suc k \<le> length q" using k H(2) by simp_all
  have "fst ?c = map_option (\<lambda>m. ?q ! m) (nxt ?H i m) \<and> (i < lev \<longrightarrow> snd ?c = of_nat (gap ?H i m))"
  proof (cases "j \<le> k \<and> (\<forall>b. nxt H i j = Some b \<longrightarrow> k < b)")
    case True
    then have jk: "j \<le> k" and nb: "\<And>b. nxt H i j = Some b \<Longrightarrow> k < b" by auto
    have no: "\<not> i < H ! b" if "j < b" "b \<le> k" for b
    proof (cases "nxt H i j")
      case None
      then show ?thesis using that p by (auto simp: nxt_None_iff)
    next
      case (Some c)
      then show ?thesis using that nxt_SomeD(4) [OF Some, of b] nb [OF Some] by simp
    qed
    then have u: "last_tall H i k = j" using jk j(2) by (intro last_tall_eqI)
    have nx: "nxt ?H i j = (if i < new_level then Some (Suc k) else map_option Suc (nxt H i j))"
      using nxt_ins_before [OF p(1), of j new_level i] jk nb by (auto split: option.splits)
    show ?thesis
    proof (cases "i < new_level")
      case True
      then have "?c = (Some x, of_nat k - of_nat j + 1)" using jx u by (simp add: inserted_def linked_def)
      then show ?thesis using nx True jk m p by (simp add: gap_Some nth_ins of_nat_diff Suc_diff_le)
    next
      case False
      have q: "map_option (\<lambda>m. ?q ! m) (map_option Suc (nxt H i j)) = map_option (\<lambda>m. q ! m) (nxt H i j)"
        using nb p by (cases "nxt H i j") (auto simp: nth_ins)
      have "gap ?H i j = Suc (gap H i j)"
        using nx False jk k H(2) by (auto simp: gap_def split: option.split dest: nxt_SomeD(1))
      then show ?thesis using nx False q jk m s jx u by (simp add: inserted_def bumped_def)
    qed
  next
    case False
    show ?thesis
    proof (cases "j \<le> k")
      case le: True
      then obtain b where b: "nxt H i j = Some b" "b \<le> k" using False by auto
      then have "j \<noteq> last_tall H i k" using last_tall_ge [of b k i H] nxt_SomeD [OF b(1)] by auto
      then have c: "?c = (map_option (\<lambda>m. q ! m) (nxt H i j), s)"
        using jx same by (simp add: inserted_def linked_def bumped_def)
      have "nxt ?H i j = Some b" using nxt_ins_before [OF p(1), of j] le b by simp
      then show ?thesis unfolding c using b le m s p by (simp add: nth_ins gap_Some)
    next
      case gt: False
      then have "j \<noteq> last_tall H i k" using last_tall_le [of H i k] by auto
      then have c: "?c = (map_option (\<lambda>m. q ! m) (nxt H i j), s)"
        using jx same by (simp add: inserted_def linked_def bumped_def)
      have "nxt ?H i m = map_option Suc (nxt H i j)" "gap ?H i m = gap H i j"
        using nxt_ins_after [OF p(1), of j] gap_ins_after [OF p(1), of j] gt m j(1) H(2) by simp_all
      moreover have "?q ! Suc b = q ! b" if "nxt H i j = Some b" for b
        using nxt_SomeD(1) [OF that] gt p by (simp add: nth_ins)
      ultimately show ?thesis using c s by (cases "nxt H i j") auto
    qed
  qed
  then show "fst ?c = map_option (\<lambda>m. ?q ! m) (nxt ?H i m)" "i < lev \<longrightarrow> snd ?c = of_nat (gap ?H i m)" by blast+
qed

text \<open>The cells of the new node.\<close>

lemma inserted_cell_new:
  assumes "length q = length H" "k < length q" "i < new_level" "new_level \<le> lev"
  shows "inserted q H lev k x new_level x i c =
     (map_option (\<lambda>m. ins (Suc k) x q ! m) (nxt (ins (Suc k) new_level H) i (Suc k)),
      of_nat (gap (ins (Suc k) new_level H) i (Suc k)))"
proof -
  let ?u = "last_tall H i k"
  have p: "Suc k \<le> length H" "k < length H" using assms(1,2) by simp_all
  have "nxt (ins (Suc k) new_level H) i (Suc k) = map_option Suc (nxt H i k)"
    using nxt_ins_after [OF p(1), of k] by simp
  moreover have "gap (ins (Suc k) new_level H) i (Suc k) = gap H i k"
    using gap_ins_after [OF p(1), of k] p(2) by simp
  moreover have "of_nat (gap H i ?u) - (of_nat k - of_nat ?u) = (of_nat (gap H i k) :: u64)"
    using gap_last_tall [OF p(2), of i] last_tall_le [of H i k] by (simp add: of_nat_diff)
  moreover have "ins (Suc k) x q ! Suc b = q ! b" if "nxt H i k = Some b" for b
    using nxt_SomeD(1) [OF that] assms(1) p by (simp add: nth_ins)
  ultimately show ?thesis using assms(3) nxt_last_tall [of H i k]
    by (cases "nxt H i k") (simp_all add: inserted_def linked_def Let_def)
qed

text \<open>The new heap before the backward pointers are set, and after.\<close>

definition node_links :: "nat list \<Rightarrow> nat list \<Rightarrow> nat \<Rightarrow> nat \<Rightarrow> ('s, 'a) sl_node \<Rightarrow> bool" where
  "node_links q H lev k nd \<longleftrightarrow>
     length (n_lev nd) = H ! k
   \<and> (\<forall>i<H ! k. fst (n_lev nd ! i) = map_option (\<lambda>m. q ! m) (nxt H i k))
   \<and> (\<forall>i<H ! k. i < lev \<longrightarrow> snd (n_lev nd ! i) = of_nat (gap H i k))"

lemma node_ok_links:
  "node_ok q H lev xs k nd \<longleftrightarrow> node_links q H lev k nd
     \<and> (0 < k \<longrightarrow> (n_score nd, n_obj nd) = xs ! (k - 1) \<and> n_back nd = (if k = 1 then None else Some (q ! (k - 1))))"
  by (auto simp: node_ok_def node_links_def)

definition relev_node :: "(nat \<Rightarrow> nat \<Rightarrow> sl_cell \<Rightarrow> sl_cell) \<Rightarrow> nat \<Rightarrow> ('s, 'a) sl_node \<Rightarrow> ('s, 'a) sl_node" where
  "relev_node g p nd = nd\<lparr>n_lev := map (\<lambda>i. g p i (n_lev nd ! i)) [0..<length (n_lev nd)]\<rparr>"

lemma relev_Some: "h p = Some nd \<Longrightarrow> relev g h p = Some (relev_node g p nd)"
  by (simp add: relev_def relev_node_def)

lemma relev_node_lev:
  "length (n_lev (relev_node g p nd)) = length (n_lev nd)"
  "i < length (n_lev nd) \<Longrightarrow> n_lev (relev_node g p nd) ! i = g p i (n_lev nd ! i)"
  by (simp_all add: relev_node_def)

lemma relev_node_data [simp]:
  "n_score (relev_node g p nd) = n_score nd" "n_obj (relev_node g p nd) = n_obj nd" "n_back (relev_node g p nd) = n_back nd"
  by (simp_all add: relev_node_def)

lemma inserted_links_old:
  assumes H: "heights_ok H lev" "length q = length H" "distinct q" and k: "k < length q" and x: "x \<notin> set q"
    and nl: "new_level \<le> lev" and j: "j < length q" and nd: "node_links q H lev j nd"
    and m: "m = (if j \<le> k then j else Suc j)"
  shows "node_links (ins (Suc k) x q) (ins (Suc k) new_level H) lev m (relev_node (inserted q H lev k x new_level) (q ! j) nd)"
proof -
  have Hm: "ins (Suc k) new_level H ! m = H ! j" using m k H(2) by (simp add: nth_ins)
  have cell: "n_lev nd ! i = (map_option (\<lambda>m. q ! m) (nxt H i j), snd (n_lev nd ! i))"
      "i < lev \<longrightarrow> snd (n_lev nd ! i) = of_nat (gap H i j)" if "i < H ! j" for i
    using nd that by (simp_all add: node_links_def prod_eq_iff)
  have "fst (inserted q H lev k x new_level (q ! j) i (n_lev nd ! i))
           = map_option (\<lambda>m. ins (Suc k) x q ! m) (nxt (ins (Suc k) new_level H) i m)
      \<and> (i < lev \<longrightarrow> snd (inserted q H lev k x new_level (q ! j) i (n_lev nd ! i)) = of_nat (gap (ins (Suc k) new_level H) i m))"
    if i: "i < H ! j" for i
    using inserted_cell_old [OF H k x nl j i cell(2) [OF i] m] by (simp only: cell(1) [OF i, symmetric])
  moreover have "length (n_lev nd) = H ! j" using nd by (simp add: node_links_def)
  ultimately show ?thesis by (simp add: node_links_def relev_node_def Hm)
qed

lemma inserted_links_new:
  assumes "length q = length H" "k < length q" "new_level \<le> lev"
  shows "node_links (ins (Suc k) x q) (ins (Suc k) new_level H) lev (Suc k)
           (relev_node (inserted q H lev k x new_level) x (create_node junk new_level score obj))"
  using inserted_cell_new [OF assms(1,2) _ assms(3)] assms(1,2)
  by (simp add: node_links_def relev_node_def create_node_def nth_ins)

text \<open>Setting a backward pointer.\<close>

lemma set_back_Some: "h p = Some nd \<Longrightarrow> set_back h p b = Inr (h(p \<mapsto> nd\<lparr>n_back := b\<rparr>))"
  by (simp add: set_back_def)

lemma node_links_back [simp]: "node_links q H lev k (nd\<lparr>n_back := b\<rparr>) = node_links q H lev k nd"
  by (simp add: node_links_def)

text \<open>
  The node at index \<open>m\<close> of the longer list: the new node at \<open>Suc k\<close>, an old one elsewhere.
\<close>

lemma ins_index_old:
  assumes "m < Suc n" "m \<noteq> Suc k"
  obtains j where "j < n" "m = (if j \<le> k then j else Suc j)" | "n \<le> k" "m = n"
proof (cases "m \<le> k")
  case True
  then show thesis using that(1) [of m] that(2) assms by (cases "m < n") auto
next
  case False
  then show thesis using that(1) [of "m - 1"] assms by auto
qed

text \<open>The old nodes and the new one after the loops and the two changes of backward pointers.\<close>

lemma insert_old_node:
  assumes rep: "heap_ok h q H lev xs" "length q = length H" "heights_ok H lev" "distinct q"
    and k: "k < length q" and x: "x \<notin> set q" and nl: "new_level \<le> lev" and j: "j < length q"
    and h3: "h3 = relev (inserted q H lev k x new_level) (h(x \<mapsto> create_node junk new_level score obj))"
  shows "\<exists>nd. h3 (q ! j) = Some nd \<and> node_links (ins (Suc k) x q) (ins (Suc k) new_level H) lev (if j \<le> k then j else Suc j) nd
      \<and> (0 < j \<longrightarrow> (n_score nd, n_obj nd) = xs ! (j - 1) \<and> n_back nd = (if j = 1 then None else Some (q ! (j - 1))))"
proof -
  let ?g = "inserted q H lev k x new_level"
  obtain nd where nd: "h (q ! j) = Some nd" "node_ok q H lev xs j nd" using heap_okE [OF rep(1) j] .
  have "q ! j \<noteq> x" using x j by (metis nth_mem)
  then have "h3 (q ! j) = Some (relev_node ?g (q ! j) nd)" using nd(1) by (simp add: h3 relev_Some)
  moreover have "node_links (ins (Suc k) x q) (ins (Suc k) new_level H) lev (if j \<le> k then j else Suc j) (relev_node ?g (q ! j) nd)"
    using nd(2) by (intro inserted_links_old [OF rep(3,2,4) k x nl j _ refl]) (simp add: node_ok_links)
  ultimately show ?thesis using nd(2) by (simp add: node_ok_links)
qed

lemma insert_heap_ok:
  assumes rep: "heap_ok h q H lev xs" "length q = length H" "heights_ok H lev" "distinct q" "length q = Suc (length xs)"
    and k: "k < length q" and x: "x \<notin> set q" and nl: "new_level \<le> lev" "1 \<le> new_level"
    and h3: "h3 = relev (inserted q H lev k x new_level) (h(x \<mapsto> create_node junk new_level score obj))"
  shows "\<exists>h4 h5. set_back h3 x (if q ! k = q ! 0 then None else Some (q ! k)) = Inr h4
     \<and> (if Suc k < length q then set_back h4 (q ! Suc k) (Some x) else Inr h4) = Inr h5
     \<and> (\<exists>s. lev_at h4 x 0 = Inr (if Suc k < length q then Some (q ! Suc k) else None, s))
     \<and> heap_ok h5 (ins (Suc k) x q) (ins (Suc k) new_level H) lev (ins k (score, obj) xs)"
proof -
  let ?q = "ins (Suc k) x q" and ?H = "ins (Suc k) new_level H" and ?xs = "ins k (score, obj) xs"
  let ?nx = "relev_node (inserted q H lev k x new_level) x (create_node junk new_level score obj)"
  let ?nx' = "?nx\<lparr>n_back := if q ! k = q ! 0 then None else Some (q ! k)\<rparr>"
  note old = insert_old_node [OF rep(1-4) k x nl(1) _ h3]
  have p: "Suc k \<le> length q" "Suc k \<le> length H" "k \<le> length xs" "0 < length q" using k rep(2,5) by auto
  have q0: "q ! k = q ! 0 \<longleftrightarrow> k = 0" using nth_eq_iff_index_eq [OF rep(4) k p(4)] .
  have qx: "q ! j \<noteq> x" if "j < length q" for j using x that by (metis nth_mem)
  have hx: "h3 x = Some ?nx" by (simp add: h3 relev_Some)
  define h4 where "h4 = h3(x \<mapsto> ?nx')"
  have 4: "set_back h3 x (if q ! k = q ! 0 then None else Some (q ! k)) = Inr h4"
    using hx by (simp add: set_back_Some h4_def)
  obtain h5 where 5: "(if Suc k < length q then set_back h4 (q ! Suc k) (Some x) else Inr h4) = Inr h5"
    "h5 x = Some ?nx'" "dom h5 = dom h4"
    "\<And>j. j < length q \<Longrightarrow> h5 (q ! j) = (if j = Suc k then map_option (\<lambda>nd. nd\<lparr>n_back := Some x\<rparr>) (h3 (q ! j)) else h3 (q ! j))"
  proof (cases "Suc k < length q")
    case True
    obtain ny where ny: "h3 (q ! Suc k) = Some ny" using old [OF True] by blast
    show thesis
      by (rule that [of "h4(q ! Suc k \<mapsto> ny\<lparr>n_back := Some x\<rparr>)"])
        (use True ny qx in \<open>auto simp: h4_def set_back_Some nth_eq_iff_index_eq [OF rep(4)]\<close>)
  next
    case False
    then show thesis using that [of h4] qx by (auto simp: h4_def)
  qed
  have "dom h5 = set ?q" using rep(1) 5(3) by (auto simp: h4_def h3 set_ins heap_ok_def)
  moreover have "\<exists>nd. h5 (?q ! m) = Some nd \<and> node_ok ?q ?H lev ?xs m nd" if m: "m < Suc (length q)" for m
  proof (cases "m = Suc k")
    case True
    then show ?thesis
      using 5(2) p inserted_links_new [OF rep(2) k nl(1), of x junk score obj] q0
      by (simp add: nth_ins node_ok_links) (simp add: relev_node_def create_node_def)
  next
    case False
    then obtain j where j: "j < length q" "m = (if j \<le> k then j else Suc j)"
      using ins_index_old [OF m False] k by (metis not_le)
    then show ?thesis using old [OF j(1)] 5(4) [OF j(1)] p by (auto simp: nth_ins node_ok_links)
  qed
  moreover have "\<exists>s. lev_at h4 x 0 = Inr (if Suc k < length q then Some (q ! Suc k) else None, s)"
  proof -
    have nx: "nxt ?H 0 (Suc k) = (if Suc k < length q then Some (Suc (Suc k)) else None)"
      using nxt_ins_after [OF p(2), of k] nxt_zero [OF rep(3), of k] rep(2) by simp
    have "fst (n_lev ?nx' ! 0) = map_option (\<lambda>m. ?q ! m) (nxt ?H 0 (Suc k))" "0 < length (n_lev ?nx')"
      using inserted_links_new [OF rep(2) k nl(1), of x junk score obj] nl(2) p by (simp_all add: node_links_def nth_ins)
    then show ?thesis
      using p(1) by (intro exI [of _ "snd (n_lev ?nx' ! 0)"]) (auto simp: h4_def lev_at_def nx nth_ins prod_eq_iff)
  qed
  ultimately show ?thesis using 4 5(1) by (auto simp: heap_ok_def)
qed

lemma heights_ok_ins:
  assumes "heights_ok H lev" "1 \<le> new_level" "new_level \<le> lev" "k < length H"
  shows "heights_ok (ins (Suc k) new_level H) lev"
  using assms by (auto simp: heights_ok_def nth_ins)

lemma insert_at_ok:
  assumes rep: "sl_rep sl q H xs" and k: "k \<le> length xs" and x: "x \<notin> set q"
    and nl: "1 \<le> new_level" "new_level \<le> SKIPLIST_MAXLEVEL" and size: "Suc (length xs) < 2 ^ 64"
  shows "\<exists>sl'. insert_at junk x new_level score obj (found q H k (sl_level sl)) sl = Inr (sl', x)
       \<and> sl_rep sl' (ins (Suc k) x q) (ins (Suc k) new_level H) (ins k (score, obj) xs) \<and> sl_header sl' = sl_header sl"
proof -
  define lev where "lev = max (sl_level sl) new_level"
  have lev: "(if new_level > sl_level sl then new_level else sl_level sl) = lev" "new_level \<le> lev"
    by (auto simp: lev_def)
  note r0 = sl_repD [OF rep]
  obtain h1 where 1: "for_each (\<lambda>i h. set_span h (sl_header sl) i (\<lambda>_. sl_length sl)) [sl_level sl..<new_level] (sl_heap sl) = Inr h1"
    and rep1: "sl_rep (sl\<lparr>sl_heap := h1, sl_level := lev\<rparr>) q H xs"
    using raise_level_ok [OF rep nl(2)] by (auto simp: lev_def)
  note r = sl_repD [OF rep1, simplified]
  have len: "length q = length H" "k < length q" "k < length H" using r(1,2) k by simp_all
  have us: "found q H k (sl_level sl) @ replicate (new_level - sl_level sl) (sl_header sl, 0) = found q H k lev"
    unfolding lev_def by (rule found_raise) (use r0(4,5) len in auto)
  obtain h2 h3 where 2: "for_each (link_level (found q H k lev) x) [0..<new_level] (h1(x \<mapsto> create_node junk new_level score obj)) = Inr h2"
    and 3: "for_each (\<lambda>i h. set_span h (fst (found q H k lev ! i)) i (\<lambda>s. s + 1)) [new_level..<lev] h2 = Inr h3"
    and h3: "h3 = relev (inserted q H lev k x new_level) (h1(x \<mapsto> create_node junk new_level score obj))"
    using insert_loops_ok [OF r(6) len(1) r(5) len(2) x lev(2)] by blast
  have "0 < lev" "last_tall H 0 k = k"
    using heights_okD(2,4) [OF r(5)] len by (auto intro!: last_tall_dense simp: Suc_le_eq)
  then have u0: "fst (found q H k lev ! 0) = q ! k" by (simp add: found_nth)
  obtain h4 h5 s where 4: "set_back h3 x (if q ! k = sl_header sl then None else Some (q ! k)) = Inr h4"
    and 5: "(if Suc k < length q then set_back h4 (q ! Suc k) (Some x) else Inr h4) = Inr h5"
    and fw: "lev_at h4 x 0 = Inr (if Suc k < length q then Some (q ! Suc k) else None, s)"
    and ok: "heap_ok h5 (ins (Suc k) x q) (ins (Suc k) new_level H) lev (ins k (score, obj) xs)"
    using insert_heap_ok [OF r(6) len(1) r(5,3,1) len(2) x lev(2) nl(1) h3] r(4) by auto
  let ?sl = "sl\<lparr>sl_heap := h5, sl_tail := (if k = length xs then Some x else sl_tail sl),
                sl_length := sl_length sl + 1, sl_level := lev\<rparr>"
  have "insert_at junk x new_level score obj (found q H k (sl_level sl)) sl = Inr (?sl, x)"
    unfolding insert_at_def Let_def us lev(1) 1 sum.case 2 3 u0 4 fw
    using 5 r0(1) k by (auto split: if_splits)
  moreover have "sl_rep ?sl (ins (Suc k) x q) (ins (Suc k) new_level H) (ins k (score, obj) xs)"
    using r0(1,2,3,4,7,8) len x size k ok heights_ok_ins [OF r(5) nl(1) lev(2) len(3)]
    by (auto simp: sl_rep_def distinct_ins nth_ins)
  ultimately show ?thesis by auto
qed

lemma random_level_bounds: "1 \<le> random_level draws" "random_level draws \<le> SKIPLIST_MAXLEVEL"
proof -
  have "lev \<le> random_level_from lev draws \<and> (lev \<le> SKIPLIST_MAXLEVEL \<longrightarrow> random_level_from lev draws \<le> SKIPLIST_MAXLEVEL)" for lev
  proof (induction draws arbitrary: lev)
    case (Cons below draws)
    have "lev \<le> random_level_from (Suc lev) draws" using Cons.IH [of "Suc lev"] by linarith
    moreover have "lev < SKIPLIST_MAXLEVEL \<longrightarrow> random_level_from (Suc lev) draws \<le> SKIPLIST_MAXLEVEL"
      using Cons.IH [of "Suc lev"] by (simp add: Suc_le_eq)
    ultimately show ?case by simp
  qed simp
  from this [of 1] show "1 \<le> random_level draws" "random_level draws \<le> SKIPLIST_MAXLEVEL"
    by (simp_all add: random_level_def SKIPLIST_MAXLEVEL_def)
qed

section \<open>Deletion\<close>

text \<open>
  The cells after the loop of \<open>_delete_node_internal\<close>, for the node at index \<open>Suc k\<close>. The list without
  that node is \<open>q\<close>, \<open>H\<close>; with it, it is \<open>ins (Suc k) x q\<close>, \<open>ins (Suc k) h H\<close>.
\<close>

definition unlinked :: "nat list \<Rightarrow> nat list \<Rightarrow> nat \<Rightarrow> nat \<Rightarrow> nat \<Rightarrow> nat \<Rightarrow> nat \<Rightarrow> sl_cell \<Rightarrow> sl_cell" where
  "unlinked q H k x h i r c =
     (let H' = ins (Suc k) h H; q' = ins (Suc k) x q in
      if r = q ! last_tall H i k then
        (if i < h then (map_option (\<lambda>m. q' ! m) (nxt H' i (Suc k)), snd c + (of_nat (gap H' i (Suc k)) - 1))
         else (fst c, snd c - 1))
      else c)"

lemma last_tall_ins: "k < length H \<Longrightarrow> last_tall (ins (Suc k) h H) i k = last_tall H i k"
  by (rule last_tall_cong) (simp add: nth_ins)

lemma nxt_ins_last_tall:
  assumes "k < length H"
  shows "nxt (ins (Suc k) h H) i (last_tall H i k) = (if i < h then Some (Suc k) else map_option Suc (nxt H i k))"
proof -
  have "Suc k \<le> length H" "last_tall H i k < Suc k" using assms last_tall_le [of H i k] by simp_all
  from nxt_ins_before [OF this, of h i] show ?thesis
    unfolding nxt_last_tall by (auto split: option.split dest: nxt_SomeD(1))
qed

lemma unlink_level_ok:
  assumes heap: "heap_ok hp (ins (Suc k) x q) (ins (Suc k) h H) lev xs" "length q = length H" "k < length q"
    and H: "heights_ok (ins (Suc k) h H) lev" and q: "distinct (ins (Suc k) x q)" and i: "i < lev"
    and us: "fst (us ! i) = q ! last_tall H i k"
    and h': "\<And>p. lev_at h' p i = lev_at hp p i"
  shows "unlink_level us x i h' = Inr (relev (\<lambda>r j c. if j = i then unlinked q H k x h i r c else c) h')"
proof -
  let ?q = "ins (Suc k) x q" and ?H = "ins (Suc k) h H" and ?u = "last_tall H i k"
  have p: "Suc k \<le> length q" "Suc k \<le> length H" using heap(2,3) by simp_all
  have u: "?u \<le> k" "?u < length ?q" "?q ! ?u = q ! ?u" "?H ! ?u = H ! ?u"
    using last_tall_le [of H i k] heap(3) p by (simp_all add: nth_ins)
  have "i < H ! 0" using heights_okD(1,3) [OF H] i p by (simp add: nth_ins)
  then have "i < ?H ! ?u" using last_tall_tall [of i H k] u(4) by simp
  then have lu: "lev_at h' (q ! ?u) i = Inr (map_option (\<lambda>m. ?q ! m) (nxt ?H i ?u), of_nat (gap ?H i ?u))"
    using lev_at_span [OF heap(1) u(2) _ i] u(3) by (simp add: h')
  have nx: "nxt ?H i ?u = (if i < h then Some (Suc k) else map_option Suc (nxt H i k))"
    using nxt_ins_last_tall [of k H h i] p by simp
  have xq: "?q ! m = x \<longleftrightarrow> m = Suc k" if "m < length ?q" for m
    using nth_eq_iff_index_eq [OF q that, of "Suc k"] p by (simp add: nth_ins)
  show ?thesis
  proof (cases "i < h")
    case True
    have "Suc k < length ?q" "?q ! Suc k = x" "?H ! Suc k = h" using p by (simp_all add: nth_ins)
    then have lx: "lev_at h' x i = Inr (map_option (\<lambda>m. ?q ! m) (nxt ?H i (Suc k)), of_nat (gap ?H i (Suc k)))"
      using lev_at_span [OF heap(1), of "Suc k" i] True i by (simp add: h')
    have "unlink_level us x i h' = set_lev h' (q ! ?u) i
        (map_option (\<lambda>m. ?q ! m) (nxt ?H i (Suc k)), of_nat (gap ?H i ?u) + (of_nat (gap ?H i (Suc k)) - 1))"
      using lu lx True p by (simp add: unlink_level_def Let_def us nx nth_ins)
    also have "\<dots> = Inr (relev (\<lambda>r j c. if j = i then unlinked q H k x h i r c else c) h')"
      unfolding set_lev_relev [OF lu] sum.inject
      by (rule relev_cong) (use True lu in \<open>auto simp: unlinked_def Let_def\<close>)
    finally show ?thesis .
  next
    case False
    have "?q ! Suc b \<noteq> x" if "nxt H i k = Some b" for b
      using nxt_SomeD(1,2) [OF that] xq [of "Suc b"] heap(2) by simp
    then have "fst (map_option (\<lambda>m. ?q ! m) (nxt ?H i ?u), of_nat (gap ?H i ?u) :: u64) \<noteq> Some x"
      using False nx by auto
    then have "unlink_level us x i h' = set_lev h' (q ! ?u) i (map_option (\<lambda>m. ?q ! m) (nxt ?H i ?u), of_nat (gap ?H i ?u) - 1)"
      unfolding unlink_level_def Let_def us lu sum.case by (simp only: if_False fst_conv snd_conv)
    also have "\<dots> = Inr (relev (\<lambda>r j c. if j = i then unlinked q H k x h i r c else c) h')"
      unfolding set_lev_relev [OF lu] sum.inject
      by (rule relev_cong) (use False lu in \<open>auto simp: unlinked_def Let_def\<close>)
    finally show ?thesis .
  qed
qed

text \<open>The cells of the remaining nodes lead to the right places of the shorter list.\<close>

lemma unlinked_cell:
  assumes len: "length q = length H" "k < length q" and q: "distinct q" and j: "j < length q" "i < H ! j"
    and H: "heights_ok (ins (Suc k) h H) lev"
    and m: "m = (if j \<le> k then j else Suc j)" and s: "i < lev \<longrightarrow> s = of_nat (gap (ins (Suc k) h H) i m)"
    and c: "c = (map_option (\<lambda>m. ins (Suc k) x q ! m) (nxt (ins (Suc k) h H) i m), s)"
    and d: "d = (if i < lev then unlinked q H k x h i (q ! j) c else c)"
  shows "fst d = map_option (\<lambda>m. q ! m) (nxt H i j) \<and> (i < lev \<longrightarrow> snd d = of_nat (gap H i j))"
proof -
  let ?q = "ins (Suc k) x q" and ?H = "ins (Suc k) h H" and ?u = "last_tall H i k"
  have p: "Suc k \<le> length q" "Suc k \<le> length H" "k < length H" using len by simp_all
  have same: "q ! j = q ! ?u \<longleftrightarrow> j = ?u" using nth_eq_iff_index_eq [OF q j(1) last_tall_less [OF len(2)]] .
  have up: "map_option (\<lambda>m. ?q ! m) (map_option Suc (nxt H i b)) = map_option (\<lambda>m. q ! m) (nxt H i b)" if "k \<le> b" for b
    using that p by (cases "nxt H i b") (auto simp: nth_ins dest!: nxt_SomeD(1))
  consider (after) "k < j" | (at) "j = ?u" | (passed) b where "j \<le> k" "j \<noteq> ?u" "nxt H i j = Some b" "b \<le> k"
  proof (cases "k < j \<or> j = ?u")
    case False
    then have "j < ?u" using last_tall_ge [of j k i H] j(2) by simp
    moreover have "i < H ! ?u" using last_tall_pos [of H i k] \<open>j < ?u\<close> by simp
    ultimately obtain b where "nxt H i j = Some b" "b \<le> ?u"
      using last_tall_less [OF p(3)] by (metis nxt_None_iff nxt_Some_iff not_le option.exhaust)
    then show thesis using that(3) False last_tall_le [of H i k] by force
  qed (use that in blast)
  then show ?thesis
  proof cases
    case after
    then have "d = c" using d same last_tall_le [of H i k] by (auto simp: unlinked_def Let_def)
    then show ?thesis using after m c s nxt_ins_after [OF p(2), of j h i] gap_ins_after [OF p(2), of j h i] up [of j] j(1) len(1)
      by simp
  next
    case at
    then have jk: "j \<le> k" and mj: "m = j" using last_tall_le [of H i k] m by simp_all
    have nx: "nxt ?H i j = (if i < h then Some (Suc k) else map_option Suc (nxt H i k))" "nxt H i j = nxt H i k"
      using nxt_ins_last_tall [OF p(3), of h i] nxt_last_tall [of H i k] at by simp_all
    have g: "gap H i j = gap H i k + (k - j)" using gap_last_tall [OF p(3), of i] at by simp
    have n1: "nxt ?H i (Suc k) = map_option Suc (nxt H i k)" "gap ?H i (Suc k) = gap H i k"
      using nxt_ins_after [OF p(2), of k h i] gap_ins_after [OF p(2), of k h i] p(3) by simp_all
    show ?thesis
    proof (cases "i < lev")
      case True
      show ?thesis
      proof (cases "i < h")
        case ih: True
        then have "gap ?H i j = Suc k - j" using nx by (simp add: gap_Some)
        then show ?thesis using True ih d c mj same at n1 up [of k] nx(2) s g jk
          by (simp add: unlinked_def Let_def of_nat_diff)
      next
        case False
        then have "gap ?H i j = Suc (gap H i j)"
          using nx jk p(3) by (auto simp: gap_def split: option.split dest!: nxt_SomeD(1))
        then show ?thesis using True False d c mj same at up [of k] nx s by (simp add: unlinked_def Let_def)
      qed
    next
      case False
      then have "nxt ?H i j = None" using nxt_high [OF H] by simp
      then show ?thesis using False d c mj nx by (auto split: if_splits)
    qed
  next
    case passed
    then have "d = c" using d same by (auto simp: unlinked_def Let_def)
    moreover have "nxt ?H i j = Some b" using nxt_ins_before [OF p(2), of j h i] passed by simp
    ultimately show ?thesis using passed m c s p by (simp add: gap_Some nth_ins)
  qed
qed

lemma unlink_loop_ok:
  assumes heap: "heap_ok hp (ins (Suc k) x q) (ins (Suc k) h H) lev xs" "length q = length H" "k < length q"
    and H: "heights_ok (ins (Suc k) h H) lev" and q: "distinct (ins (Suc k) x q)"
    and us: "\<And>i. i < lev \<Longrightarrow> fst (us ! i) = q ! last_tall H i k"
  shows "for_each (unlink_level us x) [0..<lev] hp = Inr (relev (\<lambda>r i c. if i < lev then unlinked q H k x h i r c else c) hp)"
proof -
  have "for_each (unlink_level us x) [0..<lev] hp
      = Inr (relev (\<lambda>r j c. if j \<in> set [0..<lev] then unlinked q H k x h j r c else c) hp)"
  proof (rule for_each_relev)
    fix i h' assume i: "i \<in> set [0..<lev]" and eq: "\<And>p. lev_at h' p i = lev_at hp p i"
    from i have "i < lev" by simp
    from unlink_level_ok [OF heap H q this us [OF this] eq]
    show "unlink_level us x i h' = Inr (relev (\<lambda>r j c. if j = i then unlinked q H k x h i r c else c) h')" .
  qed simp
  then show ?thesis by simp
qed

lemma unlinked_links:
  assumes len: "length q = length H" "k < length q" and q: "distinct q" and j: "j < length q"
    and H: "heights_ok (ins (Suc k) h H) lev" and m: "m = (if j \<le> k then j else Suc j)"
    and nd: "node_links (ins (Suc k) x q) (ins (Suc k) h H) lev m nd"
  shows "node_links q H lev j (relev_node (\<lambda>r i c. if i < lev then unlinked q H k x h i r c else c) (q ! j) nd)"
proof -
  let ?q = "ins (Suc k) x q" and ?H = "ins (Suc k) h H"
  have Hm: "?H ! m = H ! j" using m len by (simp add: nth_ins)
  have cell: "n_lev nd ! i = (map_option (\<lambda>m. ?q ! m) (nxt ?H i m), snd (n_lev nd ! i))"
      "i < lev \<longrightarrow> snd (n_lev nd ! i) = of_nat (gap ?H i m)" if "i < H ! j" for i
    using nd that by (simp_all add: node_links_def Hm prod_eq_iff)
  have d: "fst (if i < lev then unlinked q H k x h i (q ! j) (n_lev nd ! i) else n_lev nd ! i) = map_option (\<lambda>m. q ! m) (nxt H i j)"
      "i < lev \<longrightarrow> snd (if i < lev then unlinked q H k x h i (q ! j) (n_lev nd ! i) else n_lev nd ! i) = of_nat (gap H i j)"
    if "i < H ! j" for i
    using unlinked_cell [OF len q j that H m cell(2) [OF that] cell(1) [OF that] refl] by blast+
  have len': "length (n_lev nd) = H ! j" using nd Hm by (simp add: node_links_def)
  show ?thesis unfolding node_links_def
  proof (intro conjI allI impI)
    fix i assume i: "i < H ! j"
    then have "i < length (n_lev nd)" using len' by simp
    note lev = relev_node_lev(2) [OF this]
    show "fst (n_lev (relev_node (\<lambda>r i c. if i < lev then unlinked q H k x h i r c else c) (q ! j) nd) ! i) = map_option (\<lambda>m. q ! m) (nxt H i j)"
      unfolding lev by (rule d(1) [OF i])
    assume "i < lev"
    then show "snd (n_lev (relev_node (\<lambda>r i c. if i < lev then unlinked q H k x h i r c else c) (q ! j) nd) ! i) = of_nat (gap H i j)"
      unfolding lev using d(2) [OF i] by blast
  qed (simp add: relev_node_lev len')
qed

lemma heap_ok_lower:
  assumes "heap_ok h q H lev xs" "lev' \<le> lev"
  shows "heap_ok h q H lev' xs"
proof -
  have "node_ok q H lev xs k nd \<Longrightarrow> node_ok q H lev' xs k nd" for k nd
    using assms(2) by (simp add: node_ok_def)
  then show ?thesis using assms(1) unfolding heap_ok_def by blast
qed

lemma lower_level_ok:
  assumes "heap_ok h q H lev xs" "heights_ok H lev" "length q = length H" "0 < length q"
  shows "\<exists>lev'. lower_level h (q ! 0) lev = Inr lev' \<and> lev' \<le> lev \<and> heights_ok H lev' \<and> heap_ok h q H lev' xs"
  using assms
proof (induction lev)
  case 0
  then show ?case by (simp add: heights_ok_def)
next
  case (Suc lev)
  show ?case
  proof (cases "Suc lev > 1")
    case True
    have "lev < H ! 0" using heights_okD(1,3) [OF Suc.prems(2)] by simp
    then obtain s where c: "lev_at h (q ! 0) lev = Inr (map_option (\<lambda>m. q ! m) (nxt H lev 0), s)"
      using lev_at_ok [OF Suc.prems(1) Suc.prems(4)] by blast
    show ?thesis
    proof (cases "nxt H lev 0")
      case None
      then have "heights_ok H lev"
        using Suc.prems(2) True unfolding heights_ok_def nxt_None_iff by (auto simp: not_less)
      moreover have "heap_ok h q H lev xs" using heap_ok_lower [OF Suc.prems(1)] by simp
      ultimately obtain lev' where "lower_level h (q ! 0) lev = Inr lev'" "lev' \<le> lev" "heights_ok H lev'" "heap_ok h q H lev' xs"
        using Suc.IH Suc.prems(3,4) by blast
      then show ?thesis using True c None by (subst lower_level.simps) auto
    next
      case (Some b)
      then show ?thesis using True c Suc.prems by (subst lower_level.simps) auto
    qed
  next
    case False
    then show ?thesis using Suc.prems by (subst lower_level.simps) auto
  qed
qed

text \<open>The node to be deleted after the loop, and the nodes that stay.\<close>

lemma delete_this_node:
  assumes heap: "heap_ok hp (ins (Suc k) x q) (ins (Suc k) h H) lev (ins k v xs)"
    and len: "length q = length H" "length q = Suc (length xs)" "k \<le> length xs"
    and H: "heights_ok (ins (Suc k) h H) lev" and q: "distinct (ins (Suc k) x q)"
    and h1: "h1 = relev (\<lambda>r i c. if i < lev then unlinked q H k x h i r c else c) hp"
  shows "\<exists>nx s. h1 x = Some nx \<and> n_back nx = (if k = 0 then None else Some (q ! k))
     \<and> lev_at h1 x 0 = Inr (if k < length xs then Some (q ! Suc k) else None, s)"
proof -
  let ?q = "ins (Suc k) x q" and ?H = "ins (Suc k) h H"
  let ?G = "\<lambda>r i c. if i < lev then unlinked q H k x h i r c else c"
  have p: "Suc k \<le> length q" "Suc k \<le> length H" "k < length q" using len by simp_all
  have "x \<notin> set q" using q by (simp add: distinct_ins)
  then have ux: "q ! last_tall H 0 k \<noteq> x" using last_tall_less [OF p(3)] by (metis nth_mem)
  obtain n0 where n0: "hp x = Some n0" "node_ok ?q ?H lev (ins k v xs) (Suc k) n0"
    using heap_okE [OF heap, of "Suc k"] p by (auto simp: nth_ins)
  let ?nx = "relev_node ?G x n0"
  have hx: "h1 x = Some ?nx" using n0(1) by (simp add: h1 relev_Some)
  have bx: "n_back ?nx = (if k = 0 then None else Some (q ! k))" using n0(2) p by (auto simp: node_ok_def nth_ins)
  have "h = ?H ! Suc k" using p by (simp add: nth_ins)
  then have hpos: "0 < h" using heights_okD(4) [OF H, of "Suc k"] p by simp
  have "fst (n_lev ?nx ! 0) = fst (n_lev n0 ! 0)" "0 < length (n_lev ?nx)"
    using n0(2) ux hpos p by (auto simp: relev_node_def unlinked_def Let_def node_ok_def nth_ins)
  moreover have "fst (n_lev n0 ! 0) = map_option (\<lambda>m. ?q ! m) (nxt ?H 0 (Suc k))"
    using n0(2) hpos p by (simp add: node_ok_def nth_ins)
  moreover have "nxt ?H 0 (Suc k) = (if k < length xs then Some (Suc (Suc k)) else None)"
    using nxt_zero [OF H, of "Suc k"] len by simp
  ultimately have "lev_at h1 x 0 = Inr (if k < length xs then Some (q ! Suc k) else None, snd (n_lev ?nx ! 0))"
    using hx p(1) by (auto simp: lev_at_def nth_ins prod_eq_iff)
  then show ?thesis using hx bx by blast
qed

lemma delete_old_node:
  assumes heap: "heap_ok hp (ins (Suc k) x q) (ins (Suc k) h H) lev (ins k v xs)"
    and len: "length q = length H" "length q = Suc (length xs)" "k \<le> length xs"
    and H: "heights_ok (ins (Suc k) h H) lev" and q: "distinct (ins (Suc k) x q)"
    and h1: "h1 = relev (\<lambda>r i c. if i < lev then unlinked q H k x h i r c else c) hp" and j: "j < length q"
  shows "\<exists>nd. h1 (q ! j) = Some nd \<and> node_links q H lev j nd
     \<and> (0 < j \<longrightarrow> (n_score nd, n_obj nd) = xs ! (j - 1) \<and> (j \<noteq> Suc k \<longrightarrow> n_back nd = (if j = 1 then None else Some (q ! (j - 1)))))"
proof -
  let ?q = "ins (Suc k) x q" and ?H = "ins (Suc k) h H" and ?m = "if j \<le> k then j else Suc j"
  let ?G = "\<lambda>r i c. if i < lev then unlinked q H k x h i r c else c"
  have p: "Suc k \<le> length q" "k < length q" using len by simp_all
  have qm: "?q ! ?m = q ! j" "?m < length ?q" using p j by (simp_all add: nth_ins)
  obtain nd where nd: "hp (q ! j) = Some nd" "node_ok ?q ?H lev (ins k v xs) ?m nd"
    using heap_okE [OF heap qm(2)] qm(1) by auto
  have "node_links q H lev j (relev_node ?G (q ! j) nd)"
    using nd(2) q by (intro unlinked_links [OF len(1) p(2) _ j H refl]) (simp_all add: node_ok_links distinct_ins)
  moreover have "h1 (q ! j) = Some (relev_node ?G (q ! j) nd)" using nd(1) by (simp add: h1 relev_Some)
  moreover have "n_back nd = (if j = 1 then None else Some (q ! (j - 1)))" if "0 < j" "j \<noteq> Suc k"
    using nd(2) p(1) that by (auto simp: node_ok_links nth_ins split: if_splits)
  moreover have "(n_score nd, n_obj nd) = xs ! (j - 1)" if "0 < j"
    using nd(2) len(3) that by (auto simp: node_ok_links nth_ins split: if_splits)
  ultimately show ?thesis by auto
qed

lemma delete_heap_ok:
  assumes heap: "heap_ok hp (ins (Suc k) x q) (ins (Suc k) h H) lev (ins k v xs)"
    and len: "length q = length H" "length q = Suc (length xs)" "k \<le> length xs"
    and H: "heights_ok (ins (Suc k) h H) lev" and q: "distinct (ins (Suc k) x q)"
    and h1: "h1 = relev (\<lambda>r i c. if i < lev then unlinked q H k x h i r c else c) hp"
    and b: "b = (if k = 0 then None else Some (q ! k))"
  shows "\<exists>h2. (if k < length xs then set_back h1 (q ! Suc k) b else Inr h1) = Inr h2
     \<and> free_node h2 x = Inr (h2(x := None)) \<and> heap_ok (h2(x := None)) q H lev xs"
proof -
  have dq: "distinct q" "x \<notin> set q" using q by (simp_all add: distinct_ins)
  have qx: "q ! j \<noteq> x" if "j < length q" for j using dq(2) that by (metis nth_mem)
  note old = delete_old_node [OF heap len H q h1]
  have "\<exists>nx. h1 x = Some nx" using delete_this_node [OF heap len H q h1] by blast
  then obtain nx where hx: "h1 x = Some nx" ..
  have dom1: "dom h1 = insert x (set q)" using heap by (simp add: h1 heap_ok_def set_ins)
  obtain h2 where 2: "(if k < length xs then set_back h1 (q ! Suc k) b else Inr h1) = Inr h2"
    "h2 x = Some nx" "dom h2 = dom h1"
    "\<And>j. j < length q \<Longrightarrow> h2 (q ! j) = (if j = Suc k then map_option (\<lambda>nd. nd\<lparr>n_back := b\<rparr>) (h1 (q ! j)) else h1 (q ! j))"
  proof (cases "k < length xs")
    case True
    then have l: "Suc k < length q" using len(2) by simp
    obtain ny where ny: "h1 (q ! Suc k) = Some ny" using old [OF l] by blast
    show thesis
      by (rule that [of "h1(q ! Suc k \<mapsto> ny\<lparr>n_back := b\<rparr>)"])
        (use True l ny qx hx in \<open>auto simp: set_back_Some nth_eq_iff_index_eq [OF dq(1)]\<close>)
  next
    case False
    then show thesis using that [of h1] hx len by auto
  qed
  have "dom (h2(x := None)) = set q" using 2(3) dom1 dq(2) by simp
  moreover have "\<exists>nd. (h2(x := None)) (q ! j) = Some nd \<and> node_ok q H lev xs j nd" if "j < length q" for j
    using old [OF that] 2(4) [OF that] qx [OF that] b by (auto simp: node_ok_links)
  ultimately show ?thesis using 2(1,2) by (auto simp: heap_ok_def free_node_def)
qed

text \<open>Deleting the node at index \<open>Suc k\<close>, with the array \<open>update\<close> that a search for \<open>k\<close> has found.\<close>

lemma heights_ok_del:
  assumes "heights_ok (ins (Suc k) h H) lev" "k < length H"
  shows "heights_ok H lev"
  unfolding heights_ok_def
proof (intro conjI allI impI)
  have p: "Suc k \<le> length H" using assms(2) by simp
  show "H ! 0 = SKIPLIST_MAXLEVEL" "1 \<le> lev" "lev \<le> SKIPLIST_MAXLEVEL"
    using heights_okD(1-3) [OF assms(1)] p by (simp_all add: nth_ins)
  fix j assume j: "0 < j \<and> j < length H"
  have "ins (Suc k) h H ! (if j \<le> k then j else Suc j) = H ! j" using p by (simp add: nth_ins)
  then show "1 \<le> H ! j" "H ! j \<le> lev"
    using heights_okD(4,5) [OF assms(1), of "if j \<le> k then j else Suc j"] j by (simp_all split: if_splits)
qed

lemma delete_node_internal_ins:
  assumes rep: "sl_rep sl (ins (Suc k) x q) (ins (Suc k) h H) (ins k v xs)"
    and len: "length q = length H" "length q = Suc (length xs)" "k \<le> length xs"
    and us: "\<And>i. i < sl_level sl \<Longrightarrow> fst (us ! i) = q ! last_tall H i k"
  shows "\<exists>sl'. delete_node_internal x us sl = Inr sl' \<and> sl_rep sl' q H xs
       \<and> sl_level sl' \<le> sl_level sl \<and> sl_header sl' = sl_header sl"
proof -
  note r = sl_repD [OF rep]
  let ?h1 = "relev (\<lambda>r i c. if i < sl_level sl then unlinked q H k x h i r c else c) (sl_heap sl)"
  have p: "Suc k \<le> length q" "k < length q" "0 < length q" "k < length H" using len by auto
  have hdr: "q ! 0 = sl_header sl" using r(4) p by (simp add: nth_ins)
  have H: "heights_ok H (sl_level sl)" using heights_ok_del [OF r(5) p(4)] .
  have 1: "for_each (unlink_level us x) [0..<sl_level sl] (sl_heap sl) = Inr ?h1"
    by (rule unlink_loop_ok [OF r(6) len(1) p(2) r(5,3) us])
  obtain nx s where nx: "?h1 x = Some nx" "n_back nx = (if k = 0 then None else Some (q ! k))"
    "lev_at ?h1 x 0 = Inr (if k < length xs then Some (q ! Suc k) else None, s)"
    using delete_this_node [OF r(6) len r(5,3) refl] by blast
  obtain h2 where h2: "(if k < length xs then set_back ?h1 (q ! Suc k) (n_back nx) else Inr ?h1) = Inr h2"
    "free_node h2 x = Inr (h2(x := None))" "heap_ok (h2(x := None)) q H (sl_level sl) xs"
    using delete_heap_ok [OF r(6) len r(5,3) refl nx(2)] by blast
  obtain lev' where low: "lower_level (h2(x := None)) (sl_header sl) (sl_level sl) = Inr lev'" "lev' \<le> sl_level sl"
    "heights_ok H lev'" "heap_ok (h2(x := None)) q H lev' xs"
    using lower_level_ok [OF h2(3) H len(1) p(3)] hdr by auto
  let ?sl = "sl\<lparr>sl_heap := h2(x := None), sl_tail := (if k < length xs then sl_tail sl else n_back nx),
                sl_level := lev', sl_length := sl_length sl - 1\<rparr>"
  have bk: "(case fst (if k < length xs then Some (q ! Suc k) else None, s) of None \<Rightarrow> Inr ?h1 | Some y \<Rightarrow> set_back ?h1 y (n_back nx)) = Inr h2"
    using h2(1) by (auto split: if_splits)
  have "delete_node_internal x us sl = Inr ?sl"
    unfolding delete_node_internal_def 1 sum.case nx(3) bk h2(2) low(1) node_at_def nx(1) option.case by simp
  moreover have "(if k < length xs then sl_tail sl else n_back nx) = (if xs = [] then None else Some (q ! length xs))"
    using r(7) nx(2) p(1) len(3) by (cases "k = length xs") (auto simp: nth_ins)
  then have "sl_rep ?sl q H xs"
    using r(8,9) r(3) hdr len low by (simp add: sl_rep_def distinct_ins)
  ultimately show ?thesis using low(2) by auto
qed

lemma delete_node_internal_ok:
  assumes rep: "sl_rep sl q H xs" and k: "k < length xs"
    and us: "\<And>i. i < sl_level sl \<Longrightarrow> fst (us ! i) = q ! last_tall H i k"
  shows "\<exists>sl'. delete_node_internal (q ! Suc k) us sl = Inr sl' \<and> sl_rep sl' (del (Suc k) q) (del (Suc k) H) (del k xs)
       \<and> sl_level sl' \<le> sl_level sl \<and> sl_header sl' = sl_header sl"
proof -
  note r = sl_repD [OF rep]
  have l: "Suc k < length q" "Suc k < length H" using r(1,2) k by simp_all
  have "last_tall (del (Suc k) H) i k = last_tall H i k" for i
    using l by (intro last_tall_cong) (simp add: nth_del)
  then have "fst (us ! i) = del (Suc k) q ! last_tall (del (Suc k) H) i k" if "i < sl_level sl" for i
    using us [OF that] last_tall_le [of H i k] l by (simp add: nth_del)
  moreover have "sl_rep sl (ins (Suc k) (q ! Suc k) (del (Suc k) q)) (ins (Suc k) (H ! Suc k) (del (Suc k) H)) (ins k (xs ! k) (del k xs))"
    using rep l k by (simp add: ins_del)
  ultimately show ?thesis
    using r(1,2) k by (intro delete_node_internal_ins) (simp_all add: length_del)
qed

end
