(* ===== verification/SkiplistOps.thy ===== *)
theory SkiplistOps
  imports SkiplistUpdate
begin

text \<open>
  The operations of the skip list against the ordered list of its elements: insertion, deletion,
  deletion of ranges, access by rank, rank of an element and range queries, iteration, validation and
  release. Every search condition holds for a prefix of the list, so that every search ends at the index
  behind that prefix.
\<close>

section \<open>The order of the elements\<close>

definition key_less :: "('a \<Rightarrow> 'a \<Rightarrow> bool) \<Rightarrow> 's::linorder \<times> 'a \<Rightarrow> 's \<times> 'a \<Rightarrow> bool" where
  "key_less cmp a b \<longleftrightarrow> fst a < fst b \<or> fst a = fst b \<and> cmp (snd a) (snd b)"

definition key_equiv :: "('a \<Rightarrow> 'a \<Rightarrow> bool) \<Rightarrow> 's::linorder \<times> 'a \<Rightarrow> 's \<times> 'a \<Rightarrow> bool" where
  "key_equiv cmp a b \<longleftrightarrow> fst a = fst b \<and> \<not> cmp (snd a) (snd b) \<and> \<not> cmp (snd b) (snd a)"

text \<open>What the standard library requires of a comparison function.\<close>

definition strict_weak :: "('a \<Rightarrow> 'a \<Rightarrow> bool) \<Rightarrow> bool" where
  "strict_weak cmp \<longleftrightarrow> (\<forall>x y. cmp x y \<longrightarrow> \<not> cmp y x) \<and> (\<forall>x y z. cmp x y \<longrightarrow> cmp x z \<or> cmp z y)"

definition in_order :: "('a \<Rightarrow> 'a \<Rightarrow> bool) \<Rightarrow> ('s::linorder \<times> 'a) list \<Rightarrow> bool" where
  "in_order cmp xs \<longleftrightarrow> sorted_wrt (\<lambda>a b. \<not> key_less cmp b a) xs"

definition prefix_of :: "('b \<Rightarrow> bool) \<Rightarrow> 'b list \<Rightarrow> bool" where
  "prefix_of P xs \<longleftrightarrow> sorted_wrt (\<lambda>a b. P b \<longrightarrow> P a) xs"

lemma strict_weak_less: "strict_weak (\<lambda>x y. (x::'a::linorder) < y)"
  by (auto simp: strict_weak_def)

lemma key_less_trans_neg:
  assumes "strict_weak cmp" "\<not> key_less cmp b a" "key_less cmp b c"
  shows "key_less cmp a c"
proof -
  have "cmp (snd b) (snd c) \<Longrightarrow> cmp (snd b) (snd a) \<or> cmp (snd a) (snd c)" using assms(1) by (simp add: strict_weak_def)
  then show ?thesis using assms(2,3) by (auto simp: key_less_def)
qed

lemma prefix_before:
  assumes "strict_weak cmp" "in_order cmp xs"
  shows "prefix_of (\<lambda>a. key_less cmp a key) xs"
  unfolding prefix_of_def
  by (rule sorted_wrt_mono_rel [OF _ assms(2) [unfolded in_order_def]]) (use key_less_trans_neg [OF assms(1)] in blast)

lemma prefix_score_less: "in_order cmp xs \<Longrightarrow> prefix_of (\<lambda>a. fst a < s) xs"
  unfolding in_order_def prefix_of_def by (rule sorted_wrt_mono_rel) (auto simp: key_less_def)

lemma prefix_score_le: "in_order cmp xs \<Longrightarrow> prefix_of (\<lambda>a. fst a \<le> s) xs"
  unfolding in_order_def prefix_of_def by (rule sorted_wrt_mono_rel) (auto simp: key_less_def)

lemma in_order_scores:
  assumes "in_order cmp xs" "i \<le> j" "j < length xs"
  shows "fst (xs ! i) \<le> fst (xs ! j)"
proof (cases "i = j")
  case False
  then have "\<not> key_less cmp (xs ! j) (xs ! i)"
    using assms sorted_wrt_nth_less [OF assms(1) [unfolded in_order_def], of i j] by simp
  then show ?thesis by (auto simp: key_less_def)
qed simp

definition upto_pos :: "('b \<Rightarrow> bool) \<Rightarrow> 'b list \<Rightarrow> nat" where
  "upto_pos P xs = length (takeWhile P xs)"

lemma upto_pos_le [simp]: "upto_pos P xs \<le> length xs"
  by (simp add: upto_pos_def length_takeWhile_le)

lemma prefix_iff_pos:
  assumes "prefix_of P xs" "i < length xs"
  shows "P (xs ! i) \<longleftrightarrow> i < upto_pos P xs"
proof
  assume "P (xs ! i)"
  show "i < upto_pos P xs"
  proof (rule ccontr)
    assume "\<not> i < upto_pos P xs"
    then have le: "upto_pos P xs \<le> i" by simp
    then have n: "\<not> P (xs ! upto_pos P xs)"
      using assms(2) nth_length_takeWhile [of P xs] by (simp add: upto_pos_def)
    have "upto_pos P xs \<noteq> i" using n \<open>P (xs ! i)\<close> by auto
    then have "P (xs ! upto_pos P xs)"
      using assms le \<open>P (xs ! i)\<close> sorted_wrt_nth_less [of _ xs "upto_pos P xs" i] unfolding prefix_of_def by force
    then show False using n by simp
  qed
next
  assume "i < upto_pos P xs"
  then show "P (xs ! i)" unfolding upto_pos_def by (metis nth_mem set_takeWhileD takeWhile_nth)
qed

section \<open>Reading the nodes\<close>

definition value_of :: "('s, 'a) sl_node \<Rightarrow> 's \<times> 'a" where
  "value_of nd = (n_score nd, n_obj nd)"

lemma before_key_less: "before cmp score obj nd \<longleftrightarrow> key_less cmp (value_of nd) (score, obj)"
  by (simp add: before_def key_less_def value_of_def)

lemma matches_key_equiv: "matches cmp score obj nd \<longleftrightarrow> key_equiv cmp (value_of nd) (score, obj)"
  by (simp add: matches_def key_equiv_def value_of_def)

lemma rep_node:
  assumes "sl_rep sl q H xs" "0 < m" "m \<le> length xs"
  obtains nd where "sl_heap sl (q ! m) = Some nd" "value_of nd = xs ! (m - 1)"
    "n_back nd = (if m = 1 then None else Some (q ! (m - 1)))"
proof -
  note r = sl_repD [OF assms(1)]
  obtain nd where "sl_heap sl (q ! m) = Some nd" "node_ok q H (sl_level sl) xs m nd"
    using heap_okE [OF r(6), of m] r(1) assms(3) by auto
  then show thesis using that assms(2) by (simp add: node_ok_def value_of_def)
qed

lemma rep_next:
  assumes "sl_rep sl q H xs" "m \<le> length xs"
  obtains s where "lev_at (sl_heap sl) (q ! m) 0 = Inr (if m < length xs then Some (q ! Suc m) else None, s)"
proof -
  note r = sl_repD [OF assms(1)]
  have "0 < H ! m"
    using heights_okD(1) [OF r(5)] heights_okD(4) [OF r(5), of m] assms(2) r(2)
    by (cases "m = 0") (auto simp: SKIPLIST_MAXLEVEL_def)
  then show thesis
    using lev_at_ok [OF r(6), of m 0] nxt_zero [OF r(5), of m] r(1,2) assms(2) that by (auto split: if_splits)
qed

text \<open>A search whose condition holds for a prefix of the elements.\<close>

lemma search_prefix:
  assumes "sl_rep sl q H xs" "prefix_of P xs" "\<And>nd t. go nd t \<longleftrightarrow> P (value_of nd)"
  shows "sl_descend go (sl_heap sl) (sl_level sl) (sl_header sl) 0
       = Some (Inr (found q H (upto_pos P xs) (sl_level sl), q ! upto_pos P xs))"
proof (rule sl_search_ok [OF assms(1)])
  fix m nd assume m: "0 < m" "m \<le> length xs" "sl_heap sl (q ! m) = Some nd"
  then have "value_of nd = xs ! (m - 1)" using rep_node [OF assms(1) m(1,2)] by force
  then show "go nd (of_nat m) \<longleftrightarrow> m \<le> upto_pos P xs"
    using prefix_iff_pos [OF assms(2), of "m - 1"] m assms(3) by auto
qed simp

text \<open>A search by rank.\<close>

lemma search_rank:
  assumes "sl_rep sl q H xs" "k \<le> length xs" "\<And>nd m. 0 < m \<Longrightarrow> m \<le> length xs \<Longrightarrow> go nd (of_nat m) \<longleftrightarrow> m \<le> k"
  shows "sl_descend go (sl_heap sl) (sl_level sl) (sl_header sl) 0 = Some (Inr (found q H k (sl_level sl), q ! k))"
  using assms by (intro sl_search_ok) auto

lemma unat_of_nat_rep:
  assumes "sl_rep sl q H xs" "m \<le> length xs"
  shows "unat (of_nat m :: u64) = m"
  using sl_repD(9) [OF assms(1)] assms(2) by (simp add: unat_of_nat)

section \<open>Insertion and deletion\<close>

abbreviation insert_pos :: "('a \<Rightarrow> 'a \<Rightarrow> bool) \<Rightarrow> 's::linorder \<times> 'a \<Rightarrow> ('s \<times> 'a) list \<Rightarrow> nat" where
  "insert_pos cmp key xs \<equiv> upto_pos (\<lambda>a. key_less cmp a key) xs"

lemma in_order_ins:
  assumes "strict_weak cmp" "in_order cmp xs"
  shows "in_order cmp (ins (insert_pos cmp key xs) key xs)"
proof -
  let ?k = "insert_pos cmp key xs"
  have pre: "prefix_of (\<lambda>a. key_less cmp a key) xs" using prefix_before [OF assms] .
  have lt: "key_less cmp a key" if "a \<in> set (take ?k xs)" for a
    using that unfolding upto_pos_def by (metis set_takeWhileD takeWhile_eq_take)
  have ge: "\<not> key_less cmp a key" if a: "a \<in> set (drop ?k xs)" for a
  proof -
    obtain j where "j < length xs - ?k" "a = xs ! (?k + j)" using a by (auto simp: in_set_conv_nth)
    then show ?thesis using prefix_iff_pos [OF pre, of "?k + j"] by simp
  qed
  have asym: "\<not> key_less cmp key a" if "key_less cmp a key" for a
    using that assms(1) by (auto simp: key_less_def strict_weak_def)
  have "sorted_wrt (\<lambda>a b. \<not> key_less cmp b a) (take ?k xs @ drop ?k xs)" using assms(2) by (simp add: in_order_def)
  then have s: "sorted_wrt (\<lambda>a b. \<not> key_less cmp b a) (take ?k xs)" "sorted_wrt (\<lambda>a b. \<not> key_less cmp b a) (drop ?k xs)"
    "\<forall>a\<in>set (take ?k xs). \<forall>b\<in>set (drop ?k xs). \<not> key_less cmp b a"
    unfolding sorted_wrt_append by blast+
  show ?thesis
    unfolding in_order_def ins_def sorted_wrt_append sorted_wrt.simps list.set
    using s lt ge asym by blast
qed

lemma in_order_del:
  assumes "in_order cmp xs"
  shows "in_order cmp (del k xs)"
proof -
  have "sorted_wrt (\<lambda>a b. \<not> key_less cmp b a) (take k xs @ drop k xs)" using assms by (simp add: in_order_def)
  moreover have "set (drop (Suc k) xs) \<subseteq> set (drop k xs)" by (rule set_drop_subset_set_drop) simp
  ultimately show ?thesis
    using sorted_wrt_drop [OF assms [unfolded in_order_def], of "Suc k"]
    unfolding in_order_def del_def sorted_wrt_append by blast
qed

lemma sl_insert_ok:
  assumes "sl_rep sl q H xs" "strict_weak cmp" "in_order cmp xs" "sl_heap sl x = None" "Suc (length xs) < 2 ^ 64"
  shows "\<exists>sl' q' H'. sl_insert cmp draws junk x score obj sl = Some (Inr (sl', x))
       \<and> sl_rep sl' q' H' (ins (insert_pos cmp (score, obj) xs) (score, obj) xs)"
proof -
  let ?k = "insert_pos cmp (score, obj) xs"
  have "x \<notin> set q" using sl_repD(6) [OF assms(1)] assms(4) unfolding heap_ok_def by blast
  from insert_at_ok [OF assms(1) _ this random_level_bounds assms(5), of ?k junk draws score obj]
  obtain sl' where "insert_at junk x (random_level draws) score obj (found q H ?k (sl_level sl)) sl = Inr (sl', x)"
    "sl_rep sl' (ins (Suc ?k) x q) (ins (Suc ?k) (random_level draws) H) (ins ?k (score, obj) xs)" by (auto simp: upto_pos_le)
  moreover have "sl_descend (\<lambda>nd _. before cmp score obj nd) (sl_heap sl) (sl_level sl) (sl_header sl) 0
      = Some (Inr (found q H ?k (sl_level sl), q ! ?k))"
    by (rule search_prefix [OF assms(1) prefix_before [OF assms(2,3)]]) (simp add: before_key_less)
  ultimately show ?thesis by (auto simp: sl_insert_def)
qed

text \<open>An element equivalent to the key stands right behind the smaller ones, if there is one.\<close>

lemma key_equiv_pos:
  assumes "strict_weak cmp" "in_order cmp xs" "i < length xs" "key_equiv cmp (xs ! i) key"
  shows "insert_pos cmp key xs < length xs \<and> key_equiv cmp (xs ! insert_pos cmp key xs) key"
proof -
  let ?k = "insert_pos cmp key xs"
  note iff = prefix_iff_pos [OF prefix_before [OF assms(1,2)]]
  have "\<not> key_less cmp (xs ! i) key" using assms(4) by (auto simp: key_equiv_def key_less_def)
  then have ki: "?k \<le> i" using iff [OF assms(3)] by simp
  then have k: "?k < length xs" "\<not> key_less cmp (xs ! ?k) key" using iff [of ?k] assms(3) by auto
  have "\<not> key_less cmp (xs ! i) (xs ! ?k)"
    using ki assms(2,3) sorted_wrt_nth_less [of _ xs ?k i] assms(1)
    by (cases "?k = i") (auto simp: in_order_def key_less_def strict_weak_def)
  then have "\<not> key_less cmp key (xs ! ?k)"
    using assms(4) key_less_trans_neg [OF assms(1), of key "xs ! i" "xs ! ?k"]
    by (auto simp: key_equiv_def key_less_def)
  then show ?thesis using k by (auto simp: key_equiv_def key_less_def)
qed

lemma delete_node_ok:
  assumes "sl_rep sl q H xs" "strict_weak cmp" "in_order cmp xs"
    and k_def: "k = insert_pos cmp (score, obj) xs"
  shows "if \<exists>a\<in>set xs. key_equiv cmp a (score, obj)
         then \<exists>sl' q' H'. delete_node cmp score obj sl = Some (Inr (sl', True)) \<and> sl_rep sl' q' H' (del k xs)
              \<and> k < length xs \<and> key_equiv cmp (xs ! k) (score, obj)
         else delete_node cmp score obj sl = Some (Inr (sl, False))"
proof -
  have search: "sl_descend (\<lambda>nd _. before cmp score obj nd) (sl_heap sl) (sl_level sl) (sl_header sl) 0
      = Some (Inr (found q H k (sl_level sl), q ! k))"
    unfolding k_def by (rule search_prefix [OF assms(1) prefix_before [OF assms(2,3)]]) (simp add: before_key_less)
  have kn: "k \<le> length xs" by (simp add: k_def)
  obtain s where nx: "lev_at (sl_heap sl) (q ! k) 0 = Inr (if k < length xs then Some (q ! Suc k) else None, s)"
    using rep_next [OF assms(1) kn] .
  have ex: "(\<exists>a\<in>set xs. key_equiv cmp a (score, obj)) \<longleftrightarrow> k < length xs \<and> key_equiv cmp (xs ! k) (score, obj)"
    using key_equiv_pos [OF assms(2,3)] unfolding k_def by (metis in_set_conv_nth)
  show ?thesis
  proof (cases "k < length xs")
    case True
    obtain nd where nd: "sl_heap sl (q ! Suc k) = Some nd" "value_of nd = xs ! k"
      using rep_node [OF assms(1), of "Suc k"] True by auto
    show ?thesis
    proof (cases "key_equiv cmp (xs ! k) (score, obj)")
      case eq: True
      obtain sl' where "delete_node_internal (q ! Suc k) (found q H k (sl_level sl)) sl = Inr sl'"
        "sl_rep sl' (del (Suc k) q) (del (Suc k) H) (del k xs)"
        using delete_node_internal_ok [OF assms(1) True, of "found q H k (sl_level sl)"] by (auto simp: found_nth)
      then have "\<exists>sl' q' H'. delete_node cmp score obj sl = Some (Inr (sl', True)) \<and> sl_rep sl' q' H' (del k xs)"
        using search nx nd eq True by (auto simp: delete_node_def node_at_def matches_key_equiv)
      then show ?thesis using ex eq True by auto
    next
      case False
      then show ?thesis using search nx nd True ex by (simp add: delete_node_def node_at_def matches_key_equiv)
    qed
  next
    case False
    then show ?thesis using search nx ex by (simp add: delete_node_def)
  qed
qed

section \<open>Deleting a range\<close>

lemma update_del:
  assumes "Suc k < length q" "Suc k < length H"
  shows "del (Suc k) q ! last_tall (del (Suc k) H) i k = q ! last_tall H i k"
proof -
  have "last_tall (del (Suc k) H) i k = last_tall H i k"
    using assms by (intro last_tall_cong) (simp add: nth_del)
  then show ?thesis using last_tall_le [of H i k] assms by (simp add: nth_del)
qed

text \<open>
  The deleting loop removes the next \<open>c\<close> elements behind index \<open>k\<close> if its condition holds for each of
  them and fails for the one after them.
\<close>

lemma delete_while_ok:
  assumes "sl_rep sl q H xs" "k + c \<le> length xs" "\<And>i. i < sl_level sl \<Longrightarrow> fst (us ! i) = q ! last_tall H i k"
    and "\<And>nd t. again nd t \<longleftrightarrow> cond (value_of nd) t"
    and "\<And>j. j < c \<Longrightarrow> cond (xs ! (k + j)) (t + of_nat j)" "k + c < length xs \<Longrightarrow> \<not> cond (xs ! (k + c)) (t + of_nat c)"
  shows "\<exists>sl' q' H'. delete_while again us (if k < length xs then Some (q ! Suc k) else None) t sl = Some (Inr (sl', t + of_nat c))
       \<and> sl_rep sl' q' H' (take k xs @ drop (k + c) xs)"
  using assms(1-3,5,6)
proof (induction c arbitrary: sl q H xs t)
  case 0
  show ?case
  proof (cases "k < length xs")
    case True
    obtain nd where "sl_heap sl (q ! Suc k) = Some nd" "value_of nd = xs ! k"
      using rep_node [OF 0(1), of "Suc k"] True by auto
    then show ?thesis using 0 True assms(4) by (subst delete_while.simps) (auto simp: node_at_def)
  next
    case False
    then show ?thesis using 0 by (subst delete_while.simps) auto
  qed
next
  case (Suc c)
  then have k: "k < length xs" by simp
  note r = sl_repD [OF Suc.prems(1)]
  have l: "Suc k < length q" "Suc k < length H" using r(1,2) k by simp_all
  obtain nd where nd: "sl_heap sl (q ! Suc k) = Some nd" "value_of nd = xs ! k"
    using rep_node [OF Suc.prems(1), of "Suc k"] k by auto
  obtain s where nx: "lev_at (sl_heap sl) (q ! Suc k) 0 = Inr (if Suc k < length xs then Some (q ! Suc (Suc k)) else None, s)"
    using rep_next [OF Suc.prems(1), of "Suc k"] k by (metis Suc_leI)
  obtain sl1 where sl1: "delete_node_internal (q ! Suc k) us sl = Inr sl1" "sl_rep sl1 (del (Suc k) q) (del (Suc k) H) (del k xs)"
    "sl_level sl1 \<le> sl_level sl"
    using delete_node_internal_ok [OF Suc.prems(1) k Suc.prems(3)] by blast
  have xs1: "length (del k xs) = length xs - 1" "\<And>j. k + j < length xs - 1 \<Longrightarrow> del k xs ! (k + j) = xs ! (k + Suc j)"
    using k by (simp_all add: length_del nth_del)
  have "\<exists>sl' q' H'. delete_while again us (if k < length (del k xs) then Some (del (Suc k) q ! Suc k) else None) (t + 1) sl1
        = Some (Inr (sl', t + 1 + of_nat c)) \<and> sl_rep sl' q' H' (take k (del k xs) @ drop (k + c) (del k xs))"
  proof (rule Suc.IH [OF sl1(2)])
    show "k + c \<le> length (del k xs)" using Suc.prems(2) xs1(1) by simp
    show "fst (us ! i) = del (Suc k) q ! last_tall (del (Suc k) H) i k" if "i < sl_level sl1" for i
      using Suc.prems(3) [of i] that sl1(3) update_del [OF l] by simp
    show "cond (del k xs ! (k + j)) (t + 1 + of_nat j)" if "j < c" for j
      using Suc.prems(4) [of "Suc j"] Suc.prems(2) that xs1(2) [of j] by (simp add: add_ac)
    show "\<not> cond (del k xs ! (k + c)) (t + 1 + of_nat c)" if "k + c < length (del k xs)"
      using Suc.prems(5) that xs1 by (simp add: add_ac)
  qed
  moreover have "(if k < length (del k xs) then Some (del (Suc k) q ! Suc k) else None)
      = (if Suc k < length xs then Some (q ! Suc (Suc k)) else None)"
    using xs1(1) r(1) by (auto simp: nth_del)
  moreover have "take k (del k xs) @ drop (k + c) (del k xs) = take k xs @ drop (k + Suc c) xs"
    using k by (simp add: del_def add.commute)
  moreover have "cond (xs ! k) t" using Suc.prems(4) [of 0] by simp
  ultimately show ?case
    using k nd nx sl1(1) assms(4) by (subst delete_while.simps) (auto simp: node_at_def add_ac)
qed

lemma filter_interval:
  assumes "\<And>i. i < length xs \<Longrightarrow> P (xs ! i) \<longleftrightarrow> k \<le> i \<and> i < m" "k \<le> m" "m \<le> length xs"
  shows "filter P xs = take (m - k) (drop k xs)" "filter (\<lambda>x. \<not> P x) xs = take k xs @ drop m xs"
proof -
  have xs: "xs = take k xs @ take (m - k) (drop k xs) @ drop m xs"
    using assms(2) by (metis append_take_drop_id drop_drop le_add_diff_inverse2)
  have "\<not> P x" if "x \<in> set (take k xs)" for x
    using that assms by (auto simp: in_set_conv_nth)
  moreover have "P x" if "x \<in> set (take (m - k) (drop k xs))" for x
    using that assms by (auto simp: in_set_conv_nth)
  moreover have "\<not> P x" if "x \<in> set (drop m xs)" for x
    using that assms by (auto simp: in_set_conv_nth)
  ultimately have f: "filter P (take k xs) = []" "filter P (take (m - k) (drop k xs)) = take (m - k) (drop k xs)"
    "filter P (drop m xs) = []" "filter (\<lambda>x. \<not> P x) (take k xs) = take k xs"
    "filter (\<lambda>x. \<not> P x) (take (m - k) (drop k xs)) = []" "filter (\<lambda>x. \<not> P x) (drop m xs) = drop m xs"
    by (auto simp: filter_empty_conv intro!: filter_True)
  show "filter P xs = take (m - k) (drop k xs)" by (subst (1) xs) (simp only: filter_append f append_Nil append_Nil2)
  show "filter (\<lambda>x. \<not> P x) xs = take k xs @ drop m xs" by (subst (1) xs) (simp only: filter_append f append_Nil append_Nil2)
qed

text \<open>The elements with a score in a range stand together.\<close>

lemma score_range:
  assumes "in_order cmp xs" "k = upto_pos (\<lambda>x. fst x < a) xs" "m = max k (upto_pos (\<lambda>x. fst x \<le> b) xs)"
  shows "k \<le> m" "m \<le> length xs" "\<And>i. i < length xs \<Longrightarrow> a \<le> fst (xs ! i) \<and> fst (xs ! i) \<le> b \<longleftrightarrow> k \<le> i \<and> i < m"
    "\<And>i. k \<le> i \<Longrightarrow> i < length xs \<Longrightarrow> fst (xs ! i) \<le> b \<longleftrightarrow> i < m"
proof -
  note lo = prefix_iff_pos [OF prefix_score_less [OF assms(1)], where s1 = a]
    and hi = prefix_iff_pos [OF prefix_score_le [OF assms(1)], where s1 = b]
  show "k \<le> m" "m \<le> length xs" using assms(2,3) by simp_all
  show "a \<le> fst (xs ! i) \<and> fst (xs ! i) \<le> b \<longleftrightarrow> k \<le> i \<and> i < m" if "i < length xs" for i
    using lo [OF that] hi [OF that] assms(2,3) by (auto simp: not_less)
  show "fst (xs ! i) \<le> b \<longleftrightarrow> i < m" if "k \<le> i" "i < length xs" for i
    using hi [OF that(2)] assms(3) that(1) by auto
qed

lemma delete_range_by_score_ok:
  assumes "sl_rep sl q H xs" "in_order cmp xs"
  shows "\<exists>sl' q' H'. delete_range_by_score a b sl
           = Some (Inr (sl', of_nat (length (filter (\<lambda>x. a \<le> fst x \<and> fst x \<le> b) xs))))
         \<and> sl_rep sl' q' H' (filter (\<lambda>x. \<not> (a \<le> fst x \<and> fst x \<le> b)) xs)"
proof -
  define k where "k = upto_pos (\<lambda>x. fst x < a) xs"
  define m where "m = max k (upto_pos (\<lambda>x. fst x \<le> b) xs)"
  note sr = score_range [OF assms(2) k_def m_def]
  note f = filter_interval [OF sr(3,1,2)]
  have search: "sl_descend (\<lambda>nd _. n_score nd < a) (sl_heap sl) (sl_level sl) (sl_header sl) 0
      = Some (Inr (found q H k (sl_level sl), q ! k))"
    unfolding k_def by (rule search_prefix [OF assms(1) prefix_score_less [OF assms(2)]]) (simp add: value_of_def)
  have kn: "k \<le> length xs" using sr(1,2) by simp
  obtain s where nx: "lev_at (sl_heap sl) (q ! k) 0 = Inr (if k < length xs then Some (q ! Suc k) else None, s)"
    using rep_next [OF assms(1) kn] .
  have "\<exists>sl' q' H'. delete_while (\<lambda>nd _. n_score nd \<le> b) (found q H k (sl_level sl))
          (if k < length xs then Some (q ! Suc k) else None) 0 sl = Some (Inr (sl', 0 + of_nat (m - k)))
        \<and> sl_rep sl' q' H' (take k xs @ drop (k + (m - k)) xs)"
    by (rule delete_while_ok [OF assms(1), where cond = "\<lambda>x _. fst x \<le> b"])
      (use sr(1,2,4) in \<open>auto simp: found_nth value_of_def\<close>)
  then show ?thesis using search nx f sr(1,2) by (simp add: delete_range_by_score_def)
qed

lemma delete_range_by_rank_ok:
  assumes "sl_rep sl q H xs"
  shows "\<exists>sl' q' H'. delete_range_by_rank start final_rank sl
           = Some (Inr (sl', of_nat (length (take (Suc (unat final_rank) - unat start) (drop (unat start) xs)))))
         \<and> sl_rep sl' q' H' (take (unat start) xs @ drop (max (unat start) (Suc (unat final_rank))) xs)"
proof -
  note r = sl_repD [OF assms]
  define k where "k = unat start"
  have len: "unat (sl_length sl) = length xs" using unat_of_nat_rep [OF assms, of "length xs"] r(8) by simp
  show ?thesis
  proof (cases "start > final_rank \<or> start \<ge> sl_length sl")
    case True
    then have "Suc (unat final_rank) \<le> k \<or> length xs \<le> k"
      using len by (auto simp: k_def word_less_nat_alt word_le_nat_alt)
    then have "take (Suc (unat final_rank) - k) (drop k xs) = []" "take k xs @ drop (max k (Suc (unat final_rank))) xs = xs"
      by (auto simp: max_def)
    then show ?thesis using True assms by (auto simp: delete_range_by_rank_def k_def [symmetric])
  next
    case False
    define e where "e = (if final_rank \<ge> sl_length sl then sl_length sl - 1 else final_rank)"
    have ue: "unat e = min (unat final_rank) (length xs - 1)" and k: "k \<le> unat final_rank" "k < length xs"
      using False len by (auto simp: e_def k_def word_less_nat_alt word_le_nat_alt unat_sub_if' min_def)
    define c where "c = Suc (unat e) - k"
    have c: "k + c \<le> length xs" "k + c = min (Suc (unat final_rank)) (length xs)" "Suc (unat e) = k + c"
      using ue k by (auto simp: c_def)
    have rank: "of_nat m \<le> start \<longleftrightarrow> m \<le> k" if "m \<le> length xs" for m
      using unat_of_nat_rep [OF assms that] by (simp add: word_le_nat_alt k_def)
    have search: "sl_descend (\<lambda>_ t. t \<le> start) (sl_heap sl) (sl_level sl) (sl_header sl) 0 = Some (Inr (found q H k (sl_level sl), q ! k))"
      using k rank by (intro search_rank [OF assms]) auto
    obtain s where nx: "lev_at (sl_heap sl) (q ! k) 0 = Inr (if k < length xs then Some (q ! Suc k) else None, s)"
      using rep_next [OF assms, of k] k by auto
    have within: "start + of_nat j \<le> e \<longleftrightarrow> k + j \<le> unat e" if "k + j \<le> length xs" for j
    proof -
      have "start + of_nat j = of_nat (k + j)" by (simp add: k_def)
      then show ?thesis using unat_of_nat_rep [OF assms that] by (simp add: word_le_nat_alt del: of_nat_add)
    qed
    have "\<exists>sl' q' H'. delete_while (\<lambda>_ removed. start + removed \<le> e) (found q H k (sl_level sl))
            (if k < length xs then Some (q ! Suc k) else None) 0 sl = Some (Inr (sl', 0 + of_nat c))
          \<and> sl_rep sl' q' H' (take k xs @ drop (k + c) xs)"
      by (rule delete_while_ok [OF assms, where cond = "\<lambda>_ t. start + t \<le> e"])
        (use c(1,3) within in \<open>auto simp: found_nth\<close>)
    moreover have "length (take (Suc (unat final_rank) - k) (drop k xs)) = c"
      "drop (k + c) xs = drop (max k (Suc (unat final_rank))) xs"
      using c(2) k by (simp_all add: max_def) (simp_all add: min_def split: if_splits)
    ultimately show ?thesis
      using search nx False by (simp add: delete_range_by_rank_def e_def [symmetric] Let_def k_def [symmetric])
  qed
qed

end
