(* ===== verification/SkiplistQuery.thy ===== *)
theory SkiplistQuery
  imports SkiplistOps
begin

text \<open>
  The queries of the skip list: access by rank, rank of an element, first and last element of a score
  range, the two range queries, validation, release, and the iterators.
\<close>

section \<open>Access by rank and rank of an element\<close>

text \<open>The pointer to the node of the element with index \<open>i\<close>.\<close>

definition ptr :: "nat list \<Rightarrow> ('s \<times> 'a) list \<Rightarrow> nat \<Rightarrow> nat option" where
  "ptr q xs i = (if i < length xs then Some (q ! Suc i) else None)"

lemma rep_length: "sl_rep sl q H xs \<Longrightarrow> unat (sl_length sl) = length xs"
  using unat_of_nat_rep [of sl q H xs "length xs"] sl_repD(8) [of sl q H xs] by simp

lemma get_element_by_rank_ok:
  assumes "sl_rep sl q H xs"
  shows "get_element_by_rank rank sl = Some (Inr (ptr q xs (unat rank)))"
proof (cases "unat rank < length xs")
  case True
  have "of_nat m - 1 < rank \<longleftrightarrow> m \<le> unat rank" if "0 < m" "m \<le> length xs" for m
  proof -
    have "of_nat m - 1 = (of_nat (m - 1) :: u64)" using that by (simp add: of_nat_diff)
    then show ?thesis using unat_of_nat_rep [OF assms, of "m - 1"] that by (auto simp: word_less_nat_alt)
  qed
  then have "sl_descend (\<lambda>_ t. t - 1 < rank) (sl_heap sl) (sl_level sl) (sl_header sl) 0
      = Some (Inr (found q H (unat rank) (sl_level sl), q ! unat rank))"
    using True by (intro search_rank [OF assms]) auto
  moreover obtain s where "lev_at (sl_heap sl) (q ! unat rank) 0 = Inr (ptr q xs (unat rank), s)"
    using rep_next [OF assms, of "unat rank"] True by (auto simp: ptr_def)
  moreover have "\<not> rank \<ge> sl_length sl" using True rep_length [OF assms] by (simp add: word_le_nat_alt)
  ultimately show ?thesis by (simp add: get_element_by_rank_def)
next
  case False
  then have "rank \<ge> sl_length sl" using rep_length [OF assms] by (simp add: word_le_nat_alt)
  then show ?thesis using False by (simp add: get_element_by_rank_def ptr_def)
qed

lemma find_rank_step:
  assumes rep: "sl_rep sl q H xs" "strict_weak cmp" "in_order cmp xs" and k: "k = insert_pos cmp (score, obj) xs"
    and i: "Suc i \<le> sl_level sl" "j \<le> k" "Suc i \<le> H ! j"
  shows "find_rank cmp score obj sl (Suc i) (q ! j) (of_nat j) =
     (case nxt H i k of
        Some m \<Rightarrow> if key_equiv cmp (xs ! (m - 1)) (score, obj) then Some (Inr (of_nat (m - 1)))
                  else find_rank cmp score obj sl i (q ! last_tall H i k) (of_nat (last_tall H i k))
      | None \<Rightarrow> find_rank cmp score obj sl i (q ! last_tall H i k) (of_nat (last_tall H i k)))"
proof -
  note r = sl_repD [OF rep(1)]
  let ?u = "last_tall H i k"
  have kn: "k < length q" using r(1) k by (simp add: less_Suc_eq_le)
  have walk: "sl_walk (\<lambda>nd _. before cmp score obj nd) (sl_heap sl) i (q ! j) (of_nat j) = Some (Inr (q ! ?u, of_nat ?u))"
  proof (rule sl_walk_ok [OF r(6)])
    fix m nd assume m: "0 < m" "m < length q" "sl_heap sl (q ! m) = Some nd"
    then have "value_of nd = xs ! (m - 1)" using rep_node [OF rep(1), of m] r(1) by force
    then show "before cmp score obj nd \<longleftrightarrow> m \<le> k"
      using prefix_iff_pos [OF prefix_before [OF rep(2,3)], of "m - 1"] m r(1) k by (auto simp: before_key_less)
  qed (use r(1,2) kn i in auto)
  have u: "?u < length q" using last_tall_less [OF kn] .
  have "i < H ! 0" using heights_okD(1,3) [OF r(5)] i by simp
  then have "i < H ! ?u" by (rule last_tall_tall)
  then have lu: "lev_at (sl_heap sl) (q ! ?u) i = Inr (map_option (\<lambda>m. q ! m) (nxt H i k), of_nat (gap H i ?u))"
    using lev_at_span [OF r(6) u] i nxt_last_tall [of H i k] by simp
  show ?thesis
  proof (cases "nxt H i k")
    case None
    then show ?thesis using walk lu by simp
  next
    case (Some m)
    note m = nxt_SomeD [OF Some]
    obtain nd where nd: "sl_heap sl (q ! m) = Some nd" "value_of nd = xs ! (m - 1)"
      using rep_node [OF rep(1), of m] m r(2) by auto
    have "gap H i ?u = m - ?u" using Some nxt_last_tall [of H i k] by (simp add: gap_Some)
    then have "of_nat ?u + of_nat (gap H i ?u) - 1 = (of_nat (m - 1) :: u64)"
      using m(1) last_tall_le [of H i k] by (simp add: of_nat_diff)
    then show ?thesis using walk lu Some nd by (simp add: node_at_def matches_key_equiv)
  qed
qed

text \<open>The rank of an equivalent element, or the length if there is none.\<close>

lemma find_rank_ok:
  assumes rep: "sl_rep sl q H xs" "strict_weak cmp" "in_order cmp xs" and k: "k = insert_pos cmp (score, obj) xs"
  shows "L \<le> sl_level sl \<Longrightarrow> j \<le> k \<Longrightarrow> L \<le> H ! j \<Longrightarrow>
     (\<exists>i<length xs. k \<le> i \<and> key_equiv cmp (xs ! i) (score, obj)
        \<and> find_rank cmp score obj sl L (q ! j) (of_nat j) = Some (Inr (of_nat i)))
   \<or> (0 < L \<longrightarrow> \<not> (\<exists>a\<in>set xs. key_equiv cmp a (score, obj)))
     \<and> find_rank cmp score obj sl L (q ! j) (of_nat j) = Some (Inr (sl_length sl))"
proof (induction L arbitrary: j)
  case (Suc L)
  note r = sl_repD [OF rep(1)]
  let ?u = "last_tall H L k"
  note step = find_rank_step [OF rep k Suc.prems]
  show ?case
  proof (cases "\<exists>m. nxt H L k = Some m \<and> key_equiv cmp (xs ! (m - 1)) (score, obj)")
    case True
    then obtain m where m: "nxt H L k = Some m" "key_equiv cmp (xs ! (m - 1)) (score, obj)" by blast
    then have "m - 1 < length xs" "k \<le> m - 1" using nxt_SomeD(1,2) [OF m(1)] r(2) by auto
    then show ?thesis using step m by (intro disjI1 exI [of _ "m - 1"]) simp
  next
    case False
    then have rest: "find_rank cmp score obj sl (Suc L) (q ! j) (of_nat j) = find_rank cmp score obj sl L (q ! ?u) (of_nat ?u)"
      using step by (auto split: option.split)
    have "L < H ! 0" using heights_okD(1,3) [OF r(5)] Suc.prems(1) by simp
    then have "L < H ! ?u" by (rule last_tall_tall)
    moreover have "\<not> (\<exists>a\<in>set xs. key_equiv cmp a (score, obj))" if "L = 0"
    proof
      assume "\<exists>a\<in>set xs. key_equiv cmp a (score, obj)"
      then have "k < length xs" "key_equiv cmp (xs ! k) (score, obj)"
        using key_equiv_pos [OF rep(2,3)] k by (metis in_set_conv_nth)+
      then show False using False that nxt_zero [OF r(5), of k] r(2) by simp
    qed
    ultimately show ?thesis using rest Suc.IH [of ?u] Suc.prems(1) last_tall_le [of H L k] by auto
  qed
qed simp

lemma get_rank_ok:
  assumes "sl_rep sl q H xs" "strict_weak cmp" "in_order cmp xs"
  shows "(\<exists>i<length xs. key_equiv cmp (xs ! i) (score, obj) \<and> get_rank cmp score obj sl = Some (Inr (of_nat i)))
       \<or> \<not> (\<exists>a\<in>set xs. key_equiv cmp a (score, obj)) \<and> get_rank cmp score obj sl = Some (Inr (of_nat (length xs)))"
proof -
  note r = sl_repD [OF assms(1)]
  have "0 < sl_level sl" "sl_level sl \<le> H ! 0" using heights_okD(1-3) [OF r(5)] by simp_all
  then show ?thesis
    using find_rank_ok [OF assms refl, where L = "sl_level sl" and j = 0] r(4,8) unfolding get_rank_def by force
qed

section \<open>Score ranges\<close>

lemma value_score: "value_of nd = v \<Longrightarrow> n_score nd = fst v"
  by (auto simp: value_of_def)

lemma is_in_range_ok:
  assumes "sl_rep sl q H xs"
  shows "is_in_range a b sl = Some (Inr (a \<le> b \<and> xs \<noteq> [] \<and> a \<le> fst (last xs) \<and> fst (hd xs) \<le> b))"
proof (cases "xs = []")
  case True
  then show ?thesis using sl_repD(7) [OF assms] by (auto simp: is_in_range_def)
next
  case False
  note r = sl_repD [OF assms]
  obtain nt where nt: "sl_heap sl (q ! length xs) = Some nt" "value_of nt = last xs"
    using rep_node [OF assms, of "length xs"] False by (auto simp: last_conv_nth)
  obtain nf where nf: "sl_heap sl (q ! 1) = Some nf" "value_of nf = hd xs"
    using rep_node [OF assms, of 1] False by (auto simp: hd_conv_nth Suc_leI)
  obtain s where "lev_at (sl_heap sl) (sl_header sl) 0 = Inr (Some (q ! 1), s)"
    using rep_next [OF assms, of 0] False r(4) by auto
  then show ?thesis using nt(1) nf(1) value_score [OF nt(2)] value_score [OF nf(2)] r(7) False
    by (auto simp: is_in_range_def node_at_def)
qed

text \<open>When a range contains an element, the quick test succeeds.\<close>

lemma range_nonempty:
  assumes "in_order cmp xs" "k = upto_pos (\<lambda>x. fst x < a) xs" "m = max k (upto_pos (\<lambda>x. fst x \<le> b) xs)" "k < m"
  shows "a \<le> b \<and> xs \<noteq> [] \<and> a \<le> fst (last xs) \<and> fst (hd xs) \<le> b"
proof -
  note sr = score_range [OF assms(1-3)]
  have k: "k < length xs" "a \<le> fst (xs ! k)" "fst (xs ! k) \<le> b" using sr(2) sr(3) [of k] assms(4) by auto
  have "fst (xs ! 0) \<le> fst (xs ! k)" "fst (xs ! k) \<le> fst (xs ! (length xs - 1))"
    using k in_order_scores [OF assms(1)] by auto
  moreover have "xs \<noteq> []" using k by auto
  ultimately show ?thesis using k by (auto simp: last_conv_nth hd_conv_nth)
qed

lemma first_in_range_ok:
  assumes "sl_rep sl q H xs" "in_order cmp xs"
    and km: "k = upto_pos (\<lambda>x. fst x < a) xs" "m = max k (upto_pos (\<lambda>x. fst x \<le> b) xs)"
  shows "first_in_range a b sl = Some (Inr (if k < m then Some (q ! Suc k) else None))"
proof -
  note sr = score_range [OF assms(2) km]
  have search: "sl_descend (\<lambda>nd _. n_score nd < a) (sl_heap sl) (sl_level sl) (sl_header sl) 0
      = Some (Inr (found q H k (sl_level sl), q ! k))"
    unfolding km by (rule search_prefix [OF assms(1) prefix_score_less [OF assms(2)]]) (simp add: value_of_def)
  have kn: "k \<le> length xs" using sr(1,2) by simp
  obtain s where nx: "lev_at (sl_heap sl) (q ! k) 0 = Inr (if k < length xs then Some (q ! Suc k) else None, s)"
    using rep_next [OF assms(1) kn] .
  show ?thesis
  proof (cases "k < length xs")
    case True
    obtain nd where nd: "sl_heap sl (q ! Suc k) = Some nd" "value_of nd = xs ! k"
      using rep_node [OF assms(1), of "Suc k"] True by auto
    then have "\<not> n_score nd > b \<longleftrightarrow> k < m" using sr(4) [of k] True value_score [OF nd(2)] by auto
    then show ?thesis
      using search nx nd True is_in_range_ok [OF assms(1), of a b] range_nonempty [OF assms(2) km]
      by (auto simp: first_in_range_def node_at_def)
  next
    case False
    then show ?thesis using search nx is_in_range_ok [OF assms(1), of a b] sr(1,2) by (auto simp: first_in_range_def)
  qed
qed

lemma last_in_range_ok:
  assumes "sl_rep sl q H xs" "in_order cmp xs"
    and km: "k = upto_pos (\<lambda>x. fst x < a) xs" "m = max k (upto_pos (\<lambda>x. fst x \<le> b) xs)"
  shows "last_in_range a b sl = Some (Inr (if k < m then Some (q ! m) else None))"
proof (cases "a \<le> b \<and> xs \<noteq> [] \<and> a \<le> fst (last xs) \<and> fst (hd xs) \<le> b")
  case True
  let ?m = "upto_pos (\<lambda>x. fst x \<le> b) xs"
  note sr = score_range [OF assms(2) km]
  note hi = prefix_iff_pos [OF prefix_score_le [OF assms(2)], where s1 = b]
  note lo = prefix_iff_pos [OF prefix_score_less [OF assms(2)], where s1 = a]
  have search: "sl_descend (\<lambda>nd _. n_score nd \<le> b) (sl_heap sl) (sl_level sl) (sl_header sl) 0
      = Some (Inr (found q H ?m (sl_level sl), q ! ?m))"
    by (rule search_prefix [OF assms(1) prefix_score_le [OF assms(2)]]) (simp add: value_of_def)
  have "0 < ?m" using hi [of 0] True by (auto simp: hd_conv_nth)
  then obtain nd where nd: "sl_heap sl (q ! ?m) = Some nd" "value_of nd = xs ! (?m - 1)"
    using rep_node [OF assms(1), of ?m] by auto
  have "?m - 1 < length xs" using \<open>0 < ?m\<close> upto_pos_le [of "\<lambda>x. fst x \<le> b" xs] by linarith
  then have "n_score nd < a \<longleftrightarrow> ?m \<le> k"
    using lo [of "?m - 1"] \<open>0 < ?m\<close> value_score [OF nd(2)] km(1) by auto
  moreover have "k < m \<longleftrightarrow> k < ?m" "k < m \<longrightarrow> m = ?m" using km(2) by auto
  ultimately show ?thesis
    using search nd is_in_range_ok [OF assms(1), of a b] True by (auto simp: last_in_range_def node_at_def)
next
  case False
  then show ?thesis
    using is_in_range_ok [OF assms(1), of a b] range_nonempty [OF assms(2) km] by (auto simp: last_in_range_def)
qed

text \<open>One of the loops of \<open>range_by_score\<close>, started inside the range.\<close>

lemma range_loop_ok:
  assumes "sl_rep sl q H xs"
    and m: "m \<le> length xs" "\<And>i. j \<le> i \<Longrightarrow> i < length xs \<Longrightarrow> fst (xs ! i) \<le> b \<longleftrightarrow> i < m"
    and c: "j + c \<le> m" "\<And>i. i < c \<Longrightarrow> allow (n + i)" "j + c < m \<Longrightarrow> \<not> allow (n + c)"
  shows "range_loop (sl_heap sl) b allow n (ptr q xs j) acc
       = Some (Inr (ptr q xs (j + c), acc @ map (\<lambda>i. q ! Suc i) [j..<j + c]))"
  using c m(2)
proof (induction c arbitrary: j n acc)
  case 0
  show ?case
  proof (cases "j < length xs")
    case True
    obtain nd where nd: "sl_heap sl (q ! Suc j) = Some nd" "value_of nd = xs ! j"
      using rep_node [OF assms(1), of "Suc j"] True by auto
    have "\<not> (n_score nd \<le> b \<and> allow n)" using 0(3) 0(4) [of j] True value_score [OF nd(2)] by auto
    then show ?thesis using nd(1) True by (subst range_loop.simps) (auto simp: ptr_def node_at_def)
  next
    case False
    then show ?thesis by (subst range_loop.simps) (simp add: ptr_def)
  qed
next
  case (Suc c)
  have j: "j < length xs" "j < m" using Suc.prems(1) m(1) by simp_all
  obtain nd where nd: "sl_heap sl (q ! Suc j) = Some nd" "value_of nd = xs ! j"
    using rep_node [OF assms(1), of "Suc j"] j by auto
  obtain s where nx: "lev_at (sl_heap sl) (q ! Suc j) 0 = Inr (ptr q xs (Suc j), s)"
    using rep_next [OF assms(1), of "Suc j"] j unfolding ptr_def by (metis Suc_leI)
  have "n_score nd \<le> b \<and> allow n" using Suc.prems(2) [of 0] Suc.prems(4) [of j] j value_score [OF nd(2)] by auto
  then have "range_loop (sl_heap sl) b allow n (ptr q xs j) acc
      = range_loop (sl_heap sl) b allow (Suc n) (ptr q xs (Suc j)) (acc @ [q ! Suc j])"
    using nd(1) nx j by (subst range_loop.simps) (simp add: ptr_def [of q xs j] node_at_def)
  also have "\<dots> = Some (Inr (ptr q xs (Suc j + c), (acc @ [q ! Suc j]) @ map (\<lambda>i. q ! Suc i) [Suc j..<Suc j + c]))"
    using Suc.prems(2) [of "Suc i" for i] by (intro Suc.IH) (use Suc.prems in auto)
  also have "[j..<j + Suc c] = j # [Suc j..<Suc j + c]" by (simp add: upt_conv_Cons)
  then have "(acc @ [q ! Suc j]) @ map (\<lambda>i. q ! Suc i) [Suc j..<Suc j + c] = acc @ map (\<lambda>i. q ! Suc i) [j..<j + Suc c]" by simp
  finally show ?case by simp
qed

text \<open>How many elements a limit lets through.\<close>

definition limited :: "int \<Rightarrow> nat \<Rightarrow> nat" where
  "limited limit n = (if limit = -1 then n else min (nat limit) n)"

lemma range_by_score_ok:
  assumes "sl_rep sl q H xs" "in_order cmp xs"
    and km: "k = upto_pos (\<lambda>x. fst x < a) xs" "m = max k (upto_pos (\<lambda>x. fst x \<le> b) xs)"
    and o: "off = min (unat offset) (m - k)" and l: "c = limited limit (m - k - off)"
  shows "range_by_score a b offset limit sl = Some (Inr \<lparr>r_nodes = map (\<lambda>i. q ! Suc i) [k + off..<k + off + c],
            total_in_range = of_nat (m - k)\<rparr>)"
proof -
  note sr = score_range [OF assms(2) km]
  have first: "first_in_range a b sl = Some (Inr (if k < m then Some (q ! Suc k) else None))"
    by (rule first_in_range_ok [OF assms(1-4)])
  show ?thesis
  proof (cases "k < m")
    case True
    have p: "Some (q ! Suc k) = ptr q xs k" using True sr(2) by (simp add: ptr_def)
    have "off \<le> m - k" "c \<le> m - k - off" using o l by (auto simp: limited_def)
    then have b1: "k + off \<le> m" "k + off + c \<le> m" using True by simp_all
    have 1: "range_loop (sl_heap sl) b (\<lambda>i. i < unat offset) 0 (ptr q xs k) []
        = Some (Inr (ptr q xs (k + off), [] @ map (\<lambda>i. q ! Suc i) [k..<k + off]))"
      by (rule range_loop_ok [OF assms(1) sr(2,4)]) (use o True in auto)
    have 2: "range_loop (sl_heap sl) b (\<lambda>i. limit = -1 \<or> int i < limit) 0 (ptr q xs (k + off)) []
        = Some (Inr (ptr q xs (k + off + c), [] @ map (\<lambda>i. q ! Suc i) [k + off..<k + off + c]))"
      by (rule range_loop_ok [OF assms(1) sr(2)]) (use b1 l sr(4) in \<open>auto simp: limited_def split: if_splits\<close>)
    have 3: "range_loop (sl_heap sl) b (\<lambda>_. True) 0 (ptr q xs (k + off + c)) []
        = Some (Inr (ptr q xs (k + off + c + (m - (k + off + c))), [] @ map (\<lambda>i. q ! Suc i) [k + off + c..<k + off + c + (m - (k + off + c))]))"
      by (rule range_loop_ok [OF assms(1) sr(2)]) (use b1 sr(4) in auto)
    have "off + c + (m - (k + off + c)) = m - k" using b1 by simp
    then have tot: "of_nat (length ([] @ map (\<lambda>i. q ! Suc i) [k..<k + off]) + length ([] @ map (\<lambda>i. q ! Suc i) [k + off..<k + off + c])
         + length ([] @ map (\<lambda>i. q ! Suc i) [k + off + c..<k + off + c + (m - (k + off + c))])) = (of_nat (m - k) :: u64)"
      by (simp only: append_Nil length_map length_upt) simp
    show ?thesis
      unfolding range_by_score_def first run_bind_simps if_P [OF True] option.case 1 [folded p] case_prod_conv 2 3 tot by simp
  next
    case False
    then show ?thesis using first o l by (auto simp: range_by_score_def no_result_def limited_def)
  qed
qed

section \<open>Rank ranges\<close>

lemma ranks_loop_ok:
  assumes "sl_rep sl q H xs"
  shows "\<forall>i\<in>set is. i < length xs \<Longrightarrow>
     ranks_loop sl (map of_nat is) res = Some (Inr (res\<lparr>r_nodes := r_nodes res @ map (\<lambda>i. q ! Suc i) is,
        total_in_range := total_in_range res + of_nat (length is)\<rparr>))"
proof (induction "is" arbitrary: res)
  case (Cons i "is")
  then have "unat (of_nat i :: u64) = i" using unat_of_nat_rep [OF assms, of i] by simp
  then have "get_element_by_rank (of_nat i) sl = Some (Inr (Some (q ! Suc i)))"
    using get_element_by_rank_ok [OF assms, of "of_nat i"] Cons.prems by (simp add: ptr_def)
  then show ?case using Cons by (simp add: add_ac)
qed simp

lemma range_by_rank_ok:
  assumes "sl_rep sl q H xs" and is_def: "is = [unat start..<min (Suc (unat end_param)) (length xs)]"
  shows "range_by_rank start end_param reverse sl = Some (Inr \<lparr>r_nodes = map (\<lambda>i. q ! Suc i) (if reverse then rev is else is),
           total_in_range = of_nat (length is)\<rparr>)"
proof (cases "start > end_param \<or> start \<ge> sl_length sl")
  case True
  then have "is = []" using rep_length [OF assms(1)] by (auto simp: is_def word_less_nat_alt word_le_nat_alt)
  then show ?thesis using True by (auto simp: range_by_rank_def no_result_def)
next
  case False
  define e where "e = (if end_param \<ge> sl_length sl then sl_length sl - 1 else end_param)"
  have "unat e + 1 = min (Suc (unat end_param)) (length xs)"
    using False rep_length [OF assms(1)] by (auto simp: e_def word_less_nat_alt word_le_nat_alt unat_sub_if' min_def)
  then have is_e: "is = [unat start..<unat e + 1]" by (simp only: is_def)
  have "range_by_rank start end_param reverse sl = ranks_loop sl (map of_nat (if reverse then rev is else is)) no_result"
    unfolding range_by_rank_def Let_def e_def [symmetric] is_e
    by (cases reverse) (simp_all only: if_not_P [OF False] rev_map if_True if_False)
  moreover have "\<forall>i\<in>set (if reverse then rev is else is). i < length xs" by (auto simp: is_def)
  ultimately show ?thesis using ranks_loop_ok [OF assms(1), of "if reverse then rev is else is" no_result]
    by (simp add: no_result_def split: if_splits)
qed

section \<open>Iteration, validation and release\<close>

lemma iter_next_ok:
  assumes "sl_rep sl q H xs"
  shows "sl_first sl = Inr (ptr q xs 0)" "i < length xs \<Longrightarrow> iter_next (sl_heap sl) (ptr q xs i) = Inr (ptr q xs (Suc i))"
proof -
  show "sl_first sl = Inr (ptr q xs 0)"
  proof -
    obtain s where "lev_at (sl_heap sl) (q ! 0) 0 = Inr (ptr q xs 0, s)" using rep_next [OF assms, of 0] unfolding ptr_def by blast
    then show ?thesis using sl_repD(4) [OF assms] by (simp add: sl_first_def)
  qed
  show "iter_next (sl_heap sl) (ptr q xs i) = Inr (ptr q xs (Suc i))" if i: "i < length xs"
  proof -
    obtain s where "lev_at (sl_heap sl) (q ! Suc i) 0 = Inr (ptr q xs (Suc i), s)"
      using rep_next [OF assms, of "Suc i"] i unfolding ptr_def by (metis Suc_leI)
    then show ?thesis using i by (simp add: iter_next_def ptr_def [of q xs i])
  qed
qed

lemma iter_prev_ok:
  assumes "sl_rep sl q H xs" "i < length xs"
  shows "iter_prev (sl_heap sl) (ptr q xs i) = Inr (if i = 0 then None else ptr q xs (i - 1))"
proof -
  obtain nd where "sl_heap sl (q ! Suc i) = Some nd" "n_back nd = (if Suc i = 1 then None else Some (q ! i))"
    using rep_node [OF assms(1), of "Suc i"] assms(2) by (metis Suc_leI diff_Suc_1 zero_less_Suc)
  then show ?thesis using assms(2) by (auto simp: iter_prev_def ptr_def node_at_def)
qed

lemma validate_loop_ok:
  assumes "sl_rep sl q H xs" "in_order cmp xs"
  shows "i \<le> length xs \<Longrightarrow> validate_loop (sl_heap sl) (ptr q xs i) (of_nat i) = Some (Inr (Some (of_nat (length xs))))"
proof (induction "length xs - i" arbitrary: i)
  case 0
  then show ?case by (subst validate_loop.simps) (simp add: ptr_def)
next
  case (Suc d)
  then have i: "i < length xs" by simp
  obtain nd where nd: "sl_heap sl (q ! Suc i) = Some nd" "value_of nd = xs ! i"
    using rep_node [OF assms(1), of "Suc i"] i by auto
  obtain s where nx: "lev_at (sl_heap sl) (q ! Suc i) 0 = Inr (ptr q xs (Suc i), s)"
    using rep_next [OF assms(1), of "Suc i"] i unfolding ptr_def by (metis Suc_leI)
  have "validate_loop (sl_heap sl) (ptr q xs i) (of_nat i) = validate_loop (sl_heap sl) (ptr q xs (Suc i)) (of_nat (Suc i))"
  proof (cases "Suc i < length xs")
    case True
    obtain ny where ny: "sl_heap sl (q ! Suc (Suc i)) = Some ny" "value_of ny = xs ! Suc i"
      using rep_node [OF assms(1), of "Suc (Suc i)"] True by auto
    have "\<not> n_score ny < n_score nd"
      using in_order_scores [OF assms(2), of i "Suc i"] True value_score [OF nd(2)] value_score [OF ny(2)] by (simp add: not_less)
    then show ?thesis using i nd(1) nx ny(1) True by (subst validate_loop.simps) (simp add: ptr_def node_at_def add.commute)
  next
    case False
    then show ?thesis using i nd(1) nx by (subst validate_loop.simps) (simp add: ptr_def node_at_def add.commute)
  qed
  then show ?case using Suc.hyps(1) [of "Suc i"] Suc.hyps(2) i by simp
qed

lemma validate_ok:
  assumes "sl_rep sl q H xs" "in_order cmp xs"
  shows "validate sl = Some (Inr True)"
  using validate_loop_ok [OF assms, of 0] iter_next_ok(1) [OF assms(1)] sl_repD(8) [OF assms(1)] by (simp add: validate_def)

text \<open>Releasing frees every node once and leaves nothing behind.\<close>

lemma release_loop_ok:
  assumes "sl_rep sl q H xs"
  shows "i \<le> length xs \<Longrightarrow> (\<And>m. i < m \<Longrightarrow> m \<le> length xs \<Longrightarrow> h (q ! m) = sl_heap sl (q ! m)) \<Longrightarrow>
     release_loop (ptr q xs i) h = Some (Inr (\<lambda>p. if \<exists>m. i < m \<and> m \<le> length xs \<and> p = q ! m then None else h p))"
proof (induction "length xs - i" arbitrary: i h)
  case 0
  then have "i = length xs" by simp
  then show ?case by (subst release_loop.simps) (auto simp: ptr_def intro!: ext)
next
  case (Suc d)
  then have i: "i < length xs" by simp
  note r = sl_repD [OF assms]
  obtain nd where nd: "h (q ! Suc i) = Some nd"
    using rep_node [OF assms, of "Suc i"] i Suc.prems(2) [of "Suc i"] by (metis Suc_leI lessI zero_less_Suc)
  obtain s where "lev_at (sl_heap sl) (q ! Suc i) 0 = Inr (ptr q xs (Suc i), s)"
    using rep_next [OF assms, of "Suc i"] i unfolding ptr_def by (metis Suc_leI)
  then have nx: "lev_at h (q ! Suc i) 0 = Inr (ptr q xs (Suc i), s)"
    using Suc.prems(2) [of "Suc i"] i by (simp add: lev_at_def)
  have "release_loop (ptr q xs i) h = release_loop (ptr q xs (Suc i)) (h(q ! Suc i := None))"
    using i nd nx by (subst release_loop.simps) (simp add: ptr_def [of q xs i] free_node_def)
  also have "\<dots> = Some (Inr (\<lambda>p. if \<exists>m. Suc i < m \<and> m \<le> length xs \<and> p = q ! m then None else (h(q ! Suc i := None)) p))"
  proof (rule Suc.hyps(1))
    show "(h(q ! Suc i := None)) (q ! m) = sl_heap sl (q ! m)" if "Suc i < m" "m \<le> length xs" for m
      using that Suc.prems(2) [of m] nth_eq_iff_index_eq [OF r(3), of m "Suc i"] r(1) i by auto
  qed (use Suc.hyps(2) i in auto)
  also have "(\<lambda>p. if \<exists>m. Suc i < m \<and> m \<le> length xs \<and> p = q ! m then None else (h(q ! Suc i := None)) p)
      = (\<lambda>p. if \<exists>m. i < m \<and> m \<le> length xs \<and> p = q ! m then None else h p)"
  proof (rule ext)
    fix p
    have "(\<exists>m. i < m \<and> m \<le> length xs \<and> p = q ! m) \<longleftrightarrow> p = q ! Suc i \<or> (\<exists>m. Suc i < m \<and> m \<le> length xs \<and> p = q ! m)"
      using i by (metis Suc_leI Suc_lessD Suc_lessI lessI)
    then show "(if \<exists>m. Suc i < m \<and> m \<le> length xs \<and> p = q ! m then None else (h(q ! Suc i := None)) p)
        = (if \<exists>m. i < m \<and> m \<le> length xs \<and> p = q ! m then None else h p)" by auto
  qed
  finally show ?case .
qed

lemma release_ok:
  assumes "sl_rep sl q H xs"
  shows "release sl = Some (Inr (\<lambda>_. None))"
proof -
  note r = sl_repD [OF assms]
  let ?h = "\<lambda>p. if \<exists>m. 0 < m \<and> m \<le> length xs \<and> p = q ! m then None else sl_heap sl p"
  have loop: "release_loop (ptr q xs 0) (sl_heap sl) = Some (Inr ?h)" by (rule release_loop_ok [OF assms]) simp_all
  obtain nd where "sl_heap sl (q ! 0) = Some nd" using heap_okE [OF r(6), of 0] r(1) by auto
  moreover have "\<not> (\<exists>m. 0 < m \<and> m \<le> length xs \<and> q ! 0 = q ! m)"
    using nth_eq_iff_index_eq [OF r(3), of 0] r(1) by auto
  ultimately have "free_node ?h (sl_header sl) = Inr (?h(sl_header sl := None))"
    using r(4) by (simp add: free_node_def)
  moreover have "?h(sl_header sl := None) = (\<lambda>_. None)"
  proof (rule ext)
    fix p
    have "sl_heap sl p = None \<or> (\<exists>m\<le>length xs. p = q ! m)"
      using r(6) r(1) by (auto simp: heap_ok_def dom_def in_set_conv_nth less_Suc_eq_le) (metis (mono_tags) CollectI in_set_conv_nth less_Suc_eq_le not_None_eq)
    then show "(?h(sl_header sl := None)) p = None" using r(4) by auto
  qed
  ultimately show ?thesis using loop iter_next_ok(1) [OF assms] by (simp add: release_def)
qed

end
