(* ===== verification/SkiplistProps.thy ===== *)
theory SkiplistProps
  imports SkiplistQuery
begin

text \<open>
  The skip list as a data structure: whatever is done to it, it stands for the list that a sorted list
  would hold, and its queries answer from that list. The step from one operation to a run of operations
  is made once, in the locale \<open>bounded_simulation\<close>.
\<close>

section \<open>Commands and their specification\<close>

datatype ('s, 'a) sl_cmd =
    Sl_insert "bool list" sl_cell 's 'a
  | Sl_remove 's 'a
  | Sl_remove_scores 's 's
  | Sl_remove_ranks u64 u64

text \<open>Running a command; \<open>alloc\<close> is \<open>operator new\<close>.\<close>

definition sl_exec ::
  "('a \<Rightarrow> 'a \<Rightarrow> bool) \<Rightarrow> (('s, 'a) sl_heap \<Rightarrow> nat) \<Rightarrow> ('s::linorder, 'a) sl_cmd \<Rightarrow> ('s, 'a) skiplist \<Rightarrow> ('s, 'a) skiplist run" where
  "sl_exec cmp alloc cmd sl =
     (case cmd of
        Sl_insert draws junk s x \<Rightarrow>
          run_bind (sl_insert cmp draws junk (alloc (sl_heap sl)) s x sl) (\<lambda>r. Some (Inr (fst r)))
      | Sl_remove s x \<Rightarrow> run_bind (delete_node cmp s x sl) (\<lambda>r. Some (Inr (fst r)))
      | Sl_remove_scores a b \<Rightarrow> run_bind (delete_range_by_score a b sl) (\<lambda>r. Some (Inr (fst r)))
      | Sl_remove_ranks a b \<Rightarrow> run_bind (delete_range_by_rank a b sl) (\<lambda>r. Some (Inr (fst r))))"

definition spec_exec :: "('a \<Rightarrow> 'a \<Rightarrow> bool) \<Rightarrow> ('s::linorder, 'a) sl_cmd \<Rightarrow> ('s \<times> 'a) list \<Rightarrow> ('s \<times> 'a) list" where
  "spec_exec cmp cmd xs =
     (case cmd of
        Sl_insert draws junk s x \<Rightarrow> ins (insert_pos cmp (s, x) xs) (s, x) xs
      | Sl_remove s x \<Rightarrow> if \<exists>a\<in>set xs. key_equiv cmp a (s, x) then del (insert_pos cmp (s, x) xs) xs else xs
      | Sl_remove_scores a b \<Rightarrow> filter (\<lambda>x. \<not> (a \<le> fst x \<and> fst x \<le> b)) xs
      | Sl_remove_ranks a b \<Rightarrow> take (unat a) xs @ drop (max (unat a) (Suc (unat b))) xs)"

primrec run_all :: "('op \<Rightarrow> 'c \<Rightarrow> 'c run) \<Rightarrow> 'op list \<Rightarrow> 'c \<Rightarrow> 'c run" where
  "run_all exec [] c = Some (Inr c)"
| "run_all exec (op # ops) c = run_bind (exec op c) (run_all exec ops)"

section \<open>Simulation\<close>

locale bounded_simulation =
  fixes R :: "'c \<Rightarrow> 'a \<Rightarrow> bool" and exec :: "'op \<Rightarrow> 'c \<Rightarrow> 'c run" and spec :: "'op \<Rightarrow> 'a \<Rightarrow> 'a"
    and size_of :: "'a \<Rightarrow> nat" and limit :: nat
  assumes step: "R c a \<Longrightarrow> Suc (size_of a) < limit \<Longrightarrow> \<exists>c'. exec op c = Some (Inr c') \<and> R c' (spec op a)"
    and grow: "size_of (spec op a) \<le> Suc (size_of a)"
begin

lemma run_simulates:
  "R c a \<Longrightarrow> size_of a + length ops < limit \<Longrightarrow> \<exists>c'. run_all exec ops c = Some (Inr c') \<and> R c' (fold spec ops a)"
proof (induction ops arbitrary: c a)
  case (Cons op ops)
  then obtain c1 where "exec op c = Some (Inr c1)" "R c1 (spec op a)" using step [of c a op] by auto
  moreover have "size_of (spec op a) + length ops < limit" using grow [of op a] Cons.prems(2) by simp
  ultimately show ?case using Cons.IH [of c1 "spec op a"] by auto
qed simp

end

text \<open>Memory that \<open>operator new\<close> returns is not in use.\<close>

definition fresh_alloc :: "(('s, 'a) sl_heap \<Rightarrow> nat) \<Rightarrow> bool" where
  "fresh_alloc alloc \<longleftrightarrow> (\<forall>h. finite (dom h) \<longrightarrow> h (alloc h) = None)"

text \<open>For instance the smallest unused address.\<close>

lemma fresh_alloc_least: "fresh_alloc (\<lambda>h::('s, 'a) sl_heap. LEAST p. h p = None)"
  unfolding fresh_alloc_def
proof (intro allI impI)
  fix h :: "('s, 'a) sl_heap" assume "finite (dom h)"
  then obtain p where "p \<notin> dom h" using infinite_UNIV_nat by (metis ex_new_if_finite)
  then have "h p = None" by blast
  then show "h (LEAST p. h p = None) = None" by (rule LeastI)
qed

definition skiplist_of ::
  "('a \<Rightarrow> 'a \<Rightarrow> bool) \<Rightarrow> (('s, 'a) sl_heap \<Rightarrow> nat) \<Rightarrow> ('s::linorder, 'a) skiplist \<Rightarrow> ('s \<times> 'a) list \<Rightarrow> bool" where
  "skiplist_of cmp alloc sl xs \<longleftrightarrow>
     strict_weak cmp \<and> fresh_alloc alloc \<and> in_order cmp xs \<and> (\<exists>q H. sl_rep sl q H xs)"

lemma skiplist_ofI:
  "sl_rep sl q H xs \<Longrightarrow> in_order cmp xs \<Longrightarrow> strict_weak cmp \<Longrightarrow> fresh_alloc alloc \<Longrightarrow> skiplist_of cmp alloc sl xs"
  unfolding skiplist_of_def by blast

lemma skiplist_ofE:
  assumes "skiplist_of cmp alloc sl xs"
  obtains q H where "sl_rep sl q H xs" "strict_weak cmp" "in_order cmp xs" "sl_heap sl (alloc (sl_heap sl)) = None"
proof -
  obtain q H where "sl_rep sl q H xs" using assms by (auto simp: skiplist_of_def)
  moreover have "finite (dom (sl_heap sl))" using sl_repD(6) [OF calculation] by (simp add: heap_ok_def)
  ultimately show thesis using that assms by (auto simp: skiplist_of_def fresh_alloc_def)
qed

lemma in_order_filter: "in_order cmp xs \<Longrightarrow> in_order cmp (filter P xs)"
  unfolding in_order_def by (rule sorted_wrt_filter)

lemma in_order_cut:
  assumes "in_order cmp xs"
  shows "in_order cmp (take a xs @ drop (max a b) xs)"
proof -
  have "sorted_wrt (\<lambda>a b. \<not> key_less cmp b a) (take a xs @ drop a xs)" using assms by (simp add: in_order_def)
  moreover have "set (drop (max a b) xs) \<subseteq> set (drop a xs)" by (rule set_drop_subset_set_drop) simp
  ultimately show ?thesis
    using sorted_wrt_drop [OF assms [unfolded in_order_def], of "max a b"]
    unfolding in_order_def sorted_wrt_append by blast
qed

lemma sl_exec_ok:
  assumes "skiplist_of cmp alloc sl xs" "Suc (length xs) < 2 ^ 64"
  shows "\<exists>sl'. sl_exec cmp alloc cmd sl = Some (Inr sl') \<and> skiplist_of cmp alloc sl' (spec_exec cmp cmd xs)"
proof -
  obtain q H where rep: "sl_rep sl q H xs" "strict_weak cmp" "in_order cmp xs" "sl_heap sl (alloc (sl_heap sl)) = None"
    using skiplist_ofE [OF assms(1)] .
  have al: "fresh_alloc alloc" using assms(1) by (simp add: skiplist_of_def)
  show ?thesis
  proof (cases cmd)
    case (Sl_insert draws junk s x)
    obtain sl' q' H' where *: "sl_insert cmp draws junk (alloc (sl_heap sl)) s x sl = Some (Inr (sl', alloc (sl_heap sl)))"
      "sl_rep sl' q' H' (ins (insert_pos cmp (s, x) xs) (s, x) xs)"
      using sl_insert_ok [OF rep assms(2), of draws junk s x] by blast
    show ?thesis
      using skiplist_ofI [OF *(2) in_order_ins [OF rep(2,3)] rep(2) al] *(1) Sl_insert by (simp add: sl_exec_def spec_exec_def)
  next
    case (Sl_remove s x)
    show ?thesis
    proof (cases "\<exists>a\<in>set xs. key_equiv cmp a (s, x)")
      case True
      then obtain sl' q' H' where *: "delete_node cmp s x sl = Some (Inr (sl', True))" "sl_rep sl' q' H' (del (insert_pos cmp (s, x) xs) xs)"
        using delete_node_ok [OF rep(1-3) refl, of s x] by auto
      show ?thesis
        using skiplist_ofI [OF *(2) in_order_del [OF rep(3)] rep(2) al] *(1) Sl_remove True by (simp add: sl_exec_def spec_exec_def)
    next
      case False
      then have "sl_exec cmp alloc cmd sl = Some (Inr sl)"
        using delete_node_ok [OF rep(1-3) refl, of s x] Sl_remove by (simp add: sl_exec_def)
      then show ?thesis using False Sl_remove assms(1) by (simp add: spec_exec_def)
    qed
  next
    case (Sl_remove_scores a b)
    obtain sl' q' H' n where *: "delete_range_by_score a b sl = Some (Inr (sl', n))"
      "sl_rep sl' q' H' (filter (\<lambda>x. \<not> (a \<le> fst x \<and> fst x \<le> b)) xs)"
      using delete_range_by_score_ok [OF rep(1,3), of a b] by blast
    show ?thesis
      using skiplist_ofI [OF *(2) in_order_filter [OF rep(3)] rep(2) al] *(1) Sl_remove_scores by (simp add: sl_exec_def spec_exec_def)
  next
    case (Sl_remove_ranks a b)
    obtain sl' q' H' n where *: "delete_range_by_rank a b sl = Some (Inr (sl', n))"
      "sl_rep sl' q' H' (take (unat a) xs @ drop (max (unat a) (Suc (unat b))) xs)"
      using delete_range_by_rank_ok [OF rep(1), of a b] by blast
    show ?thesis
      using skiplist_ofI [OF *(2) in_order_cut [OF rep(3)] rep(2) al] *(1) Sl_remove_ranks by (simp add: sl_exec_def spec_exec_def)
  qed
qed

lemma spec_exec_grow: "length (spec_exec cmp cmd xs) \<le> Suc (length xs)"
proof (cases cmd)
  case (Sl_remove s x)
  have "length (del k xs) \<le> Suc (length xs)" for k by (auto simp: del_def min_def)
  then show ?thesis using Sl_remove by (simp add: spec_exec_def)
next
  case (Sl_remove_scores a b)
  then show ?thesis by (simp add: spec_exec_def le_SucI)
qed (auto simp: spec_exec_def)

interpretation slr: bounded_simulation "skiplist_of cmp alloc" "sl_exec cmp alloc" "spec_exec cmp" length "2 ^ 64"
  for cmp alloc
  by unfold_locales (use sl_exec_ok spec_exec_grow in blast)+

lemma skiplist_of_new:
  "strict_weak cmp \<Longrightarrow> fresh_alloc alloc \<Longrightarrow> skiplist_of cmp alloc (sl_new zero dflt hdr) []"
  unfolding skiplist_of_def using sl_rep_new [of zero dflt hdr] by (auto simp: in_order_def intro: exI)

section \<open>Properties\<close>

definition value_at :: "('s, 'a) skiplist \<Rightarrow> nat \<Rightarrow> ('s \<times> 'a) option" where
  "value_at sl p = map_option value_of (sl_heap sl p)"

lemma value_at_node:
  assumes "sl_rep sl q H xs" "i < length xs"
  shows "value_at sl (q ! Suc i) = Some (xs ! i)"
  using rep_node [OF assms(1), of "Suc i"] assms(2) by (auto simp: value_at_def)

lemma value_at_ptr: "sl_rep sl q H xs \<Longrightarrow> Option.bind (ptr q xs i) (value_at sl) = (if i < length xs then Some (xs ! i) else None)"
  using value_at_node by (auto simp: ptr_def)

text \<open>
  C1. The skip list implements a sorted list: after any sequence of insertions and deletions (of single
  elements, of score ranges, of rank ranges), with any comparison that is a strict weak order, any random
  levels and any allocator that returns unused addresses, every call has returned and no access left a
  node or followed a freed pointer; the elements in rank order are exactly those that the same sequence
  leaves in a sorted list, \<open>size()\<close> is their number, \<open>validate()\<close> holds, and \<open>release()\<close> frees every
  node exactly once and leaves no memory behind.
\<close>

theorem skiplist_refines_sorted_list:
  fixes cmds :: "('s::linorder, 'a) sl_cmd list"
  assumes "strict_weak cmp" "fresh_alloc alloc" "length cmds < 2 ^ 64"
  shows "\<exists>sl. run_all (sl_exec cmp alloc) cmds (sl_new zero dflt hdr) = Some (Inr sl)
       \<and> (let xs = fold (spec_exec cmp) cmds [] in
            in_order cmp xs
          \<and> (\<forall>rank. \<exists>p. get_element_by_rank rank sl = Some (Inr p)
               \<and> Option.bind p (value_at sl) = (if unat rank < length xs then Some (xs ! unat rank) else None))
          \<and> unat (sl_length sl) = length xs \<and> validate sl = Some (Inr True) \<and> release sl = Some (Inr (\<lambda>_. None)))"
proof -
  obtain sl where run: "run_all (sl_exec cmp alloc) cmds (sl_new zero dflt hdr) = Some (Inr sl)"
    and of: "skiplist_of cmp alloc sl (fold (spec_exec cmp) cmds [])"
    using slr.run_simulates [OF skiplist_of_new [OF assms(1,2), of zero dflt hdr], of cmds] assms(3) by auto
  obtain q H where rep: "sl_rep sl q H (fold (spec_exec cmp) cmds [])" "in_order cmp (fold (spec_exec cmp) cmds [])"
    using skiplist_ofE [OF of] .
  show ?thesis
    using run rep(2) get_element_by_rank_ok [OF rep(1)] value_at_ptr [OF rep(1)] rep_length [OF rep(1)]
      validate_ok [OF rep] release_ok [OF rep(1)]
    by (simp add: Let_def)
qed

theorem skiplist_refines_sorted_list_witness:
  "\<exists>sl. run_all (sl_exec (\<lambda>x y. x < (y::nat)) (\<lambda>h. LEAST p. h p = None))
         [Sl_insert [True] (None, 0) (2::int) 7, Sl_insert [] (None, 0) 1 8, Sl_remove 2 7] (sl_new 0 0 0) = Some (Inr sl)
     \<and> validate sl = Some (Inr True)"
  using skiplist_refines_sorted_list [OF strict_weak_less fresh_alloc_least,
      of "[Sl_insert [True] (None, 0) (2::int) 7, Sl_insert [] (None, 0) 1 8, Sl_remove 2 7]" 0 0 0]
  by (auto simp: Let_def)

definition take_limit :: "int \<Rightarrow> 'b list \<Rightarrow> 'b list" where
  "take_limit limit ys = (if limit = -1 then ys else take (nat limit) ys)"

lemma take_limit_limited: "take_limit limit ys = take (limited limit (length ys)) ys"
  by (simp add: take_limit_def limited_def min_def)

lemma map_value_at:
  assumes "sl_rep sl q H xs" "\<forall>i\<in>set is. i < length xs"
  shows "map (value_at sl) (map (\<lambda>i. q ! Suc i) is) = map Some (map ((!) xs) is)"
  using assms(2) value_at_node [OF assms(1)] by simp

lemma map_nth_upt: "b \<le> length xs \<Longrightarrow> map ((!) xs) [a..<b] = take (b - a) (drop a xs)"
  by (rule nth_equalityI) auto

lemma range_by_score_values:
  assumes "sl_rep sl q H xs" "in_order cmp xs"
  shows "\<exists>ns. range_by_score a b offset limit sl
            = Some (Inr \<lparr>r_nodes = ns, total_in_range = of_nat (length (filter (\<lambda>x. a \<le> fst x \<and> fst x \<le> b) xs))\<rparr>)
          \<and> map (value_at sl) ns = map Some (take_limit limit (drop (unat offset) (filter (\<lambda>x. a \<le> fst x \<and> fst x \<le> b) xs)))"
proof -
  define k where "k = upto_pos (\<lambda>x. fst x < a) xs"
  define m where "m = max k (upto_pos (\<lambda>x. fst x \<le> b) xs)"
  define off where "off = min (unat offset) (m - k)"
  define c where "c = limited limit (m - k - off)"
  note sr = score_range [OF assms(2) k_def m_def]
  note f = filter_interval(1) [OF sr(3,1,2)]
  let ?is = "[k + off..<k + off + c]"
  have c: "k + off + c \<le> m" using sr(1) by (auto simp: c_def off_def limited_def)
  have "map ((!) xs) ?is = take c (drop (k + off) xs)" using map_nth_upt [of "k + off + c" xs "k + off"] c sr(2) by simp
  also have "\<dots> = take c (drop off (take (m - k) (drop k xs)))" using c by (simp add: drop_take add.commute min_absorb1)
  also have "drop off (take (m - k) (drop k xs)) = drop (unat offset) (take (m - k) (drop k xs))"
    using sr(1,2) by (cases "unat offset \<le> m - k") (simp_all add: off_def)
  also have "take c (drop (unat offset) (take (m - k) (drop k xs))) = take_limit limit (drop (unat offset) (take (m - k) (drop k xs)))"
  proof -
    have "length (drop (unat offset) (take (m - k) (drop k xs))) = m - k - off" using sr(1,2) by (auto simp: off_def)
    then show ?thesis by (simp only: take_limit_limited c_def)
  qed
  finally have vals: "map ((!) xs) ?is = take_limit limit (drop (unat offset) (filter (\<lambda>x. a \<le> fst x \<and> fst x \<le> b) xs))"
    by (simp add: f)
  have "length (filter (\<lambda>x. a \<le> fst x \<and> fst x \<le> b) xs) = m - k" using f sr(1,2) by simp
  then show ?thesis
    using range_by_score_ok [OF assms k_def m_def off_def c_def] map_value_at [OF assms(1), of ?is] vals c sr(2)
    by (intro exI [of _ "map (\<lambda>i. q ! Suc i) ?is"]) auto
qed

lemma range_by_rank_values:
  assumes "sl_rep sl q H xs"
  shows "\<exists>ns. range_by_rank start end_param reverse sl
            = Some (Inr \<lparr>r_nodes = ns, total_in_range = of_nat (length ns)\<rparr>)
          \<and> map (value_at sl) ns = map Some ((if reverse then rev else id) (take (Suc (unat end_param) - unat start) (drop (unat start) xs)))"
proof -
  let ?is = "[unat start..<min (Suc (unat end_param)) (length xs)]"
  let ?ns = "map (\<lambda>i. q ! Suc i) (if reverse then rev ?is else ?is)"
  have "map ((!) xs) ?is = take (min (Suc (unat end_param)) (length xs) - unat start) (drop (unat start) xs)"
    by (rule map_nth_upt) simp
  also have "\<dots> = take (Suc (unat end_param) - unat start) (drop (unat start) xs)" by (simp add: min_def)
  finally have "map ((!) xs) (if reverse then rev ?is else ?is)
      = (if reverse then rev else id) (take (Suc (unat end_param) - unat start) (drop (unat start) xs))"
    by (simp add: rev_map [symmetric])
  moreover have "map (value_at sl) ?ns = map Some (map ((!) xs) (if reverse then rev ?is else ?is))"
    by (rule map_value_at [OF assms]) auto
  ultimately show ?thesis using range_by_rank_ok [OF assms refl, of start end_param reverse]
    by (intro exI [of _ ?ns]) simp
qed

lemma ends_in_range_values:
  assumes "sl_rep sl q H xs" "in_order cmp xs"
  shows "\<exists>p. first_in_range a b sl = Some (Inr p)
           \<and> Option.bind p (value_at sl) = (case filter (\<lambda>x. a \<le> fst x \<and> fst x \<le> b) xs of [] \<Rightarrow> None | x # ys \<Rightarrow> Some x)"
    and "\<exists>p. last_in_range a b sl = Some (Inr p)
           \<and> Option.bind p (value_at sl) = (case rev (filter (\<lambda>x. a \<le> fst x \<and> fst x \<le> b) xs) of [] \<Rightarrow> None | x # ys \<Rightarrow> Some x)"
proof -
  define k where "k = upto_pos (\<lambda>x. fst x < a) xs"
  define m where "m = max k (upto_pos (\<lambda>x. fst x \<le> b) xs)"
  note sr = score_range [OF assms(2) k_def m_def]
  note f = filter_interval(1) [OF sr(3,1,2)]
  have "take (m - k) (drop k xs) = (if k < m then xs ! k # take (m - Suc k) (drop (Suc k) xs) else [])"
    using sr(2) by (auto simp: take_Cons' Cons_nth_drop_Suc [symmetric])
  then show "\<exists>p. first_in_range a b sl = Some (Inr p)
           \<and> Option.bind p (value_at sl) = (case filter (\<lambda>x. a \<le> fst x \<and> fst x \<le> b) xs of [] \<Rightarrow> None | x # ys \<Rightarrow> Some x)"
    using first_in_range_ok [OF assms k_def m_def] value_at_node [OF assms(1), of k] sr(2) by (simp add: f)
  have "rev (take (m - k) (drop k xs)) = (if k < m then xs ! (m - 1) # rev (take (m - Suc k) (drop k xs)) else [])"
  proof (cases "k < m")
    case True
    then have "take (m - k) (drop k xs) = take (m - Suc k) (drop k xs) @ [xs ! (m - 1)]"
      using sr(2) take_Suc_conv_app_nth [of "m - Suc k" "drop k xs"] by (simp add: Suc_diff_Suc)
    then show ?thesis using True by simp
  qed simp
  then show "\<exists>p. last_in_range a b sl = Some (Inr p)
           \<and> Option.bind p (value_at sl) = (case rev (filter (\<lambda>x. a \<le> fst x \<and> fst x \<le> b) xs) of [] \<Rightarrow> None | x # ys \<Rightarrow> Some x)"
    using last_in_range_ok [OF assms k_def m_def] value_at_node [OF assms(1), of "m - 1"] sr(2) by (auto simp: f)
qed

text \<open>
  C18. The queries answer from that list: \<open>get_rank\<close> returns the rank of an element equivalent to the key,
  or the length if there is none; \<open>first_in_range\<close> and \<open>last_in_range\<close> return the first and the last element
  of the score range; \<open>range_by_score\<close> returns the elements of the range after the offset, up to the limit,
  and the size of the whole range; \<open>range_by_rank\<close> returns the slice of the ranks, forwards or backwards.
\<close>

theorem skiplist_queries:
  fixes sl :: "('s::linorder, 'a) skiplist"
  assumes "skiplist_of cmp alloc sl xs"
  shows "(\<exists>r. get_rank cmp s x sl = Some (Inr (of_nat r))
            \<and> (if \<exists>y\<in>set xs. key_equiv cmp y (s, x) then r < length xs \<and> key_equiv cmp (xs ! r) (s, x) else r = length xs))
       \<and> (let ys = filter (\<lambda>y. a \<le> fst y \<and> fst y \<le> b) xs in
            (\<exists>p. first_in_range a b sl = Some (Inr p)
               \<and> Option.bind p (value_at sl) = (case ys of [] \<Rightarrow> None | y # _ \<Rightarrow> Some y))
          \<and> (\<exists>p. last_in_range a b sl = Some (Inr p)
               \<and> Option.bind p (value_at sl) = (case rev ys of [] \<Rightarrow> None | y # _ \<Rightarrow> Some y))
          \<and> (\<exists>ns. range_by_score a b offset limit sl = Some (Inr \<lparr>r_nodes = ns, total_in_range = of_nat (length ys)\<rparr>)
               \<and> map (value_at sl) ns = map Some (take_limit limit (drop (unat offset) ys))))
       \<and> (\<exists>ns. range_by_rank i j reverse sl = Some (Inr \<lparr>r_nodes = ns, total_in_range = of_nat (length ns)\<rparr>)
            \<and> map (value_at sl) ns = map Some ((if reverse then rev else id) (take (Suc (unat j) - unat i) (drop (unat i) xs))))"
proof -
  obtain q H where rep: "sl_rep sl q H xs" "strict_weak cmp" "in_order cmp xs" using skiplist_ofE [OF assms] .
  have rank: "\<exists>r. get_rank cmp s x sl = Some (Inr (of_nat r))
      \<and> (if \<exists>y\<in>set xs. key_equiv cmp y (s, x) then r < length xs \<and> key_equiv cmp (xs ! r) (s, x) else r = length xs)"
    using get_rank_ok [OF rep, of s x] by (metis nth_mem)
  show ?thesis
    using rank ends_in_range_values [OF rep(1,3), of a b] range_by_score_values [OF rep(1,3), of a b offset limit]
      range_by_rank_values [OF rep(1), of i j reverse]
    unfolding Let_def by blast
qed

theorem skiplist_queries_witness:
  "\<exists>sl. run_all (sl_exec (\<lambda>x y. x < (y::nat)) (\<lambda>h. LEAST p. h p = None))
         [Sl_insert [True] (None, 0) (2::int) 7, Sl_insert [] (None, 0) 1 8] (sl_new 0 0 0) = Some (Inr sl)
     \<and> get_rank (\<lambda>x y. x < y) 2 7 sl = Some (Inr 1)"
proof -
  let ?cmds = "[Sl_insert [True] (None, 0) (2::int) (7::nat), Sl_insert [] (None, 0) 1 8]"
  have xs: "fold (spec_exec (\<lambda>x y. x < y)) ?cmds [] = [(1, 8), (2, 7)]"
    by (simp add: spec_exec_def upto_pos_def ins_def key_less_def)
  obtain sl where sl: "run_all (sl_exec (\<lambda>x y. x < y) (\<lambda>h. LEAST p. h p = None)) ?cmds (sl_new 0 0 0) = Some (Inr sl)"
    "skiplist_of (\<lambda>x y. x < y) (\<lambda>h. LEAST p. h p = None) sl [(1, 8), (2, 7)]"
    using slr.run_simulates [OF skiplist_of_new [OF strict_weak_less fresh_alloc_least, of 0 0 0], of ?cmds] xs by auto
  obtain r where "get_rank (\<lambda>x y. x < y) 2 7 sl = Some (Inr (of_nat r))" "r < 2"
    "key_equiv (\<lambda>x y. x < (y::nat)) ([(1, 8), (2::int, 7)] ! r) (2, 7)"
    using conjunct1 [OF skiplist_queries [OF sl(2), of 2 7]] by (auto simp: key_equiv_def numeral_2_eq_2)
  then show ?thesis using sl(1) by (auto simp: less_2_cases_iff key_equiv_def)
qed

end
