(* ===== verification/Astar.thy ===== *)
theory Astar
  imports Complex_Main HjPrelude
begin

text \<open>
  \<open>src/hj/algo/astar.hpp\<close>: locations, heuristics, path smoothing, the weighted grid with obstacles and
  the A* search over it.

  A \<open>double\<close> is a real number, an infinity or not a number. The sum of two finite costs is rounded by a
  parameter \<open>rnd\<close>, of which the theorems assume what IEEE 754 says of rounding; \<open>long double\<close> arithmetic is
  rounded by a parameter \<open>ld\<close>. Hash maps and hash sets, which the source only looks up and never iterates
  over, are maps and sets. The priority queue is the sorted list of its elements: its order is total on
  the pairs of cost and location that occur, so its minimum is determined.

  The class template \<open>search\<close> is modelled on the class \<open>grid\<close> of the same header. A heuristic may throw;
  \<open>should_cancel\<close> may answer differently each time, so it is a function of the number of earlier calls.
  The search loop is a partial function, \<open>None\<close> meaning that it does not end.
\<close>

section \<open>Definitions\<close>

subsection \<open>Costs\<close>

datatype cost_t = Fin real | Pos_inf | Neg_inf | NaN

definition isfinite :: "cost_t \<Rightarrow> bool" where
  "isfinite c \<longleftrightarrow> (case c of Fin _ \<Rightarrow> True | _ \<Rightarrow> False)"

text \<open>The comparison \<open>a < b\<close> of two doubles, false when one of them is not a number.\<close>

fun cost_lt :: "cost_t \<Rightarrow> cost_t \<Rightarrow> bool" where
  "cost_lt (Fin a) (Fin b) \<longleftrightarrow> a < b"
| "cost_lt (Fin _) Pos_inf \<longleftrightarrow> True"
| "cost_lt Neg_inf (Fin _) \<longleftrightarrow> True"
| "cost_lt Neg_inf Pos_inf \<longleftrightarrow> True"
| "cost_lt _ _ \<longleftrightarrow> False"

fun cost_add :: "(real \<Rightarrow> cost_t) \<Rightarrow> cost_t \<Rightarrow> cost_t \<Rightarrow> cost_t" where
  "cost_add rnd (Fin a) (Fin b) = rnd (a + b)"
| "cost_add rnd (Fin _) d = d"
| "cost_add rnd c (Fin _) = c"
| "cost_add rnd Pos_inf Pos_inf = Pos_inf"
| "cost_add rnd Neg_inf Neg_inf = Neg_inf"
| "cost_add rnd _ _ = NaN"

subsection \<open>Locations and heuristics\<close>

datatype location = Location (loc_x: int) (loc_y: int)

instantiation location :: linorder
begin

definition less_location :: "location \<Rightarrow> location \<Rightarrow> bool" where
  "less_location a b \<longleftrightarrow> (if loc_x a \<noteq> loc_x b then loc_x a < loc_x b else loc_y a < loc_y b)"

definition less_eq_location :: "location \<Rightarrow> location \<Rightarrow> bool" where
  "less_eq_location a b \<longleftrightarrow> a < b \<or> a = b"

instance
proof
  fix a b c :: location
  show "(a < b) = (a \<le> b \<and> \<not> b \<le> a)" "a \<le> a" "a \<le> b \<Longrightarrow> b \<le> c \<Longrightarrow> a \<le> c"
    "a \<le> b \<Longrightarrow> b \<le> a \<Longrightarrow> a = b" "a \<le> b \<or> b \<le> a"
    by (cases a; cases b; cases c; auto simp: less_location_def less_eq_location_def split: if_splits)+
qed

end

text \<open>The distance along one axis, computed in \<open>int\<close>.\<close>

definition axis_distance :: "int \<Rightarrow> int \<Rightarrow> int result" where
  "axis_distance a b =
     (let d = (if a \<ge> b then a - b else b - a) in if d > int INT_MAX then Inl Signed_overflow else Inr d)"

definition manhattan_heuristic :: "(real \<Rightarrow> cost_t) \<Rightarrow> location \<Rightarrow> location \<Rightarrow> cost_t result" where
  "manhattan_heuristic rnd a b =
     (case axis_distance (loc_x a) (loc_x b) of
        Inl err \<Rightarrow> Inl err
      | Inr dx \<Rightarrow> (case axis_distance (loc_y a) (loc_y b) of
                     Inl err \<Rightarrow> Inl err
                   | Inr dy \<Rightarrow> Inr (cost_add rnd (Fin (of_int dx)) (Fin (of_int dy)))))"

definition euclidean_heuristic :: "(real \<Rightarrow> cost_t) \<Rightarrow> (real \<Rightarrow> real) \<Rightarrow> location \<Rightarrow> location \<Rightarrow> cost_t result" where
  "euclidean_heuristic rnd ld a b =
     (let dx = ld (ld (of_int (loc_x a)) - ld (of_int (loc_x b)));
          dy = ld (ld (of_int (loc_y a)) - ld (of_int (loc_y b)))
      in Inr (rnd (ld (sqrt (ld (ld (dx * dx) + ld (dy * dy)))))))"

text \<open>The loop of \<open>smooth\<close> over the inner points, each with its two neighbours.\<close>

definition ld_diff :: "(real \<Rightarrow> real) \<Rightarrow> int \<Rightarrow> int \<Rightarrow> real" where
  "ld_diff ld a b = ld (ld (of_int a) - ld (of_int b))"

definition keeps_turn :: "(real \<Rightarrow> real) \<Rightarrow> location \<Rightarrow> location \<Rightarrow> location \<Rightarrow> bool" where
  "keeps_turn ld prev cur nxt =
     (let dx1 = ld_diff ld (loc_x cur) (loc_x prev); dy1 = ld_diff ld (loc_y cur) (loc_y prev);
          dx2 = ld_diff ld (loc_x nxt) (loc_x cur); dy2 = ld_diff ld (loc_y nxt) (loc_y cur)
      in ld (dx1 * dy2) \<noteq> ld (dy1 * dx2))"

fun smooth_inner :: "(real \<Rightarrow> real) \<Rightarrow> location list \<Rightarrow> location list" where
  "smooth_inner ld (prev # cur # nxt # rest) =
     (if keeps_turn ld prev cur nxt then [cur] else []) @ smooth_inner ld (cur # nxt # rest)"
| "smooth_inner ld path = []"

definition smooth :: "(real \<Rightarrow> real) \<Rightarrow> location list \<Rightarrow> location list" where
  "smooth ld path = (if length path \<le> 2 then path else hd path # smooth_inner ld path @ [last path])"

subsection \<open>The priority queue\<close>

type_synonym 'l pq = "(cost_t \<times> 'l) list"

text \<open>\<open>operator<\<close> of \<open>std::pair\<close>.\<close>

definition elem_lt :: "cost_t \<times> 'l::linorder \<Rightarrow> cost_t \<times> 'l \<Rightarrow> bool" where
  "elem_lt a b \<longleftrightarrow> cost_lt (fst a) (fst b) \<or> \<not> cost_lt (fst b) (fst a) \<and> snd a < snd b"

fun pq_put :: "cost_t \<times> 'l::linorder \<Rightarrow> 'l pq \<Rightarrow> 'l pq" where
  "pq_put e [] = [e]"
| "pq_put e (d # q) = (if elem_lt d e then d # pq_put e q else e # d # q)"

definition pq_get :: "'l pq \<Rightarrow> ('l \<times> 'l pq) result" where
  "pq_get q = (case q of [] \<Rightarrow> Inl Assert_failed | e # q' \<Rightarrow> Inr (snd e, q'))"

subsection \<open>The grid\<close>

record 'l grid =
  adjacency_list :: "'l \<rightharpoonup> 'l list"
  edge_weights :: "'l \<times> 'l \<rightharpoonup> cost_t"
  obstacles :: "'l set"

definition grid_empty :: "'l grid" where
  "grid_empty = \<lparr>adjacency_list = Map.empty, edge_weights = Map.empty, obstacles = {}\<rparr>"

text \<open>\<open>adjacency_list[loc];\<close> as a statement.\<close>

definition touch :: "'l \<Rightarrow> 'l grid \<Rightarrow> 'l grid" where
  "touch loc g =
     (if adjacency_list g loc = None then g\<lparr>adjacency_list := (adjacency_list g)(loc \<mapsto> [])\<rparr> else g)"

definition grid_new :: "int \<Rightarrow> int \<Rightarrow> location grid result" where
  "grid_new width height =
     (if width \<le> 0 \<or> height \<le> 0 then Inl Throw_invalid_argument
      else Inr (fold (\<lambda>y g. fold (\<lambda>x. touch (Location x y)) [0..width - 1] g) [0..height - 1] grid_empty))"

definition add_location :: "'l \<Rightarrow> 'l list \<Rightarrow> 'l grid \<Rightarrow> 'l grid" where
  "add_location loc nbs g = g\<lparr>adjacency_list := (adjacency_list g)(loc \<mapsto> nbs)\<rparr>"

definition add_obstacles :: "'l list \<Rightarrow> 'l grid \<Rightarrow> 'l grid" where
  "add_obstacles obs g = fold (\<lambda>ob g. g\<lparr>obstacles := insert ob (obstacles g)\<rparr>) obs g"

definition is_walkable :: "'l grid \<Rightarrow> 'l \<Rightarrow> bool" where
  "is_walkable g loc \<longleftrightarrow> adjacency_list g loc \<noteq> None \<and> loc \<notin> obstacles g"

definition set_edge_weight :: "'l \<Rightarrow> 'l \<Rightarrow> cost_t \<Rightarrow> 'l grid \<Rightarrow> bool \<times> 'l grid" where
  "set_edge_weight from to w g =
     (if \<not> isfinite w \<or> cost_lt w (Fin 0) then (False, g)
      else (True, g\<lparr>edge_weights := (edge_weights g)((from, to) \<mapsto> w)\<rparr>))"

definition neighbors :: "'l grid \<Rightarrow> 'l \<Rightarrow> 'l list result" where
  "neighbors g loc = (case adjacency_list g loc of None \<Rightarrow> Inl Throw_out_of_range | Some nbs \<Rightarrow> Inr nbs)"

definition grid_cost :: "'l grid \<Rightarrow> 'l \<Rightarrow> 'l \<Rightarrow> cost_t" where
  "grid_cost g from to =
     (if to \<in> obstacles g then Pos_inf
      else case edge_weights g (from, to) of Some w \<Rightarrow> w | None \<Rightarrow> Fin 1)"

subsection \<open>The search\<close>

datatype search_result =
  Found | Not_found | Invalid_start | Invalid_goal | Invalid_graph | Invalid_cost | Invalid_heuristic
  | Resource_limit_exceeded | Cancelled

fun to_string :: "search_result \<Rightarrow> string" where
  "to_string Found = ''found''"
| "to_string Not_found = ''not_found''"
| "to_string Invalid_start = ''invalid_start''"
| "to_string Invalid_goal = ''invalid_goal''"
| "to_string Invalid_graph = ''invalid_graph''"
| "to_string Invalid_cost = ''invalid_cost''"
| "to_string Invalid_heuristic = ''invalid_heuristic''"
| "to_string Resource_limit_exceeded = ''resource_limit_exceeded''"
| "to_string Cancelled = ''cancelled''"

record 'l search_options =
  heuristic :: "'l \<Rightarrow> 'l \<Rightarrow> cost_t result"
  max_expansions :: nat
  should_cancel :: "(nat \<Rightarrow> bool) option"

definition default_options :: "(real \<Rightarrow> cost_t) \<Rightarrow> location search_options" where
  "default_options rnd =
     \<lparr>heuristic = manhattan_heuristic rnd, max_expansions = 0, should_cancel = Some (\<lambda>_. False)\<rparr>"

record 'l search_state =
  frontier :: "'l pq"
  came_from :: "'l \<rightharpoonup> 'l"
  cost_so_far :: "'l \<rightharpoonup> cost_t"
  closed :: "'l set"
  expansions :: nat
  polls :: nat

text \<open>\<open>cost_so_far[current]\<close> enters a missing key with the value 0.\<close>

definition cost_entry :: "'l \<Rightarrow> 'l search_state \<Rightarrow> cost_t \<times> 'l search_state" where
  "cost_entry loc s =
     (case cost_so_far s loc of
        Some c \<Rightarrow> (c, s)
      | None \<Rightarrow> (Fin 0, s\<lparr>cost_so_far := (cost_so_far s)(loc \<mapsto> Fin 0)\<rparr>))"

text \<open>One round of the loop over the neighbours; \<open>Inl\<close> is an early return.\<close>

definition relax ::
  "(real \<Rightarrow> cost_t) \<Rightarrow> 'l::linorder grid \<Rightarrow> ('l \<Rightarrow> 'l \<Rightarrow> cost_t result) \<Rightarrow> 'l \<Rightarrow> 'l \<Rightarrow> 'l \<Rightarrow> 'l search_state
   \<Rightarrow> (search_result + 'l search_state) result" where
  "relax rnd g heur goal current nxt s =
     (if \<not> is_walkable g nxt then Inr (Inr s)
      else let edge_cost = grid_cost g current nxt in
        if \<not> isfinite edge_cost then Inr (Inr s)
        else let (c, s) = cost_entry current s; new_cost = cost_add rnd c edge_cost in
          if \<not> isfinite new_cost \<or> cost_lt new_cost (Fin 0) then Inr (Inl Invalid_cost)
          else if (case cost_so_far s nxt of None \<Rightarrow> True | Some old \<Rightarrow> cost_lt new_cost old) then
            (let s = s\<lparr>cost_so_far := (cost_so_far s)(nxt \<mapsto> new_cost),
                       came_from := (came_from s)(nxt \<mapsto> current)\<rparr>
             in case heur nxt goal of
                  Inl err \<Rightarrow> Inl err
                | Inr h \<Rightarrow>
                    if \<not> isfinite h \<or> cost_lt h (Fin 0) then Inr (Inl Invalid_heuristic)
                    else Inr (Inr (s\<lparr>frontier := pq_put (cost_add rnd new_cost h, nxt) (frontier s)\<rparr>)))
          else Inr (Inr s))"

primrec relax_all ::
  "(real \<Rightarrow> cost_t) \<Rightarrow> 'l::linorder grid \<Rightarrow> ('l \<Rightarrow> 'l \<Rightarrow> cost_t result) \<Rightarrow> 'l \<Rightarrow> 'l \<Rightarrow> 'l list \<Rightarrow> 'l search_state
   \<Rightarrow> (search_result + 'l search_state) result" where
  "relax_all rnd g heur goal current [] s = Inr (Inr s)"
| "relax_all rnd g heur goal current (nxt # nbs) s =
     (case relax rnd g heur goal current nxt s of
        Inl err \<Rightarrow> Inl err
      | Inr (Inl r) \<Rightarrow> Inr (Inl r)
      | Inr (Inr s') \<Rightarrow> relax_all rnd g heur goal current nbs s')"

text \<open>One round of the main loop with a frontier that is not empty.\<close>

datatype 'l round = Continued 'l | Broke 'l | Returned search_result

definition search_round ::
  "(real \<Rightarrow> cost_t) \<Rightarrow> 'l::linorder grid \<Rightarrow> 'l search_options \<Rightarrow> 'l \<Rightarrow> 'l search_state
   \<Rightarrow> 'l search_state round result" where
  "search_round rnd g opts goal s =
     (case pq_get (frontier s) of
        Inl err \<Rightarrow> Inl err
      | Inr (current, q) \<Rightarrow>
          let s = s\<lparr>frontier := q\<rparr> in
          if current \<in> closed s then Inr (Continued s)
          else let s = s\<lparr>closed := insert current (closed s)\<rparr> in
            if current = goal then Inr (Broke s)
            else if (case should_cancel opts of None \<Rightarrow> False | Some ask \<Rightarrow> ask (polls s)) then Inr (Returned Cancelled)
            else let s = s\<lparr>polls := (if should_cancel opts = None then polls s else polls s + 1),
                           expansions := (if max_expansions opts \<noteq> 0 then expansions s + 1 else expansions s)\<rparr> in
              if max_expansions opts \<noteq> 0 \<and> expansions s > max_expansions opts
              then Inr (Returned Resource_limit_exceeded)
              else case neighbors g current of
                     Inl err \<Rightarrow> Inl err
                   | Inr nbs \<Rightarrow>
                       (case relax_all rnd g (heuristic opts) goal current nbs s of
                          Inl err \<Rightarrow> Inl err
                        | Inr (Inl r) \<Rightarrow> Inr (Returned r)
                        | Inr (Inr s') \<Rightarrow> Inr (Continued s')))"

partial_function (option) search_loop ::
  "(real \<Rightarrow> cost_t) \<Rightarrow> 'l::linorder grid \<Rightarrow> 'l search_options \<Rightarrow> 'l \<Rightarrow> 'l search_state
   \<Rightarrow> (search_result + 'l search_state) result option" where
  "search_loop rnd g opts goal s =
     (if frontier s = [] then Some (Inr (Inr s))
      else case search_round rnd g opts goal s of
             Inl err \<Rightarrow> Some (Inl err)
           | Inr (Returned r) \<Rightarrow> Some (Inr (Inl r))
           | Inr (Broke s') \<Rightarrow> Some (Inr (Inr s'))
           | Inr (Continued s') \<Rightarrow> search_loop rnd g opts goal s')"

text \<open>The path from the goal back to the start; \<open>path\<close> is what has been pushed so far.\<close>

function trace_back ::
  "('l \<rightharpoonup> 'l) \<Rightarrow> 'l \<Rightarrow> nat \<Rightarrow> 'l \<Rightarrow> nat \<Rightarrow> 'l list \<Rightarrow> 'l list \<times> search_result" where
  "trace_back came start max_hops current hops path =
     (if current = start then (rev (path @ [start]), Found)
      else if hops + 1 > max_hops then (path @ [current], Invalid_graph)
      else case came current of
             None \<Rightarrow> (path @ [current], Invalid_graph)
           | Some p \<Rightarrow> trace_back came start max_hops p (hops + 1) (path @ [current]))"
  by pat_completeness auto
termination
  by (relation "measure (\<lambda>(came, start, max_hops, current, hops, path). max_hops - hops)") auto

declare trace_back.simps [simp del]

definition search_start :: "'l \<Rightarrow> 'l search_state" where
  "search_start start =
     \<lparr>frontier = [(Fin 0, start)], came_from = [start \<mapsto> start], cost_so_far = [start \<mapsto> Fin 0],
      closed = {}, expansions = 0, polls = 0\<rparr>"

definition astar_search ::
  "(real \<Rightarrow> cost_t) \<Rightarrow> 'l::linorder grid \<Rightarrow> 'l \<Rightarrow> 'l \<Rightarrow> 'l search_options \<Rightarrow> ('l list \<times> search_result) result option" where
  "astar_search rnd g start goal opts =
     (if \<not> is_walkable g start then Some (Inr ([], Invalid_start))
      else if \<not> is_walkable g goal then Some (Inr ([], Invalid_goal))
      else if start = goal then Some (Inr ([start], Found))
      else case search_loop rnd g opts goal (search_start start) of
             None \<Rightarrow> None
           | Some (Inl err) \<Rightarrow> Some (Inl err)
           | Some (Inr (Inl r)) \<Rightarrow> Some (Inr ([], r))
           | Some (Inr (Inr s)) \<Rightarrow>
               if came_from s goal = None then Some (Inr ([], Not_found))
               else Some (Inr (trace_back (came_from s) start (card (dom (came_from s)) + 1) goal 0 [])))"

end
