(* ===== verification/AstarSearch.thy ===== *)
theory AstarSearch
  imports Astar
begin

text \<open>
  The A* search of \<open>src/hj/algo/astar.hpp\<close> against walks in the grid: it always returns, a path it finds
  is a walk from the start to the goal that visits no location twice, and \<open>not_found\<close> means that there
  is no walk. For integral edge weights and a consistent heuristic the path is a shortest one.
\<close>

section \<open>Walks\<close>

inductive walk :: "('l \<Rightarrow> 'l \<Rightarrow> bool) \<Rightarrow> ('l \<Rightarrow> 'l \<Rightarrow> real) \<Rightarrow> 'l \<Rightarrow> 'l \<Rightarrow> real \<Rightarrow> bool" for e w a where
  walk_here: "walk e w a a 0"
| walk_step: "\<lbrakk>walk e w a u c; e u v\<rbrakk> \<Longrightarrow> walk e w a v (c + w u v)"

text \<open>What the search relies on in a graph, and the argument behind A*: when every edge out of an exactly
  known location has been taken into account, each walk to a location that is not yet known passes one
  whose estimate does not exceed the length of the walk.\<close>

locale weighted_graph =
  fixes edge :: "'l \<Rightarrow> 'l \<Rightarrow> bool" and weight :: "'l \<Rightarrow> 'l \<Rightarrow> real"
  assumes weight_nonneg: "edge u v \<Longrightarrow> 0 \<le> weight u v"
begin

lemma walk_nonneg: "walk edge weight a u c \<Longrightarrow> 0 \<le> c"
  by (induction rule: walk.induct) (auto dest: weight_nonneg)

lemma walk_closed_set:
  assumes "walk edge weight a u c" "a \<in> K" "\<And>x y. x \<in> K \<Longrightarrow> edge x y \<Longrightarrow> y \<in> K"
  shows "u \<in> K"
  using assms by (induction rule: walk.induct) auto

lemma walk_leaves_known:
  assumes "walk edge weight a u c" "a \<in> K" "u \<notin> K"
    and consistent: "\<And>x y. edge x y \<Longrightarrow> h x \<le> weight x y + h y"
    and known: "\<And>x c. x \<in> K \<Longrightarrow> walk edge weight a x c \<Longrightarrow> d x \<le> c"
    and relaxed: "\<And>x y. x \<in> K \<Longrightarrow> edge x y \<Longrightarrow> y \<in> S \<and> d y \<le> d x + weight x y"
  shows "\<exists>y\<in>S - K. d y + h y \<le> c + h u"
  using assms(1-3)
proof (induction rule: walk.induct)
  case (walk_step v c z)
  show ?case
  proof (cases "v \<in> K")
    case True
    then have "z \<in> S - K" "d z \<le> c + weight v z"
      using relaxed [OF True walk_step.hyps(2)] known [OF True walk_step.hyps(1)] walk_step.prems by auto
    then show ?thesis by force
  next
    case False
    then obtain y where "y \<in> S - K" "d y + h y \<le> c + h v" using walk_step by blast
    then show ?thesis using consistent [OF walk_step.hyps(2)] by force
  qed
qed simp

end

definition grid_edge :: "'l grid \<Rightarrow> 'l \<Rightarrow> 'l \<Rightarrow> bool" where
  "grid_edge g u v \<longleftrightarrow>
     (\<exists>nbs. adjacency_list g u = Some nbs \<and> v \<in> set nbs) \<and> is_walkable g v
     \<and> (case grid_cost g u v of Fin r \<Rightarrow> 0 \<le> r | _ \<Rightarrow> False)"

definition grid_weight :: "'l grid \<Rightarrow> 'l \<Rightarrow> 'l \<Rightarrow> real" where
  "grid_weight g u v = (case grid_cost g u v of Fin r \<Rightarrow> r | _ \<Rightarrow> 0)"

interpretation gr: weighted_graph "grid_edge g" "grid_weight g" for g
  by unfold_locales (auto simp: grid_edge_def grid_weight_def split: cost_t.splits)

abbreviation grid_walk :: "'l grid \<Rightarrow> 'l \<Rightarrow> 'l \<Rightarrow> real \<Rightarrow> bool" where
  "grid_walk g \<equiv> walk (grid_edge g) (grid_weight g)"

text \<open>What the operations of the class keep: finitely many locations, and every stored weight is finite
  and not negative.\<close>

definition grid_ok :: "'l grid \<Rightarrow> bool" where
  "grid_ok g \<longleftrightarrow> finite (dom (adjacency_list g)) \<and>
     (\<forall>w\<in>ran (edge_weights g). isfinite w \<and> \<not> cost_lt w (Fin 0))"

lemma isfinite_iff: "isfinite c \<longleftrightarrow> (\<exists>r. c = Fin r)"
  by (simp add: isfinite_def split: cost_t.split)

lemma grid_ok_cost:
  assumes "grid_ok g" "is_walkable g v"
  obtains r where "grid_cost g u v = Fin r" "0 \<le> r"
  using assms by (force simp: grid_ok_def is_walkable_def grid_cost_def ran_def isfinite_iff split: option.splits)

lemma grid_edge_iff:
  "grid_ok g \<Longrightarrow> grid_edge g u v \<longleftrightarrow> (\<exists>nbs. adjacency_list g u = Some nbs \<and> v \<in> set nbs) \<and> is_walkable g v"
  unfolding grid_edge_def by (auto elim: grid_ok_cost [of g v u])

section \<open>The priority queue\<close>

lemma set_pq_put [simp]: "set (pq_put e q) = insert e (set q)"
  by (induction q) auto

lemma cost_lt_irrefl [simp]: "\<not> cost_lt c c"
  by (cases c) auto

text \<open>On costs that are numbers the queue is sorted, so its head is a minimum.\<close>

definition pq_ok :: "'l::linorder pq \<Rightarrow> bool" where
  "pq_ok q \<longleftrightarrow> sorted_wrt (\<lambda>a b. \<not> elem_lt b a) q \<and> (\<forall>e\<in>set q. isfinite (fst e))"

lemma elem_lt_Fin [simp]:
  "elem_lt (Fin a, u) (Fin b, v) \<longleftrightarrow> a < b \<or> a = b \<and> u < v"
  by (auto simp: elem_lt_def)

lemma pq_ok_put:
  assumes "pq_ok q" "isfinite (fst e)"
  shows "pq_ok (pq_put e q)"
  using assms
proof (induction q)
  case (Cons d q)
  have trans: "\<not> elem_lt x e" if "\<not> elem_lt d e" "\<not> elem_lt x d" "isfinite (fst x)" for x
    using that Cons.prems by (cases x; cases d; cases e) (auto simp: pq_ok_def isfinite_iff)
  have "\<not> elem_lt e d" if "elem_lt d e"
    using that Cons.prems by (cases d; cases e) (auto simp: pq_ok_def isfinite_iff)
  then show ?case using Cons trans by (auto simp: pq_ok_def)
qed (simp add: pq_ok_def)

lemma pq_ok_Cons:
  assumes "pq_ok (e # q)"
  obtains f u where "e = (Fin f, u)" "pq_ok q" "\<And>f' v. (Fin f', v) \<in> set q \<Longrightarrow> f \<le> f'"
proof -
  obtain f u where e: "e = (Fin f, u)" using assms by (cases e) (auto simp: pq_ok_def isfinite_iff)
  have "f \<le> f'" if "(Fin f', v) \<in> set q" for f' v
    using assms that unfolding pq_ok_def e by (force dest: bspec)
  moreover have "pq_ok q" using assms by (simp add: pq_ok_def)
  ultimately show thesis using that e by blast
qed

section \<open>The tree of predecessors\<close>

text \<open>Following \<open>came_from\<close> from a location reaches the start in \<open>k\<close> steps.\<close>

inductive chain :: "('l \<rightharpoonup> 'l) \<Rightarrow> 'l \<Rightarrow> nat \<Rightarrow> 'l \<Rightarrow> bool" for came start where
  chain_start: "chain came start 0 start"
| chain_next: "\<lbrakk>chain came start k p; came n = Some p; n \<noteq> start\<rbrakk> \<Longrightarrow> chain came start (Suc k) n"

inductive_cases chainE: "chain came start k n"

lemma chain_unique: "chain came start k n \<Longrightarrow> chain came start j n \<Longrightarrow> j = k"
proof (induction arbitrary: j rule: chain.induct)
  case (chain_next k p n)
  then show ?case by (metis chainE option.inject)
qed (auto elim: chainE)

lemma chain_mono: "chain came start k n \<Longrightarrow> came \<subseteq>\<^sub>m came' \<Longrightarrow> chain came' start k n"
  by (induction rule: chain.induct) (auto intro: chain.intros simp: map_le_def dom_def)

text \<open>Redirecting a location whose estimate is larger than the one of its new predecessor keeps the tree.\<close>

lemma chain_redirect:
  fixes d :: "'l \<Rightarrow> real"
  assumes tree: "\<And>n p. came n = Some p \<Longrightarrow> n \<noteq> start \<Longrightarrow> d p \<le> d n"
    and cur: "chain came start k u" and v: "v \<noteq> start" "came v = None \<or> d u < d v" "u \<noteq> v"
    and n: "chain came start j n \<or> n = v"
  shows "\<exists>j. chain (came(v \<mapsto> u)) start j n"
proof -
  have avoid: "chain (came(v := None)) start i m" if "chain came start i m" "m \<noteq> v" "came v = None \<or> d m < d v" for i m
    using that
  proof (induction rule: chain.induct)
    case (chain_next i p m)
    have "p \<noteq> v" using chain_next tree [of m p] by (cases "came v") (auto elim: chainE simp: v)
    then show ?case using chain_next tree [of m p] by (auto intro!: chain.chain_next)
  qed (rule chain.chain_start)
  have "chain (came(v \<mapsto> u)) start k u"
    using avoid [OF cur] v by (auto intro: chain_mono simp: map_le_def)
  then have vc: "chain (came(v \<mapsto> u)) start (Suc k) v" using v by (auto intro: chain.chain_next)
  have "\<exists>j. chain (came(v \<mapsto> u)) start j m" if "chain came start i m" for i m
    using that
  proof (induction rule: chain.induct)
    case (chain_next i p m)
    then obtain j where "chain (came(v \<mapsto> u)) start j p" by blast
    then have "chain (came(v \<mapsto> u)) start (Suc j) m" if "m \<noteq> v"
      using that chain_next.hyps by (intro chain.chain_next) simp_all
    then show ?case using vc by blast
  qed (auto intro: chain.chain_start)
  then show ?thesis using n vc by blast
qed

lemma chain_below: "chain came start k n \<Longrightarrow> came start \<noteq> None \<Longrightarrow> j \<le> k \<Longrightarrow> \<exists>m\<in>dom came. chain came start j m"
proof (induction rule: chain.induct)
  case (chain_next k p n)
  then show ?case by (cases "j = Suc k") (auto intro: chain.chain_next)
qed (auto intro: chain.chain_start)

lemma chain_short:
  assumes "chain came start k n" "came start \<noteq> None" "finite (dom came)"
  shows "k < card (dom came)"
proof -
  define pick where "pick j = (SOME m. m \<in> dom came \<and> chain came start j m)" for j
  have pick: "pick j \<in> dom came \<and> chain came start j (pick j)" if "j \<le> k" for j
    unfolding pick_def by (rule someI_ex) (use chain_below [OF assms(1,2) that] in blast)
  have "inj_on pick {..k}" using pick by (metis atMost_iff chain_unique inj_onI)
  then have "card {..k} \<le> card (dom came)"
    using pick assms(3) by (intro card_inj_on_le [of pick]) auto
  then show ?thesis by simp
qed

text \<open>What the final loop builds: the locations from the start to \<open>n\<close>.\<close>

definition path_ok :: "('l \<Rightarrow> 'l \<Rightarrow> bool) \<Rightarrow> 'l \<Rightarrow> 'l \<Rightarrow> 'l list \<Rightarrow> bool" where
  "path_ok e a b p \<longleftrightarrow> p \<noteq> [] \<and> hd p = a \<and> last p = b \<and> successively e p"

lemma trace_back_chain:
  assumes "chain came start k n" "hops + k < max_hops"
  shows "\<exists>p. trace_back came start max_hops n hops path = (p @ rev path, Found)
           \<and> path_ok (\<lambda>x y. came y = Some x \<and> y \<noteq> start) start n p
           \<and> distinct p \<and> (\<forall>m\<in>set p. \<exists>j\<le>k. chain came start j m)"
  using assms
proof (induction arbitrary: hops path rule: chain.induct)
  case chain_start
  then show ?case by (auto simp: trace_back.simps path_ok_def intro: chain.chain_start)
next
  case (chain_next k p n)
  obtain q where q: "trace_back came start max_hops p (hops + 1) (path @ [n]) = (q @ rev (path @ [n]), Found)"
    "path_ok (\<lambda>x y. came y = Some x \<and> y \<noteq> start) start p q" "distinct q"
    "\<forall>m\<in>set q. \<exists>j\<le>k. chain came start j m"
    using chain_next.IH [of "hops + 1" "path @ [n]"] chain_next.prems by auto
  have n: "chain came start (Suc k) n" using chain_next.hyps by (rule chain.chain_next)
  then have "n \<notin> set q" using q(4) chain_unique by fastforce
  moreover have "path_ok (\<lambda>x y. came y = Some x \<and> y \<noteq> start) start n (q @ [n])"
    using q(2) chain_next.hyps by (auto simp: path_ok_def successively_append_iff)
  moreover have "trace_back came start max_hops n hops path = ((q @ [n]) @ rev path, Found)"
    using chain_next q(1) by (subst trace_back.simps) auto
  ultimately show ?case using q(3,4) n by (intro exI [of _ "q @ [n]"]) (auto intro: le_SucI)
qed

section \<open>The invariant of the search\<close>

text \<open>What IEEE 754 says of rounding a real number: it is monotone, a rounded number is not changed by
  rounding it again, and zero is exact.\<close>

definition ieee_rounding :: "(real \<Rightarrow> cost_t) \<Rightarrow> bool" where
  "ieee_rounding rnd \<longleftrightarrow>
     (\<forall>x y a b. x \<le> y \<longrightarrow> rnd x = Fin a \<longrightarrow> rnd y = Fin b \<longrightarrow> a \<le> b)
     \<and> (\<forall>x a. rnd x = Fin a \<longrightarrow> rnd a = Fin a) \<and> rnd 0 = Fin 0"

lemma ieee_rounding_grows:
  assumes "ieee_rounding rnd" "rnd a = Fin a" "0 \<le> w" "rnd (a + w) = Fin r"
  shows "a \<le> r \<and> rnd r = Fin r"
proof -
  have "a \<le> a + w" using assms(3) by simp
  then show ?thesis using assms unfolding ieee_rounding_def by blast
qed

text \<open>The estimate of a location as a number.\<close>

definition est :: "'l search_state \<Rightarrow> 'l \<Rightarrow> real" where
  "est s n = (case cost_so_far s n of Some (Fin r) \<Rightarrow> r | _ \<Rightarrow> 0)"

definition tree_inv :: "(real \<Rightarrow> cost_t) \<Rightarrow> 'l grid \<Rightarrow> 'l \<Rightarrow> 'l search_state \<Rightarrow> bool" where
  "tree_inv rnd g start s \<longleftrightarrow>
     came_from s start = Some start \<and> cost_so_far s start = Some (Fin 0)
     \<and> dom (came_from s) = dom (cost_so_far s)
     \<and> (\<forall>n\<in>dom (cost_so_far s). is_walkable g n \<and> (\<exists>k. chain (came_from s) start k n) \<and> 0 \<le> est s n
          \<and> cost_so_far s n = Some (Fin (est s n)) \<and> rnd (est s n) = Fin (est s n))
     \<and> (\<forall>n p. came_from s n = Some p \<longrightarrow> n \<noteq> start \<longrightarrow>
          grid_edge g p n \<and> p \<in> dom (cost_so_far s) \<and> est s p \<le> est s n)"

text \<open>Every known location is closed or waiting; the edges out of closed locations lead to known ones,
  except for the edges \<open>P\<close> that are still to be relaxed.\<close>

definition front_inv :: "'l grid \<Rightarrow> ('l \<times> 'l) set \<Rightarrow> 'l search_state \<Rightarrow> bool" where
  "front_inv g P s \<longleftrightarrow>
     dom (cost_so_far s) = closed s \<union> snd ` set (frontier s)
     \<and> (\<forall>u\<in>closed s. \<forall>v. grid_edge g u v \<longrightarrow> (u, v) \<in> P \<or> v \<in> dom (cost_so_far s))"

definition improve :: "'l::linorder \<Rightarrow> 'l \<Rightarrow> real \<Rightarrow> cost_t \<Rightarrow> 'l search_state \<Rightarrow> 'l search_state" where
  "improve u v r f s =
     s\<lparr>cost_so_far := (cost_so_far s)(v \<mapsto> Fin r), came_from := (came_from s)(v \<mapsto> u),
       frontier := pq_put (f, v) (frontier s)\<rparr>"

lemma improve_simps [simp]:
  "cost_so_far (improve u v r f s) = (cost_so_far s)(v \<mapsto> Fin r)"
  "came_from (improve u v r f s) = (came_from s)(v \<mapsto> u)"
  "frontier (improve u v r f s) = pq_put (f, v) (frontier s)"
  "closed (improve u v r f s) = closed s" "expansions (improve u v r f s) = expansions s"
  "polls (improve u v r f s) = polls s"
  "est (improve u v r f s) n = (if n = v then r else est s n)"
  by (simp_all add: improve_def est_def)

lemma tree_invD:
  assumes "tree_inv rnd g start s"
  shows "came_from s start = Some start" "cost_so_far s start = Some (Fin 0)"
    "dom (came_from s) = dom (cost_so_far s)" "est s start = 0" "start \<in> dom (cost_so_far s)"
    "n \<in> dom (cost_so_far s) \<Longrightarrow> is_walkable g n"
    "n \<in> dom (cost_so_far s) \<Longrightarrow> \<exists>k. chain (came_from s) start k n"
    "n \<in> dom (cost_so_far s) \<Longrightarrow> 0 \<le> est s n"
    "n \<in> dom (cost_so_far s) \<Longrightarrow> cost_so_far s n = Some (Fin (est s n))"
    "n \<in> dom (cost_so_far s) \<Longrightarrow> rnd (est s n) = Fin (est s n)"
    "came_from s n = Some p \<Longrightarrow> n \<noteq> start \<Longrightarrow> grid_edge g p n"
    "came_from s n = Some p \<Longrightarrow> n \<noteq> start \<Longrightarrow> p \<in> dom (cost_so_far s)"
    "came_from s n = Some p \<Longrightarrow> n \<noteq> start \<Longrightarrow> est s p \<le> est s n"
proof -
  show "est s start = 0" using assms by (simp add: tree_inv_def est_def)
  show "start \<in> dom (cost_so_far s)" using assms by (auto simp: tree_inv_def)
qed (use assms [unfolded tree_inv_def] in blast)+

lemma tree_inv_improve:
  assumes rnd: "ieee_rounding rnd" and inv: "tree_inv rnd g start s" and u: "u \<in> dom (cost_so_far s)"
    and e: "grid_edge g u v" and r: "rnd (est s u + grid_weight g u v) = Fin r"
    and new: "v \<notin> dom (cost_so_far s) \<or> r < est s v"
  shows "tree_inv rnd g start (improve u v r f s)"
proof -
  note D = tree_invD [OF inv]
  have ur: "est s u \<le> r" "rnd r = Fin r"
    using ieee_rounding_grows [OF rnd D(10) [OF u] gr.weight_nonneg [OF e] r] by auto
  have v: "v \<noteq> start" "u \<noteq> v"
    using new D(4,5) D(8) [OF u] ur(1) u by auto
  have walk: "is_walkable g v" using e by (simp add: grid_edge_def)
  obtain k where "chain (came_from s) start k u" using D(7) [OF u] by blast
  moreover have "came_from s v = None \<or> est s u < est s v"
    using new ur(1) D(3) by (metis domIff le_less_trans)
  ultimately have "\<exists>k. chain ((came_from s)(v \<mapsto> u)) start k n" if "n \<in> dom (cost_so_far s) \<or> n = v" for n
    using chain_redirect [of "came_from s" start "est s" k u v _ n] D(7,13) v that by blast
  then have nodes: "is_walkable g n \<and> (\<exists>k. chain ((came_from s)(v \<mapsto> u)) start k n) \<and> 0 \<le> (if n = v then r else est s n)
      \<and> ((cost_so_far s)(v \<mapsto> Fin r)) n = Some (Fin (if n = v then r else est s n))
      \<and> rnd (if n = v then r else est s n) = Fin (if n = v then r else est s n)"
    if "n \<in> dom (cost_so_far s) \<or> n = v" for n
    using that walk D(6) D(8-10) [of n] D(8) [OF u] ur by auto
  have below: "(if p = v then r else est s p) \<le> est s n" if "came_from s n = Some p" "n \<noteq> start" for n p
    using D(12,13) [OF that] new by (cases "p = v") auto
  have links: "grid_edge g p n \<and> p \<in> insert v (dom (cost_so_far s))
      \<and> (if p = v then r else est s p) \<le> (if n = v then r else est s n)"
    if "((came_from s)(v \<mapsto> u)) n = Some p" "n \<noteq> start" for n p
    using that D(11,12) [of n p] below [of n p] e u ur v by (cases "n = v") auto
  have dom: "dom ((cost_so_far s)(v \<mapsto> Fin r)) = insert v (dom (cost_so_far s))"
    "dom ((came_from s)(v \<mapsto> u)) = insert v (dom (came_from s))" by simp_all
  have start: "((came_from s)(v \<mapsto> u)) start = Some start" "((cost_so_far s)(v \<mapsto> Fin r)) start = Some (Fin 0)"
    using v D(1,2) by simp_all
  show ?thesis
    unfolding tree_inv_def improve_simps dom D(3)
    by (intro conjI ballI allI impI start refl) (use nodes links in blast)+
qed

lemma front_inv_improve:
  assumes "front_inv g P s"
  shows "front_inv g (P - {(u, v)}) (improve u v r f s)"
proof -
  have dom: "dom ((cost_so_far s)(v \<mapsto> Fin r)) = insert v (dom (cost_so_far s))" by simp
  show ?thesis using assms unfolding front_inv_def improve_simps dom set_pq_put image_insert snd_conv by blast
qed

lemma front_inv_drop:
  "front_inv g P s \<Longrightarrow> \<not> grid_edge g u v \<or> v \<in> dom (cost_so_far s) \<Longrightarrow> front_inv g (P - {(u, v)}) s"
  unfolding front_inv_def by blast

text \<open>What one round of the neighbour loop does.\<close>

lemma relax_cases:
  assumes ok: "grid_ok g" and rnd: "ieee_rounding rnd" and inv: "tree_inv rnd g start s"
    and u: "u \<in> dom (cost_so_far s)"
  obtains
    (blocked) "\<not> is_walkable g v" "relax rnd g heur goal u v s = Inr (Inr s)"
  | (no_better) r where "is_walkable g v" "rnd (est s u + grid_weight g u v) = Fin r" "v \<in> dom (cost_so_far s)"
      "est s v \<le> r" "relax rnd g heur goal u v s = Inr (Inr s)"
  | (bad_cost) "is_walkable g v" "\<not> isfinite (rnd (est s u + grid_weight g u v))"
      "relax rnd g heur goal u v s = Inr (Inl Invalid_cost)"
  | (throws) err where "is_walkable g v" "heur v goal = Inl err" "relax rnd g heur goal u v s = Inl err"
  | (bad_heuristic) h where "is_walkable g v" "heur v goal = Inr h" "\<not> isfinite h \<or> cost_lt h (Fin 0)"
      "relax rnd g heur goal u v s = Inr (Inl Invalid_heuristic)"
  | (better) r h where "is_walkable g v" "rnd (est s u + grid_weight g u v) = Fin r"
      "v \<notin> dom (cost_so_far s) \<or> r < est s v" "heur v goal = Inr (Fin h)" "0 \<le> h"
      "relax rnd g heur goal u v s = Inr (Inr (improve u v r (rnd (r + h)) s))"
proof (cases "is_walkable g v")
  case True
  obtain w where w: "grid_cost g u v = Fin w" "0 \<le> w" using grid_ok_cost [OF ok True] by blast
  have cu: "cost_so_far s u = Some (Fin (est s u))" "0 \<le> est s u" using tree_invD(8,9) [OF inv u] by auto
  have neg: "0 \<le> r" if "rnd (est s u + w) = Fin r" for r
    using ieee_rounding_grows [OF rnd tree_invD(10) [OF inv u] w(2) that] cu by simp
  note unf = relax_def cost_entry_def Let_def
  have gw: "grid_weight g u v = w" by (simp add: grid_weight_def w)
  show thesis
  proof (cases "rnd (est s u + w)")
    case (Fin r)
    show thesis
    proof (cases "v \<in> dom (cost_so_far s) \<and> est s v \<le> r")
      case False
      then have c: "case cost_so_far s v of None \<Rightarrow> True | Some old \<Rightarrow> cost_lt (cost_add rnd (Fin (est s u)) (Fin w)) old"
        using tree_invD(9) [OF inv, of v] Fin by (cases "cost_so_far s v") (auto simp: domIff)
      show thesis
      proof (cases "heur v goal")
        case (Inl err)
        then have "relax rnd g heur goal u v s = Inl err"
          using True Fin w cu neg [OF Fin] c by (simp add: unf isfinite_def)
        then show thesis using throws True Inl by blast
      next
        case (Inr h)
        show thesis
        proof (cases "\<not> isfinite h \<or> cost_lt h (Fin 0)")
          case bad: True
          then have "relax rnd g heur goal u v s = Inr (Inl Invalid_heuristic)"
            using True Fin w cu neg [OF Fin] c Inr by (simp add: unf isfinite_def)
          then show thesis using bad_heuristic True Inr bad by blast
        next
          case good: False
          then obtain h' where h: "h = Fin h'" "0 \<le> h'" by (auto simp: isfinite_iff)
          then have "relax rnd g heur goal u v s = Inr (Inr (improve u v r (rnd (r + h')) s))"
            using True Fin w cu neg [OF Fin] c Inr by (simp add: unf isfinite_def improve_def)
          then show thesis using better True Inr h Fin False gw by force
        qed
      qed
    next
      case c: True
      then have "cost_so_far s v = Some (Fin (est s v))" using tree_invD(9) [OF inv, of v] by blast
      then have "relax rnd g heur goal u v s = Inr (Inr s)"
        using True Fin w cu neg [OF Fin] c by (simp add: unf isfinite_def)
      then show thesis using no_better True Fin c gw by blast
    qed
  qed (use True w cu gw bad_cost in \<open>auto simp: unf isfinite_def\<close>)
qed (use blocked in \<open>auto simp: relax_def\<close>)

section \<open>Rounds of the search\<close>

text \<open>The only reasons for which a search ends without an answer; \<open>A\<close> says which costs of reached
  locations can occur.\<close>

fun blame ::
  "('l \<Rightarrow> real \<Rightarrow> bool) \<Rightarrow> (real \<Rightarrow> cost_t) \<Rightarrow> 'l grid \<Rightarrow> 'l search_options \<Rightarrow> 'l \<Rightarrow> search_result result \<Rightarrow> bool" where
  "blame A rnd g opts goal (Inl err) \<longleftrightarrow> (\<exists>v. is_walkable g v \<and> heuristic opts v goal = Inl err)"
| "blame A rnd g opts goal (Inr Invalid_heuristic) \<longleftrightarrow>
     (\<exists>v h. is_walkable g v \<and> heuristic opts v goal = Inr h \<and> (\<not> isfinite h \<or> cost_lt h (Fin 0)))"
| "blame A rnd g opts goal (Inr Invalid_cost) \<longleftrightarrow>
     (\<exists>u v a. grid_edge g u v \<and> A u a \<and> \<not> isfinite (rnd (a + grid_weight g u v)))"
| "blame A rnd g opts goal (Inr Cancelled) \<longleftrightarrow> (\<exists>ask k. should_cancel opts = Some ask \<and> ask k)"
| "blame A rnd g opts goal (Inr Resource_limit_exceeded) \<longleftrightarrow>
     max_expansions opts \<noteq> 0 \<and> max_expansions opts < card (dom (adjacency_list g))"
| "blame A rnd g opts goal _ \<longleftrightarrow> False"

text \<open>
  Loop rules. \<open>X\<close> is a further invariant, which may speak of the edges still to be relaxed; it has to
  survive an improvement and a neighbour that is passed over.
\<close>

definition search_inv ::
  "(real \<Rightarrow> cost_t) \<Rightarrow> 'l grid \<Rightarrow> 'l \<Rightarrow> (('l \<times> 'l) set \<Rightarrow> 'l search_state \<Rightarrow> bool) \<Rightarrow> ('l \<times> 'l) set \<Rightarrow> 'l search_state \<Rightarrow> bool" where
  "search_inv rnd g start X P s \<longleftrightarrow> tree_inv rnd g start s \<and> front_inv g P s \<and> X P s"

definition keeps ::
  "('l \<Rightarrow> real \<Rightarrow> bool) \<Rightarrow> (real \<Rightarrow> cost_t) \<Rightarrow> 'l::linorder grid \<Rightarrow> 'l search_options \<Rightarrow> 'l \<Rightarrow> 'l \<Rightarrow> (('l \<times> 'l) set \<Rightarrow> 'l search_state \<Rightarrow> bool) \<Rightarrow> 'l \<Rightarrow> bool" where
  "keeps A rnd g opts goal start X u \<longleftrightarrow>
     (\<forall>P s v. search_inv rnd g start X P s \<longrightarrow> u \<in> closed s \<longrightarrow>
        A u (est s u)
        \<and> (\<not> grid_edge g u v \<longrightarrow> X (P - {(u, v)}) s)
        \<and> (\<forall>r. grid_edge g u v \<longrightarrow> rnd (est s u + grid_weight g u v) = Fin r \<longrightarrow> v \<in> dom (cost_so_far s) \<longrightarrow>
               est s v \<le> r \<longrightarrow> X (P - {(u, v)}) s)
        \<and> (\<forall>r h. grid_edge g u v \<longrightarrow> rnd (est s u + grid_weight g u v) = Fin r \<longrightarrow>
               v \<notin> dom (cost_so_far s) \<or> r < est s v \<longrightarrow> heuristic opts v goal = Inr (Fin h) \<longrightarrow> 0 \<le> h \<longrightarrow>
               X (P - {(u, v)}) (improve u v r (rnd (r + h)) s)))"

lemma relax_inv:
  assumes ok: "grid_ok g" and rnd: "ieee_rounding rnd" and X: "keeps A rnd g opts goal start X u"
    and inv: "search_inv rnd g start X P s" and u: "u \<in> closed s"
    and nb: "adjacency_list g u = Some nbs" "v \<in> set nbs"
  shows "case relax rnd g (heuristic opts) goal u v s of
           Inl err \<Rightarrow> blame A rnd g opts goal (Inl err)
         | Inr (Inl r) \<Rightarrow> blame A rnd g opts goal (Inr r)
         | Inr (Inr s') \<Rightarrow> search_inv rnd g start X (P - {(u, v)}) s' \<and> closed s' = closed s
                          \<and> expansions s' = expansions s"
proof -
  have T: "tree_inv rnd g start s" and F: "front_inv g P s" using inv by (simp_all add: search_inv_def)
  have ud: "u \<in> dom (cost_so_far s)" using F u by (auto simp: front_inv_def)
  have e: "grid_edge g u v \<longleftrightarrow> is_walkable g v" using nb by (simp add: grid_edge_iff [OF ok])
  note keep = X [unfolded keeps_def, rule_format, OF inv u, of v]
  show ?thesis
  proof (rule relax_cases [OF ok rnd T ud, of v "heuristic opts" goal])
    assume "\<not> is_walkable g v" "relax rnd g (heuristic opts) goal u v s = Inr (Inr s)"
    then show ?thesis using T front_inv_drop [OF F] keep e by (simp add: search_inv_def)
  next
    fix r assume "is_walkable g v" "rnd (est s u + grid_weight g u v) = Fin r" "v \<in> dom (cost_so_far s)"
      "est s v \<le> r" "relax rnd g (heuristic opts) goal u v s = Inr (Inr s)"
    then show ?thesis using T front_inv_drop [OF F] keep e by (simp add: search_inv_def)
  next
    assume "is_walkable g v" "\<not> isfinite (rnd (est s u + grid_weight g u v))"
      "relax rnd g (heuristic opts) goal u v s = Inr (Inl Invalid_cost)"
    then show ?thesis using e keep by auto
  next
    fix r h assume a: "is_walkable g v" "rnd (est s u + grid_weight g u v) = Fin r"
      "v \<notin> dom (cost_so_far s) \<or> r < est s v" "heuristic opts v goal = Inr (Fin h)" "0 \<le> h"
      "relax rnd g (heuristic opts) goal u v s = Inr (Inr (improve u v r (rnd (r + h)) s))"
    then have "grid_edge g u v" using e by simp
    then show ?thesis
      using a(6) tree_inv_improve [OF rnd T ud _ a(2,3)] front_inv_improve [OF F] keep a(2-5)
      by (simp add: search_inv_def)
  qed auto
qed

lemma relax_all_inv:
  assumes ok: "grid_ok g" and rnd: "ieee_rounding rnd" and X: "keeps A rnd g opts goal start X u"
    and nb: "adjacency_list g u = Some nbs" "set vs \<subseteq> set nbs"
    and inv: "search_inv rnd g start X P s" and u: "u \<in> closed s"
  shows "case relax_all rnd g (heuristic opts) goal u vs s of
           Inl err \<Rightarrow> blame A rnd g opts goal (Inl err)
         | Inr (Inl r) \<Rightarrow> blame A rnd g opts goal (Inr r)
         | Inr (Inr s') \<Rightarrow> search_inv rnd g start X (P - {u} \<times> set vs) s' \<and> closed s' = closed s
                          \<and> expansions s' = expansions s"
  using nb(2) inv u
proof (induction vs arbitrary: P s)
  case (Cons v vs)
  note one = relax_inv [OF ok rnd X Cons.prems(2,3) nb(1), of v]
  show ?case
  proof (cases "relax rnd g (heuristic opts) goal u v s")
    case (Inr a)
    show ?thesis
    proof (cases a)
      case s': (Inr s')
      have P: "P - {(u, v)} - {u} \<times> set vs = P - {u} \<times> set (v # vs)" by auto
      show ?thesis
        using one Cons.prems(1) Inr s' Cons.IH [of "P - {(u, v)}" s'] Cons.prems(3) unfolding P
        by (simp split: sum.splits)
    qed (use one Cons.prems(1) Inr in simp)
  qed (use one Cons.prems(1) in simp)
qed simp

text \<open>The invariant survives taking the first element of the queue.\<close>

definition take_first :: "'l \<Rightarrow> 'l pq \<Rightarrow> nat \<Rightarrow> nat \<Rightarrow> 'l search_state \<Rightarrow> 'l search_state" where
  "take_first u q p e s = s\<lparr>frontier := q, closed := insert u (closed s), polls := p, expansions := e\<rparr>"

definition pops :: "(real \<Rightarrow> cost_t) \<Rightarrow> 'l grid \<Rightarrow> 'l \<Rightarrow> (('l \<times> 'l) set \<Rightarrow> 'l search_state \<Rightarrow> bool) \<Rightarrow> bool" where
  "pops rnd g start X \<longleftrightarrow>
     (\<forall>s f u q nbs. search_inv rnd g start X {} s \<longrightarrow> frontier s = (f, u) # q \<longrightarrow> adjacency_list g u = Some nbs \<longrightarrow>
        (u \<in> closed s \<longrightarrow> X {} (s\<lparr>frontier := q\<rparr>))
        \<and> (u \<notin> closed s \<longrightarrow> (\<forall>p e. X ({u} \<times> set nbs) (take_first u q p e s))))"

lemma tree_inv_cong:
  "came_from s' = came_from s \<Longrightarrow> cost_so_far s' = cost_so_far s \<Longrightarrow> tree_inv rnd g start s' = tree_inv rnd g start s"
  by (simp add: tree_inv_def est_def)

lemma search_inv_pop:
  assumes ok: "grid_ok g" and X: "pops rnd g start X"
    and inv: "search_inv rnd g start X {} s" and fr: "frontier s = (f, u) # q"
  obtains nbs where "adjacency_list g u = Some nbs"
    "u \<in> closed s \<Longrightarrow> search_inv rnd g start X {} (s\<lparr>frontier := q\<rparr>)"
    "\<And>p e. u \<notin> closed s \<Longrightarrow> search_inv rnd g start X ({u} \<times> set nbs) (take_first u q p e s)"
proof -
  have T: "tree_inv rnd g start s" and F: "front_inv g {} s" using inv by (simp_all add: search_inv_def)
  have dom: "dom (cost_so_far s) = closed s \<union> insert u (snd ` set q)" using F fr by (simp add: front_inv_def)
  then have "is_walkable g u" using tree_invD(6) [OF T] by blast
  then obtain nbs where nbs: "adjacency_list g u = Some nbs" by (auto simp: is_walkable_def)
  have edges: "v \<in> set nbs" if "grid_edge g u v" for v using that nbs by (simp add: grid_edge_def)
  note pop = X [unfolded pops_def, rule_format, OF inv fr nbs]
  have known: "v \<in> closed s \<union> insert u (snd ` set q)" if "x \<in> closed s" "grid_edge g x v" for x v
    using F that dom unfolding front_inv_def by blast
  have "front_inv g {} (s\<lparr>frontier := q\<rparr>)" if "u \<in> closed s"
    using that known by (simp add: front_inv_def dom insert_absorb)
  then have "search_inv rnd g start X {} (s\<lparr>frontier := q\<rparr>)" if "u \<in> closed s"
    using that T pop by (simp add: search_inv_def cong: tree_inv_cong)
  moreover have "front_inv g ({u} \<times> set nbs) (take_first u q p e s)" for p e
    using known edges by (simp add: front_inv_def take_first_def dom)
  then have "search_inv rnd g start X ({u} \<times> set nbs) (take_first u q p e s)" if "u \<notin> closed s" for p e
    using that T pop by (simp add: search_inv_def take_first_def cong: tree_inv_cong)
  ultimately show thesis using that nbs by blast
qed

definition left_over :: "'l grid \<Rightarrow> 'l search_state \<Rightarrow> nat \<times> nat" where
  "left_over g s = (card (dom (adjacency_list g) - closed s), length (frontier s))"

definition count_inv :: "'l grid \<Rightarrow> 'l search_options \<Rightarrow> 'l \<Rightarrow> 'l search_state \<Rightarrow> bool" where
  "count_inv g opts goal s \<longleftrightarrow> goal \<notin> closed s \<and> closed s \<subseteq> dom (adjacency_list g)
     \<and> (max_expansions opts \<noteq> 0 \<longrightarrow> expansions s = card (closed s))"

lemma search_round_inv:
  assumes ok: "grid_ok g" and rnd: "ieee_rounding rnd" and goal: "is_walkable g goal"
    and X: "\<And>u. keeps A rnd g opts goal start X u" "pops rnd g start X"
    and inv: "search_inv rnd g start X {} s" and count: "count_inv g opts goal s" and fr: "frontier s \<noteq> []"
  shows "case search_round rnd g opts goal s of
           Inl err \<Rightarrow> blame A rnd g opts goal (Inl err)
         | Inr (Returned r) \<Rightarrow> blame A rnd g opts goal (Inr r)
         | Inr (Broke s') \<Rightarrow> goal \<in> closed s' \<and> (\<exists>P. search_inv rnd g start X P s')
         | Inr (Continued s') \<Rightarrow> search_inv rnd g start X {} s' \<and> count_inv g opts goal s'
             \<and> (left_over g s', left_over g s) \<in> less_than <*lex*> less_than"
proof -
  obtain f u q where q: "frontier s = (f, u) # q" using fr by (metis list.exhaust surj_pair)
  obtain nbs where nbs: "adjacency_list g u = Some nbs"
    and old: "u \<in> closed s \<Longrightarrow> search_inv rnd g start X {} (s\<lparr>frontier := q\<rparr>)"
    and new: "\<And>p e. u \<notin> closed s \<Longrightarrow> search_inv rnd g start X ({u} \<times> set nbs) (take_first u q p e s)"
    using search_inv_pop [OF ok X(2) inv q] by blast
  show ?thesis
  proof (cases "u \<in> closed s")
    case True
    then show ?thesis
      using q old count by (simp add: search_round_def pq_get_def count_inv_def left_over_def Let_def)
  next
    case False
    define e where "e = (if max_expansions opts \<noteq> 0 then expansions s + 1 else expansions s)"
    define p where "p = (if should_cancel opts = None then polls s else polls s + 1)"
    have fin: "finite (closed s)" "finite (dom (adjacency_list g))"
      using count ok by (auto simp: count_inv_def grid_ok_def intro: finite_subset)
    let ?stop = "\<exists>ask. should_cancel opts = Some ask \<and> ask (polls s)"
    let ?limit = "max_expansions opts \<noteq> 0 \<and> max_expansions opts < expansions s + 1"
    have limit: "max_expansions opts < card (dom (adjacency_list g))"
      if "u \<noteq> goal" "max_expansions opts \<noteq> 0" "max_expansions opts < expansions s + 1"
    proof -
      have "insert u (closed s) \<subset> dom (adjacency_list g)"
        using that(1) nbs goal count by (auto simp: count_inv_def is_walkable_def)
      then have "card (insert u (closed s)) < card (dom (adjacency_list g))" using fin by (simp add: psubset_card_mono)
      then show ?thesis using that count False fin by (simp add: count_inv_def)
    qed
    have go: "search_round rnd g opts goal s =
        (case relax_all rnd g (heuristic opts) goal u nbs (take_first u q p e s) of
           Inl err \<Rightarrow> Inl err | Inr (Inl r) \<Rightarrow> Inr (Returned r) | Inr (Inr s') \<Rightarrow> Inr (Continued s'))"
      if "u \<noteq> goal" "\<not> ?stop" "\<not> ?limit"
      using that False q nbs
      by (auto simp: search_round_def pq_get_def Let_def take_first_def neighbors_def p_def e_def split: option.splits)
    have relaxed: "case relax_all rnd g (heuristic opts) goal u nbs (take_first u q p e s) of
           Inl err \<Rightarrow> blame A rnd g opts goal (Inl err)
         | Inr (Inl r) \<Rightarrow> blame A rnd g opts goal (Inr r)
         | Inr (Inr s') \<Rightarrow> search_inv rnd g start X {} s' \<and> (u \<noteq> goal \<longrightarrow> count_inv g opts goal s')
             \<and> (left_over g s', left_over g s) \<in> less_than <*lex*> less_than"
    proof -
      have c: "closed (take_first u q p e s) = insert u (closed s)" "expansions (take_first u q p e s) = e"
        "u \<in> insert u (closed s)" by (simp_all add: take_first_def)
      have "card (dom (adjacency_list g) - insert u (closed s)) < card (dom (adjacency_list g) - closed s)"
        using fin nbs False by (intro psubset_card_mono) auto
      then have "(left_over g s', left_over g s) \<in> less_than <*lex*> less_than" if "closed s' = insert u (closed s)" for s'
        using that by (simp add: left_over_def)
      moreover have "count_inv g opts goal s'"
        if "u \<noteq> goal" "closed s' = insert u (closed s)" "expansions s' = e" for s'
        using that count False fin nbs by (auto simp: count_inv_def e_def)
      ultimately show ?thesis
        using relax_all_inv [OF ok rnd X(1) nbs order_refl new [OF False, of p e]] unfolding c Diff_cancel
        by (simp split: sum.splits)
    qed
    consider "u = goal" | "u \<noteq> goal" ?stop | "u \<noteq> goal" "\<not> ?stop" ?limit | "u \<noteq> goal" "\<not> ?stop" "\<not> ?limit"
      by blast
    then show ?thesis
    proof cases
      case 1
      let ?s = "take_first u q (polls s) (expansions s) s"
      have "search_round rnd g opts goal s = Inr (Broke ?s)"
        using False q 1 by (simp add: search_round_def pq_get_def take_first_def)
      moreover have "goal \<in> closed ?s" using 1 by (simp add: take_first_def)
      ultimately show ?thesis using new [OF False, of "polls s" "expansions s"] by (simp, blast)
    next
      case 2
      then have "search_round rnd g opts goal s = Inr (Returned Cancelled)"
        using False q by (auto simp: search_round_def pq_get_def Let_def)
      then show ?thesis using 2 by auto
    next
      case 3
      then have "search_round rnd g opts goal s = Inr (Returned Resource_limit_exceeded)"
        using False q by (auto simp: search_round_def pq_get_def Let_def split: option.splits)
      then show ?thesis using 3 limit by simp
    next
      case 4
      then show ?thesis using go relaxed by (simp split: sum.splits)
    qed
  qed
qed

text \<open>The loop ends, because a round closes a location or shortens the queue.\<close>

lemma search_loop_inv:
  assumes ok: "grid_ok g" and rnd: "ieee_rounding rnd" and goal: "is_walkable g goal"
    and X: "\<And>u. keeps A rnd g opts goal start X u" "pops rnd g start X"
    and inv: "search_inv rnd g start X {} s" and count: "count_inv g opts goal s"
  shows "\<exists>out. search_loop rnd g opts goal s = Some out \<and>
           (case out of
              Inl err \<Rightarrow> blame A rnd g opts goal (Inl err)
            | Inr (Inl r) \<Rightarrow> blame A rnd g opts goal (Inr r)
            | Inr (Inr s') \<Rightarrow> (\<exists>P. search_inv rnd g start X P s' \<and> (goal \<in> closed s' \<or> frontier s' = [] \<and> P = {})))"
  using inv count
proof (induction "left_over g s" arbitrary: s rule: wf_induct [OF wf_lex_prod [OF wf_less_than wf_less_than]])
  case (1 s)
  show ?case
  proof (cases "frontier s = []")
    case True
    then show ?thesis using "1.prems"(1) by (subst search_loop.simps) auto
  next
    case False
    note round = search_round_inv [OF ok rnd goal X "1.prems" False]
    show ?thesis
    proof (cases "search_round rnd g opts goal s")
      case (Inl err)
      then show ?thesis using round False by (subst search_loop.simps) simp
    next
      case (Inr a)
      show ?thesis
      proof (cases a)
        case (Continued s')
        then show ?thesis
          using round False Inr "1.hyps" [rule_format, of "left_over g s'" s'] by (subst search_loop.simps) simp
      qed (use round False Inr in \<open>subst search_loop.simps, auto\<close>)+
    qed
  qed
qed

lemma search_inv_start:
  assumes "is_walkable g start" "ieee_rounding rnd" "X {} (search_start start)"
  shows "search_inv rnd g start X {} (search_start start)"
  using assms
  by (auto simp: search_inv_def tree_inv_def front_inv_def search_start_def est_def ieee_rounding_def
      intro: chain.chain_start)

lemma count_inv_start: "count_inv g opts goal (search_start start)"
  by (simp add: count_inv_def search_start_def)

text \<open>From the final state to the answer.\<close>

lemma finite_known:
  assumes "grid_ok g" "tree_inv rnd g start s"
  shows "finite (dom (came_from s))"
proof (rule finite_subset)
  show "dom (came_from s) \<subseteq> dom (adjacency_list g)"
    using tree_invD(3,6) [OF assms(2)] by (auto simp: is_walkable_def)
  show "finite (dom (adjacency_list g))" using assms(1) by (simp add: grid_ok_def)
qed

lemma trace_back_found:
  assumes ok: "grid_ok g" and T: "tree_inv rnd g start s" and goal: "goal \<in> dom (cost_so_far s)"
  shows "\<exists>p. trace_back (came_from s) start (card (dom (came_from s)) + 1) goal 0 [] = (p, Found)
           \<and> path_ok (\<lambda>x y. came_from s y = Some x \<and> y \<noteq> start) start goal p \<and> distinct p"
proof -
  obtain k where k: "chain (came_from s) start k goal" using tree_invD(7) [OF T goal] by blast
  have "k < card (dom (came_from s))"
    using chain_short [OF k] tree_invD(1) [OF T] finite_known [OF ok T] by simp
  then show ?thesis
    using trace_back_chain [OF k, of 0 "card (dom (came_from s)) + 1" "[]"] by auto
qed

lemma path_ok_mono:
  "path_ok e a b p \<Longrightarrow> (\<And>x y. e x y \<Longrightarrow> e' x y) \<Longrightarrow> path_ok e' a b p"
  by (auto simp: path_ok_def intro: successively_mono)

lemma not_reached:
  assumes T: "tree_inv rnd g start s" and F: "front_inv g {} s" and "frontier s = []"
    and "goal \<notin> dom (cost_so_far s)"
  shows "\<not> grid_walk g start goal c"
  using gr.walk_closed_set [of g start goal c "closed s"] F tree_invD(5) [OF T] assms(3,4)
  unfolding front_inv_def by auto

text \<open>What every search answers; \<open>Q\<close> is what is known of a path that is found.\<close>

definition answer_ok ::
  "('l \<Rightarrow> real \<Rightarrow> bool) \<Rightarrow> ('l list \<Rightarrow> bool) \<Rightarrow> (real \<Rightarrow> cost_t) \<Rightarrow> 'l grid \<Rightarrow> 'l search_options \<Rightarrow> 'l \<Rightarrow> 'l
   \<Rightarrow> ('l list \<times> search_result) result \<Rightarrow> bool" where
  "answer_ok A Q rnd g opts start goal out \<longleftrightarrow>
     (case out of
        Inr (p, Found) \<Rightarrow> path_ok (grid_edge g) start goal p \<and> distinct p \<and> Q p
      | Inr (p, Not_found) \<Rightarrow> p = [] \<and> (\<forall>c. \<not> grid_walk g start goal c)
      | Inr (p, Invalid_start) \<Rightarrow> p = [] \<and> \<not> is_walkable g start
      | Inr (p, Invalid_goal) \<Rightarrow> p = [] \<and> \<not> is_walkable g goal
      | Inr (p, r) \<Rightarrow> p = [] \<and> blame A rnd g opts goal (Inr r)
      | Inl err \<Rightarrow> blame A rnd g opts goal (Inl err))"

lemma state_answers:
  assumes ok: "grid_ok g" and inv: "search_inv rnd g start X P s"
    and stop: "goal \<in> closed s \<or> frontier s = [] \<and> P = {}"
    and Q: "\<And>p. goal \<in> closed s \<Longrightarrow> path_ok (\<lambda>x y. came_from s y = Some x \<and> y \<noteq> start) start goal p \<Longrightarrow> Q p"
  shows "answer_ok A Q rnd g opts start goal
           (Inr (if came_from s goal = None then ([], Not_found)
                 else trace_back (came_from s) start (card (dom (came_from s)) + 1) goal 0 []))"
proof -
  have T: "tree_inv rnd g start s" and F: "front_inv g P s" using inv by (simp_all add: search_inv_def)
  show ?thesis
  proof (cases "goal \<in> dom (cost_so_far s)")
    case known: True
    have closed: "goal \<in> closed s" using known stop F by (auto simp: front_inv_def)
    obtain p where p: "trace_back (came_from s) start (card (dom (came_from s)) + 1) goal 0 [] = (p, Found)"
      "path_ok (\<lambda>x y. came_from s y = Some x \<and> y \<noteq> start) start goal p" "distinct p"
      using trace_back_found [OF ok T known] by blast
    have "path_ok (grid_edge g) start goal p" using p(2) tree_invD(11) [OF T] by (auto elim: path_ok_mono)
    then show ?thesis using known p Q [OF closed] tree_invD(3) [OF T] by (auto simp: answer_ok_def)
  next
    case unknown: False
    then have "P = {}" "frontier s = []" using stop F by (auto simp: front_inv_def)
    then have "\<not> grid_walk g start goal c" for c using not_reached [OF T _ _ unknown] F by blast
    then show ?thesis using unknown tree_invD(3) [OF T] by (auto simp: answer_ok_def domIff)
  qed
qed

lemma search_answers:
  assumes ok: "grid_ok g" and rnd: "ieee_rounding rnd"
    and X: "\<And>u. keeps A rnd g opts goal start X u" "pops rnd g start X" "X {} (search_start start)"
    and Q: "\<And>s P p. search_inv rnd g start X P s \<Longrightarrow> goal \<in> closed s \<Longrightarrow>
              path_ok (\<lambda>x y. came_from s y = Some x \<and> y \<noteq> start) start goal p \<Longrightarrow> Q p" "start = goal \<Longrightarrow> Q [start]"
  shows "\<exists>out. astar_search rnd g start goal opts = Some out \<and> answer_ok A Q rnd g opts start goal out"
proof (cases "is_walkable g start \<and> is_walkable g goal \<and> start \<noteq> goal")
  case True
  then obtain out where out: "search_loop rnd g opts goal (search_start start) = Some out"
    "case out of Inl err \<Rightarrow> blame A rnd g opts goal (Inl err) | Inr (Inl r) \<Rightarrow> blame A rnd g opts goal (Inr r)
       | Inr (Inr s') \<Rightarrow> (\<exists>P. search_inv rnd g start X P s' \<and> (goal \<in> closed s' \<or> frontier s' = [] \<and> P = {}))"
    using search_loop_inv [OF ok rnd _ X(1,2) search_inv_start count_inv_start] rnd X(3) by blast
  show ?thesis
  proof (cases out)
    case (Inl err)
    then show ?thesis using True out by (simp add: astar_search_def answer_ok_def)
  next
    case (Inr a)
    show ?thesis
    proof (cases a)
      case (Inl r)
      then show ?thesis using True out Inr by (cases r) (simp_all add: astar_search_def answer_ok_def)
    next
      case s: (Inr s)
      then obtain P where P: "search_inv rnd g start X P s" "goal \<in> closed s \<or> frontier s = [] \<and> P = {}"
        using out Inr by auto
      have "answer_ok A Q rnd g opts start goal
           (Inr (if came_from s goal = None then ([], Not_found)
                 else trace_back (came_from s) start (card (dom (came_from s)) + 1) goal 0 []))"
        by (rule state_answers [OF ok P]) (rule Q(1) [OF P(1)])
      then show ?thesis using True out(1) Inr s by (auto simp: astar_search_def)
    qed
  qed
qed (use Q(2) in \<open>auto simp: astar_search_def answer_ok_def path_ok_def\<close>)

end
