(* ===== verification/AstarProps.thy ===== *)
theory AstarProps
  imports AstarSearch
begin

text \<open>
  The properties of \<open>src/hj/algo/astar.hpp\<close>: the contract of the search, shortest paths for integral
  weights and a consistent heuristic, the invariant of the grid, and path smoothing.
\<close>

section \<open>Shortest paths\<close>

fun path_cost :: "'l grid \<Rightarrow> 'l list \<Rightarrow> real" where
  "path_cost g (u # v # p) = grid_weight g u v + path_cost g (v # p)"
| "path_cost g p = 0"

lemma path_cost_snoc: "p \<noteq> [] \<Longrightarrow> path_cost g (p @ [v]) = path_cost g p + grid_weight g (last p) v"
  by (induction p rule: induct_list012) auto

text \<open>
  A setting in which the arithmetic of the search is exact: weights are integers up to \<open>M\<close>, the heuristic
  has integral values up to \<open>K\<close> and is consistent, and integers up to the largest sum that can occur
  (which is \<open>2 ^ 53\<close> for a \<open>double\<close>) are represented exactly. Nothing cuts the search short.
\<close>

definition guided ::
  "(real \<Rightarrow> cost_t) \<Rightarrow> 'l grid \<Rightarrow> 'l search_options \<Rightarrow> 'l \<Rightarrow> nat \<Rightarrow> nat \<Rightarrow> ('l \<Rightarrow> nat) \<Rightarrow> bool" where
  "guided rnd g opts goal M K H \<longleftrightarrow>
     (\<forall>k \<le> (card (dom (adjacency_list g)) + 1) * M + K. rnd (real k) = Fin (real k))
     \<and> (\<forall>u v. grid_edge g u v \<longrightarrow>
          (\<exists>w\<le>M. grid_weight g u v = real w) \<and> real (H u) \<le> grid_weight g u v + real (H v))
     \<and> (\<forall>v. is_walkable g v \<longrightarrow> H v \<le> K \<and> heuristic opts v goal = Inr (Fin (real (H v))))
     \<and> max_expansions opts = 0 \<and> (\<forall>ask k. should_cancel opts = Some ask \<longrightarrow> \<not> ask k)"

definition opt_inv ::
  "'l::linorder grid \<Rightarrow> 'l \<Rightarrow> nat \<Rightarrow> ('l \<Rightarrow> nat) \<Rightarrow> ('l \<times> 'l) set \<Rightarrow> 'l search_state \<Rightarrow> bool" where
  "opt_inv g start M H P s \<longleftrightarrow>
     pq_ok (frontier s)
     \<and> (\<forall>n\<in>dom (cost_so_far s). grid_walk g start n (est s n) \<and> (\<exists>k\<le>card (closed s) * M. est s n = real k))
     \<and> (\<forall>n\<in>dom (cost_so_far s) - closed s. \<exists>f. (Fin f, n) \<in> set (frontier s) \<and> f \<le> est s n + H n)
     \<and> (\<forall>f n. (Fin f, n) \<in> set (frontier s) \<longrightarrow> n = start \<or> est s n + H n \<le> f)
     \<and> (\<forall>u\<in>closed s. \<forall>c. grid_walk g start u c \<longrightarrow> est s u \<le> c)
     \<and> (\<forall>u\<in>closed s. \<forall>v. grid_edge g u v \<longrightarrow>
          (u, v) \<in> P \<or> v \<in> dom (cost_so_far s) \<and> est s v \<le> est s u + grid_weight g u v)
     \<and> (start \<in> closed s \<or> closed s = {} \<and> dom (cost_so_far s) \<subseteq> {start})
     \<and> (\<forall>n p. came_from s n = Some p \<longrightarrow> n \<noteq> start \<longrightarrow> est s p + grid_weight g p n \<le> est s n)
     \<and> (\<forall>u v. (u, v) \<in> P \<longrightarrow> u \<in> closed s \<and> est s u + M \<le> card (closed s) * M)"

lemma opt_invD:
  assumes "opt_inv g start M H P s"
  shows "pq_ok (frontier s)"
    "n \<in> dom (cost_so_far s) \<Longrightarrow> grid_walk g start n (est s n)"
    "n \<in> dom (cost_so_far s) \<Longrightarrow> \<exists>k\<le>card (closed s) * M. est s n = real k"
    "n \<in> dom (cost_so_far s) \<Longrightarrow> n \<notin> closed s \<Longrightarrow> \<exists>f. (Fin f, n) \<in> set (frontier s) \<and> f \<le> est s n + H n"
    "(Fin f, n) \<in> set (frontier s) \<Longrightarrow> n = start \<or> est s n + H n \<le> f"
    "u \<in> closed s \<Longrightarrow> grid_walk g start u c \<Longrightarrow> est s u \<le> c"
    "u \<in> closed s \<Longrightarrow> grid_edge g u v \<Longrightarrow>
       (u, v) \<in> P \<or> v \<in> dom (cost_so_far s) \<and> est s v \<le> est s u + grid_weight g u v"
    "start \<in> closed s \<or> closed s = {} \<and> dom (cost_so_far s) \<subseteq> {start}"
    "came_from s n = Some p \<Longrightarrow> n \<noteq> start \<Longrightarrow> est s p + grid_weight g p n \<le> est s n"
    "(u, v) \<in> P \<Longrightarrow> u \<in> closed s \<and> est s u + M \<le> card (closed s) * M"
  using assms unfolding opt_inv_def by (elim conjE, blast)+

lemma guidedD:
  assumes "guided rnd g opts goal M K H"
  shows "k \<le> (card (dom (adjacency_list g)) + 1) * M + K \<Longrightarrow> rnd (real k) = Fin (real k)"
    "grid_edge g u v \<Longrightarrow> \<exists>w\<le>M. grid_weight g u v = real w"
    "grid_edge g u v \<Longrightarrow> real (H u) \<le> grid_weight g u v + real (H v)"
    "is_walkable g v \<Longrightarrow> H v \<le> K" "is_walkable g v \<Longrightarrow> heuristic opts v goal = Inr (Fin (real (H v)))"
  using assms unfolding guided_def by blast+

lemma closed_count:
  assumes "grid_ok g" "tree_inv rnd g start s" "front_inv g P s"
  shows "finite (closed s)" "card (closed s) \<le> card (dom (adjacency_list g))"
proof -
  have "closed s \<subseteq> dom (adjacency_list g)"
    using assms(3) tree_invD(6) [OF assms(2)] by (auto simp: front_inv_def is_walkable_def)
  moreover have "finite (dom (adjacency_list g))" using assms(1) by (simp add: grid_ok_def)
  ultimately show "finite (closed s)" "card (closed s) \<le> card (dom (adjacency_list g))"
    by (auto intro: finite_subset card_mono)
qed

text \<open>In this setting the sum of an estimate and a weight is exact.\<close>

lemma guided_sum:
  assumes ok: "grid_ok g" and G: "guided rnd g opts goal M K H"
    and inv: "search_inv rnd g start (opt_inv g start M H) P s" and u: "u \<in> closed s" and e: "grid_edge g u v"
  obtains k where "est s u + grid_weight g u v = real k" "k \<le> (card (dom (adjacency_list g)) + 1) * M"
    "rnd (est s u + grid_weight g u v) = Fin (real k)" "rnd (real k + real (H v)) = Fin (real k + real (H v))"
proof -
  have T: "tree_inv rnd g start s" and F: "front_inv g P s" and X: "opt_inv g start M H P s"
    using inv by (simp_all add: search_inv_def)
  have "u \<in> dom (cost_so_far s)" using F u by (auto simp: front_inv_def)
  then obtain k where k: "k \<le> card (closed s) * M" "est s u = real k" using opt_invD(3) [OF X] by blast
  obtain w where w: "w \<le> M" "grid_weight g u v = real w" using guidedD(2) [OF G e] by blast
  have "card (closed s) * M \<le> card (dom (adjacency_list g)) * M"
    using closed_count(2) [OF ok T F] by (rule mult_le_mono1)
  then have "k + w \<le> card (dom (adjacency_list g)) * M + M" using k(1) w(1) by linarith
  then have kw: "k + w \<le> (card (dom (adjacency_list g)) + 1) * M" by simp
  have "H v \<le> K" using guidedD(4) [OF G] e by (simp add: grid_edge_def)
  then show thesis
    using that [of "k + w"] kw k w guidedD(1) [OF G, of "k + w"] guidedD(1) [OF G, of "k + w + H v"] by simp
qed

lemma opt_inv_drop:
  "opt_inv g start M H P s \<Longrightarrow> \<not> grid_edge g u v \<or> v \<in> dom (cost_so_far s) \<and> est s v \<le> est s u + grid_weight g u v
   \<Longrightarrow> opt_inv g start M H (P - {(u, v)}) s"
  unfolding opt_inv_def by blast

lemma opt_inv_improve:
  assumes T: "tree_inv rnd g start s" and F: "front_inv g P s" and X: "opt_inv g start M H P s"
    and u: "u \<in> closed s" and e: "grid_edge g u v" and w: "w \<le> M" "grid_weight g u v = real w"
    and r: "r = est s u + grid_weight g u v" and new: "v \<notin> dom (cost_so_far s) \<or> r < est s v"
    and f: "f = r + H v"
  shows "opt_inv g start M H (P - {(u, v)}) (improve u v r (Fin f) s)"
proof -
  note D = opt_invD [OF X] and TD = tree_invD [OF T]
  have ud: "u \<in> dom (cost_so_far s)" using F u by (auto simp: front_inv_def)
  have walk: "grid_walk g start v r" using walk_step [OF D(2) [OF ud] e] r by simp
  have open_v: "v \<notin> closed s"
    using new D(6) [OF _ walk] F by (auto simp: front_inv_def)
  have pend: "(u, v) \<in> P" using D(7) [OF u e] new r by auto
  obtain k where k: "est s u = real k" using D(3) [OF ud] by blast
  have rk: "\<exists>k\<le>card (closed s) * M. r = real k"
    using D(10) [OF pend] w unfolding r k by (intro exI [of _ "k + w"]) (simp flip: of_nat_mult of_nat_add)
  have vs: "v \<noteq> start" "u \<noteq> v" using new TD(4,5) TD(8) [OF ud] u open_v r gr.weight_nonneg [OF e] by auto
  have better: "r \<le> est s v" if "v \<in> dom (cost_so_far s)" using new that by auto
  show ?thesis
    unfolding opt_inv_def improve_simps
  proof (intro conjI ballI allI impI)
    show "pq_ok (pq_put (Fin f, v) (frontier s))" using pq_ok_put [OF D(1)] by (simp add: isfinite_def)
  next
    fix n assume n: "n \<in> dom ((cost_so_far s)(v \<mapsto> Fin r))"
    then show "grid_walk g start n (if n = v then r else est s n)" using walk D(2) [of n] by auto
    show "\<exists>k\<le>card (closed s) * M. (if n = v then r else est s n) = real k"
      using n rk D(3) [of n] by (cases "n = v") auto
  next
    fix n assume "n \<in> dom ((cost_so_far s)(v \<mapsto> Fin r)) - closed s"
    then show "\<exists>fa. (Fin fa, n) \<in> set (pq_put (Fin f, v) (frontier s)) \<and> fa \<le> (if n = v then r else est s n) + H n"
      using D(4) [of n] f by (cases "n = v") auto
  next
    fix fa n assume "(Fin fa, n) \<in> set (pq_put (Fin f, v) (frontier s))"
    then show "n = start \<or> (if n = v then r else est s n) + H n \<le> fa"
      using D(5) [of fa n] f better F by (cases "n = v") (force simp: front_inv_def)+
  next
    fix x c assume "x \<in> closed s" "grid_walk g start x c"
    then show "(if x = v then r else est s x) \<le> c" using D(6) open_v by auto
  next
    fix x y assume x: "x \<in> closed s" "grid_edge g x y"
    then have "x \<noteq> v" using open_v by blast
    then show "(x, y) \<in> P - {(u, v)} \<or> y \<in> dom ((cost_so_far s)(v \<mapsto> Fin r))
        \<and> (if y = v then r else est s y) \<le> (if x = v then r else est s x) + grid_weight g x y"
      using D(7) [OF x] better r by (cases "(x, y) = (u, v)"; cases "y = v") force+
  next
    show "start \<in> closed s \<or> closed s = {} \<and> dom ((cost_so_far s)(v \<mapsto> Fin r)) \<subseteq> {start}"
      using D(8) u by blast
  next
    fix n p assume "((came_from s)(v \<mapsto> u)) n = Some p" "n \<noteq> start"
    then show "(if p = v then r else est s p) + grid_weight g p n \<le> (if n = v then r else est s n)"
      using D(9) [of n p] r vs better TD(12) [of n p] by (cases "n = v"; cases "p = v") auto
  next
    fix x y assume "(x, y) \<in> P - {(u, v)}"
    then show "x \<in> closed s" "(if x = v then r else est s x) + M \<le> card (closed s) * M"
      using D(10) [of x y] open_v by auto
  qed
qed

text \<open>The costs that can occur at a location.\<close>

definition small_cost :: "'l grid \<Rightarrow> nat \<Rightarrow> 'l \<Rightarrow> real \<Rightarrow> bool" where
  "small_cost g M u a \<longleftrightarrow> (\<exists>k\<le>card (dom (adjacency_list g)) * M. a = real k)"

lemma opt_inv_keeps:
  assumes ok: "grid_ok g" and G: "guided rnd g opts goal M K H"
  shows "keeps (small_cost g M) rnd g opts goal start (opt_inv g start M H) u"
  unfolding keeps_def
proof (intro allI impI conjI)
  fix P s v assume inv: "search_inv rnd g start (opt_inv g start M H) P s" and u: "u \<in> closed s"
  have T: "tree_inv rnd g start s" and F: "front_inv g P s" and X: "opt_inv g start M H P s"
    using inv by (simp_all add: search_inv_def)
  show "small_cost g M u (est s u)"
  proof -
    have "card (closed s) * M \<le> card (dom (adjacency_list g)) * M"
      using closed_count(2) [OF ok T F] by (rule mult_le_mono1)
    moreover have "u \<in> dom (cost_so_far s)" using F u by (auto simp: front_inv_def)
    ultimately show ?thesis using opt_invD(3) [OF X, of u] le_trans unfolding small_cost_def by blast
  qed
  show "opt_inv g start M H (P - {(u, v)}) s" if "\<not> grid_edge g u v" using opt_inv_drop [OF X] that by blast
  show "opt_inv g start M H (P - {(u, v)}) s"
    if e: "grid_edge g u v" "rnd (est s u + grid_weight g u v) = Fin r" "v \<in> dom (cost_so_far s)" "est s v \<le> r" for r
  proof -
    obtain k where "est s u + grid_weight g u v = real k" "rnd (est s u + grid_weight g u v) = Fin (real k)"
      using guided_sum [OF ok G inv u e(1)] by blast
    then show ?thesis using opt_inv_drop [OF X, of u v] e by simp
  qed
  show "opt_inv g start M H (P - {(u, v)}) (improve u v r (rnd (r + h)) s)"
    if e: "grid_edge g u v" "rnd (est s u + grid_weight g u v) = Fin r" "v \<notin> dom (cost_so_far s) \<or> r < est s v"
      "heuristic opts v goal = Inr (Fin h)" for r h
  proof -
    obtain k where k: "est s u + grid_weight g u v = real k" "rnd (est s u + grid_weight g u v) = Fin (real k)"
      "rnd (real k + real (H v)) = Fin (real k + real (H v))"
      using guided_sum [OF ok G inv u e(1)] by blast
    have h: "h = real (H v)" using guidedD(5) [OF G, of v] e(1,4) by (simp add: grid_edge_def)
    obtain w where w: "w \<le> M" "grid_weight g u v = real w" using guidedD(2) [OF G e(1)] by blast
    have r: "r = est s u + grid_weight g u v" using k e(2) by simp
    show ?thesis
      using opt_inv_improve [OF T F X u e(1) w r e(3) refl] k r h by simp
  qed
qed

text \<open>The first element of the queue is known exactly when it is closed.\<close>

lemma first_is_exact:
  assumes G: "guided rnd g opts goal M K H" and inv: "search_inv rnd g start (opt_inv g start M H) {} s"
    and fr: "frontier s = (f, u) # q" and u: "u \<notin> closed s" and walk: "grid_walk g start u c"
  shows "est s u \<le> c"
proof -
  have T: "tree_inv rnd g start s" and F: "front_inv g {} s" and X: "opt_inv g start M H {} s"
    using inv by (simp_all add: search_inv_def)
  note D = opt_invD [OF X]
  have ud: "u \<in> dom (cost_so_far s)" using F fr by (simp add: front_inv_def)
  show ?thesis
  proof (cases "start \<in> closed s")
    case False
    then have "u = start" using D(8) ud by blast
    then show ?thesis using tree_invD(4) [OF T] gr.walk_nonneg [OF walk] by simp
  next
    case True
    obtain f0 where f0: "f = Fin f0" "\<And>f' v. (Fin f', v) \<in> set q \<Longrightarrow> f0 \<le> f'"
      using pq_ok_Cons [OF D(1) [unfolded fr]] by blast
    have "\<exists>y\<in>dom (cost_so_far s) - closed s. est s y + real (H y) \<le> c + real (H u)"
      using gr.walk_leaves_known [OF walk True u, of "\<lambda>n. real (H n)" "est s" "dom (cost_so_far s)"]
        guidedD(3) [OF G] D(6,7) by blast
    then obtain y where y: "y \<in> dom (cost_so_far s) - closed s" "est s y + H y \<le> c + H u" by blast
    obtain f' where f': "(Fin f', y) \<in> set (frontier s)" "f' \<le> est s y + H y" using D(4) [of y] y(1) by blast
    have "f0 \<le> f'" using f'(1) fr f0 by auto
    moreover have "est s u + H u \<le> f0" using D(5) [of f0 u] fr f0 u True by auto
    ultimately show ?thesis using f'(2) y(2) by linarith
  qed
qed

lemma opt_inv_pops:
  assumes ok: "grid_ok g" and G: "guided rnd g opts goal M K H"
  shows "pops rnd g start (opt_inv g start M H)"
  unfolding pops_def
proof (intro allI impI conjI)
  fix s f u q nbs
  assume inv: "search_inv rnd g start (opt_inv g start M H) {} s" and fr: "frontier s = (f, u) # q"
    and nbs: "adjacency_list g u = Some nbs"
  have T: "tree_inv rnd g start s" and F: "front_inv g {} s" and X: "opt_inv g start M H {} s"
    using inv by (simp_all add: search_inv_def)
  note D = opt_invD [OF X]
  have q: "pq_ok q" using pq_ok_Cons [OF D(1) [unfolded fr]] by blast
  have ud: "u \<in> dom (cost_so_far s)" using F fr by (simp add: front_inv_def)
  have wait: "\<exists>f'. (Fin f', n) \<in> set q \<and> f' \<le> est s n + H n"
    if "n \<in> dom (cost_so_far s)" "n \<notin> closed s" "n \<noteq> u" for n
    using D(4) [OF that(1,2)] fr that(3) by auto
  have queued: "n = start \<or> est s n + H n \<le> f'" if "(Fin f', n) \<in> set q" for f' n
    using D(5) [of f' n] fr that by simp
  show "opt_inv g start M H {} (s\<lparr>frontier := q\<rparr>)" if "u \<in> closed s"
  proof -
    have "est (s\<lparr>frontier := q\<rparr>) = est s" by (simp add: est_def fun_eq_iff)
    then show ?thesis
      using X q wait queued that by (simp add: opt_inv_def) blast
  qed
  show "opt_inv g start M H ({u} \<times> set nbs) (take_first u q p e s)" if u: "u \<notin> closed s" for p e
  proof -
    let ?s = "take_first u q p e s"
    have sel: "est ?s = est s" "cost_so_far ?s = cost_so_far s" "came_from ?s = came_from s"
      "frontier ?s = q" "closed ?s = insert u (closed s)"
      by (simp_all add: take_first_def est_def fun_eq_iff)
    have card: "card (insert u (closed s)) * M = card (closed s) * M + M"
      using closed_count(1) [OF ok T F] u by simp
    have edges: "v \<in> set nbs" if "grid_edge g u v" for v using that nbs by (simp add: grid_edge_def)
    obtain k where k: "k \<le> card (closed s) * M" "est s u = real k" using D(3) [OF ud] by blast
    have "est s u + M \<le> card (closed s) * M + M" using k by (simp flip: of_nat_mult)
    then show ?thesis
      unfolding opt_inv_def sel card
    proof (intro conjI ballI allI impI)
      fix n assume "n \<in> dom (cost_so_far s)"
      then show "grid_walk g start n (est s n)" "\<exists>k\<le>card (closed s) * M + M. est s n = real k"
        using D(2,3) [of n] trans_le_add1 by blast+
    next
      fix v c assume "v \<in> insert u (closed s)" "grid_walk g start v c"
      then show "est s v \<le> c" using D(6) first_is_exact [OF G inv fr u] by blast
    next
      fix v z assume "v \<in> insert u (closed s)" "grid_edge g v z"
      then show "(v, z) \<in> {u} \<times> set nbs \<or> z \<in> dom (cost_so_far s) \<and> est s z \<le> est s v + grid_weight g v z"
        using D(7) [of v z] edges by blast
    next
      show "start \<in> insert u (closed s) \<or> insert u (closed s) = {} \<and> dom (cost_so_far s) \<subseteq> {start}"
        using D(8) ud by blast
    qed (use q wait queued D(9) in \<open>auto\<close>)
  qed
qed

lemma tree_path_cost:
  assumes X: "opt_inv g start M H P s" and start: "est s start = 0"
    and p: "path_ok (\<lambda>x y. came_from s y = Some x \<and> y \<noteq> start) start n p"
  shows "path_cost g p \<le> est s n"
  using p
proof (induction p arbitrary: n rule: rev_induct)
  case (snoc v p)
  show ?case
  proof (cases "p = []")
    case True
    then show ?thesis using snoc.prems start by (auto simp: path_ok_def)
  next
    case False
    then have "came_from s v = Some (last p)" "v \<noteq> start" "n = v"
      "path_ok (\<lambda>x y. came_from s y = Some x \<and> y \<noteq> start) start (last p) p"
      using snoc.prems by (auto simp: path_ok_def successively_append_iff)
    then show ?thesis
      using snoc.IH [of "last p"] opt_invD(9) [OF X, of v "last p"] path_cost_snoc [OF False, of g v] by simp
  qed
qed (simp add: path_ok_def)

lemma path_is_walk: "path_ok (grid_edge g) a b p \<Longrightarrow> grid_walk g a b (path_cost g p)"
proof (induction p arbitrary: b rule: rev_induct)
  case (snoc v p)
  show ?case
  proof (cases "p = []")
    case True
    then show ?thesis using snoc.prems by (auto simp: path_ok_def intro: walk_here)
  next
    case False
    then have "grid_edge g (last p) v" "v = b" "path_ok (grid_edge g) a (last p) p"
      using snoc.prems by (auto simp: path_ok_def successively_append_iff)
    then show ?thesis using snoc.IH walk_step path_cost_snoc [OF False, of g v] by metis
  qed
qed (simp add: path_ok_def)

lemma opt_inv_start: "opt_inv g start M H {} (search_start start)"
  by (auto simp: opt_inv_def search_start_def pq_ok_def isfinite_def est_def walk.intros split: if_splits)

section \<open>The grid\<close>

text \<open>The grids that the operations of the class can build.\<close>

inductive grid_built :: "location grid \<Rightarrow> bool" where
  built_empty: "grid_built grid_empty"
| built_new: "grid_new width height = Inr g \<Longrightarrow> grid_built g"
| built_location: "grid_built g \<Longrightarrow> grid_built (add_location loc nbs g)"
| built_obstacles: "grid_built g \<Longrightarrow> grid_built (add_obstacles obs g)"
| built_weight: "grid_built g \<Longrightarrow> set_edge_weight from to w g = (b, g') \<Longrightarrow> grid_built g'"

lemma add_obstacles_eq: "add_obstacles obs g = g\<lparr>obstacles := set obs \<union> obstacles g\<rparr>"
  unfolding add_obstacles_def by (induction obs arbitrary: g) auto

lemma fold_touch:
  "fold touch locs g = g\<lparr>adjacency_list := (\<lambda>loc. if loc \<in> set locs \<and> adjacency_list g loc = None then Some []
                                                  else adjacency_list g loc)\<rparr>"
  by (induction locs arbitrary: g) (auto simp: touch_def fun_eq_iff)

lemma grid_new_eq:
  "grid_new width height =
     (if width \<le> 0 \<or> height \<le> 0 then Inl Throw_invalid_argument
      else Inr (grid_empty\<lparr>adjacency_list := (\<lambda>loc. if 0 \<le> loc_x loc \<and> loc_x loc < width \<and> 0 \<le> loc_y loc
                                                     \<and> loc_y loc < height then Some [] else None)\<rparr>))"
proof -
  have row: "fold (\<lambda>x. touch (Location x y)) xs = fold touch (map (\<lambda>x. Location x y) xs)" for xs y
    by (simp add: fold_map comp_def)
  have "fold (\<lambda>y g. fold (\<lambda>x. touch (Location x y)) [0..width - 1] g) ys g =
      fold touch (concat (map (\<lambda>y. map (\<lambda>x. Location x y) [0..width - 1]) ys)) g" for ys g
    by (induction ys arbitrary: g) (simp_all add: row)
  moreover have "loc \<in> set (concat (map (\<lambda>y. map (\<lambda>x. Location x y) [0..width - 1]) [0..height - 1])) \<longleftrightarrow>
      0 \<le> loc_x loc \<and> loc_x loc < width \<and> 0 \<le> loc_y loc \<and> loc_y loc < height" for loc
    by (cases loc) (force simp: image_iff)
  ultimately show ?thesis by (simp add: grid_new_def fold_touch grid_empty_def fun_eq_iff)
qed

lemma grid_built_ok: "grid_built g \<Longrightarrow> grid_ok g"
proof (induction rule: grid_built.induct)
  case built_empty
  then show ?case by (simp add: grid_ok_def grid_empty_def)
next
  case (built_new width height g)
  have "finite ((\<lambda>(x, y). Location x y) ` ({0..<width} \<times> {0..<height}))" by simp
  moreover have "dom (adjacency_list g) \<subseteq> (\<lambda>(x, y). Location x y) ` ({0..<width} \<times> {0..<height})"
  proof
    fix loc assume "loc \<in> dom (adjacency_list g)"
    then show "loc \<in> (\<lambda>(x, y). Location x y) ` ({0..<width} \<times> {0..<height})"
      using built_new by (intro image_eqI [of _ _ "(loc_x loc, loc_y loc)"])
        (auto simp: grid_new_eq split: if_splits)
  qed
  ultimately show ?case
    using built_new finite_subset by (auto simp: grid_ok_def grid_new_eq grid_empty_def split: if_splits)
next
  case (built_weight g a b w ok g')
  have "ran ((edge_weights g)((a, b) \<mapsto> w)) \<subseteq> insert w (ran (edge_weights g))" by (auto simp: ran_def)
  then show ?case
    using built_weight by (auto simp: grid_ok_def set_edge_weight_def split: if_splits)
qed (auto simp: grid_ok_def add_location_def add_obstacles_eq)

section \<open>Smoothing\<close>

definition cross :: "location \<Rightarrow> location \<Rightarrow> location \<Rightarrow> int" where
  "cross a b m = (loc_x b - loc_x a) * (loc_y m - loc_y a) - (loc_y b - loc_y a) * (loc_x m - loc_x a)"

text \<open>\<open>kept\<close> consists of points of \<open>path\<close>, from the first to the last, such that the points left out between
  two neighbours lie on the line through them.\<close>

inductive straight_cover :: "location list \<Rightarrow> location list \<Rightarrow> bool" where
  cover_last: "straight_cover [a] [a]"
| cover_run: "straight_cover (b # rest) (b # ks) \<Longrightarrow> (\<And>m. m \<in> set mid \<Longrightarrow> cross a b m = 0)
              \<Longrightarrow> straight_cover (a # mid @ b # rest) (a # b # ks)"

lemma cover_run_append:
  "straight_cover (b # rest) (b # ks) \<Longrightarrow> (\<And>m. m \<in> set mid \<Longrightarrow> cross a b m = 0)
   \<Longrightarrow> straight_cover ((a # mid) @ b # rest) (a # b # ks)"
  using cover_run by simp

text \<open>Vectors parallel to the same vector that is not zero are parallel to each other.\<close>

lemma parallel_trans:
  fixes dx dy x y x' y' :: int
  assumes "dx \<noteq> 0 \<or> dy \<noteq> 0" "dx * y = dy * x" "dx * y' = dy * x'"
  shows "x * y' = y * x'"
proof (cases "dx = 0")
  case True
  then show ?thesis using assms by simp
next
  case False
  have "dx * (x * y') = x * (dx * y')" by simp
  also have "\<dots> = (dy * x) * x'" by (simp add: assms(3))
  also have "\<dots> = dx * (y * x')" by (simp add: assms(2) [symmetric])
  finally show ?thesis using False by simp
qed

definition exact_ints :: "(real \<Rightarrow> real) \<Rightarrow> bool" where
  "exact_ints ld \<longleftrightarrow> (\<forall>k::int. \<bar>k\<bar> \<le> 2 ^ 64 \<longrightarrow> ld (of_int k) = of_int k)"

definition int_range :: "location \<Rightarrow> bool" where
  "int_range loc \<longleftrightarrow> loc_x loc \<in> {- (2 ^ 31)..<2 ^ 31} \<and> loc_y loc \<in> {- (2 ^ 31)..<2 ^ 31}"

lemma keeps_turn_exact:
  assumes ld: "exact_ints ld" and r: "int_range a" "int_range b" "int_range c"
  shows "keeps_turn ld a b c \<longleftrightarrow>
     (loc_x b - loc_x a) * (loc_y c - loc_y b) \<noteq> (loc_y b - loc_y a) * (loc_x c - loc_x b)"
proof -
  have "\<bar>u - v\<bar> \<le> 2 ^ 32" if "u \<in> {- (2 ^ 31)..<2 ^ 31}" "v \<in> {- (2 ^ 31)..<2 ^ 31}" for u v :: int
    using that by auto
  then have d: "\<bar>loc_x u - loc_x v\<bar> \<le> 2 ^ 32 \<and> \<bar>loc_y u - loc_y v\<bar> \<le> 2 ^ 32" if "int_range u" "int_range v" for u v
    using that by (simp add: int_range_def)
  have one: "ld (of_int k) = of_int k" if "\<bar>k\<bar> \<le> 2 ^ 64" for k using ld that by (simp add: exact_ints_def)
  have coord: "ld (of_int (loc_x u)) = of_int (loc_x u) \<and> ld (of_int (loc_y u)) = of_int (loc_y u)" if "int_range u" for u
    using that by (intro conjI one) (auto simp: int_range_def)
  have diff: "ld_diff ld (loc_x u) (loc_x v) = of_int (loc_x u - loc_x v)
      \<and> ld_diff ld (loc_y u) (loc_y v) = of_int (loc_y u - loc_y v)" if "int_range u" "int_range v" for u v
    using coord [OF that(1)] coord [OF that(2)] d [OF that] one [of "loc_x u - loc_x v"] one [of "loc_y u - loc_y v"]
    by (simp add: ld_diff_def)
  have prod: "ld (of_int k * of_int l) = of_int (k * l)" if "\<bar>k\<bar> \<le> 2 ^ 32" "\<bar>l\<bar> \<le> 2 ^ 32" for k l :: int
  proof -
    have "\<bar>k * l\<bar> \<le> 2 ^ 32 * 2 ^ 32" unfolding abs_mult using that by (intro mult_mono) auto
    then show ?thesis using one [of "k * l"] by simp
  qed
  show ?thesis
    unfolding keeps_turn_def Let_def diff [OF r(2,1), THEN conjunct1] diff [OF r(2,1), THEN conjunct2]
      diff [OF r(3,2), THEN conjunct1] diff [OF r(3,2), THEN conjunct2]
    using d [OF r(2,1)] d [OF r(3,2)] by (simp only: prod of_int_eq_iff)
qed

lemma smooth_run:
  assumes ld: "exact_ints ld" and "\<forall>x\<in>set (prev # cur # rest). int_range x"
    and "successively (\<noteq>) (prev # cur # rest)" and d: "dx \<noteq> 0 \<or> dy \<noteq> 0"
    and "dx * (loc_y cur - loc_y prev) = dy * (loc_x cur - loc_x prev)"
    and "\<forall>m\<in>set (cur # mid). dx * (loc_y m - loc_y a) = dy * (loc_x m - loc_x a)"
  shows "straight_cover ((a # mid) @ cur # rest) (a # smooth_inner ld (prev # cur # rest) @ [last (cur # rest)])"
  using assms(2-)
proof (induction rest arbitrary: prev cur a mid dx dy)
  case Nil
  have "cross a cur m = 0" if "m \<in> set mid" for m
    using parallel_trans [OF Nil.prems(3), of "loc_y cur - loc_y a" "loc_x cur - loc_x a" "loc_y m - loc_y a"
        "loc_x m - loc_x a"] Nil.prems(5) that by (simp add: cross_def)
  then show ?case using cover_run_append [OF cover_last] by simp
next
  case (Cons nxt rest)
  have line: "cross a cur m = 0" if "m \<in> set mid" for m
    using parallel_trans [OF Cons.prems(3), of "loc_y cur - loc_y a" "loc_x cur - loc_x a" "loc_y m - loc_y a"
        "loc_x m - loc_x a"] Cons.prems(5) that by (simp add: cross_def)
  have turn: "keeps_turn ld prev cur nxt \<longleftrightarrow>
     (loc_x cur - loc_x prev) * (loc_y nxt - loc_y cur) \<noteq> (loc_y cur - loc_y prev) * (loc_x nxt - loc_x cur)"
    using keeps_turn_exact [OF ld] Cons.prems(1) by simp
  have apart: "loc_x nxt - loc_x cur \<noteq> 0 \<or> loc_y nxt - loc_y cur \<noteq> 0"
    "loc_x cur - loc_x prev \<noteq> 0 \<or> loc_y cur - loc_y prev \<noteq> 0"
    using Cons.prems(2) by (auto simp: location.expand)
  show ?case
  proof (cases "keeps_turn ld prev cur nxt")
    case True
    have "straight_cover ((cur # []) @ nxt # rest) (cur # smooth_inner ld (cur # nxt # rest) @ [last (nxt # rest)])"
      using Cons.prems(1,2)
      by (intro Cons.IH [OF _ _ apart(1)]) (auto simp: algebra_simps)
    then have "straight_cover (cur # nxt # rest) (cur # smooth_inner ld (cur # nxt # rest) @ [last (nxt # rest)])" by simp
    from cover_run_append [OF this line] show ?thesis using True by simp
  next
    case False
    let ?px = "loc_x cur - loc_x prev" and ?py = "loc_y cur - loc_y prev"
    have step: "dx * (loc_y nxt - loc_y cur) = dy * (loc_x nxt - loc_x cur)"
      using parallel_trans [OF apart(2), of dy dx "loc_y nxt - loc_y cur" "loc_x nxt - loc_x cur"]
        False turn Cons.prems(4) by (simp add: mult.commute)
    then have "dx * (loc_y nxt - loc_y a) = dy * (loc_x nxt - loc_x a)"
      using Cons.prems(5) by (simp add: algebra_simps)
    then have "straight_cover ((a # mid @ [cur]) @ nxt # rest)
        (a # smooth_inner ld (cur # nxt # rest) @ [last (nxt # rest)])"
      using Cons.prems(1,2,5) step by (intro Cons.IH [OF _ _ Cons.prems(3)]) auto
    then show ?thesis using False by simp
  qed
qed

section \<open>Properties\<close>

text \<open>
  C2. The contract of the search, for every grid that the operations can build, every IEEE rounding, every
  heuristic and every limit: it returns. A path that is found leads from the start to the goal along
  edges between walkable locations and visits no location twice; \<open>not_found\<close> means that no walk exists;
  \<open>invalid_graph\<close> never occurs, and every other answer has the reason it names: a heuristic that is not a
  finite non-negative number, a sum that overflows, a cancellation, or more locations than the limit.
\<close>

theorem astar_contract:
  assumes "grid_built g" "ieee_rounding rnd"
  shows "\<exists>out. astar_search rnd g start goal opts = Some out
           \<and> answer_ok (\<lambda>u a. rnd a = Fin a) (\<lambda>p. True) rnd g opts start goal out"
proof (rule search_answers [OF grid_built_ok [OF assms(1)] assms(2), where X = "\<lambda>P s. True"])
  have "rnd (est s u) = Fin (est s u)" if "search_inv rnd g start (\<lambda>P s. True) P s" "u \<in> closed s" for P s u
    using that tree_invD(10) [of rnd g start s u] by (auto simp: search_inv_def front_inv_def)
  then show "keeps (\<lambda>u a. rnd a = Fin a) rnd g opts goal start (\<lambda>P s. True) u" for u
    by (auto simp: keeps_def)
qed (simp_all add: pops_def)

text \<open>A grid of four locations: from the corner one can go right at the cost 5 or down at the cost 1, and
  from both to the opposite corner.\<close>

definition sample_grid :: "location grid" where
  "sample_grid =
     snd (set_edge_weight (Location 0 0) (Location 1 0) (Fin 5)
       (add_location (Location 1 1) []
       (add_location (Location 1 0) [Location 1 1]
       (add_location (Location 0 1) [Location 1 1]
       (add_location (Location 0 0) [Location 1 0, Location 0 1] grid_empty)))))"

lemma sample_grid_eq:
  "sample_grid = \<lparr>adjacency_list = [Location 0 0 \<mapsto> [Location 1 0, Location 0 1], Location 0 1 \<mapsto> [Location 1 1],
       Location 1 0 \<mapsto> [Location 1 1], Location 1 1 \<mapsto> []],
     edge_weights = [(Location 0 0, Location 1 0) \<mapsto> Fin 5], obstacles = {}\<rparr>"
  by (simp add: sample_grid_def set_edge_weight_def add_location_def grid_empty_def isfinite_def)

lemma sample_grid_built: "grid_built sample_grid"
proof -
  have "set_edge_weight a b w g = (fst (set_edge_weight a b w g), snd (set_edge_weight a b w g))" for a b w and g :: "location grid"
    by simp
  then show ?thesis
    unfolding sample_grid_def
    by (intro built_weight [OF _ prod.collapse [symmetric]] built_location built_empty)
qed

lemma exact_rounding: "ieee_rounding Fin"
  by (simp add: ieee_rounding_def)

theorem astar_contract_witness:
  "\<exists>out. astar_search Fin sample_grid (Location 0 0) (Location 1 1) (default_options Fin) = Some out
     \<and> answer_ok (\<lambda>u a. Fin a = Fin a) (\<lambda>p. True) Fin sample_grid (default_options Fin) (Location 0 0) (Location 1 1) out"
  using astar_contract [OF sample_grid_built exact_rounding] .

text \<open>
  C3. Shortest paths: with integral weights, a consistent integral heuristic and sums that a \<open>double\<close>
  represents exactly, the search finds a path whose total cost is at most that of any walk, whenever
  there is a walk at all, and answers \<open>not_found\<close> otherwise.
\<close>

theorem astar_finds_shortest:
  assumes "grid_built g" "ieee_rounding rnd" and G: "guided rnd g opts goal M K H"
    and walkable: "is_walkable g start" "is_walkable g goal"
  shows "if \<exists>c. grid_walk g start goal c
         then \<exists>p. astar_search rnd g start goal opts = Some (Inr (p, Found)) \<and> path_ok (grid_edge g) start goal p
                \<and> (\<forall>c. grid_walk g start goal c \<longrightarrow> path_cost g p \<le> c)
         else astar_search rnd g start goal opts = Some (Inr ([], Not_found))"
proof -
  have ok: "grid_ok g" using grid_built_ok [OF assms(1)] .
  have "\<exists>out. astar_search rnd g start goal opts = Some out \<and> answer_ok (small_cost g M)
          (\<lambda>p. \<forall>c. grid_walk g start goal c \<longrightarrow> path_cost g p \<le> c) rnd g opts start goal out"
  proof (rule search_answers [OF ok assms(2) opt_inv_keeps [OF ok G] opt_inv_pops [OF ok G] opt_inv_start])
    fix s P p assume inv: "search_inv rnd g start (opt_inv g start M H) P s" and goal: "goal \<in> closed s"
      and p: "path_ok (\<lambda>x y. came_from s y = Some x \<and> y \<noteq> start) start goal p"
    then have X: "opt_inv g start M H P s" and T: "tree_inv rnd g start s" by (simp_all add: search_inv_def)
    show "\<forall>c. grid_walk g start goal c \<longrightarrow> path_cost g p \<le> c"
      using tree_path_cost [OF X tree_invD(4) [OF T] p] opt_invD(6) [OF X goal] order_trans by blast
  qed (auto dest: gr.walk_nonneg)
  then obtain out where out: "astar_search rnd g start goal opts = Some out" "answer_ok (small_cost g M)
      (\<lambda>p. \<forall>c. grid_walk g start goal c \<longrightarrow> path_cost g p \<le> c) rnd g opts start goal out" by blast
  have "isfinite (rnd (real k + grid_weight g u v))"
    if e: "grid_edge g u v" "k \<le> card (dom (adjacency_list g)) * M" for u v k
  proof -
    obtain w where w: "w \<le> M" "grid_weight g u v = real w" using guidedD(2) [OF G e(1)] by blast
    then have "k + w \<le> (card (dom (adjacency_list g)) + 1) * M + K" using e(2) by simp
    then show ?thesis using guidedD(1) [OF G, of "k + w"] w by (simp add: isfinite_def)
  qed
  then have "\<not> blame (small_cost g M) rnd g opts goal r" for r
    using G by (cases "(small_cost g M, rnd, g, opts, goal, r)" rule: blame.cases)
      (auto simp: guided_def small_cost_def isfinite_def)
  then obtain p r where "out = Inr (p, r)" "r = Found \<or> r = Not_found"
    using out(2) walkable by (cases out) (auto simp: answer_ok_def simp del: blame.simps split: search_result.splits)
  then show ?thesis
    using out path_is_walk [of g start goal p] by (auto simp: answer_ok_def)
qed

lemma sample_grid_edge:
  "grid_edge sample_grid u v \<longleftrightarrow>
     (u, v) \<in> {(Location 0 0, Location 1 0), (Location 0 0, Location 0 1), (Location 0 1, Location 1 1),
              (Location 1 0, Location 1 1)}"
  unfolding grid_edge_iff [OF grid_built_ok [OF sample_grid_built]]
  by (auto simp: sample_grid_eq is_walkable_def)

lemma sample_grid_weight:
  "grid_weight sample_grid u v = (if (u, v) = (Location 0 0, Location 1 0) then 5 else 1)"
  by (auto simp: grid_weight_def grid_cost_def sample_grid_eq)

definition sample_distance :: "location \<Rightarrow> nat" where
  "sample_distance loc = nat (\<bar>loc_x loc - 1\<bar> + \<bar>loc_y loc - 1\<bar>)"

lemma sample_guided: "guided Fin sample_grid (default_options Fin) (Location 1 1) 5 2 sample_distance"
  unfolding guided_def
proof (intro conjI allI impI)
  fix u v assume "grid_edge sample_grid u v"
  then show "\<exists>w\<le>5. grid_weight sample_grid u v = real w"
    by (intro exI [of _ "if (u, v) = (Location 0 0, Location 1 0) then 5 else 1"]) (simp add: sample_grid_weight)
  show "real (sample_distance u) \<le> grid_weight sample_grid u v + real (sample_distance v)"
    using \<open>grid_edge sample_grid u v\<close> by (auto simp: sample_grid_edge sample_grid_weight sample_distance_def)
next
  fix v assume "is_walkable sample_grid v"
  then have "v \<in> {Location 0 0, Location 0 1, Location 1 0, Location 1 1}"
    by (auto simp: is_walkable_def sample_grid_eq split: if_splits)
  then show "sample_distance v \<le> 2"
    "heuristic (default_options Fin) v (Location 1 1) = Inr (Fin (real (sample_distance v)))"
    by (auto simp: sample_distance_def default_options_def manhattan_heuristic_def axis_distance_def INT_MAX_def)
qed (auto simp: default_options_def)

theorem astar_finds_shortest_witness:
  "\<exists>p. astar_search Fin sample_grid (Location 0 0) (Location 1 1) (default_options Fin) = Some (Inr (p, Found))
     \<and> path_cost sample_grid p \<le> 2"
proof -
  have "grid_walk sample_grid (Location 0 0) (Location 1 1) (0 + grid_weight sample_grid (Location 0 0) (Location 0 1)
      + grid_weight sample_grid (Location 0 1) (Location 1 1))"
    by (intro walk_step walk_here) (simp_all add: sample_grid_edge)
  then have "grid_walk sample_grid (Location 0 0) (Location 1 1) 2" by (simp add: sample_grid_weight)
  then show ?thesis
    using astar_finds_shortest [OF sample_grid_built exact_rounding sample_guided, of "Location 0 0"]
    by (auto simp: is_walkable_def sample_grid_eq split: if_splits)
qed

text \<open>
  Smoothing keeps the shape of a path: the first and the last point stay, and every point that is left
  out lies on the line through the two kept points around it. This holds for coordinates in the range of
  \<open>int\<close>, when \<open>long double\<close> has the 64-bit significand of x86 and no point follows itself (as in every path
  that the search finds).
\<close>

theorem smooth_keeps_shape:
  assumes "exact_ints ld" "path \<noteq> []" "\<forall>x\<in>set path. int_range x" "successively (\<noteq>) path"
  shows "straight_cover path (smooth ld path)"
proof (cases "length path \<le> 2")
  case True
  then obtain a b where "path = [a] \<or> path = [a, b]"
    using assms(2) by (cases path; cases "tl path"; cases "tl (tl path)") auto
  then show ?thesis
    using cover_last cover_run_append [OF cover_last, of "[]"] by (auto simp: smooth_def)
next
  case False
  then obtain prev cur rest where p: "path = prev # cur # rest"
    by (cases path; cases "tl path") auto
  have "straight_cover ((prev # []) @ cur # rest) (prev # smooth_inner ld path @ [last (cur # rest)])"
    unfolding p using assms p
    by (intro smooth_run [of _ _ _ _ "loc_x cur - loc_x prev" "loc_y cur - loc_y prev"])
      (auto simp: algebra_simps location.expand)
  then show ?thesis using p False by (simp add: smooth_def)
qed

theorem smooth_keeps_shape_witness:
  "straight_cover [Location 0 0, Location 1 0, Location 2 0, Location 2 1]
     (smooth id [Location 0 0, Location 1 0, Location 2 0, Location 2 1])"
  by (rule smooth_keeps_shape) (simp_all add: exact_ints_def int_range_def)

end
