(* ===== verification/ConnPool.thy ===== *)
theory ConnPool
  imports HjPrelude
begin

text \<open>
  \<open>src/hj/db/db_conn_pool.hpp\<close>: a bounded pool of connections shared by any number of threads.

  Every section that the source executes under its mutex is one atomic step; between the sections the
  threads interleave freely. \<open>_closed\<close> is read once where a section depends on it, so it does not matter
  that \<open>close()\<close> sets it before it takes the mutex. A wait on the condition variable is a step that is
  not enabled while its predicate is false. The functions that make and check a connection belong to the
  caller: they may fail at any time, and what they return is chosen by the step; a new connection differs
  from all earlier ones. The clock is arbitrary.

  \<open>_total_cnt\<close> is a \<open>size_t\<close>; that it never wraps below zero is part of what is proved.
\<close>

section \<open>Definitions\<close>

subsection \<open>The pool\<close>

record 'c conn_pool =
  idle_conns :: "'c list"
  pool_capa :: nat
  pool_min :: nat
  is_shut :: bool
  total_cnt :: nat

definition pool_new :: "nat \<Rightarrow> nat \<Rightarrow> 'c conn_pool" where
  "pool_new capa min_size =
     \<lparr>idle_conns = [], pool_capa = capa, pool_min = (if min_size > capa then capa else min_size),
      is_shut = False, total_cnt = 0\<rparr>"

text \<open>One round of the loop of \<open>_init\<close>, given what \<open>_make\<close> did: \<open>None\<close> when it threw or returned null.\<close>

definition init_round :: "'c option \<Rightarrow> 'c conn_pool \<Rightarrow> 'c conn_pool" where
  "init_round made p =
     (case made of
        None \<Rightarrow> p
      | Some c \<Rightarrow> p\<lparr>idle_conns := idle_conns p @ [c], total_cnt := total_cnt p + 1\<rparr>)"

definition pool_create :: "nat \<Rightarrow> nat \<Rightarrow> (nat \<Rightarrow> 'c option) \<Rightarrow> 'c conn_pool" where
  "pool_create capa min_size mk =
     (let p = pool_new capa min_size in fold (\<lambda>i. init_round (mk i)) [0..<pool_min p] p)"

definition pool_idle :: "'c conn_pool \<Rightarrow> nat" where
  "pool_idle p = length (idle_conns p)"

definition pool_active :: "'c conn_pool \<Rightarrow> nat" where
  "pool_active p = size_sub (total_cnt p) (length (idle_conns p))"

subsection \<open>Sections of acquire\<close>

datatype 'c taken = Took 'c | Create | Gave_up

text \<open>The first section. \<open>None\<close> means that the thread goes on waiting; \<open>timed_out\<close> is the clock's answer.\<close>

definition acquire_section :: "int \<Rightarrow> bool \<Rightarrow> 'c conn_pool \<Rightarrow> ('c taken \<times> 'c conn_pool) option" where
  "acquire_section remaining_ms timed_out p =
     (let wait_cond = idle_conns p \<noteq> [] \<or> is_shut p \<or> total_cnt p < pool_capa p in
      if remaining_ms < 0 \<and> \<not> wait_cond then None
      else if remaining_ms > 0 \<and> \<not> wait_cond then (if timed_out then Some (Gave_up, p) else None)
      else if remaining_ms = 0 \<and> idle_conns p = [] \<and> total_cnt p \<ge> pool_capa p then Some (Gave_up, p)
      else if is_shut p then Some (Gave_up, p)
      else case idle_conns p of
             c # q \<Rightarrow> Some (Took c, p\<lparr>idle_conns := q\<rparr>)
           | [] \<Rightarrow> if total_cnt p < pool_capa p then Some (Create, p\<lparr>total_cnt := total_cnt p + 1\<rparr>)
                   else Some (Gave_up, p))"

text \<open>The decrement after a connection could not be made or was found broken.\<close>

definition drop_section :: "'c conn_pool \<Rightarrow> 'c conn_pool" where
  "drop_section p = p\<lparr>total_cnt := size_sub (total_cnt p) 1\<rparr>"

text \<open>Whether to try again, and with how much time left, \<open>elapsed\<close> milliseconds after the start.\<close>

definition after_failure :: "int \<Rightarrow> int \<Rightarrow> int option" where
  "after_failure timeout_ms elapsed =
     (if timeout_ms \<ge> 0 then let remaining_ms = timeout_ms - elapsed in
                              if remaining_ms \<le> 0 then None else Some remaining_ms
      else Some timeout_ms)"

text \<open>The answer of \<open>_check\<close> (\<open>None\<close>: it threw), which is only asked when there is such a function.\<close>

definition conn_valid :: "bool \<Rightarrow> bool option \<Rightarrow> bool" where
  "conn_valid has_check answer \<longleftrightarrow> (if has_check then answer = Some True else True)"

text \<open>The last section: \<open>True\<close> when a handle is returned.\<close>

definition verify_section :: "'c conn_pool \<Rightarrow> bool \<times> 'c conn_pool" where
  "verify_section p =
     (if is_shut p then (False, if total_cnt p > 0 then p\<lparr>total_cnt := total_cnt p - 1\<rparr> else p)
      else (True, p))"

subsection \<open>Release and close\<close>

definition release_section :: "'c \<Rightarrow> 'c conn_pool \<Rightarrow> 'c conn_pool" where
  "release_section c p =
     (if \<not> is_shut p then
        (if length (idle_conns p) < pool_min p then p\<lparr>idle_conns := idle_conns p @ [c]\<rparr>
         else p\<lparr>total_cnt := size_sub (total_cnt p) 1\<rparr>)
      else if total_cnt p > 0 then p\<lparr>total_cnt := total_cnt p - 1\<rparr> else p)"

definition close_cas :: "'c conn_pool \<Rightarrow> bool \<times> 'c conn_pool" where
  "close_cas p = (if is_shut p then (False, p) else (True, p\<lparr>is_shut := True\<rparr>))"

definition close_section :: "'c conn_pool \<Rightarrow> 'c conn_pool" where
  "close_section p = p\<lparr>total_cnt := size_sub (total_cnt p) (length (idle_conns p)), idle_conns := []\<rparr>"

subsection \<open>Threads\<close>

datatype 'c pool_pc =
    Outside
  | Acquiring int int
  | Creating int
  | Checking int 'c
  | Dropping int
  | Retrying int
  | Verifying 'c
  | Holding 'c
  | Closing

record 'c pool_world =
  the_pool :: "'c conn_pool"
  pc_of :: "nat \<Rightarrow> 'c pool_pc"
  made :: "'c set"

definition goto :: "nat \<Rightarrow> 'c pool_pc \<Rightarrow> 'c conn_pool \<Rightarrow> 'c pool_world \<Rightarrow> 'c pool_world" where
  "goto t pc p w = w\<lparr>the_pool := p, pc_of := (pc_of w)(t := pc)\<rparr>"

fun taken_pc :: "int \<Rightarrow> 'c taken \<Rightarrow> 'c pool_pc" where
  "taken_pc timeout (Took c) = Checking timeout c"
| "taken_pc timeout Create = Creating timeout"
| "taken_pc timeout Gave_up = Outside"

inductive pool_step :: "bool \<Rightarrow> nat \<Rightarrow> 'c pool_world \<Rightarrow> 'c pool_world \<Rightarrow> bool" for has_check n where
  step_acquire: "\<lbrakk>t < n; pc_of w t = Outside\<rbrakk> \<Longrightarrow>
     pool_step has_check n w (goto t (Acquiring timeout timeout) (the_pool w) w)"
| step_enter: "\<lbrakk>t < n; pc_of w t = Acquiring timeout rest; acquire_section rest timed_out (the_pool w) = Some (out, p)\<rbrakk> \<Longrightarrow>
     pool_step has_check n w (goto t (taken_pc timeout out) p w)"
| step_made: "\<lbrakk>t < n; pc_of w t = Creating timeout; c \<notin> made w\<rbrakk> \<Longrightarrow>
     pool_step has_check n w (goto t (Checking timeout c) (the_pool w) (w\<lparr>made := insert c (made w)\<rparr>))"
| step_not_made: "\<lbrakk>t < n; pc_of w t = Creating timeout\<rbrakk> \<Longrightarrow>
     pool_step has_check n w (goto t (Dropping timeout) (the_pool w) w)"
| step_check: "\<lbrakk>t < n; pc_of w t = Checking timeout c\<rbrakk> \<Longrightarrow>
     pool_step has_check n w (goto t (if conn_valid has_check answer then Verifying c else Dropping timeout) (the_pool w) w)"
| step_drop: "\<lbrakk>t < n; pc_of w t = Dropping timeout\<rbrakk> \<Longrightarrow>
     pool_step has_check n w (goto t (Retrying timeout) (drop_section (the_pool w)) w)"
| step_retry: "\<lbrakk>t < n; pc_of w t = Retrying timeout\<rbrakk> \<Longrightarrow>
     pool_step has_check n w
       (goto t (case after_failure timeout elapsed of None \<Rightarrow> Outside | Some rest \<Rightarrow> Acquiring timeout rest) (the_pool w) w)"
| step_verify: "\<lbrakk>t < n; pc_of w t = Verifying c; verify_section (the_pool w) = (ok, p)\<rbrakk> \<Longrightarrow>
     pool_step has_check n w (goto t (if ok then Holding c else Outside) p w)"
| step_release: "\<lbrakk>t < n; pc_of w t = Holding c\<rbrakk> \<Longrightarrow>
     pool_step has_check n w (goto t Outside (release_section c (the_pool w)) w)"
| step_close: "\<lbrakk>t < n; pc_of w t = Outside; close_cas (the_pool w) = (won, p)\<rbrakk> \<Longrightarrow>
     pool_step has_check n w (goto t (if won then Closing else Outside) p w)"
| step_close_rest: "\<lbrakk>t < n; pc_of w t = Closing\<rbrakk> \<Longrightarrow>
     pool_step has_check n w (goto t Outside (close_section (the_pool w)) w)"

text \<open>What can happen after \<open>create\<close>.\<close>

definition pool_world_new :: "nat \<Rightarrow> nat \<Rightarrow> (nat \<Rightarrow> 'c option) \<Rightarrow> 'c pool_world" where
  "pool_world_new capa min_size mk =
     \<lparr>the_pool = pool_create capa min_size mk, pc_of = (\<lambda>_. Outside),
      made = {c. \<exists>i. mk i = Some c}\<rparr>"

inductive pool_reach :: "bool \<Rightarrow> nat \<Rightarrow> 'c pool_world \<Rightarrow> 'c pool_world \<Rightarrow> bool" for has_check n w0 where
  reach_start: "pool_reach has_check n w0 w0"
| reach_step: "\<lbrakk>pool_reach has_check n w0 w; pool_step has_check n w w'\<rbrakk> \<Longrightarrow> pool_reach has_check n w0 w'"

section \<open>The invariant\<close>

text \<open>The threads whose call has taken a connection or the right to make one, and the connection they have.\<close>

fun counted :: "'c pool_pc \<Rightarrow> bool" where
  "counted (Creating _) \<longleftrightarrow> True"
| "counted (Checking _ _) \<longleftrightarrow> True"
| "counted (Dropping _) \<longleftrightarrow> True"
| "counted (Verifying _) \<longleftrightarrow> True"
| "counted (Holding _) \<longleftrightarrow> True"
| "counted _ \<longleftrightarrow> False"

fun conn_at :: "'c pool_pc \<Rightarrow> 'c option" where
  "conn_at (Checking _ c) = Some c"
| "conn_at (Verifying c) = Some c"
| "conn_at (Holding c) = Some c"
| "conn_at _ = None"

definition in_use :: "nat \<Rightarrow> 'c pool_world \<Rightarrow> nat set" where
  "in_use n w = {t. t < n \<and> counted (pc_of w t)}"

definition count_inv :: "nat \<Rightarrow> 'c pool_world \<Rightarrow> bool" where
  "count_inv n w \<longleftrightarrow>
     total_cnt (the_pool w) = length (idle_conns (the_pool w)) + card (in_use n w)
     \<and> total_cnt (the_pool w) \<le> pool_capa (the_pool w)
     \<and> length (idle_conns (the_pool w)) \<le> pool_min (the_pool w)
     \<and> pool_min (the_pool w) \<le> pool_capa (the_pool w)"

definition conn_inv :: "nat \<Rightarrow> 'c pool_world \<Rightarrow> bool" where
  "conn_inv n w \<longleftrightarrow>
     distinct (idle_conns (the_pool w)) \<and> set (idle_conns (the_pool w)) \<subseteq> made w
     \<and> (\<forall>t<n. \<forall>c. conn_at (pc_of w t) = Some c \<longrightarrow> c \<in> made w \<and> c \<notin> set (idle_conns (the_pool w)))
     \<and> (\<forall>t<n. \<forall>u<n. \<forall>c. conn_at (pc_of w t) = Some c \<longrightarrow> conn_at (pc_of w u) = Some c \<longrightarrow> t = u)"

definition shut_inv :: "nat \<Rightarrow> 'c pool_world \<Rightarrow> bool" where
  "shut_inv n w \<longleftrightarrow>
     (is_shut (the_pool w) \<longrightarrow> idle_conns (the_pool w) = [] \<or> (\<exists>t<n. pc_of w t = Closing))
     \<and> (\<forall>t<n. pc_of w t = Closing \<longrightarrow> is_shut (the_pool w))"

lemma goto_simps [simp]:
  "the_pool (goto t pc p w) = p" "pc_of (goto t pc p w) = (pc_of w)(t := pc)" "made (goto t pc p w) = made w"
  by (simp_all add: goto_def)

lemma finite_in_use [simp]: "finite (in_use n w)"
  by (simp add: in_use_def)

lemma card_in_use_goto:
  assumes "t < n"
  shows "card (in_use n (goto t pc p w)) =
    (if counted pc then (if counted (pc_of w t) then card (in_use n w) else card (in_use n w) + 1)
     else (if counted (pc_of w t) then card (in_use n w) - 1 else card (in_use n w)))"
proof -
  have t: "t \<in> in_use n w \<longleftrightarrow> counted (pc_of w t)" using assms by (simp add: in_use_def)
  have "in_use n (goto t pc p w) = (if counted pc then insert t (in_use n w) else in_use n w - {t})"
    using assms by (auto simp: in_use_def)
  then show ?thesis using t by (simp add: card_insert_if)
qed

lemma in_use_pos: "t < n \<Longrightarrow> counted (pc_of w t) \<Longrightarrow> 0 < card (in_use n w)"
  by (auto simp: card_gt_0_iff in_use_def)

text \<open>Every section keeps the sum of idle and used connections equal to the counter.\<close>

lemma acquire_section_cases:
  assumes "acquire_section rest timed_out p = Some (out, p')"
  obtains "out = Gave_up" "p' = p"
  | c q where "out = Took c" "idle_conns p = c # q" "p' = p\<lparr>idle_conns := q\<rparr>" "\<not> is_shut p"
  | "out = Create" "idle_conns p = []" "total_cnt p < pool_capa p" "p' = p\<lparr>total_cnt := total_cnt p + 1\<rparr>" "\<not> is_shut p"
  using assms by (auto simp: acquire_section_def Let_def split: if_splits list.splits)

lemma count_inv_step:
  assumes "pool_step has_check n w w'" "count_inv n w"
  shows "count_inv n w'"
  using assms
proof (induction rule: pool_step.induct)
  case (step_enter t w timeout rest timed_out out p)
  then show ?case
    by (elim acquire_section_cases) (auto simp: count_inv_def card_in_use_goto)
next
  case (step_made t w timeout c)
  have "card (in_use n (goto t (Checking timeout c) (the_pool w) (w\<lparr>made := insert c (made w)\<rparr>))) = card (in_use n w)"
    using step_made card_in_use_goto [of t n "Checking timeout c" "the_pool w" "w\<lparr>made := insert c (made w)\<rparr>"]
    by (simp add: in_use_def)
  then show ?case using step_made by (simp add: count_inv_def)
next
  case (step_drop t w timeout)
  then show ?case
    using in_use_pos [of t n w] by (auto simp: count_inv_def card_in_use_goto drop_section_def size_sub_def)
next
  case (step_verify t w c ok p)
  then show ?case
    using in_use_pos [of t n w] by (auto simp: count_inv_def card_in_use_goto verify_section_def split: if_splits)
next
  case (step_release t w c)
  then show ?case
    using in_use_pos [of t n w] by (auto simp: count_inv_def card_in_use_goto release_section_def size_sub_def)
next
  case (step_close_rest t w)
  then show ?case by (simp add: count_inv_def card_in_use_goto close_section_def size_sub_def)
qed (auto simp: count_inv_def card_in_use_goto close_cas_def split: if_splits option.splits)

lemma conn_inv_step:
  assumes "pool_step has_check n w w'" "conn_inv n w"
  shows "conn_inv n w'"
  using assms
proof (induction rule: pool_step.induct)
  case (step_enter t w timeout rest timed_out out p)
  from step_enter(3) show ?case
  proof (cases rule: acquire_section_cases)
    case (2 c q)
    then show ?thesis using step_enter by (auto simp: conn_inv_def)
  qed (use step_enter in \<open>auto simp: conn_inv_def\<close>)
next
  case (step_made t w timeout c)
  then show ?case by (auto simp: conn_inv_def)
next
  case (step_verify t w c ok p)
  then show ?case by (auto simp: conn_inv_def verify_section_def split: if_splits)
next
  case (step_release t w c)
  then show ?case by (auto simp: conn_inv_def release_section_def)
next
  case (step_retry t w timeout elapsed)
  then show ?case by (auto simp: conn_inv_def split: option.splits)
qed (auto simp: conn_inv_def drop_section_def close_section_def close_cas_def split: if_splits)

lemma shut_inv_goto:
  assumes "shut_inv n w" "t < n" "pc_of w t \<noteq> Closing" "pc \<noteq> Closing"
    "is_shut p \<longleftrightarrow> is_shut (the_pool w)" "is_shut (the_pool w) \<Longrightarrow> idle_conns p = idle_conns (the_pool w)"
  shows "shut_inv n (goto t pc p w)"
  using assms unfolding shut_inv_def goto_simps by (metis fun_upd_apply)

lemma shut_inv_step:
  assumes "pool_step has_check n w w'" "shut_inv n w"
  shows "shut_inv n w'"
  using assms
proof (induction rule: pool_step.induct)
  case (step_enter t w timeout rest timed_out out p)
  from step_enter(3) have "taken_pc timeout out \<noteq> Closing" "is_shut p \<longleftrightarrow> is_shut (the_pool w)"
    "is_shut (the_pool w) \<Longrightarrow> idle_conns p = idle_conns (the_pool w)"
    by (elim acquire_section_cases; simp)+
  then show ?case using step_enter by (intro shut_inv_goto) auto
next
  case (step_made t w timeout c)
  then have "shut_inv n (w\<lparr>made := insert c (made w)\<rparr>)" by (simp add: shut_inv_def)
  then show ?case using step_made by (intro shut_inv_goto) auto
next
  case (step_close t w won p)
  show ?case
  proof (cases won)
    case True
    then show ?thesis using step_close by (auto simp: shut_inv_def close_cas_def split: if_splits)
  next
    case False
    then show ?thesis using step_close by (intro shut_inv_goto) (auto simp: close_cas_def split: if_splits)
  qed
next
  case (step_close_rest t w)
  then show ?case by (auto simp: shut_inv_def close_section_def)
qed (intro shut_inv_goto; auto simp: drop_section_def verify_section_def release_section_def
    split: if_splits option.splits)+

section \<open>Creation\<close>

lemma init_rounds:
  "idle_conns (fold (\<lambda>i. init_round (mk i)) is p) = idle_conns p @ List.map_filter mk is"
  "total_cnt (fold (\<lambda>i. init_round (mk i)) is p) = total_cnt p + length (List.map_filter mk is)"
  "pool_capa (fold (\<lambda>i. init_round (mk i)) is p) = pool_capa p"
  "pool_min (fold (\<lambda>i. init_round (mk i)) is p) = pool_min p"
  "is_shut (fold (\<lambda>i. init_round (mk i)) is p) = is_shut p"
  by (induction "is" arbitrary: p) (auto simp: init_round_def map_filter_simps split: option.split)

lemma length_map_filter_le: "length (List.map_filter f xs) \<le> length xs"
  by (simp add: List.map_filter_def)

definition fresh_conns :: "(nat \<Rightarrow> 'c option) \<Rightarrow> bool" where
  "fresh_conns mk \<longleftrightarrow> (\<forall>i j c. mk i = Some c \<longrightarrow> mk j = Some c \<longrightarrow> i = j)"

lemma set_map_filter_eq: "set (List.map_filter f xs) = {c. \<exists>i\<in>set xs. f i = Some c}"
  by (induction xs) (auto simp: map_filter_simps split: option.split)

lemma distinct_made:
  assumes "fresh_conns mk"
  shows "distinct xs \<Longrightarrow> distinct (List.map_filter mk xs)"
proof (induction xs)
  case (Cons i xs)
  have "i = j" if "mk i = Some c" "mk j = Some c" for c j using assms that unfolding fresh_conns_def by blast
  then show ?case using Cons by (auto simp: map_filter_simps set_map_filter_eq split: option.split)
qed (simp add: map_filter_simps)

lemma pool_create_inv:
  assumes "fresh_conns mk"
  shows "count_inv n (pool_world_new capa min_size mk)" "conn_inv n (pool_world_new capa min_size mk)"
    "shut_inv n (pool_world_new capa min_size mk)"
  using length_map_filter_le [of mk "[0..<min capa min_size]"] assms
  by (auto simp: count_inv_def conn_inv_def shut_inv_def pool_world_new_def pool_create_def Let_def init_rounds
      pool_new_def in_use_def distinct_made min_def set_map_filter_eq split: if_splits)

lemma pool_reach_inv:
  assumes "pool_reach has_check n (pool_world_new capa min_size mk) w" "fresh_conns mk"
  shows "count_inv n w \<and> conn_inv n w \<and> shut_inv n w"
  using assms(1)
proof (induction rule: pool_reach.induct)
  case reach_start
  show ?case using pool_create_inv [OF assms(2)] by blast
next
  case (reach_step w w')
  then show ?case using count_inv_step conn_inv_step shut_inv_step by metis
qed

section \<open>Properties\<close>

lemma shut_hands_out_nothing:
  assumes "pool_step has_check n w w'" "is_shut (the_pool w)" "pc_of w' t = Holding c"
  shows "pc_of w t = Holding c"
  using assms
proof (induction rule: pool_step.induct)
  case (step_enter t' w timeout rest timed_out out p)
  then show ?case by (cases out) (auto split: if_splits)
qed (auto simp: verify_section_def split: if_splits option.splits)

text \<open>
  C5. The pool is safe, whatever the threads do and however often making or checking a connection fails:
  \<open>total()\<close> is the number of idle connections plus the number of calls and handles that have one, it never
  exceeds the capacity, \<open>active()\<close> does not wrap, no connection is in two hands or both idle and in use. Once
  \<open>close()\<close> has finished nothing is idle, and no handle is given out after the pool is marked closed.
\<close>

theorem conn_pool_safe:
  assumes "fresh_conns mk" "pool_reach has_check n (pool_world_new capa min_size mk) w"
  shows "total_cnt (the_pool w) = pool_idle (the_pool w) + card (in_use n w)
       \<and> total_cnt (the_pool w) \<le> pool_capa (the_pool w)
       \<and> pool_active (the_pool w) = card (in_use n w)
       \<and> pool_idle (the_pool w) \<le> pool_min (the_pool w)
       \<and> distinct (idle_conns (the_pool w))
       \<and> (\<forall>t<n. \<forall>c. conn_at (pc_of w t) = Some c \<longrightarrow> c \<notin> set (idle_conns (the_pool w)))
       \<and> (\<forall>t<n. \<forall>u<n. conn_at (pc_of w t) \<noteq> None \<longrightarrow> conn_at (pc_of w t) = conn_at (pc_of w u) \<longrightarrow> t = u)
       \<and> (is_shut (the_pool w) \<longrightarrow>
            (\<forall>t<n. pc_of w t \<noteq> Closing) \<longrightarrow> idle_conns (the_pool w) = [])
       \<and> (is_shut (the_pool w) \<longrightarrow> (\<forall>w' t c. pool_step has_check n w w' \<longrightarrow> pc_of w' t = Holding c \<longrightarrow> pc_of w t = Holding c))"
proof -
  have inv: "count_inv n w" "conn_inv n w" "shut_inv n w" using pool_reach_inv [OF assms(2,1)] by auto
  have "pool_active (the_pool w) = card (in_use n w)"
    using inv(1) by (simp add: count_inv_def pool_active_def size_sub_def)
  moreover have "t = u" if "t < n" "u < n" "conn_at (pc_of w t) \<noteq> None" "conn_at (pc_of w t) = conn_at (pc_of w u)" for t u
    using inv(2) that unfolding conn_inv_def by (metis option.exhaust)
  moreover have "idle_conns (the_pool w) = []" if "is_shut (the_pool w)" "\<forall>t<n. pc_of w t \<noteq> Closing"
    using inv(3) that unfolding shut_inv_def by blast
  ultimately show ?thesis
    using inv(1,2) shut_hands_out_nothing [of has_check n w]
    unfolding count_inv_def conn_inv_def pool_idle_def by (intro conjI) blast+
qed

theorem conn_pool_safe_witness:
  "total_cnt (the_pool (goto 0 (Acquiring 5 5) (pool_create 3 2 (\<lambda>i. Some i)) (pool_world_new 3 2 (\<lambda>i. Some i)))) \<le> 3"
proof -
  let ?w = "pool_world_new 3 2 (\<lambda>i. Some i)"
  have "pool_step True 4 ?w (goto 0 (Acquiring 5 5) (the_pool ?w) ?w)"
    by (rule step_acquire) (simp_all add: pool_world_new_def)
  then have "pool_reach True 4 ?w (goto 0 (Acquiring 5 5) (the_pool ?w) ?w)"
    by (rule reach_step [OF reach_start])
  moreover have "fresh_conns (\<lambda>i. Some i)" by (simp add: fresh_conns_def)
  ultimately have "total_cnt (the_pool ?w) \<le> pool_capa (the_pool ?w)"
    using conn_pool_safe [of "\<lambda>i. Some i" True 4 3 2 "goto 0 (Acquiring 5 5) (the_pool ?w) ?w"] by simp
  then show ?thesis by (simp add: pool_world_new_def pool_create_def Let_def init_rounds pool_new_def)
qed




end
