(* ===== verification/Des.thy ===== *)
theory Des
  imports HjPrelude
begin

text \<open>
  \<open>src/hj/crypto/des.hpp\<close>: DES and its multiple-key variants in the modes ECB, CBC, CFB, OFB and CTR, with
  six paddings, for buffers, strings, streams and files.

  The block cipher itself is OpenSSL's: \<open>sched\<close> stands for \<open>DES_set_key_unchecked\<close> and \<open>cipher k enc b\<close> for
  \<open>DES_ecb_encrypt\<close> with the schedule \<open>k\<close>, for encryption when \<open>enc\<close> holds. The random device that fills the
  ISO 10126 padding is a function \<open>rnd\<close> of the position. A pointer with its length is an optional buffer and
  a number; reading or writing past the buffer is \<open>Out_of_bounds\<close>. Output is written from the front without
  gaps, so it is collected and then stored in the destination (\<open>des_store\<close>).
\<close>

section \<open>Definitions\<close>

datatype des_error =
    Des_ok | Invalid_key | Invalid_iv | Invalid_plain | Invalid_padding | Invalid_input | Invalid_output
  | Buffer_too_small | Encrypt_failed | Decrypt_failed | File_io_failed | Unsupported_algorithm | Unknown

datatype des_mode = Ecb | Cbc | Cfb | Ofb | Ctr

datatype padding = Pkcs5 | Pkcs7 | Zero_padding | Iso10126 | Ansix923 | Iso_iec_7816_4 | No_padding

subsection \<open>Keys\<close>

definition des_key_valid :: "bytes option \<Rightarrow> nat \<Rightarrow> bool" where
  "des_key_valid key key_len \<longleftrightarrow> \<not> (key = None \<or> key_len < 8 \<or> key_len mod 8 \<noteq> 0)"

definition des_iv_valid :: "des_mode \<Rightarrow> bytes option \<Rightarrow> nat \<Rightarrow> bool" where
  "des_iv_valid md iv iv_len \<longleftrightarrow> \<not> (md \<noteq> Ecb \<and> (iv = None \<or> iv_len \<noteq> 8))"

definition des_plain_valid :: "bytes option \<Rightarrow> nat \<Rightarrow> padding \<Rightarrow> bool" where
  "des_plain_valid src src_len pad_style \<longleftrightarrow>
     (if src = None \<or> src_len = 0 then False
      else if pad_style = No_padding \<and> src_len mod 8 \<noteq> 0 then False else True)"

definition multiple_key :: "(bytes \<Rightarrow> 'k) \<Rightarrow> bytes \<Rightarrow> nat \<Rightarrow> 'k list" where
  "multiple_key sched key key_len = map (\<lambda>i. sched (take 8 (drop (i * 8) key))) [0..<key_len div 8]"

definition ede_encrypt :: "('k \<Rightarrow> bool \<Rightarrow> bytes \<Rightarrow> bytes) \<Rightarrow> 'k list \<Rightarrow> bytes \<Rightarrow> bytes" where
  "ede_encrypt cipher ks block =
     (if length ks = 1 then cipher (ks ! 0) True block
      else if length ks = 2 then cipher (ks ! 0) True (cipher (ks ! 1) False (cipher (ks ! 0) True block))
      else if length ks = 3 then cipher (ks ! 2) True (cipher (ks ! 1) False (cipher (ks ! 0) True block))
      else fold (\<lambda>i. cipher (ks ! i) (i mod 2 = 0)) [0..<length ks] block)"

definition ede_decrypt :: "('k \<Rightarrow> bool \<Rightarrow> bytes \<Rightarrow> bytes) \<Rightarrow> 'k list \<Rightarrow> bytes \<Rightarrow> bytes" where
  "ede_decrypt cipher ks block =
     (if length ks = 1 then cipher (ks ! 0) False block
      else if length ks = 2 then cipher (ks ! 0) False (cipher (ks ! 1) True (cipher (ks ! 0) False block))
      else if length ks = 3 then cipher (ks ! 0) False (cipher (ks ! 1) True (cipher (ks ! 2) False block))
      else fold (\<lambda>i. cipher (ks ! i) (\<not> i mod 2 = 0)) (rev [0..<length ks]) block)"

subsection \<open>Padding\<close>

definition is_need_padding :: "padding \<Rightarrow> bool" where
  "is_need_padding pad_style \<longleftrightarrow> pad_style \<in> {Pkcs5, Pkcs7, Iso10126, Ansix923, Iso_iec_7816_4, Zero_padding}"

text \<open>\<open>src\<close> is the part of the text that is left, at most \<open>dst_len\<close> bytes.\<close>

definition des_padding_block :: "(nat \<Rightarrow> u8) \<Rightarrow> nat \<Rightarrow> bytes \<Rightarrow> padding \<Rightarrow> bytes" where
  "des_padding_block rnd dst_len src pad_style =
     (let dst = take dst_len src @ replicate (dst_len - length src) 0;
          pad_val = of_nat (size_sub dst_len (length src)) :: u8
      in case pad_style of
           Pkcs5 \<Rightarrow> foldl (\<lambda>d i. d[i := pad_val]) dst [length src..<dst_len]
         | Pkcs7 \<Rightarrow> foldl (\<lambda>d i. d[i := pad_val]) dst [length src..<dst_len]
         | Iso10126 \<Rightarrow> (foldl (\<lambda>d i. d[i := rnd i]) dst [length src..<dst_len - 1])[dst_len - 1 := pad_val]
         | Ansix923 \<Rightarrow> dst[dst_len - 1 := pad_val]
         | Iso_iec_7816_4 \<Rightarrow> if length src < dst_len then dst[length src := 0x80] else dst
         | Zero_padding \<Rightarrow> dst
         | No_padding \<Rightarrow> dst)"

text \<open>\<open>memset(buf + pos, 0, n)\<close>\<close>

definition zero_at :: "bytes \<Rightarrow> nat \<Rightarrow> nat \<Rightarrow> bytes result" where
  "zero_at buf pos n =
     (if n = 0 then Inr buf
      else if pos + n \<le> length buf then Inr (take pos buf @ replicate n 0 @ drop (pos + n) buf)
      else Inl Out_of_bounds)"

text \<open>The loops that step back over zero bytes.\<close>

primrec strip_zeros :: "bytes \<Rightarrow> nat \<Rightarrow> nat" where
  "strip_zeros buf 0 = 0"
| "strip_zeros buf (Suc n) = (if buf ! n = 0 then strip_zeros buf n else Suc n)"

text \<open>The last index as an \<open>int\<close>: \<open>static_cast<int>(len - 1)\<close>.\<close>

definition int_index :: "nat \<Rightarrow> int" where
  "int_index len = sint (of_nat (size_sub len 1) :: 32 word)"

definition des_unpadding_block :: "bytes \<Rightarrow> nat \<Rightarrow> padding \<Rightarrow> (bytes \<times> nat) result" where
  "des_unpadding_block buf len pad_style =
     (if len > length buf then Inl Out_of_bounds
      else case pad_style of
        No_padding \<Rightarrow> Inr (buf, len)
      | Zero_padding \<Rightarrow>
          (let len' = strip_zeros buf len in
           if len' < 8 then map_sum id (\<lambda>b. (b, len')) (zero_at buf len' (8 - len')) else Inr (buf, len'))
      | Iso_iec_7816_4 \<Rightarrow>
          (let i = int_index len; j = (if i \<ge> 0 then strip_zeros buf (nat i + 1) else 0);
               len' = (if j > 0 \<and> buf ! (j - 1) = 0x80 then j - 1 else len)
           in if len' < 8 then map_sum id (\<lambda>b. (b, len')) (zero_at buf len' (8 - len')) else Inr (buf, len'))
      | Ansix923 \<Rightarrow>
          (if len = 0 then Inr (buf, len)
           else let pad = unat (buf ! (len - 1)) in
                if pad = 0 \<or> pad > 8 then Inr (buf, len)
                else if \<exists>i\<in>{size_sub len pad..<len - 1}. buf ! i \<noteq> 0 then Inr (buf, len)
                else Inr (buf, size_sub len pad))
      | Iso10126 \<Rightarrow>
          (if len = 0 then Inr (buf, len)
           else let pad = unat (buf ! (len - 1)) in
                if pad = 0 \<or> pad > 8 then Inr (buf, len)
                else map_sum id (\<lambda>b. (b, size_sub len pad)) (zero_at buf (size_sub len pad) pad))
      | _ \<Rightarrow>
          (if len = 0 then Inr (buf, len)
           else let pad = unat (buf ! (len - 1)) in
                if pad = 0 \<or> pad > 8 then Inr (buf, len)
                else if \<exists>i\<in>{size_sub len pad..<len}. buf ! i \<noteq> of_nat pad then Inr (buf, len)
                else map_sum id (\<lambda>b. (b, size_sub len pad)) (zero_at buf (size_sub len pad) pad)))"

subsection \<open>One block in each mode\<close>

text \<open>A step takes the chaining block and the text block and gives the next chaining block and the output.\<close>

definition xor_bytes :: "bytes \<Rightarrow> bytes \<Rightarrow> bytes" where
  "xor_bytes a b = map2 (XOR) a b"

fun incr_rev :: "bytes \<Rightarrow> bytes" where
  "incr_rev [] = []"
| "incr_rev (x # xs) = (if x + 1 \<noteq> 0 then (x + 1) # xs else (x + 1) # incr_rev xs)"

text \<open>The counter is increased from its last byte on.\<close>

definition ctr_incr :: "bytes \<Rightarrow> bytes" where
  "ctr_incr c = rev (incr_rev (rev c))"

definition ecb_block :: "(bytes \<Rightarrow> bytes) \<Rightarrow> bytes \<Rightarrow> bytes \<Rightarrow> bytes \<times> bytes" where
  "ecb_block E st b = (st, E b)"

definition cbc_block :: "(bytes \<Rightarrow> bytes) \<Rightarrow> bytes \<Rightarrow> bytes \<Rightarrow> bytes \<times> bytes" where
  "cbc_block E st b = (let c = E (xor_bytes b st) in (c, c))"

definition cfb_block :: "(bytes \<Rightarrow> bytes) \<Rightarrow> bytes \<Rightarrow> bytes \<Rightarrow> bytes \<times> bytes" where
  "cfb_block E st b = (let c = xor_bytes b (E st) in (c, c))"

definition ofb_block :: "(bytes \<Rightarrow> bytes) \<Rightarrow> bytes \<Rightarrow> bytes \<Rightarrow> bytes \<times> bytes" where
  "ofb_block E st b = (let k = E st in (k, xor_bytes b k))"

definition ctr_block :: "(bytes \<Rightarrow> bytes) \<Rightarrow> bytes \<Rightarrow> bytes \<Rightarrow> bytes \<times> bytes" where
  "ctr_block E st b = (ctr_incr st, xor_bytes b (E st))"

definition cbc_unblock :: "(bytes \<Rightarrow> bytes) \<Rightarrow> bytes \<Rightarrow> bytes \<Rightarrow> bytes \<times> bytes" where
  "cbc_unblock D st c = (c, xor_bytes (D c) st)"

definition cfb_unblock :: "(bytes \<Rightarrow> bytes) \<Rightarrow> bytes \<Rightarrow> bytes \<Rightarrow> bytes \<times> bytes" where
  "cfb_unblock E st c = (c, xor_bytes c (E st))"

text \<open>The loop over the full blocks of a text: output, chaining block and the rest of the text.\<close>

function blocks_loop ::
  "(bytes \<Rightarrow> bytes \<Rightarrow> bytes \<times> bytes) \<Rightarrow> bytes \<Rightarrow> bytes \<Rightarrow> bytes \<times> bytes \<times> bytes" where
  "blocks_loop step st src =
     (if length src \<ge> 8 then
        (case step st (take 8 src) of (st', c) \<Rightarrow>
           (case blocks_loop step st' (drop 8 src) of (out, st'', rest) \<Rightarrow> (c @ out, st'', rest)))
      else ([], st, src))"
  by pat_completeness auto
termination
  by (relation "measure (\<lambda>(step, st, src). length src)") auto

declare blocks_loop.simps [simp del]

subsection \<open>Encryption in each mode\<close>

text \<open>Error code, the bytes written to the destination and the length reported.\<close>

type_synonym des_out = "des_error \<times> bytes \<times> nat"

definition ecb_encrypt :: "(bytes \<Rightarrow> bytes) \<Rightarrow> (nat \<Rightarrow> u8) \<Rightarrow> padding \<Rightarrow> bytes \<Rightarrow> des_out" where
  "ecb_encrypt E rnd pad_style src =
     (case blocks_loop (ecb_block E) [] src of (out, _, rest) \<Rightarrow>
        if pad_style = No_padding \<and> rest \<noteq> [] then (Invalid_padding, out, 0)
        else if rest \<noteq> [] \<or> is_need_padding pad_style then
          (let last_block = des_padding_block rnd 8 rest pad_style
           in (Des_ok, out @ E last_block, length out + 8))
        else (Des_ok, out, length out))"

definition cbc_encrypt :: "(bytes \<Rightarrow> bytes) \<Rightarrow> (nat \<Rightarrow> u8) \<Rightarrow> padding \<Rightarrow> bytes \<Rightarrow> bytes \<Rightarrow> des_out" where
  "cbc_encrypt E rnd pad_style iv src =
     (case blocks_loop (cbc_block E) iv src of (out, iv_block, rest) \<Rightarrow>
        if pad_style = No_padding \<and> rest \<noteq> [] then (Invalid_padding, out, 0)
        else if rest \<noteq> [] \<or> is_need_padding pad_style then
          (let last_block = des_padding_block rnd 8 rest pad_style
           in (Des_ok, out @ E (xor_bytes last_block iv_block), length out + 8))
        else (Des_ok, out, length out))"

definition cfb_encrypt :: "(bytes \<Rightarrow> bytes) \<Rightarrow> (nat \<Rightarrow> u8) \<Rightarrow> padding \<Rightarrow> bytes \<Rightarrow> bytes \<Rightarrow> des_out" where
  "cfb_encrypt E rnd pad_style iv src =
     (case blocks_loop (cfb_block E) iv src of (out, iv_block, rest) \<Rightarrow>
        if is_need_padding pad_style then
          (let last_block = des_padding_block rnd 8 rest pad_style
           in (Des_ok, out @ xor_bytes last_block (E iv_block), length out + 8))
        else if rest \<noteq> [] then
          (if pad_style = No_padding then (Invalid_padding, out, 0)
           else (Des_ok, out @ xor_bytes rest (E iv_block), length out + length rest))
        else (Des_ok, out, length out))"

definition ofb_encrypt :: "(bytes \<Rightarrow> bytes) \<Rightarrow> (nat \<Rightarrow> u8) \<Rightarrow> padding \<Rightarrow> bytes \<Rightarrow> bytes \<Rightarrow> des_out" where
  "ofb_encrypt E rnd pad_style iv src =
     (if pad_style = No_padding \<and> length src mod 8 > 0 then (Invalid_padding, [], 0)
      else case blocks_loop (ofb_block E) iv src of (out, iv_block, rest) \<Rightarrow>
        if is_need_padding pad_style then
          (let last_block = des_padding_block rnd 8 rest pad_style
           in (Des_ok, out @ xor_bytes last_block (E iv_block), length out + 8))
        else if rest \<noteq> [] then (Des_ok, out @ xor_bytes rest (E iv_block), length out + length rest)
        else (Des_ok, out, length out))"

text \<open>The loop of the CTR mode; \<open>todo\<close> is \<open>padded_len - idx\<close>.\<close>

function ctr_loop ::
  "(bytes \<Rightarrow> bytes) \<Rightarrow> (nat \<Rightarrow> u8) \<Rightarrow> padding \<Rightarrow> bytes \<Rightarrow> bytes \<Rightarrow> nat \<Rightarrow> bytes" where
  "ctr_loop E rnd pad_style ctr src todo =
     (if todo > 0 then
        (let block = (if length src \<ge> 8 then take 8 src else des_padding_block rnd 8 src pad_style)
         in xor_bytes block (E ctr) @ ctr_loop E rnd pad_style (ctr_incr ctr) (drop 8 src) (todo - 8))
      else [])"
  by pat_completeness auto
termination
  by (relation "measure (\<lambda>(E, rnd, pad_style, ctr, src, todo). todo)") auto

declare ctr_loop.simps [simp del]

definition ctr_encrypt :: "(bytes \<Rightarrow> bytes) \<Rightarrow> (nat \<Rightarrow> u8) \<Rightarrow> padding \<Rightarrow> bytes \<Rightarrow> bytes \<Rightarrow> des_out" where
  "ctr_encrypt E rnd pad_style iv src =
     (let pad = 8 - length src mod 8;
          padded_len = (if is_need_padding pad_style then length src + (if pad = 0 then 8 else pad) else length src)
      in (Des_ok, ctr_loop E rnd pad_style iv src padded_len, padded_len))"

definition encrypt_text ::
  "des_mode \<Rightarrow> (bytes \<Rightarrow> bytes) \<Rightarrow> (nat \<Rightarrow> u8) \<Rightarrow> padding \<Rightarrow> bytes \<Rightarrow> bytes \<Rightarrow> des_out" where
  "encrypt_text md E rnd pad_style iv src =
     (case md of
        Ecb \<Rightarrow> ecb_encrypt E rnd pad_style src
      | Cbc \<Rightarrow> cbc_encrypt E rnd pad_style iv src
      | Cfb \<Rightarrow> cfb_encrypt E rnd pad_style iv src
      | Ofb \<Rightarrow> ofb_encrypt E rnd pad_style iv src
      | Ctr \<Rightarrow> ctr_encrypt E rnd pad_style iv src)"

subsection \<open>Decryption in each mode\<close>

text \<open>The loops of ECB and CBC read whole blocks as long as something is left: \<open>todo\<close> is \<open>src_len - idx\<close>.\<close>

function unblocks_loop ::
  "(bytes \<Rightarrow> bytes \<Rightarrow> bytes \<times> bytes) \<Rightarrow> bytes \<Rightarrow> bytes \<Rightarrow> nat \<Rightarrow> bytes result" where
  "unblocks_loop step st buf todo =
     (if todo > 0 then
        (if length buf < 8 then Inl Out_of_bounds
         else case step st (take 8 buf) of (st', b) \<Rightarrow>
                map_sum id (\<lambda>out. b @ out) (unblocks_loop step st' (drop 8 buf) (todo - 8)))
      else Inr [])"
  by pat_completeness auto
termination
  by (relation "measure (\<lambda>(step, st, buf, todo). todo)") auto

declare unblocks_loop.simps [simp del]

definition feedback_decrypt ::
  "(bytes \<Rightarrow> bytes \<Rightarrow> bytes \<times> bytes) \<Rightarrow> (bytes \<Rightarrow> bytes) \<Rightarrow> bytes \<Rightarrow> bytes \<Rightarrow> bytes" where
  "feedback_decrypt step E iv src =
     (case blocks_loop step iv src of (out, iv_block, rest) \<Rightarrow>
        if rest \<noteq> [] then out @ xor_bytes rest (E iv_block) else out)"

function ctr_unloop :: "(bytes \<Rightarrow> bytes) \<Rightarrow> bytes \<Rightarrow> bytes \<Rightarrow> bytes" where
  "ctr_unloop E ctr src =
     (if src \<noteq> [] then xor_bytes (take 8 src) (E ctr) @ ctr_unloop E (ctr_incr ctr) (drop 8 src) else [])"
  by pat_completeness auto
termination
  by (relation "measure (\<lambda>(E, ctr, src). length src)") auto

declare ctr_unloop.simps [simp del]

definition decrypt_text ::
  "des_mode \<Rightarrow> (bytes \<Rightarrow> bytes) \<Rightarrow> (bytes \<Rightarrow> bytes) \<Rightarrow> bytes \<Rightarrow> bytes \<Rightarrow> nat \<Rightarrow> bytes result" where
  "decrypt_text md E D iv buf src_len =
     (case md of
        Ecb \<Rightarrow> unblocks_loop (ecb_block D) [] buf src_len
      | Cbc \<Rightarrow> unblocks_loop (cbc_unblock D) iv buf src_len
      | _ \<Rightarrow> if length buf < src_len then Inl Out_of_bounds
             else let src = take src_len buf in
                  Inr (case md of
                         Cfb \<Rightarrow> feedback_decrypt (cfb_unblock E) E iv src
                       | Ofb \<Rightarrow> feedback_decrypt (ofb_block E) E iv src
                       | _ \<Rightarrow> ctr_unloop E iv src))"

subsection \<open>Buffers and strings\<close>

definition encrypt_len_reserve :: "nat \<Rightarrow> nat" where
  "encrypt_len_reserve src_len = (src_len div 8) * 8 + 8"

definition decrypt_len_reserve :: "nat \<Rightarrow> nat" where
  "decrypt_len_reserve src_len = (src_len div 8) * 8 + 8"

definition des_store :: "bytes \<Rightarrow> bytes \<Rightarrow> bytes result" where
  "des_store dst out = (if length out \<le> length dst then Inr (out @ drop (length out) dst) else Inl Out_of_bounds)"

text \<open>What a pointer with a length gives to read.\<close>

definition readable :: "bytes option \<Rightarrow> nat \<Rightarrow> bytes result" where
  "readable p len =
     (case p of
        None \<Rightarrow> if len = 0 then Inr [] else Inl Out_of_bounds
      | Some bs \<Rightarrow> if len \<le> length bs then Inr bs else Inl Out_of_bounds)"

definition des_encrypt ::
  "(bytes \<Rightarrow> 'k) \<Rightarrow> ('k \<Rightarrow> bool \<Rightarrow> bytes \<Rightarrow> bytes) \<Rightarrow> (nat \<Rightarrow> u8) \<Rightarrow> bytes option \<Rightarrow> nat \<Rightarrow> bytes option \<Rightarrow> nat
   \<Rightarrow> bytes option \<Rightarrow> nat \<Rightarrow> des_mode \<Rightarrow> padding \<Rightarrow> bytes option \<Rightarrow> nat \<Rightarrow> (des_error \<times> bytes option \<times> nat) result" where
  "des_encrypt sched cipher rnd dst dst_len src src_len key key_len md pad_style iv iv_len =
     (if \<not> des_key_valid key key_len then Inr (Invalid_key, dst, dst_len)
      else if \<not> des_iv_valid md iv iv_len then Inr (Invalid_iv, dst, dst_len)
      else if \<not> des_plain_valid src src_len pad_style then Inr (Invalid_plain, dst, dst_len)
      else case dst of
        None \<Rightarrow> Inr (Buffer_too_small, dst, dst_len)
      | Some d \<Rightarrow>
          (case readable key key_len of
             Inl err \<Rightarrow> Inl err
           | Inr k \<Rightarrow>
               (case readable src src_len of
                  Inl err \<Rightarrow> Inl err
                | Inr text \<Rightarrow>
                    (case readable iv (if md = Ecb then 0 else 8) of
                       Inl err \<Rightarrow> Inl err
                     | Inr iv_block \<Rightarrow>
                         (case encrypt_text md (ede_encrypt cipher (multiple_key sched k key_len)) rnd pad_style
                                 (take 8 iv_block) (take src_len text) of
                            (ec, out, len) \<Rightarrow>
                              map_sum id (\<lambda>d'. (ec, Some d', len)) (des_store d out))))))"

definition des_decrypt ::
  "(bytes \<Rightarrow> 'k) \<Rightarrow> ('k \<Rightarrow> bool \<Rightarrow> bytes \<Rightarrow> bytes) \<Rightarrow> bytes option \<Rightarrow> nat \<Rightarrow> bytes option \<Rightarrow> nat
   \<Rightarrow> bytes option \<Rightarrow> nat \<Rightarrow> des_mode \<Rightarrow> padding \<Rightarrow> bytes option \<Rightarrow> nat \<Rightarrow> (des_error \<times> bytes option \<times> nat) result" where
  "des_decrypt sched cipher dst dst_len src src_len key key_len md pad_style iv iv_len =
     (if \<not> des_key_valid key key_len then Inr (Invalid_key, dst, dst_len)
      else if \<not> des_iv_valid md iv iv_len then Inr (Invalid_iv, dst, dst_len)
      else case dst of
        None \<Rightarrow> Inr (Buffer_too_small, dst, dst_len)
      | Some d \<Rightarrow>
          (case readable key key_len of
             Inl err \<Rightarrow> Inl err
           | Inr k \<Rightarrow>
               (case readable src src_len of
                  Inl err \<Rightarrow> Inl err
                | Inr buf \<Rightarrow>
                    (case readable iv (if md = Ecb then 0 else 8) of
                       Inl err \<Rightarrow> Inl err
                     | Inr iv_block \<Rightarrow>
                         let ks = multiple_key sched k key_len in
                         (case decrypt_text md (ede_encrypt cipher ks) (ede_decrypt cipher ks) (take 8 iv_block) buf src_len of
                            Inl err \<Rightarrow> Inl err
                          | Inr out \<Rightarrow>
                              (case des_store d out of
                                 Inl err \<Rightarrow> Inl err
                               | Inr d' \<Rightarrow> map_sum id (\<lambda>(d'', len). (Des_ok, Some d'', len))
                                             (des_unpadding_block d' (length out) pad_style)))))))"

text \<open>Strings: \<open>c_str()\<close> and \<open>data()\<close> give the characters and a terminating zero.\<close>

definition resize :: "bytes \<Rightarrow> nat \<Rightarrow> bytes" where
  "resize s n = take n (s @ replicate n 0)"

definition iv_ptr :: "des_mode \<Rightarrow> bytes \<Rightarrow> bytes option" where
  "iv_ptr md iv = (if md = Ecb then None else Some (iv @ [0]))"

definition finish_string :: "(des_error \<times> bytes option \<times> nat) result \<Rightarrow> (des_error \<times> bytes) result" where
  "finish_string r =
     map_sum id (\<lambda>(ec, dst, len). if ec \<noteq> Des_ok then (ec, []) else (ec, resize (the dst) len)) r"

definition des_encrypt_string ::
  "(bytes \<Rightarrow> 'k) \<Rightarrow> ('k \<Rightarrow> bool \<Rightarrow> bytes \<Rightarrow> bytes) \<Rightarrow> (nat \<Rightarrow> u8) \<Rightarrow> bytes \<Rightarrow> bytes \<Rightarrow> bytes \<Rightarrow> des_mode \<Rightarrow> padding \<Rightarrow> bytes
   \<Rightarrow> (des_error \<times> bytes) result" where
  "des_encrypt_string sched cipher rnd dst src key md pad_style iv =
     (let dst_len = encrypt_len_reserve (length src) in
      finish_string (des_encrypt sched cipher rnd (Some (resize dst dst_len)) dst_len (Some (src @ [0])) (length src)
        (Some (key @ [0])) (length key) md pad_style (iv_ptr md iv) (length iv)))"

definition des_decrypt_string ::
  "(bytes \<Rightarrow> 'k) \<Rightarrow> ('k \<Rightarrow> bool \<Rightarrow> bytes \<Rightarrow> bytes) \<Rightarrow> bytes \<Rightarrow> bytes \<Rightarrow> bytes \<Rightarrow> des_mode \<Rightarrow> padding \<Rightarrow> bytes
   \<Rightarrow> (des_error \<times> bytes) result" where
  "des_decrypt_string sched cipher dst src key md pad_style iv =
     (let dst_len = decrypt_len_reserve (length src) in
      finish_string (des_decrypt sched cipher (Some (resize dst dst_len)) dst_len (Some (src @ [0])) (length src)
        (Some (key @ [0])) (length key) md pad_style (iv_ptr md iv) (length iv)))"

subsection \<open>Streams\<close>

text \<open>The chaining block and the counter.\<close>

type_synonym chain_state = "bytes \<times> bytes"

definition stream_block_encrypt ::
  "(bytes \<Rightarrow> bytes) \<Rightarrow> des_mode \<Rightarrow> chain_state \<Rightarrow> bytes \<Rightarrow> chain_state \<times> bytes" where
  "stream_block_encrypt E md st inbuf =
     (case st of (iv_block, ctr) \<Rightarrow>
        (case md of
           Ecb \<Rightarrow> (case ecb_block E iv_block inbuf of (iv', c) \<Rightarrow> ((iv', ctr), c))
         | Cbc \<Rightarrow> (case cbc_block E iv_block inbuf of (iv', c) \<Rightarrow> ((iv', ctr), c))
         | Cfb \<Rightarrow> (case cfb_block E iv_block inbuf of (iv', c) \<Rightarrow> ((iv', ctr), c))
         | Ofb \<Rightarrow> (case ofb_block E iv_block inbuf of (iv', c) \<Rightarrow> ((iv', ctr), c))
         | Ctr \<Rightarrow> (case ctr_block E ctr inbuf of (ctr', c) \<Rightarrow> ((iv_block, ctr'), c))))"

definition stream_block_decrypt ::
  "(bytes \<Rightarrow> bytes) \<Rightarrow> (bytes \<Rightarrow> bytes) \<Rightarrow> des_mode \<Rightarrow> chain_state \<Rightarrow> bytes \<Rightarrow> chain_state \<times> bytes" where
  "stream_block_decrypt E D md st inbuf =
     (case st of (iv_block, ctr) \<Rightarrow>
        (case md of
           Ecb \<Rightarrow> (case ecb_block D iv_block inbuf of (iv', c) \<Rightarrow> ((iv', ctr), c))
         | Cbc \<Rightarrow> (case cbc_unblock D iv_block inbuf of (iv', c) \<Rightarrow> ((iv', ctr), c))
         | Cfb \<Rightarrow> (case cfb_unblock E iv_block inbuf of (iv', c) \<Rightarrow> ((iv', ctr), c))
         | Ofb \<Rightarrow> (case ofb_block E iv_block inbuf of (iv', c) \<Rightarrow> ((iv', ctr), c))
         | Ctr \<Rightarrow> (case ctr_block E ctr inbuf of (ctr', c) \<Rightarrow> ((iv_block, ctr'), c))))"

text \<open>The rounds of the encryption loop on what is left of the input: error code and output.\<close>

function stream_encrypt_loop ::
  "(bytes \<Rightarrow> bytes) \<Rightarrow> (nat \<Rightarrow> u8) \<Rightarrow> des_mode \<Rightarrow> padding \<Rightarrow> chain_state \<Rightarrow> bytes \<Rightarrow> des_error \<times> bytes" where
  "stream_encrypt_loop E rnd md pad_style st inp =
     (let inbuf = take 8 inp; inp' = drop 8 inp in
      if inbuf = [] then (Des_ok, [])
      else if \<not> (length inbuf < 8 \<or> inp' = []) then
        (case stream_block_encrypt E md st inbuf of (st', c) \<Rightarrow>
           (case stream_encrypt_loop E rnd md pad_style st' inp' of (ec, out) \<Rightarrow> (ec, c @ out)))
      else if pad_style = No_padding then
        (if length inbuf \<noteq> 8 then (Invalid_padding, []) else (Des_ok, snd (stream_block_encrypt E md st inbuf)))
      else if length inbuf = 8 then
        (case stream_block_encrypt E md st inbuf of (st', c) \<Rightarrow>
           (Des_ok, c @ snd (stream_block_encrypt E md st' (des_padding_block rnd 8 [] pad_style))))
      else (Des_ok, snd (stream_block_encrypt E md st (des_padding_block rnd 8 inbuf pad_style))))"
  by pat_completeness auto
termination
  by (relation "measure (\<lambda>(E, rnd, md, pad_style, st, inp). length inp)") auto

declare stream_encrypt_loop.simps [simp del]

text \<open>The decryption loop holds back one block (\<open>prev\<close>) until it knows that another follows.\<close>

function stream_decrypt_loop ::
  "(bytes \<Rightarrow> bytes) \<Rightarrow> (bytes \<Rightarrow> bytes) \<Rightarrow> des_mode \<Rightarrow> padding \<Rightarrow> chain_state \<Rightarrow> bytes \<Rightarrow> bytes
   \<Rightarrow> (des_error \<times> bytes) result" where
  "stream_decrypt_loop E D md pad_style st prev inp =
     (let inbuf = take 8 inp; inp' = drop 8 inp in
      if inbuf = [] then Inr (Des_ok, [])
      else if length inbuf \<noteq> 8 then Inr (Invalid_padding, [])
      else case stream_block_decrypt E D md st inbuf of (st', outbuf) \<Rightarrow>
        if inp' = [] then
          (if pad_style \<noteq> No_padding then
             map_sum id (\<lambda>(buf, len). (Des_ok, prev @ take len buf)) (des_unpadding_block outbuf 8 pad_style)
           else Inr (Des_ok, prev @ outbuf))
        else map_sum id (\<lambda>(ec, out). (ec, prev @ out)) (stream_decrypt_loop E D md pad_style st' outbuf inp'))"
  by pat_completeness auto
termination
  by (relation "measure (\<lambda>(E, D, md, pad_style, st, prev, inp). length inp)") auto

declare stream_decrypt_loop.simps [simp del]

text \<open>\<open>junk\<close> is the indeterminate value of a block that the mode does not use.\<close>

definition stream_state :: "bytes \<Rightarrow> des_mode \<Rightarrow> bytes \<Rightarrow> chain_state" where
  "stream_state junk md iv = (if md \<noteq> Ecb then take 8 iv else junk, if md = Ctr then take 8 iv else junk)"

definition des_encrypt_stream ::
  "(bytes \<Rightarrow> 'k) \<Rightarrow> ('k \<Rightarrow> bool \<Rightarrow> bytes \<Rightarrow> bytes) \<Rightarrow> (nat \<Rightarrow> u8) \<Rightarrow> bytes \<Rightarrow> bool \<Rightarrow> bool \<Rightarrow> bytes \<Rightarrow> bytes
   \<Rightarrow> bytes option \<Rightarrow> nat \<Rightarrow> des_mode \<Rightarrow> padding \<Rightarrow> bytes option \<Rightarrow> nat \<Rightarrow> (des_error \<times> bytes) result" where
  "des_encrypt_stream sched cipher rnd junk out_good in_good out inp key key_len md pad_style iv iv_len =
     (if \<not> in_good \<or> \<not> out_good then Inr (File_io_failed, out)
      else if \<not> des_key_valid key key_len then Inr (Invalid_key, out)
      else if \<not> des_iv_valid md iv iv_len then Inr (Invalid_iv, out)
      else case readable key key_len of
        Inl err \<Rightarrow> Inl err
      | Inr k \<Rightarrow>
          (case readable iv (if md = Ecb then 0 else 8) of
             Inl err \<Rightarrow> Inl err
           | Inr iv_block \<Rightarrow>
               (case stream_encrypt_loop (ede_encrypt cipher (multiple_key sched k key_len)) rnd md pad_style
                       (stream_state junk md iv_block) inp of
                  (ec, c) \<Rightarrow> Inr (ec, out @ c))))"

definition des_decrypt_stream ::
  "(bytes \<Rightarrow> 'k) \<Rightarrow> ('k \<Rightarrow> bool \<Rightarrow> bytes \<Rightarrow> bytes) \<Rightarrow> bytes \<Rightarrow> bool \<Rightarrow> bool \<Rightarrow> bytes \<Rightarrow> bytes
   \<Rightarrow> bytes option \<Rightarrow> nat \<Rightarrow> des_mode \<Rightarrow> padding \<Rightarrow> bytes option \<Rightarrow> nat \<Rightarrow> (des_error \<times> bytes) result" where
  "des_decrypt_stream sched cipher junk out_good in_good out inp key key_len md pad_style iv iv_len =
     (if \<not> in_good then Inr (Invalid_input, out)
      else if \<not> out_good then Inr (Invalid_output, out)
      else if \<not> des_key_valid key key_len then Inr (Invalid_key, out)
      else if \<not> des_iv_valid md iv iv_len then Inr (Invalid_iv, out)
      else case readable key key_len of
        Inl err \<Rightarrow> Inl err
      | Inr k \<Rightarrow>
          (case readable iv (if md = Ecb then 0 else 8) of
             Inl err \<Rightarrow> Inl err
           | Inr iv_block \<Rightarrow>
               let ks = multiple_key sched k key_len in
               map_sum id (\<lambda>(ec, p). (ec, out @ p))
                 (stream_decrypt_loop (ede_encrypt cipher ks) (ede_decrypt cipher ks) md pad_style
                    (stream_state junk md iv_block) [] inp)))"

subsection \<open>Files\<close>

text \<open>
  A file system maps names to contents. The source is opened first; opening the destination truncates it,
  also when it is the source. \<open>run\<close> is the operation on the two streams.
\<close>

definition des_with_files ::
  "(bytes \<Rightarrow> (des_error \<times> bytes) result) \<Rightarrow> (string \<Rightarrow> bool) \<Rightarrow> (string \<rightharpoonup> bytes) \<Rightarrow> string \<Rightarrow> string
   \<Rightarrow> (des_error \<times> (string \<rightharpoonup> bytes)) result" where
  "des_with_files run writable fs dst src =
     (case fs src of
        None \<Rightarrow> Inr (File_io_failed, fs)
      | Some content \<Rightarrow>
          if \<not> writable dst then Inr (File_io_failed, fs)
          else map_sum id (\<lambda>(ec, out). (ec, fs(dst \<mapsto> out))) (run (if dst = src then [] else content)))"

definition des_encrypt_file where
  "des_encrypt_file sched cipher rnd junk writable fs dst src key key_len md pad_style iv iv_len =
     des_with_files (\<lambda>inp. des_encrypt_stream sched cipher rnd junk True True [] inp key key_len md pad_style iv iv_len)
       writable fs dst src"

definition des_decrypt_file where
  "des_decrypt_file sched cipher junk writable fs dst src key key_len md pad_style iv iv_len =
     des_with_files (\<lambda>inp. des_decrypt_stream sched cipher junk True True [] inp key key_len md pad_style iv iv_len)
       writable fs dst src"

definition des_encrypt_file_string where
  "des_encrypt_file_string sched cipher rnd junk writable fs dst src key md pad_style iv =
     des_encrypt_file sched cipher rnd junk writable fs dst src (Some (key @ [0])) (length key) md pad_style
       (iv_ptr md iv) (length iv)"

definition des_decrypt_file_string where
  "des_decrypt_file_string sched cipher junk writable fs dst src key md pad_style iv =
     des_decrypt_file sched cipher junk writable fs dst src (Some (key @ [0])) (length key) md pad_style
       (iv_ptr md iv) (length iv)"

text \<open>\<open>is_plain_valid\<close> on a stream, from the current position on.\<close>

definition des_plain_valid_stream :: "bytes \<Rightarrow> padding \<Rightarrow> bool" where
  "des_plain_valid_stream inp pad_style \<longleftrightarrow>
     (if pad_style = No_padding then \<not> (length inp = 0 \<or> length inp mod 8 \<noteq> 0) else True)"

end
