(* ===== verification/DesModes.thy ===== *)
theory DesModes
  imports Des
begin

text \<open>
  The modes of operation of \<open>src/hj/crypto/des.hpp\<close> as loops over whole blocks, and their inverses. A block
  cipher is an invertible function on blocks of eight bytes (locale \<open>block_cipher\<close>); every mode turns one into
  an invertible chaining step (locale \<open>chaining\<close>), and an invertible step makes the decryption loop the
  inverse of the encryption loop.
\<close>

section \<open>Loops over blocks\<close>

lemma blocks_loop_short: "length src < 8 \<Longrightarrow> blocks_loop step st src = ([], st, src)"
  by (subst blocks_loop.simps) simp

lemma blocks_loop_Cons:
  assumes "length b = 8"
  shows "blocks_loop step st (b @ src) =
    (case step st b of (st', c) \<Rightarrow> case blocks_loop step st' src of (out, st'', rest) \<Rightarrow> (c @ out, st'', rest))"
  using assms by (subst blocks_loop.simps) simp

text \<open>Induction over texts that consist of whole blocks.\<close>

lemma whole_blocks_induct [consumes 1, case_names Nil Block]:
  assumes "length (xs :: 'a list) mod 8 = 0" "P []"
    and "\<And>b xs. length b = 8 \<Longrightarrow> length xs mod 8 = 0 \<Longrightarrow> P xs \<Longrightarrow> P (b @ xs)"
  shows "P xs"
  using assms(1)
proof (induction "length xs" arbitrary: xs rule: less_induct)
  case less
  show ?case
  proof (cases "xs = []")
    case False
    then have len: "8 \<le> length xs" using less.prems by (metis length_0_conv mod_less not_le)
    then have "length (drop 8 xs) mod 8 = 0" using less.prems by (simp add: le_mod_geq)
    then have "P (drop 8 xs)" using less.hyps [of "drop 8 xs"] len by simp
    then have "P (take 8 xs @ drop 8 xs)" using len \<open>length (drop 8 xs) mod 8 = 0\<close> by (intro assms(3)) simp_all
    then show ?thesis by simp
  qed (simp add: assms(2))
qed

lemma blocks_loop_whole:
  "length xs mod 8 = 0 \<Longrightarrow> snd (snd (blocks_loop step st xs)) = []"
proof (induction xs arbitrary: st rule: whole_blocks_induct)
  case (Block b xs)
  show ?case unfolding blocks_loop_Cons [OF Block.hyps(1)] using Block.IH by (simp add: split_beta)
qed (simp add: blocks_loop_short)

lemma blocks_loop_append:
  "length xs mod 8 = 0 \<Longrightarrow> blocks_loop step st (xs @ ys) =
     (case blocks_loop step st xs of (o1, st1, _) \<Rightarrow>
        case blocks_loop step st1 ys of (o2, st2, rest) \<Rightarrow> (o1 @ o2, st2, rest))"
proof (induction xs arbitrary: st rule: whole_blocks_induct)
  case (Block b xs)
  show ?case unfolding append.assoc blocks_loop_Cons [OF Block.hyps(1)] Block.IH by (simp add: split_beta)
qed (simp add: blocks_loop_short)

abbreviation chain_out :: "(bytes \<Rightarrow> bytes \<Rightarrow> bytes \<times> bytes) \<Rightarrow> bytes \<Rightarrow> bytes \<Rightarrow> bytes" where
  "chain_out step st xs \<equiv> fst (blocks_loop step st xs)"

lemma unblocks_loop_whole:
  "length xs mod 8 = 0 \<Longrightarrow> unblocks_loop step st (xs @ ys) (length xs) = Inr (chain_out step st xs)"
proof (induction xs arbitrary: st rule: whole_blocks_induct)
  case Nil
  then show ?case by (subst unblocks_loop.simps) (simp add: blocks_loop_short)
next
  case (Block b xs)
  have "unblocks_loop step st (b @ xs @ ys) (length (b @ xs)) =
      (case step st b of (st', c) \<Rightarrow> map_sum id (\<lambda>out. c @ out) (unblocks_loop step st' (xs @ ys) (length xs)))"
    using Block.hyps by (subst unblocks_loop.simps) simp
  then show ?case unfolding append.assoc blocks_loop_Cons [OF Block.hyps(1)] using Block.IH by (simp add: split_beta)
qed

lemma feedback_decrypt_whole: "length xs mod 8 = 0 \<Longrightarrow> feedback_decrypt step E iv xs = chain_out step iv xs"
  using blocks_loop_whole [of xs step iv] by (simp add: feedback_decrypt_def split_beta)

lemma ctr_unloop_whole: "length xs mod 8 = 0 \<Longrightarrow> ctr_unloop E ctr xs = chain_out (ctr_block E) ctr xs"
proof (induction xs arbitrary: ctr rule: whole_blocks_induct)
  case Nil
  then show ?case by (subst ctr_unloop.simps) (simp add: blocks_loop_short)
next
  case (Block b xs)
  have "ctr_unloop E ctr (b @ xs) = xor_bytes b (E ctr) @ ctr_unloop E (ctr_incr ctr) xs"
    using Block.hyps by (subst ctr_unloop.simps) auto
  then show ?case using Block.IH by (simp add: blocks_loop_Cons [OF Block.hyps(1)] ctr_block_def split_beta)
qed

section \<open>Invertible steps\<close>

locale chaining =
  fixes enc dec :: "bytes \<Rightarrow> bytes \<Rightarrow> bytes \<times> bytes" and good :: "bytes \<Rightarrow> bool"
  assumes step: "good st \<Longrightarrow> length b = 8 \<Longrightarrow> enc st b = (st', c) \<Longrightarrow> good st' \<and> length c = 8 \<and> dec st c = (st', b)"
begin

lemma length_chain:
  "length xs mod 8 = 0 \<Longrightarrow> good st \<Longrightarrow> length (chain_out enc st xs) = length xs"
proof (induction xs arbitrary: st rule: whole_blocks_induct)
  case (Block b xs)
  obtain st' c where e: "enc st b = (st', c)" by fastforce
  show ?case using step [OF Block.prems Block.hyps(1) e] Block.IH [of st'] Block.hyps
    by (simp add: blocks_loop_Cons e split_beta)
qed (simp add: blocks_loop_short)

lemma inverse:
  "length xs mod 8 = 0 \<Longrightarrow> good st \<Longrightarrow> chain_out dec st (chain_out enc st xs) = xs"
proof (induction xs arbitrary: st rule: whole_blocks_induct)
  case (Block b xs)
  obtain st' c where e: "enc st b = (st', c)" by fastforce
  note s = step [OF Block.prems Block.hyps(1) e]
  have "chain_out enc st (b @ xs) = c @ chain_out enc st' xs"
    by (simp add: blocks_loop_Cons [OF Block.hyps(1)] e split_beta)
  then show ?case using s Block.IH [of st'] by (simp add: blocks_loop_Cons split_beta)
qed (simp add: blocks_loop_short)

end

lemma xor_bytes_twice: "length a = length b \<Longrightarrow> xor_bytes (xor_bytes a b) b = a"
  by (induction a b rule: list_induct2) (simp_all add: xor_bytes_def xor.assoc)

lemma length_xor_bytes [simp]: "length (xor_bytes a b) = min (length a) (length b)"
  by (simp add: xor_bytes_def)

lemma length_ctr_incr [simp]: "length (ctr_incr c) = length c"
proof -
  have "length (incr_rev xs) = length xs" for xs by (induction xs) auto
  then show ?thesis by (simp add: ctr_incr_def)
qed

locale block_cipher =
  fixes E D :: "bytes \<Rightarrow> bytes"
  assumes length_E: "length b = 8 \<Longrightarrow> length (E b) = 8"
    and inv: "length b = 8 \<Longrightarrow> D (E b) = b"

sublocale block_cipher < ecb: chaining "ecb_block E" "ecb_block D" "\<lambda>st. True"
  by unfold_locales (auto simp: ecb_block_def length_E inv)

sublocale block_cipher < cbc: chaining "cbc_block E" "cbc_unblock D" "\<lambda>st. length st = 8"
  by unfold_locales (auto simp: cbc_block_def cbc_unblock_def Let_def length_E inv xor_bytes_twice)

sublocale block_cipher < cfb: chaining "cfb_block E" "cfb_unblock E" "\<lambda>st. length st = 8"
  by unfold_locales (auto simp: cfb_block_def cfb_unblock_def Let_def length_E xor_bytes_twice)

sublocale block_cipher < ofb: chaining "ofb_block E" "ofb_block E" "\<lambda>st. length st = 8"
  by unfold_locales (auto simp: ofb_block_def Let_def length_E xor_bytes_twice)

sublocale block_cipher < ctr: chaining "ctr_block E" "ctr_block E" "\<lambda>st. length st = 8"
  by unfold_locales (auto simp: ctr_block_def length_E xor_bytes_twice)

text \<open>What is documented of \<open>DES_ecb_encrypt\<close>: decryption and encryption with the same schedule are
  inverse functions on blocks of eight bytes.\<close>

locale ecb_cipher =
  fixes cipher :: "'k \<Rightarrow> bool \<Rightarrow> bytes \<Rightarrow> bytes"
  assumes length_cipher: "length b = 8 \<Longrightarrow> length (cipher k d b) = 8"
    and cipher_inv: "length b = 8 \<Longrightarrow> cipher k (\<not> d) (cipher k d b) = b"
begin

lemma length_ede_fold: "length b = 8 \<Longrightarrow> length (fold (\<lambda>i. cipher (ks ! i) (p i)) is b) = 8"
  by (induction "is" arbitrary: b) (simp_all add: length_cipher)

lemma ede_fold_inv:
  "length b = 8 \<Longrightarrow> fold (\<lambda>i. cipher (ks ! i) (\<not> p i)) (rev is) (fold (\<lambda>i. cipher (ks ! i) (p i)) is b) = b"
  by (induction "is" arbitrary: b) (simp_all add: length_cipher cipher_inv)

end

sublocale ecb_cipher < ede: block_cipher "ede_encrypt cipher ks" "ede_decrypt cipher ks" for ks
proof
  fix b :: bytes assume b: "length b = 8"
  show "length (ede_encrypt cipher ks b) = 8"
    using b by (simp add: ede_encrypt_def length_cipher length_ede_fold)
  have "cipher k False (cipher k True c) = c" "cipher k True (cipher k False c) = c" if "length c = 8" for k c
    using cipher_inv [OF that, of k True] cipher_inv [OF that, of k False] by simp_all
  then show "ede_decrypt cipher ks (ede_encrypt cipher ks b) = b"
    using b ede_fold_inv [OF b, of ks "\<lambda>i. i mod 2 = 0"]
    by (simp add: ede_encrypt_def ede_decrypt_def length_cipher)
qed

section \<open>The modes\<close>

definition mode_step :: "des_mode \<Rightarrow> (bytes \<Rightarrow> bytes) \<Rightarrow> bytes \<Rightarrow> bytes \<Rightarrow> bytes \<times> bytes" where
  "mode_step md E = (case md of Ecb \<Rightarrow> ecb_block E | Cbc \<Rightarrow> cbc_block E | Cfb \<Rightarrow> cfb_block E
                              | Ofb \<Rightarrow> ofb_block E | Ctr \<Rightarrow> ctr_block E)"

definition mode_unstep :: "des_mode \<Rightarrow> (bytes \<Rightarrow> bytes) \<Rightarrow> (bytes \<Rightarrow> bytes) \<Rightarrow> bytes \<Rightarrow> bytes \<Rightarrow> bytes \<times> bytes" where
  "mode_unstep md E D = (case md of Ecb \<Rightarrow> ecb_block D | Cbc \<Rightarrow> cbc_unblock D | Cfb \<Rightarrow> cfb_unblock E
                                  | Ofb \<Rightarrow> ofb_block E | Ctr \<Rightarrow> ctr_block E)"

text \<open>The chaining block a mode starts from is good when it has eight bytes; ECB needs none.\<close>

definition good_iv :: "des_mode \<Rightarrow> bytes \<Rightarrow> bool" where
  "good_iv md iv \<longleftrightarrow> md = Ecb \<or> length iv = 8"

sublocale block_cipher < mode: chaining "mode_step md E" "mode_unstep md E D" "good_iv md" for md
proof
  fix st b st' c assume "good_iv md st" "length b = 8" "mode_step md E st b = (st', c)"
  then show "good_iv md st' \<and> length c = 8 \<and> mode_unstep md E D st c = (st', b)"
    using ecb.step [of b st st' c] cbc.step [of st b st' c] cfb.step [of st b st' c] ofb.step [of st b st' c]
      ctr.step [of st b st' c]
    by (cases md) (simp_all add: mode_step_def mode_unstep_def good_iv_def)
qed

section \<open>Padded texts\<close>

definition pad_text :: "(nat \<Rightarrow> u8) \<Rightarrow> padding \<Rightarrow> bytes \<Rightarrow> bytes" where
  "pad_text rnd pad_style src =
     (if is_need_padding pad_style
      then take (length src - length src mod 8) src
           @ des_padding_block rnd 8 (drop (length src - length src mod 8) src) pad_style
      else src)"

text \<open>The bytes that a padding adds to a text that leaves \<open>n\<close> bytes in its last block.\<close>

definition pad_bytes :: "(nat \<Rightarrow> u8) \<Rightarrow> padding \<Rightarrow> nat \<Rightarrow> bytes" where
  "pad_bytes rnd pad_style n =
     (case pad_style of
        Iso10126 \<Rightarrow> map rnd [n..<7] @ [of_nat (8 - n)]
      | Ansix923 \<Rightarrow> replicate (7 - n) 0 @ [of_nat (8 - n)]
      | Iso_iec_7816_4 \<Rightarrow> 0x80 # replicate (7 - n) 0
      | Zero_padding \<Rightarrow> replicate (8 - n) 0
      | No_padding \<Rightarrow> replicate (8 - n) 0
      | _ \<Rightarrow> replicate (8 - n) (of_nat (8 - n)))"

lemma length_pad_bytes: "n < 8 \<Longrightarrow> length (pad_bytes rnd pad_style n) = 8 - n"
  by (cases pad_style) (simp_all add: pad_bytes_def)

lemma foldl_update_tail:
  "n \<le> m \<Longrightarrow> m \<le> length xs \<Longrightarrow> foldl (\<lambda>d i. d[i := f i]) xs [n..<m] = take n xs @ map f [n..<m] @ drop m xs"
proof (induction m)
  case (Suc m)
  show ?case
  proof (cases "n = Suc m")
    case False
    then have "foldl (\<lambda>d i. d[i := f i]) xs [n..<m] = take n xs @ map f [n..<m] @ drop m xs"
      using Suc by simp
    moreover have "drop m xs = xs ! m # drop (Suc m) xs" using Suc.prems by (simp add: Cons_nth_drop_Suc)
    ultimately show ?thesis using False Suc.prems by (simp add: list_update_append)
  qed simp
qed simp

lemma padding_block_eq:
  assumes "length rest < 8"
  shows "des_padding_block rnd 8 rest pad_style = rest @ pad_bytes rnd pad_style (length rest)"
proof -
  define k where "k = 7 - length rest"
  then have k: "8 - length rest = Suc k" "7 - length rest = k" "length rest + k = 7" using assms by simp_all
  have snoc: "replicate (Suc k) v = replicate k v @ [v]" for v :: u8 by (simp add: replicate_append_same)
  have const: "foldl (\<lambda>d i. d[i := v]) (rest @ replicate (Suc k) 0) [length rest..<8] = rest @ replicate (Suc k) v" for v :: u8
    using foldl_update_tail [of "length rest" 8 "rest @ replicate (Suc k) 0" "\<lambda>_. v"] k(1,3)
    by (simp add: map_replicate_const del: replicate_Suc)
  have "length rest \<le> 7" "7 - length rest = k" "drop k (replicate k 0 @ [0::u8]) = [0]" using k by simp_all
  then have rand: "foldl (\<lambda>d i. d[i := rnd i]) (rest @ replicate k 0 @ [0]) [length rest..<7]
      = rest @ map rnd [length rest..<7] @ [0]"
    using foldl_update_tail [of "length rest" 7 "rest @ replicate k 0 @ [0]" rnd] k(3) by simp
  have last: "(rest @ zs @ [0])[7 := v] = rest @ zs @ [v]" if "length zs = k" for zs and v :: u8
    using that k(2,3) by (simp add: list_update_append)
  have first: "(rest @ replicate (Suc k) 0)[length rest := v] = rest @ v # replicate k 0" for v :: u8 by simp
  show ?thesis
  proof (cases pad_style)
    case Iso10126
    then show ?thesis
      using assms k rand last [of "map rnd [length rest..<7]"]
      by (simp add: des_padding_block_def pad_bytes_def size_sub_def snoc del: replicate_Suc upt_Suc)
  next
    case Ansix923
    then show ?thesis
      using assms k last [of "replicate k 0"]
      by (simp add: des_padding_block_def pad_bytes_def size_sub_def snoc del: replicate_Suc)
  qed (use assms k const first in
      \<open>simp_all add: des_padding_block_def pad_bytes_def size_sub_def Let_def del: replicate_Suc\<close>)
qed

lemma pad_text_eq:
  assumes "is_need_padding pad_style"
  shows "pad_text rnd pad_style src = src @ pad_bytes rnd pad_style (length src mod 8)"
proof -
  have "length (drop (length src - length src mod 8) src) = length src mod 8" by simp
  then show ?thesis
    using assms padding_block_eq [of "drop (length src - length src mod 8) src" rnd pad_style]
    by (simp add: pad_text_def append_assoc [symmetric] del: append_assoc)
qed

lemma length_pad_text:
  assumes "is_need_padding pad_style \<or> length src mod 8 = 0"
  shows "length (pad_text rnd pad_style src) mod 8 = 0"
    "is_need_padding pad_style \<Longrightarrow> length (pad_text rnd pad_style src) = length src div 8 * 8 + 8"
    "\<not> is_need_padding pad_style \<Longrightarrow> pad_text rnd pad_style src = src"
proof -
  show len: "length (pad_text rnd pad_style src) = length src div 8 * 8 + 8" if "is_need_padding pad_style"
    using that by (simp add: pad_text_eq length_pad_bytes) presburger
  show none: "pad_text rnd pad_style src = src" if "\<not> is_need_padding pad_style" using that by (simp add: pad_text_def)
  show "length (pad_text rnd pad_style src) mod 8 = 0"
    using assms len none by (cases "is_need_padding pad_style") simp_all
qed

end
