(* ===== verification/DesProps.thy ===== *)
theory DesProps
  imports DesModes
begin

text \<open>
  The properties of \<open>src/hj/crypto/des.hpp\<close>: decryption gives back what was encrypted, in every mode and with
  every padding, for buffers, strings, streams and files; streams and buffers agree; the reserved lengths are
  enough; and what decryption does to texts that no encryption produced.
\<close>

section \<open>Encryption and decryption of whole texts\<close>

lemma blocks_loop_split:
  fixes src :: bytes
  defines "whole \<equiv> take (length src - length src mod 8) src" and "rest \<equiv> drop (length src - length src mod 8) src"
  shows "blocks_loop step st src = (chain_out step st whole, fst (snd (blocks_loop step st whole)), rest)"
    "length whole mod 8 = 0" "length rest = length src mod 8" "src = whole @ rest"
proof -
  show w: "length whole mod 8 = 0" and r: "length rest = length src mod 8"
    unfolding whole_def rest_def by (simp_all add: minus_mod_eq_mult_div [symmetric] del: minus_mod_eq_mult_div)
  show s: "src = whole @ rest" by (simp add: whole_def rest_def)
  have "length rest < 8" using r by simp
  then show "blocks_loop step st src = (chain_out step st whole, fst (snd (blocks_loop step st whole)), rest)"
    unfolding s blocks_loop_append [OF w] by (simp add: blocks_loop_short split_beta)
qed

lemma chain_out_snoc:
  assumes "length whole mod 8 = 0" "length b = 8"
  shows "chain_out step st (whole @ b) = chain_out step st whole @ snd (step (fst (snd (blocks_loop step st whole))) b)"
  using blocks_loop_Cons [OF assms(2), of step _ "[]"]
  by (simp add: blocks_loop_append [OF assms(1)] blocks_loop_short split_beta)

lemma ecb_chain_state: "chain_out (ecb_block E) st xs = chain_out (ecb_block E) st' xs"
proof (induction "length xs" arbitrary: xs rule: less_induct)
  case less
  then show ?case
    by (subst (1 2) blocks_loop.simps) (simp add: ecb_block_def [abs_def] split_beta)
qed

lemma ctr_loop_whole:
  "length whole mod 8 = 0 \<Longrightarrow> ctr_loop E rnd pad_style ctr (whole @ rest) (length whole + n) =
     chain_out (ctr_block E) ctr whole @ ctr_loop E rnd pad_style (fst (snd (blocks_loop (ctr_block E) ctr whole))) rest n"
proof (induction whole arbitrary: ctr rule: whole_blocks_induct)
  case (Block b xs)
  have "ctr_loop E rnd pad_style ctr ((b @ xs) @ rest) (length (b @ xs) + n) =
      xor_bytes b (E ctr) @ ctr_loop E rnd pad_style (ctr_incr ctr) (xs @ rest) (length xs + n)"
    using Block.hyps by (subst ctr_loop.simps) simp
  then show ?case using Block.IH by (simp add: blocks_loop_Cons [OF Block.hyps(1)] ctr_block_def split_beta)
qed (simp add: blocks_loop_short)

lemma ctr_loop_last:
  assumes "length rest < 8"
  shows "ctr_loop E rnd pad_style ctr rest 8 = xor_bytes (des_padding_block rnd 8 rest pad_style) (E ctr)"
    "ctr_loop E rnd pad_style ctr rest 0 = []"
proof -
  show "ctr_loop E rnd pad_style ctr rest 0 = []" for ctr rest by (subst ctr_loop.simps) simp
  then show "ctr_loop E rnd pad_style ctr rest 8 = xor_bytes (des_padding_block rnd 8 rest pad_style) (E ctr)"
    using assms by (subst ctr_loop.simps) simp
qed

context block_cipher
begin

lemma encrypt_text_eq:
  assumes iv: "good_iv md iv" and src: "is_need_padding pad_style \<or> length src mod 8 = 0"
  shows "encrypt_text md E rnd pad_style iv src =
    (Des_ok, chain_out (mode_step md E) iv (pad_text rnd pad_style src), length (pad_text rnd pad_style src))"
proof -
  define whole where "whole = take (length src - length src mod 8) src"
  define rest where "rest = drop (length src - length src mod 8) src"
  note split = blocks_loop_split [where src = src, folded whole_def rest_def]
  have lens: "length rest < 8" "length src = length whole + length rest" using split(3,4) by simp_all
  define lst where "lst = des_padding_block rnd 8 rest pad_style"
  have lst: "length lst = 8" using lens by (simp add: lst_def padding_block_eq length_pad_bytes)
  have len: "length (chain_out (mode_step md E) iv whole) = length whole" using mode.length_chain [OF split(2) iv] .
  show ?thesis
  proof (cases "is_need_padding pad_style")
    case True
    then have pad: "pad_text rnd pad_style src = whole @ lst"
      by (simp add: pad_text_def whole_def rest_def lst_def)
    have "8 - length src mod 8 = 8 - length rest" "pad_style \<noteq> No_padding"
      using split(3) True by (auto simp: is_need_padding_def)
    moreover have "ctr_loop E rnd pad_style iv src (length src + (8 - length rest)) =
        chain_out (ctr_block E) iv whole @ xor_bytes lst (E (fst (snd (blocks_loop (ctr_block E) iv whole))))"
      using ctr_loop_whole [OF split(2), of E rnd pad_style iv rest 8] ctr_loop_last(1) [OF lens(1)] lens split(4)
      by (simp add: lst_def)
    moreover have "chain_out (ecb_block E) [] whole = chain_out (ecb_block E) iv whole" by (rule ecb_chain_state)
    ultimately show ?thesis
      using len lst lens True unfolding pad chain_out_snoc [OF split(2) lst]
      by (cases md)
        (simp_all add: encrypt_text_def mode_step_def ecb_encrypt_def cbc_encrypt_def cfb_encrypt_def ofb_encrypt_def
          ctr_encrypt_def split(1) ecb_block_def cbc_block_def cfb_block_def ofb_block_def ctr_block_def Let_def
          flip: lst_def)
  next
    case False
    then have no: "pad_style = No_padding" by (cases pad_style) (simp_all add: is_need_padding_def)
    have r: "rest = []" using False src split(3) by simp
    then have w: "whole = src" "length src mod 8 = 0" using split(3,4) by simp_all
    have ctr: "ctr_loop E rnd pad_style iv src (length src) = chain_out (ctr_block E) iv src"
      using ctr_loop_whole [OF w(2), of E rnd pad_style iv "[]" 0] ctr_loop_last(2) [of "[]"] by simp
    have "pad_text rnd pad_style src = src" using False by (simp add: pad_text_def)
    moreover have "chain_out (ecb_block E) [] src = chain_out (ecb_block E) iv src" by (rule ecb_chain_state)
    ultimately show ?thesis
      using len [unfolded w(1)] ctr w(2) no
      by (cases md)
        (simp_all add: encrypt_text_def mode_step_def ecb_encrypt_def cbc_encrypt_def cfb_encrypt_def ofb_encrypt_def
          ctr_encrypt_def blocks_loop_whole split_beta Let_def is_need_padding_def)
  qed
qed

end

lemma decrypt_text_eq:
  assumes "length c mod 8 = 0"
  shows "decrypt_text md E D iv (c @ extra) (length c) = Inr (chain_out (mode_unstep md E D) iv c)"
  using assms ecb_chain_state [of D "[]" c iv]
  by (cases md) (simp_all add: decrypt_text_def mode_unstep_def unblocks_loop_whole feedback_decrypt_whole ctr_unloop_whole)


section \<open>Padding and unpadding\<close>

lemma strip_zeros_zeros: "\<forall>i<k. buf ! (n + i) = 0 \<Longrightarrow> strip_zeros buf (n + k) = strip_zeros buf n"
  by (induction k) simp_all

lemma strip_zeros_stop: "n = 0 \<or> buf ! (n - 1) \<noteq> 0 \<Longrightarrow> strip_zeros buf n = n"
  by (cases n) simp_all

lemma zero_at_suffix: "zero_at (xs @ ys @ zs) (length xs) (length ys) = Inr (xs @ replicate (length ys) 0 @ zs)"
  by (simp add: zero_at_def)

lemma zero_at_ok: "n \<le> 8 \<Longrightarrow> 8 \<le> length buf \<Longrightarrow>
  \<exists>rest. zero_at buf n (8 - n) = Inr (take n buf @ rest) \<and> length (take n buf @ rest) = length buf"
  by (auto simp: zero_at_def intro: exI [of _ "drop n buf"])

text \<open>The text that a padding can be taken off: zero padding must be able to tell where the text ends, and the
  ISO/IEC 7816-4 padding indexes with an \<open>int\<close>.\<close>

definition unpaddable :: "padding \<Rightarrow> bytes \<Rightarrow> bool" where
  "unpaddable pad_style src \<longleftrightarrow>
     (is_need_padding pad_style \<or> length src mod 8 = 0) \<and>
     (pad_style = Zero_padding \<longrightarrow> src = [] \<or> last src \<noteq> 0) \<and>
     (pad_style = Iso_iec_7816_4 \<longrightarrow> length src + 8 \<le> 2 ^ 31)"

lemma int_index_small:
  assumes "0 < len" "len \<le> 2 ^ 31"
  shows "int_index len = int len - 1"
proof -
  have "sint (of_nat m :: 32 word) = int m" if "m < 2 ^ 31" for m
    using that by (simp add: signed_of_nat signed_take_bit_int_eq_self)
  from this [of "len - 1"] show ?thesis using assms by (simp add: int_index_def size_sub_def)
qed

text \<open>The bytes of the padding as the unpadding sees them.\<close>

lemma last_pad_bytes:
  assumes "n < 8" "pad_style \<in> {Pkcs5, Pkcs7, Iso10126, Ansix923}"
  shows "pad_bytes rnd pad_style n ! (7 - n) = of_nat (8 - n)"
  using assms by (auto simp: pad_bytes_def nth_append)

lemma pad_value: "k \<le> 8 \<Longrightarrow> unat (of_nat k :: u8) = k"
  by (simp add: unat_of_nat)

lemma unpad_pad_text:
  fixes rnd :: "nat \<Rightarrow> u8"
  assumes "unpaddable pad_style src"
  defines "padded \<equiv> pad_text rnd pad_style src"
  shows "\<exists>rest. des_unpadding_block (padded @ extra) (length padded) pad_style = Inr (src @ rest, length src)
    \<and> length (src @ rest) = length (padded @ extra)"
proof (cases "is_need_padding pad_style")
  case False
  then have "pad_style = No_padding" by (cases pad_style) (simp_all add: is_need_padding_def)
  then show ?thesis by (simp add: padded_def pad_text_def is_need_padding_def des_unpadding_block_def)
next
  case True
  define n where "n = length src mod 8"
  define k where "k = 8 - n"
  define pb where "pb = pad_bytes rnd pad_style n"
  have n: "n < 8" by (simp add: n_def)
  have k: "0 < k" "k \<le> 8" "length pb = k" using n by (simp_all add: k_def pb_def length_pad_bytes)
  have padded: "padded = src @ pb" "length padded = length src + k" "8 \<le> length padded"
    using True length_pad_text(2) [of pad_style src rnd] k(3)
    by (simp_all add: padded_def pad_text_eq pb_def n_def)
  have nth: "(src @ pb @ extra) ! (length src + i) = pb ! i" if "i < k" for i
    using that k(3) by (simp add: nth_append)
  have lst: "(src @ pb @ extra) ! (length src + k - 1) = of_nat k" if "pad_style \<in> {Pkcs5, Pkcs7, Iso10126, Ansix923}"
  proof -
    have "length src + k - 1 = length src + (7 - n)" "7 - n < k" using n by (simp_all add: k_def)
    then show ?thesis using nth [of "7 - n"] last_pad_bytes [OF n that, of rnd] by (simp only: pb_def k_def)
  qed
  have val: "unat (of_nat k :: u8) = k" using pad_value [OF k(2)] .
  have z: "zero_at (src @ pb @ extra) (length src) k = Inr (src @ replicate k 0 @ extra)"
    using zero_at_suffix [of src pb extra] k(3) by simp
  have all: "\<forall>i\<in>{length src..<length src + k}. (src @ pb @ extra) ! i = of_nat k" if "pad_style = Pkcs5 \<or> pad_style = Pkcs7"
    using that k(3) by (auto simp: nth_append pb_def pad_bytes_def k_def)
  have ansi: "\<forall>i\<in>{length src..<length src + k - 1}. (src @ pb @ extra) ! i = 0" if "pad_style = Ansix923"
    using that k by (auto simp: nth_append pb_def pad_bytes_def k_def)
  show ?thesis
  proof (cases pad_style)
    case Zero_padding
    then have "\<forall>i<k. (src @ pb @ extra) ! (length src + i) = 0"
      using nth by (simp add: pb_def pad_bytes_def k_def)
    moreover have "src = [] \<or> (src @ pb @ extra) ! (length src - 1) \<noteq> 0"
      using assms(1) Zero_padding by (auto simp: unpaddable_def nth_append last_conv_nth)
    ultimately have "strip_zeros (src @ pb @ extra) (length src + k) = length src"
      using strip_zeros_zeros strip_zeros_stop [of "length src"] by auto
    then show ?thesis
      using Zero_padding padded k zero_at_ok [of "length src" "src @ pb @ extra"]
      by (cases "length src < 8") (auto simp: des_unpadding_block_def Let_def)
  next
    case Iso_iec_7816_4
    have "int_index (length padded) = int (length padded) - 1"
      using assms(1) Iso_iec_7816_4 padded k by (intro int_index_small) (auto simp: unpaddable_def)
    then have "int_index (length src + k) \<ge> 0" "nat (int_index (length src + k)) + 1 = length src + k"
      using padded(2,3) by simp_all
    moreover have "strip_zeros (src @ pb @ extra) (length src + k) = length src + 1"
      "(src @ pb @ extra) ! length src = 0x80"
    proof -
      show *: "(src @ pb @ extra) ! length src = 0x80"
        using Iso_iec_7816_4 nth [of 0] k by (simp add: pb_def pad_bytes_def)
      have "\<forall>i<k - 1. (src @ pb @ extra) ! (length src + 1 + i) = 0"
        using Iso_iec_7816_4 nth [of "Suc _"] by (auto simp: pb_def pad_bytes_def k_def)
      then show "strip_zeros (src @ pb @ extra) (length src + k) = length src + 1"
        using strip_zeros_zeros [of "k - 1" "src @ pb @ extra" "length src + 1"]
          strip_zeros_stop [of "length src + 1" "src @ pb @ extra"] * k by simp
    qed
    ultimately show ?thesis
      using Iso_iec_7816_4 padded k zero_at_ok [of "length src" "src @ pb @ extra"]
      by (cases "length src < 8") (auto simp: des_unpadding_block_def Let_def simp del: strip_zeros.simps)
  qed (use padded k lst val z all ansi True in
      \<open>auto simp: des_unpadding_block_def Let_def size_sub_def is_need_padding_def\<close>)
qed


section \<open>Buffers and strings\<close>

text \<open>What the key and the initial vector have to be: readable, a key of whole blocks, and eight bytes of vector
  for every mode but ECB.\<close>

definition des_params :: "bytes option \<Rightarrow> nat \<Rightarrow> des_mode \<Rightarrow> bytes option \<Rightarrow> nat \<Rightarrow> bool" where
  "des_params key key_len md iv iv_len \<longleftrightarrow>
     des_key_valid key key_len \<and> key_len \<le> length (the key) \<and> des_iv_valid md iv iv_len \<and>
     (md = Ecb \<or> 8 \<le> length (the iv))"

lemma des_params_readable:
  assumes "des_params key key_len md iv iv_len"
  obtains k v where "readable key key_len = Inr k" "readable iv (if md = Ecb then 0 else 8) = Inr v" "good_iv md (take 8 v)"
    "key = Some k"
proof -
  obtain k where k: "key = Some k" "key_len \<le> length k"
    using assms by (auto simp: des_params_def des_key_valid_def)
  show thesis
  proof (cases iv)
    case None
    then have "md = Ecb" using assms by (auto simp: des_params_def des_iv_valid_def)
    then show thesis using k None by (intro that [of k "[]"]) (simp_all add: readable_def good_iv_def)
  next
    case (Some v)
    then show thesis using k assms
      by (intro that [of k v]) (auto simp: readable_def good_iv_def des_params_def)
  qed
qed

text \<open>The text that is encrypted, as the specification of a mode and a padding has it.\<close>

definition des_spec ::
  "(bytes \<Rightarrow> 'k) \<Rightarrow> ('k \<Rightarrow> bool \<Rightarrow> bytes \<Rightarrow> bytes) \<Rightarrow> (nat \<Rightarrow> u8) \<Rightarrow> bytes option \<Rightarrow> nat \<Rightarrow> des_mode \<Rightarrow> padding
   \<Rightarrow> bytes option \<Rightarrow> bytes \<Rightarrow> bytes" where
  "des_spec sched cipher rnd key key_len md pad_style iv src =
     chain_out (mode_step md (ede_encrypt cipher (multiple_key sched (the key) key_len)))
       (case iv of None \<Rightarrow> [] | Some v \<Rightarrow> take 8 v) (pad_text rnd pad_style src)"

lemma readable_iv: "readable iv n = Inr v \<Longrightarrow> (case iv of None \<Rightarrow> [] | Some v \<Rightarrow> take 8 v) = take 8 v"
  by (auto simp: readable_def split: option.splits if_splits)

lemma length_pad_text_le: "length (pad_text rnd pad_style src) \<le> length src div 8 * 8 + 8"
proof (cases "is_need_padding pad_style")
  case False
  then show ?thesis by (simp add: pad_text_def)
qed (simp add: length_pad_text)

context ecb_cipher
begin

lemmas length_ede = ede.length_E

lemma length_des_spec:
  assumes "des_params key key_len md iv iv_len" "is_need_padding pad_style \<or> length src mod 8 = 0"
  shows "length (des_spec sched cipher rnd key key_len md pad_style iv src) = length (pad_text rnd pad_style src)"
proof -
  obtain k v where p: "readable iv (if md = Ecb then 0 else 8) = Inr v" "good_iv md (take 8 v)"
    using des_params_readable [OF assms(1)] by metis
  show ?thesis
    using ede.mode.length_chain [OF length_pad_text(1) [OF assms(2)] p(2)] by (simp add: des_spec_def readable_iv [OF p(1)])
qed

lemma des_encrypt_ok:
  fixes key iv :: "bytes option" and src :: bytes and rnd :: "nat \<Rightarrow> u8" and sched :: "bytes \<Rightarrow> 'k"
  assumes par: "des_params key key_len md iv iv_len" and src: "src \<noteq> []" "is_need_padding pad_style \<or> length src mod 8 = 0"
    and dst: "length (pad_text rnd pad_style src) \<le> length dst"
  defines "c \<equiv> des_spec sched cipher rnd key key_len md pad_style iv src"
  shows "des_encrypt sched cipher rnd (Some dst) dst_len (Some (src @ extra)) (length src) key key_len md pad_style iv iv_len =
     Inr (Des_ok, Some (c @ drop (length c) dst), length c)"
proof -
  obtain k v where p: "readable key key_len = Inr k" "readable iv (if md = Ecb then 0 else 8) = Inr v"
      "good_iv md (take 8 v)" "key = Some k"
    using des_params_readable [OF par] by metis
  define ks where "ks = multiple_key sched k key_len"
  have len: "length c = length (pad_text rnd pad_style src)"
    unfolding c_def by (rule length_des_spec [OF par src(2)])
  have enc: "encrypt_text md (ede_encrypt cipher ks) rnd pad_style (take 8 v) src = (Des_ok, c, length c)"
    using ede.encrypt_text_eq [OF p(3) src(2), of ks rnd] len
    by (simp add: c_def des_spec_def readable_iv [OF p(2)] ks_def p(4))
  have "des_key_valid key key_len" "des_iv_valid md iv iv_len" using par by (simp_all add: des_params_def)
  moreover have "des_plain_valid (Some (src @ extra)) (length src) pad_style"
    using src by (auto simp: des_plain_valid_def is_need_padding_def)
  ultimately show ?thesis
    using p(1,2) enc dst len by (simp add: des_encrypt_def readable_def [of "Some (src @ extra)"] des_store_def flip: ks_def)
qed

lemma des_decrypt_ok:
  fixes key iv :: "bytes option" and src :: bytes and rnd :: "nat \<Rightarrow> u8" and sched :: "bytes \<Rightarrow> 'k"
  assumes par: "des_params key key_len md iv iv_len" and src: "unpaddable pad_style src"
  defines "c \<equiv> des_spec sched cipher rnd key key_len md pad_style iv src"
  assumes dst: "length c \<le> length dst"
  shows "\<exists>rest. des_decrypt sched cipher (Some dst) dst_len (Some (c @ extra)) (length c) key key_len md pad_style iv iv_len =
     Inr (Des_ok, Some (src @ rest), length src)"
proof -
  obtain k v where p: "readable key key_len = Inr k" "readable iv (if md = Ecb then 0 else 8) = Inr v"
      "good_iv md (take 8 v)" "key = Some k"
    using des_params_readable [OF par] by metis
  define ks where "ks = multiple_key sched k key_len"
  have src': "is_need_padding pad_style \<or> length src mod 8 = 0" using src by (simp add: unpaddable_def)
  note whole = length_pad_text(1) [OF src', of rnd]
  have len: "length c = length (pad_text rnd pad_style src)"
    unfolding c_def by (rule length_des_spec [OF par src'])
  have c: "c = chain_out (mode_step md (ede_encrypt cipher ks)) (take 8 v) (pad_text rnd pad_style src)"
    by (simp add: c_def des_spec_def readable_iv [OF p(2)] ks_def p(4))
  have "decrypt_text md (ede_encrypt cipher ks) (ede_decrypt cipher ks) (take 8 v) (c @ extra) (length c) =
      Inr (pad_text rnd pad_style src)"
    using decrypt_text_eq [of c md "ede_encrypt cipher ks"] ede.mode.inverse [OF whole p(3), of ks] whole len
    by (simp add: c)
  moreover obtain rest where "des_unpadding_block (pad_text rnd pad_style src @ drop (length c) dst)
      (length (pad_text rnd pad_style src)) pad_style = Inr (src @ rest, length src)"
    using unpad_pad_text [OF src, of rnd] by blast
  moreover have "des_key_valid key key_len" "des_iv_valid md iv iv_len" using par by (simp_all add: des_params_def)
  ultimately show ?thesis
    using p(1,2) dst len
    by (simp add: des_decrypt_def readable_def [of "Some (c @ extra)"] des_store_def Let_def flip: ks_def)
qed

end


lemma length_resize [simp]: "length (resize s n) = n"
  by (simp add: resize_def)




section \<open>Streams and files\<close>

text \<open>The part of the state of a stream that its mode uses.\<close>

definition chain_sel :: "des_mode \<Rightarrow> chain_state \<Rightarrow> bytes" where
  "chain_sel md st = (if md = Ctr then snd st else fst st)"

lemma stream_block_encrypt_eq:
  "mode_step md E (chain_sel md st) b =
     (chain_sel md (fst (stream_block_encrypt E md st b)), snd (stream_block_encrypt E md st b))"
  by (cases md) (simp_all add: mode_step_def chain_sel_def stream_block_encrypt_def split_beta)

lemma stream_block_decrypt_eq:
  "mode_unstep md E D (chain_sel md st) b =
     (chain_sel md (fst (stream_block_decrypt E D md st b)), snd (stream_block_decrypt E D md st b))"
  by (cases md) (simp_all add: mode_unstep_def chain_sel_def stream_block_decrypt_def split_beta)

lemma pad_text_block:
  assumes "length b = 8"
  shows "pad_text rnd pad_style (b @ src) = b @ pad_text rnd pad_style src"
proof -
  have "length (b @ src) mod 8 = length src mod 8" using assms by simp
  then show ?thesis using assms by (cases "is_need_padding pad_style") (simp_all add: pad_text_eq, simp add: pad_text_def)
qed

lemma pad_text_short:
  "length src < 8 \<Longrightarrow> is_need_padding pad_style \<Longrightarrow> pad_text rnd pad_style src = des_padding_block rnd 8 src pad_style"
  by (simp add: pad_text_def)

lemma chain_out_block:
  "length b = 8 \<Longrightarrow> chain_out step st (b @ xs) = snd (step st b) @ chain_out step (fst (step st b)) xs"
  by (simp add: blocks_loop_Cons split_beta)

lemma chain_out_single: "length b = 8 \<Longrightarrow> chain_out step st b = snd (step st b)"
  using chain_out_block [of b step st "[]"] by (simp add: blocks_loop_short)

lemma stream_encrypt_loop_eq:
  assumes "inp \<noteq> []" "is_need_padding pad_style \<or> length inp mod 8 = 0"
  shows "stream_encrypt_loop E rnd md pad_style st inp =
    (Des_ok, chain_out (mode_step md E) (chain_sel md st) (pad_text rnd pad_style inp))"
  using assms
proof (induction "length inp" arbitrary: inp st rule: less_induct)
  case less
  define b where "b = take 8 inp"
  define inp' where "inp' = drop 8 inp"
  define st' where "st' = fst (stream_block_encrypt E md st b)"
  have inp: "inp = b @ inp'" by (simp add: b_def inp'_def)
  have step: "mode_step md E (chain_sel md st) b = (chain_sel md st', snd (stream_block_encrypt E md st b))"
    by (simp add: st'_def stream_block_encrypt_eq)
  have ne: "b \<noteq> []" using less.prems(1) by (simp add: b_def)
  have none: "pad_style = No_padding \<longleftrightarrow> \<not> is_need_padding pad_style"
    by (cases pad_style) (simp_all add: is_need_padding_def)
  note loop = stream_encrypt_loop.simps [of E rnd md pad_style st inp, folded b_def inp'_def]
  consider (many) "length b = 8" "inp' \<noteq> []" | (last) "length b = 8" "inp' = []" | (short) "length inp < 8" "b = inp" "inp' = []"
    by (cases "length inp < 8") (auto simp: b_def inp'_def)
  then show ?case
  proof cases
    case many
    then have "stream_encrypt_loop E rnd md pad_style st' inp' =
        (Des_ok, chain_out (mode_step md E) (chain_sel md st') (pad_text rnd pad_style inp'))"
      using less.prems inp by (intro less.hyps) simp_all
    then show ?thesis using many ne unfolding loop
      by (simp add: split_beta Let_def step inp pad_text_block chain_out_block flip: st'_def)
  next
    case last
    have "length (des_padding_block rnd 8 [] pad_style) = 8" by (simp add: padding_block_eq length_pad_bytes)
    moreover have "pad_text rnd pad_style inp = b @ pad_text rnd pad_style []" using inp last pad_text_block [of b rnd pad_style "[]"] by simp
    ultimately show ?thesis using last ne unfolding loop
      by (cases "is_need_padding pad_style")
        (simp_all add: none pad_text_short chain_out_block chain_out_single split_beta step stream_block_encrypt_eq
          flip: st'_def, simp add: pad_text_def blocks_loop_short)
  next
    case short
    then have "length inp mod 8 \<noteq> 0" using less.prems(1) by simp
    then have "is_need_padding pad_style" using less.prems(2) by simp
    moreover have "length (des_padding_block rnd 8 inp pad_style) = 8" using short by (simp add: padding_block_eq length_pad_bytes)
    ultimately show ?thesis using short less.prems(1) unfolding loop
      by (simp add: none pad_text_short chain_out_single stream_block_encrypt_eq)
  qed
qed


context block_cipher
begin

text \<open>The decryption loop on what the chaining made of a text \<open>xs\<close> with a last block.\<close>

lemma stream_decrypt_loop_eq:
  assumes "length xs mod 8 = 0" "good_iv md (chain_sel md st)" "length lst = 8"
  shows "stream_decrypt_loop E D md pad_style st prev (chain_out (mode_step md E) (chain_sel md st) (xs @ lst)) =
    map_sum id (\<lambda>(buf, len). (Des_ok, prev @ xs @ take len buf)) (des_unpadding_block lst 8 pad_style)"
  using assms(1,2)
proof (induction xs arbitrary: st prev rule: whole_blocks_induct)
  case Nil
  obtain st' c where e: "mode_step md E (chain_sel md st) lst = (st', c)" by fastforce
  then have c: "length c = 8" "mode_unstep md E D (chain_sel md st) c = (st', lst)"
    using mode.step [OF Nil.prems assms(3) e] by simp_all
  then have "snd (stream_block_decrypt E D md st c) = lst" by (simp add: stream_block_decrypt_eq)
  moreover have "c \<noteq> []" using c(1) by auto
  ultimately show ?case using c(1) assms(3)
    by (subst stream_decrypt_loop.simps)
      (auto simp: chain_out_single e split_beta Let_def des_unpadding_block_def sum.map_comp)
next
  case (Block b xs)
  obtain s c where e: "mode_step md E (chain_sel md st) b = (s, c)" by fastforce
  define st' where "st' = fst (stream_block_decrypt E D md st c)"
  have c: "length c = 8" "good_iv md s" "mode_unstep md E D (chain_sel md st) c = (s, b)"
    using mode.step [OF Block.prems Block.hyps(1) e] by simp_all
  then have st': "chain_sel md st' = s" "snd (stream_block_decrypt E D md st c) = b"
    by (simp_all add: stream_block_decrypt_eq st'_def)
  define rest where "rest = chain_out (mode_step md E) s (xs @ lst)"
  have "length rest = length xs + 8"
    using mode.length_chain [of "xs @ lst" md s] Block.hyps(2) assms(3) c(2) by (simp add: rest_def)
  moreover have "chain_out (mode_step md E) (chain_sel md st) ((b @ xs) @ lst) = c @ rest"
    using Block.hyps(1) by (simp add: chain_out_block e rest_def)
  moreover have "stream_decrypt_loop E D md pad_style st' b rest =
      map_sum id (\<lambda>(buf, len). (Des_ok, b @ xs @ take len buf)) (des_unpadding_block lst 8 pad_style)"
    using Block.IH [of st' b] c(2) st'(1) by (simp add: rest_def id_def)
  moreover have "c \<noteq> []" using c(1) by auto
  ultimately show ?case using c(1) st'(2)
    by (subst stream_decrypt_loop.simps)
      (cases "des_unpadding_block lst 8 pad_style"; auto simp: split_beta Let_def simp flip: st'_def)
qed

end


text \<open>A stream takes the padding off its last block only, so zero padding needs less than for a buffer: the bytes
  of the last, incomplete block must not end in zero.\<close>

definition stream_unpaddable :: "padding \<Rightarrow> bytes \<Rightarrow> bool" where
  "stream_unpaddable pad_style inp \<longleftrightarrow>
     (is_need_padding pad_style \<or> length inp mod 8 = 0) \<and>
     (pad_style = Zero_padding \<longrightarrow> length inp mod 8 = 0 \<or> last inp \<noteq> 0)"

lemma padded_last_block:
  assumes "inp \<noteq> []" "stream_unpaddable pad_style inp"
  obtains xs lst buf len where "pad_text rnd pad_style inp = xs @ lst" "length xs mod 8 = 0" "length lst = 8"
    "des_unpadding_block lst 8 pad_style = Inr (buf, len)" "xs @ take len buf = inp"
proof (cases "is_need_padding pad_style")
  case True
  define whole where "whole = take (length inp - length inp mod 8) inp"
  define rest where "rest = drop (length inp - length inp mod 8) inp"
  note split = blocks_loop_split [where src = inp, folded whole_def rest_def]
  have rest: "length rest < 8" using split(3) by simp
  have "rest = [] \<or> last rest = last inp" using split(4) by (metis last_appendR)
  then have un: "unpaddable pad_style rest"
    using True assms(2) split(3) rest by (auto simp: unpaddable_def stream_unpaddable_def)
  have len: "length (pad_text rnd pad_style rest) = 8" using length_pad_text(2) [of pad_style rest] True rest by simp
  then obtain more' where u: "des_unpadding_block (pad_text rnd pad_style rest) 8 pad_style = Inr (rest @ more', length rest)"
    using unpad_pad_text [OF un, of rnd "[]"] by auto
  show thesis
  proof (rule that [OF _ split(2) len u])
    show "pad_text rnd pad_style inp = whole @ pad_text rnd pad_style rest"
      using True rest by (simp add: pad_text_def whole_def rest_def)
    show "whole @ take (length rest) (rest @ more') = inp" using split(4) by simp
  qed
next
  case False
  then have no: "pad_style = No_padding" "length inp mod 8 = 0"
    using assms(2) by (cases pad_style, simp_all add: is_need_padding_def stream_unpaddable_def)
  then have "8 \<le> length inp" using assms(1) by (metis length_0_conv mod_less not_le)
  then show thesis
    using no that [of "take (length inp - 8) inp" "drop (length inp - 8) inp" "drop (length inp - 8) inp" 8]
    by (simp add: pad_text_def is_need_padding_def des_unpadding_block_def le_mod_geq)
qed

lemma chain_sel_stream_state: "md \<noteq> Ecb \<Longrightarrow> chain_sel md (stream_state junk md v) = take 8 v"
  by (simp add: chain_sel_def stream_state_def)

context ecb_cipher
begin

lemma stream_spec:
  assumes "readable iv (if md = Ecb then 0 else 8) = Inr v" "key = Some k"
  shows "chain_out (mode_step md (ede_encrypt cipher (multiple_key sched k key_len)))
      (chain_sel md (stream_state junk md v)) (pad_text rnd pad_style inp) =
    des_spec sched cipher rnd key key_len md pad_style iv inp"
  using ecb_chain_state [of _ "chain_sel md (stream_state junk md v)" _ "take 8 v"] assms(2)
  by (cases "md = Ecb") (simp_all add: des_spec_def readable_iv [OF assms(1)] chain_sel_stream_state mode_step_def)

lemma des_encrypt_stream_ok:
  assumes par: "des_params key key_len md iv iv_len" and inp: "inp \<noteq> []" "is_need_padding pad_style \<or> length inp mod 8 = 0"
  shows "des_encrypt_stream sched cipher rnd junk True True out inp key key_len md pad_style iv iv_len =
     Inr (Des_ok, out @ des_spec sched cipher rnd key key_len md pad_style iv inp)"
proof -
  obtain k v where p: "readable key key_len = Inr k" "readable iv (if md = Ecb then 0 else 8) = Inr v"
      "good_iv md (take 8 v)" "key = Some k"
    using des_params_readable [OF par] by metis
  have "des_key_valid key key_len" "des_iv_valid md iv iv_len" using par by (simp_all add: des_params_def)
  then show ?thesis
    using p(1,2) stream_spec [OF p(2,4), of sched key_len junk rnd pad_style inp]
    by (simp add: des_encrypt_stream_def stream_encrypt_loop_eq [OF inp])
qed

lemma des_decrypt_stream_ok:
  assumes par: "des_params key key_len md iv iv_len" and inp: "inp \<noteq> []" "stream_unpaddable pad_style inp"
  shows "des_decrypt_stream sched cipher junk True True out (des_spec sched cipher rnd key key_len md pad_style iv inp)
     key key_len md pad_style iv iv_len = Inr (Des_ok, out @ inp)"
proof -
  obtain k v where p: "readable key key_len = Inr k" "readable iv (if md = Ecb then 0 else 8) = Inr v"
      "good_iv md (take 8 v)" "key = Some k"
    using des_params_readable [OF par] by metis
  define ks where "ks = multiple_key sched k key_len"
  obtain xs lst buf len where l: "pad_text rnd pad_style inp = xs @ lst" "length xs mod 8 = 0" "length lst = 8"
    "des_unpadding_block lst 8 pad_style = Inr (buf, len)" "xs @ take len buf = inp"
    using padded_last_block [OF inp] by metis
  have good: "good_iv md (chain_sel md (stream_state junk md v))"
    using p(3) by (cases "md = Ecb") (simp_all add: good_iv_def chain_sel_stream_state)
  have "des_key_valid key key_len" "des_iv_valid md iv iv_len" using par by (simp_all add: des_params_def)
  then show ?thesis
    using p(1,2) stream_spec [OF p(2,4), of sched key_len junk rnd pad_style inp, symmetric]
      ede.stream_decrypt_loop_eq [OF l(2) good l(3), of ks pad_style "[]"] l(1,4,5)
    by (simp add: des_decrypt_stream_def ks_def Let_def)
qed

end


section \<open>An instance of the interface\<close>

text \<open>Every Feistel network on eight bytes satisfies what is documented of \<open>DES_ecb_encrypt\<close>, whatever its
  round function \<open>f\<close> is; DES is one of them. A key schedule is its list of round keys.\<close>

definition feistel_round :: "('r \<Rightarrow> bytes \<Rightarrow> bytes) \<Rightarrow> 'r \<Rightarrow> bytes \<times> bytes \<Rightarrow> bytes \<times> bytes" where
  "feistel_round f k lr = (snd lr, xor_bytes (fst lr) (resize (f k (snd lr)) 4))"

definition feistel :: "('r \<Rightarrow> bytes \<Rightarrow> bytes) \<Rightarrow> 'r list \<Rightarrow> bool \<Rightarrow> bytes \<Rightarrow> bytes" where
  "feistel f ks enc b =
     (case fold (feistel_round f) (if enc then ks else rev ks) (take 4 b, drop 4 b) of (l, r) \<Rightarrow> r @ l)"

lemma length_feistel_fold:
  "length (fst lr) = 4 \<Longrightarrow> length (snd lr) = 4 \<Longrightarrow>
     length (fst (fold (feistel_round f) ks lr)) = 4 \<and> length (snd (fold (feistel_round f) ks lr)) = 4"
  by (induction ks arbitrary: lr) (simp_all add: feistel_round_def)

lemma feistel_fold_inv:
  "length l = 4 \<Longrightarrow> length r = 4 \<Longrightarrow>
     (case fold (feistel_round f) ks (l, r) of (l', r') \<Rightarrow> fold (feistel_round f) (rev ks) (r', l')) = (r, l)"
proof (induction ks arbitrary: l r)
  case (Cons k ks)
  define r1 where "r1 = xor_bytes l (resize (f k r) 4)"
  have "length r1 = 4" using Cons.prems by (simp add: r1_def)
  moreover have "fold (feistel_round f) (k # ks) (l, r) = fold (feistel_round f) ks (r, r1)"
    by (simp add: feistel_round_def r1_def)
  ultimately show ?case
    using Cons.IH [of r r1] Cons.prems by (simp add: split_beta feistel_round_def r1_def xor_bytes_twice)
qed simp

interpretation feistel: ecb_cipher "feistel f" for f :: "'r \<Rightarrow> bytes \<Rightarrow> bytes"
proof
  fix b :: bytes and ks :: "'r list" and d assume b: "length b = 8"
  define ks' where "ks' = (if d then ks else rev ks)"
  obtain l r where lr: "fold (feistel_round f) ks' (take 4 b, drop 4 b) = (l, r)" by fastforce
  then have len: "length l = 4" "length r = 4"
    using length_feistel_fold [of "(take 4 b, drop 4 b)" f ks'] b by simp_all
  have enc: "feistel f ks d b = r @ l" using lr by (simp add: feistel_def ks'_def)
  then show "length (feistel f ks d b) = 8" using len by simp
  have "fold (feistel_round f) (rev ks') (r, l) = (drop 4 b, take 4 b)"
    using feistel_fold_inv [of "take 4 b" "drop 4 b" f ks'] lr b by simp
  moreover have "feistel f ks (\<not> d) (r @ l) = (case fold (feistel_round f) (rev ks') (r, l) of (l', r') \<Rightarrow> r' @ l')"
    using len by (simp add: feistel_def ks'_def)
  ultimately show "feistel f ks (\<not> d) (feistel f ks d b) = b" by (simp add: enc)
qed

text \<open>The network used by the witnesses: sixteen rounds whose keys are the bytes of the key, twice.\<close>

definition demo_sched :: "bytes \<Rightarrow> u8 list" where
  "demo_sched key = key @ key"

definition demo_cipher :: "u8 list \<Rightarrow> bool \<Rightarrow> bytes \<Rightarrow> bytes" where
  "demo_cipher = feistel (\<lambda>k r. map (\<lambda>x. k XOR (x * x + 7 * x)) r)"

lemma demo_ecb: "ecb_cipher demo_cipher"
  unfolding demo_cipher_def by (rule feistel.ecb_cipher_axioms)





lemma stream_empty:
  "stream_encrypt_loop E rnd md pad_style st [] = (Des_ok, [])"
  "stream_decrypt_loop E D md pad_style st prev [] = Inr (Des_ok, [])"
  by (subst stream_encrypt_loop.simps, simp) (subst stream_decrypt_loop.simps, simp)

text \<open>
  A file that is encrypted into a second file and decrypted from there into a third one (which may be the
  first) comes back as it was, also when it is empty.
\<close>

theorem des_file_roundtrip:
  assumes "ecb_cipher cipher" "des_params key key_len md iv iv_len" "fs src = Some content" "stream_unpaddable pad_style content"
    "writable mid" "writable dst" "mid \<noteq> src" "dst \<noteq> mid"
  shows "\<exists>c. des_encrypt_file sched cipher rnd junk writable fs mid src key key_len md pad_style iv iv_len = Inr (Des_ok, fs(mid \<mapsto> c))
    \<and> des_decrypt_file sched cipher junk' writable (fs(mid \<mapsto> c)) dst mid key key_len md pad_style iv iv_len =
        Inr (Des_ok, fs(mid \<mapsto> c, dst \<mapsto> content))"
proof (cases "content = []")
  case True
  obtain k v where "readable key key_len = Inr k" "readable iv (if md = Ecb then 0 else 8) = Inr v"
    using des_params_readable [OF assms(2)] by metis
  then show ?thesis using True assms(2-)
    by (intro exI [of _ "[]"])
      (auto simp: des_encrypt_file_def des_decrypt_file_def des_with_files_def des_encrypt_stream_def des_decrypt_stream_def
        des_params_def stream_empty Let_def)
next
  case False
  have "is_need_padding pad_style \<or> length content mod 8 = 0" using assms(4) by (simp add: stream_unpaddable_def)
  from ecb_cipher.des_encrypt_stream_ok [OF assms(1,2) False this, of sched rnd junk "[]"]
    ecb_cipher.des_decrypt_stream_ok [OF assms(1,2) False assms(4), of sched junk' "[]" rnd]
  show ?thesis using assms(3,5-)
    by (intro exI [of _ "des_spec sched cipher rnd key key_len md pad_style iv content"])
      (simp add: des_encrypt_file_def des_decrypt_file_def des_with_files_def)
qed

theorem des_file_roundtrip_witness:
  "\<exists>c. des_encrypt_file demo_sched demo_cipher (\<lambda>i. 3) [] (\<lambda>f. True) [''a'' \<mapsto> [0, 0, 7]] ''b'' ''a''
        (Some [1, 2, 3, 4, 5, 6, 7, 8]) 8 Ecb Zero_padding None 0 = Inr (Des_ok, [''a'' \<mapsto> [0, 0, 7], ''b'' \<mapsto> c])
    \<and> des_decrypt_file demo_sched demo_cipher [] (\<lambda>f. True) ([''a'' \<mapsto> [0, 0, 7], ''b'' \<mapsto> c]) ''c'' ''b''
        (Some [1, 2, 3, 4, 5, 6, 7, 8]) 8 Ecb Zero_padding None 0 =
        Inr (Des_ok, [''a'' \<mapsto> [0, 0, 7], ''b'' \<mapsto> c, ''c'' \<mapsto> [0, 0, 7]])"
  using des_file_roundtrip [OF demo_ecb, of "Some [1, 2, 3, 4, 5, 6, 7, 8]" 8 Ecb None 0 "[''a'' \<mapsto> [0, 0, 7]]" "''a''" "[0, 0, 7]"
      Zero_padding "\<lambda>f. True" "''b''" "''c''" demo_sched "\<lambda>i. 3" "[]" "[]"]
  by (simp add: des_params_def des_key_valid_def des_iv_valid_def is_need_padding_def stream_unpaddable_def)


section \<open>Errors\<close>

text \<open>A pointer that covers its length.\<close>

definition covers :: "bytes option \<Rightarrow> nat \<Rightarrow> bool" where
  "covers p n \<longleftrightarrow> (case p of None \<Rightarrow> True | Some bs \<Rightarrow> n \<le> length bs)"

text \<open>
  Encryption into a destination of the reserved length never leaves a buffer, and its error code is decided
  by the checks on the key, the vector and the text, in this order; nothing else can fail.
\<close>

theorem des_encrypt_errors:
  assumes "ecb_cipher cipher" "encrypt_len_reserve src_len \<le> length d" "covers key key_len" "covers src src_len" "covers iv iv_len"
  shows "\<exists>d' len. des_encrypt sched cipher rnd (Some d) dst_len src src_len key key_len md pad_style iv iv_len =
      Inr (if \<not> des_key_valid key key_len then Invalid_key else if \<not> des_iv_valid md iv iv_len then Invalid_iv
           else if \<not> des_plain_valid src src_len pad_style then Invalid_plain else Des_ok, Some d', len)
    \<and> length d' = length d"
proof (cases "des_key_valid key key_len \<and> des_iv_valid md iv iv_len \<and> des_plain_valid src src_len pad_style")
  case True
  then obtain bs where bs: "src = Some bs" "src_len \<noteq> 0" "pad_style = No_padding \<longrightarrow> src_len mod 8 = 0" "src_len \<le> length bs"
    using assms(4) by (auto simp: des_plain_valid_def covers_def split: if_splits option.splits)
  have par: "des_params key key_len md iv iv_len"
    using True assms(3,5) by (auto simp: des_params_def des_key_valid_def des_iv_valid_def covers_def split: option.splits)
  define t where "t = take src_len bs"
  have t: "bs = t @ drop src_len bs" "length t = src_len" "t \<noteq> []" using bs by (auto simp: t_def)
  have need: "is_need_padding pad_style \<or> length t mod 8 = 0"
    using bs(3) t(2) by (cases pad_style) (simp_all add: is_need_padding_def)
  have fits: "length (pad_text rnd pad_style t) \<le> length d"
    using length_pad_text_le [of rnd pad_style t] assms(2) t(2) by (simp add: encrypt_len_reserve_def)
  from ecb_cipher.des_encrypt_ok [OF assms(1) par t(3) need fits, of sched dst_len "drop src_len bs"]
    ecb_cipher.length_des_spec [OF assms(1) par need, of sched rnd]
  show ?thesis using True t bs(1) fits by simp
next
  case False
  then show ?thesis by (auto simp: des_encrypt_def)
qed

theorem des_encrypt_errors_witness:
  "\<exists>d' len. des_encrypt demo_sched demo_cipher (\<lambda>i. 0) (Some (replicate 16 0)) 16 (Some [1, 2, 3]) 3
        (Some [1, 2, 3, 4, 5, 6, 7, 8]) 8 Ofb No_padding (Some [9, 9, 9, 9, 9, 9, 255, 255]) 8 =
      Inr (Invalid_plain, Some d', len) \<and> length d' = 16"
  using des_encrypt_errors [OF demo_ecb, of 3 "replicate 16 0" "Some [1, 2, 3, 4, 5, 6, 7, 8]" 8 "Some [1, 2, 3]"
      "Some [9, 9, 9, 9, 9, 9, 255, 255]" 8 demo_sched "\<lambda>i. 0" 16 Ofb No_padding]
  by (simp add: encrypt_len_reserve_def covers_def des_key_valid_def des_iv_valid_def des_plain_valid_def)

subsection \<open>Texts that no encryption produced\<close>

lemma unblocks_loop_partial:
  "length buf mod 8 \<noteq> 0 \<Longrightarrow> unblocks_loop step st buf (length buf) = Inl Out_of_bounds"
proof (induction "length buf" arbitrary: buf st rule: less_induct)
  case less
  then have pos: "0 < length buf" by auto
  show ?case
  proof (cases "length buf < 8")
    case True
    then show ?thesis using pos by (subst unblocks_loop.simps) simp
  next
    case False
    then have "unblocks_loop step st' (drop 8 buf) (length (drop 8 buf)) = Inl Out_of_bounds" for st'
      using less.prems by (intro less.hyps) (simp_all add: le_mod_geq)
    then show ?thesis using False pos by (subst unblocks_loop.simps) (simp add: split_beta)
  qed
qed

text \<open>One byte of a feedback or counter mode is decrypted by one byte of the key stream.\<close>

lemma decrypt_text_byte:
  assumes "md \<in> {Cfb, Ofb, Ctr}" "length (E iv) = 8"
  shows "decrypt_text md E D iv [x XOR hd (E iv)] 1 = Inr [x]"
proof -
  obtain y ys where "E iv = y # ys" using assms(2) by (cases "E iv") simp_all
  then have "xor_bytes [x XOR hd (E iv)] (E iv) = [x]" by (simp add: xor_bytes_def xor.assoc)
  moreover have "ctr_unloop E (ctr_incr iv) [] = []" by (subst ctr_unloop.simps) simp
  ultimately show ?thesis
    using assms(1) by (auto simp: decrypt_text_def feedback_decrypt_def blocks_loop_short Let_def ctr_unloop.simps [of _ _ "[_]"])
qed

text \<open>
  Decryption does not check the length of its input, nor that the padding fits the text. With ECB or CBC, an
  input that is not a number of whole blocks is read past its end; and in the other modes there is, for
  every key, vector and destination, an input of one byte whose padding value makes \<open>len - pad\<close> wrap around,
  so that \<open>memset\<close> writes outside of the destination.
\<close>

theorem des_decrypt_unchecked:
  assumes "ecb_cipher cipher" "des_params key key_len md iv iv_len" "0 < length d" "length d < 2 ^ 63" "length src mod 8 \<noteq> 0"
  shows "if md \<in> {Ecb, Cbc}
    then des_decrypt sched cipher (Some d) dst_len (Some src) (length src) key key_len md pad_style iv iv_len = Inl Out_of_bounds
    else \<exists>c. des_decrypt sched cipher (Some d) dst_len (Some [c]) 1 key key_len md Pkcs7 iv iv_len = Inl Out_of_bounds"
proof -
  obtain k v where p: "readable key key_len = Inr k" "readable iv (if md = Ecb then 0 else 8) = Inr v"
      "good_iv md (take 8 v)" "key = Some k"
    using des_params_readable [OF assms(2)] by metis
  have ok: "des_key_valid key key_len" "des_iv_valid md iv iv_len" using assms(2) by (simp_all add: des_params_def)
  define ks where "ks = multiple_key sched k key_len"
  show ?thesis
  proof (cases "md \<in> {Ecb, Cbc}")
    case True
    then have "decrypt_text md (ede_encrypt cipher ks) (ede_decrypt cipher ks) (take 8 v) src (length src) = Inl Out_of_bounds"
      using unblocks_loop_partial [OF assms(5)] by (auto simp: decrypt_text_def)
    then show ?thesis using True ok p(1,2) by (auto simp: des_decrypt_def readable_def [of "Some src"] Let_def simp flip: ks_def)
  next
    case False
    have md: "md \<in> {Cfb, Ofb, Ctr}" using False by (cases md) simp_all
    define E where "E = ede_encrypt cipher ks"
    have "length (E (take 8 v)) = 8"
      using ecb_cipher.length_ede [OF assms(1), of "take 8 v" ks] p(3) False
      by (simp add: E_def good_iv_def)
    then have dec: "decrypt_text md E (ede_decrypt cipher ks) (take 8 v) [2 XOR hd (E (take 8 v))] 1 = Inr [2]"
      by (rule decrypt_text_byte [OF md])
    have "size_sub 1 2 = 2 ^ 64 - 1" by (simp add: size_sub_def)
    then have "des_unpadding_block ([2] @ drop 1 d) 1 Pkcs7 = Inl Out_of_bounds"
      using assms(3,4) by (simp add: des_unpadding_block_def zero_at_def)
    then show ?thesis using False ok p(1,2) dec assms(3)
      by (simp only: if_False, intro exI [of _ "2 XOR hd (E (take 8 v))"])
        (auto simp: des_decrypt_def readable_def [of "Some [_]"] Let_def des_store_def E_def simp flip: ks_def)
  qed
qed

theorem des_decrypt_unchecked_witness:
  "\<exists>c. des_decrypt demo_sched demo_cipher (Some [0, 0]) 2 (Some [c]) 1
        (Some [1, 2, 3, 4, 5, 6, 7, 8]) 8 Ctr Pkcs7 (Some [9, 9, 9, 9, 9, 9, 255, 255]) 8 = Inl Out_of_bounds"
  using des_decrypt_unchecked [OF demo_ecb, of "Some [1, 2, 3, 4, 5, 6, 7, 8]" 8 Ctr "Some [9, 9, 9, 9, 9, 9, 255, 255]" 8
      "[0, 0]" "[1]" demo_sched 2 Pkcs7]
  by (simp add: des_params_def des_key_valid_def des_iv_valid_def)

end
