(* ===== verification/Aes.thy ===== *)
theory Aes
  imports Des
begin

text \<open>
  \<open>src/hj/crypto/aes.hpp\<close>: AES through OpenSSL's EVP interface, with the library's own paddings, for buffers,
  strings, streams and files.

  The EVP interface is a parameter: a record \<open>evp\<close> with one function per call, on an abstract context. A call
  that does not return 1 is \<open>None\<close>. The number of bytes that \<open>EVP_CipherInit\<close> reads from the key and from the
  vector belongs to the cipher (\<open>evp_key_length\<close>, \<open>evp_iv_length\<close>); reading more than a buffer has is
  \<open>Out_of_bounds\<close>. The enumeration \<open>padding\<close> is the one of \<open>des.hpp\<close>, which has the same values. An input
  stream is its content and a position.
\<close>

section \<open>Definitions\<close>

datatype aes_error =
    Aes_ok | Key_invalid | Iv_invalid | Plain_invalid | Padding_style_invalid | Input_stream_invalid
  | Output_stream_invalid | Ctx_alloc_failed | Cipher_ctl_failed | Get_tag_failed | File_open_failed
  | File_read_failed | File_write_failed | Param_invalid | Passwd_invalid | Pbkdf2_derive_failed
  | Aes_encrypt_failed | Encrypt_init_failed | Encrypt_update_failed | Encrypt_final_failed
  | Aes_decrypt_failed | Decrypt_init_failed | Decrypt_update_failed | Decrypt_final_failed

datatype aes_mode =
    Mode_ecb | Mode_cbc | Mode_cfb1 | Mode_cfb8 | Mode_cfb128 | Mode_ofb | Mode_ctr | Mode_gcm | Mode_ccm
  | Mode_xts | Mode_wrap | Mode_wrap_pad | Mode_cbc_hmac_sha1 | Mode_cbc_hmac_sha256 | Mode_ocb

text \<open>\<open>EVP_aes_<bits>_<mode>\<close>\<close>

datatype aes_cipher = Evp_aes nat aes_mode

record 'c evp =
  evp_new :: "'c option"
  evp_block_size :: "aes_cipher option \<Rightarrow> nat"
  evp_key_length :: "aes_cipher \<Rightarrow> nat"
  evp_iv_length :: "aes_cipher \<Rightarrow> nat"
  evp_init :: "bool \<Rightarrow> 'c \<Rightarrow> aes_cipher option \<Rightarrow> bytes option \<Rightarrow> bytes option \<Rightarrow> 'c option"
  evp_set_ivlen :: "'c \<Rightarrow> int \<Rightarrow> 'c option"
  evp_no_padding :: "'c \<Rightarrow> 'c"
  evp_update :: "'c \<Rightarrow> bytes \<Rightarrow> int \<Rightarrow> ('c \<times> bytes) option"
  evp_final :: "'c \<Rightarrow> ('c \<times> bytes) option"
  evp_get_tag :: "'c \<Rightarrow> bytes option"
  evp_set_tag :: "'c \<Rightarrow> bytes \<Rightarrow> 'c option"

subsection \<open>Parameters\<close>

fun is_aead_mode :: "aes_mode \<Rightarrow> bool" where
  "is_aead_mode Mode_gcm = True"
| "is_aead_mode Mode_ccm = True"
| "is_aead_mode _ = False"

fun is_stream_mode :: "aes_mode \<Rightarrow> bool" where
  "is_stream_mode Mode_cfb1 = True"
| "is_stream_mode Mode_cfb8 = True"
| "is_stream_mode Mode_cfb128 = True"
| "is_stream_mode Mode_ofb = True"
| "is_stream_mode Mode_ctr = True"
| "is_stream_mode _ = False"

definition aes_key_valid :: "aes_mode \<Rightarrow> bytes option \<Rightarrow> nat \<Rightarrow> bool" where
  "aes_key_valid md key key_len \<longleftrightarrow>
     (if key = None then False
      else if md \<in> {Mode_xts, Mode_cbc_hmac_sha1, Mode_cbc_hmac_sha256} then key_len = 16 \<or> key_len = 32
      else key_len = 16 \<or> key_len = 24 \<or> key_len = 32)"

fun aes_iv_valid :: "aes_mode \<Rightarrow> bytes option \<Rightarrow> nat \<Rightarrow> bool" where
  "aes_iv_valid Mode_ecb iv iv_len \<longleftrightarrow> iv = None"
| "aes_iv_valid Mode_gcm iv iv_len \<longleftrightarrow> iv \<noteq> None \<and> iv_len \<ge> 1"
| "aes_iv_valid Mode_ccm iv iv_len \<longleftrightarrow> iv \<noteq> None \<and> iv_len \<ge> 7 \<and> iv_len \<le> 13"
| "aes_iv_valid Mode_cfb1 iv iv_len \<longleftrightarrow> iv \<noteq> None \<and> iv_len > 0"
| "aes_iv_valid Mode_cfb8 iv iv_len \<longleftrightarrow> iv \<noteq> None \<and> iv_len > 0"
| "aes_iv_valid Mode_wrap iv iv_len \<longleftrightarrow> iv = None"
| "aes_iv_valid Mode_wrap_pad iv iv_len \<longleftrightarrow> iv = None"
| "aes_iv_valid Mode_ocb iv iv_len \<longleftrightarrow> iv \<noteq> None \<and> iv_len \<ge> 1 \<and> iv_len \<le> 15"
| "aes_iv_valid _ iv iv_len \<longleftrightarrow> iv \<noteq> None \<and> iv_len = 16"

definition select_cipher :: "aes_mode \<Rightarrow> nat \<Rightarrow> aes_cipher option" where
  "select_cipher md key_len =
     (if key_len = 16 then Some (Evp_aes 128 md)
      else if key_len = 24 then
        (if md \<in> {Mode_xts, Mode_cbc_hmac_sha1, Mode_cbc_hmac_sha256} then None else Some (Evp_aes 192 md))
      else if key_len = 32 then Some (Evp_aes 256 md)
      else None)"

definition aes_block_size :: "'c evp \<Rightarrow> aes_mode \<Rightarrow> nat \<Rightarrow> nat" where
  "aes_block_size e md key_len =
     (if md \<in> {Mode_ecb, Mode_cbc, Mode_cfb128, Mode_ofb, Mode_ctr} then 16
      else if md \<in> {Mode_cfb8, Mode_cfb1} then 1
      else evp_block_size e (select_cipher md key_len))"

text \<open>\<open>n % block_size\<close>\<close>

definition size_mod :: "nat \<Rightarrow> nat \<Rightarrow> nat result" where
  "size_mod n m = (if m = 0 then Inl Division_by_zero else Inr (n mod m))"

definition aes_plain_valid :: "'c evp \<Rightarrow> aes_mode \<Rightarrow> nat \<Rightarrow> padding \<Rightarrow> nat \<Rightarrow> bool result" where
  "aes_plain_valid e md key_len pad_style plain_len =
     (if pad_style = No_padding
      then map_sum id (\<lambda>r. \<not> r \<noteq> 0) (size_mod plain_len (aes_block_size e md key_len))
      else Inr True)"

subsection \<open>Padding\<close>

definition aes_padding_block :: "(nat \<Rightarrow> u8) \<Rightarrow> nat \<Rightarrow> padding \<Rightarrow> bytes \<Rightarrow> bytes" where
  "aes_padding_block rnd block_size pad_style src =
     (if pad_style \<noteq> No_padding \<and> block_size > 1 then
        let pad_val0 = of_nat (block_size - length src mod block_size) :: u8;
            pad_val = (if pad_val0 = 0 then of_nat block_size else pad_val0);
            padded_len = length src + unat pad_val;
            padded_src = src @ replicate (unat pad_val) 0
        in case pad_style of
             Pkcs5 \<Rightarrow> foldl (\<lambda>d i. d[i := pad_val]) padded_src [length src..<padded_len]
           | Pkcs7 \<Rightarrow> foldl (\<lambda>d i. d[i := pad_val]) padded_src [length src..<padded_len]
           | Zero_padding \<Rightarrow> padded_src
           | Iso10126 \<Rightarrow> (foldl (\<lambda>d i. d[i := rnd i]) padded_src [length src..<padded_len - 1])[padded_len - 1 := pad_val]
           | Ansix923 \<Rightarrow> padded_src[padded_len - 1 := pad_val]
           | Iso_iec_7816_4 \<Rightarrow> padded_src[length src := 0x80]
           | No_padding \<Rightarrow> padded_src
      else src)"

text \<open>The new length; \<open>dst\<close> has at least \<open>dst_len\<close> bytes.\<close>

definition aes_unpadding_block :: "bytes \<Rightarrow> nat \<Rightarrow> aes_mode \<Rightarrow> padding \<Rightarrow> nat \<Rightarrow> nat" where
  "aes_unpadding_block dst dst_len md pad_style block_size =
     (if \<not> is_aead_mode md \<and> pad_style \<noteq> No_padding \<and> block_size > 1 then
        (let pad = unat (dst ! (dst_len - 1)) in
         case pad_style of
           Zero_padding \<Rightarrow> strip_zeros dst dst_len
         | Iso10126 \<Rightarrow>
             if dst_len = 0 \<or> pad = 0 \<or> pad > block_size then dst_len else size_sub dst_len pad
         | Ansix923 \<Rightarrow>
             if dst_len = 0 \<or> pad = 0 \<or> pad > block_size then dst_len
             else if \<exists>i\<in>{size_sub dst_len pad..<dst_len - 1}. dst ! i \<noteq> 0 then dst_len else size_sub dst_len pad
         | Iso_iec_7816_4 \<Rightarrow>
             let i = int_index dst_len; j = (if i \<ge> 0 then strip_zeros dst (nat i + 1) else 0)
             in if j > 0 \<and> dst ! (j - 1) = 0x80 then j - 1 else dst_len
         | No_padding \<Rightarrow> dst_len
         | _ \<Rightarrow>
             if dst_len = 0 \<or> pad = 0 \<or> pad > block_size then dst_len
             else if \<exists>i\<in>{size_sub dst_len pad..<dst_len}. dst ! i \<noteq> of_nat pad then dst_len else size_sub dst_len pad)
      else dst_len)"

subsection \<open>Contexts\<close>

text \<open>A call that may fail with an error code.\<close>

type_synonym 'a outcome = "(aes_error + 'a) result"

definition try_evp :: "'a option \<Rightarrow> aes_error \<Rightarrow> ('a \<Rightarrow> 'b outcome) \<Rightarrow> 'b outcome" where
  "try_evp r err f = (case r of None \<Rightarrow> Inr (Inl err) | Some x \<Rightarrow> f x)"

definition int_of_size :: "nat \<Rightarrow> int" where
  "int_of_size n = sint (of_nat n :: u32)"

text \<open>What \<open>EVP_CipherInit\<close> reads through its pointers.\<close>

definition evp_reads :: "'c evp \<Rightarrow> aes_cipher \<Rightarrow> aes_mode \<Rightarrow> bytes option \<Rightarrow> bytes option \<Rightarrow> nat \<Rightarrow> bool" where
  "evp_reads e cipher md key iv iv_len \<longleftrightarrow>
     evp_key_length e cipher \<le> length (the key) \<and>
     (case iv of None \<Rightarrow> True | Some v \<Rightarrow> (if is_aead_mode md then iv_len else evp_iv_length e cipher) \<le> length v)"

text \<open>The calls before the first update, for encryption (\<open>enc\<close>) and decryption. Decryption of a buffer does not
  pass the cipher a second time (\<open>again\<close>), and only decryption sets a tag.\<close>

definition aes_open ::
  "'c evp \<Rightarrow> bool \<Rightarrow> bool \<Rightarrow> aes_mode \<Rightarrow> bytes option \<Rightarrow> nat \<Rightarrow> bytes option \<Rightarrow> nat \<Rightarrow> bytes option \<Rightarrow> 'c outcome" where
  "aes_open e enc again md key key_len iv iv_len tag =
     (let init_failed = (if enc then Encrypt_init_failed else Decrypt_init_failed) in
      try_evp (evp_new e) Ctx_alloc_failed (\<lambda>ctx.
      try_evp (select_cipher md key_len) init_failed (\<lambda>cipher.
      try_evp (evp_init e enc ctx (Some cipher) None None) init_failed (\<lambda>ctx.
      try_evp (if is_aead_mode md \<and> iv \<noteq> None \<and> iv_len > 0 then evp_set_ivlen e ctx (int_of_size iv_len) else Some ctx)
        Cipher_ctl_failed (\<lambda>ctx.
      if \<not> evp_reads e cipher md key iv iv_len then Inl Out_of_bounds
      else try_evp (evp_init e enc ctx (if again then Some cipher else None) key iv) init_failed (\<lambda>ctx.
      let ctx = (if is_aead_mode md then ctx else evp_no_padding e ctx) in
      case tag of
        None \<Rightarrow> Inr (Inr ctx)
      | Some t \<Rightarrow> try_evp (evp_set_tag e ctx t) Cipher_ctl_failed (\<lambda>ctx. Inr (Inr ctx))))))))"

text \<open>\<open>do\<close> for outcomes\<close>

definition and_then :: "'a outcome \<Rightarrow> ('a \<Rightarrow> 'b outcome) \<Rightarrow> 'b outcome" where
  "and_then r f = (case r of Inl fault \<Rightarrow> Inl fault | Inr (Inl err) \<Rightarrow> Inr (Inl err) | Inr (Inr x) \<Rightarrow> f x)"


text \<open>A write of \<open>n\<close> bytes into a buffer of \<open>cap\<close>.\<close>

definition fits :: "nat \<Rightarrow> nat \<Rightarrow> 'a result \<Rightarrow> 'a result" where
  "fits cap n r = (if n \<le> cap then r else Inl Out_of_bounds)"

subsection \<open>Buffers and strings\<close>

text \<open>\<open>src\<close> is the text of \<open>src_len\<close> bytes and \<open>dst_size\<close> the room at \<open>dst\<close>; the outcome is what has been written
  there when the call succeeds.\<close>

definition aes_encrypt ::
  "'c evp \<Rightarrow> (nat \<Rightarrow> u8) \<Rightarrow> nat \<Rightarrow> bytes \<Rightarrow> bytes option \<Rightarrow> nat \<Rightarrow> aes_mode \<Rightarrow> padding \<Rightarrow> bytes option \<Rightarrow> nat \<Rightarrow> bytes outcome" where
  "aes_encrypt e rnd dst_size src key key_len md pad_style iv iv_len =
     (case aes_plain_valid e md key_len pad_style (length src) of
        Inl fault \<Rightarrow> Inl fault
      | Inr valid \<Rightarrow>
          if \<not> valid then Inr (Inl Plain_invalid)
          else if \<not> aes_key_valid md key key_len then Inr (Inl Key_invalid)
          else if \<not> aes_iv_valid md iv iv_len then Inr (Inl Iv_invalid)
          else let padded_src = aes_padding_block rnd (aes_block_size e md key_len) pad_style src in
            and_then (aes_open e True True md key key_len iv iv_len None) (\<lambda>ctx.
            try_evp (evp_update e ctx padded_src (int_of_size (length padded_src))) Encrypt_update_failed (\<lambda>(ctx, out1).
            fits dst_size (length out1) (
            try_evp (evp_final e ctx) Encrypt_final_failed (\<lambda>(ctx, out2).
            fits dst_size (length out1 + length out2) (
            if is_aead_mode md then
              try_evp (evp_get_tag e ctx) Cipher_ctl_failed (\<lambda>tag.
              fits dst_size (length out1 + length out2 + length tag) (Inr (Inr (out1 @ out2 @ tag))))
            else Inr (Inr (out1 @ out2))))))))"

text \<open>Decryption gives the bytes written and the length reported.\<close>

definition aes_decrypt ::
  "'c evp \<Rightarrow> nat \<Rightarrow> bytes \<Rightarrow> bytes option \<Rightarrow> nat \<Rightarrow> aes_mode \<Rightarrow> padding \<Rightarrow> bytes option \<Rightarrow> nat \<Rightarrow> (bytes \<times> nat) outcome" where
  "aes_decrypt e dst_size src key key_len md pad_style iv iv_len =
     (if \<not> aes_key_valid md key key_len then Inr (Inl Key_invalid)
      else if \<not> aes_iv_valid md iv iv_len then Inr (Inl Iv_invalid)
      else let block_size = aes_block_size e md key_len in
        case (if pad_style = No_padding then size_mod (length src) block_size else Inr 0) of
          Inl fault \<Rightarrow> Inl fault
        | Inr r \<Rightarrow>
            if r \<noteq> 0 then Inr (Inl Padding_style_invalid)
            else let tagged = is_aead_mode md \<and> length src > 16;
                     cipher_len = (if tagged then length src - 16 else length src);
                     tag = (if tagged then Some (drop cipher_len src) else None) in
              and_then (aes_open e False False md key key_len iv iv_len tag) (\<lambda>ctx.
              try_evp (evp_update e ctx (take cipher_len src) (int_of_size cipher_len)) Decrypt_update_failed (\<lambda>(ctx, out1).
              fits dst_size (length out1) (
              try_evp (evp_final e ctx) Decrypt_final_failed (\<lambda>(ctx, out2).
              fits dst_size (length out1 + length out2) (
              Inr (Inr (out1 @ out2,
                        aes_unpadding_block (out1 @ out2) (length (out1 @ out2)) md pad_style block_size))))))))"

definition aes_encrypt_len_reserve :: "'c evp \<Rightarrow> nat \<Rightarrow> aes_mode \<Rightarrow> nat \<Rightarrow> nat" where
  "aes_encrypt_len_reserve e src_len md key_len =
     (let block_size = aes_block_size e md key_len in
      if block_size \<ge> 8 then ((src_len div block_size) + 2) * block_size else src_len + 16)"

definition aes_decrypt_len_reserve :: "nat \<Rightarrow> nat" where
  "aes_decrypt_len_reserve src_len = src_len"

definition aes_iv_ptr :: "aes_mode \<Rightarrow> bytes \<Rightarrow> bytes option" where
  "aes_iv_ptr md iv = (if md = Mode_ecb then None else Some (iv @ [0]))"

definition aes_iv_len :: "aes_mode \<Rightarrow> bytes \<Rightarrow> nat" where
  "aes_iv_len md iv = (if md = Mode_ecb then 0 else length iv)"

definition aes_encrypt_string ::
  "'c evp \<Rightarrow> (nat \<Rightarrow> u8) \<Rightarrow> bytes \<Rightarrow> bytes \<Rightarrow> aes_mode \<Rightarrow> padding \<Rightarrow> bytes \<Rightarrow> bytes outcome" where
  "aes_encrypt_string e rnd src key md pad_style iv =
     aes_encrypt e rnd (aes_encrypt_len_reserve e (length src) md (length key)) src (Some (key @ [0])) (length key)
       md pad_style (aes_iv_ptr md iv) (aes_iv_len md iv)"

text \<open>\<open>std::string::resize\<close> refuses a length that no string can have.\<close>

definition aes_decrypt_string ::
  "'c evp \<Rightarrow> bytes \<Rightarrow> bytes \<Rightarrow> aes_mode \<Rightarrow> padding \<Rightarrow> bytes \<Rightarrow> bytes outcome" where
  "aes_decrypt_string e src key md pad_style iv =
     and_then (aes_decrypt e (aes_decrypt_len_reserve (length src)) src (Some (key @ [0])) (length key)
       md pad_style (aes_iv_ptr md iv) (aes_iv_len md iv))
       (\<lambda>(dst, dst_len). if dst_len \<ge> 2 ^ 63 then Inl Throw_length_error else Inr (Inr (resize dst dst_len)))"

subsection \<open>Streams and files\<close>

definition AES_BUF_SIZE :: nat where
  "AES_BUF_SIZE = 16384"

text \<open>The loop over the full buffers: the context, the output and the rest of the input; \<open>None\<close> when an update
  fails, with the output so far.\<close>

function encrypt_chunks :: "'c evp \<Rightarrow> nat \<Rightarrow> 'c \<Rightarrow> bytes \<Rightarrow> bytes \<Rightarrow> ('c option \<times> bytes \<times> bytes) result" where
  "encrypt_chunks e room ctx out inp =
     (if length inp < AES_BUF_SIZE then Inr (Some ctx, out, inp)
      else case evp_update e ctx (take AES_BUF_SIZE inp) (int_of_size AES_BUF_SIZE) of
             None \<Rightarrow> Inr (None, out, inp)
           | Some (ctx', o1) \<Rightarrow> fits room (length o1) (encrypt_chunks e room ctx' (out @ o1) (drop AES_BUF_SIZE inp)))"
  by pat_completeness auto
termination
  by (relation "measure (\<lambda>(e, room, ctx, out, inp). length inp)") (auto simp: AES_BUF_SIZE_def)

declare encrypt_chunks.simps [simp del]

text \<open>The loop of decryption counts how many bytes are \<open>left\<close> and keeps the last buffer, full or not. When the input
  has fewer bytes it goes on reading nothing, and does not end.\<close>

partial_function (option) decrypt_chunks ::
  "'c evp \<Rightarrow> nat \<Rightarrow> 'c \<Rightarrow> bytes \<Rightarrow> bytes \<Rightarrow> nat \<Rightarrow> ('c option \<times> bytes \<times> bytes) result option" where
  "decrypt_chunks e room ctx out inp left =
     (if left = 0 then Some (Inr (Some ctx, out, []))
      else let chunk = take (min AES_BUF_SIZE left) inp in
        if length chunk = left then Some (Inr (Some ctx, out, chunk))
        else case evp_update e ctx chunk (int_of_size (length chunk)) of
               None \<Rightarrow> Some (Inr (None, out, chunk))
             | Some (ctx', o1) \<Rightarrow>
                 if length o1 \<le> room
                 then decrypt_chunks e room ctx' (out @ o1) (drop (length chunk) inp) (left - length chunk)
                 else Some (Inl Out_of_bounds))"

text \<open>The error code and the content of the output stream afterwards; \<open>inp\<close> is the content of the input from its
  position on.\<close>

definition aes_encrypt_stream ::
  "'c evp \<Rightarrow> (nat \<Rightarrow> u8) \<Rightarrow> bool \<Rightarrow> bool \<Rightarrow> bytes \<Rightarrow> bytes \<Rightarrow> bytes option \<Rightarrow> nat \<Rightarrow> aes_mode \<Rightarrow> padding \<Rightarrow> bytes option \<Rightarrow> nat
   \<Rightarrow> (aes_error \<times> bytes) result" where
  "aes_encrypt_stream e rnd in_good out_good out inp key key_len md pad_style iv iv_len =
     (if \<not> in_good then Inr (Input_stream_invalid, out)
      else if \<not> out_good then Inr (Output_stream_invalid, out)
      else case aes_plain_valid e md key_len pad_style (length inp) of
        Inl fault \<Rightarrow> Inl fault
      | Inr valid \<Rightarrow>
          if \<not> valid then Inr (Plain_invalid, out)
          else if \<not> aes_key_valid md key key_len then Inr (Key_invalid, out)
          else if \<not> aes_iv_valid md iv iv_len then Inr (Iv_invalid, out)
          else let block_size = aes_block_size e md key_len; room = AES_BUF_SIZE + block_size * 2 in
            case aes_open e True True md key key_len iv iv_len None of
              Inl fault \<Rightarrow> Inl fault
            | Inr (Inl err) \<Rightarrow> Inr (err, out)
            | Inr (Inr ctx) \<Rightarrow>
                (case encrypt_chunks e room ctx out inp of
                   Inl fault \<Rightarrow> Inl fault
                 | Inr (None, out, last_plain) \<Rightarrow> Inr (Encrypt_update_failed, out)
                 | Inr (Some ctx, out, last_plain) \<Rightarrow>
                     (let padded = aes_padding_block rnd block_size pad_style last_plain in
                      case (if padded \<noteq> [] then evp_update e ctx padded (int_of_size (length padded)) else Some (ctx, [])) of
                        None \<Rightarrow> Inr (Encrypt_update_failed, out)
                      | Some (ctx, o1) \<Rightarrow> fits room (length o1)
                          (case evp_final e ctx of
                             None \<Rightarrow> Inr (Encrypt_final_failed, out @ o1)
                           | Some (ctx, o2) \<Rightarrow> fits room (length o2)
                               (if is_aead_mode md then
                                  (case evp_get_tag e ctx of
                                     None \<Rightarrow> Inr (Get_tag_failed, out @ o1 @ o2)
                                   | Some tag \<Rightarrow> Inr (Aes_ok, out @ o1 @ o2 @ tag))
                                else Inr (Aes_ok, out @ o1 @ o2))))))"

text \<open>\<open>file_size\<close> is the position at which the stream is handed over; the input is then read from its beginning.\<close>

definition aes_decrypt_stream ::
  "'c evp \<Rightarrow> bool \<Rightarrow> bool \<Rightarrow> bytes \<Rightarrow> bytes \<times> nat \<Rightarrow> bytes option \<Rightarrow> nat \<Rightarrow> aes_mode \<Rightarrow> padding \<Rightarrow> bytes option \<Rightarrow> nat
   \<Rightarrow> (aes_error \<times> bytes) result option" where
  "aes_decrypt_stream e in_good out_good out inp key key_len md pad_style iv iv_len =
     (if \<not> in_good then Some (Inr (Input_stream_invalid, out))
      else if \<not> out_good then Some (Inr (Output_stream_invalid, out))
      else if \<not> aes_key_valid md key key_len then Some (Inr (Key_invalid, out))
      else if \<not> aes_iv_valid md iv iv_len then Some (Inr (Iv_invalid, out))
      else let content = fst inp; file_size = snd inp;
               block_size = aes_block_size e md key_len; room = AES_BUF_SIZE + block_size * 2;
               tagged = is_aead_mode md \<and> file_size > 16;
               cipher_len = (if tagged then file_size - 16 else file_size);
               tag = (if tagged then resize (take 16 (drop cipher_len content)) 16 else replicate 16 0) in
        case aes_open e False True md key key_len iv iv_len (if is_aead_mode md then Some tag else None) of
          Inl fault \<Rightarrow> Some (Inl fault)
        | Inr (Inl err) \<Rightarrow> Some (Inr (err, out))
        | Inr (Inr ctx) \<Rightarrow>
            (case decrypt_chunks e room ctx out content cipher_len of
               None \<Rightarrow> None
             | Some (Inl fault) \<Rightarrow> Some (Inl fault)
             | Some (Inr (None, out, last_cipher)) \<Rightarrow> Some (Inr (Decrypt_update_failed, out))
             | Some (Inr (Some ctx, out, last_cipher)) \<Rightarrow> Some
                 (case (if last_cipher \<noteq> [] then evp_update e ctx last_cipher (int_of_size (length last_cipher)) else Some (ctx, [])) of
                    None \<Rightarrow> Inr (Decrypt_update_failed, out)
                  | Some (ctx, o1) \<Rightarrow> fits room (length o1)
                      (case evp_final e ctx of
                         None \<Rightarrow> Inr (Decrypt_final_failed, out)
                       | Some (ctx, o2) \<Rightarrow> fits room (length o1 + length o2)
                           (let plain_len = aes_unpadding_block (o1 @ o2) (length o1 + length o2) md pad_style block_size
                            in fits room plain_len (Inr (Aes_ok, out @ resize (o1 @ o2) plain_len)))))))"

text \<open>Files: \<open>encrypt_file\<close> opens both files before it looks at either; \<open>decrypt_file\<close> opens the source at its end.
  A destination that is also the source is truncated when it is opened.\<close>

definition aes_encrypt_file where
  "aes_encrypt_file e rnd writable fs dst src key key_len md pad_style iv iv_len =
     (let opened = (if writable dst then fs(dst \<mapsto> []) else fs) in
      case fs src of
        None \<Rightarrow> Inr (File_open_failed, opened)
      | Some content \<Rightarrow>
          if \<not> writable dst then Inr (File_open_failed, opened)
          else map_sum id (\<lambda>(ec, out). (ec, opened(dst \<mapsto> out)))
                 (aes_encrypt_stream e rnd True True [] (if dst = src then [] else content) key key_len md pad_style iv iv_len))"

definition aes_decrypt_file where
  "aes_decrypt_file e writable fs dst src key key_len md pad_style iv iv_len =
     (case fs src of
        None \<Rightarrow> Some (Inr (File_open_failed, fs))
      | Some content \<Rightarrow>
          if \<not> writable dst then Some (Inr (File_open_failed, fs))
          else map_option (map_sum id (\<lambda>(ec, out). (ec, fs(dst \<mapsto> out))))
                 (aes_decrypt_stream e True True [] (if dst = src then [] else content, length content)
                    key key_len md pad_style iv iv_len))"

definition aes_encrypt_file_string where
  "aes_encrypt_file_string e rnd writable fs dst src key md pad_style iv =
     aes_encrypt_file e rnd writable fs dst src (Some (key @ [0])) (length key) md pad_style (aes_iv_ptr md iv) (aes_iv_len md iv)"

definition aes_decrypt_file_string where
  "aes_decrypt_file_string e writable fs dst src key md pad_style iv =
     aes_decrypt_file e writable fs dst src (Some (key @ [0])) (length key) md pad_style (aes_iv_ptr md iv) (aes_iv_len md iv)"

text \<open>\<open>random\<close> and \<open>derived\<close> are the answers of \<open>RAND_bytes\<close> and \<open>PKCS5_PBKDF2_HMAC\<close>.\<close>

definition aes_keygen :: "bytes option \<Rightarrow> nat \<Rightarrow> bytes option \<Rightarrow> nat \<Rightarrow> bytes option \<Rightarrow> bytes option
   \<Rightarrow> aes_error \<times> bytes option" where
  "aes_keygen key key_len password password_len random derived =
     (if key = None \<or> (key_len \<noteq> 16 \<and> key_len \<noteq> 24 \<and> key_len \<noteq> 32) then (Param_invalid, key)
      else if password = None \<or> password_len = 0 then
        (case random of Some bs \<Rightarrow> (Aes_ok, Some bs) | None \<Rightarrow> (Passwd_invalid, key))
      else (case derived of Some bs \<Rightarrow> (Aes_ok, Some bs) | None \<Rightarrow> (Pbkdf2_derive_failed, key)))"

end
