(* ===== verification/AesProps.thy ===== *)
theory AesProps
  imports Aes DesProps
begin

text \<open>
  The properties of \<open>src/hj/crypto/aes.hpp\<close>, relative to what OpenSSL documents of its EVP interface (locale
  \<open>evp_session\<close>): decryption gives back what was encrypted, streams agree with buffers, the reserved length is
  enough; and the inputs for which this fails.
\<close>

section \<open>Padding\<close>

text \<open>What the unpadding recognises behind a text.\<close>

definition aes_pad :: "padding \<Rightarrow> nat \<Rightarrow> bytes \<Rightarrow> bool" where
  "aes_pad pad_style block_size pb \<longleftrightarrow>
     0 < length pb \<and> length pb \<le> block_size \<and> block_size < 256 \<and>
     (case pad_style of
        Zero_padding \<Rightarrow> \<forall>i<length pb. pb ! i = 0
      | Iso10126 \<Rightarrow> pb ! (length pb - 1) = of_nat (length pb)
      | Ansix923 \<Rightarrow> pb ! (length pb - 1) = of_nat (length pb) \<and> (\<forall>i<length pb - 1. pb ! i = 0)
      | Iso_iec_7816_4 \<Rightarrow> pb ! 0 = 0x80 \<and> (\<forall>i<length pb. 0 < i \<longrightarrow> pb ! i = 0)
      | No_padding \<Rightarrow> False
      | _ \<Rightarrow> \<forall>i<length pb. pb ! i = of_nat (length pb))"

lemma unat_u8_small: "k < 256 \<Longrightarrow> unat (of_nat k :: u8) = k"
  by (simp add: unat_of_nat)

text \<open>The bytes behind a text of length \<open>n\<close>.\<close>

definition aes_pad_bytes :: "(nat \<Rightarrow> u8) \<Rightarrow> nat \<Rightarrow> padding \<Rightarrow> nat \<Rightarrow> bytes" where
  "aes_pad_bytes rnd block_size pad_style n =
     (let k = block_size - n mod block_size in
      case pad_style of
        Iso10126 \<Rightarrow> map rnd [n..<n + k - 1] @ [of_nat k]
      | Ansix923 \<Rightarrow> replicate (k - 1) 0 @ [of_nat k]
      | Iso_iec_7816_4 \<Rightarrow> 0x80 # replicate (k - 1) 0
      | Zero_padding \<Rightarrow> replicate k 0
      | _ \<Rightarrow> replicate k (of_nat k))"

lemma length_aes_pad_bytes:
  "0 < block_size \<Longrightarrow> length (aes_pad_bytes rnd block_size pad_style n) = block_size - n mod block_size"
  using mod_less_divisor [of block_size n] by (cases pad_style) (simp_all add: aes_pad_bytes_def Let_def Suc_diff_Suc)

lemma aes_pad_pad_bytes:
  assumes "pad_style \<noteq> No_padding" "0 < block_size" "block_size < 256"
  shows "aes_pad pad_style block_size (aes_pad_bytes rnd block_size pad_style n)"
proof -
  define k where "k = block_size - n mod block_size"
  have "n mod block_size < block_size" using assms(2) by simp
  then have "0 < k" "k \<le> block_size" by (simp_all add: k_def)
  then show ?thesis
    using assms by (cases pad_style) (auto simp: aes_pad_def aes_pad_bytes_def Let_def nth_append nth_Cons' simp flip: k_def)
qed

lemma aes_padding_block_eq:
  assumes "pad_style \<noteq> No_padding" "1 < block_size" "block_size < 256"
  shows "aes_padding_block rnd block_size pad_style src = src @ aes_pad_bytes rnd block_size pad_style (length src)"
proof -
  define k where "k = block_size - length src mod block_size"
  have "length src mod block_size < block_size" using assms(2) by simp
  then have k: "0 < k" "k \<le> block_size" "k < 256" using assms(3) by (simp_all add: k_def)
  then have val: "(of_nat k :: u8) \<noteq> 0" "unat (of_nat k :: u8) = k"
    using unat_u8_small [of k] by (metis less_numeral_extra(3) unsigned_0)+
  obtain j where j: "k = Suc j" using k(1) by (cases k) simp_all
  have snoc: "replicate (Suc j) (0 :: u8) = replicate j 0 @ [0]" by (simp add: replicate_append_same)
  have const: "foldl (\<lambda>d i. d[i := v]) (src @ replicate k 0) [length src..<length src + k] = src @ replicate k v" for v :: u8
    using foldl_update_tail [of "length src" "length src + k" "src @ replicate k 0" "\<lambda>_. v"] by (simp add: map_replicate_const)
  have rand: "foldl (\<lambda>d i. d[i := rnd i]) (src @ replicate j 0 @ [0]) [length src..<length src + j]
      = src @ map rnd [length src..<length src + j] @ [0]"
    using foldl_update_tail [of "length src" "length src + j" "src @ replicate j 0 @ [0]" rnd] by simp
  have last: "(src @ zs @ [0])[length src + j := v] = src @ zs @ [v]" if "length zs = j" for zs and v :: u8
    using that by (simp add: list_update_append)
  have first: "(src @ replicate j 0 @ [0])[length src := 0x80] = src @ 0x80 # replicate j (0 :: u8)"
    by (simp add: replicate_append_same)
  show ?thesis
    using assms val first const [of "of_nat k"] rand last [of "map rnd [length src..<length src + j]"] last [of "replicate j 0"]
    by (cases pad_style)
      (simp_all add: aes_padding_block_def aes_pad_bytes_def Let_def j snoc flip: k_def del: replicate_Suc upt_Suc)
qed

text \<open>A text can be padded from any block boundary on.\<close>

lemma aes_padding_block_drop:
  assumes "m \<le> length src" "block_size dvd m" "0 < block_size" "block_size < 256"
  shows "take m src @ aes_padding_block rnd block_size pad_style (drop m src)
    = aes_padding_block (\<lambda>i. rnd (i - m)) block_size pad_style src"
proof (cases "pad_style \<noteq> No_padding \<and> 1 < block_size")
  case True
  have "(length src - m) mod block_size = length src mod block_size"
    using assms(1,2) by (metis dvd_imp_mod_0 le_add_diff_inverse2 mod_add_right_eq add_0_right)
  moreover have "map rnd [length src - m..<length src - m + k - 1] = map (\<lambda>i. rnd (i - m)) [length src..<length src + k - 1]" for k
    using assms(1) by (intro nth_equalityI) auto
  ultimately have "aes_pad_bytes rnd block_size pad_style (length src - m)
      = aes_pad_bytes (\<lambda>i. rnd (i - m)) block_size pad_style (length src)"
    by (cases pad_style) (simp_all add: aes_pad_bytes_def Let_def)
  then show ?thesis using True assms by (simp add: aes_padding_block_eq)
qed (auto simp: aes_padding_block_def)

lemma aes_unpadding_block_eq:
  assumes pad: "aes_pad pad_style block_size pb" and md: "\<not> is_aead_mode md" "1 < block_size"
    and zero: "pad_style = Zero_padding \<Longrightarrow> src = [] \<or> last src \<noteq> 0"
    and int: "pad_style = Iso_iec_7816_4 \<Longrightarrow> length src + length pb \<le> 2 ^ 31"
  shows "aes_unpadding_block (src @ pb) (length (src @ pb)) md pad_style block_size = length src"
proof -
  define k where "k = length pb"
  have k: "0 < k" "k \<le> block_size" "k < 256" using pad by (auto simp: aes_pad_def k_def)
  have nth: "(src @ pb) ! (length src + i) = pb ! i" for i by simp
  have val: "unat (of_nat k :: u8) = k" using unat_u8_small [OF k(3)] .
  have lst: "(src @ pb) ! (length src + k - 1) = of_nat k" if "pad_style \<in> {Pkcs5, Pkcs7, Iso10126, Ansix923}"
    using that pad k(1) by (auto simp: aes_pad_def nth_append simp flip: k_def)
  have all: "\<forall>i\<in>{length src..<length src + k}. (src @ pb) ! i = of_nat k" if "pad_style = Pkcs5 \<or> pad_style = Pkcs7"
    using that pad by (auto simp: aes_pad_def nth_append k_def)
  have ansi: "\<forall>i\<in>{length src..<length src + k - 1}. (src @ pb) ! i = 0" if "pad_style = Ansix923"
    using that pad by (auto simp: aes_pad_def nth_append k_def)
  show ?thesis
  proof (cases pad_style)
    case Zero_padding
    then have "\<forall>i<k. (src @ pb) ! (length src + i) = 0" using pad by (simp add: aes_pad_def k_def)
    moreover have "src = [] \<or> (src @ pb) ! (length src - 1) \<noteq> 0"
      using zero [OF Zero_padding] by (auto simp: nth_append last_conv_nth)
    ultimately have "strip_zeros (src @ pb) (length src + k) = length src"
      using strip_zeros_zeros strip_zeros_stop [of "length src"] by auto
    then show ?thesis using Zero_padding md by (simp add: aes_unpadding_block_def k_def)
  next
    case Iso_iec_7816_4
    have "int_index (length src + k) = int (length src + k) - 1"
      using int [OF Iso_iec_7816_4] k(1) by (intro int_index_small) (simp_all add: k_def)
    then have "int_index (length src + k) \<ge> 0" "nat (int_index (length src + k)) + 1 = length src + k" using k(1) by simp_all
    moreover have "strip_zeros (src @ pb) (length src + k) = length src + 1" "(src @ pb) ! length src = 0x80"
    proof -
      show *: "(src @ pb) ! length src = 0x80" using Iso_iec_7816_4 nth [of 0] pad by (simp add: aes_pad_def)
      have "\<forall>i<k - 1. (src @ pb) ! (length src + 1 + i) = 0"
        using Iso_iec_7816_4 nth [of "Suc _"] pad by (auto simp: aes_pad_def k_def)
      then show "strip_zeros (src @ pb) (length src + k) = length src + 1"
        using strip_zeros_zeros [of "k - 1" "src @ pb" "length src + 1"] strip_zeros_stop [of "length src + 1" "src @ pb"] * k(1) by simp
    qed
    ultimately show ?thesis using Iso_iec_7816_4 md
      by (simp add: aes_unpadding_block_def Let_def flip: k_def del: strip_zeros.simps)
  qed (use k lst val all ansi md pad in \<open>auto simp: aes_unpadding_block_def Let_def size_sub_def aes_pad_def simp flip: k_def\<close>)
qed


section \<open>What OpenSSL promises\<close>

text \<open>
  For one cipher, key and vector: the calls that set a context up succeed; \<open>enc_ctx c xs out\<close> says that the
  context \<open>c\<close> encrypts, has been fed \<open>xs\<close> and has given out \<open>out\<close>, \<open>dec_ctx c t xs out\<close> the same for decryption
  with the tag \<open>t\<close>. Feeding in pieces and closing gives the cipher text \<open>E xs\<close> of the whole text, and back; an
  AEAD cipher also gives the tag \<open>T xs\<close>, and its decryption fails when no tag was set.
\<close>

text \<open>The cipher text of a padded text, with the tag of an AEAD mode behind it.\<close>

definition aes_sealed :: "aes_mode \<Rightarrow> (bytes \<Rightarrow> bytes) \<Rightarrow> (bytes \<Rightarrow> bytes) \<Rightarrow> bytes \<Rightarrow> bytes" where
  "aes_sealed md E T xs = E xs @ (if is_aead_mode md then T xs else [])"

text \<open>The texts that the unpadding gives back: an AEAD text with nothing in it cannot be told from a short tag,
  and zero padding takes the zeros of the text with it.\<close>

definition aes_unpaddable :: "aes_mode \<Rightarrow> nat \<Rightarrow> padding \<Rightarrow> bytes \<Rightarrow> bool" where
  "aes_unpaddable md block_size pad_style src \<longleftrightarrow>
     (is_aead_mode md \<longrightarrow> src \<noteq> []) \<and>
     (pad_style = Zero_padding \<and> 1 < block_size \<longrightarrow> src = [] \<or> last src \<noteq> 0)"

locale evp_session =
  fixes e :: "'c evp" and md key key_len iv iv_len and E T :: "bytes \<Rightarrow> bytes"
    and enc_ctx :: "'c \<Rightarrow> bytes \<Rightarrow> bytes \<Rightarrow> bool" and dec_ctx :: "'c \<Rightarrow> bytes option \<Rightarrow> bytes \<Rightarrow> bytes \<Rightarrow> bool"
    and cipher bs
  assumes valid: "aes_key_valid md key key_len" "aes_iv_valid md iv iv_len" "iv_len < 2 ^ 31"
    and cipher: "select_cipher md key_len = Some cipher" "evp_reads e cipher md key iv iv_len"
    and bs: "aes_block_size e md key_len = bs" "bs \<in> {1, 8, 16}" "is_aead_mode md \<Longrightarrow> bs = 1"
    and open_enc: "\<exists>c0 c1 c2 c3. evp_new e = Some c0 \<and> evp_init e True c0 (Some cipher) None None = Some c1
      \<and> (if is_aead_mode md then evp_set_ivlen e c1 (int iv_len) = Some c2 else c2 = c1)
      \<and> evp_init e True c2 (Some cipher) key iv = Some c3
      \<and> enc_ctx (if is_aead_mode md then c3 else evp_no_padding e c3) [] []"
    and open_dec: "\<exists>c0 c1 c2 c3. evp_new e = Some c0 \<and> evp_init e False c0 (Some cipher) None None = Some c1
      \<and> (if is_aead_mode md then evp_set_ivlen e c1 (int iv_len) = Some c2 else c2 = c1)
      \<and> evp_init e False c2 (if again then Some cipher else None) key iv = Some c3
      \<and> dec_ctx (if is_aead_mode md then c3 else evp_no_padding e c3) None [] []"
    and set_tag: "dec_ctx c None [] [] \<Longrightarrow> is_aead_mode md \<Longrightarrow> length tag = 16 \<Longrightarrow>
      \<exists>c'. evp_set_tag e c tag = Some c' \<and> dec_ctx c' (Some tag) [] []"
    and enc_update: "enc_ctx c xs out \<Longrightarrow> length ys < 2 ^ 31 \<Longrightarrow>
      \<exists>c' o'. evp_update e c ys (int (length ys)) = Some (c', o') \<and> enc_ctx c' (xs @ ys) (out @ o')"
    and enc_whole: "enc_ctx c xs out \<Longrightarrow> length xs mod bs = 0 \<Longrightarrow> length out = length xs"
    and enc_final: "enc_ctx c xs out \<Longrightarrow> length xs mod bs = 0 \<Longrightarrow>
      \<exists>c' o'. evp_final e c = Some (c', o') \<and> out @ o' = E xs \<and> (is_aead_mode md \<longrightarrow> evp_get_tag e c' = Some (T xs))"
    and lengths: "length (E xs) = length xs" "length (T xs) = 16"
    and dec_update: "dec_ctx c t xs out \<Longrightarrow> length ys < 2 ^ 31 \<Longrightarrow>
      \<exists>c' o'. evp_update e c ys (int (length ys)) = Some (c', o') \<and> dec_ctx c' t (xs @ ys) (out @ o')"
    and dec_whole: "dec_ctx c t xs out \<Longrightarrow> length xs mod bs = 0 \<Longrightarrow> length out = length xs"
    and dec_final: "dec_ctx c t (E xs) out \<Longrightarrow> length xs mod bs = 0 \<Longrightarrow> (is_aead_mode md \<Longrightarrow> t = Some (T xs)) \<Longrightarrow>
      \<exists>c' o'. evp_final e c = Some (c', o') \<and> out @ o' = xs"
    and dec_untagged: "is_aead_mode md \<Longrightarrow> dec_ctx c None xs out \<Longrightarrow> evp_final e c = None"
begin

lemma aead_iv: "is_aead_mode md \<Longrightarrow> iv \<noteq> None \<and> 0 < iv_len"
  using valid(2) by (cases md) auto

lemma opened_enc: "\<exists>c. aes_open e True True md key key_len iv iv_len None = Inr (Inr c) \<and> enc_ctx c [] []"
proof -
  obtain c0 c1 c2 c3 where o: "evp_new e = Some c0" "evp_init e True c0 (Some cipher) None None = Some c1"
    "if is_aead_mode md then evp_set_ivlen e c1 (int iv_len) = Some c2 else c2 = c1"
    "evp_init e True c2 (Some cipher) key iv = Some c3" "enc_ctx (if is_aead_mode md then c3 else evp_no_padding e c3) [] []"
    using open_enc by blast
  show ?thesis
    using o cipher aead_iv sint_u32_small [OF valid(3)]
    by (cases "is_aead_mode md") (simp_all add: aes_open_def try_evp_def int_of_size_def)
qed

lemma opened_dec:
  "\<exists>c. aes_open e False again md key key_len iv iv_len None = Inr (Inr c) \<and> dec_ctx c None [] []"
  "is_aead_mode md \<Longrightarrow> length t = 16 \<Longrightarrow>
     \<exists>c. aes_open e False again md key key_len iv iv_len (Some t) = Inr (Inr c) \<and> dec_ctx c (Some t) [] []"
proof -
  obtain c0 c1 c2 c3 where o: "evp_new e = Some c0" "evp_init e False c0 (Some cipher) None None = Some c1"
    "if is_aead_mode md then evp_set_ivlen e c1 (int iv_len) = Some c2 else c2 = c1"
    "evp_init e False c2 (if again then Some cipher else None) key iv = Some c3"
    "dec_ctx (if is_aead_mode md then c3 else evp_no_padding e c3) None [] []"
    using open_dec [of again] by blast
  show "\<exists>c. aes_open e False again md key key_len iv iv_len None = Inr (Inr c) \<and> dec_ctx c None [] []"
    using o cipher aead_iv sint_u32_small [OF valid(3)]
    by (cases "is_aead_mode md") (simp_all add: aes_open_def try_evp_def int_of_size_def)
  assume a: "is_aead_mode md" "length t = 16"
  then obtain c' where "evp_set_tag e c3 t = Some c'" "dec_ctx c' (Some t) [] []" using set_tag o(5) by fastforce
  then show "\<exists>c. aes_open e False again md key key_len iv iv_len (Some t) = Inr (Inr c) \<and> dec_ctx c (Some t) [] []"
    using o cipher aead_iv a sint_u32_small [OF valid(3)] by (simp add: aes_open_def try_evp_def int_of_size_def)
qed

lemma length_sealed: "length (aes_sealed md E T xs) = length xs + (if is_aead_mode md then 16 else 0)"
  by (simp add: aes_sealed_def lengths)

lemma bs_simps: "0 < bs" "bs < 256" "bs dvd AES_BUF_SIZE"
  using bs(2) by (auto simp: AES_BUF_SIZE_def)

lemma plain_ok: "aes_plain_valid e md key_len pad_style n = Inr (pad_style = No_padding \<longrightarrow> n mod bs = 0)"
  using bs_simps by (simp add: aes_plain_valid_def size_mod_def bs(1))

lemma padded_whole:
  assumes "pad_style = No_padding \<Longrightarrow> length src mod bs = 0"
  defines "n \<equiv> length src"
  shows "length (aes_padding_block rnd bs pad_style src) mod bs = 0" (is ?whole)
    "length (aes_padding_block rnd bs pad_style src) \<le> n + (if pad_style \<noteq> No_padding \<and> 1 < bs then bs - n mod bs else 0)"
      (is ?short)
    "n \<le> length (aes_padding_block rnd bs pad_style src)" (is ?long)
proof -
  have "?whole \<and> ?short \<and> ?long"
  proof (cases "pad_style \<noteq> No_padding \<and> 1 < bs")
    case True
    have "n + (bs - n mod bs) = bs * (n div bs + 1)" "n \<le> bs * (n div bs + 1)"
      using mod_less_divisor [OF bs_simps(1), of n] mult_div_mod_eq [of bs n] unfolding distrib_left by linarith+
    then show ?thesis using True bs_simps by (simp add: aes_padding_block_eq length_aes_pad_bytes n_def)
  next
    case False
    then have "aes_padding_block rnd bs pad_style src = src" by (auto simp: aes_padding_block_def)
    moreover have "length src mod bs = 0" using False assms(1) bs_simps(1) by (cases "bs = 1") auto
    ultimately show ?thesis by (simp add: n_def)
  qed
  then show ?whole ?short ?long by simp_all
qed

lemma aes_encrypt_ok:
  fixes rnd
  assumes src: "pad_style = No_padding \<Longrightarrow> length src mod bs = 0" and small: "length src + 16 < 2 ^ 31"
  defines "xs \<equiv> aes_padding_block rnd bs pad_style src"
  assumes room: "length (aes_sealed md E T xs) \<le> dst_size"
  shows "aes_encrypt e rnd dst_size src key key_len md pad_style iv iv_len = Inr (Inr (aes_sealed md E T xs))"
proof -
  obtain c where c: "aes_open e True True md key key_len iv iv_len None = Inr (Inr c)" "enc_ctx c [] []" using opened_enc by blast
  have xs: "length xs mod bs = 0" "length xs < 2 ^ 31"
    using padded_whole [of pad_style src rnd, OF src] small bs(2) by (auto simp: xs_def split: if_splits)
  obtain c' o1 where u: "evp_update e c xs (int (length xs)) = Some (c', o1)" "enc_ctx c' xs o1"
    using enc_update [OF c(2) xs(2)] by auto
  obtain c'' o2 where f: "evp_final e c' = Some (c'', o2)" "o1 @ o2 = E xs" "is_aead_mode md \<longrightarrow> evp_get_tag e c'' = Some (T xs)"
    using enc_final [OF u(2) xs(1)] by blast
  have "length o1 + length o2 = length xs" using arg_cong [OF f(2), of length] lengths(1) by simp
  then show ?thesis
    using valid c(1) u(1) f room [unfolded length_sealed] plain_ok [of pad_style "length src"] src lengths(2) [of xs] sint_u32_small [OF xs(2)]
    by (cases "is_aead_mode md") (simp_all add: aes_encrypt_def bs(1) and_then_def try_evp_def fits_def int_of_size_def aes_sealed_def Let_def
        append_assoc [symmetric] flip: xs_def del: append_assoc)
qed

lemma unpadded:
  assumes "aes_unpaddable md bs pad_style src" "m \<le> length src" "length src - m + 16 \<le> 2 ^ 31"
  obtains pb where "drop m (aes_padding_block rnd bs pad_style src) = drop m src @ pb"
    "aes_unpadding_block (drop m src @ pb) (length (drop m src @ pb)) md pad_style bs = length src - m"
proof (cases "pad_style \<noteq> No_padding \<and> 1 < bs")
  case True
  let ?pb = "aes_pad_bytes rnd bs pad_style (length src)"
  have "aes_unpadding_block (drop m src @ ?pb) (length (drop m src @ ?pb)) md pad_style bs = length (drop m src)"
  proof (rule aes_unpadding_block_eq [OF aes_pad_pad_bytes])
    show "drop m src = [] \<or> last (drop m src) \<noteq> 0" if "pad_style = Zero_padding"
      using that True assms(1) by (cases "m < length src") (auto simp: aes_unpaddable_def last_drop)
    show "length (drop m src) + length ?pb \<le> 2 ^ 31"
      using assms(3) bs(2) bs_simps(1) by (auto simp: length_aes_pad_bytes)
  qed (use True bs_simps bs(3) in auto)
  then show thesis using that True bs_simps(2) assms(2) by (simp add: aes_padding_block_eq)
next
  case False
  then show thesis using that [of "[]"] by (auto simp: aes_padding_block_def aes_unpadding_block_def)
qed

lemma aes_decrypt_ok:
  assumes src: "pad_style = No_padding \<Longrightarrow> length src mod bs = 0" and small: "length src + 16 < 2 ^ 31"
    and keep: "aes_unpaddable md bs pad_style src"
  fixes rnd
  defines "xs \<equiv> aes_padding_block rnd bs pad_style src"
  assumes room: "length xs \<le> dst_size"
  shows "\<exists>pb. aes_decrypt e dst_size (aes_sealed md E T xs) key key_len md pad_style iv iv_len = Inr (Inr (src @ pb, length src))"
proof -
  have xs: "length xs mod bs = 0" "length xs < 2 ^ 31"
    using padded_whole [of pad_style src rnd, OF src] small bs(2) by (auto simp: xs_def split: if_splits)
  have nonempty: "is_aead_mode md \<Longrightarrow> 0 < length xs"
    using padded_whole(3) [of pad_style src rnd, OF src] keep by (cases src) (auto simp: aes_unpaddable_def xs_def)
  define tag where "tag = (if is_aead_mode md then Some (T xs) else None)"
  obtain c where c: "aes_open e False False md key key_len iv iv_len tag = Inr (Inr c)" "dec_ctx c tag [] []"
    using opened_dec(1) [of False] opened_dec(2) [of "T xs" False] lengths(2) by (cases "is_aead_mode md") (auto simp: tag_def)
  obtain c' o1 where u: "evp_update e c (E xs) (int (length (E xs))) = Some (c', o1)" "dec_ctx c' tag (E xs) o1"
    using dec_update [OF c(2), of "E xs"] xs(2) lengths(1) by auto
  obtain c'' o2 where f: "evp_final e c' = Some (c'', o2)" "o1 @ o2 = xs"
    using dec_final [OF u(2) xs(1)] by (auto simp: tag_def)
  obtain pb where pb: "xs = src @ pb" "aes_unpadding_block xs (length xs) md pad_style bs = length src"
    using unpadded [OF keep, of 0 rnd] small unfolding xs_def by auto
  have "length o1 + length o2 = length xs" using arg_cong [OF f(2), of length] by simp
  then show ?thesis
    using valid c(1) u(1) f room xs nonempty pb lengths sint_u32_small [OF xs(2)] bs(3) bs_simps(1)
    by (cases "is_aead_mode md"; cases "pad_style = No_padding")
      (auto simp: aes_decrypt_def bs(1) aes_sealed_def and_then_def try_evp_def fits_def int_of_size_def size_mod_def tag_def Let_def)
qed

text \<open>The loops over full buffers.\<close>

lemma buf_chunk: "AES_BUF_SIZE < 2 ^ 31" "int_of_size AES_BUF_SIZE = int AES_BUF_SIZE" "0 < AES_BUF_SIZE"
  using sint_u32_small [of AES_BUF_SIZE] by (simp_all add: AES_BUF_SIZE_def int_of_size_def)

lemma encrypt_chunks_ok:
  assumes "enc_ctx c xs o0" "length xs mod bs = 0" "AES_BUF_SIZE \<le> room"
  shows "\<exists>c' o'. encrypt_chunks e room c out inp
      = Inr (Some c', out @ o', drop (AES_BUF_SIZE * (length inp div AES_BUF_SIZE)) inp)
    \<and> enc_ctx c' (xs @ take (AES_BUF_SIZE * (length inp div AES_BUF_SIZE)) inp) (o0 @ o')"
  using assms
proof (induction "length inp div AES_BUF_SIZE" arbitrary: c out inp xs o0)
  case 0
  then have "length inp < AES_BUF_SIZE" using buf_chunk(3) by (simp add: div_eq_0_iff)
  then show ?case using 0 by (simp add: encrypt_chunks.simps)
next
  case (Suc n)
  have long: "AES_BUF_SIZE \<le> length inp" using Suc.hyps(2) by (metis div_less linorder_not_less nat.distinct(1))
  let ?ys = "take AES_BUF_SIZE inp" and ?rest = "drop AES_BUF_SIZE inp"
  have ys: "length ?ys = AES_BUF_SIZE" using long by simp
  obtain c1 o1 where u: "evp_update e c ?ys (int AES_BUF_SIZE) = Some (c1, o1)" "enc_ctx c1 (xs @ ?ys) (o0 @ o1)"
    using enc_update [OF Suc.prems(1), of ?ys] ys buf_chunk(1) by auto
  have whole: "length (xs @ ?ys) mod bs = 0" using Suc.prems(2) bs_simps(3) ys by (auto simp: mod_add_eq dvd_eq_mod_eq_0)
  have "length o1 = AES_BUF_SIZE" using enc_whole [OF u(2) whole] enc_whole [OF Suc.prems(1,2)] ys by simp
  moreover have n: "n = length ?rest div AES_BUF_SIZE" using Suc.hyps(2) long buf_chunk(3) by (simp add: le_div_geq)
  ultimately show ?case
    using Suc.hyps(1) [OF n u(2) whole Suc.prems(3), of "out @ o1"] long u(1) Suc.prems(3)
    by (subst encrypt_chunks.simps) (auto simp: buf_chunk(2) fits_def take_add drop_drop add.commute simp flip: Suc.hyps(2) n)
qed

lemma decrypt_chunks_ok:
  assumes "dec_ctx c t ys o0" "length ys mod bs = 0" "AES_BUF_SIZE \<le> room" "left \<le> length inp"
  shows "\<exists>c' o'. decrypt_chunks e room c out inp left
      = Some (Inr (Some c', out @ o', drop (AES_BUF_SIZE * ((left - 1) div AES_BUF_SIZE)) (take left inp)))
    \<and> dec_ctx c' t (ys @ take (AES_BUF_SIZE * ((left - 1) div AES_BUF_SIZE)) inp) (o0 @ o')"
  using assms
proof (induction "(left - 1) div AES_BUF_SIZE" arbitrary: c out inp left ys o0)
  case 0
  then have "left = 0 \<or> left \<le> AES_BUF_SIZE" using buf_chunk(3) by (auto simp: div_eq_0_iff)
  then show ?case using 0 by (subst decrypt_chunks.simps) (auto simp: min_def)
next
  case (Suc n)
  have long: "AES_BUF_SIZE < left"
    using Suc.hyps(2) buf_chunk(3) by (metis Suc_diff_1 div_less le_less_trans less_imp_diff_less linorder_not_less nat.distinct(1) not_less_eq)
  let ?zs = "take AES_BUF_SIZE inp" and ?rest = "drop AES_BUF_SIZE inp"
  have zs: "length ?zs = AES_BUF_SIZE" "take (min AES_BUF_SIZE left) inp = ?zs" using long Suc.prems(4) by (simp_all add: min_def)
  obtain c1 o1 where u: "evp_update e c ?zs (int AES_BUF_SIZE) = Some (c1, o1)" "dec_ctx c1 t (ys @ ?zs) (o0 @ o1)"
    using dec_update [OF Suc.prems(1), of ?zs] zs(1) buf_chunk(1) by auto
  have whole: "length (ys @ ?zs) mod bs = 0" using Suc.prems(2) bs_simps(3) zs(1) by (auto simp: mod_add_eq dvd_eq_mod_eq_0)
  have "length o1 = AES_BUF_SIZE" using dec_whole [OF u(2) whole] dec_whole [OF Suc.prems(1,2)] zs(1) by simp
  moreover have n: "n = (left - AES_BUF_SIZE - 1) div AES_BUF_SIZE"
    using Suc.hyps(2) long buf_chunk(3) le_div_geq [of AES_BUF_SIZE "left - 1"] by simp
  moreover have rest: "left - AES_BUF_SIZE \<le> length ?rest" using Suc.prems(4) by simp
  moreover obtain c' o' where "decrypt_chunks e room c1 (out @ o1) ?rest (left - AES_BUF_SIZE)
      = Some (Inr (Some c', (out @ o1) @ o', drop (AES_BUF_SIZE * n) (take (left - AES_BUF_SIZE) ?rest)))"
    "dec_ctx c' t ((ys @ ?zs) @ take (AES_BUF_SIZE * n) ?rest) ((o0 @ o1) @ o')"
    using Suc.hyps(1) [OF n u(2) whole Suc.prems(3) rest, of "out @ o1"] unfolding n [symmetric] by blast
  ultimately show ?case
    using long u(1) Suc.prems(3) zs unfolding Suc.hyps(2) [symmetric]
    by (subst decrypt_chunks.simps) (auto simp: buf_chunk(2) take_add drop_drop drop_take add.commute)
qed

lemma aes_encrypt_stream_ok:
  fixes inp rnd
  defines "m \<equiv> AES_BUF_SIZE * (length inp div AES_BUF_SIZE)"
  assumes src: "pad_style = No_padding \<Longrightarrow> length inp mod bs = 0"
  shows "aes_encrypt_stream e rnd True True out inp key key_len md pad_style iv iv_len
    = Inr (Aes_ok, out @ aes_sealed md E T (aes_padding_block (\<lambda>i. rnd (i - m)) bs pad_style inp))"
proof -
  let ?room = "AES_BUF_SIZE + bs * 2"
  obtain c where c: "aes_open e True True md key key_len iv iv_len None = Inr (Inr c)" "enc_ctx c [] []" using opened_enc by blast
  obtain c1 o0 where l: "encrypt_chunks e ?room c out inp = Inr (Some c1, out @ o0, drop m inp)" "enc_ctx c1 (take m inp) o0"
    using encrypt_chunks_ok [OF c(2), of ?room out inp] by (auto simp: m_def)
  have m: "m \<le> length inp" "bs dvd m" "length (drop m inp) < AES_BUF_SIZE"
    using bs_simps(3) mod_less_divisor [OF buf_chunk(3), of "length inp"] by (simp_all add: m_def minus_mult_div_eq_mod)
  define p where "p = aes_padding_block rnd bs pad_style (drop m inp)"
  have "length (drop m inp) mod bs = 0" if "pad_style = No_padding"
    using src [OF that] m by (simp add: dvd_diff_nat flip: dvd_eq_mod_eq_0)
  then have p: "length p mod bs = 0" "length p \<le> AES_BUF_SIZE + bs"
    using padded_whole [of pad_style "drop m inp" rnd] m(3) by (auto simp: p_def split: if_splits)
  define xs where "xs = take m inp @ p"
  have xs: "xs = aes_padding_block (\<lambda>i. rnd (i - m)) bs pad_style inp"
    unfolding xs_def p_def using aes_padding_block_drop m bs_simps by blast
  have whole: "length (take m inp) mod bs = 0" "length xs mod bs = 0"
    using m p(1) by (auto simp: xs_def min_absorb2 mod_add_eq simp flip: dvd_eq_mod_eq_0)
  have plen: "length p < 2 ^ 31" using p(2) bs_simps(2) by (simp add: AES_BUF_SIZE_def)
  then have psize: "int_of_size (length p) = int (length p)" using sint_u32_small by (simp add: int_of_size_def)
  obtain c2 o1 where u: "(if p \<noteq> [] then evp_update e c1 p (int (length p)) else Some (c1, [])) = Some (c2, o1)" "enc_ctx c2 xs (o0 @ o1)"
    using enc_update [OF l(2) plen] l(2) unfolding xs_def by (cases "p = []") auto
  obtain c3 o2 where f: "evp_final e c2 = Some (c3, o2)" "(o0 @ o1) @ o2 = E xs" "is_aead_mode md \<longrightarrow> evp_get_tag e c3 = Some (T xs)"
    using enc_final [OF u(2) whole(2)] by blast
  have len: "length o0 = length (take m inp)" "length (o0 @ o1) = length xs" "length ((o0 @ o1) @ o2) = length xs"
    using enc_whole [OF l(2) whole(1)] enc_whole [OF u(2) whole(2)] f(2) lengths(1) by simp_all
  then have "length o1 \<le> ?room" "o2 = []" using p(2) by (auto simp: xs_def)
  moreover have "aes_sealed md E T xs = o0 @ o1 @ (if is_aead_mode md then T xs else [])"
    using f(2) calculation(2) by (simp add: aes_sealed_def)
  ultimately show ?thesis
    using valid plain_ok [of pad_style "length inp"] src c(1) l(1) u(1) f(1,3) xs
    by (cases "is_aead_mode md"; cases "p = []") (simp_all add: aes_encrypt_stream_def bs(1) fits_def psize Let_def flip: p_def)
qed

lemma padded_prefix: "take (length src) (aes_padding_block rnd bs pad_style src) = src"
  using bs_simps(2) aes_padding_block_eq [of pad_style bs rnd src]
  by (cases "pad_style \<noteq> No_padding \<and> 1 < bs") (auto simp: aes_padding_block_def)

text \<open>The last buffer of a cipher text holds the whole padding.\<close>

lemma last_buffer:
  fixes rnd src
  assumes src: "pad_style = No_padding \<Longrightarrow> length src mod bs = 0"
  defines "xs \<equiv> aes_padding_block rnd bs pad_style src"
  defines "m \<equiv> AES_BUF_SIZE * ((length xs - 1) div AES_BUF_SIZE)"
  shows "m \<le> length src" "length xs - m \<le> AES_BUF_SIZE" "bs dvd m" "m \<le> length xs"
proof -
  show dvd: "bs dvd m" using bs_simps(3) by (simp add: m_def)
  have rest: "length xs - 1 - m < AES_BUF_SIZE" "m \<le> length xs - 1"
    using mod_less_divisor [OF buf_chunk(3), of "length xs - 1"] by (simp_all add: m_def minus_mult_div_eq_mod)
  then show "length xs - m \<le> AES_BUF_SIZE" "m \<le> length xs" by simp_all
  show "m \<le> length src"
  proof (cases "m < length xs")
    case True
    have "bs dvd length xs" using padded_whole(1) [of pad_style src rnd, OF src] by (simp add: xs_def mod_eq_0_iff_dvd)
    then have "bs dvd length xs - m" using dvd by simp
    then have "bs \<le> length xs - m" using True by (intro dvd_imp_le) simp_all
    then show ?thesis
      using padded_whole(2) [of pad_style src rnd, OF src] True by (simp add: xs_def split: if_splits)
  qed (use rest padded_whole(2) [of pad_style src rnd, OF src] bs_simps in \<open>simp add: xs_def\<close>)
qed

lemma aes_decrypt_stream_ok:
  fixes src rnd
  assumes src: "pad_style = No_padding \<Longrightarrow> length src mod bs = 0" and keep: "aes_unpaddable md bs pad_style src"
  defines "xs \<equiv> aes_padding_block rnd bs pad_style src"
  defines "content \<equiv> aes_sealed md E T xs"
  shows "aes_decrypt_stream e True True out (content, length content) key key_len md pad_style iv iv_len = Some (Inr (Aes_ok, out @ src))"
proof -
  let ?room = "AES_BUF_SIZE + bs * 2" and ?n = "length xs"
  define m where "m = AES_BUF_SIZE * ((?n - 1) div AES_BUF_SIZE)"
  note m = last_buffer [of pad_style src rnd, OF src, folded xs_def, folded m_def]
  have whole: "?n mod bs = 0" using padded_whole(1) [of pad_style src rnd, OF src] by (simp add: xs_def)
  have nonempty: "is_aead_mode md \<Longrightarrow> 0 < ?n"
    using padded_whole(3) [of pad_style src rnd, OF src] keep by (cases src) (auto simp: aes_unpaddable_def xs_def)
  define tag where "tag = (if is_aead_mode md then Some (T xs) else None)"
  obtain c where c: "aes_open e False True md key key_len iv iv_len tag = Inr (Inr c)" "dec_ctx c tag [] []"
    using opened_dec(1) [of True] opened_dec(2) [of "T xs" True] lengths(2) by (cases "is_aead_mode md") (auto simp: tag_def)
  have content: "take ?n content = E xs" "?n \<le> length content" "take m content = take m (E xs)"
    using m(4) by (simp_all add: content_def aes_sealed_def lengths min_absorb1)
  define q where "q = drop m (E xs)"
  obtain c1 o0 where l: "decrypt_chunks e ?room c out content ?n = Some (Inr (Some c1, out @ o0, q))" "dec_ctx c1 tag (take m (E xs)) o0"
    using decrypt_chunks_ok [OF c(2), of ?room ?n content out] content by (auto simp: q_def m_def)
  have q: "length q = ?n - m" "length q \<le> AES_BUF_SIZE" "length q < 2 ^ 31"
    using m(2) by (simp_all add: q_def lengths AES_BUF_SIZE_def)
  then have qsize: "int_of_size (length q) = int (length q)" using sint_u32_small by (simp add: int_of_size_def)
  obtain c2 o1 where u: "(if q \<noteq> [] then evp_update e c1 q (int (length q)) else Some (c1, [])) = Some (c2, o1)" "dec_ctx c2 tag (E xs) (o0 @ o1)"
    using dec_update [OF l(2) q(3)] l(2) append_take_drop_id [of m "E xs"] unfolding q_def [symmetric] by (cases "q = []") auto
  obtain c3 o2 where f: "evp_final e c2 = Some (c3, o2)" "(o0 @ o1) @ o2 = xs"
    using dec_final [OF u(2) whole] by (auto simp: tag_def)
  have o0: "length o0 = m"
    using dec_whole [OF l(2)] m(3,4) lengths(1) by (simp add: min_absorb2 flip: dvd_eq_mod_eq_0)
  then have last: "drop m xs = o1 @ o2" "length (o1 @ o2) = ?n - m" using f(2) by auto
  have short: "length src - m + 16 \<le> 2 ^ 31"
    using m(2) padded_whole(3) [of pad_style src rnd, OF src] by (simp add: xs_def AES_BUF_SIZE_def)
  obtain pb where pb: "drop m xs = drop m src @ pb"
    "aes_unpadding_block (drop m src @ pb) (length (drop m src @ pb)) md pad_style bs = length src - m"
    using unpadded [OF keep m(1), of rnd, folded xs_def] short by auto
  have "o0 = take m xs" using f(2) o0 by auto
  also have "\<dots> = take m src" using padded_prefix [of src rnd pad_style] m(1) unfolding xs_def by (metis min.absorb1 take_take)
  finally have out: "o0 @ resize (o1 @ o2) (length src - m) = src" using pb(1) last(1) m(1) by (simp add: resize_def)
  have "length o1 \<le> ?room" "length o1 + length o2 \<le> ?room" "length src - m \<le> ?room"
    using last(2) m(2) padded_whole(3) [of pad_style src rnd, OF src] by (simp_all add: xs_def)
  moreover have "aes_unpadding_block (o1 @ o2) (length o1 + length o2) md pad_style bs = length src - m"
    using pb(2) unfolding pb(1) [symmetric] last(1) by simp
  moreover have "resize (take 16 (drop ?n content)) 16 = T xs" if "is_aead_mode md"
    using that lengths by (simp add: content_def aes_sealed_def resize_def)
  ultimately show ?thesis
    using valid c(1) l(1) u(1) f(1) out nonempty lengths
    by (cases "is_aead_mode md"; cases "q = []")
      (simp_all add: aes_decrypt_stream_def bs(1) fits_def qsize Let_def tag_def content_def aes_sealed_def)
qed

text \<open>The reserved lengths are enough.\<close>

lemma reserve_enough:
  assumes "pad_style = No_padding \<Longrightarrow> length src mod bs = 0"
  shows "length (aes_sealed md E T (aes_padding_block rnd bs pad_style src)) \<le> aes_encrypt_len_reserve e (length src) md key_len"
proof -
  let ?n = "length src"
  have "?n + (bs - ?n mod bs) \<le> (?n div bs + 2) * bs"
    using mod_less_divisor [OF bs_simps(1), of ?n] div_mult_mod_eq [of ?n bs] unfolding distrib_right by linarith
  moreover have "?n \<le> (?n div bs + 2) * bs"
    using mod_less_divisor [OF bs_simps(1), of ?n] div_mult_mod_eq [of ?n bs] unfolding distrib_right by linarith
  ultimately show ?thesis
    using padded_whole(2) [of pad_style src rnd, OF assms] bs(2,3)
    by (auto simp: length_sealed aes_encrypt_len_reserve_def bs(1) Let_def split: if_splits)
qed

lemma aead_empty_sealed: "is_aead_mode md \<Longrightarrow> aes_sealed md E T (aes_padding_block rnd bs pad_style []) = T []"
  using bs(3) lengths(1) [of "[]"] by (simp add: aes_sealed_def aes_padding_block_def)

lemma aead_short_undecryptable:
  assumes "is_aead_mode md" "length src \<le> 16" "length src \<le> dst_size"
  shows "aes_decrypt e dst_size src key key_len md pad_style iv iv_len = Inr (Inl Decrypt_final_failed)"
proof -
  obtain c where c: "aes_open e False False md key key_len iv iv_len None = Inr (Inr c)" "dec_ctx c None [] []"
    using opened_dec(1) by blast
  have small: "length src < 2 ^ 31" using assms(2) by simp
  obtain c' o1 where u: "evp_update e c src (int (length src)) = Some (c', o1)" "dec_ctx c' None src o1"
    using dec_update [OF c(2) small] by auto
  have "length o1 = length src" using dec_whole [OF u(2)] bs(3) [OF assms(1)] by simp
  then show ?thesis
    using valid c(1) u(1) dec_untagged [OF assms(1) u(2)] assms bs(3) sint_u32_small [OF small]
    by (simp add: aes_decrypt_def bs(1) and_then_def try_evp_def fits_def int_of_size_def size_mod_def Let_def)
qed

lemma aes_decrypt_stream_start:
  assumes "\<not> is_aead_mode md"
  shows "aes_decrypt_stream e True True out (content, 0) key key_len md pad_style iv iv_len = Some (Inr (Aes_ok, out))"
proof -
  obtain c where c: "aes_open e False True md key key_len iv iv_len None = Inr (Inr c)" "dec_ctx c None [] []"
    using opened_dec(1) by blast
  obtain c' o' where f: "evp_final e c = Some (c', o')" "o' = []"
    using dec_final [of c None "[]" "[]"] c(2) lengths(1) [of "[]"] assms by auto
  have "int_index 0 = - 1" by (simp add: int_index_def size_sub_def)
  then have "aes_unpadding_block [] 0 md pad_style bs = 0"
    by (cases pad_style) (simp_all add: aes_unpadding_block_def Let_def)
  moreover have "decrypt_chunks e room c out content 0 = Some (Inr (Some c, out, []))" for room
    by (subst decrypt_chunks.simps) simp
  ultimately show ?thesis
    using valid c(1) f assms by (simp add: aes_decrypt_stream_def bs(1) fits_def Let_def resize_def)
qed

end

section \<open>The keystream ciphers\<close>

text \<open>
  OFB, CTR and GCM add a stream of bytes to the text that depends on the cipher, the key and the vector only, and GCM
  computes a tag; \<open>keystream_evp ks mac\<close> is the EVP interface of those ciphers for a keystream \<open>ks\<close> and a tag function
  \<open>mac\<close>. It is the instance on which the laws above are checked.
\<close>

record ks_ctx =
  ks_cipher :: "aes_cipher option"
  ks_enc :: bool
  ks_key :: bytes
  ks_iv :: bytes
  ks_text :: bytes
  ks_tag :: "bytes option"

definition xor_stream :: "(nat \<Rightarrow> u8) \<Rightarrow> nat \<Rightarrow> bytes \<Rightarrow> bytes" where
  "xor_stream f n xs = map (\<lambda>(i, x). x XOR f (n + i)) (enumerate 0 xs)"

definition ks_aead :: "ks_ctx \<Rightarrow> bool" where
  "ks_aead c = (case ks_cipher c of Some (Evp_aes bits md) \<Rightarrow> is_aead_mode md | None \<Rightarrow> False)"

definition keystream_evp ::
  "(aes_cipher option \<Rightarrow> bytes \<Rightarrow> bytes \<Rightarrow> nat \<Rightarrow> u8) \<Rightarrow> (bytes \<Rightarrow> bytes \<Rightarrow> bytes \<Rightarrow> bytes) \<Rightarrow> ks_ctx evp" where
  "keystream_evp ks mac =
     \<lparr>evp_new = Some \<lparr>ks_cipher = None, ks_enc = True, ks_key = [], ks_iv = [], ks_text = [], ks_tag = None\<rparr>,
      evp_block_size = (\<lambda>c. if c = None then 0 else 1),
      evp_key_length = (\<lambda>c. case c of Evp_aes bits md \<Rightarrow> bits div 8),
      evp_iv_length = (\<lambda>c. case c of Evp_aes bits md \<Rightarrow> if is_aead_mode md then 12 else 16),
      evp_init = (\<lambda>enc c cipher key iv.
        Some (c\<lparr>ks_cipher := (if cipher = None then ks_cipher c else cipher), ks_enc := enc,
                ks_key := (case key of None \<Rightarrow> ks_key c | Some k \<Rightarrow> k),
                ks_iv := (case iv of None \<Rightarrow> ks_iv c | Some v \<Rightarrow> v)\<rparr>)),
      evp_set_ivlen = (\<lambda>c n. if n > 0 then Some c else None),
      evp_no_padding = (\<lambda>c. c),
      evp_update = (\<lambda>c ys n. if n < 0 then None else
        let ys = take (nat n) ys; zs = xor_stream (ks (ks_cipher c) (ks_key c) (ks_iv c)) (length (ks_text c)) ys
        in Some (c\<lparr>ks_text := ks_text c @ (if ks_enc c then ys else zs)\<rparr>, zs)),
      evp_final = (\<lambda>c.
        if ks_aead c \<and> \<not> ks_enc c \<and> ks_tag c \<noteq> Some (take 16 (mac (ks_key c) (ks_iv c) (ks_text c) @ replicate 16 0))
        then None else Some (c, [])),
      evp_get_tag = (\<lambda>c. if ks_aead c \<and> ks_enc c then Some (take 16 (mac (ks_key c) (ks_iv c) (ks_text c) @ replicate 16 0)) else None),
      evp_set_tag = (\<lambda>c t. if ks_aead c \<and> \<not> ks_enc c then Some (c\<lparr>ks_tag := Some t\<rparr>) else None)\<rparr>"

lemma length_xor_stream [simp]: "length (xor_stream f n xs) = length xs"
  by (simp add: xor_stream_def)

lemma xor_stream_append: "xor_stream f n (xs @ ys) = xor_stream f n xs @ xor_stream f (n + length xs) ys"
  by (intro nth_equalityI) (auto simp: xor_stream_def nth_append nth_enumerate_eq)

lemma xor_stream_twice: "xor_stream f n (xor_stream f n xs) = xs"
  by (intro nth_equalityI) (auto simp: xor_stream_def nth_enumerate_eq xor.assoc)

text \<open>The states of a context of the cipher \<open>c\<close> with the key \<open>k\<close> and the vector \<open>v\<close>.\<close>

definition ks_enc_ctx where
  "ks_enc_ctx ks k v cipher c xs out \<longleftrightarrow>
     c = \<lparr>ks_cipher = Some cipher, ks_enc = True, ks_key = k, ks_iv = v, ks_text = xs, ks_tag = None\<rparr> \<and>
     out = xor_stream (ks (Some cipher) k v) 0 xs"

definition ks_dec_ctx where
  "ks_dec_ctx ks k v cipher c t xs out \<longleftrightarrow>
     c = \<lparr>ks_cipher = Some cipher, ks_enc = False, ks_key = k, ks_iv = v, ks_text = out, ks_tag = t\<rparr> \<and>
     out = xor_stream (ks (Some cipher) k v) 0 xs"

lemma keystream_session:
  assumes md: "md \<in> {Mode_ofb, Mode_ctr, Mode_gcm}" and key: "aes_key_valid md (Some k) key_len" "key_len \<le> length k"
    and iv: "aes_iv_valid md (Some v) iv_len" "iv_len \<le> length v" "iv_len < 2 ^ 31"
  shows "evp_session (keystream_evp ks mac) md (Some k) key_len (Some v) iv_len
     (xor_stream (ks (Some (Evp_aes (8 * key_len) md)) k v) 0) (\<lambda>xs. take 16 (mac k v xs @ replicate 16 0))
     (ks_enc_ctx ks k v (Evp_aes (8 * key_len) md)) (ks_dec_ctx ks k v (Evp_aes (8 * key_len) md))
     (Evp_aes (8 * key_len) md) (if md = Mode_gcm then 1 else 16)"
proof unfold_locales
  have kl: "key_len \<in> {16, 24, 32}" using key(1) by (auto simp: aes_key_valid_def split: if_splits)
  show "select_cipher md key_len = Some (Evp_aes (8 * key_len) md)" using kl md by (auto simp: select_cipher_def)
  show "evp_reads (keystream_evp ks mac) (Evp_aes (8 * key_len) md) md (Some k) (Some v) iv_len"
    using md key(2) iv by (auto simp: evp_reads_def keystream_evp_def)
  show "aes_block_size (keystream_evp ks mac) md key_len = (if md = Mode_gcm then 1 else 16)"
    using kl md by (auto simp: aes_block_size_def keystream_evp_def select_cipher_def)
  let ?e = "keystream_evp ks mac" and ?E = "xor_stream (ks (Some (Evp_aes (8 * key_len) md)) k v) 0"
    and ?T = "\<lambda>xs. take 16 (mac k v xs @ replicate 16 0)" and ?bs = "if md = Mode_gcm then 1 else 16 :: nat"
    and ?enc = "ks_enc_ctx ks k v (Evp_aes (8 * key_len) md)" and ?dec = "ks_dec_ctx ks k v (Evp_aes (8 * key_len) md)"
  note defs = keystream_evp_def ks_enc_ctx_def ks_dec_ctx_def ks_aead_def Let_def
  have aead: "is_aead_mode md \<longleftrightarrow> md = Mode_gcm" using md by auto
  have ivpos: "0 < iv_len" using iv(1) md by auto
  show "aes_key_valid md (Some k) key_len" "aes_iv_valid md (Some v) iv_len" "iv_len < 2 ^ 31" "?bs \<in> {1, 8, 16}" using assms by auto
  show "is_aead_mode md \<Longrightarrow> ?bs = 1" using aead by simp
  show "\<exists>c0 c1 c2 c3. evp_new ?e = Some c0 \<and> evp_init ?e True c0 (Some (Evp_aes (8 * key_len) md)) None None = Some c1
      \<and> (if is_aead_mode md then evp_set_ivlen ?e c1 (int iv_len) = Some c2 else c2 = c1)
      \<and> evp_init ?e True c2 (Some (Evp_aes (8 * key_len) md)) (Some k) (Some v) = Some c3
      \<and> ?enc (if is_aead_mode md then c3 else evp_no_padding ?e c3) [] []"
    using ivpos by (cases "is_aead_mode md") (simp_all add: defs xor_stream_def)
  show "\<exists>c0 c1 c2 c3. evp_new ?e = Some c0 \<and> evp_init ?e False c0 (Some (Evp_aes (8 * key_len) md)) None None = Some c1
      \<and> (if is_aead_mode md then evp_set_ivlen ?e c1 (int iv_len) = Some c2 else c2 = c1)
      \<and> evp_init ?e False c2 (if again then Some (Evp_aes (8 * key_len) md) else None) (Some k) (Some v) = Some c3
      \<and> ?dec (if is_aead_mode md then c3 else evp_no_padding ?e c3) None [] []" for again
    using ivpos by (cases "is_aead_mode md") (simp_all add: defs xor_stream_def)
qed (simp_all add: keystream_evp_def ks_enc_ctx_def ks_dec_ctx_def ks_aead_def Let_def xor_stream_append xor_stream_twice)

definition sample_key :: bytes where
  "sample_key = map of_nat [0..<16]"

definition sample_iv :: bytes where
  "sample_iv = map of_nat [20..<32]"

lemma sample_session:
  assumes "md \<in> {Mode_ofb, Mode_ctr, Mode_gcm}" "length iv = 16 \<or> md = Mode_gcm \<and> length iv = 12"
  shows "evp_session (keystream_evp ks mac) md (Some (sample_key @ [0])) (length sample_key) (aes_iv_ptr md iv) (aes_iv_len md iv)
     (xor_stream (ks (Some (Evp_aes 128 md)) (sample_key @ [0]) (iv @ [0])) 0)
     (\<lambda>xs. take 16 (mac (sample_key @ [0]) (iv @ [0]) xs @ replicate 16 0))
     (ks_enc_ctx ks (sample_key @ [0]) (iv @ [0]) (Evp_aes 128 md)) (ks_dec_ctx ks (sample_key @ [0]) (iv @ [0]) (Evp_aes 128 md))
     (Evp_aes 128 md) (if md = Mode_gcm then 1 else 16)"
proof -
  have len: "length sample_key = 16" by (simp add: sample_key_def)
  have iv: "aes_iv_ptr md iv = Some (iv @ [0])" "aes_iv_len md iv = length iv" using assms(1) by (auto simp: aes_iv_ptr_def aes_iv_len_def)
  show ?thesis
    using keystream_session [OF assms(1), of "sample_key @ [0]" 16 "iv @ [0]" "length iv" ks mac] assms len
    unfolding iv len by (auto simp: aes_key_valid_def len)
qed

interpretation gcm: evp_session "keystream_evp ks mac" Mode_gcm "Some (sample_key @ [0])" "length sample_key" "aes_iv_ptr Mode_gcm sample_iv" "aes_iv_len Mode_gcm sample_iv"
     "xor_stream (ks (Some (Evp_aes 128 Mode_gcm)) (sample_key @ [0]) (sample_iv @ [0])) 0"
     "\<lambda>xs. take 16 (mac (sample_key @ [0]) (sample_iv @ [0]) xs @ replicate 16 0)"
     "ks_enc_ctx ks (sample_key @ [0]) (sample_iv @ [0]) (Evp_aes 128 Mode_gcm)"
     "ks_dec_ctx ks (sample_key @ [0]) (sample_iv @ [0]) (Evp_aes 128 Mode_gcm)" "Evp_aes 128 Mode_gcm" 1
  for ks mac
  using sample_session [of Mode_gcm sample_iv ks mac] by (simp add: sample_iv_def)

section \<open>Properties\<close>



text \<open>encrypting a stream gives the bytes that encrypting its content as one buffer gives (with the random bytes
  of ISO 10126 in the places where the stream draws them), written behind what the output already held, for
  texts of any number of 16 KiB buffers.\<close>

theorem aes_stream_equals_buffer:
  assumes session: "evp_session e md key key_len iv iv_len E T enc_ctx dec_ctx cipher bs"
    and inp: "pad_style = No_padding \<Longrightarrow> length inp mod bs = 0" "length inp + 16 < 2 ^ 31"
  shows "\<exists>c. aes_encrypt_stream e rnd True True out inp key key_len md pad_style iv iv_len = Inr (Aes_ok, out @ c)
    \<and> aes_encrypt e (\<lambda>i. rnd (i - AES_BUF_SIZE * (length inp div AES_BUF_SIZE))) (aes_encrypt_len_reserve e (length inp) md key_len)
        inp key key_len md pad_style iv iv_len = Inr (Inr c)"
  using evp_session.aes_encrypt_stream_ok [OF session inp(1)] evp_session.aes_encrypt_ok [OF session inp]
    evp_session.reserve_enough [OF session inp(1)] by blast

theorem aes_stream_equals_buffer_witness:
  "\<exists>c. aes_encrypt_stream (keystream_evp (\<lambda>_ _ _ i. of_nat i) (\<lambda>_ _ xs. xs)) of_nat True True [5] (replicate 40000 1)
      (Some (sample_key @ [0])) (length sample_key) Mode_ctr Iso10126 (aes_iv_ptr Mode_ctr (replicate 16 2)) (aes_iv_len Mode_ctr (replicate 16 2))
      = Inr (Aes_ok, [5] @ c)
    \<and> aes_encrypt (keystream_evp (\<lambda>_ _ _ i. of_nat i) (\<lambda>_ _ xs. xs)) (\<lambda>i. of_nat (i - AES_BUF_SIZE * (length (replicate 40000 (1 :: u8)) div AES_BUF_SIZE)))
      (aes_encrypt_len_reserve (keystream_evp (\<lambda>_ _ _ i. of_nat i) (\<lambda>_ _ xs. xs)) (length (replicate 40000 (1 :: u8))) Mode_ctr (length sample_key))
      (replicate 40000 1) (Some (sample_key @ [0])) (length sample_key) Mode_ctr Iso10126
      (aes_iv_ptr Mode_ctr (replicate 16 2)) (aes_iv_len Mode_ctr (replicate 16 2)) = Inr (Inr c)"
  by (rule aes_stream_equals_buffer [OF sample_session]) simp_all



text \<open>an empty text does not survive an AEAD mode: its encryption succeeds and is the tag of 16 bytes alone, and
  \<open>decrypt\<close>, which looks for a tag only in inputs longer than 16 bytes, refuses it.\<close>

theorem aes_aead_empty_text:
  assumes session: "evp_session e md (Some (key @ [0])) (length key) (aes_iv_ptr md iv) (aes_iv_len md iv) E T enc_ctx dec_ctx cipher bs"
    and "is_aead_mode md"
  shows "aes_encrypt_string e rnd [] key md pad_style iv = Inr (Inr (T []))
    \<and> aes_decrypt_string e (T []) key md pad_style iv = Inr (Inl Decrypt_final_failed)"
  using evp_session.aes_encrypt_ok [OF session, where pad_style = pad_style and src = "[]" and rnd = rnd] evp_session.reserve_enough [OF session, where pad_style = pad_style and src = "[]" and rnd = rnd]
    evp_session.aead_empty_sealed [OF session assms(2), where rnd = rnd and pad_style = pad_style]
    evp_session.aead_short_undecryptable [OF session assms(2), of "T []" "length (T [])" pad_style] evp_session.lengths(2) [OF session, of "[]"]
  by (simp add: aes_encrypt_string_def aes_decrypt_string_def aes_decrypt_len_reserve_def and_then_def)

theorem aes_aead_empty_text_witness:
  "aes_decrypt_string (keystream_evp (\<lambda>_ _ _ i. of_nat i) (\<lambda>_ _ xs. xs)) (replicate 16 0) sample_key Mode_gcm Pkcs7 sample_iv
    = Inr (Inl Decrypt_final_failed)"
  using aes_aead_empty_text [OF sample_session, of Mode_gcm sample_iv "\<lambda>_ _ _ i. of_nat i" "\<lambda>_ _ xs. xs" "\<lambda>_. 0" Pkcs7]
  by (simp add: sample_iv_def)

text \<open>\<open>decrypt\<close> on streams takes the position at which the input is handed over for its length, so that an input
  that stands at its beginning, as every freshly opened stream does, is reported as decrypted with nothing written.\<close>

theorem aes_decrypt_stream_at_start:
  assumes session: "evp_session e md key key_len iv iv_len E T enc_ctx dec_ctx cipher bs" and "\<not> is_aead_mode md"
  shows "aes_decrypt_stream e True True out (content, 0) key key_len md pad_style iv iv_len = Some (Inr (Aes_ok, out))"
  using evp_session.aes_decrypt_stream_start [OF session assms(2)] .

theorem aes_decrypt_stream_at_start_witness:
  "aes_decrypt_stream (keystream_evp (\<lambda>_ _ _ i. of_nat i) (\<lambda>_ _ xs. xs)) True True [] ([1, 2, 3, 4], 0) (Some (sample_key @ [0])) (length sample_key)
     Mode_ctr Pkcs7 (aes_iv_ptr Mode_ctr (replicate 16 2)) (aes_iv_len Mode_ctr (replicate 16 2)) = Some (Inr (Aes_ok, []))"
  by (rule aes_decrypt_stream_at_start [OF sample_session]) simp_all

end
