(* ===== verification/Gzip.thy ===== *)
theory Gzip
  imports HjPrelude
begin

text \<open>
  \<open>src/hj/compress/gzip.hpp\<close>: compression and decompression of buffers and streams with zlib.

  zlib is a parameter: a record \<open>zlib\<close> with one function per call. \<open>z_deflate\<close> and \<open>z_inflate\<close> get the input that
  \<open>next_in\<close> and \<open>avail_in\<close> describe and \<open>avail_out\<close>, and give the return code, the stream, how many bytes were
  consumed and the bytes written. \<open>enum class err\<close> has the underlying type \<open>int\<close> and its values are those of
  the source; they are integers here because the code casts zlib's codes to it. An output stream is its
  content, whether it is good, and how much it takes. Chunk sizes are below \<open>2 ^ 32\<close>.
\<close>

section \<open>Definitions\<close>

subsection \<open>Codes\<close>

definition Z_OK :: int where "Z_OK = 0"

definition Z_STREAM_END :: int where "Z_STREAM_END = 1"

definition Z_NEED_DICT :: int where "Z_NEED_DICT = 2"

definition Z_STREAM_ERROR :: int where "Z_STREAM_ERROR = - 2"

definition Z_DATA_ERROR :: int where "Z_DATA_ERROR = - 3"

definition Z_MEM_ERROR :: int where "Z_MEM_ERROR = - 4"

definition Z_BUF_ERROR :: int where "Z_BUF_ERROR = - 5"

definition Z_VERSION_ERROR :: int where "Z_VERSION_ERROR = - 6"

text \<open>An enumerator without a value has the value of the one before it plus one; the first of them follows \<open>stream_end\<close>.\<close>

datatype gzip_err =
    Err_ok | Err_stream_error | Err_data_error | Err_mem_error | Err_version_error | Err_need_dict | Err_stream_end
  | Err_input_invalid | Err_buffer_too_small | Err_max_output_sz_exceeded | Err_read_buffer_error
  | Err_write_buffer_error | Err_overflow_error | Err_zlib_version_mismatch

fun err_value :: "gzip_err \<Rightarrow> int" where
  "err_value Err_ok = Z_OK"
| "err_value Err_stream_error = Z_STREAM_ERROR"
| "err_value Err_data_error = Z_DATA_ERROR"
| "err_value Err_mem_error = Z_MEM_ERROR"
| "err_value Err_version_error = Z_VERSION_ERROR"
| "err_value Err_need_dict = Z_NEED_DICT"
| "err_value Err_stream_end = Z_STREAM_END"
| "err_value Err_input_invalid = Z_STREAM_END + 1"
| "err_value Err_buffer_too_small = Z_STREAM_END + 2"
| "err_value Err_max_output_sz_exceeded = Z_STREAM_END + 3"
| "err_value Err_read_buffer_error = Z_STREAM_END + 4"
| "err_value Err_write_buffer_error = Z_STREAM_END + 5"
| "err_value Err_overflow_error = Z_STREAM_END + 6"
| "err_value Err_zlib_version_mismatch = Z_STREAM_END + 7"

datatype gzip_flush = Z_NO_FLUSH | Z_FINISH

datatype compression_lvl = Default_compression | No_compression | Best_speed | Best_compression

fun lvl_value :: "compression_lvl \<Rightarrow> int" where
  "lvl_value Default_compression = - 1"
| "lvl_value No_compression = 0"
| "lvl_value Best_speed = 1"
| "lvl_value Best_compression = 9"

definition GZIP_WINDOW_BITS :: int where
  "GZIP_WINDOW_BITS = 15 + 16"

record 'z zlib =
  z_deflate_init :: "int \<Rightarrow> int \<Rightarrow> int \<Rightarrow> int \<times> 'z"
  z_deflate :: "'z \<Rightarrow> bytes \<Rightarrow> nat \<Rightarrow> gzip_flush \<Rightarrow> int \<times> 'z \<times> nat \<times> bytes"
  z_inflate_init :: "int \<Rightarrow> int \<times> 'z"
  z_inflate :: "'z \<Rightarrow> bytes \<Rightarrow> nat \<Rightarrow> int \<times> 'z \<times> nat \<times> bytes"
  z_crc32 :: "u32 \<Rightarrow> bytes \<Rightarrow> u32"

subsection \<open>Sizes\<close>

definition compress_reserve_sz :: "nat \<Rightarrow> nat" where
  "compress_reserve_sz src_sz = (src_sz + src_sz div 1000 + 12 + 18) mod 2 ^ 64"

definition decompress_reserve_sz :: "nat \<Rightarrow> nat \<Rightarrow> nat" where
  "decompress_reserve_sz src_sz max_output_sz =
     (let min_alloc = 4096; max_safe_alloc = 1024 * 1024 * 256 in
      if max_output_sz > 0 then min max_output_sz max_safe_alloc
      else if src_sz = 0 then min_alloc
      else let estimated = (if src_sz \<le> max_safe_alloc div 4 then src_sz * 4 else max_safe_alloc)
           in max min_alloc (min estimated max_safe_alloc))"

text \<open>\<open>static_cast<uInt>(src_sz)\<close>: the bytes that \<open>avail_in\<close> announces\<close>

definition avail_in :: "bytes \<Rightarrow> bytes" where
  "avail_in src = take (length src mod 2 ^ 32) src"

definition chunk_sz :: nat where
  "chunk_sz = 16384"

subsection \<open>Buffers\<close>

text \<open>The error code and \<open>dst\<close>; \<open>None\<close> when the loop does not end.\<close>

partial_function (option) gzip_compress_loop :: "'z zlib \<Rightarrow> 'z \<Rightarrow> bytes \<Rightarrow> bytes \<Rightarrow> (int \<times> bytes) option" where
  "gzip_compress_loop z s inp dst =
     (case z_deflate z s inp chunk_sz Z_FINISH of (ret, s', used, w) \<Rightarrow>
        if ret = Z_STREAM_ERROR then Some (ret, [])
        else if chunk_sz - length w = 0 then gzip_compress_loop z s' (drop used inp) (dst @ w)
        else if ret \<noteq> Z_STREAM_END
          then Some (if ret = Z_OK then err_value Err_buffer_too_small else ret, [])
        else Some (err_value Err_ok, dst @ w))"

definition gzip_compress :: "'z zlib \<Rightarrow> bytes \<Rightarrow> bytes option \<Rightarrow> compression_lvl \<Rightarrow> int \<Rightarrow> (int \<times> bytes) option" where
  "gzip_compress z dst src compr_lvl mem_level =
     (case src of
        None \<Rightarrow> Some (err_value Err_input_invalid, dst)
      | Some text \<Rightarrow>
          if length text = 0 then Some (err_value Err_input_invalid, dst)
          else case z_deflate_init z (lvl_value compr_lvl) GZIP_WINDOW_BITS mem_level of (ret, s) \<Rightarrow>
            if ret \<noteq> Z_OK then Some (ret, dst) else gzip_compress_loop z s (avail_in text) [])"

partial_function (option) gzip_decompress_loop ::
  "'z zlib \<Rightarrow> nat \<Rightarrow> 'z \<Rightarrow> bytes \<Rightarrow> bytes \<Rightarrow> (int \<times> bytes) option" where
  "gzip_decompress_loop z max_output_sz s inp dst =
     (case z_inflate z s inp chunk_sz of (ret, s', used, w) \<Rightarrow>
        if ret = Z_NEED_DICT \<or> ret = Z_DATA_ERROR \<or> ret = Z_MEM_ERROR then Some (ret, [])
        else if max_output_sz > 0 \<and> length dst + length w > max_output_sz
          then Some (err_value Err_max_output_sz_exceeded, [])
        else if chunk_sz - length w = 0 then gzip_decompress_loop z max_output_sz s' (drop used inp) (dst @ w)
        else if ret \<noteq> Z_STREAM_END then Some (ret, [])
        else Some (err_value Err_ok, dst @ w))"

definition gzip_decompress :: "'z zlib \<Rightarrow> bytes \<Rightarrow> bytes option \<Rightarrow> nat \<Rightarrow> (int \<times> bytes) option" where
  "gzip_decompress z dst src max_output_sz =
     (case src of
        None \<Rightarrow> Some (err_value Err_input_invalid, dst)
      | Some text \<Rightarrow>
          if length text = 0 then Some (err_value Err_input_invalid, dst)
          else case z_inflate_init z GZIP_WINDOW_BITS of (ret, s) \<Rightarrow>
            if ret \<noteq> Z_OK then Some (ret, dst) else gzip_decompress_loop z max_output_sz s (avail_in text) [])"

subsection \<open>Streams\<close>

text \<open>\<open>out_takes\<close> says up to which content the device behind the stream accepts bytes; a write that it does not accept
  makes the stream bad, and later writes do nothing.\<close>

record gzip_ostream =
  out_bytes :: bytes
  out_good :: bool
  out_takes :: "bytes \<Rightarrow> bool"

definition out_write :: "gzip_ostream \<Rightarrow> bytes \<Rightarrow> gzip_ostream" where
  "out_write out w =
     (if \<not> out_good out then out
      else if out_takes out (out_bytes out @ w) then out\<lparr>out_bytes := out_bytes out @ w\<rparr>
      else out\<lparr>out_good := False\<rparr>)"

text \<open>The inner loop: the code with which \<open>compress\<close> returns, or the stream for the next chunk.\<close>

partial_function (option) deflate_chunk ::
  "'z zlib \<Rightarrow> nat \<Rightarrow> gzip_flush \<Rightarrow> 'z \<Rightarrow> bytes \<Rightarrow> gzip_ostream \<Rightarrow> ((int + 'z) \<times> gzip_ostream) option" where
  "deflate_chunk z chunk_size flush s inp out =
     (case z_deflate z s inp chunk_size flush of (ret, s', used, w) \<Rightarrow>
        if ret = Z_STREAM_ERROR then Some (Inl (err_value Err_stream_error), out)
        else let out' = out_write out w in
          if \<not> out_good out' then Some (Inl (err_value Err_write_buffer_error), out')
          else if chunk_size - length w = 0 then deflate_chunk z chunk_size flush s' (drop used inp) out'
          else Some (Inr s', out'))"

text \<open>A read that finds fewer bytes than it asks for ends the input: \<open>eof\<close> is set, and the loop is not entered again.\<close>

partial_function (option) deflate_input ::
  "'z zlib \<Rightarrow> nat \<Rightarrow> 'z \<Rightarrow> bytes \<Rightarrow> gzip_ostream \<Rightarrow> ((int + 'z) \<times> gzip_ostream) option" where
  "deflate_input z chunk_size s inp out =
     (let buf = take chunk_size inp; eof = (length buf < chunk_size) in
      if length buf \<le> 0 then Some (Inr s, out)
      else case deflate_chunk z chunk_size (if eof then Z_FINISH else Z_NO_FLUSH) s buf out of
             None \<Rightarrow> None
           | Some (Inl e, out') \<Rightarrow> Some (Inl e, out')
           | Some (Inr s', out') \<Rightarrow>
               if eof then Some (Inr s', out') else deflate_input z chunk_size s' (drop chunk_size inp) out')"

partial_function (option) deflate_finish ::
  "'z zlib \<Rightarrow> nat \<Rightarrow> 'z \<Rightarrow> bytes \<Rightarrow> gzip_ostream \<Rightarrow> gzip_ostream option" where
  "deflate_finish z chunk_size s inp out =
     (case z_deflate z s inp chunk_size Z_FINISH of (ret, s', used, w) \<Rightarrow>
        if ret \<noteq> Z_STREAM_END then deflate_finish z chunk_size s' (drop used inp) (out_write out w)
        else Some (out_write out w))"

definition gzip_compress_stream ::
  "'z zlib \<Rightarrow> gzip_ostream \<Rightarrow> bool \<Rightarrow> bytes \<Rightarrow> compression_lvl \<Rightarrow> int \<Rightarrow> nat \<Rightarrow> (int \<times> gzip_ostream) option" where
  "gzip_compress_stream z out in_good inp compr_lvl mem_level chunk_size =
     (if \<not> in_good \<or> \<not> out_good out then Some (err_value Err_input_invalid, out)
      else case z_deflate_init z (lvl_value compr_lvl) GZIP_WINDOW_BITS mem_level of (ret, s) \<Rightarrow>
        if ret \<noteq> Z_OK then Some (ret, out)
        else case deflate_input z chunk_size s inp out of
               None \<Rightarrow> None
             | Some (Inl e, out') \<Rightarrow> Some (e, out')
             | Some (Inr s', out') \<Rightarrow> map_option (\<lambda>out. (err_value Err_ok, out)) (deflate_finish z chunk_size s' [] out'))"

partial_function (option) inflate_chunk ::
  "'z zlib \<Rightarrow> nat \<Rightarrow> nat \<Rightarrow> 'z \<Rightarrow> bytes \<Rightarrow> nat \<Rightarrow> gzip_ostream \<Rightarrow> ((int + int \<times> 'z \<times> nat) \<times> gzip_ostream) option" where
  "inflate_chunk z max_output_sz chunk_size s inp total_out out =
     (case z_inflate z s inp chunk_size of (ret, s', used, w) \<Rightarrow>
        if ret = Z_NEED_DICT \<or> ret = Z_DATA_ERROR \<or> ret = Z_MEM_ERROR then Some (Inl ret, out)
        else let total_out' = total_out + length w in
          if max_output_sz > 0 \<and> total_out' > max_output_sz
          then Some (Inl (err_value Err_max_output_sz_exceeded), out)
          else let out' = out_write out w in
            if \<not> out_good out' then Some (Inl (err_value Err_write_buffer_error), out')
            else if chunk_size - length w = 0
              then inflate_chunk z max_output_sz chunk_size s' (drop used inp) total_out' out'
            else Some (Inr (ret, s', total_out'), out'))"

partial_function (option) inflate_input ::
  "'z zlib \<Rightarrow> nat \<Rightarrow> nat \<Rightarrow> int \<Rightarrow> 'z \<Rightarrow> bytes \<Rightarrow> nat \<Rightarrow> gzip_ostream \<Rightarrow> ((int + int) \<times> gzip_ostream) option" where
  "inflate_input z max_output_sz chunk_size ret s inp total_out out =
     (let buf = take chunk_size inp; eof = (length buf < chunk_size) in
      if length buf \<le> 0 then Some (Inr ret, out)
      else case inflate_chunk z max_output_sz chunk_size s buf total_out out of
             None \<Rightarrow> None
           | Some (Inl e, out') \<Rightarrow> Some (Inl e, out')
           | Some (Inr (ret', s', total_out'), out') \<Rightarrow>
               if eof then Some (Inr ret', out')
               else inflate_input z max_output_sz chunk_size ret' s' (drop chunk_size inp) total_out' out')"

definition gzip_decompress_stream ::
  "'z zlib \<Rightarrow> gzip_ostream \<Rightarrow> bool \<Rightarrow> bytes \<Rightarrow> nat \<Rightarrow> nat \<Rightarrow> (int \<times> gzip_ostream) option" where
  "gzip_decompress_stream z out in_good inp max_output_sz chunk_size =
     (if \<not> in_good \<or> \<not> out_good out then Some (err_value Err_input_invalid, out)
      else case z_inflate_init z GZIP_WINDOW_BITS of (ret, s) \<Rightarrow>
        if ret \<noteq> Z_OK then Some (ret, out)
        else case inflate_input z max_output_sz chunk_size ret s inp 0 out of
               None \<Rightarrow> None
             | Some (Inl e, out') \<Rightarrow> Some (e, out')
             | Some (Inr ret', out') \<Rightarrow> Some (if ret' \<noteq> Z_STREAM_END then ret' else err_value Err_ok, out'))"

subsection \<open>Format\<close>

definition crc32_checksum :: "'z zlib \<Rightarrow> bytes option \<Rightarrow> u32" where
  "crc32_checksum z src =
     (case src of None \<Rightarrow> 0 | Some bs \<Rightarrow> if length bs = 0 then 0 else z_crc32 z 0 (avail_in bs))"

definition is_gzip_format :: "bytes option \<Rightarrow> bool" where
  "is_gzip_format src =
     (case src of None \<Rightarrow> False | Some bs \<Rightarrow> if length bs < 10 then False else bs ! 0 = 0x1f \<and> bs ! 1 = 0x8b)"

end
