(* ===== verification/GzipProps.thy ===== *)
theory GzipProps
  imports Gzip "HOL-Library.Sublist"
begin

text \<open>
  The properties of \<open>src/hj/compress/gzip.hpp\<close>: round trips on buffers and streams relative to what zlib documents
  (locales \<open>zlib_deflate\<close>, \<open>zlib_inflate\<close> and \<open>zlib_contract\<close>), the output limit, which needs no law of zlib,
  and the inputs whose treatment is wrong.
\<close>

lemmas z_codes = Z_OK_def Z_STREAM_END_def Z_NEED_DICT_def Z_STREAM_ERROR_def Z_DATA_ERROR_def Z_MEM_ERROR_def
  Z_BUF_ERROR_def Z_VERSION_ERROR_def

lemma chunk_sz_pos: "0 < chunk_sz"
  by (simp add: chunk_sz_def)

text \<open>A stream that takes everything.\<close>

definition sink :: "gzip_ostream \<Rightarrow> bool" where
  "sink out \<longleftrightarrow> out_good out \<and> (\<forall>bs. out_takes out bs)"

definition wrote :: "gzip_ostream \<Rightarrow> bytes \<Rightarrow> gzip_ostream" where
  "wrote out w = out\<lparr>out_bytes := out_bytes out @ w\<rparr>"

lemma sink_write [simp]: "sink out \<Longrightarrow> out_write out w = wrote out w"
  "sink out \<Longrightarrow> sink (wrote out w)" "sink out \<Longrightarrow> out_good out" "wrote (wrote out v) w = wrote out (v @ w)"
  by (simp_all add: sink_def out_write_def wrote_def)

lemma wrote_Nil [simp]: "wrote out [] = out"
  by (simp add: wrote_def)

section \<open>Compression\<close>

text \<open>
  What zlib documents of \<open>deflate\<close>: \<open>dctx s xs out\<close> says that the stream \<open>s\<close> has taken the text \<open>xs\<close> and given out \<open>out\<close>,
  \<open>ended s xs out\<close> that \<open>out\<close> is complete. A call takes input until it is used up or the output is full; with
  \<open>Z_FINISH\<close> it says \<open>Z_STREAM_END\<close> unless the output is full; there is no \<open>Z_STREAM_ERROR\<close> on a consistent
  stream; and the output still to come is finite (\<open>pending\<close> goes down whenever a buffer is filled). A call
  after the end says \<open>Z_STREAM_END\<close> again.
\<close>

locale zlib_deflate =
  fixes z :: "'z zlib" and lvl mem :: int and dctx ended :: "'z \<Rightarrow> bytes \<Rightarrow> bytes \<Rightarrow> bool" and pending :: "'z \<Rightarrow> bytes \<Rightarrow> nat"
  assumes deflate_init: "\<exists>s. z_deflate_init z lvl GZIP_WINDOW_BITS mem = (Z_OK, s) \<and> dctx s [] []"
    and deflate: "dctx s xs out \<Longrightarrow> 0 < n \<Longrightarrow> z_deflate z s inp n fl = (ret, s', used, w) \<Longrightarrow>
      used \<le> length inp \<and> length w \<le> n \<and> (length w < n \<longrightarrow> used = length inp) \<and>
      (if ret = Z_STREAM_END then fl = Z_FINISH \<and> used = length inp \<and> ended s' (xs @ inp) (out @ w)
       else dctx s' (xs @ take used inp) (out @ w) \<and> ret \<noteq> Z_STREAM_ERROR \<and> (fl = Z_FINISH \<longrightarrow> length w = n)) \<and>
      (length w = n \<longrightarrow> pending s' (drop used inp) < pending s inp)"
    and deflate_ended: "ended s xs out \<Longrightarrow> 0 < n \<Longrightarrow> z_deflate z s [] n Z_FINISH = (Z_STREAM_END, s, 0, [])"
begin

lemma deflateE:
  assumes "dctx s xs out" "0 < n"
  obtains ret s' used w where "z_deflate z s inp n fl = (ret, s', used, w)" "used \<le> length inp" "length w \<le> n"
    "length w < n \<Longrightarrow> used = length inp" "ret = Z_STREAM_END \<Longrightarrow> fl = Z_FINISH \<and> used = length inp \<and> ended s' (xs @ inp) (out @ w)"
    "ret \<noteq> Z_STREAM_END \<Longrightarrow> dctx s' (xs @ take used inp) (out @ w)" "ret \<noteq> Z_STREAM_ERROR"
    "ret \<noteq> Z_STREAM_END \<Longrightarrow> fl = Z_FINISH \<Longrightarrow> length w = n" "length w = n \<Longrightarrow> pending s' (drop used inp) < pending s inp"
proof -
  obtain ret s' used w where r: "z_deflate z s inp n fl = (ret, s', used, w)" by (metis prod_cases4)
  note d = deflate [OF assms r]
  show thesis
    by (rule that [OF r]) (use d in \<open>auto simp: Z_STREAM_END_def Z_STREAM_ERROR_def split: if_splits\<close>)
qed

lemma compress_loop_ended:
  assumes "ended s xs out"
  shows "gzip_compress_loop z s [] out = Some (err_value Err_ok, out)"
  using deflate_ended [OF assms chunk_sz_pos] chunk_sz_pos
  by (subst gzip_compress_loop.simps) (simp add: z_codes)

lemma compress_loop_ok:
  "dctx s xs out \<Longrightarrow> \<exists>cs s'. gzip_compress_loop z s inp out = Some (err_value Err_ok, cs) \<and> ended s' (xs @ inp) cs"
proof (induction "pending s inp" arbitrary: s inp xs out rule: less_induct)
  case less
  obtain ret s' used w where d: "z_deflate z s inp chunk_sz Z_FINISH = (ret, s', used, w)" "used \<le> length inp" "length w \<le> chunk_sz"
    "length w < chunk_sz \<Longrightarrow> used = length inp" "ret = Z_STREAM_END \<Longrightarrow> used = length inp \<and> ended s' (xs @ inp) (out @ w)"
    "ret \<noteq> Z_STREAM_END \<Longrightarrow> dctx s' (xs @ take used inp) (out @ w)" "ret \<noteq> Z_STREAM_ERROR"
    "ret \<noteq> Z_STREAM_END \<Longrightarrow> length w = chunk_sz" "length w = chunk_sz \<Longrightarrow> pending s' (drop used inp) < pending s inp"
    by (rule deflateE [OF less.prems chunk_sz_pos, of inp Z_FINISH]) blast
  show ?case
  proof (cases "ret = Z_STREAM_END")
    case True
    then have e: "used = length inp" "ended s' (xs @ inp) (out @ w)" using d(5) by auto
    then have "gzip_compress_loop z s inp out = Some (err_value Err_ok, out @ w)"
      using d(1,7) True compress_loop_ended [OF e(2)] by (subst gzip_compress_loop.simps) simp
    then show ?thesis using e(2) by blast
  next
    case False
    then have "length w = chunk_sz" "gzip_compress_loop z s inp out = gzip_compress_loop z s' (drop used inp) (out @ w)"
      using d(1,7,8) by (simp, subst gzip_compress_loop.simps) simp
    then show ?thesis using less.hyps [of s' "drop used inp", OF d(9) d(6)] False by simp
  qed
qed

lemma deflate_chunk_ended:
  assumes "ended s xs o0" "0 < n" "sink out"
  shows "deflate_chunk z n Z_FINISH s [] out = Some (Inr s, out)"
  using deflate_ended [OF assms(1,2)] assms(2,3) by (subst deflate_chunk.simps) (simp add: z_codes)

lemma deflate_chunk_ok:
  assumes "dctx s xs o0" "0 < n" "sink out"
  shows "\<exists>s' o'. deflate_chunk z n fl s inp out = Some (Inr s', wrote out o')
    \<and> (if fl = Z_FINISH then ended s' (xs @ inp) (o0 @ o') else dctx s' (xs @ inp) (o0 @ o'))"
  using assms
proof (induction "pending s inp" arbitrary: s inp xs o0 out rule: less_induct)
  case less
  obtain ret s' used w where d: "z_deflate z s inp n fl = (ret, s', used, w)" "used \<le> length inp" "length w \<le> n"
    "length w < n \<Longrightarrow> used = length inp" "ret = Z_STREAM_END \<Longrightarrow> fl = Z_FINISH \<and> used = length inp \<and> ended s' (xs @ inp) (o0 @ w)"
    "ret \<noteq> Z_STREAM_END \<Longrightarrow> dctx s' (xs @ take used inp) (o0 @ w)" "ret \<noteq> Z_STREAM_ERROR"
    "ret \<noteq> Z_STREAM_END \<Longrightarrow> fl = Z_FINISH \<Longrightarrow> length w = n" "length w = n \<Longrightarrow> pending s' (drop used inp) < pending s inp"
    by (rule deflateE [OF less.prems(1,2), of inp fl]) blast
  have step: "deflate_chunk z n fl s inp out =
      (if length w = n then deflate_chunk z n fl s' (drop used inp) (wrote out w) else Some (Inr s', wrote out w))"
    using d(1,3,7) less.prems(3) by (subst deflate_chunk.simps) (simp add: Let_def)
  show ?case
  proof (cases "ret = Z_STREAM_END")
    case True
    then have e: "fl = Z_FINISH" "used = length inp" "ended s' (xs @ inp) (o0 @ w)" using d(5) by auto
    then have "deflate_chunk z n fl s inp out = Some (Inr s', wrote out w)"
      using step deflate_chunk_ended [OF e(3) less.prems(2), of "wrote out w"] less.prems(3) by simp
    then show ?thesis using e(1,3) by auto
  next
    case more: False
    show ?thesis
    proof (cases "length w = n")
      case True
      obtain s'' o' where "deflate_chunk z n fl s' (drop used inp) (wrote out w) = Some (Inr s'', wrote (wrote out w) o')"
        "if fl = Z_FINISH then ended s'' ((xs @ take used inp) @ drop used inp) ((o0 @ w) @ o')
         else dctx s'' ((xs @ take used inp) @ drop used inp) ((o0 @ w) @ o')"
        using less.hyps [OF d(9) [OF True] d(6) [OF more] less.prems(2), of "wrote out w"] less.prems(3) by auto
      then show ?thesis using step True less.prems(3) by auto
    next
      case False
      then show ?thesis using step d(3,4,6,8) more by auto
    qed
  qed
qed

lemma deflate_input_ok:
  assumes "dctx s xs o0" "0 < n" "sink out"
  shows "\<exists>s' o'. deflate_input z n s inp out = Some (Inr s', wrote out o')
    \<and> (dctx s' (xs @ inp) (o0 @ o') \<or> ended s' (xs @ inp) (o0 @ o'))"
  using assms
proof (induction "length inp" arbitrary: s inp xs o0 out rule: less_induct)
  case less
  let ?buf = "take n inp" and ?fl = "if length inp < n then Z_FINISH else Z_NO_FLUSH"
  show ?case
  proof (cases "inp = []")
    case True
    then show ?thesis using less.prems by (subst deflate_input.simps) (auto intro!: exI [of _ s] exI [of _ "[]"])
  next
    case False
    obtain s' o' where c: "deflate_chunk z n ?fl s ?buf out = Some (Inr s', wrote out o')"
      "if ?fl = Z_FINISH then ended s' (xs @ ?buf) (o0 @ o') else dctx s' (xs @ ?buf) (o0 @ o')"
      using deflate_chunk_ok [OF less.prems, of ?fl ?buf] by blast
    show ?thesis
    proof (cases "length inp < n")
      case True
      then show ?thesis using c False less.prems(2) by (subst deflate_input.simps) (auto simp: Let_def)
    next
      case full: False
      obtain s'' o'' where "deflate_input z n s' (drop n inp) (wrote out o') = Some (Inr s'', wrote (wrote out o') o'')"
        "dctx s'' ((xs @ ?buf) @ drop n inp) ((o0 @ o') @ o'') \<or> ended s'' ((xs @ ?buf) @ drop n inp) ((o0 @ o') @ o'')"
        using less.hyps [of "drop n inp" s' "xs @ ?buf" "o0 @ o'" "wrote out o'"] c(2) full False less.prems by auto
      then show ?thesis using c full False less.prems(2,3) by (subst deflate_input.simps) (auto simp: Let_def)
    qed
  qed
qed

lemma deflate_finish_ok:
  assumes "dctx s xs o0 \<or> ended s xs o0" "0 < n" "sink out"
  shows "\<exists>s' o'. deflate_finish z n s [] out = Some (wrote out o') \<and> ended s' xs (o0 @ o')"
  using assms
proof (induction "pending s []" arbitrary: s o0 out rule: less_induct)
  case less
  show ?case
  proof (cases "ended s xs o0")
    case True
    then have "deflate_finish z n s [] out = Some (wrote out [])"
      using deflate_ended [OF True less.prems(2)] less.prems(3) by (subst deflate_finish.simps) simp
    then show ?thesis using True by (metis append_Nil2)
  next
    case False
    then have ctx: "dctx s xs o0" using less.prems(1) by simp
    obtain ret s' used w where d: "z_deflate z s [] n Z_FINISH = (ret, s', used, w)" "ret = Z_STREAM_END \<Longrightarrow> ended s' xs (o0 @ w)"
      "ret \<noteq> Z_STREAM_END \<Longrightarrow> dctx s' xs (o0 @ w)" "ret \<noteq> Z_STREAM_END \<Longrightarrow> length w = n" "length w = n \<Longrightarrow> pending s' [] < pending s []"
      by (rule deflateE [OF ctx less.prems(2), of "[]" Z_FINISH]) auto
    show ?thesis
    proof (cases "ret = Z_STREAM_END")
      case True
      then show ?thesis using d(1,2) less.prems(3) by (subst deflate_finish.simps) auto
    next
      case False
      then obtain s'' o' where "deflate_finish z n s' [] (wrote out w) = Some (wrote (wrote out w) o')" "ended s'' xs ((o0 @ w) @ o')"
        using less.hyps [of s' "o0 @ w" "wrote out w"] d(3,4,5) less.prems(2,3) by auto
      then show ?thesis using d(1) False less.prems(3) by (subst deflate_finish.simps) auto
    qed
  qed
qed

end

section \<open>Decompression\<close>

text \<open>
  What zlib documents of \<open>inflate\<close>: \<open>member xs cs\<close> says that \<open>cs\<close> is a complete gzip member of the text \<open>xs\<close>, \<open>ictx xs cs s fed out\<close>
  that the stream \<open>s\<close> has taken \<open>fed\<close> of it and given out \<open>out\<close>. A call takes input until it is used up or the
  output is full, says \<open>Z_STREAM_END\<close> exactly when all of the text is out, and \<open>Z_OK\<close> when it made progress otherwise.
\<close>

locale zlib_inflate =
  fixes z :: "'z zlib" and member :: "bytes \<Rightarrow> bytes \<Rightarrow> bool" and ictx :: "bytes \<Rightarrow> bytes \<Rightarrow> 'z \<Rightarrow> bytes \<Rightarrow> bytes \<Rightarrow> bool"
  assumes inflate_init: "member xs cs \<Longrightarrow> cs \<noteq> [] \<and> (\<exists>s. z_inflate_init z GZIP_WINDOW_BITS = (Z_OK, s) \<and> ictx xs cs s [] [])"
    and inflate: "ictx xs cs s fed out \<Longrightarrow> prefix (fed @ inp) cs \<Longrightarrow> 0 < n \<Longrightarrow> z_inflate z s inp n = (ret, s', used, w) \<Longrightarrow>
      used \<le> length inp \<and> length w \<le> n \<and> (length w < n \<longrightarrow> used = length inp) \<and>
      ictx xs cs s' (fed @ take used inp) (out @ w) \<and>
      (ret = Z_STREAM_END \<longrightarrow> fed @ inp = cs \<and> used = length inp \<and> out @ w = xs) \<and>
      (fed @ inp = cs \<and> length w < n \<longrightarrow> ret = Z_STREAM_END) \<and>
      (ret \<noteq> Z_STREAM_END \<and> (0 < used \<or> w \<noteq> []) \<longrightarrow> ret = Z_OK) \<and> ret \<noteq> Z_NEED_DICT \<and> ret \<noteq> Z_DATA_ERROR \<and> ret \<noteq> Z_MEM_ERROR"
    and inflate_prefix: "ictx xs cs s fed out \<Longrightarrow> prefix out xs"
begin

lemma inflateE:
  assumes "ictx xs cs s fed out" "prefix (fed @ inp) cs" "0 < n"
  obtains ret s' used w where "z_inflate z s inp n = (ret, s', used, w)" "used \<le> length inp" "length w \<le> n"
    "length w < n \<Longrightarrow> used = length inp" "ictx xs cs s' (fed @ take used inp) (out @ w)"
    "ret = Z_STREAM_END \<Longrightarrow> fed @ inp = cs \<and> used = length inp \<and> out @ w = xs" "fed @ inp = cs \<Longrightarrow> length w < n \<Longrightarrow> ret = Z_STREAM_END"
    "ret \<noteq> Z_STREAM_END \<Longrightarrow> 0 < used \<or> w \<noteq> [] \<Longrightarrow> ret = Z_OK" "ret \<noteq> Z_NEED_DICT" "ret \<noteq> Z_DATA_ERROR" "ret \<noteq> Z_MEM_ERROR"
    "length (out @ w) \<le> length xs"
proof -
  obtain ret s' used w where r: "z_inflate z s inp n = (ret, s', used, w)" by (metis prod_cases4)
  note d = inflate [OF assms r]
  have len: "length (out @ w) \<le> length xs" using d inflate_prefix prefix_length_le by blast
  show thesis by (rule that [OF r]) (use d len in auto)
qed

text \<open>The loop over a whole member, with the limit.\<close>

lemma decompress_loop_ok:
  assumes "ictx xs cs s fed out" "fed @ inp = cs"
  shows "gzip_decompress_loop z limit s inp out =
    Some (if 0 < limit \<and> limit < length xs then (err_value Err_max_output_sz_exceeded, []) else (err_value Err_ok, xs))"
  using assms
proof (induction "length xs - length out" arbitrary: s inp fed out rule: less_induct)
  case less
  have pre: "prefix (fed @ inp) cs" using less.prems(2) by simp
  obtain ret s' used w where d: "z_inflate z s inp chunk_sz = (ret, s', used, w)" "used \<le> length inp" "length w \<le> chunk_sz"
    "ictx xs cs s' (fed @ take used inp) (out @ w)" "ret = Z_STREAM_END \<Longrightarrow> out @ w = xs" "length w < chunk_sz \<Longrightarrow> ret = Z_STREAM_END"
    "ret \<noteq> Z_NEED_DICT" "ret \<noteq> Z_DATA_ERROR" "ret \<noteq> Z_MEM_ERROR" "length (out @ w) \<le> length xs"
    by (rule inflateE [OF less.prems(1) pre chunk_sz_pos]) (use less.prems(2) in blast)
  show ?case
  proof (cases "0 < limit \<and> limit < length (out @ w)")
    case True
    then show ?thesis using d by (subst gzip_decompress_loop.simps) auto
  next
    case small: False
    show ?thesis
    proof (cases "length w = chunk_sz")
      case True
      have "gzip_decompress_loop z limit s' (drop used inp) (out @ w) =
          Some (if 0 < limit \<and> limit < length xs then (err_value Err_max_output_sz_exceeded, []) else (err_value Err_ok, xs))"
        using less.hyps [OF _ d(4), of "drop used inp"] True d(2,10) chunk_sz_pos less.prems(2) by simp
      then show ?thesis using d small True by (subst gzip_decompress_loop.simps) auto
    next
      case False
      then have "ret = Z_STREAM_END" "out @ w = xs" using d(3,5,6) by auto
      then show ?thesis using d small False by (subst gzip_decompress_loop.simps) (auto simp: z_codes)
    qed
  qed
qed

lemma inflate_chunk_ok:
  assumes "ictx xs cs s fed o0" "prefix (fed @ inp) cs" "0 < n" "sink out" "limit = 0 \<or> length xs \<le> limit"
  shows "\<exists>ret s' o'. inflate_chunk z limit n s inp (length o0) out = Some (Inr (ret, s', length (o0 @ o')), wrote out o')
    \<and> ictx xs cs s' (fed @ inp) (o0 @ o') \<and> (fed @ inp = cs \<longrightarrow> ret = Z_STREAM_END \<and> o0 @ o' = xs)
    \<and> (fed @ inp \<noteq> cs \<longrightarrow> length xs < n \<longrightarrow> inp \<noteq> [] \<longrightarrow> ret = Z_OK)"
  using assms
proof (induction "length xs - length o0" arbitrary: s inp fed o0 out rule: less_induct)
  case less
  obtain ret s' used w where d: "z_inflate z s inp n = (ret, s', used, w)" "used \<le> length inp" "length w \<le> n"
    "length w < n \<Longrightarrow> used = length inp" "ictx xs cs s' (fed @ take used inp) (o0 @ w)"
    "ret = Z_STREAM_END \<Longrightarrow> fed @ inp = cs \<and> used = length inp \<and> o0 @ w = xs" "fed @ inp = cs \<Longrightarrow> length w < n \<Longrightarrow> ret = Z_STREAM_END"
    "ret \<noteq> Z_STREAM_END \<Longrightarrow> 0 < used \<or> w \<noteq> [] \<Longrightarrow> ret = Z_OK" "ret \<noteq> Z_NEED_DICT" "ret \<noteq> Z_DATA_ERROR" "ret \<noteq> Z_MEM_ERROR"
    "length (o0 @ w) \<le> length xs"
    by (rule inflateE [OF less.prems(1-3)]) blast
  have step: "inflate_chunk z limit n s inp (length o0) out =
      (if length w = n then inflate_chunk z limit n s' (drop used inp) (length (o0 @ w)) (wrote out w)
       else Some (Inr (ret, s', length (o0 @ w)), wrote out w))"
    using d(1,3,9,10,11,12) less.prems(4,5) by (subst inflate_chunk.simps) (auto simp: Let_def)
  show ?case
  proof (cases "length w = n")
    case True
    have pre: "prefix ((fed @ take used inp) @ drop used inp) cs" using less.prems(2) by simp
    have smaller: "length xs - length (o0 @ w) < length xs - length o0" using True d(12) less.prems(3) by simp
    obtain ret'' s'' o' where "inflate_chunk z limit n s' (drop used inp) (length (o0 @ w)) (wrote out w)
          = Some (Inr (ret'', s'', length ((o0 @ w) @ o')), wrote (wrote out w) o')"
        "ictx xs cs s'' ((fed @ take used inp) @ drop used inp) ((o0 @ w) @ o')"
        "(fed @ take used inp) @ drop used inp = cs \<longrightarrow> ret'' = Z_STREAM_END \<and> (o0 @ w) @ o' = xs"
      using less.hyps [OF smaller d(5) pre less.prems(3) sink_write(2) [OF less.prems(4), of w] less.prems(5)] by blast
    moreover have "\<not> length xs < n" using True d(12) by simp
    ultimately show ?thesis using step True less.prems(4) by (intro exI [of _ ret''] exI [of _ s''] exI [of _ "w @ o'"]) simp
  next
    case False
    then have w: "length w < n" "used = length inp" using d(3,4) by auto
    then have "inflate_chunk z limit n s inp (length o0) out = Some (Inr (ret, s', length (o0 @ w)), wrote out w)"
      "ictx xs cs s' (fed @ inp) (o0 @ w)" using step False d(5) by simp_all
    moreover have "fed @ inp = cs \<Longrightarrow> ret = Z_STREAM_END \<and> o0 @ w = xs" using d(6,7) w by blast
    moreover have "fed @ inp \<noteq> cs \<Longrightarrow> inp \<noteq> [] \<Longrightarrow> ret = Z_OK" using d(6,8) w by auto
    ultimately show ?thesis by blast
  qed
qed

lemma inflate_input_ok:
  assumes "ictx xs cs s fed o0" "prefix (fed @ inp) cs" "0 < n" "sink out" "limit = 0 \<or> length xs \<le> limit" "inp \<noteq> []"
    "fed @ inp = cs \<or> length xs < n"
  shows "\<exists>ret o'. inflate_input z limit n ret0 s inp (length o0) out = Some (Inr ret, wrote out o')
    \<and> (if fed @ inp = cs then ret = Z_STREAM_END \<and> o0 @ o' = xs else ret = Z_OK \<and> prefix (o0 @ o') xs)"
  using assms
proof (induction "length inp" arbitrary: s inp fed o0 out ret0 rule: less_induct)
  case less
  let ?buf = "take n inp"
  have pre: "prefix (fed @ ?buf) cs" using less.prems(2) by (metis append_take_drop_id append_assoc prefix_order.trans prefixI)
  have buf: "?buf \<noteq> []" using less.prems(3,6) by simp
  obtain ret s' o' where c: "inflate_chunk z limit n s ?buf (length o0) out = Some (Inr (ret, s', length (o0 @ o')), wrote out o')"
    "ictx xs cs s' (fed @ ?buf) (o0 @ o')" "fed @ ?buf = cs \<longrightarrow> ret = Z_STREAM_END \<and> o0 @ o' = xs"
    "fed @ ?buf \<noteq> cs \<longrightarrow> length xs < n \<longrightarrow> ret = Z_OK"
    using inflate_chunk_ok [OF less.prems(1) pre less.prems(3-5)] buf by blast
  show ?case
  proof (cases "length inp \<le> n")
    case True
    then have all: "?buf = inp" "drop n inp = []" by simp_all
    have "inflate_input z limit n ret0 s inp (length o0) out = Some (Inr ret, wrote out o')"
    proof -
      have "inflate_input z limit n ret s' [] (length (o0 @ o')) (wrote out o') = Some (Inr ret, wrote out o')"
        by (subst inflate_input.simps) simp
      then show ?thesis using c(1) all less.prems(6) by (subst inflate_input.simps) (simp add: Let_def)
    qed
    moreover have "fed @ inp = cs \<Longrightarrow> ret = Z_STREAM_END \<and> o0 @ o' = xs" "fed @ inp \<noteq> cs \<Longrightarrow> ret = Z_OK \<and> prefix (o0 @ o') xs"
      using c(2,3,4) all(1) less.prems(7) inflate_prefix by auto
    ultimately show ?thesis by (cases "fed @ inp = cs") auto
  next
    case False
    have pre': "prefix ((fed @ ?buf) @ drop n inp) cs" using less.prems(2) by simp
    have smaller: "length (drop n inp) < length inp" "drop n inp \<noteq> []" "(fed @ ?buf) @ drop n inp = cs \<or> length xs < n"
      using False less.prems(3,7) by simp_all
    obtain ret' o'' where "inflate_input z limit n ret s' (drop n inp) (length (o0 @ o')) (wrote out o') = Some (Inr ret', wrote (wrote out o') o'')"
      "if (fed @ ?buf) @ drop n inp = cs then ret' = Z_STREAM_END \<and> (o0 @ o') @ o'' = xs else ret' = Z_OK \<and> prefix ((o0 @ o') @ o'') xs"
      using less.hyps [OF smaller(1) c(2) pre' less.prems(3) sink_write(2) [OF less.prems(4)] less.prems(5) smaller(2,3)] by blast
    then show ?thesis using c(1) False buf less.prems(3,4) by (subst inflate_input.simps) (auto simp: Let_def)
  qed
qed

end

text \<open>What \<open>deflate\<close> has completed, \<open>inflate\<close> understands.\<close>

locale zlib_contract = zlib_deflate z lvl mem dctx ended pending + zlib_inflate z member ictx
  for z :: "'z zlib" and lvl mem dctx ended pending member ictx +
  assumes ended_member: "ended s xs out \<Longrightarrow> member xs out"
begin

lemma compressed:
  assumes "lvl_value l = lvl" "text \<noteq> []"
  shows "\<exists>cs. gzip_compress z dst (Some text) l mem = Some (err_value Err_ok, cs) \<and> member (avail_in text) cs"
proof -
  obtain s where s: "z_deflate_init z lvl GZIP_WINDOW_BITS mem = (Z_OK, s)" "dctx s [] []" using deflate_init by blast
  obtain cs s' where "gzip_compress_loop z s (avail_in text) [] = Some (err_value Err_ok, cs)" "ended s' (avail_in text) cs"
    using compress_loop_ok [OF s(2), of "avail_in text"] by auto
  then show ?thesis using s(1) assms ended_member by (auto simp: gzip_compress_def)
qed

lemma decompressed:
  assumes "member xs cs" "length cs < 2 ^ 32"
  shows "gzip_decompress z dst (Some cs) limit =
    Some (if 0 < limit \<and> limit < length xs then (err_value Err_max_output_sz_exceeded, []) else (err_value Err_ok, xs))"
proof -
  obtain s where "cs \<noteq> []" "z_inflate_init z GZIP_WINDOW_BITS = (Z_OK, s)" "ictx xs cs s [] []" using inflate_init [OF assms(1)] by blast
  then show ?thesis using decompress_loop_ok [of xs cs s "[]" "[]" cs limit] assms(2) by (simp add: gzip_decompress_def avail_in_def)
qed

lemma compressed_stream:
  assumes "lvl_value l = lvl" "0 < n" "sink out"
  shows "\<exists>cs. gzip_compress_stream z out True inp l mem n = Some (err_value Err_ok, wrote out cs) \<and> member inp cs"
proof -
  obtain s where s: "z_deflate_init z lvl GZIP_WINDOW_BITS mem = (Z_OK, s)" "dctx s [] []" using deflate_init by blast
  obtain s' o' where i: "deflate_input z n s inp out = Some (Inr s', wrote out o')" "dctx s' inp o' \<or> ended s' inp o'"
    using deflate_input_ok [OF s(2) assms(2,3), of inp] by auto
  obtain s'' o'' where "deflate_finish z n s' [] (wrote out o') = Some (wrote (wrote out o') o'')" "ended s'' inp (o' @ o'')"
    using deflate_finish_ok [OF i(2) assms(2), of "wrote out o'"] assms(3) by auto
  then show ?thesis using s(1) i(1) assms ended_member by (auto simp: gzip_compress_stream_def)
qed

lemma decompressed_stream:
  assumes "member xs cs" "prefix inp cs" "inp \<noteq> []" "0 < n" "sink out" "limit = 0 \<or> length xs \<le> limit" "inp = cs \<or> length xs < n"
  shows "\<exists>o'. gzip_decompress_stream z out True inp limit n = Some (err_value Err_ok, wrote out o') \<and> prefix o' xs \<and> (inp = cs \<longrightarrow> o' = xs)"
proof -
  obtain s where s: "z_inflate_init z GZIP_WINDOW_BITS = (Z_OK, s)" "ictx xs cs s [] []" using inflate_init [OF assms(1)] by blast
  have pre: "prefix ([] @ inp) cs" "[] @ inp = cs \<or> length xs < n" using assms(2,7) by simp_all
  obtain ret o' where "inflate_input z limit n Z_OK s inp 0 out = Some (Inr ret, wrote out o')"
    "if inp = cs then ret = Z_STREAM_END \<and> o' = xs else ret = Z_OK \<and> prefix o' xs"
    using inflate_input_ok [OF s(2) pre(1) assms(4-6,3) pre(2), of Z_OK] unfolding list.size append_Nil by blast
  then show ?thesis using s(1) assms(5) by (auto simp: gzip_decompress_stream_def z_codes split: if_splits)
qed

lemma truncated:
  assumes "member xs cs" "strict_prefix inp cs" "inp \<noteq> []" "length inp < 2 ^ 32" "length xs < chunk_sz"
  shows "gzip_decompress z dst (Some inp) 0 = Some (err_value Err_ok, [])"
proof -
  obtain s where s: "z_inflate_init z GZIP_WINDOW_BITS = (Z_OK, s)" "ictx xs cs s [] []" using inflate_init [OF assms(1)] by blast
  have pre: "prefix ([] @ inp) cs" "inp \<noteq> cs" using assms(2) by auto
  obtain ret s' used w where d: "z_inflate z s inp chunk_sz = (ret, s', used, w)" "length w < chunk_sz \<Longrightarrow> used = length inp"
    "ret = Z_STREAM_END \<Longrightarrow> inp = cs" "ret \<noteq> Z_STREAM_END \<Longrightarrow> 0 < used \<Longrightarrow> ret = Z_OK" "length w \<le> length xs"
    by (rule inflateE [OF s(2) pre(1) chunk_sz_pos]) auto
  then have "ret = Z_OK" "length w < chunk_sz" using pre(2) assms(3,5) by auto
  then have "gzip_decompress_loop z 0 s inp [] = Some (Z_OK, [])"
    using d(1) by (subst gzip_decompress_loop.simps) (simp add: z_codes)
  then show ?thesis using s(1) assms(3,4) by (simp add: gzip_decompress_def avail_in_def)
qed

end

section \<open>A codec that keeps the laws\<close>

text \<open>Every byte \<open>x\<close> of the text as the pair \<open>1, x\<close>, and \<open>0\<close> at the end; the output that does not fit waits in a queue.\<close>

record pair_state =
  pq_queue :: bytes
  pq_half :: bool
  pq_done :: bool

definition pair_bytes :: "bytes \<Rightarrow> bytes" where
  "pair_bytes xs = concat (map (\<lambda>x. [1, x]) xs)"

fun pair_read :: "bool \<Rightarrow> bytes \<Rightarrow> bytes \<times> bool \<times> bool" where
  "pair_read half [] = ([], half, False)"
| "pair_read True (x # r) = (case pair_read False r of (o', h, d) \<Rightarrow> (x # o', h, d))"
| "pair_read False (x # r) = (if x = 0 then ([], False, True) else pair_read True r)"

definition pair_zlib :: "pair_state zlib" where
  "pair_zlib =
     \<lparr>z_deflate_init = (\<lambda>_ _ _. (Z_OK, \<lparr>pq_queue = [], pq_half = False, pq_done = False\<rparr>)),
      z_deflate = (\<lambda>s inp n fl.
        let q = pq_queue s @ pair_bytes inp in
        if n = 0 then (Z_BUF_ERROR, s, 0, []) else if pq_done s then (Z_STREAM_END, s, 0, [])
        else if fl = Z_FINISH \<and> length q < n then (Z_STREAM_END, s\<lparr>pq_queue := [], pq_done := True\<rparr>, length inp, q @ [0])
        else (Z_OK, s\<lparr>pq_queue := drop n q\<rparr>, length inp, take n q)),
      z_inflate_init = (\<lambda>_. (Z_OK, \<lparr>pq_queue = [], pq_half = False, pq_done = False\<rparr>)),
      z_inflate = (\<lambda>s inp n.
        case (if pq_done s then ([], pq_half s, True) else pair_read (pq_half s) inp) of (o', h, d) \<Rightarrow>
        let q = pq_queue s @ o' in
        (if d \<and> drop n q = [] then Z_STREAM_END else if inp = [] \<and> take n q = [] then Z_BUF_ERROR else Z_OK,
         \<lparr>pq_queue = drop n q, pq_half = h, pq_done = d\<rparr>, length inp, take n q)),
      z_crc32 = (\<lambda>c _. c)\<rparr>"

lemma pair_read_append:
  "pair_read h (xs @ ys) = (case pair_read h xs of (o1, h1, d1) \<Rightarrow>
     if d1 then (o1, h1, True) else case pair_read h1 ys of (o2, h2, d2) \<Rightarrow> (o1 @ o2, h2, d2))"
  by (induction h xs rule: pair_read.induct) (auto split: prod.splits)

lemma pair_bytes_simps [simp]: "pair_bytes [] = []" "pair_bytes (x # xs) = 1 # x # pair_bytes xs"
  "pair_bytes (xs @ ys) = pair_bytes xs @ pair_bytes ys"
  by (simp_all add: pair_bytes_def)

lemma pair_read_prefix:
  "prefix p (pair_bytes xs @ [0]) \<Longrightarrow> pair_read False p = (o', h, d) \<Longrightarrow>
     prefix o' xs \<and> (d \<longleftrightarrow> p = pair_bytes xs @ [0]) \<and> (d \<longrightarrow> o' = xs)"
proof (induction xs arbitrary: p o' h d)
  case Nil
  then show ?case by (cases p) (auto simp: prefix_Cons)
next
  case (Cons x xs)
  then consider "p = []" | "p = [1]" | p' where "p = 1 # x # p'" "prefix p' (pair_bytes xs @ [0])"
    by (auto simp: prefix_Cons)
  then show ?case
  proof cases
    case 3
    then obtain o1 where "pair_read False p' = (o1, h, d)" "o' = x # o1" using Cons.prems(2) by (auto split: prod.splits)
    then show ?thesis using Cons.IH [OF 3(2), of o1 h d] 3(1) by simp
  qed (use Cons.prems in auto)
qed

definition pair_member where
  "pair_member xs cs \<longleftrightarrow> cs = pair_bytes xs @ [0 :: u8]"

definition pair_dctx where
  "pair_dctx s xs out \<longleftrightarrow> \<not> pq_done s \<and> out @ pq_queue s = pair_bytes xs"

definition pair_ended where
  "pair_ended s xs out \<longleftrightarrow> pq_done s \<and> out = pair_bytes xs @ [0]"

definition pair_pending where
  "pair_pending s inp = (if pq_done s then 0 else length (pq_queue s) + length (pair_bytes inp) + 1)"

definition pair_ictx where
  "pair_ictx xs cs s fed out \<longleftrightarrow> pair_member xs cs \<and> prefix fed cs \<and> pair_read False fed = (out @ pq_queue s, pq_half s, pq_done s)"

interpretation pairs: zlib_contract pair_zlib lvl mem pair_dctx pair_ended pair_pending pair_member pair_ictx
  for lvl mem
proof unfold_locales
  show "\<exists>s. z_deflate_init pair_zlib lvl GZIP_WINDOW_BITS mem = (Z_OK, s) \<and> pair_dctx s [] []"
    by (simp add: pair_zlib_def pair_dctx_def)
  show "used \<le> length inp \<and> length w \<le> n \<and> (length w < n \<longrightarrow> used = length inp) \<and>
      (if ret = Z_STREAM_END then fl = Z_FINISH \<and> used = length inp \<and> pair_ended s' (xs @ inp) (out @ w)
       else pair_dctx s' (xs @ take used inp) (out @ w) \<and> ret \<noteq> Z_STREAM_ERROR \<and> (fl = Z_FINISH \<longrightarrow> length w = n)) \<and>
      (length w = n \<longrightarrow> pair_pending s' (drop used inp) < pair_pending s inp)"
    if "pair_dctx s xs out" "0 < n" "z_deflate pair_zlib s inp n fl = (ret, s', used, w)" for s xs out n inp fl ret s' used w
  proof -
    have q: "out @ pq_queue s @ pair_bytes inp = pair_bytes (xs @ inp)" "\<not> pq_done s"
      using that(1) by (simp_all add: pair_dctx_def flip: append_assoc)
    then show ?thesis
      using that(2,3) by (auto simp: pair_zlib_def pair_dctx_def pair_ended_def pair_pending_def Let_def z_codes
          simp del: take_append drop_append pair_bytes_simps(3) split: if_splits)
  qed
  show "z_deflate pair_zlib s [] n Z_FINISH = (Z_STREAM_END, s, 0, [])" if "pair_ended s xs out" "0 < n" for s xs out n
    using that by (simp add: pair_zlib_def pair_ended_def)
  show "cs \<noteq> [] \<and> (\<exists>s. z_inflate_init pair_zlib GZIP_WINDOW_BITS = (Z_OK, s) \<and> pair_ictx xs cs s [] [])" if "pair_member xs cs" for xs cs
    using that by (simp add: pair_zlib_def pair_ictx_def pair_member_def)
  show "prefix out xs" if "pair_ictx xs cs s fed out" for xs cs s fed out
    using that pair_read_prefix [of fed xs] by (auto simp: pair_ictx_def pair_member_def intro: append_prefixD)
  show "pair_member xs out" if "pair_ended s xs out" for s xs out
    using that by (simp add: pair_member_def pair_ended_def)
  show "used \<le> length inp \<and> length w \<le> n \<and> (length w < n \<longrightarrow> used = length inp) \<and>
      pair_ictx xs cs s' (fed @ take used inp) (out @ w) \<and>
      (ret = Z_STREAM_END \<longrightarrow> fed @ inp = cs \<and> used = length inp \<and> out @ w = xs) \<and>
      (fed @ inp = cs \<and> length w < n \<longrightarrow> ret = Z_STREAM_END) \<and>
      (ret \<noteq> Z_STREAM_END \<and> (0 < used \<or> w \<noteq> []) \<longrightarrow> ret = Z_OK) \<and> ret \<noteq> Z_NEED_DICT \<and> ret \<noteq> Z_DATA_ERROR \<and> ret \<noteq> Z_MEM_ERROR"
    if a: "pair_ictx xs cs s fed out" "prefix (fed @ inp) cs" "0 < n" "z_inflate pair_zlib s inp n = (ret, s', used, w)"
    for xs cs s fed out inp n ret s' used w
  proof -
    obtain o' h d where r: "(if pq_done s then ([], pq_half s, True) else pair_read (pq_half s) inp) = (o', h, d)" by (metis prod_cases3)
    have read: "pair_read False (fed @ inp) = ((out @ pq_queue s) @ o', h, d)"
      using a(1) r by (auto simp: pair_ictx_def pair_read_append split: if_splits)
    have all: "prefix ((out @ pq_queue s) @ o') xs" "d \<longleftrightarrow> fed @ inp = cs" "d \<longrightarrow> (out @ pq_queue s) @ o' = xs"
      using pair_read_prefix [OF _ read, of xs] a(1,2) by (auto simp: pair_ictx_def pair_member_def)
    define q where "q = pq_queue s @ o'"
    have res: "w = take n q" "used = length inp" "s' = \<lparr>pq_queue = drop n q, pq_half = h, pq_done = d\<rparr>"
      "ret = (if d \<and> drop n q = [] then Z_STREAM_END else if inp = [] \<and> take n q = [] then Z_BUF_ERROR else Z_OK)"
      using a(4) unfolding pair_zlib_def Let_def zlib.select_convs r prod.case q_def [symmetric] by simp_all
    have "pair_ictx xs cs s' (fed @ inp) (out @ w)"
      using a(1,2) read res by (simp add: pair_ictx_def q_def del: take_append drop_append)
    moreover have "out @ w = xs" if "d" "drop n q = []" using that all(3) res(1) by (simp add: q_def)
    ultimately show ?thesis using res all(2) by (auto simp: z_codes split: if_splits)
  qed
qed

lemma pair_compress:
  assumes "avail_in src = xs" "src \<noteq> []" "length (pair_bytes xs) + 1 < chunk_sz"
  shows "gzip_compress pair_zlib dst (Some src) l mem = Some (err_value Err_ok, pair_bytes xs @ [0])"
proof -
  let ?s = "\<lparr>pq_queue = [], pq_half = False, pq_done = False\<rparr>"
  have "gzip_compress_loop pair_zlib ?s xs [] = Some (err_value Err_ok, pair_bytes xs @ [0])"
    using assms(3) by (subst gzip_compress_loop.simps) (simp add: pair_zlib_def chunk_sz_def z_codes)
  moreover have "z_deflate_init pair_zlib (lvl_value l) GZIP_WINDOW_BITS mem = (Z_OK, ?s)" by (simp add: pair_zlib_def)
  ultimately show ?thesis using assms(1,2) by (simp add: gzip_compress_def)
qed

section \<open>The output limit\<close>

lemma decompress_loop_limited:
  assumes "gzip_decompress_loop z limit s inp dst = Some r" "0 < limit"
  shows "length (snd r) \<le> limit"
proof -
  have "\<forall>e d. r = (e, d) \<longrightarrow> 0 < limit \<longrightarrow> length d \<le> limit"
    by (rule gzip_decompress_loop.raw_induct [OF _ assms(1)]) (auto split: prod.splits if_splits)
  then show ?thesis using assms(2) by (cases r) simp
qed

lemma out_write_length: "length (out_bytes (out_write out w)) \<le> length (out_bytes out) + length w"
  by (simp add: out_write_def)

text \<open>What an inner loop that starts within the limit may give: \<open>base\<close> bytes were in the stream before.\<close>

definition chunk_within :: "nat \<Rightarrow> nat \<Rightarrow> (int + int \<times> 'z \<times> nat) \<times> gzip_ostream \<Rightarrow> bool" where
  "chunk_within base limit r \<longleftrightarrow>
     (case r of (Inl e, out) \<Rightarrow> length (out_bytes out) \<le> base + limit
      | (Inr (ret, s, n), out) \<Rightarrow> n \<le> limit \<and> length (out_bytes out) \<le> base + n)"

lemma inflate_chunk_limited:
  assumes "inflate_chunk z limit n s inp tot out = Some r"
  shows "0 < limit \<and> tot \<le> limit \<and> length (out_bytes out) \<le> base + tot \<longrightarrow> chunk_within base limit r"
proof (rule inflate_chunk.raw_induct [OF _ assms])
  fix f and z :: "'a zlib" and limit n s inp tot out r
  assume IH: "\<And>z limit n s inp tot out r. f z limit n s inp tot out = Some r \<Longrightarrow>
      0 < limit \<and> tot \<le> limit \<and> length (out_bytes out) \<le> base + tot \<longrightarrow> chunk_within base limit r"
    and r: "(case z_inflate z s inp n of (ret, s', used, w) \<Rightarrow>
        if ret = Z_NEED_DICT \<or> ret = Z_DATA_ERROR \<or> ret = Z_MEM_ERROR then Some (Inl ret, out)
        else let total_out' = tot + length w in
          if limit > 0 \<and> total_out' > limit then Some (Inl (err_value Err_max_output_sz_exceeded), out)
          else let out' = out_write out w in
            if \<not> out_good out' then Some (Inl (err_value Err_write_buffer_error), out')
            else if n - length w = 0 then f z limit n s' (drop used inp) total_out' out'
            else Some (Inr (ret, s', total_out'), out')) = Some r"
  obtain ret s' used w where z: "z_inflate z s inp n = (ret, s', used, w)" by (metis prod_cases4)
  have len: "length (out_bytes (out_write out w)) \<le> base + (tot + length w)" if "length (out_bytes out) \<le> base + tot"
    using out_write_length [of out w] that by simp
  show "0 < limit \<and> tot \<le> limit \<and> length (out_bytes out) \<le> base + tot \<longrightarrow> chunk_within base limit r"
  proof (cases "ret = Z_NEED_DICT \<or> ret = Z_DATA_ERROR \<or> ret = Z_MEM_ERROR \<or> limit < tot + length w \<or> n - length w \<noteq> 0 \<or> \<not> out_good (out_write out w)")
    case True
    then show ?thesis using r len unfolding z by (auto simp: Let_def chunk_within_def split: if_splits)
  next
    case False
    then have "f z limit n s' (drop used inp) (tot + length w) (out_write out w) = Some r" using r unfolding z by (simp add: Let_def)
    from IH [OF this] show ?thesis using False len by auto
  qed
qed

lemma inflate_input_limited:
  assumes "inflate_input z limit n ret s inp tot out = Some r"
  shows "0 < limit \<and> tot \<le> limit \<and> length (out_bytes out) \<le> base + tot \<longrightarrow> length (out_bytes (snd r)) \<le> base + limit"
proof (rule inflate_input.raw_induct [OF _ assms])
  fix f and z :: "'a zlib" and limit n ret s inp tot out r
  assume IH: "\<And>z limit n ret s inp tot out r. f z limit n ret s inp tot out = Some r \<Longrightarrow>
      0 < limit \<and> tot \<le> limit \<and> length (out_bytes out) \<le> base + tot \<longrightarrow> length (out_bytes (snd r)) \<le> base + limit"
    and r: "(let buf = take n inp; eof = (length buf < n) in
      if length buf \<le> 0 then Some (Inr ret, out)
      else case inflate_chunk z limit n s buf tot out of
             None \<Rightarrow> None
           | Some (Inl e, out') \<Rightarrow> Some (Inl e, out')
           | Some (Inr (ret', s', total_out'), out') \<Rightarrow>
               if eof then Some (Inr ret', out') else f z limit n ret' s' (drop n inp) total_out' out') = Some r"
  show "0 < limit \<and> tot \<le> limit \<and> length (out_bytes out) \<le> base + tot \<longrightarrow> length (out_bytes (snd r)) \<le> base + limit"
  proof (cases "inflate_chunk z limit n s (take n inp) tot out")
    case None
    then show ?thesis using r by (auto simp: Let_def split: if_splits)
  next
    case (Some c)
    consider e out' where "c = (Inl e, out')" | ret' s' tot' out' where "c = (Inr (ret', s', tot'), out')"
      by (metis sum.exhaust prod_cases3 surj_pair)
    then show ?thesis
    proof cases
      case 1
      then show ?thesis
        using r Some inflate_chunk_limited [OF Some, of base] by (auto simp: Let_def chunk_within_def split: if_splits)
    next
      case 2
      have "length (out_bytes (snd r)) \<le> base + limit" if "0 < limit" "tot' \<le> limit" "length (out_bytes out') \<le> base + tot'" "take n inp \<noteq> []"
      proof (cases "length (take n inp) < n")
        case True
        then show ?thesis using r Some 2 that by (auto simp: Let_def split: if_splits)
      next
        case False
        then have "f z limit n ret' s' (drop n inp) tot' out' = Some r" using r Some 2 that(4) by (auto simp: Let_def split: if_splits)
        from IH [OF this] show ?thesis using that(1-3) by simp
      qed
      then show ?thesis
        using r inflate_chunk_limited [OF Some, of base] 2 by (cases "take n inp = []") (auto simp: chunk_within_def)
    qed
  qed
qed

text \<open>Divergence: a loop that gives itself the same arguments has no result.\<close>

lemma deflate_finish_stuck:
  assumes "z_deflate z s [] n Z_FINISH = (ret, s, 0, [])" "ret \<noteq> Z_STREAM_END"
  shows "deflate_finish z n s [] out = None"
proof (rule ccontr)
  assume "deflate_finish z n s [] out \<noteq> None"
  then obtain r where r: "deflate_finish z n s [] out = Some r" by blast
  have "inp = [] \<longrightarrow> z_deflate z s inp n Z_FINISH = (ret, s, 0, []) \<longrightarrow> False" if "deflate_finish z n s inp out = Some r" for z :: "'a zlib" and n s inp out r
    by (rule deflate_finish.raw_induct [OF _ that]) (use assms(2) in \<open>auto split: prod.splits if_splits\<close>)
  from this [OF r] show False using assms(1) by simp
qed

section \<open>Properties\<close>

text \<open>For every text of less than 4 GiB \<open>compress\<close> ends and succeeds, and \<open>decompress\<close> gives the text back, unless
  it is longer than the limit that the caller sets; then the limit is reported and nothing is given out.\<close>

theorem gzip_roundtrip:
  assumes zlib: "zlib_contract z (lvl_value l) mem dctx ended pending member ictx" and "src \<noteq> []" "length src < 2 ^ 32"
  shows "\<exists>cs. gzip_compress z dst (Some src) l mem = Some (err_value Err_ok, cs) \<and>
    (length cs < 2 ^ 32 \<longrightarrow> gzip_decompress z dst' (Some cs) limit =
       Some (if 0 < limit \<and> limit < length src then (err_value Err_max_output_sz_exceeded, []) else (err_value Err_ok, src)))"
  using zlib_contract.compressed [OF zlib refl assms(2), of dst] zlib_contract.decompressed [OF zlib, of src _ dst' limit] assms(3)
  by (auto simp: avail_in_def)

theorem gzip_roundtrip_witness:
  "gzip_decompress pair_zlib [] (Some [1, 1, 1, 2, 1, 3, 0]) 2 = Some (err_value Err_max_output_sz_exceeded, [])"
proof -
  have "gzip_compress pair_zlib [] (Some [1, 2, 3]) Best_speed 8 = Some (err_value Err_ok, [1, 1, 1, 2, 1, 3, 0])"
    using pair_compress [of "[1, 2, 3]" "[1, 2, 3]" "[]" Best_speed 8] by (simp add: avail_in_def chunk_sz_def)
  then show ?thesis
    using gzip_roundtrip [OF pairs.zlib_contract_axioms, of "[1, 2, 3]" "[]" Best_speed 8 "[]" 2] by simp
qed

text \<open>C25. On streams the round trip holds for texts of every length, the empty one included, for all sizes of the chunks on
  either side; both loops end, and the bytes go behind what the outputs held.\<close>

theorem gzip_stream_roundtrip:
  assumes zlib: "zlib_contract z (lvl_value l) mem dctx ended pending member ictx"
    and "0 < n" "0 < m" "sink out" "sink out'" "limit = 0 \<or> length src \<le> limit"
  shows "\<exists>cs. gzip_compress_stream z out True src l mem n = Some (err_value Err_ok, wrote out cs) \<and>
    gzip_decompress_stream z out' True cs limit m = Some (err_value Err_ok, wrote out' src)"
proof -
  obtain cs where cs: "gzip_compress_stream z out True src l mem n = Some (err_value Err_ok, wrote out cs)" "member src cs"
    using zlib_contract.compressed_stream [OF zlib refl assms(2,4)] by blast
  have "cs \<noteq> []" using zlib_inflate.inflate_init [OF zlib_contract.axioms(2) [OF zlib] cs(2)] by simp
  then show ?thesis
    using cs zlib_contract.decompressed_stream [OF zlib cs(2), of cs m out' limit] assms(3,5,6) by auto
qed

theorem gzip_stream_roundtrip_witness:
  "\<exists>cs. gzip_compress_stream pair_zlib \<lparr>out_bytes = [9], out_good = True, out_takes = \<lambda>_. True\<rparr> True [] Best_speed 8 5
      = Some (err_value Err_ok, wrote \<lparr>out_bytes = [9], out_good = True, out_takes = \<lambda>_. True\<rparr> cs) \<and>
    gzip_decompress_stream pair_zlib \<lparr>out_bytes = [], out_good = True, out_takes = \<lambda>_. True\<rparr> True cs 0 1
      = Some (err_value Err_ok, wrote \<lparr>out_bytes = [], out_good = True, out_takes = \<lambda>_. True\<rparr> [])"
  by (rule gzip_stream_roundtrip [OF pairs.zlib_contract_axioms]) (simp_all add: sink_def)

text \<open>C26. The output limit holds whatever zlib answers: a decompression that succeeds has at most \<open>max_output_sz\<close> bytes, and
  the stream version never writes more, even when it fails.\<close>

theorem gzip_output_limited:
  assumes "0 < limit"
  shows "(gzip_decompress z dst (Some src) limit = Some (err_value Err_ok, d) \<longrightarrow> length d \<le> limit) \<and>
    (gzip_decompress_stream z out in_good inp limit n = Some (e, out') \<longrightarrow> length (out_bytes out') \<le> length (out_bytes out) + limit)"
proof (intro conjI impI)
  assume "gzip_decompress z dst (Some src) limit = Some (err_value Err_ok, d)"
  then show "length d \<le> limit"
    using decompress_loop_limited [OF _ assms] by (fastforce simp: gzip_decompress_def z_codes split: if_splits prod.splits)
next
  assume r: "gzip_decompress_stream z out in_good inp limit n = Some (e, out')"
  obtain ret s where i: "z_inflate_init z GZIP_WINDOW_BITS = (ret, s)" by (metis surj_pair)
  show "length (out_bytes out') \<le> length (out_bytes out) + limit"
  proof (cases "inflate_input z limit n ret s inp 0 out")
    case None
    then show ?thesis using r i by (auto simp: gzip_decompress_stream_def split: if_splits)
  next
    case (Some c)
    then show ?thesis
      using r i inflate_input_limited [OF Some, of "length (out_bytes out)"] assms
      by (cases c; cases "fst c") (auto simp: gzip_decompress_stream_def split: if_splits)
  qed
qed

theorem gzip_output_limited_witness:
  "gzip_decompress pair_zlib [] (Some [1, 1, 1, 2, 0]) 2 = Some (err_value Err_ok, [1, 2]) \<and> length [1 :: u8, 2] \<le> 2"
proof -
  have "gzip_decompress pair_zlib [] (Some [1, 1, 1, 2, 0]) 2 = Some (err_value Err_ok, [1, 2])"
    using pairs.decompressed [of "[1, 2]" "[1, 1, 1, 2, 0]" "[]" 2] by (simp add: pair_member_def)
  then show ?thesis using conjunct1 [OF gzip_output_limited [of 2 pair_zlib "[]" "[1, 1, 1, 2, 0]" "[1, 2]"]] by simp
qed

text \<open>The sizes of the input are cast to 32 bits: of a text of 4 GiB or more \<open>compress\<close> takes only the first
  \<open>src_sz mod 2 ^ 32\<close> bytes, reports success, and the rest is lost.\<close>

theorem gzip_large_text_cut:
  assumes zlib: "zlib_contract z (lvl_value l) mem dctx ended pending member ictx" and "2 ^ 32 \<le> length src"
  shows "\<exists>cs. gzip_compress z dst (Some src) l mem = Some (err_value Err_ok, cs) \<and>
    (length cs < 2 ^ 32 \<longrightarrow> gzip_decompress z dst' (Some cs) 0 = Some (err_value Err_ok, take (length src mod 2 ^ 32) src))"
proof -
  have "src \<noteq> []" using assms(2) by auto
  then obtain cs where "gzip_compress z dst (Some src) l mem = Some (err_value Err_ok, cs)" "member (avail_in src) cs"
    using zlib_contract.compressed [OF zlib refl] by blast
  then show ?thesis using zlib_contract.decompressed [OF zlib, of _ cs dst' 0] by (auto simp: avail_in_def)
qed

theorem gzip_large_text_cut_witness:
  "gzip_decompress pair_zlib [] (Some [1, 7, 0]) 0 = Some (err_value Err_ok, [7])"
proof -
  let ?src = "replicate (2 ^ 32 + 1) 7 :: bytes"
  have cut: "length ?src = 2 ^ 32 + 1" "take (length ?src mod 2 ^ 32) ?src = [7]" by simp_all
  have "avail_in ?src = [7]" "?src \<noteq> []" using cut(1) unfolding avail_in_def cut(2) by auto
  then have "gzip_compress pair_zlib [] (Some ?src) Best_speed 8 = Some (err_value Err_ok, [1, 7, 0])"
    using pair_compress [of ?src "[7]" "[]" Best_speed 8] by (simp add: chunk_sz_def)
  then show ?thesis
    using gzip_large_text_cut [OF pairs.zlib_contract_axioms, of ?src "[]" Best_speed 8 "[]"] unfolding cut(2) by simp
qed

text \<open>An input that ends before the gzip member does is not noticed: \<open>decompress\<close> casts the \<open>Z_OK\<close> of the last call to
  its own \<open>ok\<close>. The buffer version then gives out nothing, the stream version the part of the text it has
  seen.\<close>

theorem gzip_truncated_input_ok:
  assumes zlib: "zlib_contract z lvl mem dctx ended pending member ictx"
    and "member src cs" "strict_prefix inp cs" "inp \<noteq> []" "length inp < 2 ^ 32" "length src < chunk_sz" "sink out"
  shows "gzip_decompress z dst (Some inp) 0 = Some (err_value Err_ok, []) \<and>
    (\<exists>part. gzip_decompress_stream z out True inp 0 chunk_sz = Some (err_value Err_ok, wrote out part) \<and> prefix part src)"
  using zlib_contract.truncated [OF zlib assms(2-6)] zlib_contract.decompressed_stream [OF zlib assms(2) prefix_order.less_imp_le [OF assms(3)] assms(4) chunk_sz_pos assms(7), of 0] assms(6)
  by auto

theorem gzip_truncated_input_ok_witness:
  "gzip_decompress pair_zlib [4] (Some [1, 1, 1]) 0 = Some (err_value Err_ok, [])"
  using gzip_truncated_input_ok [OF pairs.zlib_contract_axioms, of "[1, 2]" "[1, 1, 1, 2, 0]" "[1, 1, 1]"
      "\<lparr>out_bytes = [], out_good = True, out_takes = \<lambda>_. True\<rparr>" "[4]"]
  by (simp add: pair_member_def strict_prefix_def sink_def chunk_sz_def)

text \<open>With a chunk size of zero \<open>compress\<close> on streams never returns: no call can make progress, and the last loop waits
  for \<open>Z_STREAM_END\<close> only.\<close>

theorem gzip_chunk_zero_diverges:
  assumes "z_deflate_init z (lvl_value l) GZIP_WINDOW_BITS mem = (Z_OK, s)" "z_deflate z s [] 0 Z_FINISH = (Z_BUF_ERROR, s, 0, [])" "out_good out"
  shows "gzip_compress_stream z out True inp l mem 0 = None"
proof -
  have "deflate_input z 0 s inp out = Some (Inr s, out)" by (subst deflate_input.simps) simp
  moreover have "deflate_finish z 0 s [] out = None" using deflate_finish_stuck [OF assms(2)] by (simp add: z_codes)
  ultimately show ?thesis using assms(1,3) by (simp add: gzip_compress_stream_def)
qed

theorem gzip_chunk_zero_diverges_witness:
  "gzip_compress_stream pair_zlib \<lparr>out_bytes = [], out_good = True, out_takes = \<lambda>_. True\<rparr> True [1, 2] Best_speed 8 0 = None"
  by (rule gzip_chunk_zero_diverges [where s = "\<lparr>pq_queue = [], pq_half = False, pq_done = False\<rparr>"]) (simp_all add: pair_zlib_def)

text \<open>The values of the error codes are distinct, except that \<open>input_invalid\<close>, which is numbered after
  \<open>stream_end\<close>, has the value of \<open>need_dict\<close>: a caller cannot tell a missing input from a missing
  dictionary.\<close>

theorem gzip_error_values:
  "err_value a = err_value b \<longleftrightarrow>
     a = b \<or> (a = Err_input_invalid \<and> b = Err_need_dict) \<or> (a = Err_need_dict \<and> b = Err_input_invalid)"
  by (cases a; cases b) (simp_all add: z_codes)

end
