(* ===== verification/License.thy ===== *)
theory License
  imports StringUtil
begin

text \<open>
  \<open>src/hj/util/license.hpp\<close>: licences as signed JSON web tokens, with an issuer that hands out a limited number of
  them and a verifier.

  The package jwt-cpp is a parameter: a record \<open>jwt\<close> with one function per call, on abstract builders, decoded tokens
  and algorithms. A call that throws gives \<open>Inl\<close>. Times are nanoseconds since the epoch, the unit of
  \<open>std::chrono::system_clock\<close>, in 64 bits. \<open>std::error_code\<close> is \<open>lic_err\<close>: no error, an error of the category
  \<open>license\<close>, or one of jwt-cpp's.
\<close>

section \<open>Definitions\<close>

subsection \<open>Errors\<close>

datatype lic_code =
    Ok_code | Err_start | Invalid_times | Claim_mismatch | Keys_not_changed | Keys_not_enough | File_not_exist
  | Input_invalid | Output_invalid | Invalid_algorithm | Crypto_error | System_call_failed
  | Insufficient_permissions | Network_error | Timeout_error | Memory_allocation_failed | Invalid_configuration
  | Parse_license_info_failed

datatype lic_err = No_error | License_error lic_code | Jwt_error int

fun lic_message :: "lic_code \<Rightarrow> string" where
  "lic_message Ok_code = ''Ok''"
| "lic_message Invalid_times = ''Invalid time configuration''"
| "lic_message Claim_mismatch = ''License claim verification failed''"
| "lic_message Keys_not_changed = ''Cryptographic keys unchanged''"
| "lic_message Keys_not_enough = ''Insufficient cryptographic keys''"
| "lic_message File_not_exist = ''License file not found''"
| "lic_message Input_invalid = ''Invalid input stream''"
| "lic_message Output_invalid = ''Invalid output stream''"
| "lic_message Invalid_algorithm = ''Unsupported cryptographic algorithm''"
| "lic_message Crypto_error = ''Cryptographic operation failed''"
| "lic_message System_call_failed = ''System call failed''"
| "lic_message Insufficient_permissions = ''Insufficient permissions''"
| "lic_message Network_error = ''Network operation failed''"
| "lic_message Timeout_error = ''Operation timeout''"
| "lic_message Memory_allocation_failed = ''Memory allocation failed''"
| "lic_message Invalid_configuration = ''Invalid configuration''"
| "lic_message Parse_license_info_failed = ''Failed to parse license information''"
| "lic_message Err_start = ''Unknown error''"

datatype sign_algo = Sign_none | Sign_rsa256

definition JWT_TYPE :: string where
  "JWT_TYPE = ''JWT''"

text \<open>\<open>jwt_payload\<close> lists the payload in the order of its iteration: for every key the text of a string value, if it
  is one, and the dump of the value.\<close>

record ('b, 'd, 'g) jwt =
  jwt_create :: 'b
  jwt_set_type :: "string \<Rightarrow> 'b \<Rightarrow> 'b"
  jwt_set_issuer :: "string \<Rightarrow> 'b \<Rightarrow> 'b"
  jwt_set_audience :: "string \<Rightarrow> 'b \<Rightarrow> 'b"
  jwt_set_issued_at :: "int \<Rightarrow> 'b \<Rightarrow> 'b"
  jwt_set_expires_at :: "int \<Rightarrow> 'b \<Rightarrow> 'b"
  jwt_set_payload_claim :: "string \<Rightarrow> string \<Rightarrow> 'b \<Rightarrow> 'b"
  jwt_none :: 'g
  jwt_rs256 :: "string \<Rightarrow> string \<Rightarrow> string \<Rightarrow> string \<Rightarrow> 'g result"
  jwt_sign :: "'b \<Rightarrow> 'g \<Rightarrow> int \<times> string"
  jwt_decode :: "string \<Rightarrow> 'd result"
  jwt_verify :: "string \<Rightarrow> string \<Rightarrow> string \<Rightarrow> nat \<Rightarrow> 'g \<Rightarrow> int \<Rightarrow> 'd \<Rightarrow> int"
  jwt_claim :: "'d \<Rightarrow> string \<Rightarrow> string result"
  jwt_get_issuer :: "'d \<Rightarrow> string result"
  jwt_get_issued_at :: "'d \<Rightarrow> int result"
  jwt_get_expires_at :: "'d \<Rightarrow> int result"
  jwt_get_audience :: "'d \<Rightarrow> string list result"
  jwt_payload :: "'d \<Rightarrow> (string \<times> string option \<times> string) list"

subsection \<open>Tokens\<close>

definition in_int64 :: "int \<Rightarrow> bool" where
  "in_int64 i \<longleftrightarrow> - (2 ^ 63) \<le> i \<and> i < 2 ^ 63"

text \<open>\<open>issue_tm + std::chrono::seconds(valid_secs)\<close>\<close>

definition expires_at :: "int \<Rightarrow> nat \<Rightarrow> int result" where
  "expires_at issue_tm valid_secs =
     (let ns = sint (of_nat valid_secs :: u64) * 10 ^ 9 in
      if \<not> in_int64 ns \<or> \<not> in_int64 (issue_tm + ns) then Inl Signed_overflow else Inr (issue_tm + ns))"

definition key_at :: "string list \<Rightarrow> nat \<Rightarrow> string" where
  "key_at keys i = (if length keys > i then keys ! i else '''')"

definition to_lic_err :: "int \<Rightarrow> lic_err" where
  "to_lic_err ec = (if ec = 0 then No_error else Jwt_error ec)"

text \<open>The error and the token afterwards.\<close>

definition license_builder ::
  "('b, 'd, 'g) jwt \<Rightarrow> string \<Rightarrow> string \<Rightarrow> int \<Rightarrow> int \<Rightarrow> (string \<times> string) list \<Rightarrow> 'b" where
  "license_builder j issuer licensee issue_tm expiry claims =
     fold (\<lambda>p. jwt_set_payload_claim j (fst p) (snd p)) claims
       (jwt_set_expires_at j expiry (jwt_set_issued_at j issue_tm (jwt_set_audience j licensee
         (jwt_set_issuer j issuer (jwt_set_type j JWT_TYPE (jwt_create j))))))"

definition license_issue ::
  "('b, 'd, 'g) jwt \<Rightarrow> string \<Rightarrow> string \<Rightarrow> string \<Rightarrow> int \<Rightarrow> nat \<Rightarrow> sign_algo \<Rightarrow> string list \<Rightarrow> (string \<times> string) list
   \<Rightarrow> (lic_err \<times> string) result" where
  "license_issue j token issuer licensee issue_tm valid_secs algo keys claims =
     (case expires_at issue_tm valid_secs of
        Inl fault \<Rightarrow> Inl fault
      | Inr expiry \<Rightarrow>
          let lic = license_builder j issuer licensee issue_tm expiry claims in
          case algo of
            Sign_rsa256 \<Rightarrow>
              if length keys < 2 then Inr (License_error Keys_not_enough, token)
              else (case jwt_rs256 j (keys ! 0) (keys ! 1) (key_at keys 2) (key_at keys 3) of
                      Inl fault \<Rightarrow> Inl fault
                    | Inr g \<Rightarrow> (case jwt_sign j lic g of (ec, t) \<Rightarrow> Inr (to_lic_err ec, t)))
          | Sign_none \<Rightarrow> (case jwt_sign j lic (jwt_none j) of (ec, t) \<Rightarrow> Inr (to_lic_err ec, t)))"

fun check_claims :: "('b, 'd, 'g) jwt \<Rightarrow> 'd \<Rightarrow> (string \<times> string) list \<Rightarrow> lic_err result" where
  "check_claims j d [] = Inr No_error"
| "check_claims j d ((k, v) # claims) =
     (case jwt_claim j d k of
        Inl fault \<Rightarrow> Inl fault
      | Inr s \<Rightarrow> if s \<noteq> v then Inr (License_error Claim_mismatch) else check_claims j d claims)"

text \<open>\<open>now\<close> is what the verifier's clock shows.\<close>

definition license_verify ::
  "('b, 'd, 'g) jwt \<Rightarrow> int \<Rightarrow> string \<Rightarrow> string \<Rightarrow> string \<Rightarrow> sign_algo \<Rightarrow> string list \<Rightarrow> (string \<times> string) list \<Rightarrow> nat
   \<Rightarrow> lic_err result" where
  "license_verify j now token issuer licensee algo keys claims leeway_secs =
     (case jwt_decode j token of
        Inl fault \<Rightarrow> Inl fault
      | Inr decoded \<Rightarrow>
          let checked = (\<lambda>g. let ec = jwt_verify j JWT_TYPE issuer licensee leeway_secs g now decoded in
                             if ec \<noteq> 0 then Inr (Jwt_error ec) else check_claims j decoded claims) in
          case algo of
            Sign_rsa256 \<Rightarrow>
              if length keys < 1 then Inr (License_error Keys_not_enough)
              else (case jwt_rs256 j (keys ! 0) (key_at keys 1) (key_at keys 2) (key_at keys 3) of
                      Inl fault \<Rightarrow> Inl fault
                    | Inr g \<Rightarrow> checked g)
          | Sign_none \<Rightarrow> checked (jwt_none j))"

subsection \<open>Issuer\<close>

record issuer =
  iss_id :: string
  iss_algo :: sign_algo
  iss_keys :: "string list"
  iss_valid_times :: nat

definition issuer_set_keys :: "string list \<Rightarrow> issuer \<Rightarrow> issuer" where
  "issuer_set_keys keys i = i\<lparr>iss_keys := keys\<rparr>"

definition valid_secs :: "nat \<Rightarrow> nat" where
  "valid_secs valid_days = valid_days * 24 * 60 * 60 mod 2 ^ 64"

text \<open>The section under the lock.\<close>

definition issue_locked ::
  "('b, 'd, 'g) jwt \<Rightarrow> int \<Rightarrow> issuer \<Rightarrow> string \<Rightarrow> string \<Rightarrow> nat \<Rightarrow> (string \<times> string) list \<Rightarrow> (lic_err \<times> string) result" where
  "issue_locked j now i token licensee valid_days claims =
     license_issue j token (iss_id i) licensee now (valid_secs valid_days) (iss_algo i) (iss_keys i) claims"

text \<open>A call that is not disturbed: the outcome, and the issuer afterwards.\<close>

definition issuer_issue ::
  "('b, 'd, 'g) jwt \<Rightarrow> int \<Rightarrow> issuer \<Rightarrow> string \<Rightarrow> string \<Rightarrow> nat \<Rightarrow> (string \<times> string) list \<Rightarrow> (lic_err \<times> string) result \<times> issuer" where
  "issuer_issue j now i token licensee valid_days claims =
     (if iss_valid_times i = 0 then (Inr (License_error Invalid_times, token), i)
      else let i' = i\<lparr>iss_valid_times := iss_valid_times i - 1\<rparr>
           in (issue_locked j now i' token licensee valid_days claims, i'))"

text \<open>\<open>writes\<close> says whether the stream is good after the token has been written; the content of the stream is returned.\<close>

definition issuer_issue_stream ::
  "('b, 'd, 'g) jwt \<Rightarrow> int \<Rightarrow> issuer \<Rightarrow> bool \<Rightarrow> bool \<Rightarrow> string \<Rightarrow> string \<Rightarrow> nat \<Rightarrow> (string \<times> string) list
   \<Rightarrow> (lic_err \<times> string) result \<times> issuer" where
  "issuer_issue_stream j now i good writes out licensee valid_days claims =
     (if \<not> good then (Inr (License_error Output_invalid, out), i)
      else case issuer_issue j now i [] licensee valid_days claims of
             (Inl fault, i') \<Rightarrow> (Inl fault, i')
           | (Inr (err, token), i') \<Rightarrow>
               if err \<noteq> No_error then (Inr (err, out), i')
               else if \<not> writes then (Inr (License_error Output_invalid, out), i')
               else (Inr (No_error, out @ token), i'))"

text \<open>Files by name; \<open>std::ofstream\<close> truncates the file.\<close>

definition issuer_issue_file ::
  "('b, 'd, 'g) jwt \<Rightarrow> int \<Rightarrow> issuer \<Rightarrow> (string \<Rightarrow> bool) \<Rightarrow> bool \<Rightarrow> (string \<rightharpoonup> string) \<Rightarrow> string \<Rightarrow> string \<Rightarrow> nat \<Rightarrow> (string \<times> string) list
   \<Rightarrow> (lic_err \<times> (string \<rightharpoonup> string)) result \<times> issuer" where
  "issuer_issue_file j now i writable writes fs filepath licensee valid_days claims =
     (if \<not> writable filepath then (Inr (License_error File_not_exist, fs), i)
      else apfst (map_sum id (map_prod id (\<lambda>out. fs(filepath \<mapsto> out))))
             (issuer_issue_stream j now i True writes [] licensee valid_days claims))"

definition issuer_release :: "sign_algo \<Rightarrow> string list \<Rightarrow> issuer \<Rightarrow> lic_err \<times> issuer" where
  "issuer_release algo keys i =
     (if algo = iss_algo i \<and> keys = iss_keys i then (License_error Keys_not_changed, i)
      else (No_error, i\<lparr>iss_algo := algo, iss_keys := keys\<rparr>))"

subsection \<open>Concurrent calls\<close>

text \<open>Any number of calls of \<open>issue\<close> at once, each where its program counter says: not started, after the load or a
  failed exchange with the count it saw, after the exchange, or returned. Between the steps keys may be
  changed. \<open>compare_exchange_weak\<close> may fail without a reason.\<close>

datatype issue_pc = Call_start | Seen_count nat | Has_slot | Returned "(lic_err \<times> string) result"

inductive issue_step :: "('b, 'd, 'g) jwt \<Rightarrow> issuer \<times> issue_pc list \<Rightarrow> issuer \<times> issue_pc list \<Rightarrow> bool" for j where
  issue_load: "c < length pcs \<Longrightarrow> pcs ! c = Call_start \<Longrightarrow> issue_step j (i, pcs) (i, pcs[c := Seen_count (iss_valid_times i)])"
| issue_reject: "c < length pcs \<Longrightarrow> pcs ! c = Seen_count 0 \<Longrightarrow>
     issue_step j (i, pcs) (i, pcs[c := Returned (Inr (License_error Invalid_times, token))])"
| issue_exchange: "c < length pcs \<Longrightarrow> pcs ! c = Seen_count n \<Longrightarrow> 0 < n \<Longrightarrow> iss_valid_times i = n \<Longrightarrow>
     issue_step j (i, pcs) (i\<lparr>iss_valid_times := n - 1\<rparr>, pcs[c := Has_slot])"
| issue_retry: "c < length pcs \<Longrightarrow> pcs ! c = Seen_count n \<Longrightarrow> 0 < n \<Longrightarrow>
     issue_step j (i, pcs) (i, pcs[c := Seen_count (iss_valid_times i)])"
| issue_make: "c < length pcs \<Longrightarrow> pcs ! c = Has_slot \<Longrightarrow>
     issue_step j (i, pcs) (i, pcs[c := Returned (issue_locked j now i token licensee valid_days claims)])"
| issue_rekey: "issue_step j (i, pcs) (issuer_set_keys keys i, pcs)"
| issue_release: "issue_step j (i, pcs) (snd (issuer_release algo keys i), pcs)"

subsection \<open>Verifier\<close>

record verifier =
  ver_id :: string
  ver_algo :: sign_algo
  ver_keys :: "string list"

definition verifier_set_keys :: "string list \<Rightarrow> verifier \<Rightarrow> verifier" where
  "verifier_set_keys keys v = v\<lparr>ver_keys := keys\<rparr>"

definition verifier_verify ::
  "('b, 'd, 'g) jwt \<Rightarrow> int \<Rightarrow> verifier \<Rightarrow> string \<Rightarrow> string \<Rightarrow> (string \<times> string) list \<Rightarrow> nat \<Rightarrow> lic_err result" where
  "verifier_verify j now v token licensee claims leeway_secs =
     license_verify j now token (ver_id v) licensee (ver_algo v) (ver_keys v) claims leeway_secs"

text \<open>The lines that \<open>std::getline\<close> reads, one behind the other.\<close>

definition joined_lines :: "string \<Rightarrow> string" where
  "joined_lines s = filter (\<lambda>c. c \<noteq> CHR 0x0A) s"

definition verifier_verify_stream ::
  "('b, 'd, 'g) jwt \<Rightarrow> int \<Rightarrow> verifier \<Rightarrow> bool \<Rightarrow> string \<Rightarrow> string \<Rightarrow> (string \<times> string) list \<Rightarrow> nat \<Rightarrow> lic_err result" where
  "verifier_verify_stream j now v good inp licensee claims leeway_secs =
     (if \<not> good then Inr (License_error Input_invalid)
      else let buf = joined_lines inp in
        if buf = [] then Inr (License_error Input_invalid)
        else verifier_verify j now v buf licensee claims leeway_secs)"

definition verifier_verify_file ::
  "('b, 'd, 'g) jwt \<Rightarrow> int \<Rightarrow> verifier \<Rightarrow> (string \<rightharpoonup> string) \<Rightarrow> string \<Rightarrow> string \<Rightarrow> (string \<times> string) list \<Rightarrow> nat \<Rightarrow> lic_err result" where
  "verifier_verify_file j now v fs filepath licensee claims leeway_secs =
     (case fs filepath of
        None \<Rightarrow> Inr (License_error File_not_exist)
      | Some inp \<Rightarrow> verifier_verify_stream j now v True inp licensee claims leeway_secs)"

record license_info =
  info_issuer :: string
  info_audience :: string
  info_issued_at :: int
  info_expires_at :: int
  info_claims :: "(string \<times> string) list"

text \<open>The fields are filled in one after the other, so an exception leaves the later ones as they were.\<close>

definition verifier_parse :: "('b, 'd, 'g) jwt \<Rightarrow> license_info \<Rightarrow> string \<Rightarrow> lic_err \<times> license_info" where
  "verifier_parse j info token =
     (let failed = (\<lambda>info. (License_error Parse_license_info_failed, info)) in
      case jwt_decode j token of
        Inl _ \<Rightarrow> failed info
      | Inr d \<Rightarrow>
          (case jwt_get_issuer j d of
             Inl _ \<Rightarrow> failed info
           | Inr iss \<Rightarrow> let info = info\<lparr>info_issuer := iss\<rparr> in
          (case jwt_get_issued_at j d of
             Inl _ \<Rightarrow> failed info
           | Inr iat \<Rightarrow> let info = info\<lparr>info_issued_at := iat\<rparr> in
          (case jwt_get_expires_at j d of
             Inl _ \<Rightarrow> failed info
           | Inr ex \<Rightarrow> let info = info\<lparr>info_expires_at := ex\<rparr> in
          (case jwt_get_audience j d of
             Inl _ \<Rightarrow> failed info
           | Inr aud \<Rightarrow> let info = (if aud \<noteq> [] then info\<lparr>info_audience := hd aud\<rparr> else info) in
             (No_error, info\<lparr>info_claims := info_claims info @
                map (\<lambda>(k, s, dump). (k, case s of Some t \<Rightarrow> t | None \<Rightarrow> dump))
                  (filter (\<lambda>(k, _). k \<notin> {''iss'', ''aud'', ''iat'', ''exp''}) (jwt_payload j d))\<rparr>))))))"

subsection \<open>The serial number of the disk\<close>

text \<open>\<open>popen\<close> answers a command with the text it prints, or fails.\<close>

definition execute_command_safe :: "(string \<Rightarrow> string option) \<Rightarrow> string \<Rightarrow> string" where
  "execute_command_safe popen command =
     (case popen command of
        None \<Rightarrow> []
      | Some out \<Rightarrow>
          let blanks = [CHR '' '', CHR 0x09, CHR 0x0A, CHR 0x0D, CHR 0x0C, CHR 0x0B] in
          case (find_first_not_of out blanks, find_last_not_of out blanks) of
            (Some first, Some final) \<Rightarrow> take (final - first + 1) (drop first out)
          | _ \<Rightarrow> [])"

definition disk_sn_commands :: "string list" where
  "disk_sn_commands =
     [''lsblk -ndo SERIAL $(lsblk -ndo NAME | head -1) 2>/dev/null'',
      ''cat /sys/block/$(lsblk -ndo NAME | head -1)/device/serial 2>/dev/null'',
      ''lsblk -ndo SERIAL /dev/sda 2>/dev/null'',
      ''hdparm -I /dev/sda 2>/dev/null | grep '' @ [CHR 0x27] @ ''Serial Number'' @ [CHR 0x27] @ '' | awk ''
        @ [CHR 0x27] @ ''{print $3}'' @ [CHR 0x27],
      ''cat /sys/block/sda/device/serial 2>/dev/null'']"

definition get_disk_sn :: "(string \<Rightarrow> string option) \<Rightarrow> string" where
  "get_disk_sn popen =
     (case List.find (\<lambda>cmd. execute_command_safe popen cmd \<noteq> []) disk_sn_commands of
        None \<Rightarrow> []
      | Some cmd \<Rightarrow> execute_command_safe popen cmd)"

end
