(* ===== verification/LicenseProps.thy ===== *)
theory LicenseProps
  imports License "HOL-Library.Countable"
begin

text \<open>
  The properties of \<open>src/hj/util/license.hpp\<close>: the quota of an issuer under concurrent calls, what acceptance by the
  verifier means, that issued licences are accepted (relative to what jwt-cpp documents, locale \<open>jwt_contract\<close>),
  and the calls that go wrong.
\<close>

section \<open>The quota\<close>

text \<open>Calls that were refused for the count, and calls that hold or have used one of the issuer's slots.\<close>

fun call_refused :: "issue_pc \<Rightarrow> bool" where
  "call_refused (Returned (Inr (License_error Invalid_times, t))) = True"
| "call_refused _ = False"

fun call_slot :: "issue_pc \<Rightarrow> nat" where
  "call_slot Has_slot = 1"
| "call_slot (Returned r) = (if call_refused (Returned r) then 0 else 1)"
| "call_slot _ = 0"

definition slots_used :: "issue_pc list \<Rightarrow> nat" where
  "slots_used pcs = sum_list (map call_slot pcs)"

text \<open>No count that a call has seen is below the present one, and refusals come from an empty count.\<close>

definition quota_inv :: "nat \<Rightarrow> issuer \<times> issue_pc list \<Rightarrow> bool" where
  "quota_inv quota = (\<lambda>(i, pcs). slots_used pcs + iss_valid_times i = quota
     \<and> (\<forall>pc\<in>set pcs. (\<forall>n. pc = Seen_count n \<longrightarrow> iss_valid_times i \<le> n) \<and> (call_refused pc \<longrightarrow> iss_valid_times i = 0)))"

lemma license_issue_not_refused:
  "license_issue j token iss lic tm secs algo keys claims = r \<Longrightarrow> \<not> call_refused (Returned r)"
  by (auto simp: license_issue_def to_lic_err_def Let_def split: sum.splits sign_algo.splits prod.splits if_splits)

lemma slots_used_update:
  "c < length pcs \<Longrightarrow> slots_used (pcs[c := pc]) + call_slot (pcs ! c) = slots_used pcs + call_slot pc"
proof -
  assume c: "c < length pcs"
  have "call_slot (pcs ! c) \<le> slots_used pcs"
    using c by (simp add: slots_used_def member_le_sum_list)
  then show ?thesis using c by (simp add: slots_used_def map_update sum_list_update)
qed

lemma release_keeps_count [simp]:
  "iss_valid_times (snd (issuer_release algo keys i)) = iss_valid_times i"
  "iss_valid_times (issuer_set_keys keys i) = iss_valid_times i"
  by (simp_all add: issuer_release_def issuer_set_keys_def)

lemma quota_inv_update:
  assumes inv: "quota_inv quota (i, pcs)" and c: "c < length pcs"
    and slot: "call_slot pc + iss_valid_times i' = call_slot (pcs ! c) + iss_valid_times i" "iss_valid_times i' \<le> iss_valid_times i"
    and pc: "\<And>n. pc = Seen_count n \<Longrightarrow> iss_valid_times i' \<le> n" "call_refused pc \<Longrightarrow> iss_valid_times i' = 0"
  shows "quota_inv quota (i', pcs[c := pc])"
proof -
  have "(\<forall>n. p = Seen_count n \<longrightarrow> iss_valid_times i' \<le> n) \<and> (call_refused p \<longrightarrow> iss_valid_times i' = 0)" if "p \<in> set pcs" for p
  proof -
    have "(\<forall>n. p = Seen_count n \<longrightarrow> iss_valid_times i \<le> n) \<and> (call_refused p \<longrightarrow> iss_valid_times i = 0)"
      using inv that by (simp add: quota_inv_def)
    then show ?thesis using slot(2) by auto
  qed
  moreover have "set (pcs[c := pc]) \<subseteq> insert pc (set pcs)" by (rule set_update_subset_insert)
  ultimately have "\<forall>p\<in>set (pcs[c := pc]). (\<forall>n. p = Seen_count n \<longrightarrow> iss_valid_times i' \<le> n) \<and> (call_refused p \<longrightarrow> iss_valid_times i' = 0)"
    using pc by blast
  moreover have "slots_used (pcs[c := pc]) + iss_valid_times i' = quota"
    using inv slots_used_update [OF c, of pc] slot(1) by (simp add: quota_inv_def)
  ultimately show ?thesis by (simp add: quota_inv_def)
qed

lemma quota_inv_step:
  assumes "issue_step j w w'" "quota_inv quota w"
  shows "quota_inv quota w'"
  using assms
proof (induction rule: issue_step.induct)
  case (issue_reject c pcs i token)
  have "iss_valid_times i \<le> 0" using issue_reject nth_mem [of c pcs] by (fastforce simp: quota_inv_def)
  then show ?case using issue_reject by (intro quota_inv_update [of quota i]) simp_all
next
  case (issue_make c pcs i now token licensee valid_days claims)
  have "\<not> call_refused (Returned (issue_locked j now i token licensee valid_days claims))"
    using license_issue_not_refused by (simp add: issue_locked_def)
  then show ?case using issue_make by (intro quota_inv_update [of quota i]) simp_all
next
  case (issue_rekey i pcs keys)
  then show ?case by (simp add: quota_inv_def)
next
  case (issue_release i pcs algo keys)
  then show ?case by (simp add: quota_inv_def)
qed (auto intro!: quota_inv_update)

text \<open>C14. However the calls of \<open>issue\<close> interleave, with each other and with changes of the keys: the calls that get past the
  counter and what is left of it always add up to the number of licences the issuer was made with, so
  never more are issued; and a call is refused only when all of them have been taken.\<close>

theorem license_quota_exact:
  assumes "(issue_step j)\<^sup>*\<^sup>* (i0, replicate n Call_start) (i, pcs)"
  shows "slots_used pcs + iss_valid_times i = iss_valid_times i0 \<and>
    (\<forall>pc\<in>set pcs. call_refused pc \<longrightarrow> slots_used pcs = iss_valid_times i0)"
proof -
  have start: "quota_inv (iss_valid_times i0) (i0, replicate n Call_start)"
    by (simp add: quota_inv_def slots_used_def sum_list_replicate)
  have "quota_inv (iss_valid_times i0) (i, pcs)"
    using assms by (induction rule: rtranclp_induct) (use start quota_inv_step in blast)+
  then show ?thesis by (auto simp: quota_inv_def)
qed

theorem license_quota_exact_witness:
  "slots_used [Has_slot, Returned (Inr (License_error Invalid_times, ''''))] = 1"
proof -
  let ?i = "\<lambda>n. \<lparr>iss_id = ''a'', iss_algo = Sign_none, iss_keys = [], iss_valid_times = n\<rparr>"
  let ?j = "undefined :: (nat, nat, nat) jwt"
  let ?no = "Returned (Inr (License_error Invalid_times, ''''))"
  have "issue_step ?j (?i 1, [Call_start, Call_start]) (?i 1, [Seen_count 1, Call_start])"
    using issue_load [of 0 "[Call_start, Call_start]" ?j "?i 1"] by simp
  moreover have "issue_step ?j (?i 1, [Seen_count 1, Call_start]) (?i 0, [Has_slot, Call_start])"
    using issue_exchange [of 0 "[Seen_count 1, Call_start]" 1 "?i 1" ?j] by simp
  moreover have "issue_step ?j (?i 0, [Has_slot, Call_start]) (?i 0, [Has_slot, Seen_count 0])"
    using issue_load [of 1 "[Has_slot, Call_start]" ?j "?i 0"] by simp
  moreover have "issue_step ?j (?i 0, [Has_slot, Seen_count 0]) (?i 0, [Has_slot, ?no])"
    using issue_reject [of 1 "[Has_slot, Seen_count 0]" ?j "?i 0" "''''"] by simp
  ultimately have "(issue_step ?j)\<^sup>*\<^sup>* (?i 1, replicate 2 Call_start) (?i 0, [Has_slot, ?no])"
    by (simp add: numeral_2_eq_2)
  from license_quota_exact [OF this] show ?thesis by simp
qed

section \<open>Acceptance\<close>

lemma check_claims_ok: "check_claims j d claims = Inr No_error \<longleftrightarrow> (\<forall>(k, v)\<in>set claims. jwt_claim j d k = Inr v)"
  by (induction j d claims rule: check_claims.induct) (auto split: sum.splits)

lemma check_claims_missing:
  assumes "jwt_claim j d k = Inl fault" "\<forall>p\<in>set before. jwt_claim j d (fst p) = Inr (snd p)"
  shows "check_claims j d (before @ (k, v) # after) = Inl fault"
  using assms by (induction before) auto

text \<open>C16. What the verifier accepts was checked in full: the token decodes, jwt-cpp's verification of type, issuer, licensee,
  time and signature passed with an algorithm made from the verifier's keys (or \<open>none\<close>, when the verifier was
  made with it), and every claim asked for has the value asked for.\<close>

theorem license_accept_sound:
  assumes "verifier_verify j now v token licensee claims leeway = Inr No_error"
  shows "\<exists>d g. jwt_decode j token = Inr d \<and> jwt_verify j JWT_TYPE (ver_id v) licensee leeway g now d = 0 \<and>
    (if ver_algo v = Sign_none then g = jwt_none j
     else ver_keys v \<noteq> [] \<and> jwt_rs256 j (hd (ver_keys v)) (key_at (ver_keys v) 1) (key_at (ver_keys v) 2) (key_at (ver_keys v) 3) = Inr g) \<and>
    (\<forall>(k, x)\<in>set claims. jwt_claim j d k = Inr x)"
  using assms
  by (cases "ver_algo v"; cases "ver_keys v")
    (auto simp: verifier_verify_def license_verify_def Let_def check_claims_ok hd_conv_nth split: sum.splits if_splits)

section \<open>What jwt-cpp promises\<close>

text \<open>
  A builder holds the header's type and the claims of the payload: \<open>set_issuer\<close> sets the claim \<open>iss\<close>, and so on; times are
  kept in seconds. A signed token is a line of text, not empty, that decodes to what was built; \<open>accepts g g'\<close>
  says that tokens signed with \<open>g\<close> pass the check with \<open>g'\<close>. Asking for a claim that is not there throws.
\<close>

datatype jwt_value = Jwt_string string | Jwt_time int

locale jwt_contract =
  fixes j :: "('b, 'd, 'g) jwt" and btype :: "'b \<Rightarrow> string" and bclaims :: "'b \<Rightarrow> string \<rightharpoonup> jwt_value"
    and dtype :: "'d \<Rightarrow> string" and dclaims :: "'d \<Rightarrow> string \<rightharpoonup> jwt_value" and signer :: "'d \<Rightarrow> 'g"
    and can_sign :: "'g \<Rightarrow> bool" and accepts :: "'g \<Rightarrow> 'g \<Rightarrow> bool"
  assumes create: "bclaims (jwt_create j) = Map.empty"
    and set_type: "btype (jwt_set_type j s b) = s" "bclaims (jwt_set_type j s b) = bclaims b"
    and set_claims: "bclaims (jwt_set_issuer j s b) = (bclaims b)(''iss'' \<mapsto> Jwt_string s)"
      "bclaims (jwt_set_audience j s b) = (bclaims b)(''aud'' \<mapsto> Jwt_string s)"
      "bclaims (jwt_set_issued_at j t b) = (bclaims b)(''iat'' \<mapsto> Jwt_time (t div 10 ^ 9))"
      "bclaims (jwt_set_expires_at j t b) = (bclaims b)(''exp'' \<mapsto> Jwt_time (t div 10 ^ 9))"
      "bclaims (jwt_set_payload_claim j k s b) = (bclaims b)(k \<mapsto> Jwt_string s)"
    and keep_type: "btype (jwt_set_issuer j s b) = btype b" "btype (jwt_set_audience j s b) = btype b"
      "btype (jwt_set_issued_at j t b) = btype b" "btype (jwt_set_expires_at j t b) = btype b"
      "btype (jwt_set_payload_claim j k s b) = btype b"
    and sign: "can_sign g \<Longrightarrow> fst (jwt_sign j b g) = 0"
    and signed: "jwt_sign j b g = (0, line) \<Longrightarrow> line \<noteq> [] \<and> CHR 0x0A \<notin> set line \<and>
      (\<exists>d. jwt_decode j line = Inr d \<and> dtype d = btype b \<and> dclaims d = bclaims b \<and> signer d = g)"
    and verify: "dclaims d ''iss'' = Some (Jwt_string iss) \<Longrightarrow> dclaims d ''aud'' = Some (Jwt_string aud) \<Longrightarrow>
      dclaims d ''iat'' = Some (Jwt_time iat) \<Longrightarrow> dclaims d ''exp'' = Some (Jwt_time expiry) \<Longrightarrow>
      iat * 10 ^ 9 \<le> now + int leeway * 10 ^ 9 \<Longrightarrow> now \<le> (expiry + int leeway) * 10 ^ 9 \<Longrightarrow> accepts (signer d) g \<Longrightarrow>
      jwt_verify j (dtype d) iss aud leeway g now d = 0"
    and claim: "dclaims d k = Some (Jwt_string s) \<Longrightarrow> jwt_claim j d k = Inr s"
    and claim_missing: "dclaims d k = None \<Longrightarrow> jwt_claim j d k = Inl Throw_out_of_range"
begin

lemma fold_claims:
  "bclaims (fold (\<lambda>p. jwt_set_payload_claim j (fst p) (snd p)) claims b)
     = bclaims b ++ map_of (rev (map (\<lambda>(k, v). (k, Jwt_string v)) claims))"
  "btype (fold (\<lambda>p. jwt_set_payload_claim j (fst p) (snd p)) claims b) = btype b"
  by (induction claims arbitrary: b) (auto simp: set_claims keep_type)

lemma builder_claims:
  "bclaims (license_builder j iss lic tm expiry claims)
     = [''iss'' \<mapsto> Jwt_string iss, ''aud'' \<mapsto> Jwt_string lic, ''iat'' \<mapsto> Jwt_time (tm div 10 ^ 9), ''exp'' \<mapsto> Jwt_time (expiry div 10 ^ 9)]
         ++ map_of (rev (map (\<lambda>(k, v). (k, Jwt_string v)) claims))"
  "btype (license_builder j iss lic tm expiry claims) = JWT_TYPE"
  by (simp_all add: license_builder_def fold_claims set_claims keep_type set_type create)

lemma issued:
  assumes "can_sign g"
  obtains line d where "jwt_sign j b g = (0, line)" "line \<noteq> []" "CHR 0x0A \<notin> set line" "jwt_decode j line = Inr d"
    "dtype d = btype b" "dclaims d = bclaims b" "signer d = g"
proof -
  obtain line where "jwt_sign j b g = (0, line)" using sign [OF assms, of b] by (metis prod.collapse)
  then show thesis using signed that by blast
qed

text \<open>Claims with names of their own stand beside the registered ones.\<close>

lemma own_claims:
  fixes iss lic tm expiry
  assumes "distinct (map fst claims)" "fst ` set claims \<inter> {''iss'', ''aud'', ''iat'', ''exp''} = {}"
  defines "m \<equiv> bclaims (license_builder j iss lic tm expiry claims)"
  shows "(k, v) \<in> set claims \<Longrightarrow> m k = Some (Jwt_string v)"
    and "m ''iss'' = Some (Jwt_string iss)" "m ''aud'' = Some (Jwt_string lic)" "m ''iat'' = Some (Jwt_time (tm div 10 ^ 9))"
    "m ''exp'' = Some (Jwt_time (expiry div 10 ^ 9))"
proof -
  let ?c = "rev (map (\<lambda>(k, v). (k, Jwt_string v)) claims)"
  have keys: "map fst ?c = rev (map fst claims)" by (simp add: rev_map comp_def case_prod_beta)
  have "map_of ?c k = Some (Jwt_string v)" if "(k, v) \<in> set claims" for k v
    using that assms(1) unfolding keys [symmetric] by (intro map_of_is_SomeI) (force simp: keys)+
  then show "(k, v) \<in> set claims \<Longrightarrow> m k = Some (Jwt_string v)" unfolding m_def builder_claims by (simp add: map_add_Some_iff)
  have none: "map_of ?c k = None" if "k \<in> {''iss'', ''aud'', ''iat'', ''exp''}" for k
    using that assms(2) by (force simp: map_of_eq_None_iff image_iff)
  show "m ''iss'' = Some (Jwt_string iss)" "m ''aud'' = Some (Jwt_string lic)" "m ''iat'' = Some (Jwt_time (tm div 10 ^ 9))"
    "m ''exp'' = Some (Jwt_time (expiry div 10 ^ 9))"
    unfolding m_def builder_claims by (simp_all add: map_add_def none)
qed

text \<open>A decoded token of the licence passes the verifier.\<close>

lemma decoded_passes:
  assumes d: "jwt_decode j line = Inr d" "dtype d = JWT_TYPE" "dclaims d = bclaims (license_builder j (ver_id v) lic tm expiry claims)"
    and claims: "distinct (map fst claims)" "fst ` set claims \<inter> {''iss'', ''aud'', ''iat'', ''exp''} = {}" "set wanted \<subseteq> set claims"
    and times: "tm \<le> now + int leeway * 10 ^ 9" "now \<le> (expiry div 10 ^ 9 + int leeway) * 10 ^ 9"
    and key: "ver_algo v = Sign_rsa256" "ver_keys v \<noteq> []" "accepts (signer d) g"
      "jwt_rs256 j (hd (ver_keys v)) (key_at (ver_keys v) 1) (key_at (ver_keys v) 2) (key_at (ver_keys v) 3) = Inr g"
  shows "verifier_verify j now v line lic wanted leeway = Inr No_error"
proof -
  note own = own_claims [OF claims(1,2), where iss = "ver_id v" and lic = lic and tm = tm and expiry = expiry, folded d(3)]
  have "tm div 10 ^ 9 * 10 ^ 9 \<le> tm" using minus_mod_eq_div_mult [of tm "10 ^ 9"] by (smt (verit) pos_mod_sign zero_less_power)
  then have "jwt_verify j JWT_TYPE (ver_id v) lic leeway g now d = 0"
    using verify [OF own(2-5), of now leeway g] times key(3) d(2) by simp
  moreover have "check_claims j d wanted = Inr No_error"
    unfolding check_claims_ok using own(1) claim claims(3) by blast
  ultimately show ?thesis
    using d(1) key(1,2,4) by (simp add: verifier_verify_def license_verify_def Let_def hd_conv_nth)
qed

end

section \<open>A package that keeps the laws\<close>

text \<open>A builder is the type and the list of the claims that were set, the latest first. A signed token is a line of as
  many dots as the number of the pair of builder and key in an enumeration of all pairs; the private key is not
  needed. Verification repeats the checks of the law.\<close>

instance jwt_value :: countable
  by countable_datatype

type_synonym dot_builder = "string \<times> (string \<times> jwt_value) list"

definition dot_decode :: "string \<Rightarrow> (dot_builder \<times> string) result" where
  "dot_decode line = (if line = [] then Inl Throw_invalid_argument else Inr (from_nat (length line - 1)))"

definition dot_jwt :: "(dot_builder, dot_builder \<times> string, string) jwt" where
  "dot_jwt =
     \<lparr>jwt_create = ([], []), jwt_set_type = (\<lambda>s b. (s, snd b)),
      jwt_set_issuer = (\<lambda>s b. (fst b, (''iss'', Jwt_string s) # snd b)),
      jwt_set_audience = (\<lambda>s b. (fst b, (''aud'', Jwt_string s) # snd b)),
      jwt_set_issued_at = (\<lambda>t b. (fst b, (''iat'', Jwt_time (t div 10 ^ 9)) # snd b)),
      jwt_set_expires_at = (\<lambda>t b. (fst b, (''exp'', Jwt_time (t div 10 ^ 9)) # snd b)),
      jwt_set_payload_claim = (\<lambda>k s b. (fst b, (k, Jwt_string s) # snd b)),
      jwt_none = [], jwt_rs256 = (\<lambda>pub _ _ _. Inr pub),
      jwt_sign = (\<lambda>b g. (0, replicate (to_nat (b, g) + 1) CHR ''.'')),
      jwt_decode = dot_decode,
      jwt_verify = (\<lambda>ty iss aud leeway g now d.
        if fst (fst d) = ty \<and> map_of (snd (fst d)) ''iss'' = Some (Jwt_string iss)
          \<and> map_of (snd (fst d)) ''aud'' = Some (Jwt_string aud) \<and> snd d = g
          \<and> (case (map_of (snd (fst d)) ''iat'', map_of (snd (fst d)) ''exp'') of
               (Some (Jwt_time a), Some (Jwt_time b)) \<Rightarrow> a * 10 ^ 9 \<le> now + int leeway * 10 ^ 9 \<and> now \<le> (b + int leeway) * 10 ^ 9
             | _ \<Rightarrow> False)
        then 0 else 1),
      jwt_claim = (\<lambda>d k. case map_of (snd (fst d)) k of
        None \<Rightarrow> Inl Throw_out_of_range | Some (Jwt_string s) \<Rightarrow> Inr s | Some (Jwt_time t) \<Rightarrow> Inl Throw_runtime_error),
      jwt_get_issuer = (\<lambda>d. Inr []), jwt_get_issued_at = (\<lambda>d. Inr 0), jwt_get_expires_at = (\<lambda>d. Inr 0),
      jwt_get_audience = (\<lambda>d. Inr []), jwt_payload = (\<lambda>d. [])\<rparr>"

interpretation dots: jwt_contract dot_jwt fst "\<lambda>b. map_of (snd b)" "\<lambda>d. fst (fst d)" "\<lambda>d. map_of (snd (fst d))" snd "\<lambda>g. True" "(=)"
  by unfold_locales (auto simp: dot_jwt_def dot_decode_def)

section \<open>Properties of issuing\<close>

lemma sint_u64_small: "r < 2 ^ 63 \<Longrightarrow> sint (of_nat r :: u64) = int r"
  by (simp add: signed_of_nat signed_take_bit_int_eq_self)

lemma expires_at_days:
  assumes "0 \<le> now" "valid_days * 86400 < 2 ^ 63"
  shows "expires_at now (valid_secs valid_days) =
    (if now + int valid_days * 86400 * 10 ^ 9 < 2 ^ 63 then Inr (now + int valid_days * 86400 * 10 ^ 9) else Inl Signed_overflow)"
proof -
  have secs: "valid_secs valid_days = valid_days * 86400" using assms(2) by (simp add: valid_secs_def)
  have "sint (of_nat (valid_secs valid_days) :: u64) = int valid_days * 86400"
    unfolding secs sint_u64_small [OF assms(2)] by simp
  then show ?thesis using assms(1) by (auto simp: expires_at_def in_int64_def Let_def)
qed




theorem license_accept_sound_witness:
  "\<exists>d g. jwt_decode dot_jwt (snd (jwt_sign dot_jwt (license_builder dot_jwt ''hj'' ''me'' 0 (10 ^ 9) [(''sn'', ''42'')]) ''pub'')) = Inr d \<and>
     jwt_verify dot_jwt JWT_TYPE ''hj'' ''me'' 5 g 0 d = 0 \<and> jwt_claim dot_jwt d ''sn'' = Inr ''42''"
proof -
  let ?b = "license_builder dot_jwt ''hj'' ''me'' 0 (10 ^ 9) [(''sn'', ''42'')]"
  let ?v = "\<lparr>ver_id = ''hj'', ver_algo = Sign_rsa256, ver_keys = [''pub'']\<rparr>"
  obtain line d where l: "jwt_sign dot_jwt ?b ''pub'' = (0, line)" "jwt_decode dot_jwt line = Inr d"
    "fst (fst d) = fst ?b" "map_of (snd (fst d)) = map_of (snd ?b)" "snd d = ''pub''"
    by (rule dots.issued [where g = "''pub''" and b = ?b]) simp_all
  have "verifier_verify dot_jwt 0 ?v line ''me'' [(''sn'', ''42'')] 5 = Inr No_error"
    using dots.decoded_passes [OF l(2), of ?v "''me''" 0 "10 ^ 9" "[(''sn'', ''42'')]" "[(''sn'', ''42'')]" 0 5 "''pub''"]
      dots.builder_claims(2) l(3-5) by (simp add: dot_jwt_def)
  from license_accept_sound [OF this] show ?thesis using l(1) by (auto simp del: fun_upd_apply)
qed

text \<open>A verifier that is asked for a claim the licence does not have does not report a mismatch: the exception of
  jwt-cpp leaves \<open>verify\<close>, although the function returns error codes.\<close>

theorem license_missing_claim_throws:
  assumes jwt: "jwt_contract j btype bclaims dtype dclaims signer can_sign accepts"
    and ver: "ver_algo v = Sign_none" "jwt_decode j token = Inr d" "jwt_verify j JWT_TYPE (ver_id v) licensee leeway (jwt_none j) now d = 0"
    and "dclaims d k = None" "\<forall>p\<in>set before. dclaims d (fst p) = Some (Jwt_string (snd p))"
  shows "verifier_verify j now v token licensee (before @ (k, x) # more_claims) leeway = Inl Throw_out_of_range"
proof -
  have "\<forall>p\<in>set before. jwt_claim j d (fst p) = Inr (snd p)" using assms(6) jwt_contract.claim [OF jwt] by blast
  then show ?thesis
    using ver check_claims_missing [OF jwt_contract.claim_missing [OF jwt assms(5)]]
    by (simp add: verifier_verify_def license_verify_def Let_def)
qed

theorem license_missing_claim_throws_witness:
  "\<exists>d. jwt_decode dot_jwt (snd (jwt_sign dot_jwt (license_builder dot_jwt ''hj'' ''me'' 0 (10 ^ 9) []) [])) = Inr d \<and>
    verifier_verify dot_jwt 0 \<lparr>ver_id = ''hj'', ver_algo = Sign_none, ver_keys = []\<rparr>
      (snd (jwt_sign dot_jwt (license_builder dot_jwt ''hj'' ''me'' 0 (10 ^ 9) []) [])) ''me'' [(''sn'', ''42'')] 5 = Inl Throw_out_of_range"
proof -
  let ?b = "license_builder dot_jwt ''hj'' ''me'' 0 (10 ^ 9) []"
  let ?v = "\<lparr>ver_id = ''hj'', ver_algo = Sign_none, ver_keys = []\<rparr>"
  obtain line d where l: "jwt_sign dot_jwt ?b [] = (0, line)" "jwt_decode dot_jwt line = Inr d"
    "fst (fst d) = fst ?b" "map_of (snd (fst d)) = map_of (snd ?b)" "snd d = []"
    by (rule dots.issued [where g = "[]" and b = ?b]) simp_all
  have claims: "map_of (snd (fst d)) = [''iss'' \<mapsto> Jwt_string ''hj'', ''aud'' \<mapsto> Jwt_string ''me'', ''iat'' \<mapsto> Jwt_time 0, ''exp'' \<mapsto> Jwt_time 1]"
    using dots.builder_claims(1) [of "''hj''" "''me''" 0 "10 ^ 9" "[]"] unfolding l(4) by simp
  have "jwt_verify dot_jwt JWT_TYPE ''hj'' ''me'' 5 (jwt_none dot_jwt) 0 d = 0"
    using dots.verify [of d "''hj''" "''me''" 0 1 0 5 "[]"] claims l(3,5) dots.builder_claims(2) by (simp add: dot_jwt_def)
  then have "verifier_verify dot_jwt 0 ?v line ''me'' ([] @ (''sn'', ''42'') # []) 5 = Inl Throw_out_of_range"
    by (intro license_missing_claim_throws [OF dots.jwt_contract_axioms _ l(2)]) (simp_all add: claims)
  then show ?thesis using l(1,2) by simp
qed

text \<open>An issue that fails costs a licence all the same: the count goes down before the keys are looked at and, for a
  stream, before the token is written.\<close>

theorem license_failed_issue_costs:
  assumes "0 < iss_valid_times i" "iss_algo i = Sign_rsa256" "length (iss_keys i) < 2" "expires_at now (valid_secs valid_days) = Inr expiry"
  shows "issuer_issue j now i token licensee valid_days claims
    = (Inr (License_error Keys_not_enough, token), i\<lparr>iss_valid_times := iss_valid_times i - 1\<rparr>)"
  using assms by (simp add: issuer_issue_def issue_locked_def license_issue_def Let_def)

theorem license_failed_issue_costs_witness:
  "issuer_issue dot_jwt 0 \<lparr>iss_id = ''hj'', iss_algo = Sign_rsa256, iss_keys = [''pub''], iss_valid_times = 1\<rparr> '''' ''me'' 1 []
    = (Inr (License_error Keys_not_enough, ''''), \<lparr>iss_id = ''hj'', iss_algo = Sign_rsa256, iss_keys = [''pub''], iss_valid_times = 0\<rparr>)"
  using license_failed_issue_costs [of "\<lparr>iss_id = ''hj'', iss_algo = Sign_rsa256, iss_keys = [''pub''], iss_valid_times = 1\<rparr>" 0 1
      "86400 * 10 ^ 9" dot_jwt "''''" "''me''" "[]"] expires_at_days [of 0 1]
  by simp

text \<open>The end of a licence is computed in nanoseconds: a validity of more than 106751 days (292 years) overflows, and with
  a clock that shows the present the bound is lower still. Up to the bound the end is exact.\<close>

theorem license_validity_bound:
  assumes "0 < iss_valid_times i" "0 \<le> now" "valid_days * 86400 < 2 ^ 63"
  shows "(2 ^ 63 \<le> now + int valid_days * 86400 * 10 ^ 9 \<longrightarrow>
        fst (issuer_issue j now i token licensee valid_days claims) = Inl Signed_overflow) \<and>
    (now + int valid_days * 86400 * 10 ^ 9 < 2 ^ 63 \<longrightarrow> iss_algo i = Sign_none \<longrightarrow>
        fst (issuer_issue j now i token licensee valid_days claims) =
          Inr (apfst to_lic_err (jwt_sign j (license_builder j (iss_id i) licensee now (now + int valid_days * 86400 * 10 ^ 9) claims) (jwt_none j))))"
  using assms(1) expires_at_days [OF assms(2,3)]
  by (auto simp: issuer_issue_def issue_locked_def license_issue_def Let_def split: prod.splits)

theorem license_validity_bound_witness:
  "fst (issuer_issue dot_jwt 0 \<lparr>iss_id = ''hj'', iss_algo = Sign_none, iss_keys = [], iss_valid_times = 1\<rparr> '''' ''me'' 106752 []) = Inl Signed_overflow"
  using license_validity_bound [of "\<lparr>iss_id = ''hj'', iss_algo = Sign_none, iss_keys = [], iss_valid_times = 1\<rparr>" 0 106752 dot_jwt "''''" "''me''" "[]"]
  by simp

end
