(* ===== verification/ThreadPool.thy ===== *)
theory ThreadPool
  imports HjPrelude "HOL-Library.Multiset"
begin

text \<open>
  \<open>src/hj/sync/thread_pool.hpp\<close>: a fixed set of workers that take tasks from one queue.

  The sections that run under the mutex are functions on the pool (\<open>tp_wait_section\<close>, \<open>tp_enqueue_section\<close>,
  \<open>tp_set_stop\<close>). Workers and callers are interleaved by the relations \<open>tp_worker\<close> and \<open>tp_step\<close>: a worker whose
  condition does not hold falls asleep and goes on only when it is notified or wakes up spuriously; a caller
  notifies after it has left its section, so everything may happen in between. A task is any value; what it
  does, and whether it throws, stays inside it because the worker catches every exception. Binding a thread
  to a core is a call of the operating system (\<open>bind\<close>); when it fails the exception leaves the thread and
  ends the program (\<open>crashed\<close>).
\<close>

section \<open>Definitions\<close>

datatype 'a worker = Starting int | Before_wait | Asleep | Busy 'a | Exited

record 'a thread_pool =
  tp_tasks :: "'a list"
  tp_stop :: bool
  tp_workers :: "'a worker list"

definition thread_pool_new :: "nat \<Rightarrow> 'a thread_pool" where
  "thread_pool_new nthread =
     \<lparr>tp_tasks = [], tp_stop = False, tp_workers = replicate (if nthread < 1 then 1 else nthread) (Starting (- 1))\<rparr>"

text \<open>A core number is converted to \<open>int\<close>.\<close>

definition thread_pool_cores :: "u32 list \<Rightarrow> 'a thread_pool" where
  "thread_pool_cores cores = \<lparr>tp_tasks = [], tp_stop = False, tp_workers = map (\<lambda>c. Starting (sint c)) cores\<rparr>"

definition tp_size :: "'a thread_pool \<Rightarrow> nat" where
  "tp_size p = length (tp_workers p)"

definition tp_enqueue_section :: "'a \<Rightarrow> 'a thread_pool \<Rightarrow> bool \<times> 'a thread_pool" where
  "tp_enqueue_section t p = (if tp_stop p then (False, p) else (True, p\<lparr>tp_tasks := tp_tasks p @ [t]\<rparr>))"

definition tp_set_stop :: "'a thread_pool \<Rightarrow> 'a thread_pool" where
  "tp_set_stop p = p\<lparr>tp_stop := True\<rparr>"

text \<open>The section of the loop: the condition of the wait, the exit and taking a task.\<close>

definition tp_wait_section :: "'a thread_pool \<Rightarrow> 'a worker \<times> 'a thread_pool" where
  "tp_wait_section p =
     (if \<not> (tp_stop p \<or> tp_tasks p \<noteq> []) then (Asleep, p)
      else if tp_stop p \<and> tp_tasks p = [] then (Exited, p)
      else (Busy (hd (tp_tasks p)), p\<lparr>tp_tasks := tl (tp_tasks p)\<rparr>))"

definition wake :: "'a worker \<Rightarrow> 'a worker" where
  "wake x = (if x = Asleep then Before_wait else x)"

definition tp_notify_all :: "'a thread_pool \<Rightarrow> 'a thread_pool" where
  "tp_notify_all p = p\<lparr>tp_workers := map wake (tp_workers p)\<rparr>"

definition tp_bind_ok :: "(int \<Rightarrow> bool) \<Rightarrow> int \<Rightarrow> bool" where
  "tp_bind_ok bind core \<longleftrightarrow> \<not> (core > -1 \<and> \<not> bind core)"

subsection \<open>Threads\<close>

text \<open>What a caller still has to do; the flag tells \<open>clear\<close> (True) from the destructor.\<close>

datatype caller = Free | Notifying_one | Notifying_all bool | Joining bool nat | Destroyed

record 'a tp_world =
  tp_pool :: "'a thread_pool"
  callers :: "nat \<Rightarrow> caller"
  accepted :: "'a list"
  started :: "'a list"
  completed :: "'a list"
  clears :: nat
  dying :: bool
  crashed :: bool

definition set_worker :: "nat \<Rightarrow> 'a worker \<Rightarrow> 'a thread_pool \<Rightarrow> 'a thread_pool" where
  "set_worker i x p = p\<lparr>tp_workers := (tp_workers p)[i := x]\<rparr>"

definition set_caller :: "nat \<Rightarrow> caller \<Rightarrow> 'a tp_world \<Rightarrow> 'a tp_world" where
  "set_caller c x w = w\<lparr>callers := (callers w)(c := x)\<rparr>"

definition tp_at :: "nat \<Rightarrow> 'a worker \<Rightarrow> 'a tp_world \<Rightarrow> bool" where
  "tp_at i x w \<longleftrightarrow> i < length (tp_workers (tp_pool w)) \<and> tp_workers (tp_pool w) ! i = x"

inductive tp_worker :: "(int \<Rightarrow> bool) \<Rightarrow> 'a tp_world \<Rightarrow> 'a tp_world \<Rightarrow> bool" for bind where
  worker_start: "\<lbrakk>tp_at i (Starting core) w; tp_bind_ok bind core\<rbrakk> \<Longrightarrow>
     tp_worker bind w (w\<lparr>tp_pool := set_worker i Before_wait (tp_pool w)\<rparr>)"
| worker_fail: "\<lbrakk>tp_at i (Starting core) w; \<not> tp_bind_ok bind core\<rbrakk> \<Longrightarrow>
     tp_worker bind w (w\<lparr>tp_pool := set_worker i Exited (tp_pool w), crashed := True\<rparr>)"
| worker_sleep: "\<lbrakk>tp_at i Before_wait w; tp_wait_section (tp_pool w) = (Asleep, p)\<rbrakk> \<Longrightarrow>
     tp_worker bind w (w\<lparr>tp_pool := set_worker i Asleep p\<rparr>)"
| worker_exit: "\<lbrakk>tp_at i Before_wait w; tp_wait_section (tp_pool w) = (Exited, p)\<rbrakk> \<Longrightarrow>
     tp_worker bind w (w\<lparr>tp_pool := set_worker i Exited p\<rparr>)"
| worker_take: "\<lbrakk>tp_at i Before_wait w; tp_wait_section (tp_pool w) = (Busy t, p)\<rbrakk> \<Longrightarrow>
     tp_worker bind w (w\<lparr>tp_pool := set_worker i (Busy t) p, started := started w @ [t]\<rparr>)"
| worker_done: "tp_at i (Busy t) w \<Longrightarrow>
     tp_worker bind w (w\<lparr>tp_pool := set_worker i Before_wait (tp_pool w), completed := completed w @ [t]\<rparr>)"

inductive tp_step :: "(int \<Rightarrow> bool) \<Rightarrow> 'a tp_world \<Rightarrow> 'a tp_world \<Rightarrow> bool" for bind where
  by_worker: "tp_worker bind w w' \<Longrightarrow> tp_step bind w w'"
| spurious: "tp_at i Asleep w \<Longrightarrow>
     tp_step bind w (w\<lparr>tp_pool := set_worker i Before_wait (tp_pool w)\<rparr>)"
| enqueue_ok: "\<lbrakk>callers w c = Free; \<not> dying w; tp_enqueue_section t (tp_pool w) = (True, p)\<rbrakk> \<Longrightarrow>
     tp_step bind w (set_caller c Notifying_one (w\<lparr>tp_pool := p, accepted := accepted w @ [t]\<rparr>))"
| enqueue_refused: "\<lbrakk>callers w c = Free; \<not> dying w; tp_enqueue_section t (tp_pool w) = (False, p)\<rbrakk> \<Longrightarrow>
     tp_step bind w (w\<lparr>tp_pool := p\<rparr>)"
| notify_one: "\<lbrakk>callers w c = Notifying_one; tp_at i Asleep w\<rbrakk> \<Longrightarrow>
     tp_step bind w (set_caller c Free (w\<lparr>tp_pool := set_worker i Before_wait (tp_pool w)\<rparr>))"
| notify_nobody: "\<lbrakk>callers w c = Notifying_one; Asleep \<notin> set (tp_workers (tp_pool w))\<rbrakk> \<Longrightarrow>
     tp_step bind w (set_caller c Free w)"
| stop: "\<lbrakk>callers w c = Free; \<not> dying w\<rbrakk> \<Longrightarrow>
     tp_step bind w (set_caller c (Notifying_all is_clear) (w\<lparr>tp_pool := tp_set_stop (tp_pool w), dying := \<not> is_clear\<rparr>))"
| notify_all: "callers w c = Notifying_all is_clear \<Longrightarrow>
     tp_step bind w (set_caller c (Joining is_clear 0) (w\<lparr>tp_pool := tp_notify_all (tp_pool w)\<rparr>))"
| join: "\<lbrakk>callers w c = Joining is_clear j; tp_at j Exited w\<rbrakk> \<Longrightarrow>
     tp_step bind w (set_caller c (Joining is_clear (Suc j)) w)"
| clear_done: "\<lbrakk>callers w c = Joining True j; j = tp_size (tp_pool w)\<rbrakk> \<Longrightarrow>
     tp_step bind w (set_caller c Free (w\<lparr>tp_pool := (tp_pool w)\<lparr>tp_stop := False\<rparr>, clears := Suc (clears w)\<rparr>))"
| destroy_done: "\<lbrakk>callers w c = Joining False j; j = tp_size (tp_pool w)\<rbrakk> \<Longrightarrow>
     tp_step bind w (set_caller c Destroyed w)"

text \<open>A run goes on until the program has ended.\<close>

inductive tp_reach :: "(int \<Rightarrow> bool) \<Rightarrow> 'a tp_world \<Rightarrow> 'a tp_world \<Rightarrow> bool" for bind w0 where
  reach_start: "tp_reach bind w0 w0"
| reach_step: "\<lbrakk>tp_reach bind w0 w; \<not> crashed w; tp_step bind w w'\<rbrakk> \<Longrightarrow> tp_reach bind w0 w'"

definition tp_world_new :: "'a thread_pool \<Rightarrow> 'a tp_world" where
  "tp_world_new p = \<lparr>tp_pool = p, callers = (\<lambda>_. Free), accepted = [], started = [], completed = [],
     clears = 0, dying = False, crashed = False\<rparr>"


section \<open>Tasks are run in order, each once\<close>

lemma set_worker_simps [simp]:
  "tp_tasks (set_worker i x p) = tp_tasks p" "tp_stop (set_worker i x p) = tp_stop p"
  "tp_workers (set_worker i x p) = (tp_workers p)[i := x]"
  by (simp_all add: set_worker_def)

lemma set_caller_simps [simp]:
  "tp_pool (set_caller c x w) = tp_pool w" "callers (set_caller c x w) = (callers w)(c := x)"
  "accepted (set_caller c x w) = accepted w" "started (set_caller c x w) = started w"
  "completed (set_caller c x w) = completed w" "clears (set_caller c x w) = clears w"
  "dying (set_caller c x w) = dying w" "crashed (set_caller c x w) = crashed w"
  by (simp_all add: set_caller_def)

lemma set_stop_simps [simp]:
  "tp_tasks (tp_set_stop p) = tp_tasks p" "tp_stop (tp_set_stop p)" "tp_workers (tp_set_stop p) = tp_workers p"
  by (simp_all add: tp_set_stop_def)

lemma notify_all_simps [simp]:
  "tp_tasks (tp_notify_all p) = tp_tasks p" "tp_stop (tp_notify_all p) = tp_stop p"
  "tp_workers (tp_notify_all p) = map wake (tp_workers p)"
  by (simp_all add: tp_notify_all_def)

lemma wait_section_cases:
  "tp_wait_section p = (Asleep, p') \<longleftrightarrow> \<not> tp_stop p \<and> tp_tasks p = [] \<and> p' = p"
  "tp_wait_section p = (Exited, p') \<longleftrightarrow> tp_stop p \<and> tp_tasks p = [] \<and> p' = p"
  "tp_wait_section p = (Busy t, p') \<longleftrightarrow>
     tp_tasks p \<noteq> [] \<and> t = hd (tp_tasks p) \<and> p' = p\<lparr>tp_tasks := tl (tp_tasks p)\<rparr>"
  by (auto simp: tp_wait_section_def)

lemma enqueue_section_cases:
  "tp_enqueue_section t p = (True, p') \<longleftrightarrow> \<not> tp_stop p \<and> p' = p\<lparr>tp_tasks := tp_tasks p @ [t]\<rparr>"
  "tp_enqueue_section t p = (False, p') \<longleftrightarrow> tp_stop p \<and> p' = p"
  by (auto simp: tp_enqueue_section_def)

lemmas section_cases = wait_section_cases enqueue_section_cases

lemma sum_list_map_update:
  fixes f :: "'a \<Rightarrow> 'b::cancel_comm_monoid_add"
  shows "i < length xs \<Longrightarrow> sum_list (map f (xs[i := x])) + f (xs ! i) = sum_list (map f xs) + f x"
proof (induction xs arbitrary: i)
  case (Cons a xs)
  then show ?case by (cases i) (simp_all add: ac_simps)
qed simp

fun busy :: "'a worker \<Rightarrow> 'a multiset" where
  "busy (Busy t) = {#t#}"
| "busy _ = {#}"

definition running :: "'a thread_pool \<Rightarrow> 'a multiset" where
  "running p = sum_list (map busy (tp_workers p))"

lemma running_set_worker:
  assumes "tp_at i x w" "tp_workers p = tp_workers (tp_pool w)"
  shows "running (set_worker i y p) + busy x = running (tp_pool w) + busy y"
  using assms sum_list_map_update [of i "tp_workers p" busy y] by (simp add: running_def tp_at_def)

lemma running_simps [simp]:
  "running (p\<lparr>tp_tasks := ts\<rparr>) = running p" "running (p\<lparr>tp_stop := b\<rparr>) = running p" "running (tp_set_stop p) = running p"
  by (simp_all add: running_def)

lemma busy_wake [simp]: "busy (wake x) = busy x"
  by (simp add: wake_def)

lemma running_notify_all [simp]: "running (tp_notify_all p) = running p"
  by (simp add: running_def comp_def)

definition order_inv :: "nat \<Rightarrow> 'a tp_world \<Rightarrow> bool" where
  "order_inv n w \<longleftrightarrow> accepted w = started w @ tp_tasks (tp_pool w)
     \<and> mset (started w) = mset (completed w) + running (tp_pool w) \<and> tp_size (tp_pool w) = n"

lemma order_inv_worker:
  assumes "order_inv n w" "tp_worker bind w w'"
  shows "order_inv n w'"
  using assms(2)
proof cases
  case (worker_take i t p)
  then have p: "tp_tasks (tp_pool w) = t # tp_tasks p" "tp_workers p = tp_workers (tp_pool w)"
    by (simp_all add: section_cases)
  show ?thesis
    using assms(1) worker_take(1) p running_set_worker [OF worker_take(2) p(2), of "Busy t"]
    by (simp add: order_inv_def tp_size_def)
next
  case (worker_start i core)
  then show ?thesis using assms(1) running_set_worker [OF worker_start(2), of "tp_pool w" Before_wait]
    by (simp add: order_inv_def tp_size_def)
next
  case (worker_fail i core)
  then show ?thesis using assms(1) running_set_worker [OF worker_fail(2), of "tp_pool w" Exited]
    by (simp add: order_inv_def tp_size_def)
next
  case (worker_sleep i p)
  then show ?thesis using assms(1) running_set_worker [OF worker_sleep(2), of p Asleep]
    by (simp add: order_inv_def tp_size_def section_cases)
next
  case (worker_exit i p)
  then show ?thesis using assms(1) running_set_worker [OF worker_exit(2), of p Exited]
    by (simp add: order_inv_def tp_size_def section_cases)
next
  case (worker_done i t)
  then show ?thesis using assms(1) running_set_worker [OF worker_done(2), of "tp_pool w" Before_wait]
    by (simp add: order_inv_def tp_size_def)
qed

lemma order_inv_step:
  assumes "order_inv n w" "tp_step bind w w'"
  shows "order_inv n w'"
  using assms(2)
proof cases
  case by_worker
  then show ?thesis using order_inv_worker assms(1) by blast
next
  case (spurious i)
  then show ?thesis using assms(1) running_set_worker [OF spurious(2), of "tp_pool w" Before_wait]
    by (simp add: order_inv_def tp_size_def)
next
  case (notify_one c i)
  then show ?thesis using assms(1) running_set_worker [OF notify_one(3), of "tp_pool w" Before_wait]
    by (simp add: order_inv_def tp_size_def)
qed (use assms(1) in \<open>auto simp: order_inv_def tp_size_def section_cases\<close>)

lemma order_inv_reach: "tp_reach bind w0 w \<Longrightarrow> order_inv n w0 \<Longrightarrow> order_inv n w"
  by (induction rule: tp_reach.induct) (auto dest: order_inv_step)


section \<open>Wake-ups and exits\<close>

abbreviation ws :: "'a tp_world \<Rightarrow> 'a worker list" where
  "ws w \<equiv> tp_workers (tp_pool w)"

text \<open>A worker has exited for good; a caller that joins has seen the workers before its index exit; and after a
  completed \<open>clear\<close> all workers have exited.\<close>

definition exit_inv :: "'a tp_world \<Rightarrow> bool" where
  "exit_inv w \<longleftrightarrow>
     (\<forall>c k j. callers w c = Joining k j \<longrightarrow> (\<forall>i<j. tp_at i Exited w)) \<and>
     (clears w > 0 \<longrightarrow> (\<forall>i<length (ws w). ws w ! i = Exited))"

lemma exited_stays_worker: "tp_worker bind w w' \<Longrightarrow> tp_at i Exited w \<Longrightarrow> tp_at i Exited w'"
  by (auto elim!: tp_worker.cases simp: tp_at_def nth_list_update section_cases)

lemma exited_stays: "tp_step bind w w' \<Longrightarrow> tp_at i Exited w \<Longrightarrow> tp_at i Exited w'"
  by (auto elim!: tp_step.cases dest: exited_stays_worker)
    (auto simp: tp_at_def nth_list_update section_cases wake_def)

lemma worker_frame:
  assumes "tp_worker bind w w'"
  shows "callers w' = callers w" "clears w' = clears w" "accepted w' = accepted w" "dying w' = dying w"
    "length (ws w') = length (ws w)" "tp_stop (tp_pool w') = tp_stop (tp_pool w)"
  using assms by (auto elim!: tp_worker.cases simp: section_cases)

lemma step_length [simp]: "tp_step bind w w' \<Longrightarrow> length (ws w') = length (ws w)"
  by (auto elim!: tp_step.cases simp: worker_frame section_cases)

lemma exit_inv_step:
  assumes "exit_inv w" "tp_step bind w w'"
  shows "exit_inv w'"
proof -
  have stays: "tp_at i Exited w \<Longrightarrow> tp_at i Exited w'" for i using exited_stays assms(2) by blast
  have joins: "(\<forall>i<j. tp_at i Exited w) \<or> (\<exists>l. j = Suc l \<and> tp_at l Exited w \<and> (\<forall>i<l. tp_at i Exited w))"
    if "callers w' c = Joining k j" for c k j
    using assms(2) that
    by cases (use assms(1) in \<open>auto simp: exit_inv_def worker_frame fun_upd_apply split: if_splits\<close>)
  have all: "\<forall>i<length (ws w). tp_at i Exited w" if "clears w' > 0"
    using assms(2) that
    by cases (use assms(1) in \<open>auto simp: exit_inv_def worker_frame tp_at_def tp_size_def\<close>)
  show ?thesis unfolding exit_inv_def
  proof (intro conjI allI impI)
    fix c k j i assume "callers w' c = Joining k j" "i < j"
    then show "tp_at i Exited w'" using joins [of c k j] stays less_Suc_eq by auto
  next
    fix i assume "clears w' > 0" "i < length (ws w')"
    then show "ws w' ! i = Exited" using all stays [of i] step_length [OF assms(2)] by (simp add: tp_at_def)
  qed
qed

definition awake :: "'a worker \<Rightarrow> bool" where
  "awake x \<longleftrightarrow> x \<noteq> Asleep \<and> x \<noteq> Exited"

definition wake_inv :: "'a tp_world \<Rightarrow> bool" where
  "wake_inv w \<longleftrightarrow>
     ((\<exists>i. tp_at i Exited w) \<longrightarrow> tp_stop (tp_pool w) \<and> tp_tasks (tp_pool w) = []) \<and>
     (tp_tasks (tp_pool w) \<noteq> [] \<longrightarrow> (\<exists>i<length (ws w). awake (ws w ! i)) \<or> (\<exists>c. callers w c = Notifying_one)) \<and>
     ((\<exists>i. tp_at i Asleep w) \<longrightarrow> tp_stop (tp_pool w) \<longrightarrow> (\<exists>c k. callers w c = Notifying_all k)) \<and>
     (\<forall>c k j. callers w c = Notifying_all k \<or> callers w c = Joining k j \<longrightarrow> tp_stop (tp_pool w))"


lemma tp_at_set_worker:
  "tp_at j x (w\<lparr>tp_pool := set_worker i y p\<rparr>) \<longleftrightarrow> (if i = j then j < length (tp_workers p) \<and> x = y
     else j < length (tp_workers p) \<and> tp_workers p ! j = x)"
  by (auto simp: tp_at_def)

lemma awakeI: "tp_at i x w \<Longrightarrow> awake x \<Longrightarrow> \<exists>i<length (ws w). awake (ws w ! i)"
  by (auto simp: tp_at_def)

lemma wake_inv_worker:
  assumes "wake_inv w" "tp_worker bind w w'" "\<not> crashed w'"
  shows "wake_inv w'"
proof -
  have frame: "callers w' = callers w" "tp_stop (tp_pool w') = tp_stop (tp_pool w)" using worker_frame [OF assms(2)] by simp_all
  have ex: "tp_stop (tp_pool w') \<and> tp_tasks (tp_pool w') = []" if "tp_at j Exited w'" for j
    using assms(2) that
    by cases (use assms(1,3) in \<open>auto simp: wake_inv_def tp_at_def section_cases nth_list_update split: if_splits\<close>)
  have run: "\<exists>i<length (ws w'). awake (ws w' ! i)" if "tp_tasks (tp_pool w') \<noteq> []"
    using assms(2)
  proof cases
    case (worker_start i core)
    then show ?thesis by (intro awakeI [of i Before_wait]) (auto simp: tp_at_def awake_def)
  next
    case (worker_take i t p)
    then show ?thesis by (intro awakeI [of i "Busy t"]) (auto simp: tp_at_def awake_def section_cases)
  next
    case (worker_done i t)
    then show ?thesis by (intro awakeI [of i Before_wait]) (auto simp: tp_at_def awake_def)
  qed (use that assms(3) in \<open>auto simp: section_cases\<close>)
  have sleep: "tp_at j Asleep w \<or> \<not> tp_stop (tp_pool w)" if "tp_at j Asleep w'" for j
    using assms(2) that
    by cases (auto simp: tp_at_def section_cases nth_list_update split: if_splits)
  show ?thesis using assms(1) ex run sleep unfolding wake_inv_def frame by blast
qed

lemma step_no_new:
  assumes "tp_step bind w w'" "\<not> tp_worker bind w w'"
  shows "tp_at j Exited w' \<Longrightarrow> tp_at j Exited w" "tp_at j Asleep w' \<Longrightarrow> tp_at j Asleep w"
    "j < length (ws w) \<Longrightarrow> awake (ws w ! j) \<Longrightarrow> awake (ws w' ! j)"
proof -
  have "j < length (ws w) \<Longrightarrow> ws w' ! j \<in> {ws w ! j, wake (ws w ! j)}"
    using assms(1)
  proof cases
    case by_worker
    then show ?thesis using assms(2) by simp
  qed (auto simp: tp_at_def nth_list_update section_cases wake_def)
  then show "tp_at j Exited w' \<Longrightarrow> tp_at j Exited w" "tp_at j Asleep w' \<Longrightarrow> tp_at j Asleep w"
    "j < length (ws w) \<Longrightarrow> awake (ws w ! j) \<Longrightarrow> awake (ws w' ! j)"
    using step_length [OF assms(1)] by (auto simp: tp_at_def wake_def awake_def split: if_splits)
qed

lemma wake_inv_step:
  assumes "wake_inv w" "tp_step bind w w'" "\<not> crashed w'" "clears w' = 0" "ws w \<noteq> []"
  shows "wake_inv w'"
proof (cases "tp_worker bind w w'")
  case True
  then show ?thesis using wake_inv_worker assms(1,3) by blast
next
  case False
  note new = step_no_new [OF assms(2) False]
  have keep: "\<exists>i<length (ws w'). awake (ws w' ! i)" if "\<exists>i<length (ws w). awake (ws w ! i)"
    using that new(3) step_length [OF assms(2)] by auto
  have stop: "tp_stop (tp_pool w') \<and> tp_tasks (tp_pool w') = tp_tasks (tp_pool w)" if "tp_stop (tp_pool w)"
    using assms(2)
  proof cases
    case by_worker
    then show ?thesis using False by simp
  qed (use that assms(4) in \<open>auto simp: section_cases\<close>)
  have pending: "callers w' d = Notifying_one \<or> (\<exists>i<length (ws w'). awake (ws w' ! i))"
    if d: "callers w d = Notifying_one" and "tp_tasks (tp_pool w') \<noteq> []" for d
    using assms(2)
  proof cases
    case by_worker
    then show ?thesis using False by simp
  next
    case (notify_one c i)
    then show ?thesis by (intro disjI2 awakeI [of i Before_wait]) (auto simp: tp_at_def awake_def)
  next
    case (notify_nobody c)
    have "tp_at 0 (ws w ! 0) w" using assms(5) by (simp add: tp_at_def)
    moreover from this have "ws w ! 0 \<noteq> Asleep" using notify_nobody(3) by (metis tp_at_def nth_mem)
    moreover have "\<not> tp_at 0 Exited w" using assms(1) that notify_nobody(1) by (auto simp: wake_inv_def)
    ultimately have "\<exists>i<length (ws w). awake (ws w ! i)" by (intro awakeI [of 0 "ws w ! 0"]) (auto simp: awake_def tp_at_def)
    then show ?thesis using keep by blast
  qed (use d in auto)
  have tasks: "(\<exists>i<length (ws w'). awake (ws w' ! i)) \<or> (\<exists>c. callers w' c = Notifying_one)" if "tp_tasks (tp_pool w') \<noteq> []"
  proof (cases "tp_tasks (tp_pool w) = []")
    case True
    have "\<exists>c. callers w' c = Notifying_one"
      using assms(2)
    proof cases
      case by_worker
      then show ?thesis using False by simp
    next
      case (enqueue_ok c t p)
      then show ?thesis by (intro exI [of _ c]) simp
    qed (use that True in \<open>auto simp: section_cases\<close>)
    then show ?thesis by blast
  next
    case False
    then show ?thesis using assms(1) keep pending that unfolding wake_inv_def by blast
  qed
  have callers: "tp_stop (tp_pool w')" if c: "callers w' d = Notifying_all k \<or> callers w' d = Joining k j" for d k j
  proof -
    have "tp_stop (tp_pool w) \<or> tp_stop (tp_pool w')"
      using assms(2)
    proof cases
      case by_worker
      then show ?thesis using False by simp
    next
      case (notify_all e k')
      then show ?thesis using assms(1) by (auto simp: wake_inv_def)
    next
      case (join e k' j')
      then show ?thesis using assms(1) by (auto simp: wake_inv_def)
    qed (use c assms(1) in \<open>auto simp: wake_inv_def section_cases split: if_splits\<close>)
    then show ?thesis using stop by blast
  qed
  have asleep: "\<exists>c k. callers w' c = Notifying_all k" if a: "tp_at j Asleep w'" "tp_stop (tp_pool w')" for j
  proof -
    have w: "tp_at j Asleep w" using new(2) a(1) .
    then have pend: "\<exists>c k. callers w c = Notifying_all k" if "tp_stop (tp_pool w)"
      using assms(1) that unfolding wake_inv_def by blast
    have "callers w' d = Notifying_all k" if d: "callers w d = Notifying_all k" for d k
      using assms(2)
    proof cases
      case by_worker
      then show ?thesis using False by simp
    next
      case (notify_all c k')
      then show ?thesis using a(1) by (auto simp: tp_at_def wake_def split: if_splits)
    qed (use d in auto)
    moreover have "tp_stop (tp_pool w) \<or> (\<exists>c k. callers w' c = Notifying_all k)"
      using assms(2)
    proof cases
      case by_worker
      then show ?thesis using False by simp
    next
      case (stop c k)
      then show ?thesis by (intro disjI2 exI [of _ c] exI [of _ k]) simp
    qed (use a(2) in \<open>auto simp: section_cases\<close>)
    ultimately show ?thesis using pend by blast
  qed
  show ?thesis
    using assms(1) new(1) stop tasks asleep callers unfolding wake_inv_def by metis
qed


text \<open>A world that is reached has these invariants, the last one as long as no call of \<open>clear\<close> has returned and the
  program has not ended.\<close>

definition tp_good :: "nat \<Rightarrow> 'a tp_world \<Rightarrow> bool" where
  "tp_good n w \<longleftrightarrow> order_inv n w \<and> exit_inv w \<and> (0 < n \<longrightarrow> \<not> crashed w \<longrightarrow> clears w = 0 \<longrightarrow> wake_inv w)"

lemma clears_mono: "tp_step bind w w' \<Longrightarrow> clears w \<le> clears w'"
  by (auto elim!: tp_step.cases simp: worker_frame)

lemma tp_good_reach: "tp_reach bind w0 w \<Longrightarrow> tp_good n w0 \<Longrightarrow> tp_good n w"
proof (induction rule: tp_reach.induct)
  case (reach_step w w')
  then have "order_inv n w'" "exit_inv w'"
    using order_inv_step [OF _ reach_step.hyps(3)] exit_inv_step [OF _ reach_step.hyps(3)] by (simp_all add: tp_good_def)
  moreover have "wake_inv w'" if "0 < n" "\<not> crashed w'" "clears w' = 0"
    using that reach_step wake_inv_step [OF _ reach_step.hyps(3)] clears_mono [OF reach_step.hyps(3)]
    by (auto simp: tp_good_def order_inv_def tp_size_def)
  ultimately show ?case by (simp add: tp_good_def)
qed

definition fresh_pool :: "'a thread_pool \<Rightarrow> bool" where
  "fresh_pool p \<longleftrightarrow> tp_tasks p = [] \<and> \<not> tp_stop p \<and> (\<forall>x\<in>set (tp_workers p). \<exists>core. x = Starting core)"

lemma fresh_pools: "fresh_pool (thread_pool_new n)" "fresh_pool (thread_pool_cores cores)"
  by (auto simp: fresh_pool_def thread_pool_new_def thread_pool_cores_def)

lemma sum_list_all_zero: "(\<And>x. x \<in> set xs \<Longrightarrow> f x = 0) \<Longrightarrow> sum_list (map f xs) = (0 :: 'b::comm_monoid_add)"
  by (induction xs) simp_all

lemma running_fresh: "fresh_pool p \<Longrightarrow> running p = {#}"
  by (auto simp: running_def fresh_pool_def intro!: sum_list_all_zero)

lemma tp_good_new:
  assumes "fresh_pool p"
  shows "tp_good (tp_size p) (tp_world_new p)"
proof -
  have "tp_workers p ! i \<noteq> Exited" "tp_workers p ! i \<noteq> Asleep" if "i < length (tp_workers p)" for i
    using assms nth_mem [OF that] by (auto simp: fresh_pool_def)
  then show ?thesis using running_fresh [OF assms] assms
    by (auto simp: tp_good_def order_inv_def exit_inv_def wake_inv_def tp_world_new_def fresh_pool_def tp_at_def)
qed

lemma tp_good_pools:
  assumes "p \<in> {thread_pool_new n, thread_pool_cores cores}" "tp_reach bind (tp_world_new p) w"
  shows "tp_good (tp_size p) w"
  using tp_good_reach [OF assms(2)] tp_good_new [of p] assms(1) fresh_pools by blast

section \<open>Progress\<close>






text \<open>
  C6. Tasks are started in the order in which they were accepted, each exactly once: at every moment the accepted
  tasks are the started ones followed by the queue, and every started task is completed or held by exactly
  one worker. The number of workers does not change.
\<close>

theorem thread_pool_runs_in_order:
  assumes "p \<in> {thread_pool_new n, thread_pool_cores cores}" "tp_reach bind (tp_world_new p) w"
  shows "accepted w = started w @ tp_tasks (tp_pool w)
    \<and> mset (started w) = mset (completed w) + running (tp_pool w) \<and> tp_size (tp_pool w) = tp_size p"
  using tp_good_pools [OF assms] by (simp add: tp_good_def order_inv_def)


text \<open>
  C27. When the destructor, or the first \<open>clear\<close>, has joined the last worker, every accepted task has been completed.
\<close>

theorem thread_pool_drains:
  assumes "p \<in> {thread_pool_new n, thread_pool_cores cores}" "tp_reach bind (tp_world_new p) w"
    "0 < tp_size p" "\<not> crashed w" "clears w = 0" "callers w c = Joining is_clear (tp_size p)"
  shows "tp_tasks (tp_pool w) = [] \<and> mset (completed w) = mset (accepted w)"
proof -
  have inv: "wake_inv w" "order_inv (tp_size p) w" "exit_inv w"
    using tp_good_pools [OF assms(1,2)] assms(3-5) by (simp_all add: tp_good_def)
  then have all: "\<forall>i<length (ws w). ws w ! i = Exited" and "tp_at 0 Exited w"
    using assms(3,6) by (auto simp: exit_inv_def tp_at_def order_inv_def tp_size_def)
  then have "tp_tasks (tp_pool w) = []" using inv(1) by (auto simp: wake_inv_def)
  moreover have "running (tp_pool w) = {#}"
    unfolding running_def using all by (intro sum_list_all_zero) (auto simp: in_set_conv_nth)
  ultimately show ?thesis using inv(2) by (simp add: order_inv_def)
qed

section \<open>After clear\<close>

lemma stranded:
  assumes "tp_reach bind w w'" "\<forall>i<length (ws w). ws w ! i = Exited"
  shows "started w' = started w \<and> (\<exists>ts. tp_tasks (tp_pool w') = tp_tasks (tp_pool w) @ ts)
    \<and> (\<forall>i<length (ws w'). ws w' ! i = Exited)"
  using assms
proof (induction rule: tp_reach.induct)
  case (reach_step v v')
  then have v: "started v = started w" "\<exists>ts. tp_tasks (tp_pool v) = tp_tasks (tp_pool w) @ ts"
    "\<forall>i<length (ws v). ws v ! i = Exited" by simp_all
  have "\<not> tp_worker bind v v'" using v(3) by (auto elim!: tp_worker.cases simp: tp_at_def)
  then have "started v' = started v \<and> (\<exists>ts. tp_tasks (tp_pool v') = tp_tasks (tp_pool v) @ ts)"
    using reach_step.hyps(3) by (auto elim!: tp_step.cases simp: section_cases)
  moreover have "\<forall>i<length (ws v'). ws v' ! i = Exited"
    using v(3) exited_stays [OF reach_step.hyps(3)] step_length [OF reach_step.hyps(3)] by (auto simp: tp_at_def)
  ultimately show ?case using v(1,2) by fastforce
qed simp

text \<open>
  C38. After a call of \<open>clear\<close> has returned the pool accepts tasks again, because the flag is reset, but the workers
  are gone: whatever happens later, no task is started any more and every queued task stays in the queue,
  so its future never becomes ready. The same holds from the beginning for a pool that was given no cores.
\<close>

theorem thread_pool_stranded_tasks:
  assumes "p \<in> {thread_pool_new n, thread_pool_cores cores}" "tp_reach bind (tp_world_new p) w"
    "clears w > 0 \<or> tp_size p = 0" "tp_reach bind w w'"
  shows "started w' = started w \<and> (\<exists>ts. tp_tasks (tp_pool w') = tp_tasks (tp_pool w) @ ts)"
proof -
  have "exit_inv w" "order_inv (tp_size p) w" using tp_good_pools [OF assms(1,2)] by (simp_all add: tp_good_def)
  then have "\<forall>i<length (ws w). ws w ! i = Exited" using assms(3) by (auto simp: exit_inv_def order_inv_def tp_size_def)
  from stranded [OF assms(4) this] show ?thesis by blast
qed


section \<open>A run\<close>

text \<open>A pool with one worker \<open>x\<close> and one caller \<open>cl\<close>.\<close>

definition duo ::
  "nat worker \<Rightarrow> nat list \<Rightarrow> bool \<Rightarrow> caller \<Rightarrow> nat list \<Rightarrow> nat list \<Rightarrow> nat list \<Rightarrow> nat \<Rightarrow> nat tp_world" where
  "duo x ts st cl acc sta com clr =
     \<lparr>tp_pool = \<lparr>tp_tasks = ts, tp_stop = st, tp_workers = [x]\<rparr>, callers = (\<lambda>_. Free)(0 := cl),
      accepted = acc, started = sta, completed = com, clears = clr, dying = False, crashed = False\<rparr>"

lemma duo_worker_steps:
  "tp_worker (\<lambda>_. True) (duo (Starting core) ts st cl acc sta com clr) (duo Before_wait ts st cl acc sta com clr)"
  "tp_worker (\<lambda>_. True) (duo Before_wait (t # ts) st cl acc sta com clr) (duo (Busy t) ts st cl acc (sta @ [t]) com clr)"
  "tp_worker (\<lambda>_. True) (duo (Busy t) ts st cl acc sta com clr) (duo Before_wait ts st cl acc sta (com @ [t]) clr)"
  "tp_worker (\<lambda>_. True) (duo Before_wait [] True cl acc sta com clr) (duo Exited [] True cl acc sta com clr)"
proof -
  note w = tp_at_def duo_def tp_bind_ok_def set_worker_def
  show "tp_worker (\<lambda>_. True) (duo (Starting core) ts st cl acc sta com clr) (duo Before_wait ts st cl acc sta com clr)"
    using tp_worker.worker_start [of 0 core "duo (Starting core) ts st cl acc sta com clr" "\<lambda>_. True"] by (simp add: w)
  show "tp_worker (\<lambda>_. True) (duo Before_wait (t # ts) st cl acc sta com clr) (duo (Busy t) ts st cl acc (sta @ [t]) com clr)"
    using tp_worker.worker_take [of 0 "duo Before_wait (t # ts) st cl acc sta com clr" t "\<lparr>tp_tasks = ts, tp_stop = st, tp_workers = [Before_wait]\<rparr>"] by (simp add: w tp_wait_section_def)
  show "tp_worker (\<lambda>_. True) (duo (Busy t) ts st cl acc sta com clr) (duo Before_wait ts st cl acc sta (com @ [t]) clr)"
    using tp_worker.worker_done [of 0 t "duo (Busy t) ts st cl acc sta com clr"] by (simp add: w)
  show "tp_worker (\<lambda>_. True) (duo Before_wait [] True cl acc sta com clr) (duo Exited [] True cl acc sta com clr)"
    using tp_worker.worker_exit [of 0 "duo Before_wait [] True cl acc sta com clr" "\<lparr>tp_tasks = [], tp_stop = True, tp_workers = [Before_wait]\<rparr>"] by (simp add: w tp_wait_section_def)
qed

lemma duo_caller_steps:
  "tp_step b (duo x ts False Free acc sta com clr) (duo x (ts @ [t]) False Notifying_one (acc @ [t]) sta com clr)"
  "x \<noteq> Asleep \<Longrightarrow> tp_step b (duo x ts st Notifying_one acc sta com clr) (duo x ts st Free acc sta com clr)"
  "tp_step b (duo x ts st Free acc sta com clr) (duo x ts True (Notifying_all True) acc sta com clr)"
  "tp_step b (duo x ts st (Notifying_all k) acc sta com clr) (duo (wake x) ts st (Joining k 0) acc sta com clr)"
  "tp_step b (duo Exited ts st (Joining k 0) acc sta com clr) (duo Exited ts st (Joining k 1) acc sta com clr)"
  "tp_step b (duo x ts st (Joining True 1) acc sta com clr) (duo x ts False Free acc sta com (Suc clr))"
proof -
  note w = tp_at_def duo_def set_worker_def set_caller_def
  show "tp_step b (duo x ts False Free acc sta com clr) (duo x (ts @ [t]) False Notifying_one (acc @ [t]) sta com clr)"
    using tp_step.enqueue_ok [of "duo x ts False Free acc sta com clr" 0 t "\<lparr>tp_tasks = ts @ [t], tp_stop = False, tp_workers = [x]\<rparr>"] by (simp add: w tp_enqueue_section_def)
  show "tp_step b (duo x ts st Notifying_one acc sta com clr) (duo x ts st Free acc sta com clr)" if "x \<noteq> Asleep"
    using tp_step.notify_nobody [of "duo x ts st Notifying_one acc sta com clr" 0] that by (simp add: w)
  show "tp_step b (duo x ts st Free acc sta com clr) (duo x ts True (Notifying_all True) acc sta com clr)"
    using tp_step.stop [of "duo x ts st Free acc sta com clr" 0 b True] by (simp add: w tp_set_stop_def)
  show "tp_step b (duo x ts st (Notifying_all k) acc sta com clr) (duo (wake x) ts st (Joining k 0) acc sta com clr)"
    using tp_step.notify_all [of "duo x ts st (Notifying_all k) acc sta com clr" 0 k] by (simp add: w tp_notify_all_def)
  show "tp_step b (duo Exited ts st (Joining k 0) acc sta com clr) (duo Exited ts st (Joining k 1) acc sta com clr)"
    using tp_step.join [of "duo Exited ts st (Joining k 0) acc sta com clr" 0 k 0] by (simp add: w)
  show "tp_step b (duo x ts st (Joining True 1) acc sta com clr) (duo x ts False Free acc sta com (Suc clr))"
    using tp_step.clear_done [of "duo x ts st (Joining True 1) acc sta com clr" 0 1] by (simp add: w tp_size_def)
qed

lemma duo_more:
  "tp_reach b w0 (duo x ts st cl acc sta com clr) \<Longrightarrow> tp_step b (duo x ts st cl acc sta com clr) w' \<Longrightarrow> tp_reach b w0 w'"
  by (erule tp_reach.reach_step) (simp_all add: duo_def)

lemmas duo_steps = duo_worker_steps [THEN by_worker] duo_caller_steps

lemma duo_start: "tp_world_new (thread_pool_new 1) = duo (Starting (- 1)) [] False Free [] [] [] 0"
  by (simp add: tp_world_new_def thread_pool_new_def duo_def fun_upd_idem)

lemma duo_run:
  defines "reach \<equiv> tp_reach (\<lambda>_. True) (tp_world_new (thread_pool_new 1))"
  shows "reach (duo Before_wait [7] False Free [7] [] [] 0)"
    "reach (duo Exited [] True (Joining True 1) [7] [7] [7] 0)"
    "reach (duo Exited [] False Free [7] [7] [7] 1)"
proof -
  have 1: "reach (duo Before_wait [] False Free [] [] [] 0)"
    unfolding reach_def duo_start by (rule duo_more [OF tp_reach.reach_start duo_steps(1)])
  have 2: "reach (duo Before_wait [7] False Notifying_one [7] [] [] 0)"
    using duo_more [OF 1 [unfolded reach_def] duo_steps(5) [where t = 7]] by (simp add: reach_def)
  show 3: "reach (duo Before_wait [7] False Free [7] [] [] 0)"
    unfolding reach_def by (rule duo_more [OF 2 [unfolded reach_def] duo_steps(6)]) simp
  have 4: "reach (duo (Busy 7) [] False Free [7] [7] [] 0)"
    using duo_more [OF 3 [unfolded reach_def] duo_steps(2)] by (simp add: reach_def)
  have 5: "reach (duo Before_wait [] False Free [7] [7] [7] 0)"
    using duo_more [OF 4 [unfolded reach_def] duo_steps(3)] by (simp add: reach_def)
  have 6: "reach (duo Before_wait [] True (Notifying_all True) [7] [7] [7] 0)"
    using duo_more [OF 5 [unfolded reach_def] duo_steps(7)] by (simp add: reach_def)
  have 7: "reach (duo Before_wait [] True (Joining True 0) [7] [7] [7] 0)"
    using duo_more [OF 6 [unfolded reach_def] duo_steps(8)] by (simp add: reach_def wake_def)
  have 8: "reach (duo Exited [] True (Joining True 0) [7] [7] [7] 0)"
    using duo_more [OF 7 [unfolded reach_def] duo_steps(4)] by (simp add: reach_def)
  show 9: "reach (duo Exited [] True (Joining True 1) [7] [7] [7] 0)"
    using duo_more [OF 8 [unfolded reach_def] duo_steps(9)] by (simp add: reach_def)
  show "reach (duo Exited [] False Free [7] [7] [7] 1)"
    using duo_more [OF 9 [unfolded reach_def] duo_steps(10)] by (simp add: reach_def)
qed

theorem thread_pool_runs_in_order_witness:
  "accepted (duo Before_wait [7] False Free [7] [] [] 0) = [] @ [7]"
  using thread_pool_runs_in_order [OF _ duo_run(1), of 1 "[]"] by (simp add: duo_def)


theorem thread_pool_drains_witness:
  "mset (completed (duo Exited [] True (Joining True 1) [7] [7] [7] 0)) = {#7#}"
  using thread_pool_drains [OF _ duo_run(2), of 1 "[]" 0 True] by (simp add: duo_def tp_size_def thread_pool_new_def)

text \<open>The future that \<open>enqueue\<close> returns for task 8 after \<open>clear\<close> is valid, but the task is never started.\<close>

theorem thread_pool_stranded_tasks_witness:
  "tp_step (\<lambda>_. True) (duo Exited [] False Free [7] [7] [7] 1) (duo Exited [8] False Notifying_one [7, 8] [7] [7] 1)
   \<and> started (duo Exited [8] False Free [7, 8] [7] [7] 1) = [7]
   \<and> (\<exists>ts. tp_tasks (tp_pool (duo Exited [8] False Free [7, 8] [7] [7] 1)) = [8] @ ts)"
proof -
  have step: "tp_step (\<lambda>_. True) (duo Exited [] False Free [7] [7] [7] 1) (duo Exited [8] False Notifying_one [7, 8] [7] [7] 1)"
    using duo_steps(5) [where t = 8 and ts = "[]" and acc = "[7]"] by simp
  have more: "tp_reach (\<lambda>_. True) (duo Exited [8] False Notifying_one [7, 8] [7] [7] 1) (duo Exited [8] False Free [7, 8] [7] [7] 1)"
    by (rule duo_more [OF tp_reach.reach_start duo_steps(6)]) simp
  show ?thesis
    using step thread_pool_stranded_tasks [OF _ duo_more [OF duo_run(3) step] _ more, of 1 "[]"] by (simp add: duo_def)
qed

end
