(* ===== verification/StripedMap.thy ===== *)
theory StripedMap
  imports HjPrelude "HOL-Library.Multiset" "HOL-Library.AList"
begin

text \<open>
  \<open>src/hj/sync/striped_map.hpp\<close>: a map whose keys are distributed over buckets, each with its own lock.

  A bucket is a \<open>std::unordered_map\<close>: its elements in the order in which it iterates over them. Where a new
  element goes, and how a rehash reorders the others, is left open (\<open>arrange\<close>, any permutation). The function
  that chooses the bucket may be given by the caller; its result is an \<open>int\<close>. The operations on one key hold
  the lock of their bucket for all they do, so each is one atomic step; \<open>range\<close>, \<open>size\<close> and \<open>clear\<close> lock
  one bucket after the other.
\<close>

section \<open>Definitions\<close>

type_synonym ('k, 'v) bucket = "('k \<times> 'v) list"

record ('k, 'v) striped_map =
  sm_buckets :: "('k, 'v) bucket list"
  sm_strip_fn :: "'k \<Rightarrow> int result"

definition sm_new :: "('k \<Rightarrow> int result) \<Rightarrow> nat \<Rightarrow> ('k, 'v) striped_map" where
  "sm_new fn capa = \<lparr>sm_buckets = replicate capa [], sm_strip_fn = fn\<rparr>"

text \<open>\<open>static_cast<int>(std::hash<Key>{}(k) % capa)\<close>\<close>

definition sm_default_strip :: "('k \<Rightarrow> u64) \<Rightarrow> nat \<Rightarrow> 'k \<Rightarrow> int result" where
  "sm_default_strip hash capa k =
     (if capa = 0 then Inl Division_by_zero else Inr (sint (of_nat (unat (hash k) mod capa) :: u32)))"

definition sm_bucket :: "('k, 'v) striped_map \<Rightarrow> 'k \<Rightarrow> nat result" where
  "sm_bucket m k =
     (case sm_strip_fn m k of
        Inl err \<Rightarrow> Inl err
      | Inr bucket \<Rightarrow> if bucket < 0 \<or> nat bucket \<ge> length (sm_buckets m) then Inl Throw_out_of_range
                       else Inr (nat bucket))"

definition sm_update :: "('k, 'v) striped_map \<Rightarrow> nat \<Rightarrow> ('k, 'v) bucket \<Rightarrow> ('k, 'v) striped_map" where
  "sm_update m b xs = m\<lparr>sm_buckets := (sm_buckets m)[b := xs]\<rparr>"

definition bucket_emplace :: "(('k \<times> 'v) list \<Rightarrow> ('k \<times> 'v) list) \<Rightarrow> 'k \<Rightarrow> 'v \<Rightarrow> ('k, 'v) bucket \<Rightarrow> ('k, 'v) bucket" where
  "bucket_emplace arrange k v xs = (if map_of xs k = None then arrange ((k, v) # xs) else xs)"

definition bucket_assign :: "(('k \<times> 'v) list \<Rightarrow> ('k \<times> 'v) list) \<Rightarrow> 'k \<Rightarrow> 'v \<Rightarrow> ('k, 'v) bucket \<Rightarrow> ('k, 'v) bucket" where
  "bucket_assign arrange k v xs = (if map_of xs k = None then arrange ((k, v) # xs) else AList.update k v xs)"

definition sm_emplace where
  "sm_emplace arrange k v m =
     map_sum id (\<lambda>b. sm_update m b (bucket_emplace arrange k v (sm_buckets m ! b))) (sm_bucket m k)"

definition sm_replace where
  "sm_replace arrange k v m =
     map_sum id (\<lambda>b. sm_update m b (bucket_assign arrange k v (sm_buckets m ! b))) (sm_bucket m k)"

definition sm_find :: "'k \<Rightarrow> ('k, 'v) striped_map \<Rightarrow> 'v option result" where
  "sm_find k m = map_sum id (\<lambda>b. map_of (sm_buckets m ! b) k) (sm_bucket m k)"

definition sm_erase :: "'k \<Rightarrow> ('k, 'v) striped_map \<Rightarrow> (bool \<times> ('k, 'v) striped_map) result" where
  "sm_erase k m =
     map_sum id (\<lambda>b. let xs = sm_buckets m ! b; ys = filter (\<lambda>(k', _). k' \<noteq> k) xs
                     in (length ys < length xs, sm_update m b ys)) (sm_bucket m k)"

text \<open>The handler of \<open>range\<close> has a state of its own and asks to go on or to stop.\<close>

primrec range_bucket :: "('k \<Rightarrow> 'v \<Rightarrow> 's \<Rightarrow> bool \<times> 's) \<Rightarrow> ('k, 'v) bucket \<Rightarrow> 's \<Rightarrow> bool \<times> 's" where
  "range_bucket fn [] s = (True, s)"
| "range_bucket fn (x # xs) s =
     (case fn (fst x) (snd x) s of (go_on, s') \<Rightarrow> if go_on then range_bucket fn xs s' else (False, s'))"

primrec range_buckets :: "('k \<Rightarrow> 'v \<Rightarrow> 's \<Rightarrow> bool \<times> 's) \<Rightarrow> ('k, 'v) bucket list \<Rightarrow> 's \<Rightarrow> 's" where
  "range_buckets fn [] s = s"
| "range_buckets fn (xs # bs) s =
     (case range_bucket fn xs s of (go_on, s') \<Rightarrow> if go_on then range_buckets fn bs s' else s')"

definition sm_range :: "('k \<Rightarrow> 'v \<Rightarrow> 's \<Rightarrow> bool \<times> 's) \<Rightarrow> ('k, 'v) striped_map \<Rightarrow> 's \<Rightarrow> 's" where
  "sm_range fn m s = range_buckets fn (sm_buckets m) s"

text \<open>\<open>size\<close> sees bucket \<open>b\<close> in the state in which it holds its lock.\<close>

definition sm_size_seen :: "nat \<Rightarrow> (nat \<Rightarrow> ('k, 'v) striped_map) \<Rightarrow> nat" where
  "sm_size_seen n seen = foldl (\<lambda>total b. total + length (sm_buckets (seen b) ! b)) 0 [0..<n]"

definition sm_size :: "('k, 'v) striped_map \<Rightarrow> nat" where
  "sm_size m = sm_size_seen (length (sm_buckets m)) (\<lambda>_. m)"



subsection \<open>The iterator\<close>

text \<open>The bucket and the place in it; a value-initialised iterator of a bucket is \<open>None\<close>.\<close>

type_synonym sm_iterator = "nat \<times> nat option"

function advance_loop :: "('k, 'v) bucket list \<Rightarrow> nat \<Rightarrow> nat option \<Rightarrow> sm_iterator" where
  "advance_loop bs bucket it =
     (if bucket < length bs \<and> it = Some (length (bs ! bucket))
      then advance_loop bs (bucket + 1) (if bucket + 1 < length bs then Some 0 else it)
      else (bucket, it))"
  by pat_completeness auto
termination
  by (relation "measure (\<lambda>(bs, bucket, it). length bs - bucket)") auto

declare advance_loop.simps [simp del]

definition advance_to_valid :: "('k, 'v) striped_map \<Rightarrow> sm_iterator \<Rightarrow> sm_iterator" where
  "advance_to_valid m itr =
     (if sm_buckets m = [] then (0, None)
      else case advance_loop (sm_buckets m) (fst itr) (snd itr) of
             (bucket, it) \<Rightarrow> if bucket \<ge> length (sm_buckets m) then (bucket, None) else (bucket, it))"

definition sm_end :: "('k, 'v) striped_map \<Rightarrow> sm_iterator" where
  "sm_end m = advance_to_valid m (length (sm_buckets m), None)"

definition sm_begin :: "('k, 'v) striped_map \<Rightarrow> sm_iterator" where
  "sm_begin m = (if sm_buckets m = [] then sm_end m else advance_to_valid m (0, Some 0))"

definition sm_deref :: "('k, 'v) striped_map \<Rightarrow> sm_iterator \<Rightarrow> ('k \<times> 'v) result" where
  "sm_deref m itr =
     (case itr of
        (bucket, Some i) \<Rightarrow>
          if bucket < length (sm_buckets m) \<and> i < length (sm_buckets m ! bucket) then Inr (sm_buckets m ! bucket ! i)
          else Inl Out_of_bounds
      | (bucket, None) \<Rightarrow> Inl Out_of_bounds)"

definition sm_next :: "('k, 'v) striped_map \<Rightarrow> sm_iterator \<Rightarrow> sm_iterator result" where
  "sm_next m itr = map_sum id (\<lambda>_. advance_to_valid m (fst itr, map_option Suc (snd itr))) (sm_deref m itr)"

definition sm_post_inc :: "('k, 'v) striped_map \<Rightarrow> sm_iterator \<Rightarrow> (sm_iterator \<times> sm_iterator) result" where
  "sm_post_inc m itr = map_sum id (\<lambda>itr'. (itr, itr')) (sm_next m itr)"

section \<open>What a map promises\<close>

datatype ('k, 'v) kv_op = Emplace 'k 'v | Replace 'k 'v | Find 'k | Erase 'k

datatype 'v kv_answer = Unit | Found "'v option" | Erased bool

fun kv_spec :: "('k, 'v) kv_op \<Rightarrow> ('k \<rightharpoonup> 'v) \<Rightarrow> 'v kv_answer \<times> ('k \<rightharpoonup> 'v)" where
  "kv_spec (Emplace k v) f = (Unit, if f k = None then f(k \<mapsto> v) else f)"
| "kv_spec (Replace k v) f = (Unit, f(k \<mapsto> v))"
| "kv_spec (Find k) f = (Found (f k), f)"
| "kv_spec (Erase k) f = (Erased (f k \<noteq> None), f(k := None))"

primrec kv_spec_run :: "('k, 'v) kv_op list \<Rightarrow> ('k \<rightharpoonup> 'v) \<Rightarrow> 'v kv_answer list \<times> ('k \<rightharpoonup> 'v)" where
  "kv_spec_run [] f = ([], f)"
| "kv_spec_run (op # ops) f =
     (case kv_spec op f of (a, f') \<Rightarrow> case kv_spec_run ops f' of (as, f'') \<Rightarrow> (a # as, f''))"

primrec kv_run ::
  "(('k, 'v) kv_op \<Rightarrow> 's \<Rightarrow> ('v kv_answer \<times> 's) result) \<Rightarrow> ('k, 'v) kv_op list \<Rightarrow> 's \<Rightarrow> ('v kv_answer list \<times> 's) result" where
  "kv_run exec [] s = Inr ([], s)"
| "kv_run exec (op # ops) s =
     (case exec op s of
        Inl err \<Rightarrow> Inl err
      | Inr (a, s') \<Rightarrow> map_sum id (\<lambda>(as, s''). (a # as, s'')) (kv_run exec ops s'))"

fun sm_exec :: "(('k \<times> 'v) list \<Rightarrow> ('k \<times> 'v) list) \<Rightarrow> ('k, 'v) kv_op \<Rightarrow> ('k, 'v) striped_map
    \<Rightarrow> ('v kv_answer \<times> ('k, 'v) striped_map) result" where
  "sm_exec arrange (Emplace k v) m = map_sum id (\<lambda>m'. (Unit, m')) (sm_emplace arrange k v m)"
| "sm_exec arrange (Replace k v) m = map_sum id (\<lambda>m'. (Unit, m')) (sm_replace arrange k v m)"
| "sm_exec arrange (Find k) m = map_sum id (\<lambda>r. (Found r, m)) (sm_find k m)"
| "sm_exec arrange (Erase k) m = map_sum id (\<lambda>(r, m'). (Erased r, m')) (sm_erase k m)"

text \<open>A store that does every operation as the map it stands for does.\<close>

locale key_value_store =
  fixes ok :: "'s \<Rightarrow> bool" and abs :: "'s \<Rightarrow> ('k \<rightharpoonup> 'v)"
    and exec :: "('k, 'v) kv_op \<Rightarrow> 's \<Rightarrow> ('v kv_answer \<times> 's) result"
  assumes exec_refines: "ok s \<Longrightarrow> \<exists>s'. exec op s = Inr (fst (kv_spec op (abs s)), s') \<and> ok s' \<and> abs s' = snd (kv_spec op (abs s))"
begin

lemma run_refines:
  "ok s \<Longrightarrow> \<exists>s'. kv_run exec ops s = Inr (fst (kv_spec_run ops (abs s)), s') \<and> ok s' \<and> abs s' = snd (kv_spec_run ops (abs s))"
proof (induction ops arbitrary: s)
  case (Cons op ops)
  obtain s' where s': "exec op s = Inr (fst (kv_spec op (abs s)), s')" "ok s'" "abs s' = snd (kv_spec op (abs s))"
    using exec_refines [OF Cons.prems] by blast
  then obtain s'' where "kv_run exec ops s' = Inr (fst (kv_spec_run ops (abs s')), s'')" "ok s''"
      "abs s'' = snd (kv_spec_run ops (abs s'))"
    using Cons.IH by blast
  then show ?case using s' by (auto simp: split_beta)
qed simp

end

section \<open>The striped map keeps this promise\<close>

definition sm_abs :: "('k, 'v) striped_map \<Rightarrow> ('k \<rightharpoonup> 'v)" where
  "sm_abs m k = (case sm_bucket m k of Inl _ \<Rightarrow> None | Inr b \<Rightarrow> map_of (sm_buckets m ! b) k)"

text \<open>Every key has a bucket, and a bucket holds only keys of its own, each once.\<close>

definition sm_ok :: "('k, 'v) striped_map \<Rightarrow> bool" where
  "sm_ok m \<longleftrightarrow> (\<forall>k. \<exists>b. sm_bucket m k = Inr b) \<and>
     (\<forall>b<length (sm_buckets m). distinct (map fst (sm_buckets m ! b)) \<and>
        (\<forall>k\<in>fst ` set (sm_buckets m ! b). sm_bucket m k = Inr b))"

lemma sm_bucket_less: "sm_bucket m k = Inr b \<Longrightarrow> b < length (sm_buckets m)"
  by (auto simp: sm_bucket_def split: sum.splits if_splits)

lemma sm_update_simps [simp]:
  "sm_buckets (sm_update m b ys) = (sm_buckets m)[b := ys]" "sm_bucket (sm_update m b ys) k = sm_bucket m k"
  by (simp_all add: sm_update_def sm_bucket_def split: sum.split)

lemma sm_update_refines:
  assumes "sm_ok m" "sm_bucket m k = Inr b" "distinct (map fst ys)" "fst ` set ys \<subseteq> insert k (fst ` set (sm_buckets m ! b))"
    and other: "\<And>k'. k' \<noteq> k \<Longrightarrow> map_of ys k' = map_of (sm_buckets m ! b) k'"
  shows "sm_ok (sm_update m b ys) \<and> sm_abs (sm_update m b ys) = (sm_abs m)(k := map_of ys k)"
proof
  note less = sm_bucket_less [OF assms(2)]
  have own: "sm_bucket m k' = Inr b" if "k' \<in> fst ` set ys" for k'
  proof (cases "k' = k")
    case False
    then have "k' \<in> fst ` set (sm_buckets m ! b)" using that assms(4) by blast
    then show ?thesis using assms(1) less unfolding sm_ok_def by blast
  qed (simp add: assms(2))
  show "sm_ok (sm_update m b ys)" unfolding sm_ok_def
  proof (intro conjI allI impI)
    fix i assume i: "i < length (sm_buckets (sm_update m b ys))"
    show "distinct (map fst (sm_buckets (sm_update m b ys) ! i))"
      using assms(1,3) i by (cases "i = b") (auto simp: sm_ok_def)
    show "\<forall>k'\<in>fst ` set (sm_buckets (sm_update m b ys) ! i). sm_bucket (sm_update m b ys) k' = Inr i"
      using assms(1) own i by (cases "i = b") (auto simp: sm_ok_def)
  qed (use assms(1) in \<open>simp add: sm_ok_def\<close>)
  show "sm_abs (sm_update m b ys) = (sm_abs m)(k := map_of ys k)"
  proof
    fix k'
    show "sm_abs (sm_update m b ys) k' = ((sm_abs m)(k := map_of ys k)) k'"
      using assms(2) less other sm_bucket_less [of m k']
      by (cases "k' = k") (auto simp: sm_abs_def nth_list_update split: sum.splits)
  qed
qed

lemma insert_bucket:
  assumes "mset (arrange ((k, v) # xs)) = mset ((k, v) # xs)" "distinct (map fst xs)" "map_of xs k = None"
  defines "ys \<equiv> arrange ((k, v) # xs)"
  shows "distinct (map fst ys)" "fst ` set ys = insert k (fst ` set xs)" "map_of ys = (map_of xs)(k \<mapsto> v)"
proof -
  have d: "distinct (map fst ((k, v) # xs))" using assms(2,3) by (simp add: map_of_eq_None_iff)
  have s: "set ys = set ((k, v) # xs)" unfolding ys_def using assms(1) by (rule mset_eq_setD)
  have "mset (map fst ys) = mset (map fst ((k, v) # xs))" unfolding ys_def mset_map assms(1) ..
  then show d': "distinct (map fst ys)" using d by (metis mset_eq_imp_distinct_iff)
  show "fst ` set ys = insert k (fst ` set xs)" using s by simp
  have "map_of ys = map_of ((k, v) # xs)"
    using d d' s by (intro map_of_inject_set [THEN iffD2]) simp_all
  then show "map_of ys = (map_of xs)(k \<mapsto> v)" by simp
qed


text \<open>\<open>arrange\<close> reorders.\<close>

definition reorders :: "(('k \<times> 'v) list \<Rightarrow> ('k \<times> 'v) list) \<Rightarrow> bool" where
  "reorders arrange \<longleftrightarrow> (\<forall>xs. mset (arrange xs) = mset xs)"

lemma sm_exec_refines:
  assumes "reorders arrange" "sm_ok m"
  shows "\<exists>m'. sm_exec arrange op m = Inr (fst (kv_spec op (sm_abs m)), m') \<and> sm_ok m' \<and> sm_abs m' = snd (kv_spec op (sm_abs m))"
proof -
  have bucket: "\<exists>b. sm_bucket m k = Inr b \<and> sm_abs m k = map_of (sm_buckets m ! b) k \<and> distinct (map fst (sm_buckets m ! b))" for k
    using assms(2) sm_bucket_less [of m k] by (fastforce simp: sm_ok_def sm_abs_def)
  have ins: "sm_ok (sm_update m b (arrange ((k, v) # sm_buckets m ! b)))
      \<and> sm_abs (sm_update m b (arrange ((k, v) # sm_buckets m ! b))) = (sm_abs m)(k \<mapsto> v)"
    if "sm_bucket m k = Inr b" "map_of (sm_buckets m ! b) k = None" "distinct (map fst (sm_buckets m ! b))" for b k v
    using sm_update_refines [OF assms(2) that(1) insert_bucket(1) [OF _ that(3,2)]] insert_bucket(2,3) [OF _ that(3,2), of arrange v] assms(1)
    by (auto simp: reorders_def)
  show ?thesis
  proof (cases op)
    case (Emplace k v)
    obtain b where b: "sm_bucket m k = Inr b" "sm_abs m k = map_of (sm_buckets m ! b) k" "distinct (map fst (sm_buckets m ! b))"
      using bucket by blast
    show ?thesis
    proof (cases "map_of (sm_buckets m ! b) k")
      case None
      then show ?thesis using Emplace b ins [OF b(1) None b(3), of v] by (simp add: sm_emplace_def bucket_emplace_def)
    next
      case (Some u)
      have "sm_update m b (sm_buckets m ! b) = m" by (simp add: sm_update_def)
      then show ?thesis using Emplace b Some assms(2) by (simp add: sm_emplace_def bucket_emplace_def)
    qed
  next
    case (Replace k v)
    obtain b where b: "sm_bucket m k = Inr b" "sm_abs m k = map_of (sm_buckets m ! b) k" "distinct (map fst (sm_buckets m ! b))"
      using bucket by blast
    show ?thesis
    proof (cases "map_of (sm_buckets m ! b) k")
      case None
      then show ?thesis using Replace b ins [OF b(1) None b(3), of v] by (simp add: sm_replace_def bucket_assign_def)
    next
      case (Some u)
      have "sm_ok (sm_update m b (AList.update k v (sm_buckets m ! b))) \<and>
          sm_abs (sm_update m b (AList.update k v (sm_buckets m ! b))) = (sm_abs m)(k := map_of (AList.update k v (sm_buckets m ! b)) k)"
        using b(3) by (intro sm_update_refines [OF assms(2) b(1)]) (simp_all add: distinct_update dom_update update_conv)
      then show ?thesis using Replace b Some by (simp add: sm_replace_def bucket_assign_def update_conv)
    qed
  next
    case (Find k)
    then show ?thesis using bucket [of k] assms(2) by (auto simp: sm_find_def)
  next
    case (Erase k)
    obtain b where b: "sm_bucket m k = Inr b" "sm_abs m k = map_of (sm_buckets m ! b) k" "distinct (map fst (sm_buckets m ! b))"
      using bucket by blast
    define ys where "ys = filter (\<lambda>(k', _). k' \<noteq> k) (sm_buckets m ! b)"
    have ys: "ys = AList.delete k (sm_buckets m ! b)" by (auto simp: ys_def AList.delete_eq intro: filter_cong)
    have "sm_ok (sm_update m b ys) \<and> sm_abs (sm_update m b ys) = (sm_abs m)(k := map_of ys k)"
      using b(3) by (intro sm_update_refines [OF assms(2) b(1)]) (simp_all add: ys AList.distinct_delete AList.dom_delete_subset subset_insertI2)
    moreover have "map_of ys k = None" by (simp add: ys AList.delete_conv')
    moreover have "length ys < length (sm_buckets m ! b) \<longleftrightarrow> map_of (sm_buckets m ! b) k \<noteq> None"
    proof
      show "length ys < length (sm_buckets m ! b)" if "map_of (sm_buckets m ! b) k \<noteq> None"
      proof -
        obtain u where "(k, u) \<in> set (sm_buckets m ! b)" using \<open>map_of (sm_buckets m ! b) k \<noteq> None\<close> by (meson map_of_SomeD not_None_eq)
        then show ?thesis unfolding ys_def by (rule length_filter_less) simp
      qed
      show "map_of (sm_buckets m ! b) k \<noteq> None" if "length ys < length (sm_buckets m ! b)"
      proof
        assume "map_of (sm_buckets m ! b) k = None"
        then have "ys = sm_buckets m ! b" by (simp add: ys map_of_eq_None_iff)
        then show False using \<open>length ys < length (sm_buckets m ! b)\<close> by simp
      qed
    qed
    ultimately show ?thesis using Erase b by (simp add: sm_erase_def Let_def flip: ys_def)
  qed
qed


interpretation striped: key_value_store "\<lambda>m. reorders arrange \<and> sm_ok m" sm_abs "sm_exec arrange" for arrange
  using sm_exec_refines by unfold_locales blast

text \<open>A function that maps every key to an index of a bucket.\<close>

definition strip_in :: "('k \<Rightarrow> int result) \<Rightarrow> nat \<Rightarrow> bool" where
  "strip_in fn capa \<longleftrightarrow> (\<forall>k. \<exists>b. fn k = Inr b \<and> 0 \<le> b \<and> b < int capa)"

lemma sm_ok_new: "strip_in fn capa \<Longrightarrow> sm_ok (sm_new fn capa)" "sm_abs (sm_new fn capa) = Map.empty"
proof -
  assume fn: "strip_in fn capa"
  have "\<exists>b. sm_bucket (sm_new fn capa) k = Inr b" for k
  proof -
    obtain b where "fn k = Inr b" "0 \<le> b" "b < int capa" using fn by (auto simp: strip_in_def)
    then show ?thesis by (simp add: sm_bucket_def sm_new_def)
  qed
  then show "sm_ok (sm_new fn capa)" unfolding sm_ok_def by (intro conjI allI) (simp_all add: sm_new_def)
next
  show "sm_abs (sm_new fn capa) = Map.empty"
    using sm_bucket_less [of "sm_new fn capa"]
    by (fastforce simp: sm_abs_def sm_new_def split: sum.split)
qed

subsection \<open>All entries\<close>

lemma sm_entries:
  assumes "sm_ok m"
  shows "distinct (map fst (concat (sm_buckets m)))" "map_of (concat (sm_buckets m)) = sm_abs m"
proof -
  have own: "sm_bucket m k = Inr b" if "k \<in> fst ` set (sm_buckets m ! b)" "b < length (sm_buckets m)" for k b
    using assms that unfolding sm_ok_def by blast
  have "distinct (map fst (concat (take n (sm_buckets m))))" if "n \<le> length (sm_buckets m)" for n
    using that
  proof (induction n)
    case (Suc n)
    then have n: "n < length (sm_buckets m)" by simp
    have "fst ` set (concat (take n (sm_buckets m))) \<inter> fst ` set (sm_buckets m ! n) = {}"
    proof (rule ccontr)
      assume "fst ` set (concat (take n (sm_buckets m))) \<inter> fst ` set (sm_buckets m ! n) \<noteq> {}"
      then obtain k i where "i < n" "k \<in> fst ` set (sm_buckets m ! i)" "k \<in> fst ` set (sm_buckets m ! n)"
        using n by (auto simp: in_set_conv_nth image_iff) (metis fst_conv nth_mem)
      then show False using own [of k i] own [of k n] n by simp
    qed
    then show ?case using Suc assms by (auto simp: take_Suc_conv_app_nth sm_ok_def)
  qed simp
  from this [of "length (sm_buckets m)"] show d: "distinct (map fst (concat (sm_buckets m)))" by simp
  show "map_of (concat (sm_buckets m)) = sm_abs m"
  proof
    fix k
    obtain b where b: "sm_bucket m k = Inr b" "b < length (sm_buckets m)"
      using assms sm_bucket_less by (fastforce simp: sm_ok_def)
    show "map_of (concat (sm_buckets m)) k = sm_abs m k"
    proof (cases "map_of (sm_buckets m ! b) k")
      case None
      then have "k \<notin> fst ` set (concat (sm_buckets m))"
        using own [of k] b by (auto simp: map_of_eq_None_iff in_set_conv_nth image_iff) (metis Inr_inject fst_conv nth_mem)
      then have "map_of (concat (sm_buckets m)) k = None" unfolding map_of_eq_None_iff .
      then show ?thesis using None b(1) by (simp add: sm_abs_def)
    next
      case (Some v)
      then have "(k, v) \<in> set (concat (sm_buckets m))" using b(2) by (auto dest: map_of_SomeD)
      then have "map_of (concat (sm_buckets m)) k = Some v" using d by (simp add: map_of_is_SomeI)
      then show ?thesis using Some b(1) by (simp add: sm_abs_def)
    qed
  qed
qed

lemma sm_size_seen_sum: "sm_size_seen n seen = (\<Sum>b<n. length (sm_buckets (seen b) ! b))"
  by (induction n) (simp_all add: sm_size_seen_def)




subsection \<open>Iteration\<close>

text \<open>What an iterator has still to visit.\<close>

definition entries_from :: "('k, 'v) striped_map \<Rightarrow> sm_iterator \<Rightarrow> ('k \<times> 'v) list" where
  "entries_from m itr = (case snd itr of None \<Rightarrow> [] | Some i \<Rightarrow> drop i (concat (drop (fst itr) (sm_buckets m))))"

definition points_at :: "('k, 'v) striped_map \<Rightarrow> sm_iterator \<Rightarrow> bool" where
  "points_at m itr \<longleftrightarrow> itr = (length (sm_buckets m), None) \<or>
     (\<exists>b i. itr = (b, Some i) \<and> b < length (sm_buckets m) \<and> i < length (sm_buckets m ! b))"

lemma sm_end_eq: "sm_end m = (length (sm_buckets m), None)"
  by (simp add: sm_end_def advance_to_valid_def advance_loop.simps)

lemma advance_to_valid_ok:
  assumes "b < length (sm_buckets m)" "i \<le> length (sm_buckets m ! b)"
  shows "points_at m (advance_to_valid m (b, Some i))
    \<and> entries_from m (advance_to_valid m (b, Some i)) = drop i (concat (drop b (sm_buckets m)))"
  using assms
proof (induction "length (sm_buckets m) - b" arbitrary: b i)
  case (Suc n)
  let ?bs = "sm_buckets m"
  have split: "concat (drop b ?bs) = ?bs ! b @ concat (drop (Suc b) ?bs)" using Suc.prems(1) by (simp flip: Cons_nth_drop_Suc)
  show ?case
  proof (cases "i = length (?bs ! b)")
    case False
    then have "advance_to_valid m (b, Some i) = (b, Some i)"
      using Suc.prems by (auto simp: advance_to_valid_def advance_loop.simps [of ?bs b])
    then show ?thesis using False Suc.prems by (auto simp: points_at_def entries_from_def)
  next
    case True
    show ?thesis
    proof (cases "Suc b < length ?bs")
      case less: True
      have "advance_to_valid m (b, Some i) = advance_to_valid m (Suc b, Some 0)"
        using True Suc.prems(1) less by (simp add: advance_to_valid_def advance_loop.simps [of ?bs b])
      moreover have "points_at m (advance_to_valid m (Suc b, Some 0))
          \<and> entries_from m (advance_to_valid m (Suc b, Some 0)) = drop 0 (concat (drop (Suc b) ?bs))"
        using Suc.hyps(2) less by (intro Suc.hyps(1)) simp_all
      ultimately show ?thesis using True split by simp
    next
      case False
      then have "Suc b = length ?bs" using Suc.prems(1) by simp
      then have "advance_to_valid m (b, Some i) = (length ?bs, None)"
        using True Suc.prems(1)
        by (auto simp: advance_to_valid_def advance_loop.simps [of ?bs b] advance_loop.simps [of ?bs "length ?bs"])
      then show ?thesis using True split \<open>Suc b = length ?bs\<close> by (simp add: points_at_def entries_from_def)
    qed
  qed
qed simp

lemma sm_begin_ok: "points_at m (sm_begin m) \<and> entries_from m (sm_begin m) = concat (sm_buckets m)"
  using advance_to_valid_ok [of 0 m 0]
  by (cases "sm_buckets m = []") (simp_all add: sm_begin_def sm_end_eq points_at_def entries_from_def)

lemma sm_next_ok:
  assumes "points_at m itr" "itr \<noteq> sm_end m"
  shows "\<exists>x itr'. sm_deref m itr = Inr x \<and> sm_next m itr = Inr itr' \<and> points_at m itr' \<and> entries_from m itr = x # entries_from m itr'"
proof -
  obtain b i where itr: "itr = (b, Some i)" "b < length (sm_buckets m)" "i < length (sm_buckets m ! b)"
    using assms by (auto simp: points_at_def sm_end_eq)
  have "drop i (concat (drop b (sm_buckets m))) = sm_buckets m ! b ! i # drop (Suc i) (concat (drop b (sm_buckets m)))"
    using itr(2,3) by (subst (1 2) Cons_nth_drop_Suc [OF itr(2), symmetric]) (simp flip: Cons_nth_drop_Suc)
  then show ?thesis
    using advance_to_valid_ok [of b m "Suc i"] itr by (simp add: sm_deref_def sm_next_def entries_from_def [of m "(b, Some i)"])
qed

text \<open>The loop \<open>for(it = m.begin(); it != m.end(); ++it)\<close> of a client: the entries it dereferences.\<close>

function sm_walk :: "('k, 'v) striped_map \<Rightarrow> sm_iterator \<Rightarrow> ('k \<times> 'v) list result" where
  "sm_walk m itr =
     (if itr = sm_end m then Inr []
      else case sm_deref m itr of
             Inl err \<Rightarrow> Inl err
           | Inr x \<Rightarrow> (case sm_next m itr of
                           Inl err \<Rightarrow> Inl err
                         | Inr itr' \<Rightarrow> map_sum id (\<lambda>xs. x # xs) (sm_walk m itr')))"
  by pat_completeness auto
termination
proof (relation "measure (\<lambda>(m, itr). length (entries_from m itr))")
  fix m :: "('k, 'v) striped_map" and itr x itr'
  assume "itr \<noteq> sm_end m" "sm_deref m itr = Inr x" "sm_next m itr = Inr itr'"
  moreover from this have "points_at m itr"
    by (cases itr, cases "snd itr") (auto simp: sm_deref_def points_at_def split: if_splits)
  ultimately show "((m, itr'), m, itr) \<in> measure (\<lambda>(m, itr). length (entries_from m itr))"
    using sm_next_ok [of m itr] by auto
qed simp

declare sm_walk.simps [simp del]

lemma sm_walk_ok: "points_at m itr \<Longrightarrow> sm_walk m itr = Inr (entries_from m itr)"
proof (induction "length (entries_from m itr)" arbitrary: itr rule: less_induct)
  case less
  show ?case
  proof (cases "itr = sm_end m")
    case True
    then show ?thesis by (simp add: sm_walk.simps sm_end_eq entries_from_def)
  next
    case False
    obtain x itr' where n: "sm_deref m itr = Inr x" "sm_next m itr = Inr itr'" "points_at m itr'" "entries_from m itr = x # entries_from m itr'"
      using sm_next_ok [OF less.prems False] by blast
    then have "sm_walk m itr' = Inr (entries_from m itr')" using less.hyps by simp
    then show ?thesis using False n by (subst sm_walk.simps) simp
  qed
qed

lemma range_bucket_append:
  "range_bucket fn (xs @ ys) s = (case range_bucket fn xs s of (go_on, s') \<Rightarrow> if go_on then range_bucket fn ys s' else (False, s'))"
  by (induction xs arbitrary: s) (simp_all add: split_beta)

lemma range_buckets_concat: "range_buckets fn bs s = snd (range_bucket fn (concat bs) s)"
  by (induction bs arbitrary: s) (simp_all add: range_bucket_append split_beta)





text \<open>Parity as the distribution over two buckets, new elements at the end.\<close>

lemma parity_strip: "strip_in (\<lambda>k :: int. Inr (k mod 2)) 2" "reorders rev" "reorders (\<lambda>xs. xs)"
  by (simp_all add: strip_in_def reorders_def)


text \<open>
  The iterators and \<open>range\<close> pass over the same list, in which every key of the map occurs once with its value:
  the loop from \<open>begin\<close> to \<open>end\<close> visits all of it, \<open>range\<close> calls its handler along it until the handler
  asks to stop.
\<close>

theorem striped_map_iteration:
  assumes "reorders arrange" "strip_in fn capa" "kv_run (sm_exec arrange) ops (sm_new fn capa) = Inr (answers, m)"
  shows "\<exists>xs. sm_walk m (sm_begin m) = Inr xs \<and> distinct (map fst xs) \<and> map_of xs = sm_abs m
    \<and> (\<forall>handler s. sm_range handler m s = snd (range_bucket handler xs s))"
proof -
  have "sm_ok m" using striped.run_refines [of arrange "sm_new fn capa" ops] assms sm_ok_new(1) by auto
  then show ?thesis
    using sm_begin_ok [of m] sm_walk_ok [of m "sm_begin m"] sm_entries [of m] by (auto simp: sm_range_def range_buckets_concat)
qed

theorem striped_map_iteration_witness:
  "\<exists>m xs. kv_run (sm_exec rev) [Emplace 3 ''a'', Emplace 4 ''b''] (sm_new (\<lambda>k :: int. Inr (k mod 2)) 2) = Inr ([Unit, Unit], m)
    \<and> sm_walk m (sm_begin m) = Inr xs \<and> distinct (map fst xs) \<and> map_of xs = sm_abs m"
proof -
  obtain m where m: "kv_run (sm_exec rev) [Emplace 3 ''a'', Emplace 4 ''b''] (sm_new (\<lambda>k :: int. Inr (k mod 2)) 2) = Inr ([Unit, Unit], m)"
    by (simp add: sm_emplace_def sm_bucket_def sm_new_def sm_update_def)
  with striped_map_iteration [OF parity_strip(2,1) m] show ?thesis by blast
qed

section \<open>Size under concurrent insertion\<close>

definition sm_insert_step :: "(('k \<times> 'v) list \<Rightarrow> ('k \<times> 'v) list) \<Rightarrow> ('k, 'v) striped_map \<Rightarrow> ('k, 'v) striped_map \<Rightarrow> bool" where
  "sm_insert_step arrange m m' \<longleftrightarrow> (\<exists>k v. sm_emplace arrange k v m = Inr m' \<or> sm_replace arrange k v m = Inr m')"

lemma insert_step_grows:
  assumes "reorders arrange" "sm_insert_step arrange m m'"
  shows "length (sm_buckets m') = length (sm_buckets m) \<and> (\<forall>b<length (sm_buckets m). length (sm_buckets m ! b) \<le> length (sm_buckets m' ! b))"
proof -
  have len: "length (arrange xs) = length xs" for xs using assms(1) by (metis reorders_def size_mset)
  have "length (AList.update k v xs) \<ge> length xs" for k v and xs :: "('a \<times> 'b) list" by (induction xs) auto
  then have "length (bucket_emplace arrange k v xs) \<ge> length xs" "length (bucket_assign arrange k v xs) \<ge> length xs" for k v xs
    by (simp_all add: bucket_emplace_def bucket_assign_def len)
  moreover obtain k v b where "sm_bucket m k = Inr b" "m' = sm_update m b (bucket_emplace arrange k v (sm_buckets m ! b))
      \<or> m' = sm_update m b (bucket_assign arrange k v (sm_buckets m ! b))"
  proof -
    obtain k v where "sm_emplace arrange k v m = Inr m' \<or> sm_replace arrange k v m = Inr m'"
      using assms(2) by (auto simp: sm_insert_step_def)
    then show ?thesis using that [of k _ v] by (cases "sm_bucket m k") (auto simp: sm_emplace_def sm_replace_def)
  qed
  ultimately show ?thesis using sm_bucket_less [of m k b] by (auto simp: nth_list_update)
qed

lemma insert_steps_grow:
  assumes "reorders arrange" "(sm_insert_step arrange)\<^sup>*\<^sup>* m m'"
  shows "length (sm_buckets m') = length (sm_buckets m) \<and> (\<forall>b<length (sm_buckets m). length (sm_buckets m ! b) \<le> length (sm_buckets m' ! b))"
  using assms(2)
proof (induction rule: rtranclp_induct)
  case (step m' m'')
  then show ?case using insert_step_grows [OF assms(1) step.hyps(2)] by (fastforce intro: order_trans)
qed simp

text \<open>
  \<open>size\<close> looks at the buckets one after the other while other threads may insert. Its result lies between the
  sizes before and after the call.
\<close>

theorem striped_map_size_concurrent:
  assumes "reorders arrange" "n = length (sm_buckets m)"
    "\<forall>b<n. (sm_insert_step arrange)\<^sup>*\<^sup>* m (seen b) \<and> (sm_insert_step arrange)\<^sup>*\<^sup>* (seen b) m'"
  shows "sm_size m \<le> sm_size_seen n seen \<and> sm_size_seen n seen \<le> sm_size m'"
proof (cases "n = 0")
  case False
  then have len: "length (sm_buckets m') = n"
    using assms insert_steps_grow [OF assms(1), of m "seen 0"] insert_steps_grow [OF assms(1), of "seen 0" m'] by simp
  have "length (sm_buckets m ! b) \<le> length (sm_buckets (seen b) ! b) \<and> length (sm_buckets (seen b) ! b) \<le> length (sm_buckets m' ! b)"
    if "b < n" for b
    using that assms insert_steps_grow [OF assms(1), of m "seen b"] insert_steps_grow [OF assms(1), of "seen b" m'] by simp
  then show ?thesis unfolding sm_size_def sm_size_seen_sum len assms(2) [symmetric] by (auto intro!: sum_mono)
qed (simp add: assms(2) sm_size_def sm_size_seen_sum)

theorem striped_map_size_concurrent_witness:
  "\<exists>m'. sm_emplace rev 3 ''a'' (sm_new (\<lambda>k :: int. Inr (k mod 2)) 2) = Inr m'
     \<and> sm_size_seen 2 (\<lambda>b. if b = 0 then sm_new (\<lambda>k :: int. Inr (k mod 2)) 2 else m') \<le> sm_size m'"
proof -
  define m where "m = (sm_new (\<lambda>k :: int. Inr (k mod 2)) 2 :: (int, string) striped_map)"
  obtain m' where m': "sm_emplace rev 3 ''a'' m = Inr m'" by (simp add: m_def sm_emplace_def sm_bucket_def sm_new_def)
  then have step: "(sm_insert_step rev)\<^sup>*\<^sup>* m m'" unfolding sm_insert_step_def by blast
  have two: "2 = length (sm_buckets m)" by (simp add: m_def sm_new_def)
  have "\<forall>b<2. (sm_insert_step rev)\<^sup>*\<^sup>* m (if b = 0 then m else m') \<and> (sm_insert_step rev)\<^sup>*\<^sup>* (if b = (0 :: nat) then m else m') m'"
    using step by simp
  from striped_map_size_concurrent [OF parity_strip(2) two this]
  have "sm_size_seen 2 (\<lambda>b. if b = 0 then m else m') \<le> sm_size m'" by simp
  then show ?thesis using m' unfolding m_def by blast
qed

section \<open>The default distribution\<close>

text \<open>
  The default distribution by \<open>hash % capa\<close> gives every key a bucket when there are between one and
  \<open>2^31\<close> buckets. With no bucket the remainder is undefined; with more, a key whose remainder does not fit an
  \<open>int\<close> is refused by every operation.
\<close>

theorem striped_map_default_distribution:
  "(0 < capa \<and> capa \<le> 2 ^ 31 \<longrightarrow> strip_in (sm_default_strip hash capa) capa)
   \<and> sm_find k (sm_new (sm_default_strip hash 0) 0) = Inl Division_by_zero
   \<and> (capa > 0 \<and> 2 ^ 31 \<le> unat (hash k) mod capa \<and> unat (hash k) mod capa < 2 ^ 32 \<longrightarrow>
        sm_find k (sm_new (sm_default_strip hash capa) capa) = Inl Throw_out_of_range)"
proof (intro conjI impI)
  assume c: "0 < capa \<and> capa \<le> 2 ^ 31"
  then have "unat (hash k) mod capa < capa" for k by simp
  then have "sint (of_nat (unat (hash k) mod capa) :: u32) = int (unat (hash k) mod capa)" for k
    using c sint_u32_small [of "unat (hash k) mod capa"] by (metis less_le_trans)
  then show "strip_in (sm_default_strip hash capa) capa" using c by (simp add: strip_in_def sm_default_strip_def)
next
  show "sm_find k (sm_new (sm_default_strip hash 0) 0) = Inl Division_by_zero"
    by (simp add: sm_find_def sm_bucket_def sm_new_def sm_default_strip_def)
next
  assume "capa > 0 \<and> 2 ^ 31 \<le> unat (hash k) mod capa \<and> unat (hash k) mod capa < 2 ^ 32"
  then show "sm_find k (sm_new (sm_default_strip hash capa) capa) = Inl Throw_out_of_range"
    using sint_u32_big [of "unat (hash k) mod capa"]
    by (simp add: sm_find_def sm_bucket_def sm_new_def sm_default_strip_def)
qed

theorem striped_map_default_distribution_witness:
  "strip_in (sm_default_strip (\<lambda>k :: u64. k) 16) 16"
  using striped_map_default_distribution [of 16 "\<lambda>k :: u64. k" 0, THEN conjunct1] by simp

end
