(* ===== verification/Digest.thy ===== *)
theory Digest
  imports Des
begin

text \<open>
  \<open>src/hj/crypto/sha.hpp\<close> and \<open>src/hj/crypto/md5.hpp\<close>: digests of buffers, strings, arrays, streams and files, and their
  agreement.

  OpenSSL's digests are a parameter: a record \<open>digest_lib\<close> with the one-shot function and the functions on contexts,
  for every algorithm; \<open>digest_algo\<close> is the enumeration \<open>algorithm\<close> of \<open>sha\<close> and the one algorithm of \<open>md5\<close>. A destination buffer is the \<open>dst_len\<close> bytes that the caller announces; an input stream is
  the bytes from its position on.
\<close>

section \<open>Definitions\<close>

datatype sha_error = Sha_ok | Sha_invalid_input | Sha_invalid_output | Sha_buffer_too_small | Sha_not_supported_algo | Sha_unknown

datatype digest_algo = Md5 | Sha1 | Sha224 | Sha256 | Sha384 | Sha512

record 'c digest_lib =
  oneshot :: "digest_algo \<Rightarrow> bytes \<Rightarrow> bytes"
  dg_init :: "digest_algo \<Rightarrow> 'c"
  dg_update :: "digest_algo \<Rightarrow> 'c \<Rightarrow> bytes \<Rightarrow> 'c"
  dg_final :: "digest_algo \<Rightarrow> 'c \<Rightarrow> bytes"

fun get_digest_length :: "digest_algo \<Rightarrow> nat" where
  "get_digest_length Md5 = 16"
| "get_digest_length Sha1 = 20"
| "get_digest_length Sha224 = 28"
| "get_digest_length Sha256 = 32"
| "get_digest_length Sha384 = 48"
| "get_digest_length Sha512 = 64"

text \<open>A digest that is written to the front of a buffer.\<close>

definition put_digest :: "bytes \<Rightarrow> bytes \<Rightarrow> bytes result" where
  "put_digest dst d = (if length d \<le> length dst then Inr (d @ drop (length d) dst) else Inl Out_of_bounds)"

subsection \<open>SHA\<close>

text \<open>The error, the buffer and the length afterwards.\<close>

definition sha_encode :: "'c digest_lib \<Rightarrow> bytes \<Rightarrow> bytes \<Rightarrow> digest_algo \<Rightarrow> (sha_error \<times> bytes \<times> nat) result" where
  "sha_encode lib dst src algo =
     (let required_len = get_digest_length algo in
      if length dst < required_len then Inr (Sha_buffer_too_small, dst, length dst)
      else map_sum id (\<lambda>dst. (Sha_ok, dst, required_len)) (put_digest dst (oneshot lib algo src)))"

definition sha_encode_string :: "'c digest_lib \<Rightarrow> bytes \<Rightarrow> bytes \<Rightarrow> digest_algo \<Rightarrow> (sha_error \<times> bytes) result" where
  "sha_encode_string lib dst src algo =
     map_sum id (Pair Sha_ok) (put_digest (resize dst (get_digest_length algo)) (oneshot lib algo src))"

definition sha_encode_array :: "'c digest_lib \<Rightarrow> bytes \<Rightarrow> bytes \<Rightarrow> digest_algo \<Rightarrow> (sha_error \<times> bytes) result" where
  "sha_encode_array lib dst src algo =
     map_sum id (\<lambda>(ec, dst, len). if ec \<noteq> Sha_ok then (ec, replicate (length dst) 0) else (ec, dst)) (sha_encode lib dst src algo)"

definition DIGEST_BUF_SIZE :: nat where
  "DIGEST_BUF_SIZE = 131072"

text \<open>\<open>while((sz = in.read(buf, BUF_SIZE).gcount()) > 0) Update(&ctx, buf, sz)\<close>\<close>

function digest_loop :: "'c digest_lib \<Rightarrow> digest_algo \<Rightarrow> 'c \<Rightarrow> bytes \<Rightarrow> 'c" where
  "digest_loop lib algo ctx inp =
     (let buf = take DIGEST_BUF_SIZE inp in
      if length buf > 0 then digest_loop lib algo (dg_update lib algo ctx buf) (drop DIGEST_BUF_SIZE inp) else ctx)"
  by pat_completeness auto
termination
  by (relation "measure (\<lambda>(lib, algo, ctx, inp). length inp)") (auto simp: DIGEST_BUF_SIZE_def)

declare digest_loop.simps [simp del]

definition digest_stream :: "'c digest_lib \<Rightarrow> digest_algo \<Rightarrow> bytes \<Rightarrow> bytes" where
  "digest_stream lib algo inp = dg_final lib algo (digest_loop lib algo (dg_init lib algo) inp)"

definition sha_encode_istream :: "'c digest_lib \<Rightarrow> bytes \<Rightarrow> bool \<Rightarrow> bytes \<Rightarrow> digest_algo \<Rightarrow> (sha_error \<times> bytes) result" where
  "sha_encode_istream lib dst good inp algo =
     (if \<not> good then Inr (Sha_invalid_output, [])
      else map_sum id (Pair Sha_ok) (put_digest (resize dst (get_digest_length algo)) (digest_stream lib algo inp)))"

text \<open>\<open>out\<close> is the content of the output stream.\<close>

definition sha_encode_stream :: "'c digest_lib \<Rightarrow> bool \<Rightarrow> bytes \<Rightarrow> bool \<Rightarrow> bytes \<Rightarrow> digest_algo \<Rightarrow> (sha_error \<times> bytes) result" where
  "sha_encode_stream lib out_good out in_good inp algo =
     (if \<not> in_good then Inr (Sha_invalid_input, out)
      else if \<not> out_good then Inr (Sha_invalid_output, out)
      else map_sum id (\<lambda>(ec, hash_result). if ec \<noteq> Sha_ok then (ec, out) else (Sha_ok, out @ hash_result))
             (sha_encode_istream lib [] True inp algo))"

definition sha_encode_file ::
  "'c digest_lib \<Rightarrow> ('f \<Rightarrow> bool) \<Rightarrow> ('f \<rightharpoonup> bytes) \<Rightarrow> 'f \<Rightarrow> 'f \<Rightarrow> digest_algo \<Rightarrow> (sha_error \<times> ('f \<rightharpoonup> bytes)) result" where
  "sha_encode_file lib writable fs dst src algo =
     (case fs src of
        None \<Rightarrow> Inr (Sha_invalid_input, fs)
      | Some content \<Rightarrow>
          if \<not> writable dst then Inr (Sha_invalid_output, fs)
          else map_sum id (\<lambda>(ec, out). (ec, fs(dst \<mapsto> out)))
                 (sha_encode_stream lib True [] True (if dst = src then [] else content) algo))"

definition sha_encode_len_reserve :: "digest_algo \<Rightarrow> nat" where
  "sha_encode_len_reserve algo = get_digest_length algo"

definition sha1 :: "'c digest_lib \<Rightarrow> bytes \<Rightarrow> bytes \<Rightarrow> (sha_error \<times> bytes) result" where
  "sha1 lib dst src = sha_encode_string lib dst src Sha1"

definition sha224 :: "'c digest_lib \<Rightarrow> bytes \<Rightarrow> bytes \<Rightarrow> (sha_error \<times> bytes) result" where
  "sha224 lib dst src = sha_encode_string lib dst src Sha224"

definition sha256 :: "'c digest_lib \<Rightarrow> bytes \<Rightarrow> bytes \<Rightarrow> (sha_error \<times> bytes) result" where
  "sha256 lib dst src = sha_encode_string lib dst src Sha256"

definition sha384 :: "'c digest_lib \<Rightarrow> bytes \<Rightarrow> bytes \<Rightarrow> (sha_error \<times> bytes) result" where
  "sha384 lib dst src = sha_encode_string lib dst src Sha384"

definition sha512 :: "'c digest_lib \<Rightarrow> bytes \<Rightarrow> bytes \<Rightarrow> (sha_error \<times> bytes) result" where
  "sha512 lib dst src = sha_encode_string lib dst src Sha512"

subsection \<open>MD5\<close>

datatype md5_error = Md5_ok | Md5_invalid_input | Md5_invalid_output | Md5_buffer_too_small | Md5_unknown

definition md5_encode :: "'c digest_lib \<Rightarrow> bytes \<Rightarrow> bytes \<Rightarrow> (md5_error \<times> bytes \<times> nat) result" where
  "md5_encode lib dst src =
     (if length dst < 16 then Inr (Md5_buffer_too_small, dst, length dst)
      else map_sum id (\<lambda>dst. (Md5_ok, dst, 16)) (put_digest dst (dg_final lib Md5 (dg_update lib Md5 (dg_init lib Md5) src))))"

definition md5_encode_string :: "'c digest_lib \<Rightarrow> bytes \<Rightarrow> bytes \<Rightarrow> (md5_error \<times> bytes) result" where
  "md5_encode_string lib dst src =
     map_sum id (\<lambda>(ec, dst, len). if ec \<noteq> Md5_ok then (ec, []) else (Md5_ok, resize dst len)) (md5_encode lib (resize dst 16) src)"

definition md5_encode_array :: "'c digest_lib \<Rightarrow> bytes \<Rightarrow> bytes \<Rightarrow> (md5_error \<times> bytes) result" where
  "md5_encode_array lib dst src =
     map_sum id (\<lambda>(ec, dst, len). if ec \<noteq> Md5_ok then (ec, replicate (length dst) 0) else (Md5_ok, dst)) (md5_encode lib dst src)"

definition md5_encode_istream :: "'c digest_lib \<Rightarrow> bytes \<Rightarrow> bool \<Rightarrow> bytes \<Rightarrow> (md5_error \<times> bytes) result" where
  "md5_encode_istream lib dst good inp =
     (if \<not> good then Inr (Md5_invalid_input, [])
      else map_sum id (Pair Md5_ok) (put_digest (resize dst 16) (digest_stream lib Md5 inp)))"

definition md5_encode_stream :: "'c digest_lib \<Rightarrow> bool \<Rightarrow> bytes \<Rightarrow> bool \<Rightarrow> bytes \<Rightarrow> (md5_error \<times> bytes) result" where
  "md5_encode_stream lib out_good out in_good inp =
     (if \<not> in_good then Inr (Md5_invalid_input, out)
      else if \<not> out_good then Inr (Md5_invalid_output, out)
      else map_sum id (\<lambda>md. (Md5_ok, out @ md)) (put_digest (replicate 16 0) (digest_stream lib Md5 inp)))"

definition md5_encode_file ::
  "'c digest_lib \<Rightarrow> ('f \<Rightarrow> bool) \<Rightarrow> ('f \<rightharpoonup> bytes) \<Rightarrow> 'f \<Rightarrow> 'f \<Rightarrow> (md5_error \<times> ('f \<rightharpoonup> bytes)) result" where
  "md5_encode_file lib writable fs dst src =
     (case fs src of
        None \<Rightarrow> Inr (Md5_invalid_input, fs)
      | Some content \<Rightarrow>
          if \<not> writable dst then Inr (Md5_invalid_output, fs)
          else map_sum id (\<lambda>(ec, out). (ec, fs(dst \<mapsto> out)))
                 (md5_encode_stream lib True [] True (if dst = src then [] else content)))"

text \<open>\<open>ss << std::hex << std::setw(2) << std::setfill('0')\<close> of the first sixteen bytes\<close>

definition hex_char :: "bool \<Rightarrow> nat \<Rightarrow> char" where
  "hex_char upper_case n = (if upper_case then ''0123456789ABCDEF'' else ''0123456789abcdef'') ! n"

definition md5_to_hex :: "bytes \<Rightarrow> bool \<Rightarrow> string" where
  "md5_to_hex str upper_case =
     concat (map (\<lambda>b. [hex_char upper_case (unat b div 16), hex_char upper_case (unat b mod 16)]) (take 16 str))"

section \<open>What OpenSSL promises\<close>

text \<open>The one-shot function is the three calls on a context, updates may be split anywhere, and the digest has the
  length of its algorithm.\<close>

locale digest_laws =
  fixes lib :: "'c digest_lib"
  assumes oneshot: "oneshot lib algo xs = dg_final lib algo (dg_update lib algo (dg_init lib algo) xs)"
    and update_append: "dg_update lib algo (dg_update lib algo c xs) ys = dg_update lib algo c (xs @ ys)"
    and update_Nil: "dg_update lib algo c [] = c"
    and final_length: "length (dg_final lib algo c) = get_digest_length algo"
begin

lemma digest_loop_whole: "digest_loop lib algo c inp = dg_update lib algo c inp"
proof (induction "length inp" arbitrary: c inp rule: less_induct)
  case less
  show ?case
  proof (cases "inp = []")
    case True
    then show ?thesis by (subst digest_loop.simps) (simp add: update_Nil)
  next
    case False
    then have "length (drop DIGEST_BUF_SIZE inp) < length inp" by (simp add: DIGEST_BUF_SIZE_def)
    then show ?thesis
      using less False by (subst digest_loop.simps) (simp add: update_append DIGEST_BUF_SIZE_def Let_def)
  qed
qed

lemma digest_stream_oneshot: "digest_stream lib algo inp = oneshot lib algo inp"
  by (simp add: digest_stream_def digest_loop_whole oneshot)

lemma oneshot_length: "length (oneshot lib algo xs) = get_digest_length algo"
  by (simp add: oneshot final_length)

end

text \<open>Any function on texts gives contexts that collect the text.\<close>

definition collecting_lib :: "(digest_algo \<Rightarrow> bytes \<Rightarrow> bytes) \<Rightarrow> bytes digest_lib" where
  "collecting_lib f =
     (let d = (\<lambda>algo xs. take (get_digest_length algo) (f algo xs @ replicate 64 0)) in
      \<lparr>oneshot = d, dg_init = (\<lambda>_. []), dg_update = (\<lambda>_ c xs. c @ xs), dg_final = d\<rparr>)"

interpretation collecting: digest_laws "collecting_lib f" for f
proof
  show "length (dg_final (collecting_lib f) algo c) = get_digest_length algo" for algo c
    by (cases algo) (simp_all add: collecting_lib_def Let_def)
qed (simp_all add: collecting_lib_def Let_def)

section \<open>Properties\<close>

lemma put_digest_exact: "length d = length dst \<Longrightarrow> put_digest dst d = Inr d"
  by (simp add: put_digest_def)

lemma length_resize_digest: "length (resize dst n) = n"
  by (simp add: resize_def)

text \<open>C24. All versions of a digest agree: the digest of a string, of a stream read in pieces of 128 KiB, and the bytes that
  the file version leaves in its destination are the digest of the whole text, for SHA and for MD5, whatever
  the destination held before.\<close>

theorem digest_versions_agree:
  assumes lib: "digest_laws lib" and src: "fs src = Some body" "writable dst" "dst \<noteq> src"
  shows "sha_encode_string lib s body algo = Inr (Sha_ok, oneshot lib algo body)
    \<and> sha_encode_istream lib s True body algo = Inr (Sha_ok, oneshot lib algo body)
    \<and> sha_encode_file lib writable fs dst src algo = Inr (Sha_ok, fs(dst \<mapsto> oneshot lib algo body))
    \<and> md5_encode_string lib s body = Inr (Md5_ok, oneshot lib Md5 body)
    \<and> md5_encode_istream lib s True body = Inr (Md5_ok, oneshot lib Md5 body)
    \<and> md5_encode_file lib writable fs dst src = Inr (Md5_ok, fs(dst \<mapsto> oneshot lib Md5 body))"
proof -
  note facts = digest_laws.oneshot_length [OF lib] digest_laws.digest_stream_oneshot [OF lib] length_resize_digest put_digest_exact
  have md5: "dg_final lib Md5 (dg_update lib Md5 (dg_init lib Md5) body) = oneshot lib Md5 body" using digest_laws.oneshot [OF lib] by simp
  have full: "resize (oneshot lib Md5 body) 16 = oneshot lib Md5 body"
    using facts(1) [of Md5 body] by (simp add: resize_def)
  show ?thesis
    using src full
    by (simp add: sha_encode_string_def sha_encode_istream_def sha_encode_file_def sha_encode_stream_def md5_encode_string_def
        md5_encode_def md5_encode_istream_def md5_encode_file_def md5_encode_stream_def facts md5)
qed

theorem digest_versions_agree_witness:
  "sha_encode_istream (collecting_lib (\<lambda>_ xs. xs)) [] True (replicate 200000 7) Sha1 = Inr (Sha_ok, replicate 20 7)"
proof -
  have "oneshot (collecting_lib (\<lambda>_ xs. xs)) Sha1 (replicate 200000 7) = replicate 20 7"
    by (simp add: collecting_lib_def Let_def)
  then show ?thesis
    using digest_versions_agree [OF collecting.digest_laws_axioms, of "[True \<mapsto> replicate 200000 7]" True "replicate 200000 7" "\<lambda>_. True" False
        "\<lambda>_ xs. xs" "[]" Sha1] by simp
qed

text \<open>The buffer version writes exactly the digest, at the front of a buffer that is long enough, reports its length and
  leaves the rest of the buffer as it was; a buffer that is too short is not touched. Nothing is written
  beyond the buffer.\<close>

theorem sha_encode_frame:
  assumes "digest_laws lib"
  shows "sha_encode lib dst src algo =
    Inr (if length dst < get_digest_length algo then (Sha_buffer_too_small, dst, length dst)
         else (Sha_ok, oneshot lib algo src @ drop (get_digest_length algo) dst, get_digest_length algo))"
  using digest_laws.oneshot_length [OF assms, of algo src] by (simp add: sha_encode_def put_digest_def Let_def)

theorem sha_encode_frame_witness:
  "sha_encode (collecting_lib (\<lambda>_ xs. xs)) [1, 2] [3] Sha256 = Inr (Sha_buffer_too_small, [1, 2], 2)"
  using sha_encode_frame [OF collecting.digest_laws_axioms, of "\<lambda>_ xs. xs" "[1, 2]" "[3]" Sha256] by simp

end
