(* ===== verification/Rsa.thy ===== *)
theory Rsa
  imports Aes
begin

text \<open>
  \<open>src/hj/crypto/rsa.hpp\<close>: RSA keys as PEM texts, encryption, signatures and key generation, for buffers, strings,
  streams and files.

  OpenSSL's functions on keys are a parameter: a record \<open>rsa_lib\<close> with one function per call. A call that fails
  (a null pointer, a length of -1) is \<open>None\<close>. Public-key encryption and key generation draw random numbers; the
  number of the draw is an argument. A pointer is an option, and a buffer may be longer than the length that
  the caller passes with it. The password of a private key is given to OpenSSL as a zero-terminated string,
  which it reads when the PEM text is encrypted.
\<close>

section \<open>Definitions\<close>

datatype rsa_error =
    Rsa_ok | Rsa_invalid_input | Rsa_invalid_output | Invalid_pubkey_pem | Invalid_prikey_pem | Invalid_key_bits
  | Rsa_buffer_too_small | Key_generation_failed | Key_loading_failed | Encryption_failed | Decryption_failed
  | Signing_failed | Verification_failed | Not_supported_padding | No_padding_specified | Write_failed | Read_failed
  | Mode_and_password_mismatch | Rsa_unknown

datatype key_format = X509 | Pkcs1

datatype rsa_mode =
    M_none
  | M_aes_128_ecb | M_aes_192_ecb | M_aes_256_ecb | M_aes_128_cbc | M_aes_192_cbc | M_aes_256_cbc
  | M_aes_128_cfb | M_aes_192_cfb | M_aes_256_cfb | M_aes_128_ofb | M_aes_192_ofb | M_aes_256_ofb
  | M_des_ede3_ecb | M_des_ede3_cbc | M_des_ede3_cfb | M_des_ede3_ofb | M_des_ede_cbc
  | M_des_ecb | M_des_cbc | M_des_cfb | M_des_ofb
  | M_bf_ecb | M_bf_cbc | M_bf_cfb | M_bf_ofb
  | M_cast5_ecb | M_cast5_cbc | M_cast5_cfb | M_cast5_ofb
  | M_rc2_ecb | M_rc2_cbc | M_rc2_cfb | M_rc2_ofb

datatype rsa_padding = Pad_pkcs1 | Pad_none | Pad_oaep | Pad_x931 | Pad_pss

text \<open>The four transformations get \<open>flen\<close>, the padding and the input bytes; \<open>pem_pri_x509\<close> is \<open>PEM_read_bio_PrivateKey\<close> followed
  by \<open>EVP_PKEY_get1_RSA\<close>, \<open>rsa_generate\<close> is \<open>RSA_generate_key_ex\<close> with the exponent 65537 followed by
  \<open>RSA_check_key\<close>, and \<open>pem_write_pri\<close> gets the name of the cipher and the password when there is one.\<close>

record 'k rsa_lib =
  pem_pub_x509 :: "bytes \<Rightarrow> 'k option"
  pem_pub_pkcs1 :: "bytes \<Rightarrow> 'k option"
  pem_encrypted :: "bytes \<Rightarrow> bool"
  pem_pri_pkcs1 :: "bytes \<Rightarrow> bytes option \<Rightarrow> 'k option"
  pem_pri_x509 :: "bytes \<Rightarrow> bytes option \<Rightarrow> 'k option"
  rsa_size :: "'k \<Rightarrow> nat"
  pub_encrypt :: "nat \<Rightarrow> 'k \<Rightarrow> rsa_padding \<Rightarrow> int \<Rightarrow> bytes \<Rightarrow> bytes option"
  pri_decrypt :: "'k \<Rightarrow> rsa_padding \<Rightarrow> int \<Rightarrow> bytes \<Rightarrow> bytes option"
  pri_encrypt :: "'k \<Rightarrow> rsa_padding \<Rightarrow> int \<Rightarrow> bytes \<Rightarrow> bytes option"
  pub_decrypt :: "'k \<Rightarrow> rsa_padding \<Rightarrow> int \<Rightarrow> bytes \<Rightarrow> bytes option"
  rsa_generate :: "nat \<Rightarrow> nat \<Rightarrow> 'k option"
  pem_write_pub :: "key_format \<Rightarrow> 'k \<Rightarrow> bytes option"
  pem_write_pri :: "key_format \<Rightarrow> 'k \<Rightarrow> (string \<times> bytes) option \<Rightarrow> bytes option"

fun res_bind :: "'a result \<Rightarrow> ('a \<Rightarrow> 'b result) \<Rightarrow> 'b result" where
  "res_bind (Inl err) f = Inl err"
| "res_bind (Inr x) f = f x"

text \<open>The conversion of a \<open>size_t\<close> to \<open>int\<close>, and what is read through a pointer with such a length.\<close>

definition c_int :: "nat \<Rightarrow> int" where
  "c_int n = (let m = int (n mod 2 ^ 32) in if m < 2 ^ 31 then m else m - 2 ^ 32)"

definition read_input :: "bytes \<Rightarrow> int \<Rightarrow> bytes result" where
  "read_input buf n = (if nat n \<le> length buf then Inr (take (nat n) buf) else Inl Out_of_bounds)"

definition c_string :: "bytes \<Rightarrow> bytes result" where
  "c_string buf = (if 0 \<in> set buf then Inr (takeWhile (\<lambda>b. b \<noteq> 0) buf) else Inl Out_of_bounds)"

text \<open>\<open>BIO_new_mem_buf\<close>, which takes a negative length for a zero-terminated text\<close>

definition mem_bio :: "bytes \<Rightarrow> int \<Rightarrow> bytes result" where
  "mem_bio buf n = (if n < 0 then c_string buf else read_input buf n)"

definition mem_zero :: "bytes \<Rightarrow> nat \<Rightarrow> bytes result" where
  "mem_zero buf n = (if n \<le> length buf then Inr (replicate n 0 @ drop n buf) else Inl Out_of_bounds)"

subsection \<open>Loading keys\<close>

definition load_public_key :: "'k rsa_lib \<Rightarrow> bytes option \<Rightarrow> nat \<Rightarrow> 'k option result" where
  "load_public_key lib pem pem_len =
     (case pem of
        None \<Rightarrow> Inr None
      | Some buf \<Rightarrow>
          if pem_len = 0 then Inr None
          else res_bind (mem_bio buf (c_int pem_len)) (\<lambda>bio.
            Inr (case pem_pub_x509 lib bio of Some k \<Rightarrow> Some k | None \<Rightarrow> pem_pub_pkcs1 lib bio)))"

definition pem_password :: "'k rsa_lib \<Rightarrow> bytes \<Rightarrow> bytes option \<Rightarrow> bytes option result" where
  "pem_password lib bio password =
     (case password of
        None \<Rightarrow> Inr None
      | Some buf \<Rightarrow> if pem_encrypted lib bio then map_sum id Some (c_string buf) else Inr None)"

definition load_private_key :: "'k rsa_lib \<Rightarrow> bytes option \<Rightarrow> nat \<Rightarrow> bytes option \<Rightarrow> nat \<Rightarrow> 'k option result" where
  "load_private_key lib pem pem_len password password_len =
     (case pem of
        None \<Rightarrow> Inr None
      | Some buf \<Rightarrow>
          if c_int pem_len \<le> 0 then Inr None
          else res_bind (mem_bio buf (c_int pem_len)) (\<lambda>bio.
            res_bind (pem_password lib bio (if password_len > 0 then password else None)) (\<lambda>pw.
              Inr (case pem_pri_pkcs1 lib bio pw of Some k \<Rightarrow> Some k | None \<Rightarrow> pem_pri_x509 lib bio pw))))"

text \<open>The terminator of a \<open>std::string\<close>, and the pointer to a password that may be empty.\<close>

abbreviation c_str :: "bytes \<Rightarrow> bytes option" where
  "c_str s \<equiv> Some (s @ [0])"

definition password_ptr :: "bytes \<Rightarrow> bytes option" where
  "password_ptr password = (if password = [] then None else c_str password)"

definition rsa_encrypt_len_reserve :: "'k rsa_lib \<Rightarrow> bytes option \<Rightarrow> nat \<Rightarrow> nat result" where
  "rsa_encrypt_len_reserve lib pem pem_len =
     map_sum id (\<lambda>rsa. case rsa of None \<Rightarrow> 0 | Some k \<Rightarrow> rsa_size lib k) (load_public_key lib pem pem_len)"

definition rsa_decrypt_len_reserve :: "'k rsa_lib \<Rightarrow> bytes option \<Rightarrow> nat \<Rightarrow> bytes option \<Rightarrow> nat \<Rightarrow> nat result" where
  "rsa_decrypt_len_reserve lib pem pem_len password password_len =
     map_sum id (\<lambda>rsa. case rsa of None \<Rightarrow> 0 | Some k \<Rightarrow> rsa_size lib k) (load_private_key lib pem pem_len password password_len)"

subsection \<open>Checks\<close>

definition padding_known :: "rsa_padding \<Rightarrow> bool" where
  "padding_known pad \<longleftrightarrow> (case pad of Pad_pkcs1 \<Rightarrow> True | Pad_oaep \<Rightarrow> True | Pad_none \<Rightarrow> True | Pad_pss \<Rightarrow> True | Pad_x931 \<Rightarrow> False)"

definition is_pubkey_valid :: "'k rsa_lib \<Rightarrow> bytes option \<Rightarrow> nat \<Rightarrow> rsa_padding \<Rightarrow> bool result" where
  "is_pubkey_valid lib pem pem_len pad =
     map_sum id (\<lambda>rsa. case rsa of None \<Rightarrow> False | Some k \<Rightarrow> padding_known pad) (load_public_key lib pem pem_len)"

definition is_prikey_valid :: "'k rsa_lib \<Rightarrow> bytes option \<Rightarrow> nat \<Rightarrow> rsa_padding \<Rightarrow> bytes option \<Rightarrow> nat \<Rightarrow> bool result" where
  "is_prikey_valid lib pem pem_len pad password password_len =
     map_sum id (\<lambda>rsa. case rsa of None \<Rightarrow> False | Some k \<Rightarrow> padding_known pad)
       (load_private_key lib pem pem_len password password_len)"

definition is_key_pair_bits_valid :: "nat \<Rightarrow> bool" where
  "is_key_pair_bits_valid bits \<longleftrightarrow>
     (if bits \<noteq> 512 \<and> bits \<noteq> 1024 \<and> bits \<noteq> 2048 \<and> bits \<noteq> 3072 \<and> bits \<noteq> 4096 then False else True)"

definition rsa_plain_fits :: "'k rsa_lib \<Rightarrow> nat \<Rightarrow> rsa_padding \<Rightarrow> 'k \<Rightarrow> bool" where
  "rsa_plain_fits lib plain_len pad k \<longleftrightarrow>
     (let key_size = rsa_size lib k in
      if key_size = 0 then False
      else case pad of
             Pad_pkcs1 \<Rightarrow> \<not> plain_len > size_sub key_size 11
           | Pad_oaep \<Rightarrow> \<not> plain_len > size_sub (size_sub key_size 40) 2
           | Pad_none \<Rightarrow> \<not> plain_len \<noteq> key_size
           | Pad_x931 \<Rightarrow> \<not> plain_len > size_sub key_size 11
           | Pad_pss \<Rightarrow> \<not> plain_len > size_sub (size_sub key_size 40) 2)"

text \<open>The stream is a seekable one in a good state; its bytes from the current position on.\<close>

definition rsa_stream_valid :: "bytes \<Rightarrow> rsa_padding \<Rightarrow> nat \<Rightarrow> bool result" where
  "rsa_stream_valid inp pad key_size =
     (case pad of
        Pad_none \<Rightarrow> map_sum id (\<lambda>r. r = 0) (size_mod (length inp) key_size)
      | Pad_pkcs1 \<Rightarrow> Inr (length inp > 0)
      | Pad_oaep \<Rightarrow> Inr (length inp > 0)
      | Pad_x931 \<Rightarrow> Inr (length inp > 0)
      | Pad_pss \<Rightarrow> Inr (length inp > 0))"

definition rsa_is_plain_valid :: "'k rsa_lib \<Rightarrow> nat \<Rightarrow> rsa_padding \<Rightarrow> bytes option \<Rightarrow> nat \<Rightarrow> bool result" where
  "rsa_is_plain_valid lib plain_len pad pem pem_len =
     map_sum id (\<lambda>rsa. case rsa of None \<Rightarrow> False | Some k \<Rightarrow> rsa_plain_fits lib plain_len pad k) (load_public_key lib pem pem_len)"

definition rsa_is_plain_stream_valid :: "'k rsa_lib \<Rightarrow> bytes \<Rightarrow> rsa_padding \<Rightarrow> bytes option \<Rightarrow> nat \<Rightarrow> bool result" where
  "rsa_is_plain_stream_valid lib inp pad pem pem_len =
     res_bind (load_public_key lib pem pem_len) (\<lambda>rsa.
       case rsa of None \<Rightarrow> Inr False | Some k \<Rightarrow> rsa_stream_valid inp pad (rsa_size lib k))"

definition rsa_is_cipher_stream_valid :: "'k rsa_lib \<Rightarrow> bytes \<Rightarrow> rsa_padding \<Rightarrow> bytes option \<Rightarrow> nat \<Rightarrow> bool result" where
  "rsa_is_cipher_stream_valid lib inp pad pem pem_len =
     res_bind (load_private_key lib pem pem_len None 0) (\<lambda>rsa.
       case rsa of None \<Rightarrow> Inr False | Some k \<Rightarrow> rsa_stream_valid inp pad (rsa_size lib k))"

definition rsa_is_cipher_string_valid :: "'k rsa_lib \<Rightarrow> bytes \<Rightarrow> rsa_padding \<Rightarrow> bytes \<Rightarrow> bool result" where
  "rsa_is_cipher_string_valid lib cipher pad pem = rsa_is_cipher_stream_valid lib cipher pad (c_str pem) (length pem)"

definition rsa_is_cipher_buffer_valid :: "'k rsa_lib \<Rightarrow> bytes \<Rightarrow> nat \<Rightarrow> rsa_padding \<Rightarrow> bytes option \<Rightarrow> nat \<Rightarrow> bool result" where
  "rsa_is_cipher_buffer_valid lib cipher cipher_len pad pem pem_len =
     (if cipher_len \<le> length cipher then rsa_is_cipher_stream_valid lib (take cipher_len cipher) pad pem pem_len
      else Inl Out_of_bounds)"

subsection \<open>Buffers and strings\<close>

text \<open>The code, the buffer and the length afterwards. \<open>r\<close> is the number of the random draw.\<close>

definition rsa_fail :: "rsa_error \<Rightarrow> bytes \<Rightarrow> nat \<Rightarrow> (rsa_error \<times> bytes option \<times> nat) result" where
  "rsa_fail ec d dst_len = map_sum id (\<lambda>d. (ec, Some d, dst_len)) (mem_zero d dst_len)"

definition rsa_encrypt ::
  "'k rsa_lib \<Rightarrow> nat \<Rightarrow> bytes option \<Rightarrow> nat \<Rightarrow> bytes option \<Rightarrow> nat \<Rightarrow> bytes option \<Rightarrow> nat \<Rightarrow> rsa_padding
   \<Rightarrow> (rsa_error \<times> bytes option \<times> nat) result" where
  "rsa_encrypt lib r dst dst_len src src_len pem pem_len pad =
     (case dst of
        None \<Rightarrow> Inr (Rsa_invalid_output, dst, dst_len)
      | Some d \<Rightarrow>
          case src of
            None \<Rightarrow> Inr (Rsa_invalid_input, dst, dst_len)
          | Some s \<Rightarrow>
              if pem = None \<or> pem_len = 0 then Inr (Invalid_pubkey_pem, dst, dst_len)
              else res_bind (load_public_key lib pem pem_len) (\<lambda>rsa.
                case rsa of
                  None \<Rightarrow> Inr (Key_loading_failed, dst, dst_len)
                | Some k \<Rightarrow>
                    if \<not> rsa_plain_fits lib src_len pad k then rsa_fail Encryption_failed d dst_len
                    else if dst_len < rsa_size lib k then rsa_fail Encryption_failed d dst_len
                    else res_bind (read_input s (c_int src_len)) (\<lambda>bs.
                      case pub_encrypt lib r k pad (c_int src_len) bs of
                        None \<Rightarrow> rsa_fail Encryption_failed d dst_len
                      | Some c \<Rightarrow> map_sum id (\<lambda>d. (Rsa_ok, Some d, length c)) (des_store d c))))"

definition finish_rsa :: "(rsa_error \<times> bytes option \<times> nat) result \<Rightarrow> (rsa_error \<times> bytes) result" where
  "finish_rsa x =
     map_sum id (\<lambda>(ec, dst, dst_len). if ec \<noteq> Rsa_ok then (ec, [])
       else (Rsa_ok, resize (case dst of None \<Rightarrow> [] | Some d \<Rightarrow> d) dst_len)) x"

definition rsa_encrypt_string :: "'k rsa_lib \<Rightarrow> nat \<Rightarrow> bytes \<Rightarrow> bytes \<Rightarrow> bytes \<Rightarrow> rsa_padding \<Rightarrow> (rsa_error \<times> bytes) result" where
  "rsa_encrypt_string lib r dst src pem pad =
     res_bind (rsa_encrypt_len_reserve lib (c_str pem) (length pem)) (\<lambda>n.
       finish_rsa (rsa_encrypt lib r (Some (resize dst n)) n (c_str src) (length src) (c_str pem) (length pem) pad))"

definition rsa_decrypt ::
  "'k rsa_lib \<Rightarrow> bytes option \<Rightarrow> nat \<Rightarrow> bytes option \<Rightarrow> nat \<Rightarrow> bytes option \<Rightarrow> nat \<Rightarrow> rsa_padding \<Rightarrow> bytes option \<Rightarrow> nat
   \<Rightarrow> (rsa_error \<times> bytes option \<times> nat) result" where
  "rsa_decrypt lib dst dst_len src src_len pem pem_len pad password password_len =
     (case dst of
        None \<Rightarrow> Inr (Rsa_invalid_output, dst, dst_len)
      | Some d \<Rightarrow>
          if dst_len = 0 then Inr (Rsa_invalid_output, dst, dst_len)
          else case src of
            None \<Rightarrow> Inr (Rsa_invalid_input, dst, dst_len)
          | Some s \<Rightarrow>
              if src_len = 0 then Inr (Rsa_invalid_input, dst, dst_len)
              else if pem = None \<or> pem_len = 0 then Inr (Invalid_prikey_pem, dst, dst_len)
              else res_bind (load_private_key lib pem pem_len password password_len) (\<lambda>rsa.
                case rsa of
                  None \<Rightarrow> rsa_fail Key_loading_failed d dst_len
                | Some k \<Rightarrow>
                    if dst_len < rsa_size lib k then rsa_fail Decryption_failed d dst_len
                    else res_bind (read_input s (c_int src_len)) (\<lambda>bs.
                      case pri_decrypt lib k pad (c_int src_len) bs of
                        None \<Rightarrow> rsa_fail Decryption_failed d dst_len
                      | Some m \<Rightarrow> map_sum id (\<lambda>d. (Rsa_ok, Some d, length m)) (des_store d m))))"

text \<open>The reserved length is asked for without the password.\<close>

definition rsa_decrypt_string ::
  "'k rsa_lib \<Rightarrow> bytes \<Rightarrow> bytes \<Rightarrow> bytes \<Rightarrow> rsa_padding \<Rightarrow> bytes \<Rightarrow> (rsa_error \<times> bytes) result" where
  "rsa_decrypt_string lib dst src pem pad password =
     res_bind (rsa_decrypt_len_reserve lib (c_str pem) (length pem) None 0) (\<lambda>n.
       finish_rsa (rsa_decrypt lib (Some (resize dst n)) n (c_str src) (length src) (c_str pem) (length pem) pad
         (password_ptr password) (length password)))"

subsection \<open>Streams and files\<close>

definition RSA_MAX_KEY_LENGTH :: nat where
  "RSA_MAX_KEY_LENGTH = 4096"

definition rsa_max_chunk :: "rsa_padding \<Rightarrow> nat \<Rightarrow> int option" where
  "rsa_max_chunk pad key_size =
     (case pad of
        Pad_pkcs1 \<Rightarrow> Some (int key_size - 11)
      | Pad_oaep \<Rightarrow> Some (int key_size - 2 * 20 - 2)
      | Pad_x931 \<Rightarrow> Some (int key_size - 11)
      | Pad_none \<Rightarrow> Some (int key_size)
      | Pad_pss \<Rightarrow> None)"

text \<open>The loops over the buffers \<open>inbuf\<close> and \<open>outbuf\<close> on the stack. A read of no bytes ends the loop.\<close>

function rsa_encrypt_loop ::
  "'k rsa_lib \<Rightarrow> 'k \<Rightarrow> rsa_padding \<Rightarrow> nat \<Rightarrow> nat \<Rightarrow> nat \<Rightarrow> bytes \<Rightarrow> bytes \<Rightarrow> (rsa_error \<times> bytes) result" where
  "rsa_encrypt_loop lib k pad key_size max_chunk r out inp =
     (let inbuf = take max_chunk inp in
      if length inbuf > RSA_MAX_KEY_LENGTH then Inl Out_of_bounds
      else if length inbuf < 1 then Inr (Rsa_ok, out)
      else if pad = Pad_none \<and> length inbuf \<noteq> key_size then Inr (No_padding_specified, out)
      else case pub_encrypt lib r k pad (int (length inbuf)) inbuf of
             None \<Rightarrow> Inr (Encryption_failed, out)
           | Some c \<Rightarrow>
               fits RSA_MAX_KEY_LENGTH (length c)
                 (rsa_encrypt_loop lib k pad key_size max_chunk (Suc r) (out @ c) (drop max_chunk inp)))"
  by pat_completeness auto
termination
  by (relation "measure (\<lambda>(lib, k, pad, key_size, max_chunk, r, out, inp). length inp)") (auto simp: not_less Suc_le_eq)

function rsa_decrypt_loop :: "'k rsa_lib \<Rightarrow> 'k \<Rightarrow> rsa_padding \<Rightarrow> nat \<Rightarrow> bytes \<Rightarrow> bytes \<Rightarrow> (rsa_error \<times> bytes) result" where
  "rsa_decrypt_loop lib k pad key_size out inp =
     (let inbuf = take key_size inp in
      if length inbuf > RSA_MAX_KEY_LENGTH then Inl Out_of_bounds
      else if length inbuf < 1 then Inr (Rsa_ok, out)
      else case pri_decrypt lib k pad (int (length inbuf)) inbuf of
             None \<Rightarrow> Inr (Write_failed, out)
           | Some m \<Rightarrow>
               fits RSA_MAX_KEY_LENGTH (length m) (rsa_decrypt_loop lib k pad key_size (out @ m) (drop key_size inp)))"
  by pat_completeness auto
termination
  by (relation "measure (\<lambda>(lib, k, pad, key_size, out, inp). length inp)") (auto simp: not_less Suc_le_eq)

declare rsa_encrypt_loop.simps [simp del] rsa_decrypt_loop.simps [simp del]

text \<open>The code and the content of the output stream.\<close>

definition rsa_encrypt_stream ::
  "'k rsa_lib \<Rightarrow> nat \<Rightarrow> bool \<Rightarrow> bytes \<Rightarrow> bool \<Rightarrow> bytes \<Rightarrow> bytes option \<Rightarrow> nat \<Rightarrow> rsa_padding \<Rightarrow> (rsa_error \<times> bytes) result" where
  "rsa_encrypt_stream lib r out_good out in_good inp pem pem_len pad =
     (if \<not> in_good then Inr (Rsa_invalid_input, out)
      else if \<not> out_good then Inr (Rsa_invalid_output, out)
      else res_bind (load_public_key lib pem pem_len) (\<lambda>rsa.
        case rsa of
          None \<Rightarrow> Inr (Key_loading_failed, out)
        | Some k \<Rightarrow>
            let key_size = rsa_size lib k in
            if pem_len < key_size then Inr (Verification_failed, out)
            else res_bind (rsa_stream_valid inp pad key_size) (\<lambda>valid.
              if \<not> valid then Inr (Verification_failed, out)
              else case rsa_max_chunk pad key_size of
                     None \<Rightarrow> Inr (Not_supported_padding, out)
                   | Some max_chunk \<Rightarrow> rsa_encrypt_loop lib k pad key_size (nat max_chunk) r out inp)))"

definition rsa_decrypt_stream ::
  "'k rsa_lib \<Rightarrow> bool \<Rightarrow> bytes \<Rightarrow> bool \<Rightarrow> bytes \<Rightarrow> bytes option \<Rightarrow> nat \<Rightarrow> rsa_padding \<Rightarrow> bytes option \<Rightarrow> nat
   \<Rightarrow> (rsa_error \<times> bytes) result" where
  "rsa_decrypt_stream lib out_good out in_good inp pem pem_len pad password password_len =
     (if \<not> in_good then Inr (Rsa_invalid_input, out)
      else if \<not> out_good then Inr (Rsa_invalid_output, out)
      else res_bind (load_private_key lib pem pem_len password password_len) (\<lambda>rsa.
        case rsa of
          None \<Rightarrow> Inr (Key_loading_failed, out)
        | Some k \<Rightarrow>
            let key_size = rsa_size lib k in
            if pem_len < key_size then Inr (Verification_failed, out)
            else res_bind (rsa_stream_valid inp pad key_size) (\<lambda>valid.
              if \<not> valid then Inr (Verification_failed, out)
              else rsa_decrypt_loop lib k pad key_size out inp)))"

text \<open>Both files are opened before the streams are looked at; opening the destination truncates it. \<open>run\<close> gets
  whether the source and the destination are open, and what there is to read.\<close>

definition rsa_with_files ::
  "(bool \<Rightarrow> bool \<Rightarrow> bytes \<Rightarrow> (rsa_error \<times> bytes) result) \<Rightarrow> ('f \<Rightarrow> bool) \<Rightarrow> ('f \<rightharpoonup> bytes) \<Rightarrow> 'f \<Rightarrow> 'f
   \<Rightarrow> (rsa_error \<times> ('f \<rightharpoonup> bytes)) result" where
  "rsa_with_files run writable fs dst src =
     (let content = (case fs src of None \<Rightarrow> [] | Some bs \<Rightarrow> if dst = src \<and> writable dst then [] else bs) in
      map_sum id (\<lambda>(ec, out). (ec, if writable dst then fs(dst \<mapsto> out) else fs)) (run (fs src \<noteq> None) (writable dst) content))"

definition rsa_encrypt_file where
  "rsa_encrypt_file lib r writable fs dst src pem pem_len pad =
     rsa_with_files (\<lambda>in_good out_good inp. rsa_encrypt_stream lib r out_good [] in_good inp pem pem_len pad) writable fs dst src"

definition rsa_encrypt_file_string where
  "rsa_encrypt_file_string lib r writable fs dst src pem pad =
     rsa_encrypt_file lib r writable fs dst src (c_str pem) (length pem) pad"

definition rsa_decrypt_file where
  "rsa_decrypt_file lib writable fs dst src pem pem_len pad password password_len =
     rsa_with_files (\<lambda>in_good out_good inp. rsa_decrypt_stream lib out_good [] in_good inp pem pem_len pad password password_len)
       writable fs dst src"

definition rsa_decrypt_file_string where
  "rsa_decrypt_file_string lib writable fs dst src pem pad password =
     rsa_decrypt_file lib writable fs dst src (c_str pem) (length pem) pad (password_ptr password) (length password)"

subsection \<open>Signatures\<close>

definition signature :: "'k rsa_lib \<Rightarrow> bytes \<Rightarrow> nat \<Rightarrow> bytes \<Rightarrow> nat \<Rightarrow> bytes option \<Rightarrow> nat \<Rightarrow> rsa_padding \<Rightarrow> bytes option \<Rightarrow> nat
   \<Rightarrow> (rsa_error \<times> bytes \<times> nat) result" where
  "signature lib dst dst_len src src_len pem pem_len pad password password_len =
     res_bind (load_private_key lib pem pem_len password password_len) (\<lambda>rsa.
       case rsa of
         None \<Rightarrow> Inr (Key_loading_failed, dst, dst_len)
       | Some k \<Rightarrow>
           if dst_len < rsa_size lib k then Inr (Rsa_buffer_too_small, dst, dst_len)
           else res_bind (read_input src (c_int src_len)) (\<lambda>bs.
             case pri_encrypt lib k pad (c_int src_len) bs of
               None \<Rightarrow> Inr (Encryption_failed, dst, dst_len)
             | Some c \<Rightarrow> map_sum id (\<lambda>d. (Rsa_ok, d, length c)) (des_store dst c)))"

definition verify_signature :: "'k rsa_lib \<Rightarrow> bytes \<Rightarrow> nat \<Rightarrow> bytes \<Rightarrow> nat \<Rightarrow> bytes option \<Rightarrow> nat \<Rightarrow> rsa_padding
   \<Rightarrow> (rsa_error \<times> bytes \<times> nat) result" where
  "verify_signature lib dst dst_len src src_len pem pem_len pad =
     res_bind (load_public_key lib pem pem_len) (\<lambda>rsa.
       case rsa of
         None \<Rightarrow> Inr (Key_loading_failed, dst, dst_len)
       | Some k \<Rightarrow>
           if dst_len < rsa_size lib k then Inr (Rsa_buffer_too_small, dst, dst_len)
           else res_bind (read_input src (c_int src_len)) (\<lambda>bs.
             case pub_decrypt lib k pad (c_int src_len) bs of
               None \<Rightarrow> Inr (Verification_failed, dst, dst_len)
             | Some m \<Rightarrow> map_sum id (\<lambda>d. (Rsa_ok, d, length m)) (des_store dst m)))"

subsection \<open>Key generation\<close>

text \<open>The name of the \<open>EVP_\<close> function.\<close>

fun rsa_select_cipher :: "rsa_mode \<Rightarrow> string option" where
  "rsa_select_cipher M_none = None"
| "rsa_select_cipher M_aes_128_ecb = Some ''aes_128_cbc''"
| "rsa_select_cipher M_aes_192_ecb = Some ''aes_192_cbc''"
| "rsa_select_cipher M_aes_256_ecb = Some ''aes_256_cbc''"
| "rsa_select_cipher M_aes_128_cbc = Some ''aes_128_cbc''"
| "rsa_select_cipher M_aes_192_cbc = Some ''aes_192_cbc''"
| "rsa_select_cipher M_aes_256_cbc = Some ''aes_256_cbc''"
| "rsa_select_cipher M_aes_128_cfb = Some ''aes_128_cfb''"
| "rsa_select_cipher M_aes_192_cfb = Some ''aes_192_cfb''"
| "rsa_select_cipher M_aes_256_cfb = Some ''aes_256_cfb''"
| "rsa_select_cipher M_aes_128_ofb = Some ''aes_128_ofb''"
| "rsa_select_cipher M_aes_192_ofb = Some ''aes_192_ofb''"
| "rsa_select_cipher M_aes_256_ofb = Some ''aes_256_ofb''"
| "rsa_select_cipher M_des_ede3_ecb = Some ''des_ede3_cbc''"
| "rsa_select_cipher M_des_ede3_cbc = Some ''des_ede3_cbc''"
| "rsa_select_cipher M_des_ede3_cfb = Some ''des_ede3_cfb''"
| "rsa_select_cipher M_des_ede3_ofb = Some ''des_ede3_ofb''"
| "rsa_select_cipher M_des_ede_cbc = Some ''des_ede_cbc''"
| "rsa_select_cipher M_des_ecb = Some ''des_cbc''"
| "rsa_select_cipher M_des_cbc = Some ''des_cbc''"
| "rsa_select_cipher M_des_cfb = Some ''des_cfb''"
| "rsa_select_cipher M_des_ofb = Some ''des_ofb''"
| "rsa_select_cipher M_bf_ecb = Some ''bf_cbc''"
| "rsa_select_cipher M_bf_cbc = Some ''bf_cbc''"
| "rsa_select_cipher M_bf_cfb = Some ''bf_cfb''"
| "rsa_select_cipher M_bf_ofb = Some ''bf_ofb''"
| "rsa_select_cipher M_cast5_ecb = Some ''cast5_cbc''"
| "rsa_select_cipher M_cast5_cbc = Some ''cast5_cbc''"
| "rsa_select_cipher M_cast5_cfb = Some ''cast5_cfb''"
| "rsa_select_cipher M_cast5_ofb = Some ''cast5_ofb''"
| "rsa_select_cipher M_rc2_ecb = Some ''rc2_cbc''"
| "rsa_select_cipher M_rc2_cbc = Some ''rc2_cbc''"
| "rsa_select_cipher M_rc2_cfb = Some ''rc2_cfb''"
| "rsa_select_cipher M_rc2_ofb = Some ''rc2_ofb''"

definition validate_password_for_cipher :: "rsa_mode \<Rightarrow> nat \<Rightarrow> bool" where
  "validate_password_for_cipher md password_len \<longleftrightarrow>
     (if md = M_none then True
      else if md \<in> {M_des_ecb, M_des_cbc, M_des_cfb, M_des_ofb, M_des_ede_cbc, M_des_ede3_ecb, M_des_ede3_cbc, M_des_ede3_cfb,
                 M_des_ede3_ofb} then password_len \<ge> 8
      else if md \<in> {M_aes_128_ecb, M_aes_128_cbc, M_aes_128_cfb, M_aes_128_ofb, M_aes_192_ecb, M_aes_192_cbc, M_aes_192_cfb,
                 M_aes_192_ofb, M_aes_256_ecb, M_aes_256_cbc, M_aes_256_cfb, M_aes_256_ofb} then password_len \<ge> 8
      else password_len \<ge> 4)"

text \<open>\<open>memcpy(pem, buf, len); pem[len] = 0\<close>\<close>

definition put_text :: "bytes \<Rightarrow> bytes \<Rightarrow> bytes result" where
  "put_text buf t = (if length t < length buf then Inr (t @ 0 # drop (Suc (length t)) buf) else Inl Out_of_bounds)"

text \<open>The private key is written with a cipher and a password, or without.\<close>

definition write_private_key :: "'k rsa_lib \<Rightarrow> key_format \<Rightarrow> 'k \<Rightarrow> rsa_mode \<Rightarrow> bytes option \<Rightarrow> nat \<Rightarrow> bytes option result" where
  "write_private_key lib fmt k md password password_len =
     (case (rsa_select_cipher md, password) of
        (Some cipher, Some p) \<Rightarrow>
          map_sum id (\<lambda>pw. pem_write_pri lib fmt k (Some (cipher, pw))) (read_input p (c_int password_len))
      | _ \<Rightarrow> Inr (pem_write_pri lib fmt k None))"

text \<open>The code, then buffer and length of the public and of the private key.\<close>

definition rsa_keygen ::
  "'k rsa_lib \<Rightarrow> nat \<Rightarrow> bytes option \<Rightarrow> nat \<Rightarrow> bytes option \<Rightarrow> nat \<Rightarrow> nat \<Rightarrow> key_format \<Rightarrow> rsa_mode \<Rightarrow> bytes option \<Rightarrow> nat
   \<Rightarrow> (rsa_error \<times> (bytes option \<times> nat) \<times> (bytes option \<times> nat)) result" where
  "rsa_keygen lib r pub pub_cap pri pri_cap bits fmt md password password_len =
     (let give = (\<lambda>ec. Inr (ec, (pub, pub_cap), (pri, pri_cap))) in
      case pub of
        None \<Rightarrow> give Invalid_pubkey_pem
      | Some pub_mem \<Rightarrow>
          if pub_cap < 256 then give Invalid_pubkey_pem
          else case pri of
            None \<Rightarrow> give Invalid_prikey_pem
          | Some pri_mem \<Rightarrow>
              if pri_cap < 512 then give Invalid_prikey_pem
              else if \<not> is_key_pair_bits_valid bits then give Invalid_key_bits
              else if md \<noteq> M_none \<and> (password = None \<or> \<not> validate_password_for_cipher md password_len)
                then give Mode_and_password_mismatch
              else case rsa_generate lib r bits of
                None \<Rightarrow> give Key_generation_failed
              | Some k \<Rightarrow>
                  case pem_write_pub lib fmt k of
                    None \<Rightarrow> give Key_generation_failed
                  | Some pub_buf \<Rightarrow>
                      res_bind (write_private_key lib fmt k md password password_len) (\<lambda>pri_text.
                        case pri_text of
                          None \<Rightarrow> give Key_generation_failed
                        | Some pri_buf \<Rightarrow>
                            if length pub_buf < 1 \<or> length pub_buf > pub_cap then give Key_generation_failed
                            else if length pri_buf < 1 \<or> length pri_buf > pri_cap then give Key_generation_failed
                            else res_bind (put_text pub_mem pub_buf) (\<lambda>pub'.
                              map_sum id (\<lambda>pri'. (Rsa_ok, (Some pub', length pub_buf), (Some pri', length pri_buf)))
                                (put_text pri_mem pri_buf))))"

text \<open>\<open>data()\<close> of a string also shows its terminator, which \<open>resize\<close> then drops.\<close>

definition rsa_keygen_string ::
  "'k rsa_lib \<Rightarrow> nat \<Rightarrow> bytes \<Rightarrow> bytes \<Rightarrow> nat \<Rightarrow> key_format \<Rightarrow> rsa_mode \<Rightarrow> bytes \<Rightarrow> (rsa_error \<times> bytes \<times> bytes) result" where
  "rsa_keygen_string lib r pub pri bits fmt md password =
     map_sum id (\<lambda>(ec, (pub_mem, pub_len), (pri_mem, pri_len)).
         if ec \<noteq> Rsa_ok then (ec, [], [])
         else (ec, resize (case pub_mem of None \<Rightarrow> [] | Some m \<Rightarrow> m) pub_len, resize (case pri_mem of None \<Rightarrow> [] | Some m \<Rightarrow> m) pri_len))
       (rsa_keygen lib r (c_str (resize pub RSA_MAX_KEY_LENGTH)) RSA_MAX_KEY_LENGTH (c_str (resize pri RSA_MAX_KEY_LENGTH))
          RSA_MAX_KEY_LENGTH bits fmt md (c_str password) (length password))"

end
