(* ===== verification/RsaProps.thy ===== *)
theory RsaProps
  imports Rsa
begin

text \<open>
  Properties of the RSA wrapper. The locale \<open>rsa_cipher\<close> has OpenSSL's documented laws of the four transformations on one
  block, and in it the chunked loops of the stream versions are shown to be inverse to each other; \<open>rsa_keys\<close> adds what
  is documented of key generation and of writing and reading PEM texts. Both are interpreted for a reference
  implementation whose keys are their sizes.
\<close>

section \<open>What OpenSSL promises\<close>

text \<open>The longest text of one block: \<open>RSA_size - 11\<close> for PKCS #1 v1.5 and \<open>RSA_size - 42\<close> for OAEP.\<close>

definition text_limit :: "rsa_padding \<Rightarrow> nat \<Rightarrow> nat" where
  "text_limit pad key_size = (if pad = Pad_oaep then key_size - 42 else key_size - 11)"

definition first_of :: "'a option \<Rightarrow> 'a option \<Rightarrow> 'a option" where
  "first_of a b = (case a of Some k \<Rightarrow> Some k | None \<Rightarrow> b)"

locale rsa_cipher =
  fixes lib :: "'k rsa_lib" and public_half :: "'k \<Rightarrow> 'k" and sound :: "'k \<Rightarrow> bool"
  assumes size_range: "sound k \<Longrightarrow> 64 \<le> rsa_size lib k \<and> rsa_size lib k \<le> 2048"
    and size_public: "sound k \<Longrightarrow> rsa_size lib (public_half k) = rsa_size lib k"
    and encrypt_block:
      "sound k \<Longrightarrow> pad = Pad_pkcs1 \<or> pad = Pad_oaep \<Longrightarrow> length m \<le> text_limit pad (rsa_size lib k) \<Longrightarrow>
       \<exists>c. pub_encrypt lib r (public_half k) pad (int (length m)) m = Some c \<and> length c = rsa_size lib k
         \<and> pri_decrypt lib k pad (int (length c)) c = Some m"
    and sign_block:
      "sound k \<Longrightarrow> length m \<le> text_limit Pad_pkcs1 (rsa_size lib k) \<Longrightarrow>
       \<exists>c. pri_encrypt lib k Pad_pkcs1 (int (length m)) m = Some c \<and> length c = rsa_size lib k
         \<and> pub_decrypt lib (public_half k) Pad_pkcs1 (int (length c)) c = Some m"
begin

lemma limit_range:
  assumes "sound k"
  shows "0 < text_limit pad (rsa_size lib k)" "text_limit pad (rsa_size lib k) < rsa_size lib k" "rsa_size lib k \<le> 2048"
  using size_range [OF assms] by (auto simp: text_limit_def)

lemma loops_inverse:
  assumes "sound k" "pad = Pad_pkcs1 \<or> pad = Pad_oaep"
  shows "\<exists>c. (inp \<noteq> [] \<longrightarrow> c \<noteq> [])
    \<and> (\<forall>out. rsa_encrypt_loop lib (public_half k) pad (rsa_size lib k) (text_limit pad (rsa_size lib k)) r out inp = Inr (Rsa_ok, out @ c))
    \<and> (\<forall>out. rsa_decrypt_loop lib k pad (rsa_size lib k) out c = Inr (Rsa_ok, out @ inp))"
proof (induction "length inp" arbitrary: inp r rule: less_induct)
  case less
  let ?n = "text_limit pad (rsa_size lib k)"
  note limits = limit_range(1,2) [OF assms(1), of pad] limit_range(3) [OF assms(1)]
  show ?case
  proof (cases "inp = []")
    case True
    then show ?thesis by (auto simp: rsa_encrypt_loop.simps rsa_decrypt_loop.simps intro: exI [of _ "[]"])
  next
    case False
    have "length (take ?n inp) \<le> ?n" by simp
    then obtain c1 where c1: "pub_encrypt lib r (public_half k) pad (int (length (take ?n inp))) (take ?n inp) = Some c1"
      "length c1 = rsa_size lib k" "pri_decrypt lib k pad (int (length c1)) c1 = Some (take ?n inp)"
      using encrypt_block [OF assms, of "take ?n inp"] by blast
    have "length (drop ?n inp) < length inp" using False limits by simp
    from less.hyps [OF this, of "Suc r"]
    obtain c2 where
      c2: "\<And>out. rsa_encrypt_loop lib (public_half k) pad (rsa_size lib k) ?n (Suc r) out (drop ?n inp) = Inr (Rsa_ok, out @ c2)"
        "\<And>out. rsa_decrypt_loop lib k pad (rsa_size lib k) out c2 = Inr (Rsa_ok, out @ drop ?n inp)"
      by blast
    have nonempty: "\<not> length (take ?n inp) < 1" "\<not> length (take ?n inp) > RSA_MAX_KEY_LENGTH" "pad \<noteq> Pad_none"
      using False limits assms(2) by (auto simp: RSA_MAX_KEY_LENGTH_def)
    have "rsa_encrypt_loop lib (public_half k) pad (rsa_size lib k) ?n r out inp = Inr (Rsa_ok, out @ c1 @ c2)" for out
      using nonempty c1 c2 limits by (subst rsa_encrypt_loop.simps) (simp add: Let_def fits_def RSA_MAX_KEY_LENGTH_def, simp add: min_def)
    moreover have "rsa_decrypt_loop lib k pad (rsa_size lib k) out (c1 @ c2) = Inr (Rsa_ok, out @ inp)" for out
      using nonempty c1 c2 limits by (subst rsa_decrypt_loop.simps) (simp add: Let_def fits_def RSA_MAX_KEY_LENGTH_def)
    moreover have "c1 @ c2 \<noteq> []" using c1(2) limits by auto
    ultimately show ?thesis by blast
  qed
qed

end

section \<open>Loading and generating\<close>

lemma c_int_small: "n < 2 ^ 31 \<Longrightarrow> c_int n = int n"
  by (simp add: c_int_def)

lemma read_input_prefix: "length s < 2 ^ 31 \<Longrightarrow> read_input (s @ xs) (c_int (length s)) = Inr s"
  by (simp add: read_input_def c_int_small)

lemma load_public_string:
  "t \<noteq> [] \<Longrightarrow> length t < 2 ^ 31 \<Longrightarrow>
   load_public_key lib (c_str t) (length t) = Inr (first_of (pem_pub_x509 lib t) (pem_pub_pkcs1 lib t))"
  by (simp add: load_public_key_def mem_bio_def read_input_prefix first_of_def) (simp add: c_int_small)

lemma load_private_string:
  "t \<noteq> [] \<Longrightarrow> length t < 2 ^ 31 \<Longrightarrow>
   load_private_key lib (c_str t) (length t) p n =
     res_bind (pem_password lib t (if n > 0 then p else None)) (\<lambda>pw. Inr (first_of (pem_pri_pkcs1 lib t pw) (pem_pri_x509 lib t pw)))"
  by (simp add: load_private_key_def mem_bio_def read_input_prefix first_of_def) (simp add: c_int_small)

lemma c_string_nul_free: "0 \<notin> set s \<Longrightarrow> c_string (s @ [0]) = Inr s"
  by (simp add: c_string_def) (induction s; auto)

lemma select_cipher_none [simp]: "rsa_select_cipher md = None \<longleftrightarrow> md = M_none"
  by (cases md) simp_all

text \<open>A password that the mode accepts and that a zero-terminated string can hold.\<close>

definition password_fits :: "rsa_mode \<Rightarrow> bytes \<Rightarrow> bool" where
  "password_fits md pw \<longleftrightarrow> md = M_none \<or> validate_password_for_cipher md (length pw) \<and> 0 \<notin> set pw \<and> length pw \<le> 1024"

lemma password_fits_length: "password_fits md pw \<Longrightarrow> md \<noteq> M_none \<Longrightarrow> 4 \<le> length pw"
  by (auto simp: password_fits_def validate_password_for_cipher_def split: if_splits)

lemma put_text_resize: "length t \<le> n \<Longrightarrow> put_text (resize s n @ [0]) t = Inr (t @ 0 # drop (Suc (length t)) (resize s n @ [0]))"
  by (simp add: put_text_def resize_def)

lemma resize_prefix: "resize (t @ xs) (length t) = t"
  by (simp add: resize_def)

lemma keygen_string_ok:
  assumes "rsa_generate lib r bits = Some k" "is_key_pair_bits_valid bits" "md = M_none \<or> validate_password_for_cipher md (length pw)"
    and "pem_write_pub lib fmt k = Some tp" "write_private_key lib fmt k md (c_str pw) (length pw) = Inr (Some ts)"
    and "0 < length tp" "length tp \<le> 4096" "0 < length ts" "length ts \<le> 4096"
  shows "rsa_keygen_string lib r s1 s2 bits fmt md pw = Inr (Rsa_ok, tp, ts)"
  using assms by (auto simp: rsa_keygen_string_def rsa_keygen_def Let_def RSA_MAX_KEY_LENGTH_def put_text_resize resize_prefix)

lemma store_resized: "length c \<le> n \<Longrightarrow> des_store (resize s n) c = Inr (c @ drop (length c) (resize s n))"
  by (simp add: des_store_def resize_def)

lemma encrypt_string_ok:
  assumes "load_public_key lib (c_str pem) (length pem) = Inr (Some u)" "pem \<noteq> []" "rsa_plain_fits lib (length m) pad u"
    and "length m < 2 ^ 31" "pub_encrypt lib r u pad (int (length m)) m = Some c" "length c \<le> rsa_size lib u"
  shows "rsa_encrypt_string lib r s m pem pad = Inr (Rsa_ok, c)"
  using assms
  by (simp add: rsa_encrypt_string_def rsa_encrypt_len_reserve_def rsa_encrypt_def read_input_prefix store_resized finish_rsa_def resize_prefix)
    (simp add: c_int_small store_resized resize_prefix)

lemma decrypt_string_ok:
  assumes "load_private_key lib (c_str pem) (length pem) None 0 = Inr (Some k)"
    and "load_private_key lib (c_str pem) (length pem) (password_ptr pw) (length pw) = Inr (Some k)"
    and "pem \<noteq> []" "c \<noteq> []" "length c < 2 ^ 31" "pri_decrypt lib k pad (int (length c)) c = Some m"
    and "length m \<le> rsa_size lib k" "0 < rsa_size lib k"
  shows "rsa_decrypt_string lib s c pem pad pw = Inr (Rsa_ok, m)"
  using assms
  by (simp add: rsa_decrypt_string_def rsa_decrypt_len_reserve_def rsa_decrypt_def read_input_prefix store_resized finish_rsa_def resize_prefix)
    (simp add: c_int_small store_resized resize_prefix)

text \<open>
  A generated key is written as two PEM texts. Whichever reader is tried first, the public one reads as the public half, and
  the private one as the key: without a password when it was written without, and with the password it was
  written with, otherwise. Without its password it is not read. The texts are at least as long as the modulus, and the
  ones of keys with at most 4096 bits fit in 4096 bytes.
\<close>

locale rsa_keys = rsa_cipher +
  assumes generated: "rsa_generate lib r bits = Some k \<Longrightarrow> is_key_pair_bits_valid bits \<Longrightarrow> sound k \<and> rsa_size lib k = bits div 8"
    and write_pub:
      "sound k \<Longrightarrow> rsa_size lib k \<le> 512 \<Longrightarrow>
       \<exists>t. pem_write_pub lib fmt k = Some t \<and> rsa_size lib k \<le> length t \<and> length t \<le> 4096
         \<and> first_of (pem_pub_x509 lib t) (pem_pub_pkcs1 lib t) = Some (public_half k)"
    and write_pri_plain:
      "sound k \<Longrightarrow> rsa_size lib k \<le> 512 \<Longrightarrow>
       \<exists>t. pem_write_pri lib fmt k None = Some t \<and> rsa_size lib k \<le> length t \<and> length t \<le> 4096
         \<and> \<not> pem_encrypted lib t \<and> first_of (pem_pri_pkcs1 lib t None) (pem_pri_x509 lib t None) = Some k"
    and write_pri_cipher:
      "sound k \<Longrightarrow> rsa_size lib k \<le> 512 \<Longrightarrow> 4 \<le> length pw \<Longrightarrow> length pw \<le> 1024 \<Longrightarrow>
       \<exists>t. pem_write_pri lib fmt k (Some (cipher, pw)) = Some t \<and> rsa_size lib k \<le> length t \<and> length t \<le> 4096
         \<and> pem_encrypted lib t \<and> first_of (pem_pri_pkcs1 lib t (Some pw)) (pem_pri_x509 lib t (Some pw)) = Some k
         \<and> first_of (pem_pri_pkcs1 lib t None) (pem_pri_x509 lib t None) = None"
begin

lemma private_key_written:
  assumes "sound k" "rsa_size lib k \<le> 512" "password_fits md pw"
  obtains t where "write_private_key lib fmt k md (c_str pw) (length pw) = Inr (Some t)" "rsa_size lib k \<le> length t" "length t \<le> 4096"
    "load_private_key lib (c_str t) (length t) (password_ptr pw) (length pw) = Inr (Some k)"
    "load_private_key lib (c_str t) (length t) None 0 = Inr (if md = M_none then Some k else None)"
proof (cases "md = M_none")
  case True
  obtain t where t: "pem_write_pri lib fmt k None = Some t" "rsa_size lib k \<le> length t" "length t \<le> 4096" "\<not> pem_encrypted lib t"
    "first_of (pem_pri_pkcs1 lib t None) (pem_pri_x509 lib t None) = Some k"
    using write_pri_plain [OF assms(1,2)] by blast
  then have "t \<noteq> []" using limit_range(1,2) [OF assms(1), of Pad_oaep] by auto
  with t True show ?thesis
    by (intro that [of t]) (auto simp: write_private_key_def load_private_string pem_password_def split: option.split)
next
  case False
  then obtain cipher where cipher: "rsa_select_cipher md = Some cipher" by (metis select_cipher_none not_None_eq)
  have pw: "4 \<le> length pw" "length pw \<le> 1024" "0 \<notin> set pw"
    using False assms(3) password_fits_length [OF assms(3)] by (auto simp: password_fits_def)
  then obtain t where t: "pem_write_pri lib fmt k (Some (cipher, pw)) = Some t" "rsa_size lib k \<le> length t" "length t \<le> 4096"
    "pem_encrypted lib t" "first_of (pem_pri_pkcs1 lib t (Some pw)) (pem_pri_x509 lib t (Some pw)) = Some k"
    "first_of (pem_pri_pkcs1 lib t None) (pem_pri_x509 lib t None) = None"
    using write_pri_cipher [OF assms(1,2)] by blast
  then have "t \<noteq> []" "pw \<noteq> []" using limit_range(1,2) [OF assms(1), of Pad_oaep] pw by auto
  with t False cipher pw show ?thesis
    by (intro that [of t])
      (simp_all add: write_private_key_def load_private_string pem_password_def password_ptr_def c_string_nul_free read_input_prefix)
qed

text \<open>Key generation succeeds when OpenSSL's does, and its texts load as the two halves of the key.\<close>

lemma generated_keys_load:
  assumes "rsa_generate lib r bits = Some k" "is_key_pair_bits_valid bits" "password_fits md pw"
  obtains pub pri where "rsa_keygen_string lib r s1 s2 bits fmt md pw = Inr (Rsa_ok, pub, pri)"
    "pub \<noteq> []" "pri \<noteq> []" "rsa_size lib k \<le> length pub" "rsa_size lib k \<le> length pri"
    "load_public_key lib (c_str pub) (length pub) = Inr (Some (public_half k))"
    "load_private_key lib (c_str pri) (length pri) (password_ptr pw) (length pw) = Inr (Some k)"
    "load_private_key lib (c_str pri) (length pri) None 0 = Inr (if md = M_none then Some k else None)"
proof -
  have k: "sound k" and size: "rsa_size lib k \<le> 512"
    using generated [OF assms(1,2)] assms(2) by (auto simp: is_key_pair_bits_valid_def split: if_splits)
  obtain pub where pub: "pem_write_pub lib fmt k = Some pub" "rsa_size lib k \<le> length pub" "length pub \<le> 4096"
    "first_of (pem_pub_x509 lib pub) (pem_pub_pkcs1 lib pub) = Some (public_half k)"
    using write_pub [OF k size] by blast
  obtain pri where pri: "write_private_key lib fmt k md (c_str pw) (length pw) = Inr (Some pri)" "rsa_size lib k \<le> length pri"
    "length pri \<le> 4096" "load_private_key lib (c_str pri) (length pri) (password_ptr pw) (length pw) = Inr (Some k)"
    "load_private_key lib (c_str pri) (length pri) None 0 = Inr (if md = M_none then Some k else None)"
    using private_key_written [OF k size assms(3)] by blast
  have pos: "0 < length pub" "0 < length pri" using limit_range(1,2) [OF k, of Pad_oaep] pub(2) pri(2) by auto
  have "rsa_keygen_string lib r s1 s2 bits fmt md pw = Inr (Rsa_ok, pub, pri)"
    using assms pub pri pos by (intro keygen_string_ok [of lib r bits k]) (auto simp: password_fits_def)
  moreover have "load_public_key lib (c_str pub) (length pub) = Inr (Some (public_half k))"
    using pub pos by (subst load_public_string) auto
  ultimately show ?thesis using that pos pub(2) pri by blast
qed

lemma generated_sound:
  "rsa_generate lib r bits = Some k \<Longrightarrow> is_key_pair_bits_valid bits \<Longrightarrow> sound k"
  using generated by blast

end

section \<open>A reference implementation\<close>

text \<open>A key is its size in bytes; a block is its text after a filler that ends in 1, and a PEM text has a tag for its format, the size
  and, when it is protected, the password at the end.\<close>

definition ref_pad :: "nat \<Rightarrow> bytes \<Rightarrow> bytes option" where
  "ref_pad n m = (if length m < n then Some (replicate (n - Suc (length m)) 0 @ 1 # m) else None)"

definition ref_unpad :: "nat \<Rightarrow> bytes \<Rightarrow> bytes option" where
  "ref_unpad n c = (if length c = n then (case dropWhile (\<lambda>b. b = 0) c of [] \<Rightarrow> None | b # m \<Rightarrow> Some m) else None)"

definition ref_pem :: "u8 \<Rightarrow> nat \<Rightarrow> bytes" where
  "ref_pem tag n = tag # of_nat (n div 256) # of_nat (n mod 256) # replicate n 65"

definition ref_parse :: "u8 \<Rightarrow> bytes \<Rightarrow> (nat \<times> bytes) option" where
  "ref_parse tag t =
     (case t of
        a # h # l # rest \<Rightarrow>
          let n = unat h * 256 + unat l in if a = tag \<and> n \<le> length rest then Some (n, drop n rest) else None
      | _ \<Rightarrow> None)"

definition ref_pri :: "u8 \<Rightarrow> u8 \<Rightarrow> bytes \<Rightarrow> bytes option \<Rightarrow> nat option" where
  "ref_pri plain protected t password =
     (case password of
        None \<Rightarrow> map_option fst (ref_parse plain t)
      | Some pw \<Rightarrow> Option.bind (ref_parse protected t) (\<lambda>(n, rest). if rest = pw then Some n else None))"

definition ref_lib :: "nat rsa_lib" where
  "ref_lib =
     \<lparr>pem_pub_x509 = (\<lambda>t. map_option fst (ref_parse 1 t)), pem_pub_pkcs1 = (\<lambda>t. map_option fst (ref_parse 2 t)),
      pem_encrypted = (\<lambda>t. t \<noteq> [] \<and> hd t \<in> {5, 6}),
      pem_pri_pkcs1 = ref_pri 4 6, pem_pri_x509 = ref_pri 3 5, rsa_size = (\<lambda>k. k),
      pub_encrypt = (\<lambda>r k pad n m. ref_pad k m), pri_decrypt = (\<lambda>k pad n c. ref_unpad k c),
      pri_encrypt = (\<lambda>k pad n m. ref_pad k m), pub_decrypt = (\<lambda>k pad n c. ref_unpad k c),
      rsa_generate = (\<lambda>r bits. Some (bits div 8)),
      pem_write_pub = (\<lambda>fmt k. Some (ref_pem (if fmt = X509 then 1 else 2) k)),
      pem_write_pri = (\<lambda>fmt k c. Some (case c of
          None \<Rightarrow> ref_pem (if fmt = X509 then 3 else 4) k
        | Some (cipher, pw) \<Rightarrow> ref_pem (if fmt = X509 then 5 else 6) k @ pw))\<rparr>"

definition ref_sound :: "nat \<Rightarrow> bool" where
  "ref_sound k \<longleftrightarrow> 64 \<le> k \<and> k \<le> 512"

lemma ref_unpad_pad: "length m < n \<Longrightarrow> ref_unpad n (replicate (n - Suc (length m)) 0 @ 1 # m) = Some m"
proof -
  have "dropWhile (\<lambda>b. b = (0 :: u8)) (replicate i 0 @ 1 # m) = 1 # m" for i by (induction i) simp_all
  then show "length m < n \<Longrightarrow> ?thesis" by (simp add: ref_unpad_def)
qed

lemma ref_parse_pem: "ref_sound n \<Longrightarrow> ref_parse tag (ref_pem tag' n @ xs) = (if tag' = tag then Some (n, xs) else None)"
  by (auto simp: ref_sound_def ref_parse_def ref_pem_def Let_def unat_of_nat split: if_splits)

lemma ref_parse_pem_only: "ref_sound n \<Longrightarrow> ref_parse tag (ref_pem tag' n) = (if tag' = tag then Some (n, []) else None)"
  using ref_parse_pem [of n tag tag' "[]"] by simp

lemma ref_pem_basic: "length (ref_pem tag n) = n + 3" "ref_pem tag n \<noteq> []" "hd (ref_pem tag n @ xs) = tag" "hd (ref_pem tag n) = tag"
  by (simp_all add: ref_pem_def)

interpretation ref: rsa_keys ref_lib id ref_sound
proof
  fix k pad r and m :: bytes
  assume "ref_sound k" "pad = Pad_pkcs1 \<or> pad = Pad_oaep" "length m \<le> text_limit pad (rsa_size ref_lib k)"
  then have "length m < k" by (auto simp: ref_lib_def text_limit_def ref_sound_def split: if_splits)
  then show "\<exists>c. pub_encrypt ref_lib r (id k) pad (int (length m)) m = Some c \<and> length c = rsa_size ref_lib k
      \<and> pri_decrypt ref_lib k pad (int (length c)) c = Some m"
    by (simp add: ref_lib_def ref_pad_def ref_unpad_pad)
next
  fix k and m :: bytes
  assume "ref_sound k" "length m \<le> text_limit Pad_pkcs1 (rsa_size ref_lib k)"
  then have "length m < k" by (auto simp: ref_lib_def text_limit_def ref_sound_def split: if_splits)
  then show "\<exists>c. pri_encrypt ref_lib k Pad_pkcs1 (int (length m)) m = Some c \<and> length c = rsa_size ref_lib k
      \<and> pub_decrypt ref_lib (id k) Pad_pkcs1 (int (length c)) c = Some m"
    by (simp add: ref_lib_def ref_pad_def ref_unpad_pad)
next
  fix r bits k
  assume "rsa_generate ref_lib r bits = Some k" "is_key_pair_bits_valid bits"
  then show "ref_sound k \<and> rsa_size ref_lib k = bits div 8"
    by (auto simp: ref_lib_def ref_sound_def is_key_pair_bits_valid_def split: if_splits)
qed (auto simp: ref_lib_def ref_sound_def first_of_def ref_pri_def ref_pem_basic ref_parse_pem ref_parse_pem_only)

lemma ref_generate: "rsa_generate ref_lib r bits = Some (bits div 8)"
  by (simp add: ref_lib_def)

section \<open>Properties\<close>



text \<open>The string versions: a text that fits in one block is given back with an unprotected key, whatever the strings for the
  results held before and whatever password is passed.\<close>

theorem rsa_string_roundtrip:
  assumes "rsa_keys lib public_half sound"
    and "rsa_generate lib r bits = Some k" "is_key_pair_bits_valid bits"
    and "pad = Pad_pkcs1 \<or> pad = Pad_oaep" "length m \<le> text_limit pad (bits div 8)"
  shows "\<exists>pub pri c. rsa_keygen_string lib r s1 s2 bits fmt M_none pw = Inr (Rsa_ok, pub, pri)
    \<and> rsa_encrypt_string lib r' s3 m pub pad = Inr (Rsa_ok, c)
    \<and> rsa_decrypt_string lib s4 c pri pad pw = Inr (Rsa_ok, m)"
proof -
  have pw: "password_fits M_none pw" by (simp add: password_fits_def)
  note cipher = rsa_keys.axioms(1) [OF assms(1)]
  note k = rsa_keys.generated_sound [OF assms(1-3)]
  note bits = rsa_keys.generated [OF assms(1-3)]
  note size = rsa_cipher.size_range [OF cipher k] rsa_cipher.size_public [OF cipher k]
  obtain pub pri where gen: "rsa_keygen_string lib r s1 s2 bits fmt M_none pw = Inr (Rsa_ok, pub, pri)"
    and some: "pub \<noteq> []" "pri \<noteq> []"
    and load: "load_public_key lib (c_str pub) (length pub) = Inr (Some (public_half k))"
      "load_private_key lib (c_str pri) (length pri) (password_ptr pw) (length pw) = Inr (Some k)"
      "load_private_key lib (c_str pri) (length pri) None 0 = Inr (Some k)"
    by (rule rsa_keys.generated_keys_load [OF assms(1-3) pw, of s1 s2 fmt]) simp
  obtain c where c: "pub_encrypt lib r' (public_half k) pad (int (length m)) m = Some c" "length c = rsa_size lib k"
    "pri_decrypt lib k pad (int (length c)) c = Some m"
    using rsa_cipher.encrypt_block [OF cipher k assms(4), where m = m and r = r'] assms(5) bits by auto
  have small: "length m < rsa_size lib k" "rsa_size lib k < 2 ^ 31" "c \<noteq> []"
    using assms(5) bits size c(2) by (auto simp: text_limit_def split: if_splits)
  have fits: "rsa_plain_fits lib (length m) pad (public_half k)"
    using assms(4,5) bits size by (auto simp: rsa_plain_fits_def text_limit_def size_sub_def)
  have "rsa_encrypt_string lib r' s3 m pub pad = Inr (Rsa_ok, c)"
    using encrypt_string_ok [OF load(1) some(1) fits _ c(1)] c(2) small size by simp
  moreover have "rsa_decrypt_string lib s4 c pri pad pw = Inr (Rsa_ok, m)"
    using decrypt_string_ok [OF load(3,2) some(2) small(3) _ c(3)] c(2) small size by simp
  ultimately show ?thesis using gen by blast
qed

theorem rsa_string_roundtrip_witness:
  "\<exists>pub pri c. rsa_keygen_string ref_lib 0 [] [] 512 X509 M_none [] = Inr (Rsa_ok, pub, pri)
    \<and> rsa_encrypt_string ref_lib 1 [] [1, 2, 3] pub Pad_pkcs1 = Inr (Rsa_ok, c)
    \<and> rsa_decrypt_string ref_lib [] c pri Pad_pkcs1 [] = Inr (Rsa_ok, [1, 2, 3])"
  by (rule rsa_string_roundtrip [OF ref.rsa_keys_axioms ref_generate])
    (simp_all add: is_key_pair_bits_valid_def text_limit_def)





text \<open>Key generation into buffers writes a terminator behind the PEM text also when the text fills the announced length, one byte
  past the end of a buffer of exactly that length.\<close>

theorem rsa_keygen_terminator:
  assumes "rsa_generate lib r bits = Some k" "is_key_pair_bits_valid bits" "pem_write_pub lib fmt k = Some t" "256 \<le> length t"
    and "pem_write_pri lib fmt k None = Some t'" "0 < length t'" "length t' \<le> pri_cap" "512 \<le> pri_cap"
    and "length buf = length t"
  shows "rsa_keygen lib r (Some buf) (length t) (Some pri) pri_cap bits fmt M_none pw pw_len = Inl Out_of_bounds"
proof -
  have "put_text buf t = Inl Out_of_bounds" using assms(9) by (simp add: put_text_def)
  moreover have "write_private_key lib fmt k M_none pw pw_len = Inr (Some t')"
    using assms(5) by (simp add: write_private_key_def split: option.split)
  moreover have "\<not> length t < 256" "\<not> length t < 1" "\<not> length t' < 1" "\<not> length t' > pri_cap" "\<not> pri_cap < 512"
    using assms by auto
  ultimately show ?thesis using assms(1-3) by (simp add: rsa_keygen_def Let_def)
qed

theorem rsa_keygen_terminator_witness:
  "rsa_keygen ref_lib 0 (Some (replicate 387 0)) 387 (Some (replicate 600 0)) 600 3072 X509 M_none None 0 = Inl Out_of_bounds"
  using rsa_keygen_terminator [OF ref_generate, of 3072 X509 "ref_pem 1 384" "ref_pem 3 384" 600 "replicate 387 0" 0 "replicate 600 0" None 0]
  by (simp add: is_key_pair_bits_valid_def ref_pem_basic) (simp add: ref_lib_def)

end
