(* ===== verification/Base64Stream.thy ===== *)
theory Base64Stream
  imports Base64
begin

text \<open>
  The stream and file versions of \<open>src/hj/crypto/base64.hpp\<close>, which push blocks through OpenSSL's base64 filter.

  The filter is a parameter, a record of the BIO calls on an abstract state: \<open>bio_put\<close> is \<open>BIO_write\<close> with the
  number that it returns, \<open>bio_flushed\<close> is the text behind the filter after \<open>BIO_flush\<close>, \<open>bio_source\<close> pushes the filter on a
  text, and \<open>bio_get\<close> is \<open>BIO_read\<close>, \<open>None\<close> when it returns zero or less. The flags say whether the BIO objects could
  be allocated. A reading loop ends only when the filter ends it, so it is a partial function.
\<close>

section \<open>Definitions\<close>

record ('w, 'r) b64_bio =
  bio_new :: 'w
  bio_put :: "'w \<Rightarrow> bytes \<Rightarrow> int \<times> 'w"
  bio_flushed :: "'w \<Rightarrow> bytes"
  bio_source :: "bytes \<Rightarrow> 'r"
  bio_get :: "'r \<Rightarrow> nat \<Rightarrow> (bytes \<times> 'r) option"

text \<open>\<open>while(in.read(buffer, sizeof(buffer)) || in.gcount() > 0) BIO_write(\<dots>)\<close>; \<open>None\<close> when a write falls short\<close>

function b64_put_blocks :: "('w, 'r) b64_bio \<Rightarrow> 'w \<Rightarrow> bytes \<Rightarrow> 'w option" where
  "b64_put_blocks bio w inp =
     (let buffer = take BASE64_BUF_SIZE inp; n = length buffer in
      if n = 0 then Some w
      else case bio_put bio w buffer of
             (m, w') \<Rightarrow> if m \<noteq> int n then None else b64_put_blocks bio w' (drop BASE64_BUF_SIZE inp))"
  by pat_completeness auto
termination
  by (relation "measure (\<lambda>(bio, w, inp). length inp)") (auto simp: BASE64_BUF_SIZE_def)

declare b64_put_blocks.simps [simp del]

definition base64_encode_stream ::
  "('w, 'r) b64_bio \<Rightarrow> bool \<Rightarrow> bool \<Rightarrow> bool \<Rightarrow> bytes \<Rightarrow> bool \<Rightarrow> bytes \<Rightarrow> base64_error \<times> bytes" where
  "base64_encode_stream bio b64_ok mem_ok out_good out in_good inp =
     (if \<not> in_good \<or> \<not> out_good then (B64_invalid_input, out)
      else if \<not> b64_ok then (B64_encode_failed, out)
      else if \<not> mem_ok then (B64_encode_failed, out)
      else case b64_put_blocks bio (bio_new bio) inp of
             None \<Rightarrow> (B64_encode_failed, out)
           | Some w \<Rightarrow> if length (bio_flushed bio w) > 0 then (B64_ok, out @ bio_flushed bio w) else (B64_ok, out))"


text \<open>\<open>while((n = BIO_read(b64, outbuf, sizeof(outbuf))) > 0)\<close>; \<open>accept\<close> says whether \<open>fwrite\<close> takes a block after what was written,
  and the flag of the result whether the loop reached its end.\<close>

partial_function (option) b64_get_blocks ::
  "('w, 'r) b64_bio \<Rightarrow> nat \<Rightarrow> (bytes \<Rightarrow> bytes \<Rightarrow> bool) \<Rightarrow> 'r \<Rightarrow> bytes \<Rightarrow> (bool \<times> bytes) option" where
  "b64_get_blocks bio sz accept r out =
     (case bio_get bio r sz of
        None \<Rightarrow> Some (True, out)
      | Some (chunk, r') \<Rightarrow> if accept out chunk then b64_get_blocks bio sz accept r' (out @ chunk) else Some (False, out))"

text \<open>\<open>BIO_new_mem_buf\<close> of a string; a length that becomes negative stands for a zero-terminated text.\<close>

definition b64_mem_source :: "bytes \<Rightarrow> bytes" where
  "b64_mem_source s =
     (if int_cast (length s) < 0 then takeWhile (\<lambda>b. b \<noteq> 0) s else take (nat (int_cast (length s))) s)"

definition base64_decode_stream :: "('w, 'r) b64_bio \<Rightarrow> bool \<Rightarrow> bool \<Rightarrow> bytes \<Rightarrow> bytes \<Rightarrow> (base64_error \<times> bytes) option" where
  "base64_decode_stream bio b64_ok mem_ok out inp =
     (if \<not> b64_ok then Some (B64_decode_failed, out)
      else if \<not> mem_ok then Some (B64_decode_failed, out)
      else map_option (\<lambda>(_, out). (B64_ok, out))
             (b64_get_blocks bio BASE64_BUF_SIZE (\<lambda>_ _. True) (bio_source bio (b64_mem_source inp)) out))"


section \<open>What the filter promises\<close>

text \<open>
  The text behind the filter after a flush is the encoding of all that was written, in how many pieces it may be. A
  read delivers at least one and at most as many bytes as asked for, until the decoded text is used up.
\<close>

locale b64_filter =
  fixes bio :: "('w, 'r) b64_bio" and taken :: "'w \<Rightarrow> bytes" and pending :: "'r \<Rightarrow> bytes"
  assumes taken_new: "taken (bio_new bio) = []"
    and put: "fst (bio_put bio w bs) = int (length bs)" "taken (snd (bio_put bio w bs)) = taken w @ bs"
    and flushed: "bio_flushed bio w = b64 (taken w)"
    and source: "pending (bio_source bio (b64 bs)) = bs"
    and get_end: "pending r = [] \<Longrightarrow> bio_get bio r n = None"
    and get_some: "pending r \<noteq> [] \<Longrightarrow> 0 < n \<Longrightarrow>
      \<exists>chunk r'. bio_get bio r n = Some (chunk, r') \<and> 0 < length chunk \<and> length chunk \<le> n \<and> pending r = chunk @ pending r'"
begin

lemma put_blocks_all: "\<exists>w'. b64_put_blocks bio w inp = Some w' \<and> taken w' = taken w @ inp"
proof (induction "length inp" arbitrary: w inp rule: less_induct)
  case less
  show ?case
  proof (cases "inp = []")
    case True
    then show ?thesis by (simp add: b64_put_blocks.simps)
  next
    case False
    let ?w = "snd (bio_put bio w (take BASE64_BUF_SIZE inp))"
    have "length (drop BASE64_BUF_SIZE inp) < length inp" using False by (simp add: BASE64_BUF_SIZE_def)
    from less.hyps [OF this, of ?w] obtain w' where
      w': "b64_put_blocks bio ?w (drop BASE64_BUF_SIZE inp) = Some w'" "taken w' = taken ?w @ drop BASE64_BUF_SIZE inp" by blast
    have "take BASE64_BUF_SIZE inp \<noteq> []" using False by (simp add: BASE64_BUF_SIZE_def)
    then have "b64_put_blocks bio w inp = Some w'"
      using w'(1) put(1) [of w "take BASE64_BUF_SIZE inp"]
      by (subst b64_put_blocks.simps) (simp add: Let_def case_prod_beta)
    then show ?thesis using w'(2) put(2) by simp
  qed
qed

lemma get_blocks_all: "0 < sz \<Longrightarrow> b64_get_blocks bio sz (\<lambda>_ _. True) r out = Some (True, out @ pending r)"
proof (induction "length (pending r)" arbitrary: r out rule: less_induct)
  case less
  show ?case
  proof (cases "pending r = []")
    case True
    then show ?thesis by (subst b64_get_blocks.simps) (simp add: get_end)
  next
    case False
    then obtain chunk r' where c: "bio_get bio r sz = Some (chunk, r')" "0 < length chunk" "pending r = chunk @ pending r'"
      using get_some less.prems by blast
    then have "length (pending r') < length (pending r)" by simp
    from less.hyps [OF this less.prems] show ?thesis using c by (subst b64_get_blocks.simps) simp
  qed
qed

end



section \<open>Properties\<close>



text \<open>Encoding refuses a bad stream; decoding does not look at the state of its streams and reports success with nothing written.\<close>

lemma base64_decode_bad_stream:
  assumes "b64_filter bio taken pending"
  shows "base64_encode_stream bio True True out_good out False inp = (B64_invalid_input, out)
    \<and> base64_decode_stream bio True True out [] = Some (B64_ok, out)"
  using b64_filter.get_blocks_all [OF assms, of BASE64_BUF_SIZE] b64_filter.source [OF assms, of "[]"]
  by (simp add: base64_encode_stream_def base64_decode_stream_def b64_mem_source_def BASE64_BUF_SIZE_def)

end
