(* ===== verification/Utf8Platforms.thy ===== *)
theory Utf8Platforms
  imports Utf8 Base64
begin

text \<open>
  The other two implementations of the conversions of \<open>src/hj/encoding/utf8.hpp\<close>, which the preprocessor selects: the one for Windows, and the one
  for compilers before C++17 with the \<open>codecvt\<close> facets of the standard library. \<open>Utf8\<close> has the one for POSIX.

  \<open>w2m\<close> and \<open>m2w\<close> stand for \<open>WideCharToMultiByte\<close> and \<open>MultiByteToWideChar\<close> with \<open>CP_UTF8\<close>: the characters and their number as an
  \<open>int\<close>, to the converted text, which is empty when the call returns zero. \<open>to_bytes\<close> and \<open>from_bytes\<close> are the
  members of \<open>std::wstring_convert\<close>, \<open>None\<close> when they throw. The type of a wide character depends on the platform.
\<close>

section \<open>Definitions\<close>

subsection \<open>Windows\<close>

definition win_wide_to_utf8 :: "('w list \<Rightarrow> int \<Rightarrow> bytes) \<Rightarrow> 'w list \<Rightarrow> bytes \<times> utf8_error" where
  "win_wide_to_utf8 w2m str =
     (let result = w2m str (int_cast (length str)) in
      if length result = 0 then ([], Utf8_conversion_failed) else (result, Utf8_ok))"

definition win_utf8_to_wide :: "(bytes \<Rightarrow> int \<Rightarrow> 'w list) \<Rightarrow> bytes \<Rightarrow> 'w list \<times> utf8_error" where
  "win_utf8_to_wide m2w str =
     (let result = m2w str (int_cast (length str)) in
      if length result = 0 then ([], Utf8_conversion_failed) else (result, Utf8_ok))"

primrec win_decode_chars :: "('w list \<Rightarrow> int \<Rightarrow> bytes) \<Rightarrow> 'w list \<Rightarrow> bytes" where
  "win_decode_chars w2m [] = []"
| "win_decode_chars w2m (wc # wcs) = fst (win_wide_to_utf8 w2m [wc]) @ win_decode_chars w2m wcs"

function win_encode_blocks :: "(bytes \<Rightarrow> int \<Rightarrow> 'w list) \<Rightarrow> bytes \<Rightarrow> 'w list" where
  "win_encode_blocks m2w rest =
     (let buffer = take UTF8_BUF_SZ rest in
      if buffer = [] then []
      else case win_utf8_to_wide m2w buffer of
             (wstr, Utf8_ok) \<Rightarrow> wstr @ win_encode_blocks m2w (drop UTF8_BUF_SZ rest)
           | _ \<Rightarrow> [])"
  by pat_completeness auto

termination
  by (relation "measure (\<lambda>(_, rest). length rest)") (auto simp: UTF8_BUF_SZ_def)

declare win_encode_blocks.simps [simp del]

text \<open>The input of the buffer versions is a zero-terminated array given by its characters before the terminator.\<close>

definition win_decode_buf :: "('w list \<Rightarrow> int \<Rightarrow> bytes) \<Rightarrow> bytes \<Rightarrow> nat \<Rightarrow> 'w list \<Rightarrow> utf8_error + (bytes \<times> nat)" where
  "win_decode_buf w2m out out_len inp =
     (case win_wide_to_utf8 w2m inp of (str, ec) \<Rightarrow> if ec \<noteq> Utf8_ok then Inl ec else write_cstr out out_len str)"

definition win_encode_buf :: "(bytes \<Rightarrow> int \<Rightarrow> 'w::zero list) \<Rightarrow> 'w list \<Rightarrow> nat \<Rightarrow> bytes \<Rightarrow> utf8_error + ('w list \<times> nat)" where
  "win_encode_buf m2w out out_len inp =
     (case win_utf8_to_wide m2w inp of (wstr, ec) \<Rightarrow> if ec \<noteq> Utf8_ok then Inl ec else write_cstr out out_len wstr)"

subsection \<open>Before C++17\<close>

definition old_decode_stream :: "('w list \<Rightarrow> bytes option) \<Rightarrow> 'w list \<Rightarrow> bytes" where
  "old_decode_stream to_bytes inp = concat (map (\<lambda>wc. case to_bytes [wc] of Some utf8 \<Rightarrow> utf8 | None \<Rightarrow> [0x3F]) inp)"

definition old_decode :: "('w list \<Rightarrow> bytes option) \<Rightarrow> 'w list \<Rightarrow> bytes \<times> utf8_error" where
  "old_decode to_bytes str = (case to_bytes str of Some s \<Rightarrow> (s, Utf8_ok) | None \<Rightarrow> ([], Utf8_conversion_failed))"

definition old_decode_buf :: "('w list \<Rightarrow> bytes option) \<Rightarrow> bytes \<Rightarrow> nat \<Rightarrow> 'w list \<Rightarrow> utf8_error + (bytes \<times> nat)" where
  "old_decode_buf to_bytes out out_len inp =
     (case to_bytes inp of None \<Rightarrow> Inl Utf8_conversion_failed | Some str \<Rightarrow> write_cstr out out_len str)"

function old_encode_blocks :: "(bytes \<Rightarrow> 'w list option) \<Rightarrow> 'w \<Rightarrow> bytes \<Rightarrow> 'w list" where
  "old_encode_blocks from_bytes bad rest =
     (let buffer = take UTF8_BUF_SZ rest in
      if buffer = [] then []
      else (case from_bytes buffer of Some wstr \<Rightarrow> wstr | None \<Rightarrow> [bad]) @ old_encode_blocks from_bytes bad (drop UTF8_BUF_SZ rest))"
  by pat_completeness auto

termination
  by (relation "measure (\<lambda>(_, _, rest). length rest)") (auto simp: UTF8_BUF_SZ_def)

declare old_encode_blocks.simps [simp del]

definition old_encode :: "(bytes \<Rightarrow> 'w list option) \<Rightarrow> bytes \<Rightarrow> 'w list \<times> utf8_error" where
  "old_encode from_bytes str = (case from_bytes str of Some w \<Rightarrow> (w, Utf8_ok) | None \<Rightarrow> ([], Utf8_conversion_failed))"

definition old_encode_buf :: "(bytes \<Rightarrow> 'w::zero list option) \<Rightarrow> 'w list \<Rightarrow> nat \<Rightarrow> bytes \<Rightarrow> utf8_error + ('w list \<times> nat)" where
  "old_encode_buf from_bytes out out_len inp =
     (case from_bytes inp of None \<Rightarrow> Inl Utf8_conversion_failed | Some wstr \<Rightarrow> write_cstr out out_len wstr)"

subsection \<open>The functions that select an implementation\<close>

text \<open>An implementation of the conversions: strings, streams and buffers.\<close>

datatype utf8_target = Posix | Windows | Before_cxx17

record 'w converters =
  wcs2mbs_of :: "'w list \<Rightarrow> bytes option"
  mbs2wcs_of :: "bytes \<Rightarrow> 'w list option"
  w2m_of :: "'w list \<Rightarrow> int \<Rightarrow> bytes"
  m2w_of :: "bytes \<Rightarrow> int \<Rightarrow> 'w list"

definition decode_on :: "utf8_target \<Rightarrow> u32 converters \<Rightarrow> wchars \<Rightarrow> bytes \<times> utf8_error" where
  "decode_on target cs str =
     (if str = [] then ([], Utf8_invalid_input)
      else case target of
             Posix \<Rightarrow> wide_to_utf8 (wcs2mbs_of cs) str
           | Windows \<Rightarrow> win_wide_to_utf8 (w2m_of cs) str
           | Before_cxx17 \<Rightarrow> old_decode (wcs2mbs_of cs) str)"

definition encode_on :: "utf8_target \<Rightarrow> u32 converters \<Rightarrow> bytes \<Rightarrow> wchars \<times> utf8_error" where
  "encode_on target cs str =
     (if str = [] then ([], Utf8_invalid_input)
      else case target of
             Posix \<Rightarrow> utf8_to_wide (mbs2wcs_of cs) str
           | Windows \<Rightarrow> win_utf8_to_wide (m2w_of cs) str
           | Before_cxx17 \<Rightarrow> old_encode (mbs2wcs_of cs) str)"

definition decode_buf_on ::
  "utf8_target \<Rightarrow> u32 converters \<Rightarrow> bytes option \<Rightarrow> nat \<Rightarrow> wchars option \<Rightarrow> utf8_error + (bytes \<times> nat)" where
  "decode_buf_on target cs out out_len inp =
     (case (out, inp) of
        (Some buf, Some wstr) \<Rightarrow>
          if out_len < 1 then Inl Utf8_invalid_input
          else (case target of
                  Posix \<Rightarrow> utf8_decode_buf (wcs2mbs_of cs) out out_len inp
                | Windows \<Rightarrow> win_decode_buf (w2m_of cs) buf out_len wstr
                | Before_cxx17 \<Rightarrow> old_decode_buf (wcs2mbs_of cs) buf out_len wstr)
      | _ \<Rightarrow> Inl Utf8_invalid_input)"

definition encode_buf_on ::
  "utf8_target \<Rightarrow> u32 converters \<Rightarrow> wchars option \<Rightarrow> nat \<Rightarrow> bytes option \<Rightarrow> utf8_error + (wchars \<times> nat)" where
  "encode_buf_on target cs out out_len inp =
     (case (out, inp) of
        (Some buf, Some str) \<Rightarrow>
          if out_len < 1 then Inl Utf8_invalid_input
          else (case target of
                  Posix \<Rightarrow> utf8_encode_buf (mbs2wcs_of cs) out out_len inp
                | Windows \<Rightarrow> win_encode_buf (m2w_of cs) buf out_len str
                | Before_cxx17 \<Rightarrow> old_encode_buf (mbs2wcs_of cs) buf out_len str)
      | _ \<Rightarrow> Inl Utf8_invalid_input)"

definition decode_stream_on :: "utf8_target \<Rightarrow> u32 converters \<Rightarrow> bool \<Rightarrow> bool \<Rightarrow> wchars \<Rightarrow> bytes" where
  "decode_stream_on target cs out_ok in_ok inp =
     (if \<not> out_ok \<or> \<not> in_ok then []
      else case target of
             Posix \<Rightarrow> utf8_decode_chars (wcs2mbs_of cs) inp
           | Windows \<Rightarrow> win_decode_chars (w2m_of cs) inp
           | Before_cxx17 \<Rightarrow> old_decode_stream (wcs2mbs_of cs) inp)"

definition encode_stream_on :: "utf8_target \<Rightarrow> u32 converters \<Rightarrow> bool \<Rightarrow> bool \<Rightarrow> bytes \<Rightarrow> wchars" where
  "encode_stream_on target cs out_ok in_ok inp =
     (if \<not> out_ok \<or> \<not> in_ok then []
      else case target of
             Posix \<Rightarrow> utf8_encode_blocks (mbs2wcs_of cs) inp
           | Windows \<Rightarrow> win_encode_blocks (m2w_of cs) inp
           | Before_cxx17 \<Rightarrow> old_encode_blocks (mbs2wcs_of cs) 0x3F inp)"

text \<open>The versions without an error code.\<close>

definition decode_quiet_on :: "utf8_target \<Rightarrow> u32 converters \<Rightarrow> wchars \<Rightarrow> bytes" where
  "decode_quiet_on target cs str = fst (decode_on target cs str)"

definition encode_quiet_on :: "utf8_target \<Rightarrow> u32 converters \<Rightarrow> bytes \<Rightarrow> wchars" where
  "encode_quiet_on target cs str = fst (encode_on target cs str)"

definition decode_buf_quiet_on :: "utf8_target \<Rightarrow> u32 converters \<Rightarrow> bytes option \<Rightarrow> nat \<Rightarrow> wchars option \<Rightarrow> (bytes \<times> nat) option" where
  "decode_buf_quiet_on target cs out out_len inp =
     (case decode_buf_on target cs out out_len inp of Inl _ \<Rightarrow> None | Inr r \<Rightarrow> Some r)"

definition encode_buf_quiet_on :: "utf8_target \<Rightarrow> u32 converters \<Rightarrow> wchars option \<Rightarrow> nat \<Rightarrow> bytes option \<Rightarrow> (wchars \<times> nat) option" where
  "encode_buf_quiet_on target cs out out_len inp =
     (case encode_buf_on target cs out out_len inp of Inl _ \<Rightarrow> None | Inr r \<Rightarrow> Some r)"

text \<open>\<open>cvt\<close>: whether the stream got the new facet, and the error code; \<open>imbued\<close> is false when \<open>imbue\<close> throws.\<close>

definition utf8_cvt :: "utf8_target \<Rightarrow> bool \<Rightarrow> utf8_error \<Rightarrow> bool \<times> utf8_error" where
  "utf8_cvt target imbued ec =
     (case target of
        Before_cxx17 \<Rightarrow> if imbued then (True, ec) else (False, Utf8_conversion_failed)
      | _ \<Rightarrow> (False, Utf8_conversion_failed))"

section \<open>Properties\<close>

lemma int_cast_small: "n \<le> INT_MAX \<Longrightarrow> int_cast n = int n"
  by (simp add: int_cast_def INT_MAX_def signed_of_nat signed_take_bit_int_eq_self)

text \<open>On every target a text without zero characters that all converters know is converted to the same bytes and back, as a string
  and through buffers of sufficient size.\<close>

theorem utf8_targets_agree:
  assumes "w \<noteq> []" "0 \<notin> set w" "length w \<le> INT_MAX" "s \<noteq> []" "0 \<notin> set s" "length s \<le> INT_MAX"
    and "wcs2mbs_of cs w = Some s" "mbs2wcs_of cs s = Some w"
    and "w2m_of cs w (int (length w)) = s" "m2w_of cs s (int (length s)) = w"
  shows "decode_on target cs w = (s, Utf8_ok) \<and> encode_on target cs s = (w, Utf8_ok)
    \<and> decode_buf_on target cs (Some buf) n (Some w)
        = (if n < 1 then Inl Utf8_invalid_input else write_cstr buf n s)
    \<and> encode_buf_on target cs (Some wbuf) n (Some s)
        = (if n < 1 then Inl Utf8_invalid_input else write_cstr wbuf n w)"
proof -
  have wide: "wide_to_utf8 (wcs2mbs_of cs) w = (s, Utf8_ok)" "utf8_to_wide (mbs2wcs_of cs) s = (w, Utf8_ok)"
    using assms by (simp_all add: wide_to_utf8_def utf8_to_wide_def cstr_id)
  have win: "win_wide_to_utf8 (w2m_of cs) w = (s, Utf8_ok)" "win_utf8_to_wide (m2w_of cs) s = (w, Utf8_ok)"
    using assms by (simp_all add: win_wide_to_utf8_def win_utf8_to_wide_def int_cast_small)
  show ?thesis
    using assms wide win
    by (cases target)
      (simp_all add: decode_on_def encode_on_def decode_buf_on_def encode_buf_on_def old_decode_def old_encode_def utf8_decode_buf_def
        utf8_encode_buf_def win_decode_buf_def win_encode_buf_def old_decode_buf_def old_encode_buf_def)
qed

definition ascii_converters :: "u32 converters" where
  "ascii_converters =
     \<lparr>wcs2mbs_of = ascii_wcs2mbs, mbs2wcs_of = ascii_mbs2wcs, w2m_of = (\<lambda>w n. case ascii_wcs2mbs w of Some s \<Rightarrow> s | None \<Rightarrow> []),
      m2w_of = (\<lambda>s n. case ascii_mbs2wcs s of Some w \<Rightarrow> w | None \<Rightarrow> [])\<rparr>"

theorem utf8_targets_agree_witness:
  "decode_on Windows ascii_converters [0x68, 0x6A] = ([0x68, 0x6A], Utf8_ok)"
  using utf8_targets_agree [of "[0x68, 0x6A]" "[0x68, 0x6A]" ascii_converters Windows]
  by (simp add: INT_MAX_def ascii_converters_def ascii_wcs2mbs_def ascii_mbs2wcs_def)

text \<open>Elsewhere the targets differ: POSIX cuts a string at its first zero character, and an empty C string is an error on Windows only.\<close>

lemma utf8_targets_differ:
  "decode_on Posix ascii_converters [0x68, 0, 0x6A] = ([0x68], Utf8_ok)
    \<and> decode_on Windows ascii_converters [0x68, 0, 0x6A] = ([0x68, 0, 0x6A], Utf8_ok)
    \<and> decode_buf_on Posix ascii_converters (Some [7]) 1 (Some []) = Inr ([0], 1)
    \<and> decode_buf_on Windows ascii_converters (Some [7]) 1 (Some []) = Inl Utf8_conversion_failed"
  by (simp add: decode_on_def decode_buf_on_def ascii_converters_def ascii_wcs2mbs_def wide_to_utf8_def cstr_def win_wide_to_utf8_def
      utf8_decode_buf_def write_cstr_def win_decode_buf_def)

end
