(* ===== verification/StringWide.thy ===== *)
theory StringWide
  imports StringUtil Utf8
begin

text \<open>
  The rest of \<open>src/hj/util/string_util.hpp\<close>: conversions between wide and multibyte strings as compiled for POSIX, the text of an
  address, and the search into a match object of the caller.

  A string view is the memory from \<open>data()\<close> on, up to the end of the object, and its size; a \<open>std::string\<close> and a
  C string have a zero behind their characters. The conversions of the C library are the parameters of
  \<open>Utf8\<close>. They read up to the first zero and know nothing of the size of a view.
\<close>

section \<open>Definitions\<close>

subsection \<open>Wide strings\<close>

text \<open>What \<open>mbsrtowcs\<close> and \<open>wcsrtombs\<close> read from a pointer.\<close>

definition cstr_at :: "'c::zero list \<Rightarrow> 'c list result" where
  "cstr_at mem = (if 0 \<in> set mem then Inr (cstr mem) else Inl Out_of_bounds)"

definition utf8_to_wide_impl :: "(bytes \<Rightarrow> wchars option) \<Rightarrow> bytes \<times> nat \<Rightarrow> wchars option result" where
  "utf8_to_wide_impl mbs2wcs view =
     (case view of (mem, len) \<Rightarrow> if len = 0 then Inr (Some []) else map_sum id mbs2wcs (cstr_at mem))"

definition wide_to_utf8_impl :: "(wchars \<Rightarrow> bytes option) \<Rightarrow> wchars \<times> nat \<Rightarrow> bytes option result" where
  "wide_to_utf8_impl wcs2mbs view =
     (case view of (mem, len) \<Rightarrow> if len = 0 then Inr (Some []) else map_sum id wcs2mbs (cstr_at mem))"

definition to_wstring :: "(bytes \<Rightarrow> wchars option) \<Rightarrow> bytes \<times> nat \<Rightarrow> wchars option result" where
  "to_wstring mbs2wcs src = utf8_to_wide_impl mbs2wcs src"

definition to_wchar :: "(bytes \<Rightarrow> wchars option) \<Rightarrow> bytes \<times> nat \<Rightarrow> wchars option result" where
  "to_wchar mbs2wcs src = to_wstring mbs2wcs src"

definition from_wstring :: "(wchars \<Rightarrow> bytes option) \<Rightarrow> wchars \<times> nat \<Rightarrow> bytes option result" where
  "from_wstring wcs2mbs src = wide_to_utf8_impl wcs2mbs src"


definition or_empty :: "'c list option \<Rightarrow> 'c list" where
  "or_empty result = (case result of Some s \<Rightarrow> s | None \<Rightarrow> [])"

definition to_wstring_safe :: "(bytes \<Rightarrow> wchars option) \<Rightarrow> bytes \<times> nat \<Rightarrow> wchars result" where
  "to_wstring_safe mbs2wcs src = map_sum id or_empty (to_wstring mbs2wcs src)"

definition from_wstring_safe :: "(wchars \<Rightarrow> bytes option) \<Rightarrow> wchars \<times> nat \<Rightarrow> bytes result" where
  "from_wstring_safe wcs2mbs src = map_sum id or_empty (from_wstring wcs2mbs src)"

text \<open>The overloads for \<open>std::string\<close>, \<open>std::wstring\<close> and C strings.\<close>

definition view_of :: "'c::zero list \<Rightarrow> 'c list \<times> nat" where
  "view_of s = (s @ [0], length s)"

definition to_wchar_string :: "(bytes \<Rightarrow> wchars option) \<Rightarrow> bytes \<Rightarrow> wchars result" where
  "to_wchar_string mbs2wcs src = to_wstring_safe mbs2wcs (view_of src)"




subsection \<open>Addresses\<close>

text \<open>The digits that \<open>snprintf\<close> writes for \<open>PRIxPTR\<close> and \<open>PRIuPTR\<close>, and the cut at the size of the buffer.\<close>

fun digits_of :: "nat \<Rightarrow> nat \<Rightarrow> string" where
  "digits_of base n =
     (if base < 2 \<or> n < base then [''0123456789abcdef'' ! n] else digits_of base (n div base) @ [''0123456789abcdef'' ! (n mod base)])"

declare digits_of.simps [simp del]

definition from_ptr_addr :: "u64 \<Rightarrow> bool \<Rightarrow> string" where
  "from_ptr_addr addr is_hex =
     (if addr = 0 then (if is_hex then ''0x0'' else ''0'')
      else take 31 (if is_hex then ''0x'' @ digits_of 16 (unat addr) else digits_of 10 (unat addr)))"

subsection \<open>Searching\<close>

definition search_n where
  "search_n compile search_all cache src pat = regex_search_all compile search_all cache src pat"

text \<open>\<open>find_match r src\<close> is what \<open>std::regex_search\<close> leaves in the match object, \<open>no_match\<close> a fresh object.\<close>

definition str_search_match ::
  "(string \<Rightarrow> 'r option) \<Rightarrow> ('r \<Rightarrow> string \<Rightarrow> 'm) \<Rightarrow> 'm \<Rightarrow> 'r cache_entry list \<Rightarrow> string \<Rightarrow> string \<Rightarrow> 'm \<times> 'r cache_entry list" where
  "str_search_match compile find_match no_match cache src pat =
     (case get_regex compile cache pat of
        (Some r, cache') \<Rightarrow> (find_match r src, cache')
      | (None, cache') \<Rightarrow> (no_match, cache'))"

definition split_regex where
  "split_regex compile tokens cache str pat = regex_split compile tokens cache str pat"

section \<open>Properties\<close>




definition digit_value :: "char \<Rightarrow> nat" where
  "digit_value c = (if CHR ''a'' = c then 10 else if c = CHR ''b'' then 11 else if c = CHR ''c'' then 12 else if c = CHR ''d'' then 13
     else if c = CHR ''e'' then 14 else if c = CHR ''f'' then 15 else of_char c - 48)"

definition read_digits :: "nat \<Rightarrow> string \<Rightarrow> nat" where
  "read_digits base s = foldl (\<lambda>n c. n * base + digit_value c) 0 s"

lemma digit_value_nth: "n < 16 \<Longrightarrow> digit_value (''0123456789abcdef'' ! n) = n"
proof -
  have "\<forall>n\<in>{..<16}. digit_value (''0123456789abcdef'' ! n) = n" by code_simp
  then show "n < 16 \<Longrightarrow> ?thesis" by blast
qed

lemma read_digits_of: "2 \<le> base \<Longrightarrow> base \<le> 16 \<Longrightarrow> read_digits base (digits_of base n) = n"
proof (induction base n rule: digits_of.induct)
  case (1 base n)
  then have "n mod base < 16" using mod_less_divisor [of base n] by linarith
  with 1 show ?case by (subst digits_of.simps) (simp add: read_digits_def digit_value_nth div_mult_mod_eq)
qed

lemma length_digits_of: "2 \<le> base \<Longrightarrow> n < base ^ k \<Longrightarrow> 0 < k \<Longrightarrow> length (digits_of base n) \<le> k"
proof (induction k arbitrary: n)
  case (Suc k)
  then show ?case
    by (cases "k = 0"; subst digits_of.simps) (auto simp: less_mult_imp_div_less mult.commute)
qed simp

text \<open>The text of an address is never cut by the buffer of 32 bytes, and reading its digits back gives the address.\<close>

theorem from_ptr_addr_reads_back:
  "length (from_ptr_addr addr is_hex) \<le> 20 \<and> read_digits 10 (from_ptr_addr addr False) = unat addr
    \<and> take 2 (from_ptr_addr addr True) = ''0x'' \<and> read_digits 16 (drop 2 (from_ptr_addr addr True)) = unat addr"
proof -
  have "unat addr < 2 ^ 64" using unsigned_less [of addr] by simp
  then have "length (digits_of 16 (unat addr)) \<le> 16" "length (digits_of 10 (unat addr)) \<le> 20"
    by (auto intro!: length_digits_of)
  then show ?thesis
    using read_digits_of [of 16 "unat addr"] read_digits_of [of 10 "unat addr"]
    by (auto simp: from_ptr_addr_def read_digits_def digit_value_def)
qed

end
