(* ===== verification/TcpConn.thy ===== *)
theory TcpConn
  imports HjPrelude "HOL-Library.Sublist"
begin

text \<open>
  \<open>src/hj/net/tcp/tcp_conn.hpp\<close> and the parts of \<open>src/hj/net/tcp/tcp_socket.hpp\<close> it uses: a connection that encodes queued messages
  onto a socket and decodes received bytes into queued messages, with blocking calls and with handlers that an event
  loop runs.

  The socket of Boost.Asio is what it answers: \<open>send_answers\<close> are the results of its \<open>send\<close> (\<open>None\<close> when it
  throws), \<open>recv_answers\<close> those of \<open>read_some\<close> (\<open>None\<close> for an error); a \<open>read_some\<close> without an answer blocks. \<open>wire\<close> is what
  was given to the network. The lock-free queue is a parameter with its two operations. A message is a pointer, \<open>None\<close>
  being \<open>nullptr\<close>. The handlers for encoding and decoding are parameters, optional like the \<open>std::function\<close>
  objects; the other handlers are observed as \<open>events\<close> and do not call back into the connection. One thread runs the
  calls and the event loop.
\<close>

section \<open>Definitions\<close>

subsection \<open>The socket\<close>

text \<open>\<open>has_inner\<close>: whether \<open>_sock\<close> holds an Asio socket, \<open>is_open\<close>: whether that is open.\<close>

record tcp_socket =
  has_inner :: bool
  is_open :: bool
  conn_status :: bool

definition sock_is_connected :: "tcp_socket \<Rightarrow> bool" where
  "sock_is_connected k \<longleftrightarrow> has_inner k \<and> conn_status k"

definition set_conn_status :: "bool \<Rightarrow> tcp_socket \<Rightarrow> tcp_socket" where
  "set_conn_status b k = k\<lparr>conn_status := b\<rparr>"

definition disconnect_anyway :: "tcp_socket \<Rightarrow> tcp_socket" where
  "disconnect_anyway k =
     (let k = set_conn_status False k;
          k = (if has_inner k \<and> is_open k then k\<lparr>is_open := False\<rparr> else k)
      in if has_inner k then k\<lparr>has_inner := False\<rparr> else k)"

definition sock_disconnect :: "tcp_socket \<Rightarrow> tcp_socket" where
  "sock_disconnect k = (if \<not> sock_is_connected k then k else disconnect_anyway k)"

definition sock_close :: "tcp_socket \<Rightarrow> tcp_socket" where
  "sock_close k = (if \<not> sock_is_connected k then k else disconnect_anyway k)"

text \<open>One attempt to connect ends with the first of the two handlers that run: the one of the connection, with or without an
  error, or the one of the timer.\<close>

datatype connect_outcome = Established | Refused | Timed_out

definition connect_attempt :: "connect_outcome \<Rightarrow> tcp_socket \<Rightarrow> tcp_socket" where
  "connect_attempt outcome k =
     (let k = set_conn_status False k; k = k\<lparr>has_inner := True, is_open := True\<rparr> in
      case outcome of
        Established \<Rightarrow> set_conn_status True k
      | Refused \<Rightarrow> set_conn_status False k
      | Timed_out \<Rightarrow> set_conn_status False (k\<lparr>is_open := False\<rparr>))"

text \<open>\<open>outcomes\<close> are those of the \<open>try_times\<close> attempts.\<close>

primrec sock_connect :: "connect_outcome list \<Rightarrow> tcp_socket \<Rightarrow> bool \<times> tcp_socket" where
  "sock_connect [] k = (False, k)"
| "sock_connect (outcome # outcomes) k =
     (let k = connect_attempt outcome k in if outcome = Established then (True, k) else sock_connect outcomes k)"

subsection \<open>The connection\<close>

definition MTU :: nat where
  "MTU = 1500"

record ('q, 'm) channel_lib =
  ch_enqueue :: "'q \<Rightarrow> 'm option \<Rightarrow> 'q"
  ch_try_dequeue :: "'q \<Rightarrow> ('m option \<times> 'q) option"

datatype 'm tcp_event = Sent 'm | Received 'm bytes | Disconnected

text \<open>Handlers that were posted to the event loop, with no error and no bytes.\<close>

datatype tcp_task = Run_send | Run_recv

text \<open>\<open>sending\<close> are the buffers of asynchronous sends that have not completed, \<open>reading\<close> tells of an asynchronous read.\<close>

record ('q, 'm) tcp_conn =
  sock :: "tcp_socket option"
  flag :: u64
  w_closed :: bool
  r_closed :: bool
  is_recving :: bool
  r_buf :: bytes
  r_buf_max :: nat
  w_buf :: bytes
  r_ch :: 'q
  w_ch :: 'q
  posted :: "tcp_task list"
  sending :: "bytes list"
  reading :: bool
  send_answers :: "nat option list"
  recv_answers :: "bytes option list"
  wire :: bytes
  events :: "'m tcp_event list"

definition set_flag :: "u64 \<Rightarrow> ('q, 'm) tcp_conn \<Rightarrow> ('q, 'm) tcp_conn" where
  "set_flag f s = s\<lparr>flag := flag s OR f\<rparr>"

definition unset_flag :: "u64 \<Rightarrow> ('q, 'm) tcp_conn \<Rightarrow> ('q, 'm) tcp_conn" where
  "unset_flag f s = s\<lparr>flag := flag s AND NOT f\<rparr>"

definition is_connected :: "('q, 'm) tcp_conn \<Rightarrow> bool" where
  "is_connected s \<longleftrightarrow> (case sock s of None \<Rightarrow> False | Some k \<Rightarrow> sock_is_connected k)"

text \<open>The end of \<open>disconnect\<close>, and \<open>disconnect\<close> on a connection that is closed for reading and writing: then \<open>_send_all\<close> and
  \<open>_recv_all\<close> return at once (\<open>tcp_disconnect_closed\<close> below).\<close>

definition drop_socket :: "('q, 'm) tcp_conn \<Rightarrow> ('q, 'm) tcp_conn" where
  "drop_socket s = s\<lparr>sock := map_option sock_disconnect (sock s), events := events s @ [Disconnected]\<rparr>"

definition disconnect_closed :: "('q, 'm) tcp_conn \<Rightarrow> ('q, 'm) tcp_conn" where
  "disconnect_closed s = (if \<not> is_connected s then s else drop_socket s)"

definition set_w_closed :: "bool \<Rightarrow> ('q, 'm) tcp_conn \<Rightarrow> ('q, 'm) tcp_conn" where
  "set_w_closed b s = (let s = s\<lparr>w_closed := b\<rparr> in if w_closed s \<and> r_closed s then disconnect_closed s else s)"

definition set_r_closed :: "bool \<Rightarrow> ('q, 'm) tcp_conn \<Rightarrow> ('q, 'm) tcp_conn" where
  "set_r_closed b s = (let s = s\<lparr>r_closed := b\<rparr> in if w_closed s \<and> r_closed s then disconnect_closed s else s)"

text \<open>\<open>tcp_socket::send\<close>: the number of bytes that were taken, 0 for an exception.\<close>

definition sock_send :: "bytes \<Rightarrow> ('q, 'm) tcp_conn \<Rightarrow> nat \<times> ('q, 'm) tcp_conn" where
  "sock_send data s =
     (if \<not> is_connected s then (0, s)
      else case send_answers s of
             [] \<Rightarrow> (0, s)
           | None # rest \<Rightarrow> (0, s\<lparr>send_answers := rest\<rparr>)
           | Some n # rest \<Rightarrow>
               (min n (length data), s\<lparr>send_answers := rest, wire := wire s @ take (min n (length data)) data\<rparr>))"

text \<open>\<open>prepare\<close> invalidates the buffers that were obtained from a stream buffer before: an asynchronous operation that is
  still in flight would use freed memory.\<close>

partial_function (option) send_loop ::
  "('q, 'm) channel_lib \<Rightarrow> ('m \<Rightarrow> bytes) option \<Rightarrow> ('q, 'm) tcp_conn \<Rightarrow> (bool \<times> ('q, 'm) tcp_conn) result option" where
  "send_loop lib enc s =
     (if \<not> is_connected s \<or> w_closed s then Some (Inr (False, s))
      else case ch_try_dequeue lib (w_ch s) of
             None \<Rightarrow> Some (Inr (True, s))
           | Some (msg, q) \<Rightarrow>
               let s = s\<lparr>w_ch := q\<rparr> in
               case msg of
                 None \<Rightarrow> Some (Inr (True, s))
               | Some m \<Rightarrow>
                   (case enc of
                      None \<Rightarrow> Some (Inr (True, s))
                    | Some encode \<Rightarrow>
                        let sz = length (encode m) in
                        if sending s \<noteq> [] then Some (Inl Out_of_bounds)
                        else if sz > MTU then Some (Inl Out_of_bounds)
                        else if sz < 1 then Some (Inr (False, set_w_closed True s))
                        else
                          let s = s\<lparr>w_buf := w_buf s @ encode m\<rparr>; (nsend, s) = sock_send (w_buf s) s in
                          if nsend < sz then Some (Inr (False, set_w_closed True s))
                          else send_loop lib enc (s\<lparr>w_buf := drop nsend (w_buf s), events := events s @ [Sent m]\<rparr>)))"

definition send_all where
  "send_all lib enc s = (if w_closed s then Some (Inr (False, s)) else send_loop lib enc s)"

text \<open>\<open>_r_buf\<close> has a maximal size, and \<open>prepare\<close> throws when it is exceeded. \<open>tcp_socket::recv\<close> asserts that \<open>read_some\<close> reports no
  error.\<close>

partial_function (option) recv_loop ::
  "('q, 'm) channel_lib \<Rightarrow> ('m \<Rightarrow> bytes \<Rightarrow> nat) option \<Rightarrow> ('q, 'm) tcp_conn \<Rightarrow> (bool \<times> ('q, 'm) tcp_conn) result option" where
  "recv_loop lib dec s =
     (if \<not> is_connected s \<or> r_closed s then Some (Inr (False, s))
      else case ch_try_dequeue lib (r_ch s) of
             None \<Rightarrow> Some (Inr (True, s))
           | Some (msg, q) \<Rightarrow>
               let s = s\<lparr>r_ch := q\<rparr> in
               case msg of
                 None \<Rightarrow> Some (Inr (True, s))
               | Some m \<Rightarrow>
                   (case dec of
                      None \<Rightarrow> Some (Inr (True, s))
                    | Some decode \<Rightarrow>
                        let sz = decode m (r_buf s) in
                        if sz > 0
                        then recv_loop lib dec (s\<lparr>r_buf := drop sz (r_buf s), events := events s @ [Received m (take sz (r_buf s))]\<rparr>)
                        else
                          let s = s\<lparr>r_ch := ch_enqueue lib q (Some m)\<rparr> in
                          if reading s then Some (Inl Out_of_bounds)
                          else if length (r_buf s) + MTU > r_buf_max s then Some (Inl Throw_length_error)
                          else case recv_answers s of
                                 [] \<Rightarrow> None
                               | None # rest \<Rightarrow> Some (Inl Assert_failed)
                               | Some bs # rest \<Rightarrow>
                                   recv_loop lib dec (s\<lparr>recv_answers := rest, r_buf := r_buf s @ take MTU bs\<rparr>)))"

definition recv_all where
  "recv_all lib dec s = (if r_closed s then Some (Inr (False, s)) else recv_loop lib dec s)"

definition tcp_disconnect ::
  "('q, 'm) channel_lib \<Rightarrow> ('m \<Rightarrow> bytes) option \<Rightarrow> ('m \<Rightarrow> bytes \<Rightarrow> nat) option \<Rightarrow> ('q, 'm) tcp_conn
   \<Rightarrow> (bool \<times> ('q, 'm) tcp_conn) result option" where
  "tcp_disconnect lib enc dec s =
     (if \<not> is_connected s then Some (Inr (False, s))
      else case send_all lib enc s of
             None \<Rightarrow> None
           | Some (Inl err) \<Rightarrow> Some (Inl err)
           | Some (Inr (_, s)) \<Rightarrow>
               (case recv_all lib dec s of
                  None \<Rightarrow> None
                | Some (Inl err) \<Rightarrow> Some (Inl err)
                | Some (Inr (_, s)) \<Rightarrow> Some (Inr (True, drop_socket s))))"

definition tcp_send where
  "tcp_send lib enc msg s =
     (if \<not> is_connected s \<or> w_closed s then Some (Inr (False, s))
      else send_all lib enc (s\<lparr>w_ch := ch_enqueue lib (w_ch s) msg\<rparr>))"

definition tcp_recv where
  "tcp_recv lib dec msg s =
     (if \<not> is_connected s \<or> r_closed s then Some (Inr (False, s))
      else recv_all lib dec (s\<lparr>r_ch := ch_enqueue lib (r_ch s) msg\<rparr>))"

definition post_both :: "('q, 'm) tcp_conn \<Rightarrow> ('q, 'm) tcp_conn" where
  "post_both s = s\<lparr>posted := posted s @ [Run_send, Run_recv]\<rparr>"

text \<open>After \<open>close\<close> there is no socket object, and \<open>connect\<close> would use a null pointer.\<close>

definition tcp_connect :: "connect_outcome list \<Rightarrow> ('q, 'm) tcp_conn \<Rightarrow> (bool \<times> ('q, 'm) tcp_conn) result" where
  "tcp_connect outcomes s =
     (if is_connected s then Inr (False, s)
      else case sock s of
             None \<Rightarrow> Inl Out_of_bounds
           | Some k \<Rightarrow>
               (case sock_connect outcomes k of
                  (False, k) \<Rightarrow> Inr (False, s\<lparr>sock := Some k\<rparr>)
                | (True, k) \<Rightarrow> Inr (True, post_both (set_r_closed False (set_w_closed False (s\<lparr>sock := Some k\<rparr>))))))"

definition tcp_close :: "('q, 'm) tcp_conn \<Rightarrow> ('q, 'm) tcp_conn" where
  "tcp_close s =
     (let s = set_r_closed True (set_w_closed True s) in
      if sock s = None then s else s\<lparr>sock := None\<rparr>)"

subsection \<open>The event loop\<close>

text \<open>\<open>_async_send\<close>, called with an error flag and the number of bytes of the send that completed. \<open>prepare\<close> invalidates the
  buffers that were obtained from the stream buffer before, so that a send in flight would read freed memory.\<close>

definition async_send_handler ::
  "('q, 'm) channel_lib \<Rightarrow> ('m \<Rightarrow> bytes) option \<Rightarrow> bool \<Rightarrow> nat \<Rightarrow> ('q, 'm) tcp_conn \<Rightarrow> ('q, 'm) tcp_conn result" where
  "async_send_handler lib enc err sz s =
     (let s = (if err then set_w_closed True s else s) in
      if \<not> is_connected s \<or> w_closed s then Inr s
      else
        let s = s\<lparr>w_buf := drop sz (w_buf s)\<rparr> in
        case ch_try_dequeue lib (w_ch s) of
          None \<Rightarrow> Inr s
        | Some (msg, q) \<Rightarrow>
            let s = s\<lparr>w_ch := q\<rparr> in
            case (msg, enc) of
              (Some m, Some encode) \<Rightarrow>
                if sending s \<noteq> [] then Inl Out_of_bounds
                else if length (encode m) > MTU then Inl Out_of_bounds
                else if length (encode m) < 1 then Inr (set_w_closed True s)
                else Inr (s\<lparr>w_buf := w_buf s @ encode m, sending := sending s @ [encode m], events := events s @ [Sent m]\<rparr>)
            | _ \<Rightarrow> Inr s)"

text \<open>The loop of \<open>_async_recv\<close>; the flag tells whether it was left by \<open>break\<close>.\<close>

partial_function (option) decode_loop ::
  "('q, 'm) channel_lib \<Rightarrow> ('m \<Rightarrow> bytes \<Rightarrow> nat) option \<Rightarrow> ('q, 'm) tcp_conn \<Rightarrow> (bool \<times> ('q, 'm) tcp_conn) option" where
  "decode_loop lib dec s =
     (case ch_try_dequeue lib (r_ch s) of
        None \<Rightarrow> Some (False, s)
      | Some (msg, q) \<Rightarrow>
          let s = s\<lparr>r_ch := q\<rparr> in
          case msg of
            None \<Rightarrow> Some (False, s)
          | Some m \<Rightarrow>
              (case dec of
                 None \<Rightarrow> Some (False, s)
               | Some decode \<Rightarrow>
                   let sz = decode m (r_buf s) in
                   if sz > 0
                   then decode_loop lib dec (s\<lparr>r_buf := drop sz (r_buf s), events := events s @ [Received m (take sz (r_buf s))]\<rparr>)
                   else Some (True, s\<lparr>r_ch := ch_enqueue lib q (Some m)\<rparr>)))"

text \<open>\<open>_async_recv\<close>, called with an error flag and the bytes of the read that completed\<close>

definition async_recv_handler ::
  "('q, 'm) channel_lib \<Rightarrow> ('m \<Rightarrow> bytes \<Rightarrow> nat) option \<Rightarrow> bool \<Rightarrow> bytes \<Rightarrow> ('q, 'm) tcp_conn \<Rightarrow> ('q, 'm) tcp_conn result option" where
  "async_recv_handler lib dec err data s =
     (let s = (if err then set_r_closed True s else s) in
      if \<not> is_connected s \<or> r_closed s then Some (Inr s)
      else
        let s = (if length data > 0 then s\<lparr>r_buf := r_buf s @ data, is_recving := False\<rparr> else s) in
        case decode_loop lib dec s of
          None \<Rightarrow> None
        | Some (False, s) \<Rightarrow> Some (Inr s)
        | Some (True, s) \<Rightarrow>
            if is_recving s then Some (Inr s)
            else if length (r_buf s) + MTU > r_buf_max s then Some (Inl Throw_length_error)
            else Some (Inr (s\<lparr>is_recving := True, reading := True\<rparr>)))"

definition tcp_async_send :: "('q, 'm) channel_lib \<Rightarrow> 'm option \<Rightarrow> ('q, 'm) tcp_conn \<Rightarrow> bool \<times> ('q, 'm) tcp_conn" where
  "tcp_async_send lib msg s =
     (if \<not> is_connected s \<or> w_closed s then (False, s)
      else (True, s\<lparr>w_ch := ch_enqueue lib (w_ch s) msg, posted := posted s @ [Run_send]\<rparr>))"

definition tcp_async_recv :: "('q, 'm) channel_lib \<Rightarrow> 'm option \<Rightarrow> ('q, 'm) tcp_conn \<Rightarrow> bool \<times> ('q, 'm) tcp_conn" where
  "tcp_async_recv lib msg s =
     (if \<not> is_connected s \<or> r_closed s then (False, s)
      else (True, s\<lparr>r_ch := ch_enqueue lib (r_ch s) msg, posted := posted s @ [Run_recv]\<rparr>))"

text \<open>\<open>async_connect\<close> up to the end of its handler, when the connection was established and when it was not\<close>

definition tcp_connected :: "('q, 'm) tcp_conn \<Rightarrow> ('q, 'm) tcp_conn" where
  "tcp_connected s =
     post_both (set_r_closed False (set_w_closed False (s\<lparr>sock := map_option (connect_attempt Established) (sock s)\<rparr>)))"

definition tcp_connect_failed :: "('q, 'm) tcp_conn \<Rightarrow> ('q, 'm) tcp_conn" where
  "tcp_connect_failed s = s\<lparr>sock := map_option (connect_attempt Refused) (sock s)\<rparr>"

text \<open>What can happen next: a posted handler runs, an operation in flight completes or fails, or the program calls the
  connection.\<close>

inductive tcp_step ::
  "('q, 'm) channel_lib \<Rightarrow> ('m \<Rightarrow> bytes) option \<Rightarrow> ('m \<Rightarrow> bytes \<Rightarrow> nat) option \<Rightarrow> ('q, 'm) tcp_conn \<Rightarrow> ('q, 'm) tcp_conn \<Rightarrow> bool"
  for lib enc dec where
  run_send: "posted s = Run_send # rest \<Longrightarrow> async_send_handler lib enc False 0 (s\<lparr>posted := rest\<rparr>) = Inr s' \<Longrightarrow> tcp_step lib enc dec s s'"
| run_recv: "posted s = Run_recv # rest \<Longrightarrow> async_recv_handler lib dec False [] (s\<lparr>posted := rest\<rparr>) = Some (Inr s') \<Longrightarrow>
    tcp_step lib enc dec s s'"
| send_done: "sending s = bs # rest \<Longrightarrow> n \<le> length bs \<Longrightarrow>
    async_send_handler lib enc False n (s\<lparr>sending := rest, wire := wire s @ take n bs\<rparr>) = Inr s' \<Longrightarrow> tcp_step lib enc dec s s'"
| send_failed: "sending s = bs # rest \<Longrightarrow> async_send_handler lib enc True 0 (s\<lparr>sending := rest\<rparr>) = Inr s' \<Longrightarrow> tcp_step lib enc dec s s'"
| read_done: "reading s \<Longrightarrow> data \<noteq> [] \<Longrightarrow> length data \<le> MTU \<Longrightarrow>
    async_recv_handler lib dec False data (s\<lparr>reading := False\<rparr>) = Some (Inr s') \<Longrightarrow> tcp_step lib enc dec s s'"
| read_failed: "reading s \<Longrightarrow> async_recv_handler lib dec True [] (s\<lparr>reading := False\<rparr>) = Some (Inr s') \<Longrightarrow> tcp_step lib enc dec s s'"
| call_send: "tcp_send lib enc msg s = Some (Inr (ok, s')) \<Longrightarrow> tcp_step lib enc dec s s'"
| call_recv: "tcp_recv lib dec msg s = Some (Inr (ok, s')) \<Longrightarrow> tcp_step lib enc dec s s'"
| call_async_send: "tcp_async_send lib msg s = (ok, s') \<Longrightarrow> tcp_step lib enc dec s s'"
| call_async_recv: "tcp_async_recv lib msg s = (ok, s') \<Longrightarrow> tcp_step lib enc dec s s'"
| call_connect: "tcp_connect outcomes s = Inr (ok, s') \<Longrightarrow> tcp_step lib enc dec s s'"
| refused: "\<not> is_connected s \<Longrightarrow> sock s \<noteq> None \<Longrightarrow> s' = tcp_connect_failed s \<Longrightarrow> tcp_step lib enc dec s s'"
| established: "\<not> is_connected s \<Longrightarrow> sock s \<noteq> None \<Longrightarrow> s' = tcp_connected s \<Longrightarrow> tcp_step lib enc dec s s'"
| call_disconnect: "tcp_disconnect lib enc dec s = Some (Inr (ok, s')) \<Longrightarrow> tcp_step lib enc dec s s'"
| call_close: "s' = tcp_close s \<Longrightarrow> tcp_step lib enc dec s s'"
| call_set_w_closed: "s' = set_w_closed b s \<Longrightarrow> tcp_step lib enc dec s s'"
| call_set_r_closed: "s' = set_r_closed b s \<Longrightarrow> tcp_step lib enc dec s s'"

lemma set_w_closed_fields [simp]:
  "wire (set_w_closed b s) = wire s" "w_ch (set_w_closed b s) = w_ch s" "w_closed (set_w_closed b s) = b" "r_closed (set_w_closed b s) = r_closed s"
  "events (set_w_closed b s) = events s @ (if b \<and> r_closed s \<and> is_connected s then [Disconnected] else [])"
  by (simp_all add: set_w_closed_def disconnect_closed_def drop_socket_def is_connected_def Let_def)

section \<open>The queue\<close>

text \<open>Used by one thread, the queue hands its elements out in order and misses none.\<close>

locale fifo_channel =
  fixes lib :: "('q, 'm) channel_lib" and queue :: "'q \<Rightarrow> 'm option list"
  assumes enqueue: "queue (ch_enqueue lib q x) = queue q @ [x]"
    and dequeue_none: "queue q = [] \<Longrightarrow> ch_try_dequeue lib q = None"
    and dequeue_some: "queue q = x # xs \<Longrightarrow> \<exists>q'. ch_try_dequeue lib q = Some (x, q') \<and> queue q' = xs"
begin

text \<open>What \<open>send_loop\<close> does to a queue of messages: complete messages in order, and at most one message in part.\<close>

lemma send_loop_outcome:
  assumes "is_connected s" "\<not> w_closed s" "w_buf s = []" "sending s = []" "queue (w_ch s) = map Some ms"
    and "\<forall>m\<in>set ms. 0 < length (encode m) \<and> length (encode m) \<le> MTU"
  shows "\<exists>ok s' sent part. send_loop lib (Some encode) s = Some (Inr (ok, s'))
    \<and> wire s' = wire s @ concat (map encode sent) @ part \<and> w_closed s' = (\<not> ok)
    \<and> (if ok then sent = ms \<and> part = [] \<and> events s' = events s @ map Sent sent \<and> queue (w_ch s') = [] \<and> w_buf s' = []
       else \<exists>m rest. ms = sent @ m # rest \<and> strict_prefix part (encode m) \<and> queue (w_ch s') = map Some rest
         \<and> events s' = events s @ map Sent sent @ (if r_closed s then [Disconnected] else []))"
  using assms
proof (induction ms arbitrary: s)
  case Nil
  then show ?case by (subst send_loop.simps) (simp add: dequeue_none, blast)
next
  case (Cons m ms)
  then obtain q where q: "ch_try_dequeue lib (w_ch s) = Some (Some m, q)" "queue q = map Some ms"
    using dequeue_some by fastforce
  let ?t = "s\<lparr>w_ch := q, w_buf := encode m\<rparr>"
  obtain n t where sent: "sock_send (encode m) ?t = (n, t)" by fastforce
  have len: "0 < length (encode m)" "length (encode m) \<le> MTU" using Cons.prems by auto
  have t: "n \<le> length (encode m)" "wire t = wire s @ take n (encode m)" "w_ch t = q" "w_buf t = encode m" "sock t = sock s" "w_closed t = w_closed s"
    "r_closed t = r_closed s" "events t = events s" "sending t = sending s"
    using sent by (auto simp: sock_send_def is_connected_def split: if_splits list.splits option.splits)
  have unfold: "send_loop lib (Some encode) s =
      (if n < length (encode m) then Some (Inr (False, set_w_closed True t))
       else send_loop lib (Some encode) (t\<lparr>w_buf := drop n (w_buf t), events := events t @ [Sent m]\<rparr>))"
    using Cons.prems q sent len by (subst send_loop.simps) (simp add: Let_def)
  show ?case
  proof (cases "n < length (encode m)")
    case True
    then have "strict_prefix (take n (encode m)) (encode m)" by (auto simp: strict_prefix_def take_is_prefix)
    moreover have "is_connected t" using t(5) Cons.prems(1) by (simp add: is_connected_def)
    ultimately show ?thesis
      using True unfold t q(2) Cons.prems
      by (intro exI [of _ False] exI [of _ "set_w_closed True t"] exI [of _ "[]"] exI [of _ "take n (encode m)"]) simp
  next
    case False
    let ?u = "t\<lparr>w_buf := drop n (w_buf t), events := events t @ [Sent m]\<rparr>"
    have "is_connected ?u" "\<not> w_closed ?u" "w_buf ?u = []" "sending ?u = []" "queue (w_ch ?u) = map Some ms"
      using t q(2) Cons.prems False by (auto simp: is_connected_def)
    moreover have "\<forall>m\<in>set ms. 0 < length (encode m) \<and> length (encode m) \<le> MTU" using Cons.prems(6) by simp
    ultimately obtain ok s' sent part where
      ih: "send_loop lib (Some encode) ?u = Some (Inr (ok, s'))" "wire s' = wire ?u @ concat (map encode sent) @ part" "w_closed s' = (\<not> ok)"
        "if ok then sent = ms \<and> part = [] \<and> events s' = events ?u @ map Sent sent \<and> queue (w_ch s') = [] \<and> w_buf s' = []
         else \<exists>m rest. ms = sent @ m # rest \<and> strict_prefix part (encode m) \<and> queue (w_ch s') = map Some rest
           \<and> events s' = events ?u @ map Sent sent @ (if r_closed ?u then [Disconnected] else [])"
      using Cons.IH [of ?u] by blast
    show ?thesis
      using ih unfold t False
      by (intro exI [of _ ok] exI [of _ s'] exI [of _ "m # sent"] exI [of _ part]) auto
  qed
qed

text \<open>A blocking \<open>recv\<close> of one message reads until the decoder is content, whatever pieces the bytes come in.\<close>

lemma recv_loop_frame:
  assumes "is_connected s" "\<not> r_closed s" "\<not> reading s" "queue (r_ch s) = [Some m]"
    and "recv_answers s = map Some cs @ later" "\<forall>c\<in>set cs. length c \<le> MTU"
    and "\<forall>j<length cs. decode m (r_buf s @ concat (take j cs)) = 0" "0 < decode m (r_buf s @ concat cs)"
    and "length (r_buf s @ concat cs) + MTU \<le> r_buf_max s"
  shows "\<exists>s'. recv_loop lib (Some decode) s = Some (Inr (True, s')) \<and> queue (r_ch s') = [] \<and> recv_answers s' = later
    \<and> (let n = decode m (r_buf s @ concat cs) in
       r_buf s' = drop n (r_buf s @ concat cs) \<and> events s' = events s @ [Received m (take n (r_buf s @ concat cs))])"
  using assms
proof (induction cs arbitrary: s)
  case Nil
  then obtain q where q: "ch_try_dequeue lib (r_ch s) = Some (Some m, q)" "queue q = []" using dequeue_some by blast
  let ?n = "decode m (r_buf s)"
  let ?t = "s\<lparr>r_ch := q, r_buf := drop ?n (r_buf s), events := events s @ [Received m (take ?n (r_buf s))]\<rparr>"
  have "recv_loop lib (Some decode) s = recv_loop lib (Some decode) ?t"
    using Nil.prems q by (subst recv_loop.simps) (simp add: Let_def)
  also have "\<dots> = Some (Inr (True, ?t))"
    using Nil.prems q dequeue_none by (subst recv_loop.simps) (simp add: is_connected_def)
  finally show ?case using Nil.prems q by (simp add: Let_def)
next
  case (Cons c cs)
  then obtain q where q: "ch_try_dequeue lib (r_ch s) = Some (Some m, q)" "queue q = []" using dequeue_some by blast
  let ?t = "s\<lparr>r_ch := ch_enqueue lib q (Some m), recv_answers := map Some cs @ later, r_buf := r_buf s @ c\<rparr>"
  have "decode m (r_buf s) = 0" using Cons.prems(7) by force
  moreover have "length (r_buf s) + MTU \<le> r_buf_max s" using Cons.prems(9) by simp
  ultimately have step: "recv_loop lib (Some decode) s = recv_loop lib (Some decode) ?t"
    using Cons.prems(1-6) q by (subst recv_loop.simps) (simp add: Let_def)
  have later: "decode m (r_buf ?t @ concat (take j cs)) = 0" if "j < length cs" for j
    using Cons.prems(7) [rule_format, of "Suc j"] that by simp
  have "\<exists>s'. recv_loop lib (Some decode) ?t = Some (Inr (True, s')) \<and> queue (r_ch s') = [] \<and> recv_answers s' = later
      \<and> (let n = decode m (r_buf ?t @ concat cs) in
         r_buf s' = drop n (r_buf ?t @ concat cs) \<and> events s' = events ?t @ [Received m (take n (r_buf ?t @ concat cs))])"
    by (rule Cons.IH) (use Cons.prems q later enqueue in \<open>auto simp: is_connected_def\<close>)
  then show ?case unfolding step by simp
qed

end

text \<open>Lists are such a queue.\<close>

definition list_channel :: "('m option list, 'm) channel_lib" where
  "list_channel = \<lparr>ch_enqueue = (\<lambda>q x. q @ [x]), ch_try_dequeue = (\<lambda>q. case q of [] \<Rightarrow> None | x # q' \<Rightarrow> Some (x, q'))\<rparr>"

interpretation list_channel: fifo_channel list_channel id
  by unfold_locales (auto simp: list_channel_def)

section \<open>Reading after an error\<close>

definition reader_state :: "('q, 'm) tcp_conn \<Rightarrow> bool \<times> bool" where
  "reader_state s = (is_recving s, reading s)"

lemma reader_state_updates [simp]:
  "reader_state (s\<lparr>w_ch := q\<rparr>) = reader_state s" "reader_state (s\<lparr>r_ch := q\<rparr>) = reader_state s" "reader_state (s\<lparr>w_buf := b\<rparr>) = reader_state s"
  "reader_state (s\<lparr>r_buf := b\<rparr>) = reader_state s" "reader_state (s\<lparr>events := e\<rparr>) = reader_state s" "reader_state (s\<lparr>wire := b\<rparr>) = reader_state s"
  "reader_state (s\<lparr>sending := l\<rparr>) = reader_state s" "reader_state (s\<lparr>posted := p\<rparr>) = reader_state s" "reader_state (s\<lparr>sock := k\<rparr>) = reader_state s"
  "reader_state (s\<lparr>recv_answers := ra\<rparr>) = reader_state s" "reader_state (s\<lparr>send_answers := sa\<rparr>) = reader_state s"
  "reader_state (s\<lparr>w_closed := c\<rparr>) = reader_state s" "reader_state (s\<lparr>r_closed := c\<rparr>) = reader_state s"
  by (simp_all add: reader_state_def)

lemma reader_state_calls [simp]:
  "reader_state (drop_socket s) = reader_state s" "reader_state (disconnect_closed s) = reader_state s" "reader_state (set_w_closed b s) = reader_state s"
  "reader_state (set_r_closed b s) = reader_state s" "reader_state (post_both s) = reader_state s" "reader_state (tcp_close s) = reader_state s"
  "reader_state (tcp_connected s) = reader_state s" "reader_state (tcp_connect_failed s) = reader_state s"
  by (simp_all add: tcp_connect_failed_def drop_socket_def disconnect_closed_def set_w_closed_def set_r_closed_def post_both_def tcp_close_def tcp_connected_def Let_def)

lemma reader_state_sock_send: "sock_send data s = (n, s') \<Longrightarrow> reader_state s' = reader_state s"
  by (auto simp: sock_send_def split: if_splits list.splits option.splits)

lemma reader_state_send_loop:
  assumes "send_loop lib enc s = Some r"
  shows "\<forall>ok s'. r = Inr (ok, s') \<longrightarrow> reader_state s' = reader_state s"
  by (rule send_loop.raw_induct [OF _ assms])
    (auto simp: Let_def dest!: reader_state_sock_send split: if_splits option.splits prod.splits)

lemma reader_state_recv_loop:
  assumes "recv_loop lib dec s = Some r"
  shows "\<forall>ok s'. r = Inr (ok, s') \<longrightarrow> reader_state s' = reader_state s"
  by (rule recv_loop.raw_induct [OF _ assms]) (auto simp: Let_def split: if_splits option.splits prod.splits list.splits)

lemma reader_state_decode_loop:
  assumes "decode_loop lib dec s = Some r"
  shows "reader_state (snd r) = reader_state s"
  by (rule decode_loop.raw_induct [OF _ assms]) (auto simp: Let_def split: if_splits option.splits prod.splits)

lemma reader_state_send_all: "send_all lib enc s = Some (Inr (ok, s')) \<Longrightarrow> reader_state s' = reader_state s"
  using reader_state_send_loop [of lib enc s] by (auto simp: send_all_def split: if_splits)

lemma reader_state_recv_all: "recv_all lib dec s = Some (Inr (ok, s')) \<Longrightarrow> reader_state s' = reader_state s"
  using reader_state_recv_loop [of lib dec s] by (auto simp: recv_all_def split: if_splits)

lemma reader_state_disconnect: "tcp_disconnect lib enc dec s = Some (Inr (ok, s')) \<Longrightarrow> reader_state s' = reader_state s"
  by (auto simp: tcp_disconnect_def dest!: reader_state_send_all reader_state_recv_all split: if_splits option.splits sum.splits)

lemma reader_state_send_handler: "async_send_handler lib enc err n s = Inr s' \<Longrightarrow> reader_state s' = reader_state s"
  by (auto simp: async_send_handler_def Let_def split: if_splits option.splits prod.splits)

lemma reader_state_recv_handler:
  "async_recv_handler lib dec err [] s = Some (Inr s') \<Longrightarrow> is_recving s \<Longrightarrow> reader_state s' = reader_state s"
proof -
  assume handler: "async_recv_handler lib dec err [] s = Some (Inr s')" and busy: "is_recving s"
  let ?s = "if err then set_r_closed True s else s"
  have busy': "reader_state ?s = reader_state s" by simp
  have "is_recving (snd r)" if "decode_loop lib dec ?s = Some r" for r
    using reader_state_decode_loop [OF that] busy' busy by (simp add: reader_state_def)
  then show ?thesis
    using handler busy' reader_state_decode_loop [of lib dec ?s]
    by (auto simp: async_recv_handler_def Let_def split: if_splits option.splits prod.splits bool.splits)
qed

lemma reader_state_async:
  "tcp_async_send lib msg s = (ok, s') \<Longrightarrow> reader_state s' = reader_state s"
  "tcp_async_recv lib msg s = (ok, s') \<Longrightarrow> reader_state s' = reader_state s"
  by (auto simp: tcp_async_send_def tcp_async_recv_def split: if_splits)

lemma stuck_reader_step:
  assumes "tcp_step lib enc dec s s'" "reader_state s = (True, False)"
  shows "reader_state s' = (True, False)"
  using assms
proof cases
  case (run_recv rest)
  then show ?thesis using reader_state_recv_handler [OF run_recv(2)] assms(2) by (simp add: reader_state_def)
next
  case (send_done bs rest n)
  then show ?thesis using reader_state_send_handler [OF send_done(3)] assms(2) by simp
next
  case (call_send msg ok)
  then show ?thesis using assms(2) by (auto simp: tcp_send_def dest!: reader_state_send_all split: if_splits)
next
  case (call_recv msg ok)
  then show ?thesis using assms(2) by (auto simp: tcp_recv_def dest!: reader_state_recv_all split: if_splits)
next
  case (call_connect outcomes ok)
  then show ?thesis using assms(2) by (auto simp: tcp_connect_def split: if_splits option.splits prod.splits bool.splits)
next
  case (call_async_send msg ok)
  then show ?thesis using assms(2) reader_state_async by metis
next
  case (call_async_recv msg ok)
  then show ?thesis using assms(2) reader_state_async by metis
next
  case (call_disconnect ok)
  then show ?thesis using assms(2) reader_state_disconnect by metis
qed (use assms(2) in \<open>auto simp: reader_state_def [of s] dest!: reader_state_send_handler\<close>)

section \<open>Properties\<close>

lemma tcp_disconnect_closed:
  "w_closed s \<Longrightarrow> r_closed s \<Longrightarrow> tcp_disconnect lib enc dec s = Some (Inr (is_connected s, disconnect_closed s))"
  by (simp add: tcp_disconnect_def disconnect_closed_def send_all_def recv_all_def)


text \<open>A blocking \<open>recv\<close> of one message reads as many pieces from the socket as the decoder wants and hands over the bytes that it
  consumed; what follows stays in the buffer.\<close>

theorem tcp_recv_whole_message:
  assumes "fifo_channel lib queue" "is_connected s" "\<not> r_closed s" "\<not> reading s" "queue (r_ch s) = []"
    and "recv_answers s = map Some cs @ later" "\<forall>c\<in>set cs. length c \<le> MTU"
    and "\<forall>j<length cs. decode m (r_buf s @ concat (take j cs)) = 0" "0 < decode m (r_buf s @ concat cs)"
    and "length (r_buf s @ concat cs) + MTU \<le> r_buf_max s"
  shows "\<exists>s'. tcp_recv lib (Some decode) (Some m) s = Some (Inr (True, s')) \<and> queue (r_ch s') = [] \<and> recv_answers s' = later
    \<and> (let n = decode m (r_buf s @ concat cs) in
       r_buf s' = drop n (r_buf s @ concat cs) \<and> events s' = events s @ [Received m (take n (r_buf s @ concat cs))])"
  using fifo_channel.recv_loop_frame [OF assms(1), of "s\<lparr>r_ch := ch_enqueue lib (r_ch s) (Some m)\<rparr>" m cs later decode]
    fifo_channel.enqueue [OF assms(1)] assms(2-10)
  by (simp add: tcp_recv_def recv_all_def is_connected_def)

text \<open>C39. After an asynchronous read has failed the connection never starts another one: the flag for a read in flight is not reset,
  not even by a successful reconnection, so that no bytes arrive asynchronously any more.\<close>

theorem tcp_reader_stuck_after_error:
  assumes "is_recving s" "async_recv_handler lib dec True [] (s\<lparr>reading := False\<rparr>) = Some (Inr t)" "(tcp_step lib enc dec)\<^sup>*\<^sup>* t u"
  shows "is_recving u \<and> \<not> reading u"
proof -
  have "reader_state t = (True, False)"
    using reader_state_recv_handler [OF assms(2)] assms(1) by (simp add: reader_state_def)
  from assms(3) this have "reader_state u = (True, False)" by (induction rule: rtranclp_induct) (auto intro: stuck_reader_step)
  then show ?thesis by (simp add: reader_state_def)
qed

definition fresh_conn :: "(nat option list, nat) tcp_conn" where
  "fresh_conn =
     \<lparr>sock = Some \<lparr>has_inner = True, is_open = True, conn_status = True\<rparr>, flag = 0, w_closed = False, r_closed = False, is_recving = False,
      r_buf = [], r_buf_max = 65535, w_buf = [], r_ch = [], w_ch = [], posted = [], sending = [], reading = False,
      send_answers = [], recv_answers = [], wire = [], events = []\<rparr>"

theorem tcp_reader_stuck_after_error_witness:
  "\<exists>t u. async_recv_handler list_channel None True [] (fresh_conn\<lparr>is_recving := True\<rparr>) = Some (Inr t)
    \<and> tcp_disconnect list_channel None None t = Some (Inr (True, u))
    \<and> is_recving (tcp_connected u) \<and> \<not> reading (tcp_connected u) \<and> is_connected (tcp_connected u)"
proof -
  let ?s = "fresh_conn\<lparr>is_recving := True\<rparr>"
  let ?t = "set_r_closed True ?s"
  have handler: "async_recv_handler list_channel None True [] (?s\<lparr>reading := False\<rparr>) = Some (Inr ?t)"
    by (simp add: async_recv_handler_def set_r_closed_def fresh_conn_def is_connected_def Let_def)
  have conn: "is_connected ?t" by (simp add: set_r_closed_def fresh_conn_def is_connected_def sock_is_connected_def Let_def)
  have "send_all list_channel None ?t = Some (Inr (True, ?t))"
    using conn by (simp add: send_all_def set_r_closed_def fresh_conn_def Let_def) (subst send_loop.simps, simp add: list_channel_def)
  then have disc: "tcp_disconnect list_channel None None ?t = Some (Inr (True, drop_socket ?t))"
    using conn by (simp add: tcp_disconnect_def recv_all_def set_r_closed_def fresh_conn_def Let_def)
  have "\<not> is_connected (drop_socket ?t)"
    by (simp add: set_r_closed_def fresh_conn_def is_connected_def sock_is_connected_def drop_socket_def sock_disconnect_def disconnect_anyway_def
        set_conn_status_def Let_def)
  moreover have socket: "sock (drop_socket ?t) \<noteq> None" by (simp add: set_r_closed_def fresh_conn_def drop_socket_def Let_def)
  ultimately have "(tcp_step list_channel None None)\<^sup>*\<^sup>* ?t (tcp_connected (drop_socket ?t))"
    using call_disconnect [OF disc] established [OF _ _ refl] socket by (meson converse_rtranclp_into_rtranclp r_into_rtranclp)
  from tcp_reader_stuck_after_error [OF _ handler this] have "is_recving (tcp_connected (drop_socket ?t)) \<and> \<not> reading (tcp_connected (drop_socket ?t))"
    by simp
  moreover have "is_connected (tcp_connected (drop_socket ?t))"
    by (simp add: tcp_connected_def post_both_def set_r_closed_def set_w_closed_def fresh_conn_def is_connected_def sock_is_connected_def drop_socket_def
        sock_disconnect_def disconnect_anyway_def set_conn_status_def connect_attempt_def Let_def)
  moreover have "?s\<lparr>reading := False\<rparr> = ?s" by (simp add: fresh_conn_def)
  ultimately show ?thesis using handler disc by metis
qed


theorem tcp_recv_whole_message_witness:
  "\<exists>s'. tcp_recv list_channel (Some (\<lambda>m d. if length d \<ge> 3 then 3 else 0)) (Some 5) (fresh_conn\<lparr>recv_answers := [Some [1, 2], Some [3, 4]]\<rparr>)
      = Some (Inr (True, s')) \<and> r_buf s' = [4] \<and> events s' = [Received 5 [1, 2, 3]]"
proof -
  have "(\<lambda>m d. if length d \<ge> 3 then 3 else 0) (5 :: nat) ([] @ concat (take j [[1, 2], [3, 4 :: u8]])) = (0 :: nat)" if "j < 2" for j
    using that by (cases "j = 0") (auto simp: less_2_cases_iff)
  then show ?thesis
    using tcp_recv_whole_message [OF list_channel.fifo_channel_axioms, of "fresh_conn\<lparr>recv_answers := [Some [1, 2], Some [3, 4]]\<rparr>" "[[1, 2], [3, 4]]" "[]"
        "\<lambda>m d. if length d \<ge> 3 then 3 else 0" 5]
    by (auto simp: fresh_conn_def is_connected_def sock_is_connected_def MTU_def Let_def)
qed

text \<open>A second asynchronous send while the first is in flight asks the stream buffer for room, which invalidates the memory that the first
  one still sends from.\<close>

theorem tcp_async_sends_overlap:
  assumes "fifo_channel lib queue" "is_connected s" "\<not> w_closed s" "queue (w_ch s) = []" "posted s = []" "sending s = []"
    and "0 < length (encode m)" "length (encode m) \<le> MTU" "tcp_async_send lib (Some m) s = (True, s1)" "tcp_async_send lib (Some m') s1 = (True, s2)"
  shows "\<exists>s3. tcp_step lib (Some encode) dec s2 s3 \<and> posted s3 = [Run_send]
    \<and> async_send_handler lib (Some encode) False 0 (s3\<lparr>posted := []\<rparr>) = Inl Out_of_bounds"
proof -
  have s2: "s2 = s\<lparr>w_ch := ch_enqueue lib (ch_enqueue lib (w_ch s) (Some m)) (Some m'), posted := [Run_send, Run_send]\<rparr>"
    using assms(9,10,5) by (auto simp: tcp_async_send_def split: if_splits)
  have "queue (w_ch s2) = [Some m, Some m']" using s2 assms(4) fifo_channel.enqueue [OF assms(1)] by simp
  then obtain q where q: "ch_try_dequeue lib (w_ch s2) = Some (Some m, q)" "queue q = [Some m']"
    using fifo_channel.dequeue_some [OF assms(1)] by blast
  then obtain q' where q': "ch_try_dequeue lib q = Some (Some m', q')"
    using fifo_channel.dequeue_some [OF assms(1)] by blast
  let ?s3 = "s2\<lparr>posted := [Run_send], w_ch := q, w_buf := w_buf s2 @ encode m, sending := [encode m], events := events s2 @ [Sent m]\<rparr>"
  have conn: "is_connected s2" "\<not> w_closed s2" "sending s2 = []" using s2 assms(2,3,6) by (simp_all add: is_connected_def)
  then have "async_send_handler lib (Some encode) False 0 (s2\<lparr>posted := [Run_send]\<rparr>) = Inr ?s3"
    using q(1) assms(7,8) by (simp add: async_send_handler_def Let_def is_connected_def)
  then have "tcp_step lib (Some encode) dec s2 ?s3" using s2 by (intro run_send [of s2 "[Run_send]"]) simp_all
  moreover have "async_send_handler lib (Some encode) False 0 (?s3\<lparr>posted := []\<rparr>) = Inl Out_of_bounds"
    using conn q' by (simp add: async_send_handler_def Let_def is_connected_def)
  ultimately show ?thesis by (intro exI [of _ ?s3]) simp
qed

theorem tcp_async_sends_overlap_witness:
  "\<exists>s3. tcp_step list_channel (Some (\<lambda>n. [0])) None (snd (tcp_async_send list_channel (Some 2) (snd (tcp_async_send list_channel (Some 1) fresh_conn)))) s3
    \<and> posted s3 = [Run_send] \<and> async_send_handler list_channel (Some (\<lambda>n. [0])) False 0 (s3\<lparr>posted := []\<rparr>) = Inl Out_of_bounds"
proof -
  have conn: "is_connected fresh_conn" "\<not> w_closed fresh_conn" "w_ch fresh_conn = []" "posted fresh_conn = []" "sending fresh_conn = []"
    by (simp_all add: fresh_conn_def is_connected_def sock_is_connected_def)
  have async: "tcp_async_send list_channel m s = (True, snd (tcp_async_send list_channel m s))
      \<and> is_connected (snd (tcp_async_send list_channel m s)) \<and> \<not> w_closed (snd (tcp_async_send list_channel m s))"
    if "is_connected s" "\<not> w_closed s" for m and s :: "(nat option list, nat) tcp_conn"
    using that by (simp add: tcp_async_send_def is_connected_def)
  show ?thesis
    by (rule tcp_async_sends_overlap [OF list_channel.fifo_channel_axioms, where s = fresh_conn and m = 1 and m' = 2])
      (use conn async in \<open>auto simp: MTU_def\<close>)
qed

text \<open>Two messages that wait for data are filled in the wrong order: the first is put back behind the second when it cannot be decoded
  yet.\<close>

lemma tcp_recv_rotates:
  "\<exists>s'. tcp_recv list_channel (Some (\<lambda>m d. if length d \<ge> 1 then 1 else 0)) (Some 2) (fresh_conn\<lparr>r_ch := [Some 1], recv_answers := [Some [10, 20]]\<rparr>)
      = Some (Inr (True, s')) \<and> events s' = [Received 2 [10], Received 1 [20]]"
  by (simp add: tcp_recv_def recv_all_def fresh_conn_def is_connected_def sock_is_connected_def)
    (subst recv_loop.simps, simp add: list_channel_def is_connected_def sock_is_connected_def MTU_def,
     (subst recv_loop.simps, simp add: list_channel_def is_connected_def sock_is_connected_def MTU_def)+)

text \<open>When the peer closes the connection a blocking \<open>recv\<close> fails an assertion.\<close>

lemma tcp_recv_peer_closed:
  assumes "fifo_channel lib queue" "is_connected s" "\<not> r_closed s" "\<not> reading s" "queue (r_ch s) = []" "recv_answers s = None # later"
    and "decode m (r_buf s) = 0" "length (r_buf s) + MTU \<le> r_buf_max s"
  shows "tcp_recv lib (Some decode) (Some m) s = Some (Inl Assert_failed)"
proof -
  obtain q where "ch_try_dequeue lib (ch_enqueue lib (r_ch s) (Some m)) = Some (Some m, q)"
    using fifo_channel.enqueue [OF assms(1), of "r_ch s" "Some m"] fifo_channel.dequeue_some [OF assms(1)] assms(5) by fastforce
  then show ?thesis
    using assms(2-8) by (simp add: tcp_recv_def recv_all_def) (subst recv_loop.simps, simp add: is_connected_def Let_def)
qed

end
