(* ===== verification/ObjectPool.thy ===== *)
theory ObjectPool
  imports TcpConn
begin

text \<open>
  \<open>src/hj/sync/object_pool.hpp\<close> and \<open>src/hj/sync/channel.hpp\<close>: a pool of objects that are handed out and given back, and a channel, both over the
  lock-free queue that \<open>TcpConn\<close> has as a parameter (\<open>channel_lib\<close>, with its laws in the locale \<open>fifo_channel\<close>).

  A pointer is a number. \<open>alloc\<close> stands for \<open>malloc\<close> of Boost's object pool: given the pointers that are allocated, the next one, or \<open>None\<close>
  when there is no memory.
\<close>

section \<open>Definitions\<close>

record 'q object_pool =
  allocated :: "nat list"
  container :: 'q


text \<open>\<open>assert(obj != nullptr)\<close>\<close>

definition pool_release :: "('q, nat) channel_lib \<Rightarrow> nat option \<Rightarrow> 'q object_pool \<Rightarrow> 'q object_pool result" where
  "pool_release lib obj s =
     (if obj = None then Inl Assert_failed else Inr (s\<lparr>container := ch_enqueue lib (container s) obj\<rparr>))"

definition pool_allocate :: "(nat list \<Rightarrow> nat option) \<Rightarrow> 'q object_pool \<Rightarrow> (nat \<times> 'q object_pool) result" where
  "pool_allocate alloc s =
     (case alloc (allocated s) of None \<Rightarrow> Inl Throw_bad_alloc | Some p \<Rightarrow> Inr (p, s\<lparr>allocated := p # allocated s\<rparr>))"

definition pool_create :: "('q, nat) channel_lib \<Rightarrow> (nat list \<Rightarrow> nat option) \<Rightarrow> 'q object_pool \<Rightarrow> (nat \<times> 'q object_pool) result" where
  "pool_create lib alloc s =
     (case alloc (allocated s) of
        None \<Rightarrow> Inl Throw_bad_alloc
      | Some p \<Rightarrow> map_sum id (Pair p) (pool_release lib (Some p) (s\<lparr>allocated := p # allocated s\<rparr>)))"

definition pool_acquire :: "('q, nat) channel_lib \<Rightarrow> 'q object_pool \<Rightarrow> nat option \<times> 'q object_pool" where
  "pool_acquire lib s =
     (case ch_try_dequeue lib (container s) of None \<Rightarrow> (None, s) | Some (p, q) \<Rightarrow> (p, s\<lparr>container := q\<rparr>))"

text \<open>\<open>try_dequeue_bulk\<close> takes up to \<open>n\<close> elements.\<close>

primrec pool_acquire_bulk :: "('q, nat) channel_lib \<Rightarrow> nat \<Rightarrow> 'q object_pool \<Rightarrow> nat option list \<times> 'q object_pool" where
  "pool_acquire_bulk lib 0 s = ([], s)"
| "pool_acquire_bulk lib (Suc n) s =
     (case ch_try_dequeue lib (container s) of
        None \<Rightarrow> ([], s)
      | Some (p, q) \<Rightarrow> (case pool_acquire_bulk lib n (s\<lparr>container := q\<rparr>) of (ps, s) \<Rightarrow> (p # ps, s)))"

definition pool_release_bulk :: "('q, nat) channel_lib \<Rightarrow> nat option list \<Rightarrow> 'q object_pool \<Rightarrow> 'q object_pool" where
  "pool_release_bulk lib objs s = s\<lparr>container := foldl (ch_enqueue lib) (container s) objs\<rparr>"

text \<open>The loop ends when the queue is empty.\<close>

partial_function (option) pool_clear :: "('q, nat) channel_lib \<Rightarrow> 'q object_pool \<Rightarrow> 'q object_pool option" where
  "pool_clear lib s =
     (case ch_try_dequeue lib (container s) of None \<Rightarrow> Some s | Some (p, q) \<Rightarrow> pool_clear lib (s\<lparr>container := q\<rparr>))"

subsection \<open>The channel\<close>

text \<open>\<open>operator>>\<close> leaves its argument as it was when the channel is empty.\<close>

definition channel_get :: "('q, 'm) channel_lib \<Rightarrow> 'm option \<Rightarrow> 'q \<Rightarrow> 'm option \<times> 'q" where
  "channel_get lib t q = (case ch_try_dequeue lib q of None \<Rightarrow> (t, q) | Some (x, q) \<Rightarrow> (x, q))"

definition channel_put :: "('q, 'm) channel_lib \<Rightarrow> 'm option \<Rightarrow> 'q \<Rightarrow> 'q" where
  "channel_put lib t q = ch_enqueue lib q t"

definition channel_try_dequeue :: "('q, 'm) channel_lib \<Rightarrow> 'm option \<Rightarrow> 'q \<Rightarrow> bool \<times> 'm option \<times> 'q" where
  "channel_try_dequeue lib t q = (case ch_try_dequeue lib q of None \<Rightarrow> (False, t, q) | Some (x, q) \<Rightarrow> (True, x, q))"

section \<open>Who holds an object\<close>

text \<open>The calls of clients that give back only what they hold. \<open>held\<close> are the objects that were allocated or acquired and not given
  back; the pointer that \<open>create\<close> returns does not count, because the object is in the pool at once.\<close>

inductive pool_step :: "('q, nat) channel_lib \<Rightarrow> (nat list \<Rightarrow> nat option) \<Rightarrow> 'q object_pool \<times> nat list \<Rightarrow> 'q object_pool \<times> nat list \<Rightarrow> bool"
  for lib alloc where
  create: "pool_create lib alloc s = Inr (p, s') \<Longrightarrow> pool_step lib alloc (s, held) (s', held)"
| allocate: "pool_allocate alloc s = Inr (p, s') \<Longrightarrow> pool_step lib alloc (s, held) (s', p # held)"
| acquire: "pool_acquire lib s = (Some p, s') \<Longrightarrow> pool_step lib alloc (s, held) (s', p # held)"
| acquire_bulk: "pool_acquire_bulk lib n s = (map Some ps, s') \<Longrightarrow> pool_step lib alloc (s, held) (s', ps @ held)"
| release: "p \<in> set held \<Longrightarrow> pool_release lib (Some p) s = Inr s' \<Longrightarrow> pool_step lib alloc (s, held) (s', remove1 p held)"
| clear: "pool_clear lib s = Some s' \<Longrightarrow> pool_step lib alloc (s, held) (s', held)"

inductive_cases pool_stepE: "pool_step lib alloc (s, held) (s', held')"


context fifo_channel begin

lemma try_dequeue_cases:
  assumes "ch_try_dequeue lib q = Some (x, q')"
  shows "queue q = x # queue q'"
  using assms dequeue_none [of q] dequeue_some [of q] by (cases "queue q") fastforce+

end




section \<open>Properties\<close>





text \<open>The pointer that \<open>create\<close> returns is in the pool already: the next \<open>acquire\<close> on an empty pool hands out the same object, so the
  caller of \<open>create\<close> must not use it.\<close>

lemma object_pool_create_shares:
  assumes "fifo_channel lib queue" "queue (container s) = []" "pool_create lib alloc s = Inr (p, s1)"
  shows "fst (pool_acquire lib s1) = Some p"
proof -
  have "queue (container s1) = [Some p]"
    using assms fifo_channel.enqueue [OF assms(1)] by (auto simp: pool_create_def pool_release_def split: option.splits)
  then show ?thesis using fifo_channel.dequeue_some [OF assms(1)] by (fastforce simp: pool_acquire_def)
qed

end
