(* ===== verification/Spec2Isabelle.thy ===== *)
theory Spec2Isabelle
  imports HjPrelude Bytes Crc BloomFilter Endian Bits Uuid Hex Utf8 Base64 StringUtil Matrix Counter ChainBuffer SkiplistProps
    AstarProps ConnPool DesProps AesProps GzipProps LicenseProps ThreadPool StripedMap Digest RsaProps Base64Stream
    Utf8Platforms StringWide TcpConn ObjectPool
begin

text \<open>
  A verification development for \<open>high-jump\<close> (\<open>src/hj\<close>), a header-only C++ library of algorithms,
  encodings, containers, synchronisation primitives and wrappers around other libraries.

  \<^bold>\<open>The parts and their theories.\<close> The headers are largely independent of each other; every theory
  models the headers named here, in the order in which they define things, and builds on
  \<open>HjPrelude\<close>, which has the machine types, the faults (\<open>assert\<close>, exceptions, undefined behaviour as
  values of a sum type) and the shared facts on lists and words.

  \<^item> \<open>Bytes\<close> (\<open>encoding/bytes.hpp\<close>), \<open>Endian\<close> (\<open>encoding/endian.hpp\<close>), \<open>Bits\<close> (\<open>encoding/bits.hpp\<close>,
    \<open>algo/fill.hpp\<close>): integers as bytes and bits. Locales \<open>int_codec\<close> and \<open>byte_swap\<close> carry the round
    trips, interpreted for each width; \<open>bits_put_64_bug\<close> and \<open>to_big_endian64_swaps_halves\<close> pin down two
    defects.
  \<^item> \<open>Hex\<close> (\<open>encoding/hex.hpp\<close>), \<open>Base64\<close> and \<open>Base64Stream\<close> (\<open>crypto/base64.hpp\<close>), \<open>Utf8\<close> and \<open>Utf8Platforms\<close>
    (\<open>encoding/utf8.hpp\<close>), \<open>StringUtil\<close> and \<open>StringWide\<close> (\<open>util/string_util.hpp\<close>): texts. Round trips of the codecs on buffers, streams and files,
    a characterisation of what each validator accepts, and the safety of the bounded copy. Calls into
    OpenSSL's BIO and the C library's multibyte functions are parameters with named laws.
  \<^item> \<open>Crc\<close> (\<open>algo/crc16.h\<close>, \<open>algo/crc32.h\<close>): the literal tables; the table-driven loops equal bit-serial
    polynomial division, checksums may be computed in chunks, a change of one byte is always noticed.
  \<^item> \<open>BloomFilter\<close> (\<open>algo/bloom_filter.hpp\<close>): the packed bit set behind the interface \<open>bit_array\<close> and the
    filter on top: no false negatives, sizes within their limits, serialisation.
  \<^item> \<open>Uuid\<close> (\<open>algo/uuid.hpp\<close>): the snowflake generator with its lock sections interleaved in the relation
    \<open>uuid_step\<close>, uniqueness of the ids, termination of the waiting loops, the text format. The wall clock
    is a list of readings.
  \<^item> \<open>Skiplist\<close> (\<open>algo/skiplist.hpp\<close>): the pointer structure in an explicit heap with spans as 64-bit
    words. \<open>SkiplistRep\<close> says what a heap stands for and what the searches find, \<open>SkiplistUpdate\<close> that
    linking and unlinking keep it, \<open>SkiplistOps\<close> and \<open>SkiplistQuery\<close> treat the operations, and
    \<open>SkiplistProps\<close> proves that runs of operations refine a sorted list (locale \<open>bounded_simulation\<close>).
  \<^item> \<open>Matrix\<close> (\<open>math/matrix.hpp\<close> and its two iterators): a table over an array of row pointers, and the
    overflow of a matrix with more rows than columns.
  \<^item> \<open>Counter\<close> (\<open>sync/counter.hpp\<close>): the bounded atomic counter; all interleavings of its compare-and-swap
    loops are linearizable.
  \<^item> \<open>ChainBuffer\<close> (\<open>io/chain_buffer.hpp\<close>, \<open>io/dbuffer.hpp\<close>): a byte queue in blocks refines a list of
    bytes (locale \<open>byte_fifo\<close>); the double buffer.
  \<^item> \<open>Astar\<close> (\<open>algo/astar.hpp\<close>): grid, priority queue, search with its early returns, smoothing.
    \<open>AstarSearch\<close> has the invariants of the search (locale \<open>weighted_graph\<close>), \<open>AstarProps\<close> the contract:
    the search ends, paths are walkable, and with an admissible heuristic and weights they are shortest.
  \<^item> \<open>ConnPool\<close> (\<open>db/db_conn_pool.hpp\<close>): the connection pool as steps of interleaved threads; capacity is
    never exceeded, no connection is handed out twice, and a waiting thread implies a used up capacity.
  \<^item> \<open>ThreadPool\<close> (\<open>sync/thread_pool.hpp\<close>): workers and callers as steps of interleaved threads with
    notifications and spurious wake-ups; order and completeness of the tasks, no lost wake-up, and the tasks
    that are stranded after \<open>clear\<close>. \<open>StripedMap\<close> (\<open>sync/striped_map.hpp\<close>): refinement of a finite map
    (locale \<open>key_value_store\<close>), iteration, \<open>size\<close> under concurrent insertion.
  \<^item> \<open>TcpConn\<close> (\<open>net/tcp/tcp_conn.hpp\<close>, \<open>net/tcp/tcp_socket.hpp\<close>): blocking calls and the handlers of the event loop as steps over
    what the socket answers; messages are sent in order and whole, and two defects of the asynchronous paths. The queue is
    a parameter with its laws in the locale \<open>fifo_channel\<close>. \<open>ObjectPool\<close> (\<open>sync/object_pool.hpp\<close>, \<open>sync/channel.hpp\<close>): on the same queue,
    no object of the pool is held twice.
  \<^item> \<open>Des\<close> (\<open>crypto/des.hpp\<close>): modes, paddings, multiple keys, buffers, strings, streams and files on top of
    OpenSSL's block function, which is a parameter. \<open>DesModes\<close> shows that every mode is an invertible
    chaining (locales \<open>chaining\<close>, \<open>block_cipher\<close>, \<open>ecb_cipher\<close>), \<open>DesProps\<close> the round trips, that
    streams and buffers agree, which errors occur, and what decryption does to texts it should refuse.
    Source and destination buffers are distinct there.
  \<^item> \<open>Aes\<close> (\<open>crypto/aes.hpp\<close>): the same on top of OpenSSL's EVP interface, whose calls are the fields of a record.
    \<open>AesProps\<close> states the documented laws of a session as the locale \<open>evp_session\<close>, proves in it that buffers,
    strings, streams and files are given back and that reserved lengths suffice, checks the laws on the
    ciphers that add a keystream, and shows two inputs on which decryption fails.
  \<^item> \<open>Digest\<close> (\<open>crypto/sha.hpp\<close>, \<open>crypto/md5.hpp\<close>): digests of buffers, strings, streams and files; all versions agree
    (locale \<open>digest_laws\<close>). \<open>Rsa\<close> (\<open>crypto/rsa.hpp\<close>): keys as PEM texts, block-wise encryption, signatures and key
    generation. \<open>RsaProps\<close> has OpenSSL's laws for blocks (locale \<open>rsa_cipher\<close>) and for keys (\<open>rsa_keys\<close>), proves that
    generated keys work together on strings, files and signatures, and shows that protected keys fail in the
    string version. Both headers use OpenSSL as a parameter; the laws are checked on reference functions.
  \<^item> \<open>Gzip\<close> (\<open>compress/gzip.hpp\<close>): the loops around zlib, whose calls are the fields of a record. \<open>GzipProps\<close> has
    zlib's laws (locales \<open>zlib_deflate\<close>, \<open>zlib_inflate\<close>, \<open>zlib_contract\<close>), the round trips, the output limit
    for every behaviour of zlib, and the treatment of large, truncated and empty inputs.
  \<^item> \<open>License\<close> (\<open>util/license.hpp\<close>): issuer and verifier of licences on top of jwt-cpp, whose calls are the fields of a
    record. \<open>LicenseProps\<close> proves the issuer's quota over all interleavings of calls, that accepted licences were
    checked, and (locale \<open>jwt_contract\<close>) that issued ones are accepted; and three calls that go wrong.

  \<^bold>\<open>Bounds and loops.\<close> Loops are structural recursion or functions with a measure. Loops that can run
  forever (a waiting loop, a zero block size, a cyclic pointer structure) are \<open>partial_function (option)\<close>,
  where \<open>None\<close> is divergence, and the properties prove that the result is \<open>Some\<close>. Word widths are
  those of the source on a 64-bit target; sizes that memory bounds are natural numbers.

  \<^bold>\<open>Not modelled.\<close> Wrappers around third-party libraries and system calls (networking apart from the TCP connection, hardware, operating
  system, database drivers, inference, documents, logging), because their behaviour is
  not in the sources.
\<close>

end
